(* ===== verification/Prelude.thy ===== *)
theory Prelude
  imports Main "HOL-Library.Word"
begin

text \<open>
  Shared ground of the development: the machine types of the C sources
  (\<^verbatim>\<open>include/types.h\<close>), the configuration constants (\<^verbatim>\<open>include/param.h\<close>,
  \<^verbatim>\<open>include/fs.h\<close>), the outcome of a kernel routine (it returns, panics, puts its
  process to sleep, or runs into behaviour that C leaves undefined), sequencing and
  bounded loops over outcomes, and little-endian access to byte arrays, which is how
  the on-disk structures of the file system are read and written.
\<close>

unbundle bit_operations_syntax

section \<open>Machine types and configuration constants\<close>

type_synonym byte = "8 word"
type_synonym u16 = "16 word"
type_synonym u32 = "32 word"

text \<open>Arithmetic on the 32 bits of an \<^verbatim>\<open>int\<close>. C leaves signed overflow undefined; this is what the machine's instructions do.\<close>

definition wrap32 :: "int \<Rightarrow> int" where
  "wrap32 n = sint (of_int n :: u32)"

abbreviation (input) NPROC :: nat where "NPROC \<equiv> 64"
abbreviation (input) NOFILE :: nat where "NOFILE \<equiv> 16"
abbreviation (input) NFILE :: nat where "NFILE \<equiv> 100"
abbreviation (input) NINODE :: nat where "NINODE \<equiv> 50"
abbreviation (input) NDEV :: nat where "NDEV \<equiv> 10"
abbreviation (input) ROOTDEV :: nat where "ROOTDEV \<equiv> 1"
abbreviation (input) ROOTINO :: nat where "ROOTINO \<equiv> 1"
abbreviation (input) MAXARG :: nat where "MAXARG \<equiv> 32"
abbreviation (input) MAXOPBLOCKS :: nat where "MAXOPBLOCKS \<equiv> 10"
abbreviation (input) LOGSIZE :: nat where "LOGSIZE \<equiv> 30"
abbreviation (input) NBUF :: nat where "NBUF \<equiv> 30"
abbreviation (input) FSSIZE :: nat where "FSSIZE \<equiv> 4000"
abbreviation (input) BSIZE :: nat where "BSIZE \<equiv> 512"

section \<open>Outcomes of kernel routines\<close>

text \<open>
  A sleep channel is an address in the C code; every address the kernel sleeps on is one
  of these: the lock of a buffer or an inode, a buffer waiting for the disk, the log, the
  two counters of a pipe, a process waiting for its children, the clock and the console.
\<close>

datatype chan =
    ChanBufLock nat
  | ChanBuf nat
  | ChanInodeLock nat
  | ChanLog
  | ChanPipeRead u32
  | ChanPipeWrite u32
  | ChanProc nat
  | ChanTicks
  | ChanInput

text \<open>
  \<open>Ok a s\<close>: the routine returned \<open>a\<close> in state \<open>s\<close>. \<open>Panic m\<close>: it called
  \<^verbatim>\<open>panic(m)\<close>. \<open>Sleep c s\<close>: the calling process went to sleep on \<open>c\<close> and
  \<open>s\<close> is the state it left behind. \<open>Undef m\<close>: the C code dereferenced a null pointer
  or indexed outside an array.
\<close>

datatype ('s, 'a) outcome =
    Ok 'a 's
  | Panic string
  | Sleep chan 's
  | Undef string

definition on :: "('s, 'a) outcome \<Rightarrow> ('a \<Rightarrow> 's \<Rightarrow> ('s, 'b) outcome) \<Rightarrow> ('s, 'b) outcome" where
  "on m k = (case m of Ok a s \<Rightarrow> k a s | Panic e \<Rightarrow> Panic e | Sleep c s \<Rightarrow> Sleep c s | Undef e \<Rightarrow> Undef e)"

lemma on_simps [simp]:
  "on (Ok a s) k = k a s"
  "on (Panic e) k = Panic e"
  "on (Sleep c s) k = Sleep c s"
  "on (Undef e) k = Undef e"
  by (simp_all add: on_def)

lemma on_eq_Ok: "on m k = Ok b t \<longleftrightarrow> (\<exists>a s. m = Ok a s \<and> k a s = Ok b t)"
  by (cases m) auto

lemma onE:
  assumes "on m k = Ok b t"
  obtains a s where "m = Ok a s" and "k a s = Ok b t"
  using assms by (auto simp: on_eq_Ok)

lemma on_assoc: "on (on m k) h = on m (\<lambda>a s. on (k a s) h)"
  by (cases m) auto

lemma on_cong [fundef_cong]:
  "m = m' \<Longrightarrow> (\<And>a s. m' = Ok a s \<Longrightarrow> k a s = k' a s) \<Longrightarrow> on m k = on m' k'"
  by (cases m') auto

text \<open>A \<^verbatim>\<open>for\<close> loop over a fixed range that has no early exit.\<close>

fun loop :: "('x \<Rightarrow> 's \<Rightarrow> ('s, unit) outcome) \<Rightarrow> 'x list \<Rightarrow> 's \<Rightarrow> ('s, unit) outcome" where
  "loop f [] s = Ok () s"
| "loop f (x # xs) s = on (f x s) (\<lambda>_ s. loop f xs s)"

lemma loop_append: "loop f (xs @ ys) s = on (loop f xs s) (\<lambda>_ s. loop f ys s)"
  by (induction xs arbitrary: s) (auto simp: on_assoc intro!: on_cong)

lemma loop_cong [fundef_cong]:
  "xs = ys \<Longrightarrow> s = t \<Longrightarrow> (\<And>x s. x \<in> set ys \<Longrightarrow> f x s = g x s) \<Longrightarrow> loop f xs s = loop g ys t"
  by (induction xs arbitrary: ys s t) (auto intro!: on_cong)

lemma loop_one: "loop f [x] s = f x s"
  by (cases "f x s") simp_all

lemma loop_Suc: "loop f [0..<Suc n] s = on (loop f [0..<n] s) (\<lambda>_ t. f n t)"
  by (simp add: loop_append loop_one del: loop.simps(2))

lemma loop_skip: "(\<And>x. x \<in> set xs \<Longrightarrow> f x s = Ok () s) \<Longrightarrow> loop f xs s = Ok () s"
  by (induction xs) auto

lemma loop_inv:
  assumes "loop f xs s = Ok u t" and "I s"
    and "\<And>x s v t. x \<in> set xs \<Longrightarrow> I s \<Longrightarrow> f x s = Ok v t \<Longrightarrow> I t"
  shows "I t"
  using assms
proof (induction xs arbitrary: s)
  case Nil
  then show ?case by simp
next
  case (Cons x xs)
  from Cons.prems(1) obtain a s' where "f x s = Ok a s'" and l: "loop f xs s' = Ok u t"
    by (auto simp: on_eq_Ok)
  with Cons.prems have "I s'" by auto
  with Cons.IH [OF l] Cons.prems(3) show ?case by auto
qed

lemma loop_total:
  assumes "\<And>k s. k \<in> set ks \<Longrightarrow> I s \<Longrightarrow> \<exists>s'. f k s = Ok () s' \<and> I s'" and "I s"
  shows "\<exists>s'. loop f ks s = Ok () s' \<and> I s'"
  using assms
proof (induction ks arbitrary: s)
  case (Cons k ks)
  from Cons.prems(1) [of k s] Cons.prems(2) obtain t where "f k s = Ok () t" "I t" by auto
  with Cons.IH [of t] Cons.prems(1) show ?case by simp
qed simp

section \<open>Little-endian access to byte arrays\<close>

definition le32 :: "byte \<Rightarrow> byte \<Rightarrow> byte \<Rightarrow> byte \<Rightarrow> u32" where
  "le32 a b c d = ucast a OR push_bit 8 (ucast b) OR push_bit 16 (ucast c) OR push_bit 24 (ucast d)"

definition byte_of :: "nat \<Rightarrow> u32 \<Rightarrow> byte" where
  "byte_of k w = ucast (drop_bit (8 * k) w)"

definition le16 :: "byte \<Rightarrow> byte \<Rightarrow> u16" where
  "le16 a b = ucast a OR push_bit 8 (ucast b)"

definition lo16 :: "u16 \<Rightarrow> byte" where
  "lo16 w = ucast w"

definition hi16 :: "u16 \<Rightarrow> byte" where
  "hi16 w = ucast (drop_bit 8 w)"

lemma le32_byte_of [simp]:
  "le32 (byte_of 0 w) (byte_of (Suc 0) w) (byte_of 2 w) (byte_of 3 w) = w"
proof (rule bit_word_eqI)
  fix n assume "n < LENGTH(32)"
  then consider "n < 8" | "8 \<le> n \<and> n < 16" | "16 \<le> n \<and> n < 24" | "24 \<le> n \<and> n < 32"
    by fastforce
  then show "bit (le32 (byte_of 0 w) (byte_of (Suc 0) w) (byte_of 2 w) (byte_of 3 w)) n = bit w n"
    by cases (auto simp: le32_def byte_of_def bit_simps)
qed

lemma byte_of_le32 [simp]:
  "byte_of 0 (le32 a b c d) = a" "byte_of (Suc 0) (le32 a b c d) = b"
  "byte_of 2 (le32 a b c d) = c" "byte_of 3 (le32 a b c d) = d"
  by (rule bit_word_eqI, auto simp: le32_def byte_of_def bit_simps dest: bit_imp_le_length)+

lemma le16_parts [simp]: "le16 (lo16 w) (hi16 w) = w"
proof (rule bit_word_eqI)
  fix n assume "n < LENGTH(16)"
  then consider "n < 8" | "8 \<le> n \<and> n < 16"
    by fastforce
  then show "bit (le16 (lo16 w) (hi16 w)) n = bit w n"
    by cases (auto simp: le16_def lo16_def hi16_def bit_simps)
qed

lemma lo16_le16 [simp]: "lo16 (le16 a b) = a" and hi16_le16 [simp]: "hi16 (le16 a b) = b"
  by (rule bit_word_eqI, auto simp: le16_def lo16_def hi16_def bit_simps dest: bit_imp_le_length)+

definition get32 :: "byte list \<Rightarrow> nat \<Rightarrow> u32" where
  "get32 xs i = le32 (xs ! i) (xs ! (i + 1)) (xs ! (i + 2)) (xs ! (i + 3))"

definition put32 :: "nat \<Rightarrow> u32 \<Rightarrow> byte list \<Rightarrow> byte list" where
  "put32 i w xs = xs[i := byte_of 0 w, i + 1 := byte_of 1 w, i + 2 := byte_of 2 w, i + 3 := byte_of 3 w]"

definition get16 :: "byte list \<Rightarrow> nat \<Rightarrow> u16" where
  "get16 xs i = le16 (xs ! i) (xs ! (i + 1))"

definition put16 :: "nat \<Rightarrow> u16 \<Rightarrow> byte list \<Rightarrow> byte list" where
  "put16 i w xs = xs[i := lo16 w, i + 1 := hi16 w]"

text \<open>Copying \<open>ys\<close> into \<open>xs\<close> at offset \<open>i\<close>: \<^verbatim>\<open>memmove(xs + i, ys, len)\<close> between
  different arrays.\<close>

definition splice :: "nat \<Rightarrow> 'a list \<Rightarrow> 'a list \<Rightarrow> 'a list" where
  "splice i ys xs = take i xs @ ys @ drop (i + length ys) xs"

definition slice :: "nat \<Rightarrow> nat \<Rightarrow> 'a list \<Rightarrow> 'a list" where
  "slice i n xs = take n (drop i xs)"

named_theorems bytes_simps \<open>reading and writing fields of byte arrays\<close>

lemma length_put32 [simp]: "length (put32 i w xs) = length xs"
  by (simp add: put32_def)

lemma length_put16 [simp]: "length (put16 i w xs) = length xs"
  by (simp add: put16_def)

lemma length_splice [simp]: "i + length ys \<le> length xs \<Longrightarrow> length (splice i ys xs) = length xs"
  by (simp add: splice_def)

lemma length_slice [simp]: "i + n \<le> length xs \<Longrightarrow> length (slice i n xs) = n"
  by (simp add: slice_def)

lemma get32_put32_same [bytes_simps]: "i + 4 \<le> length xs \<Longrightarrow> get32 (put32 i w xs) i = w"
  by (simp add: get32_def put32_def nth_list_update)

lemma get32_put32_other [bytes_simps]: "i + 4 \<le> j \<or> j + 4 \<le> i \<Longrightarrow> get32 (put32 i w xs) j = get32 xs j"
  by (auto simp: get32_def put32_def nth_list_update)

lemma get16_put16_same [bytes_simps]: "i + 2 \<le> length xs \<Longrightarrow> get16 (put16 i w xs) i = w"
  by (simp add: get16_def put16_def nth_list_update)

lemma get16_put16_other [bytes_simps]: "i + 2 \<le> j \<or> j + 2 \<le> i \<Longrightarrow> get16 (put16 i w xs) j = get16 xs j"
  by (auto simp: get16_def put16_def nth_list_update)

lemma get16_put32_other [bytes_simps]: "i + 4 \<le> j \<or> j + 2 \<le> i \<Longrightarrow> get16 (put32 i w xs) j = get16 xs j"
  by (auto simp: get16_def put32_def nth_list_update)

lemma get32_put16_other [bytes_simps]: "i + 2 \<le> j \<or> j + 4 \<le> i \<Longrightarrow> get32 (put16 i w xs) j = get32 xs j"
  by (auto simp: get32_def put16_def nth_list_update)

lemma nth_splice:
  "i + length ys \<le> length xs \<Longrightarrow> k < length xs \<Longrightarrow>
   splice i ys xs ! k = (if i \<le> k \<and> k < i + length ys then ys ! (k - i) else xs ! k)"
  by (auto simp: splice_def nth_append min_def)

lemma slice_splice_same: "i + length ys \<le> length xs \<Longrightarrow> slice i (length ys) (splice i ys xs) = ys"
  by (simp add: slice_def splice_def min_def)

lemma slice_splice_other:
  assumes "i + length ys \<le> length xs" and "j + n \<le> length xs"
    and "j + n \<le> i \<or> i + length ys \<le> j"
  shows "slice j n (splice i ys xs) = slice j n xs"
  using assms by (intro nth_equalityI) (auto simp: slice_def nth_splice)

lemma slice_all [simp]: "slice 0 (length xs) xs = xs"
  by (simp add: slice_def)

lemma get32_replicate0 [simp]: "i + 3 < n \<Longrightarrow> get32 (replicate n 0) i = 0"
  by (simp add: get32_def le32_def)

lemma unat_lt32: "unat (x :: u32) < 2 ^ 32"
proof -
  have "unat x < 2 ^ LENGTH(32)" by (rule unsigned_less)
  then show ?thesis by simp
qed

lemma sint_of_nat_small: "n < 2 ^ 31 \<Longrightarrow> sint (of_nat n :: u32) = int n"
  by (simp add: signed_of_nat signed_take_bit_int_eq_self)

lemma wrap32_id: "- (2 ^ 31) \<le> n \<Longrightarrow> n < 2 ^ 31 \<Longrightarrow> wrap32 n = n"
  by (simp add: wrap32_def signed_of_int signed_take_bit_int_eq_self)

lemma word_add_overflow: "(off + n < off) \<longleftrightarrow> 2 ^ 32 \<le> unat off + unat n" for off n :: u32
proof -
  have "unat (off + n) = (if unat off + unat n < 2 ^ 32 then unat off + unat n else unat off + unat n - 2 ^ 32)"
    using unat_lt32 [of off] unat_lt32 [of n] by (simp add: unat_plus_if_size word_size)
  then show ?thesis using unat_lt32 [of n] by (auto simp: word_less_nat_alt)
qed

lemma unat_add_no_overflow: "unat off + unat n < 2 ^ 32 \<Longrightarrow> unat (off + n) = unat off + unat n" for off n :: u32
  by (simp add: unat_plus_if_size word_size)

lemma sint_small: "unat (x :: u32) < 2 ^ 31 \<Longrightarrow> sint x = int (unat x)"
  using sint_of_nat_small [of "unat x"] by simp

lemma unat_of_nat32: "x < 2 ^ 32 \<Longrightarrow> unat (of_nat x :: u32) = x"
  by (simp add: unsigned_of_nat take_bit_nat_eq_self)

section \<open>Lists and finite searches\<close>

text \<open>The first index below \<open>n\<close> that satisfies \<open>P\<close>: the shape of every scan over a
  fixed-size table (\<^verbatim>\<open>for(i = 0; i < n; i++) if(P(i)) ...\<close>).\<close>

definition first_index :: "(nat \<Rightarrow> bool) \<Rightarrow> nat \<Rightarrow> nat option" where
  "first_index P n = find P [0..<n]"

lemma first_index_Some:
  "first_index P n = Some i \<longleftrightarrow> i < n \<and> P i \<and> (\<forall>j < i. \<not> P j)"
  by (auto simp: first_index_def find_Some_iff)

lemma first_index_None: "first_index P n = None \<longleftrightarrow> (\<forall>i < n. \<not> P i)"
  by (auto simp: first_index_def find_None_iff)

lemma nth_list_update_if: "xs[i := x] ! j = (if j = i \<and> i < length xs then x else xs ! j)"
  by (cases "i < length xs") (auto simp: nth_list_update list_update_beyond)

lemma find_SomeD: "find P xs = Some x \<Longrightarrow> x \<in> set xs \<and> P x"
  by (auto simp: find_Some_iff)

lemma find_cong_set: "(\<And>x. x \<in> set xs \<Longrightarrow> P x = Q x) \<Longrightarrow> find P xs = find Q xs"
  by (induction xs) auto

end
