(* ===== verification/Proc_Table.thy ===== *)
theory Proc_Table
  imports Prelude
begin

text \<open>
  The process table (\<^verbatim>\<open>include/proc.h\<close>, \<^verbatim>\<open>system/core/proc.c\<close>): the record of a
  process, the table with the process that runs on this CPU, and the primitives that
  every other component calls: \<^verbatim>\<open>sleep\<close>, \<^verbatim>\<open>wakeup\<close> and \<^verbatim>\<open>kill\<close>. Pointers into
  a table of the kernel (\<^verbatim>\<open>struct proc*\<close>, \<^verbatim>\<open>struct file*\<close>, \<^verbatim>\<open>struct inode*\<close>)
  are indices, the null pointer is \<open>None\<close>. The later state records extend \<open>pst\<close>, so
  the routines here apply to every kernel state.
\<close>

section \<open>Processes\<close>

datatype procstate = UNUSED | EMBRYO | SLEEPING | RUNNABLE | RUNNING | ZOMBIE

record trapframe =
  tf_edi :: u32
  tf_esi :: u32
  tf_ebp :: u32
  tf_oesp :: u32
  tf_ebx :: u32
  tf_edx :: u32
  tf_ecx :: u32
  tf_eax :: u32
  tf_gs :: u16
  tf_fs :: u16
  tf_es :: u16
  tf_ds :: u16
  tf_trapno :: u32
  tf_err :: u32
  tf_eip :: u32
  tf_cs :: u16
  tf_eflags :: u32
  tf_esp :: u32
  tf_ss :: u16

record ctxt =
  cx_edi :: u32
  cx_esi :: u32
  cx_ebx :: u32
  cx_ebp :: u32
  cx_eip :: u32

record proc =
  p_sz :: u32
  p_pgdir :: u32
  p_kstack :: u32
  p_state :: procstate
  p_pid :: int
  p_parent :: "nat option"
  p_tf :: trapframe
  p_context :: ctxt
  p_chan :: "chan option"
  p_killed :: bool
  p_ofile :: "nat option list"
  p_cwd :: "nat option"
  p_name :: "byte list"

record pst =
  ptable :: "proc list"
  cur :: nat
  initproc :: nat
  nextpid :: int

definition myproc :: "'a pst_scheme \<Rightarrow> proc" where
  "myproc s = ptable s ! cur s"

definition upd_proc :: "nat \<Rightarrow> (proc \<Rightarrow> proc) \<Rightarrow> 'a pst_scheme \<Rightarrow> 'a pst_scheme" where
  "upd_proc i f s = s\<lparr>ptable := (ptable s)[i := f (ptable s ! i)]\<rparr>"

section \<open>Sleep, wakeup and kill\<close>

text \<open>
  \<^verbatim>\<open>sleep(chan, lk)\<close> marks the running process and hands the CPU to the scheduler: what the
  caller observes up to that point is \<open>Sleep\<close> with the table so marked. The lock \<open>lk\<close> is
  released between taking \<^verbatim>\<open>ptable.lock\<close> and the switch, so no other code runs in between.
\<close>

definition sleep :: "chan \<Rightarrow> 'a pst_scheme \<Rightarrow> ('a pst_scheme, 'b) outcome" where
  "sleep ch s = Sleep ch (upd_proc (cur s) (\<lambda>p. p\<lparr>p_chan := Some ch, p_state := SLEEPING\<rparr>) s)"

definition wakeup1 :: "chan \<Rightarrow> proc list \<Rightarrow> proc list" where
  "wakeup1 ch = map (\<lambda>p. if p_state p = SLEEPING \<and> p_chan p = Some ch
                         then p\<lparr>p_state := RUNNABLE\<rparr> else p)"

definition wakeup :: "chan \<Rightarrow> 'a pst_scheme \<Rightarrow> 'a pst_scheme" where
  "wakeup ch s = s\<lparr>ptable := wakeup1 ch (ptable s)\<rparr>"

definition kill :: "int \<Rightarrow> 'a pst_scheme \<Rightarrow> int \<times> 'a pst_scheme" where
  "kill pid s =
     (case first_index (\<lambda>i. p_pid (ptable s ! i) = pid) NPROC of
        Some i \<Rightarrow>
          (0, upd_proc i (\<lambda>p. p\<lparr>p_killed := True,
                 p_state := (if p_state p = SLEEPING then RUNNABLE else p_state p)\<rparr>) s)
      | None \<Rightarrow> (-1, s))"

section \<open>Frame facts\<close>

lemma length_wakeup1 [simp]: "length (wakeup1 ch ps) = length ps"
  by (simp add: wakeup1_def)

lemma nth_wakeup1:
  "i < length ps \<Longrightarrow> wakeup1 ch ps ! i =
     (if p_state (ps ! i) = SLEEPING \<and> p_chan (ps ! i) = Some ch
      then (ps ! i)\<lparr>p_state := RUNNABLE\<rparr> else ps ! i)"
  by (simp add: wakeup1_def)

lemma pid_wakeup1 [simp]: "i < length ps \<Longrightarrow> p_pid (wakeup1 ch ps ! i) = p_pid (ps ! i)"
  by (simp add: nth_wakeup1)

lemma wakeup_frame [simp]:
  "cur (wakeup ch s) = cur s" "initproc (wakeup ch s) = initproc s"
  "nextpid (wakeup ch s) = nextpid s" "pst.more (wakeup ch s) = pst.more s"
  "length (ptable (wakeup ch s)) = length (ptable s)"
  by (simp_all add: wakeup_def)

lemma upd_proc_frame [simp]:
  "cur (upd_proc i f s) = cur s" "initproc (upd_proc i f s) = initproc s"
  "nextpid (upd_proc i f s) = nextpid s" "pst.more (upd_proc i f s) = pst.more s"
  "length (ptable (upd_proc i f s)) = length (ptable s)"
  by (simp_all add: upd_proc_def)

text \<open>The process that runs is a slot of the table and does not sleep: it is never changed by
  a wakeup, so its pid, which sleep locks record, is stable.\<close>

definition proc_ok :: "'a pst_scheme \<Rightarrow> bool" where
  "proc_ok s \<longleftrightarrow> length (ptable s) = NPROC \<and> cur s < NPROC \<and> p_state (myproc s) = RUNNING"

definition mypid :: "'a pst_scheme \<Rightarrow> int" where
  "mypid s = p_pid (myproc s)"

lemma myproc_wakeup [simp]: "proc_ok s \<Longrightarrow> myproc (wakeup ch s) = myproc s"
  by (simp add: myproc_def proc_ok_def wakeup_def nth_wakeup1)

lemma proc_ok_wakeup [simp]: "proc_ok s \<Longrightarrow> proc_ok (wakeup ch s)"
  by (simp add: myproc_def proc_ok_def wakeup_def nth_wakeup1)

lemma mypid_wakeup [simp]: "proc_ok s \<Longrightarrow> mypid (wakeup ch s) = mypid s"
  by (simp add: mypid_def)

end
