(* ===== verification/Sleeplock.thy ===== *)
theory Sleeplock
  imports Proc_Table
begin

text \<open>
  Long-term locks (\<^verbatim>\<open>system/sync/sleeplock.c\<close>). A sleep lock lives inside a buffer or an
  inode, so the routines take the value of the lock and return its new value; \<open>ch\<close> is the
  lock's address, the channel a contending process sleeps on. The spinlock inside a sleep
  lock is held only inside these routines.
\<close>

record sleeplock =
  sl_locked :: bool
  sl_pid :: int

definition initsleeplock :: sleeplock where
  "initsleeplock = \<lparr>sl_locked = False, sl_pid = 0\<rparr>"

definition acquiresleep ::
    "chan \<Rightarrow> sleeplock \<Rightarrow> 'a pst_scheme \<Rightarrow> ('a pst_scheme, sleeplock) outcome" where
  "acquiresleep ch lk s =
     (if sl_locked lk then sleep ch s
      else Ok (lk\<lparr>sl_locked := True, sl_pid := p_pid (myproc s)\<rparr>) s)"

definition releasesleep ::
    "chan \<Rightarrow> sleeplock \<Rightarrow> 'a pst_scheme \<Rightarrow> sleeplock \<times> 'a pst_scheme" where
  "releasesleep ch lk s = (lk\<lparr>sl_locked := False, sl_pid := 0\<rparr>, wakeup ch s)"

definition holdingsleep :: "sleeplock \<Rightarrow> 'a pst_scheme \<Rightarrow> bool" where
  "holdingsleep lk s \<longleftrightarrow> sl_locked lk \<and> sl_pid lk = p_pid (myproc s)"

lemma acquiresleep_Ok:
  "acquiresleep ch lk s = Ok lk' s' \<longleftrightarrow>
     \<not> sl_locked lk \<and> s' = s \<and> lk' = \<lparr>sl_locked = True, sl_pid = mypid s\<rparr>"
  by (cases lk) (auto simp: acquiresleep_def sleep_def mypid_def)

lemma acquiresleep_holding:
  "acquiresleep ch lk s = Ok lk' s' \<Longrightarrow> holdingsleep lk' s'"
  by (auto simp: acquiresleep_Ok holdingsleep_def mypid_def)

end
