(* ===== verification/Bio.thy ===== *)
theory Bio
  imports Sleeplock
begin

text \<open>
  The buffer cache (\<^verbatim>\<open>system/storage/bio.c\<close>, \<^verbatim>\<open>include/buf.h\<close>) over the block device of
  the memory-disk build (\<^verbatim>\<open>system/storage/memide.c\<close>). A buffer pointer is its index in
  \<^verbatim>\<open>bcache.buf\<close>; the doubly linked LRU list is the list of indices from the most to the
  least recently used. \<open>dwrites\<close> is a history variable: the sequence of block writes that
  reached the device, in order, which is what a crash can cut short.
\<close>

section \<open>State\<close>

record buf =
  b_valid :: bool
  b_dirty :: bool
  b_dev :: nat
  b_blockno :: nat
  b_lock :: sleeplock
  b_refcnt :: nat
  b_data :: "byte list"

record bst = pst +
  bufs :: "buf list"
  lru :: "nat list"
  disk :: "nat \<Rightarrow> byte list"
  disksize :: nat
  dwrites :: "(nat \<times> byte list) list"

abbreviation buf :: "'a bst_scheme \<Rightarrow> nat \<Rightarrow> buf" where
  "buf s i \<equiv> bufs s ! i"

definition upd_buf :: "nat \<Rightarrow> (buf \<Rightarrow> buf) \<Rightarrow> 'a bst_scheme \<Rightarrow> 'a bst_scheme" where
  "upd_buf i f s = s\<lparr>bufs := (bufs s)[i := f (buf s i)]\<rparr>"

section \<open>Operations\<close>

text \<open>Each buffer is linked in at the head, so the list ends up in reverse order.\<close>

definition binit :: "'a bst_scheme \<Rightarrow> 'a bst_scheme" where
  "binit s = s\<lparr>bufs := map (\<lambda>b. b\<lparr>b_lock := initsleeplock\<rparr>) (bufs s),
               lru := fold (\<lambda>i l. i # l) [0..<NBUF] []\<rparr>"

definition lock_buf :: "nat \<Rightarrow> 'a bst_scheme \<Rightarrow> ('a bst_scheme, nat) outcome" where
  "lock_buf i s =
     on (acquiresleep (ChanBufLock i) (b_lock (buf s i)) s) (\<lambda>lk s.
     Ok i (upd_buf i (\<lambda>b. b\<lparr>b_lock := lk\<rparr>) s))"

definition bget :: "nat \<Rightarrow> nat \<Rightarrow> 'a bst_scheme \<Rightarrow> ('a bst_scheme, nat) outcome" where
  "bget dev blockno s =
     (case find (\<lambda>i. b_dev (buf s i) = dev \<and> b_blockno (buf s i) = blockno) (lru s) of
        Some i \<Rightarrow> lock_buf i (upd_buf i (\<lambda>b. b\<lparr>b_refcnt := b_refcnt b + 1\<rparr>) s)
      | None \<Rightarrow>
          (case find (\<lambda>i. b_refcnt (buf s i) = 0 \<and> \<not> b_dirty (buf s i)) (rev (lru s)) of
             Some i \<Rightarrow> lock_buf i (upd_buf i (\<lambda>b. b\<lparr>b_dev := dev, b_blockno := blockno,
                         b_valid := False, b_dirty := False, b_refcnt := 1\<rparr>) s)
           | None \<Rightarrow> Panic ''bget: no buffers''))"

definition iderw :: "nat \<Rightarrow> 'a bst_scheme \<Rightarrow> ('a bst_scheme, unit) outcome" where
  "iderw i s =
     (let b = buf s i in
      if \<not> holdingsleep (b_lock b) s then Panic ''iderw: buf not locked''
      else if b_valid b \<and> \<not> b_dirty b then Panic ''iderw: nothing to do''
      else if b_dev b \<noteq> 1 then Panic ''iderw: request not for disk 1''
      else if b_blockno b \<ge> disksize s then Panic ''iderw: block out of range''
      else if b_dirty b then
        Ok () (upd_buf i (\<lambda>b. b\<lparr>b_dirty := False, b_valid := True\<rparr>)
                 (s\<lparr>disk := (disk s)(b_blockno b := b_data b),
                    dwrites := dwrites s @ [(b_blockno b, b_data b)]\<rparr>))
      else
        Ok () (upd_buf i (\<lambda>b. b\<lparr>b_data := disk s (b_blockno b), b_valid := True\<rparr>) s))"

definition bread :: "nat \<Rightarrow> nat \<Rightarrow> 'a bst_scheme \<Rightarrow> ('a bst_scheme, nat) outcome" where
  "bread dev blockno s =
     on (bget dev blockno s) (\<lambda>i s.
     if \<not> b_valid (buf s i) then on (iderw i s) (\<lambda>_ s. Ok i s) else Ok i s)"

definition bwrite :: "nat \<Rightarrow> 'a bst_scheme \<Rightarrow> ('a bst_scheme, unit) outcome" where
  "bwrite i s =
     (if \<not> holdingsleep (b_lock (buf s i)) s then Panic ''bwrite''
      else iderw i (upd_buf i (\<lambda>b. b\<lparr>b_dirty := True\<rparr>) s))"

definition brelse :: "nat \<Rightarrow> 'a bst_scheme \<Rightarrow> ('a bst_scheme, unit) outcome" where
  "brelse i s =
     (if \<not> holdingsleep (b_lock (buf s i)) s then Panic ''brelse''
      else
        (let (lk, s) = releasesleep (ChanBufLock i) (b_lock (buf s i)) s;
             s = upd_buf i (\<lambda>b. b\<lparr>b_lock := lk, b_refcnt := b_refcnt b - 1\<rparr>) s
         in Ok () (if b_refcnt (buf s i) = 0 then s\<lparr>lru := i # remove1 i (lru s)\<rparr> else s)))"

text \<open>Changing the data of a buffer one holds: \<^verbatim>\<open>bp->data[...] = ...\<close> in the callers.\<close>

definition upd_data :: "nat \<Rightarrow> (byte list \<Rightarrow> byte list) \<Rightarrow> 'a bst_scheme \<Rightarrow> 'a bst_scheme" where
  "upd_data i f s = upd_buf i (\<lambda>b. b\<lparr>b_data := f (b_data b)\<rparr>) s"

text \<open>\<^verbatim>\<open>b->flags |= B_DIRTY\<close>: the buffer is pinned in the cache until it is written.\<close>

definition set_dirty :: "nat \<Rightarrow> 'a bst_scheme \<Rightarrow> 'a bst_scheme" where
  "set_dirty i s = upd_buf i (\<lambda>b. b\<lparr>b_dirty := True\<rparr>) s"

section \<open>What the cache represents\<close>

text \<open>The logical content of a block: the cached copy if there is one, else the device's.\<close>

definition cached :: "'a bst_scheme \<Rightarrow> nat \<Rightarrow> nat option" where
  "cached s b = first_index (\<lambda>i. b_dev (buf s i) = 1 \<and> b_blockno (buf s i) = b) NBUF"

definition content :: "'a bst_scheme \<Rightarrow> nat \<Rightarrow> byte list" where
  "content s b = (case cached s b of Some i \<Rightarrow> b_data (buf s i) | None \<Rightarrow> disk s b)"

definition dirtyset :: "'a bst_scheme \<Rightarrow> nat set" where
  "dirtyset s = {b. \<exists>i < NBUF. b_dev (buf s i) = 1 \<and> b_blockno (buf s i) = b \<and> b_dirty (buf s i)}"

definition lockset :: "'a bst_scheme \<Rightarrow> nat set" where
  "lockset s = {b. \<exists>i < NBUF. b_dev (buf s i) = 1 \<and> b_blockno (buf s i) = b \<and> sl_locked (b_lock (buf s i))}"

text \<open>The running process holds buffer \<open>i\<close>, which caches block \<open>b\<close>.\<close>

definition holds :: "'a bst_scheme \<Rightarrow> nat \<Rightarrow> nat \<Rightarrow> bool" where
  "holds s i b \<longleftrightarrow> i < NBUF \<and> b_dev (buf s i) = 1 \<and> b_blockno (buf s i) = b \<and>
     sl_locked (b_lock (buf s i)) \<and> sl_pid (b_lock (buf s i)) = mypid s"

section \<open>Invariant\<close>

definition buf_ok :: "(nat \<Rightarrow> byte list) \<Rightarrow> nat \<Rightarrow> buf \<Rightarrow> bool" where
  "buf_ok d n b \<longleftrightarrow>
     length (b_data b) = BSIZE \<and>
     (b_dev b \<noteq> 1 \<longrightarrow> \<not> b_valid b \<and> \<not> b_dirty b \<and> b_refcnt b = 0 \<and> \<not> sl_locked (b_lock b)) \<and>
     (b_dev b = 1 \<longrightarrow> b_valid b \<and> b_blockno b < n) \<and>
     (sl_locked (b_lock b) \<longrightarrow> 0 < b_refcnt b) \<and>
     (b_dev b = 1 \<and> \<not> b_dirty b \<and> \<not> sl_locked (b_lock b) \<longrightarrow> b_data b = d (b_blockno b))"

definition bio_inv :: "'a bst_scheme \<Rightarrow> bool" where
  "bio_inv s \<longleftrightarrow>
     proc_ok s \<and> length (bufs s) = NBUF \<and> distinct (lru s) \<and> set (lru s) = {..<NBUF} \<and>
     (\<forall>b. length (disk s b) = BSIZE) \<and>
     (\<forall>i < NBUF. buf_ok (disk s) (disksize s) (buf s i)) \<and>
     (\<forall>i < NBUF. \<forall>j < NBUF. b_dev (buf s i) = 1 \<and> b_dev (buf s j) = 1 \<and>
        b_blockno (buf s i) = b_blockno (buf s j) \<longrightarrow> i = j)"

text \<open>What no operation of the cache touches: the running process and the rest of the kernel
  state.\<close>

definition same_rest :: "'a bst_scheme \<Rightarrow> 'a bst_scheme \<Rightarrow> bool" where
  "same_rest s s' \<longleftrightarrow> cur s' = cur s \<and> myproc s' = myproc s \<and> initproc s' = initproc s \<and>
     nextpid s' = nextpid s \<and> length (ptable s') = length (ptable s) \<and>
     disksize s' = disksize s \<and> bst.more s' = bst.more s"

section \<open>Buffers and the invariant\<close>

lemma upd_buf_simps [simp]:
  "length (bufs (upd_buf i f s)) = length (bufs s)"
  "ptable (upd_buf i f s) = ptable s" "cur (upd_buf i f s) = cur s"
  "initproc (upd_buf i f s) = initproc s" "nextpid (upd_buf i f s) = nextpid s"
  "lru (upd_buf i f s) = lru s" "disk (upd_buf i f s) = disk s"
  "disksize (upd_buf i f s) = disksize s" "dwrites (upd_buf i f s) = dwrites s"
  "bst.more (upd_buf i f s) = bst.more s"
  "mypid (upd_buf i f s) = mypid s" "myproc (upd_buf i f s) = myproc s"
  by (simp_all add: upd_buf_def mypid_def myproc_def)

lemma myproc_bst [simp]:
  "myproc (s\<lparr>bufs := x\<rparr>) = myproc s" "myproc (s\<lparr>lru := l\<rparr>) = myproc s"
  "myproc (s\<lparr>disk := d\<rparr>) = myproc s" "myproc (s\<lparr>dwrites := w\<rparr>) = myproc s"
  by (simp_all add: myproc_def)

lemma mypid_bst [simp]:
  "mypid (s\<lparr>bufs := x\<rparr>) = mypid s" "mypid (s\<lparr>lru := l\<rparr>) = mypid s"
  "mypid (s\<lparr>disk := d\<rparr>) = mypid s" "mypid (s\<lparr>dwrites := w\<rparr>) = mypid s"
  by (simp_all add: mypid_def)

lemma nth_upd_buf:
  "i < length (bufs s) \<Longrightarrow> buf (upd_buf i f s) j = (if j = i then f (buf s i) else buf s j)"
  by (simp add: upd_buf_def nth_list_update)

lemma upd_buf_same [simp]: "i < length (bufs s) \<Longrightarrow> buf (upd_buf i f s) i = f (buf s i)"
  by (simp add: nth_upd_buf)

lemma upd_buf_upd_buf [simp]:
  "i < length (bufs s) \<Longrightarrow> upd_buf i g (upd_buf i f s) = upd_buf i (\<lambda>b. g (f b)) s"
  by (simp add: upd_buf_def)

lemma bio_invD:
  assumes "bio_inv s"
  shows "proc_ok s" "length (bufs s) = NBUF" "distinct (lru s)" "set (lru s) = {..<NBUF}"
    "length (disk s b) = BSIZE"
    "i < NBUF \<Longrightarrow> buf_ok (disk s) (disksize s) (buf s i)"
    "i < NBUF \<Longrightarrow> j < NBUF \<Longrightarrow> b_dev (buf s i) = 1 \<Longrightarrow> b_dev (buf s j) = 1 \<Longrightarrow>
       b_blockno (buf s i) = b_blockno (buf s j) \<Longrightarrow> i = j"
  using assms by (auto simp: bio_inv_def)

lemma cached_Some:
  assumes "bio_inv s"
  shows "cached s b = Some i \<longleftrightarrow> i < NBUF \<and> b_dev (buf s i) = 1 \<and> b_blockno (buf s i) = b"
proof
  assume "cached s b = Some i"
  then show "i < NBUF \<and> b_dev (buf s i) = 1 \<and> b_blockno (buf s i) = b"
    by (auto simp: cached_def first_index_Some)
next
  assume h: "i < NBUF \<and> b_dev (buf s i) = 1 \<and> b_blockno (buf s i) = b"
  have "\<not> (b_dev (buf s j) = 1 \<and> b_blockno (buf s j) = b)" if "j < i" for j
    using bio_invD(7) [OF assms, of i j] h that by auto
  with h show "cached s b = Some i"
    by (auto simp: cached_def first_index_Some)
qed

lemma cached_None: "cached s b = None \<longleftrightarrow> (\<forall>i < NBUF. \<not> (b_dev (buf s i) = 1 \<and> b_blockno (buf s i) = b))"
  by (auto simp: cached_def first_index_None)

lemma content_cached:
  assumes "bio_inv s" "i < NBUF" "b_dev (buf s i) = 1" "b_blockno (buf s i) = b"
  shows "content s b = b_data (buf s i)"
proof -
  from assms have "cached s b = Some i" by (simp add: cached_Some)
  then show ?thesis by (simp add: content_def)
qed

lemma content_uncached: "cached s b = None \<Longrightarrow> content s b = disk s b"
  by (simp add: content_def)

lemma length_content:
  assumes "bio_inv s"
  shows "length (content s b) = BSIZE"
proof (cases "cached s b")
  case None
  with assms show ?thesis by (simp add: content_def bio_inv_def)
next
  case (Some i)
  with assms have "buf_ok (disk s) (disksize s) (buf s i)"
    by (intro bio_invD(6)) (auto simp: cached_Some)
  with Some show ?thesis by (simp add: content_def buf_ok_def)
qed

lemma lock_buf_Ok:
  "lock_buf i s = Ok j t \<longleftrightarrow> j = i \<and> \<not> sl_locked (b_lock (buf s i)) \<and>
     t = upd_buf i (\<lambda>b. b\<lparr>b_lock := \<lparr>sl_locked = True, sl_pid = mypid s\<rparr>\<rparr>) s"
  by (auto simp: lock_buf_def on_eq_Ok acquiresleep_Ok)

lemma bget_Ok_hit:
  assumes inv: "bio_inv s" and f: "find (\<lambda>i. b_dev (buf s i) = dev \<and> b_blockno (buf s i) = b) (lru s) = Some k"
    and bg: "bget dev b s = Ok i s'"
  shows "i = k \<and> k < NBUF \<and> b_dev (buf s k) = dev \<and> b_blockno (buf s k) = b \<and> \<not> sl_locked (b_lock (buf s k)) \<and>
    s' = upd_buf k (\<lambda>b. b\<lparr>b_refcnt := b_refcnt b + 1, b_lock := \<lparr>sl_locked = True, sl_pid = mypid s\<rparr>\<rparr>) s"
proof -
  from f have "k \<in> set (lru s)" "b_dev (buf s k) = dev" "b_blockno (buf s k) = b"
    by (auto simp: find_Some_iff)
  with bio_invD(2,4) [OF inv] bg f show ?thesis
    by (simp add: bget_def lock_buf_Ok)
qed

lemma bget_Ok_miss:
  assumes inv: "bio_inv s" and f: "find (\<lambda>i. b_dev (buf s i) = dev \<and> b_blockno (buf s i) = b) (lru s) = None"
    and bg: "bget dev b s = Ok i s'"
  shows "i < NBUF \<and> b_refcnt (buf s i) = 0 \<and> \<not> b_dirty (buf s i) \<and> \<not> sl_locked (b_lock (buf s i)) \<and>
    s' = upd_buf i (\<lambda>x. x\<lparr>b_dev := dev, b_blockno := b, b_valid := False, b_dirty := False, b_refcnt := 1,
           b_lock := \<lparr>sl_locked = True, sl_pid = mypid s\<rparr>\<rparr>) s"
proof -
  from bg f obtain k where
    k: "find (\<lambda>i. b_refcnt (buf s i) = 0 \<and> \<not> b_dirty (buf s i)) (rev (lru s)) = Some k"
    by (auto simp: bget_def split: option.splits)
  then have "k \<in> set (rev (lru s))" "b_refcnt (buf s k) = 0" "\<not> b_dirty (buf s k)"
    by (auto simp: find_Some_iff simp del: set_rev)
  with bio_invD(2,4) [OF inv] bg f k show ?thesis
    by (simp add: bget_def lock_buf_Ok)
qed

lemma bread_Ok:
  assumes inv: "bio_inv s" and br: "bread 1 b s = Ok i s'"
  obtains B where "s' = upd_buf i (\<lambda>_. B) s" "i < NBUF" "b < disksize s" "length (b_data B) = BSIZE"
    "b_valid B" "b_dev B = 1" "b_blockno B = b" "b_lock B = \<lparr>sl_locked = True, sl_pid = mypid s\<rparr>"
    "b_refcnt B = b_refcnt (buf s i) + 1" "b_data B = content s b" "b_dirty B \<longleftrightarrow> b \<in> dirtyset s"
    "\<not> sl_locked (b_lock (buf s i))"
    "\<And>j. j < NBUF \<Longrightarrow> b_dev (buf s j) = 1 \<Longrightarrow> b_blockno (buf s j) = b \<Longrightarrow> j = i"
    "b_dev (buf s i) = 1 \<and> b_blockno (buf s i) = b \<or> \<not> b_dirty (buf s i) \<and> b_refcnt (buf s i) = 0"
proof -
  note len = bio_invD(2) [OF inv]
  from br obtain s1 where bg: "bget 1 b s = Ok i s1"
    and rest: "(if \<not> b_valid (buf s1 i) then on (iderw i s1) (\<lambda>_ s. Ok i s) else Ok i s1) = Ok i s'"
    by (auto simp: bread_def on_eq_Ok split: if_splits)
  show thesis
  proof (cases "find (\<lambda>i. b_dev (buf s i) = 1 \<and> b_blockno (buf s i) = b) (lru s)")
    case (Some k)
    note h = bget_Ok_hit [OF inv Some bg]
    then have k: "i < NBUF" "b_dev (buf s i) = 1" "b_blockno (buf s i) = b" by auto
    have ok: "buf_ok (disk s) (disksize s) (buf s i)" by (rule bio_invD(6) [OF inv k(1)])
    let ?B = "(buf s i)\<lparr>b_refcnt := b_refcnt (buf s i) + 1, b_lock := \<lparr>sl_locked = True, sl_pid = mypid s\<rparr>\<rparr>"
    have "s' = upd_buf i (\<lambda>_. ?B) s" using rest h ok k(2) len
      by (simp add: buf_ok_def) (simp add: upd_buf_def)
    moreover
    have uniq: "j = i" if "j < NBUF" "b_dev (buf s j) = 1" "b_blockno (buf s j) = b" for j
      using bio_invD(7) [OF inv that(1) k(1)] that k by simp
    have "b_dirty (buf s i) \<longleftrightarrow> b \<in> dirtyset s"
      unfolding dirtyset_def using k uniq by blast
    ultimately show thesis
      using h k(1) ok content_cached [OF inv k]
      by (intro that [of ?B] uniq) (simp_all add: buf_ok_def k(2,3))
  next
    case None
    note h = bget_Ok_miss [OF inv None bg]
    have nc: "\<And>j. j < NBUF \<Longrightarrow> \<not> (b_dev (buf s j) = 1 \<and> b_blockno (buf s j) = b)"
      using None bio_invD(4) [OF inv] by (auto simp: find_None_iff)
    let ?B = "(buf s i)\<lparr>b_dev := 1, b_blockno := b, b_dirty := False, b_refcnt := 1,
       b_lock := \<lparr>sl_locked = True, sl_pid = mypid s\<rparr>, b_data := disk s b, b_valid := True\<rparr>"
    have "s' = upd_buf i (\<lambda>_. ?B) s" "b < disksize s" using rest h len
      by (auto simp: iderw_def Let_def on_eq_Ok upd_buf_def split: if_splits)
    moreover have "content s b = disk s b" using nc by (intro content_uncached) (auto simp: cached_None)
    moreover have "b \<notin> dirtyset s" using nc unfolding dirtyset_def by blast
    ultimately show thesis
      using h bio_invD(5) [OF inv] by (intro that [of ?B]) (use nc in \<open>simp_all\<close>)
  qed
qed

lemma same_rest_refl [simp]: "same_rest s s"
  by (simp add: same_rest_def)

lemma same_rest_trans: "same_rest s t \<Longrightarrow> same_rest t u \<Longrightarrow> same_rest s u"
  by (simp add: same_rest_def)

lemma same_rest_mypid: "same_rest s t \<Longrightarrow> mypid t = mypid s"
  by (simp add: same_rest_def mypid_def)

lemma same_rest_upd_buf [simp]: "same_rest s (upd_buf i f s)"
  by (simp add: same_rest_def)

text \<open>Replacing one buffer keeps the invariant if the new value is well formed and no other
  buffer caches its block.\<close>

lemma bio_inv_upd_buf:
  assumes inv: "bio_inv s" and i: "i < NBUF" and ok: "buf_ok (disk s) (disksize s) (f (buf s i))"
    and uniq: "\<And>j. j < NBUF \<Longrightarrow> b_dev (f (buf s i)) = 1 \<Longrightarrow> b_dev (buf s j) = 1 \<Longrightarrow>
                 b_blockno (buf s j) = b_blockno (f (buf s i)) \<Longrightarrow> j = i"
  shows "bio_inv (upd_buf i f s)"
proof -
  note len = bio_invD(2) [OF inv]
  have "proc_ok (upd_buf i f s)"
    using bio_invD(1) [OF inv] by (simp add: proc_ok_def)
  moreover have "buf_ok (disk s) (disksize s) (buf (upd_buf i f s) j)" if "j < NBUF" for j
    using bio_invD(6) [OF inv that] ok i len by (simp add: nth_upd_buf)
  moreover have "j = k" if "j < NBUF" "k < NBUF" "b_dev (buf (upd_buf i f s) j) = 1"
      "b_dev (buf (upd_buf i f s) k) = 1"
      "b_blockno (buf (upd_buf i f s) j) = b_blockno (buf (upd_buf i f s) k)" for j k
    using that uniq [of j] uniq [of k] bio_invD(7) [OF inv that(1,2)] i len
    by (simp add: nth_upd_buf split: if_splits)
  ultimately show ?thesis
    using bio_invD(2-5) [OF inv] unfolding bio_inv_def by simp
qed

lemma bio_inv_in_place:
  assumes inv: "bio_inv s" and i: "i < NBUF" and ok: "buf_ok (disk s) (disksize s) (f (buf s i))"
    and keep: "b_dev (f (buf s i)) = b_dev (buf s i)" "b_blockno (f (buf s i)) = b_blockno (buf s i)"
  shows "bio_inv (upd_buf i f s)"
proof (rule bio_inv_upd_buf [where f = f, OF inv i ok])
  fix j
  assume "j < NBUF" "b_dev (f (buf s i)) = 1" "b_dev (buf s j) = 1" "b_blockno (buf s j) = b_blockno (f (buf s i))"
  then show "j = i"
    using bio_invD(7) [OF inv _ i, of j] by (simp add: keep)
qed

text \<open>Changing one buffer in place, its block number kept, changes the content of that block only.\<close>

lemma content_upd_buf:
  assumes inv: "bio_inv s" and i: "i < NBUF" and d: "b_dev (buf s i) = 1"
    and keep: "b_dev (f (buf s i)) = 1" "b_blockno (f (buf s i)) = b_blockno (buf s i)"
  shows "content (upd_buf i f s) = (content s)(b_blockno (buf s i) := b_data (f (buf s i)))"
proof
  fix c
  note len = bio_invD(2) [OF inv]
  have cached: "cached (upd_buf i f s) c = cached s c"
    unfolding cached_def first_index_def
    by (rule find_cong_set) (use i d keep len in \<open>auto simp: nth_upd_buf\<close>)
  show "content (upd_buf i f s) c = ((content s)(b_blockno (buf s i) := b_data (f (buf s i)))) c"
  proof (cases "cached s c")
    case None
    then have "b_blockno (buf s i) \<noteq> c" using i d by (auto simp: cached_None)
    with None cached show ?thesis by (simp add: content_def)
  next
    case (Some j)
    then have j: "j < NBUF" "b_dev (buf s j) = 1" "b_blockno (buf s j) = c"
      by (simp_all add: cached_Some [OF inv])
    show ?thesis
    proof (cases "j = i")
      case True
      with Some cached j i len show ?thesis by (simp add: content_def)
    next
      case False
      then have "b_blockno (buf s i) \<noteq> c"
        using bio_invD(7) [OF inv i j(1) d j(2)] j by auto
      with False Some cached i len show ?thesis by (simp add: content_def nth_upd_buf)
    qed
  qed
qed

lemma bread_spec:
  assumes inv: "bio_inv s" and br: "bread 1 b s = Ok i s'"
  shows "bio_inv s'" "holds s' i b" "b_data (buf s' i) = content s b" "b < disksize s"
    "content s' = content s" "dirtyset s' = dirtyset s" "lockset s' = insert b (lockset s)"
    "b \<notin> lockset s" "disk s' = disk s" "dwrites s' = dwrites s" "same_rest s s'"
    "holds s j c \<Longrightarrow> holds s' j c \<and> b_data (buf s' j) = b_data (buf s j)"
proof -
  note len = bio_invD(2) [OF inv]
  from bread_Ok [OF inv br] obtain B where s': "s' = upd_buf i (\<lambda>_. B) s" and i: "i < NBUF"
    and b: "b < disksize s" and B: "length (b_data B) = BSIZE" "b_valid B" "b_dev B = 1" "b_blockno B = b"
      "b_lock B = \<lparr>sl_locked = True, sl_pid = mypid s\<rparr>" "b_refcnt B = b_refcnt (buf s i) + 1" "b_data B = content s b"
      "b_dirty B \<longleftrightarrow> b \<in> dirtyset s"
    and nl: "\<not> sl_locked (b_lock (buf s i))"
    and uniq: "\<And>j. j < NBUF \<Longrightarrow> b_dev (buf s j) = 1 \<Longrightarrow> b_blockno (buf s j) = b \<Longrightarrow> j = i"
    and victim: "b_dev (buf s i) = 1 \<and> b_blockno (buf s i) = b \<or> \<not> b_dirty (buf s i) \<and> b_refcnt (buf s i) = 0"
    by metis
  have bi: "buf s' j = (if j = i then B else buf s j)" for j
    using i len by (simp add: s' nth_upd_buf)
  have mp: "mypid s' = mypid s" by (simp add: s')
  show inv': "bio_inv s'"
    unfolding s' by (rule bio_inv_upd_buf [OF inv i]) (use B b uniq in \<open>auto simp: buf_ok_def\<close>)
  show "b < disksize s" by (rule b)
  show "holds s' i b" using i B by (simp add: holds_def bi mp)
  show "b_data (buf s' i) = content s b" using B by (simp add: bi)
  show "disk s' = disk s" "dwrites s' = dwrites s" "same_rest s s'" by (simp_all add: s')
  show "holds s' j c \<and> b_data (buf s' j) = b_data (buf s j)" if "holds s j c"
    using that nl by (auto simp: holds_def bi mp)
  show "b \<notin> lockset s"
    using nl uniq unfolding lockset_def by blast
  show "lockset s' = insert b (lockset s)"
    using nl i B unfolding lockset_def bi by (auto split: if_splits)
  show "dirtyset s' = dirtyset s"
  proof -
    have "(\<exists>j<NBUF. b_dev (buf s' j) = 1 \<and> b_blockno (buf s' j) = c \<and> b_dirty (buf s' j)) \<longleftrightarrow>
          (\<exists>j<NBUF. b_dev (buf s j) = 1 \<and> b_blockno (buf s j) = c \<and> b_dirty (buf s j))" for c
    proof
      assume "\<exists>j<NBUF. b_dev (buf s' j) = 1 \<and> b_blockno (buf s' j) = c \<and> b_dirty (buf s' j)"
      then obtain j where j: "j < NBUF" "b_dev (buf s' j) = 1" "b_blockno (buf s' j) = c" "b_dirty (buf s' j)"
        by blast
      show "\<exists>j<NBUF. b_dev (buf s j) = 1 \<and> b_blockno (buf s j) = c \<and> b_dirty (buf s j)"
      proof (cases "j = i")
        case True
        with j B have "c = b" "b \<in> dirtyset s" by (auto simp: bi)
        then show ?thesis by (simp add: dirtyset_def)
      next
        case False
        with j show ?thesis by (auto simp: bi)
      qed
    next
      assume "\<exists>j<NBUF. b_dev (buf s j) = 1 \<and> b_blockno (buf s j) = c \<and> b_dirty (buf s j)"
      then obtain j where j: "j < NBUF" "b_dev (buf s j) = 1" "b_blockno (buf s j) = c" "b_dirty (buf s j)"
        by blast
      show "\<exists>j<NBUF. b_dev (buf s' j) = 1 \<and> b_blockno (buf s' j) = c \<and> b_dirty (buf s' j)"
      proof (cases "j = i")
        case True
        with j victim have "c = b" by auto
        moreover from j this have "b \<in> dirtyset s" by (auto simp: dirtyset_def)
        ultimately show ?thesis using i B by (intro exI [of _ i]) (simp add: bi)
      next
        case False
        with j show ?thesis by (intro exI [of _ j]) (simp add: bi)
      qed
    qed
    then show ?thesis by (simp add: dirtyset_def)
  qed
  show "content s' = content s"
  proof
    fix c
    show "content s' c = content s c"
    proof (cases "c = b")
      case True
      with content_cached [OF inv' i] B show ?thesis by (simp add: bi)
    next
      case False
      show ?thesis
      proof (cases "cached s' c")
        case None
        then have no: "\<And>j. j < NBUF \<Longrightarrow> j \<noteq> i \<Longrightarrow> \<not> (b_dev (buf s j) = 1 \<and> b_blockno (buf s j) = c)"
          unfolding cached_None by (auto simp: bi)
        have "content s c = disk s c"
        proof (cases "b_dev (buf s i) = 1 \<and> b_blockno (buf s i) = c")
          case True
          with False victim have "\<not> b_dirty (buf s i)" by auto
          with True nl bio_invD(6) [OF inv i] content_cached [OF inv i] show ?thesis
            by (auto simp: buf_ok_def)
        next
          case False
          with no have "cached s c = None" unfolding cached_None by blast
          then show ?thesis by (simp add: content_def)
        qed
        with None s' show ?thesis by (simp add: content_def)
      next
        case (Some j)
        then have j: "j < NBUF" "b_dev (buf s' j) = 1" "b_blockno (buf s' j) = c"
          by (simp_all add: cached_Some [OF inv'])
        with False B have "j \<noteq> i" by (auto simp: bi)
        with j content_cached [OF inv' j] content_cached [OF inv j(1)] show ?thesis by (simp add: bi)
      qed
    qed
  qed
qed

lemma holdsD:
  assumes "bio_inv s" "holds s i b"
  shows "i < NBUF" "b_dev (buf s i) = 1" "b_blockno (buf s i) = b" "content s b = b_data (buf s i)"
    "holdingsleep (b_lock (buf s i)) s" "sl_locked (b_lock (buf s i))"
    "buf_ok (disk s) (disksize s) (buf s i)" "b < disksize s" "b \<in> lockset s"
proof -
  show h: "i < NBUF" "b_dev (buf s i) = 1" "b_blockno (buf s i) = b"  "sl_locked (b_lock (buf s i))"
    "holdingsleep (b_lock (buf s i)) s"
    using assms by (auto simp: holds_def holdingsleep_def mypid_def)
  show ok: "buf_ok (disk s) (disksize s) (buf s i)" by (rule bio_invD(6) [OF assms(1) h(1)])
  show "content s b = b_data (buf s i)" by (rule content_cached [OF assms(1) h(1-3)])
  show "b < disksize s" using ok h by (auto simp: buf_ok_def)
  show "b \<in> lockset s" using h by (auto simp: lockset_def)
qed

lemma holds_inj: "bio_inv s \<Longrightarrow> holds s i b \<Longrightarrow> holds s j b \<Longrightarrow> i = j"
  by (auto simp: holds_def intro: bio_invD(7))

lemma upd_data_spec:
  assumes inv: "bio_inv s" and h: "holds s i b" and len': "length (f (content s b)) = BSIZE"
  shows "bio_inv (upd_data i f s)" "holds (upd_data i f s) i b"
    "content (upd_data i f s) = (content s)(b := f (content s b))"
    "dirtyset (upd_data i f s) = dirtyset s" "lockset (upd_data i f s) = lockset s"
    "disk (upd_data i f s) = disk s" "dwrites (upd_data i f s) = dwrites s"
    "same_rest s (upd_data i f s)"
    "holds s j c \<Longrightarrow> holds (upd_data i f s) j c"
proof -
  note hd = holdsD [OF inv h] and len = bio_invD(2) [OF inv]
  let ?g = "\<lambda>b. b\<lparr>b_data := f (b_data b)\<rparr>"
  have bi: "buf (upd_buf i ?g s) j = (if j = i then ?g (buf s i) else buf s j)" for j
    using hd len by (simp add: nth_upd_buf)
  show "bio_inv (upd_data i f s)"
    unfolding upd_data_def
    by (rule bio_inv_in_place [OF inv hd(1)]) (use hd len' in \<open>auto simp: buf_ok_def\<close>)
  show "content (upd_data i f s) = (content s)(b := f (content s b))"
    unfolding upd_data_def by (subst content_upd_buf [OF inv hd(1)]) (use hd in auto)
  show "holds s j c \<Longrightarrow> holds (upd_data i f s) j c" for j c
    by (auto simp: upd_data_def holds_def bi)
  from this [OF h] show "holds (upd_data i f s) i b" .
  show "dirtyset (upd_data i f s) = dirtyset s" "lockset (upd_data i f s) = lockset s"
    unfolding dirtyset_def lockset_def upd_data_def bi by (auto split: if_splits)
  show "disk (upd_data i f s) = disk s" "dwrites (upd_data i f s) = dwrites s"
    "same_rest s (upd_data i f s)"
    by (simp_all add: upd_data_def)
qed

lemma set_dirty_spec:
  assumes inv: "bio_inv s" and h: "holds s i b"
  shows "bio_inv (set_dirty i s)" "holds (set_dirty i s) i b"
    "content (set_dirty i s) = content s"
    "dirtyset (set_dirty i s) = insert b (dirtyset s)" "lockset (set_dirty i s) = lockset s"
    "disk (set_dirty i s) = disk s" "dwrites (set_dirty i s) = dwrites s"
    "same_rest s (set_dirty i s)"
    "holds s j c \<Longrightarrow> holds (set_dirty i s) j c"
proof -
  note hd = holdsD [OF inv h] and len = bio_invD(2) [OF inv]
  let ?g = "\<lambda>b. b\<lparr>b_dirty := True\<rparr>"
  have bi: "buf (upd_buf i ?g s) j = (if j = i then ?g (buf s i) else buf s j)" for j
    using hd len by (simp add: nth_upd_buf)
  show "bio_inv (set_dirty i s)"
    unfolding set_dirty_def
    by (rule bio_inv_in_place [OF inv hd(1)]) (use hd in \<open>auto simp: buf_ok_def\<close>)
  show "content (set_dirty i s) = content s"
    unfolding set_dirty_def by (subst content_upd_buf [OF inv hd(1)]) (use hd in auto)
  show "holds s j c \<Longrightarrow> holds (set_dirty i s) j c" for j c
    by (auto simp: set_dirty_def holds_def bi)
  from this [OF h] show "holds (set_dirty i s) i b" .
  show "dirtyset (set_dirty i s) = insert b (dirtyset s)"
    using hd(1-3) unfolding dirtyset_def set_dirty_def bi by (auto split: if_splits)
  show "lockset (set_dirty i s) = lockset s"
    unfolding lockset_def set_dirty_def bi by (auto split: if_splits)
  show "disk (set_dirty i s) = disk s" "dwrites (set_dirty i s) = dwrites s"
    "same_rest s (set_dirty i s)"
    by (simp_all add: set_dirty_def)
qed

lemma other_blockno:
  assumes inv: "bio_inv s" and h: "holds s i b" and "j < NBUF" "j \<noteq> i" "b_dev (buf s j) = 1"
  shows "b_blockno (buf s j) \<noteq> b"
proof
  assume "b_blockno (buf s j) = b"
  then have "j = i"
    using assms(3,5) holdsD(1-3) [OF inv h] bio_invD(7) [OF inv, of j i] by simp
  with assms show False by simp
qed

lemma dirty_iff: "bio_inv s \<Longrightarrow> holds s i b \<Longrightarrow> b_dirty (buf s i) \<longleftrightarrow> b \<in> dirtyset s"
  using holdsD(1-3) [of s i b] other_blockno [of s i b] unfolding dirtyset_def by blast

text \<open>Two states whose buffers cache the same blocks in the same slots.\<close>

lemma cached_cong:
  assumes "\<And>j. j < NBUF \<Longrightarrow> b_dev (buf s' j) = b_dev (buf s j) \<and> b_blockno (buf s' j) = b_blockno (buf s j)"
  shows "cached s' c = cached s c"
  unfolding cached_def first_index_def by (rule find_cong_set) (use assms in auto)

lemma bio_inv_cong:
  assumes inv: "bio_inv s" and "proc_ok s'" "length (bufs s') = NBUF" "distinct (lru s')" "set (lru s') = {..<NBUF}"
    and "\<And>c. length (disk s' c) = BSIZE"
    and "\<And>j. j < NBUF \<Longrightarrow> buf_ok (disk s') (disksize s') (buf s' j)"
    and same: "\<And>j. j < NBUF \<Longrightarrow> b_dev (buf s' j) = b_dev (buf s j) \<and> b_blockno (buf s' j) = b_blockno (buf s j)"
  shows "bio_inv s'"
proof -
  have "i = j" if "i < NBUF" "j < NBUF" "b_dev (buf s' i) = 1" "b_dev (buf s' j) = 1"
    "b_blockno (buf s' i) = b_blockno (buf s' j)" for i j
    using that same [OF that(1)] same [OF that(2)] bio_invD(7) [OF inv that(1,2)] by simp
  then show ?thesis
    unfolding bio_inv_def by (intro conjI allI impI assms(2-7)) (assumption | blast)+
qed

lemma bwrite_spec:
  assumes inv: "bio_inv s" and h: "holds s i b"
  obtains s' where "bwrite i s = Ok () s'" "bio_inv s'" "holds s' i b"
    "content s' = content s" "dirtyset s' = dirtyset s - {b}" "lockset s' = lockset s"
    "disk s' = (disk s)(b := content s b)" "dwrites s' = dwrites s @ [(b, content s b)]"
    "same_rest s s'" "\<And>j c. holds s j c \<Longrightarrow> holds s' j c"
proof -
  note hd = holdsD [OF inv h] and len = bio_invD(2) [OF inv]
  let ?g = "\<lambda>b. b\<lparr>b_dirty := False, b_valid := True\<rparr>"
  define s' where "s' = upd_buf i ?g
    (s\<lparr>disk := (disk s)(b := content s b), dwrites := dwrites s @ [(b, content s b)]\<rparr>)"
  have bi: "buf s' j = (if j = i then ?g (buf s i) else buf s j)" for j
    using hd len by (simp add: s'_def nth_upd_buf)
  have fld: "disk s' = (disk s)(b := content s b)" "dwrites s' = dwrites s @ [(b, content s b)]"
    "length (bufs s') = length (bufs s)" "lru s' = lru s" "disksize s' = disksize s" "mypid s' = mypid s"
    by (simp_all add: s'_def)
  have w: "bwrite i s = Ok () s'"
    using hd len by (simp add: s'_def bwrite_def iderw_def Let_def holdingsleep_def upd_buf_def)
  note other = other_blockno [OF inv h]
  have same: "b_dev (buf s' j) = b_dev (buf s j) \<and> b_blockno (buf s' j) = b_blockno (buf s j)" for j
    by (simp add: bi)
  have ok: "buf_ok (disk s') (disksize s') (buf s' j)" if "j < NBUF" for j
    using bio_invD(6) [OF inv that] hd other [OF that] by (auto simp: bi buf_ok_def fld)
  have "proc_ok s'"
    using bio_invD(1) [OF inv] by (simp add: proc_ok_def s'_def)
  then have inv': "bio_inv s'"
    by (rule bio_inv_cong [OF inv])
       (use ok same bio_invD(2-5) [OF inv] length_content [OF inv] in \<open>simp_all add: fld\<close>)
  have cached: "cached s' c = cached s c" for c
    by (rule cached_cong) (rule same)
  have content: "content s' = content s"
  proof
    fix c
    show "content s' c = content s c"
    proof (cases "cached s c")
      case None
      then have "c \<noteq> b" using hd(1-3) unfolding cached_None by auto
      with None cached show ?thesis by (simp add: content_def fld)
    next
      case (Some j)
      with cached [of c] show ?thesis unfolding content_def by (simp add: bi)
    qed
  qed
  have keep: "holds s' j c" if "holds s j c" for j c
    using that by (auto simp: holds_def bi fld)
  have "b_dirty (buf s' j) \<longleftrightarrow> j \<noteq> i \<and> b_dirty (buf s j)" for j
    by (simp add: bi)
  then have dirty: "dirtyset s' = dirtyset s - {b}"
    using other hd(3) unfolding dirtyset_def by (simp add: same) blast
  have "sl_locked (b_lock (buf s' j)) \<longleftrightarrow> sl_locked (b_lock (buf s j))" for j
    by (simp add: bi)
  then have lock: "lockset s' = lockset s"
    unfolding lockset_def by (simp add: same)
  have rest: "same_rest s s'" by (simp add: same_rest_def s'_def)
  show thesis
    by (rule that [OF w inv' keep [OF h] content dirty lock fld(1,2) rest keep])
qed

lemma brelse_spec:
  assumes inv: "bio_inv s" and h: "holds s i b" and cl: "b \<in> dirtyset s \<or> content s b = disk s b"
  obtains s' where "brelse i s = Ok () s'" "bio_inv s'"
    "content s' = content s" "dirtyset s' = dirtyset s" "lockset s' = lockset s - {b}"
    "disk s' = disk s" "dwrites s' = dwrites s" "same_rest s s'"
    "\<And>j c. c \<noteq> b \<Longrightarrow> holds s j c \<Longrightarrow> holds s' j c"
proof -
  note hd = holdsD [OF inv h] and len = bio_invD(2) [OF inv]
  let ?g = "\<lambda>b. b\<lparr>b_lock := \<lparr>sl_locked = False, sl_pid = 0\<rparr>, b_refcnt := b_refcnt b - 1\<rparr>"
  let ?w = "wakeup (ChanBufLock i) s"
  define l where "l = (if b_refcnt (buf s i) - 1 = 0 then i # remove1 i (lru s) else lru s)"
  define s' where "s' = (upd_buf i ?g ?w)\<lparr>lru := l\<rparr>"
  have fldw: "bufs ?w = bufs s" "lru ?w = lru s" "disk ?w = disk s" "dwrites ?w = dwrites s"
    "disksize ?w = disksize s" "bst.more ?w = bst.more s"
    by (simp_all add: wakeup_def)
  have fld: "disk s' = disk s" "dwrites s' = dwrites s" "lru s' = l" "disksize s' = disksize s"
    "length (bufs s') = length (bufs s)"
    by (simp_all add: s'_def fldw)
  have r: "brelse i s = Ok () s'"
  proof (cases "b_lock (buf s i)")
    case (fields lo pi)
    with hd len show ?thesis
      by (simp add: brelse_def releasesleep_def Let_def s'_def l_def fldw)
  qed
  have bi: "buf s' j = (if j = i then ?g (buf s i) else buf s j)" for j
    using hd len by (simp add: s'_def nth_upd_buf fldw)
  note dirty = dirty_iff [OF inv h]
  have same: "b_dev (buf s' j) = b_dev (buf s j) \<and> b_blockno (buf s' j) = b_blockno (buf s j)" for j
    by (simp add: bi)
  have ok: "buf_ok (disk s') (disksize s') (buf s' j)" if "j < NBUF" for j
    using bio_invD(6) [OF inv that] hd cl dirty by (auto simp: bi buf_ok_def fld)
  have lru: "distinct l" "set l = {..<NBUF}"
    using bio_invD(3,4) [OF inv] hd(1) by (auto simp: l_def)
  have "proc_ok s'"
    using proc_ok_wakeup [OF bio_invD(1) [OF inv], of "ChanBufLock i"] by (simp add: proc_ok_def s'_def)
  then have inv': "bio_inv s'"
    by (rule bio_inv_cong [OF inv])
       (use ok same lru bio_invD(2,5) [OF inv] in \<open>simp_all add: fld\<close>)
  have cached: "cached s' c = cached s c" for c
    by (rule cached_cong) (rule same)
  have rest: "same_rest s s'"
    using bio_invD(1) [OF inv] by (simp add: same_rest_def s'_def fldw)
  have content: "content s' = content s"
  proof
    fix c
    show "content s' c = content s c"
      using cached [of c] by (cases "cached s c") (simp_all add: content_def bi fld)
  qed
  have "b_dirty (buf s' j) \<longleftrightarrow> b_dirty (buf s j)" for j
    by (simp add: bi)
  then have dirty': "dirtyset s' = dirtyset s"
    unfolding dirtyset_def by (simp add: same)
  have "sl_locked (b_lock (buf s' j)) \<longleftrightarrow> j \<noteq> i \<and> sl_locked (b_lock (buf s j))" for j
    by (simp add: bi)
  then have lock: "lockset s' = lockset s - {b}"
    using other_blockno [OF inv h] hd(3) unfolding lockset_def by (simp add: same) blast
  have keep: "holds s' j c" if "c \<noteq> b" "holds s j c" for j c
    using that hd(3) same_rest_mypid [OF rest] by (auto simp: holds_def bi)
  show thesis
    by (rule that [OF r inv' content dirty' lock fld(1,2) rest keep])
qed

lemma content_clean:
  assumes inv: "bio_inv s" and "b \<notin> lockset s" "b \<notin> dirtyset s"
  shows "content s b = disk s b"
proof (cases "cached s b")
  case (Some i)
  then have i: "i < NBUF" "b_dev (buf s i) = 1" "b_blockno (buf s i) = b"
    by (simp_all add: cached_Some [OF inv])
  with assms have "\<not> b_dirty (buf s i)" "\<not> sl_locked (b_lock (buf s i))"
    by (auto simp: dirtyset_def lockset_def)
  with i bio_invD(6) [OF inv i(1)] content_cached [OF inv i] show ?thesis
    by (simp add: buf_ok_def)
qed (simp add: content_def)

text \<open>Reading two blocks one after the other: both buffers are held and the blocks differ.\<close>

lemma bread2_spec:
  assumes inv: "bio_inv s" and a: "bread 1 a s = Ok i s1" and b: "bread 1 b s1 = Ok j s2"
  shows "bio_inv s2" "holds s2 i a" "holds s2 j b" "a \<noteq> b" "a \<notin> lockset s" "b \<notin> lockset s"
    "b_data (buf s2 i) = content s a" "b_data (buf s2 j) = content s b"
    "content s2 = content s" "dirtyset s2 = dirtyset s" "lockset s2 = insert a (insert b (lockset s))"
    "disk s2 = disk s" "dwrites s2 = dwrites s" "same_rest s s2" "a < disksize s" "b < disksize s"
proof -
  note A = bread_spec [OF inv a] and B = bread_spec [OF bread_spec(1) [OF inv a] b]
  have "disksize s1 = disksize s" using A(11) by (simp add: same_rest_def)
  then show "b < disksize s" using B(4) by simp
  have "b \<notin> insert a (lockset s)" using A(7) B(8) by simp
  then show "a \<noteq> b" "b \<notin> lockset s" by auto
  show "same_rest s s2" using A(11) B(11) by (rule same_rest_trans)
  show "holds s2 i a" "b_data (buf s2 i) = content s a"
    using B(12) [OF A(2)] A(3) by auto
qed (use bread_spec [OF inv a] bread_spec [OF bread_spec(1) [OF inv a] b] in \<open>auto\<close>)

text \<open>Copying one held buffer over another, writing it out and releasing both.\<close>

lemma copy_tail_spec:
  assumes inv: "bio_inv s" and i: "holds s i a" and j: "holds s j b" and ab: "a \<noteq> b"
    and cl: "a \<in> dirtyset s \<or> content s a = disk s a"
  obtains s' where
    "on (bwrite j (upd_data j (\<lambda>_. b_data (buf s i)) s)) (\<lambda>_ s. on (brelse i s) (\<lambda>_ s. brelse j s)) = Ok () s'"
    "bio_inv s'" "content s' = (content s)(b := content s a)" "dirtyset s' = dirtyset s - {b}"
    "lockset s' = lockset s - {a, b}" "disk s' = (disk s)(b := content s a)"
    "dwrites s' = dwrites s @ [(b, content s a)]" "same_rest s s'"
proof -
  let ?u = "upd_data j (\<lambda>_. b_data (buf s i)) s"
  have d: "b_data (buf s i) = content s a" using holdsD(4) [OF inv i] by simp
  note U = upd_data_spec [OF inv j, of "\<lambda>_. b_data (buf s i)", unfolded d, OF length_content [OF inv]]
  obtain w where w: "bwrite j ?u = Ok () w" and W: "bio_inv w" "holds w j b" "content w = content ?u"
      "dirtyset w = dirtyset ?u - {b}" "lockset w = lockset ?u" "disk w = (disk ?u)(b := content ?u b)"
      "dwrites w = dwrites ?u @ [(b, content ?u b)]" "same_rest ?u w" "\<And>k c. holds ?u k c \<Longrightarrow> holds w k c"
    using bwrite_spec [OF U(1,2)] unfolding d by metis
  have wi: "holds w i a" using W(9) U(9) [OF i] by (simp add: d)
  have "a \<in> dirtyset w \<or> content w a = disk w a"
    using cl ab by (simp add: W U d)
  then obtain x where x: "brelse i w = Ok () x" and X: "bio_inv x" "content x = content w" "dirtyset x = dirtyset w"
      "lockset x = lockset w - {a}" "disk x = disk w" "dwrites x = dwrites w" "same_rest w x"
      "\<And>k c. c \<noteq> a \<Longrightarrow> holds w k c \<Longrightarrow> holds x k c"
    using brelse_spec [OF W(1) wi] by metis
  have xj: "holds x j b" using X(8) W(2) ab by auto
  have "b \<in> dirtyset x \<or> content x b = disk x b" by (simp add: W X)
  then obtain y where y: "brelse j x = Ok () y" and Y: "bio_inv y" "content y = content x" "dirtyset y = dirtyset x"
      "lockset y = lockset x - {b}" "disk y = disk x" "dwrites y = dwrites x" "same_rest x y"
    using brelse_spec [OF X(1) xj] by metis
  have "same_rest s y"
    using U(8) W(8) X(7) Y(7) unfolding d by (blast intro: same_rest_trans)
  moreover have "lockset s - {a} - {b} = lockset s - {a, b}" by auto
  ultimately show thesis
    using w x y by (intro that [of y]) (simp_all add: Y X W U d)
qed

section \<open>Availability of buffers\<close>

text \<open>When no process waits for a buffer, a reference is a held lock, and a buffer is unavailable
  to \<^verbatim>\<open>bget\<close> exactly when its block is locked or dirty.\<close>

definition quiet :: "'a bst_scheme \<Rightarrow> bool" where
  "quiet s \<longleftrightarrow> (\<forall>i < NBUF. b_refcnt (buf s i) = (if sl_locked (b_lock (buf s i)) then 1 else 0))"

lemma quiet_bread:
  assumes inv: "bio_inv s" and br: "bread 1 b s = Ok i s'" and q: "quiet s"
  shows "quiet s'"
proof -
  from bread_Ok [OF inv br] obtain B where s': "s' = upd_buf i (\<lambda>_. B) s" and i: "i < NBUF"
    and B: "b_lock B = \<lparr>sl_locked = True, sl_pid = mypid s\<rparr>" "b_refcnt B = b_refcnt (buf s i) + 1"
    and nl: "\<not> sl_locked (b_lock (buf s i))"
    by metis
  have "b_refcnt (buf s i) = 0" using q i nl by (simp add: quiet_def)
  with B i q bio_invD(2) [OF inv] show ?thesis
    by (auto simp: quiet_def s' nth_upd_buf)
qed

lemma quiet_upd_data [simp]: "quiet s \<Longrightarrow> quiet (upd_data i f s)"
  unfolding quiet_def upd_data_def upd_buf_def by (auto simp: nth_list_update_if)

lemma quiet_set_dirty [simp]: "quiet s \<Longrightarrow> quiet (set_dirty i s)"
  unfolding quiet_def set_dirty_def upd_buf_def by (auto simp: nth_list_update_if)

lemma quiet_bwrite: "bwrite i s = Ok () s' \<Longrightarrow> quiet s \<Longrightarrow> quiet s'"
  unfolding bwrite_def iderw_def quiet_def upd_buf_def
  by (auto simp: nth_list_update_if Let_def split: if_splits)

lemma quiet_brelse:
  assumes inv: "bio_inv s" and h: "holds s i b" and r: "brelse i s = Ok () s'" and q: "quiet s"
  shows "quiet s'"
proof -
  note hd = holdsD [OF inv h] and len = bio_invD(2) [OF inv]
  have "bufs s' = (bufs s)[i := (buf s i)\<lparr>b_lock := \<lparr>sl_locked = False, sl_pid = 0\<rparr>, b_refcnt := b_refcnt (buf s i) - 1\<rparr>]"
    using r hd(1,5) len
    by (cases "b_lock (buf s i)")
       (auto simp: brelse_def releasesleep_def Let_def wakeup_def upd_buf_def split: if_splits)
  with q hd(1,6) len show ?thesis
    by (auto simp: quiet_def nth_list_update)
qed

lemma bread_total:
  assumes inv: "bio_inv s" and q: "quiet s" and b: "b < disksize s" "b \<notin> lockset s"
    and room: "b \<in> dirtyset s \<or> card (lockset s \<union> dirtyset s) < NBUF"
  shows "\<exists>i s'. bread 1 b s = Ok i s'"
proof (cases "find (\<lambda>i. b_dev (buf s i) = 1 \<and> b_blockno (buf s i) = b) (lru s)")
  case (Some k)
  then have k: "k < NBUF" "b_dev (buf s k) = 1" "b_blockno (buf s k) = b"
    using bio_invD(4) [OF inv] by (auto dest: find_SomeD)
  then have "\<not> sl_locked (b_lock (buf s k))" "b_valid (buf s k)"
    using b bio_invD(6) [OF inv k(1)] by (auto simp: lockset_def buf_ok_def)
  with Some k bio_invD(2) [OF inv] show ?thesis
    by (simp add: bread_def bget_def lock_buf_def acquiresleep_def)
next
  case None
  then have "b \<notin> dirtyset s"
    using bio_invD(4) [OF inv] by (auto simp: find_None_iff dirtyset_def)
  with room have room: "card (lockset s \<union> dirtyset s) < NBUF" by simp
  have "\<exists>k \<in> set (rev (lru s)). b_refcnt (buf s k) = 0 \<and> \<not> b_dirty (buf s k)"
  proof (rule ccontr)
    assume "\<not> ?thesis"
    then have all: "0 < b_refcnt (buf s k) \<or> b_dirty (buf s k)" if "k < NBUF" for k
      using that bio_invD(4) [OF inv] by auto
    have dev: "b_dev (buf s k) = 1" if "k < NBUF" for k
      using all [OF that] bio_invD(6) [OF inv that] by (auto simp: buf_ok_def)
    have "inj_on (\<lambda>k. b_blockno (buf s k)) {..<NBUF}"
      using bio_invD(7) [OF inv] dev by (auto simp: inj_on_def)
    moreover have "(\<lambda>k. b_blockno (buf s k)) ` {..<NBUF} \<subseteq> lockset s \<union> dirtyset s"
    proof
      fix c assume "c \<in> (\<lambda>k. b_blockno (buf s k)) ` {..<NBUF}"
      then obtain k where k: "k < NBUF" "c = b_blockno (buf s k)" by auto
      then have "sl_locked (b_lock (buf s k)) \<or> b_dirty (buf s k)"
        using all [OF k(1)] q by (auto simp: quiet_def split: if_splits)
      with k dev [OF k(1)] show "c \<in> lockset s \<union> dirtyset s"
        unfolding lockset_def dirtyset_def by blast
    qed
    moreover have "finite (lockset s \<union> dirtyset s)"
      by (rule finite_subset [of _ "(\<lambda>k. b_blockno (buf s k)) ` {..<NBUF}"])
         (auto simp: lockset_def dirtyset_def)
    ultimately have "card {..<NBUF} \<le> card (lockset s \<union> dirtyset s)"
      by (metis card_image card_mono)
    with room show False by simp
  qed
  then obtain k where k: "find (\<lambda>i. b_refcnt (buf s i) = 0 \<and> \<not> b_dirty (buf s i)) (rev (lru s)) = Some k"
    by (cases "find (\<lambda>i. b_refcnt (buf s i) = 0 \<and> \<not> b_dirty (buf s i)) (rev (lru s))")
       (auto simp: find_None_iff)
  have kk: "k < NBUF" "b_refcnt (buf s k) = 0" "\<not> b_dirty (buf s k)"
    using find_SomeD [OF k] bio_invD(4) [OF inv] by simp_all
  then have "\<not> sl_locked (b_lock (buf s k))"
    using bio_invD(6) [OF inv kk(1)] by (auto simp: buf_ok_def)
  with None k kk b bio_invD(2) [OF inv] show ?thesis
    by (simp add: bread_def bget_def lock_buf_def acquiresleep_def iderw_def Let_def holdingsleep_def)
qed

lemma finite_dirtyset [simp]: "finite (dirtyset s)"
  by (rule finite_subset [of _ "(\<lambda>k. b_blockno (buf s k)) ` {..<NBUF}"]) (auto simp: dirtyset_def)

lemma wakeup_bst [simp]:
  "bufs (wakeup ch s) = bufs s" "lru (wakeup ch s) = lru s" "disk (wakeup ch s) = disk s"
  "disksize (wakeup ch s) = disksize s" "dwrites (wakeup ch s) = dwrites s" "bst.more (wakeup ch s) = bst.more s"
  "cached (wakeup ch s) = cached s" "content (wakeup ch s) = content s" "dirtyset (wakeup ch s) = dirtyset s"
  "lockset (wakeup ch s) = lockset s" "quiet (wakeup ch s) = quiet s"
  by (simp_all add: wakeup_def cached_def content_def dirtyset_def lockset_def quiet_def fun_eq_iff split: option.split)

lemma bio_inv_wakeup [simp]: "bio_inv s \<Longrightarrow> bio_inv (wakeup ch s)"
  by (simp add: bio_inv_def)

lemma same_rest_wakeup [simp]: "proc_ok s \<Longrightarrow> same_rest s (wakeup ch s)"
  by (simp add: same_rest_def)

end
