(* ===== verification/Superblock.thy ===== *)
theory Superblock
  imports Bio
begin

text \<open>
  The super block (\<^verbatim>\<open>include/fs.h\<close>, \<^verbatim>\<open>readsb\<close> of \<^verbatim>\<open>system/storage/fs.c\<close>): its
  on-disk layout and how it is read through the buffer cache.
\<close>

record superblock =
  sb_size :: u32
  sb_nblocks :: u32
  sb_ninodes :: u32
  sb_nlog :: u32
  sb_logstart :: u32
  sb_inodestart :: u32
  sb_bmapstart :: u32

text \<open>\<^verbatim>\<open>memmove(sb, bp->data, sizeof(*sb))\<close>: the seven words at the start of the block.\<close>

definition sb_decode :: "byte list \<Rightarrow> superblock" where
  "sb_decode d = \<lparr>sb_size = get32 d 0, sb_nblocks = get32 d 4, sb_ninodes = get32 d 8, sb_nlog = get32 d 12,
     sb_logstart = get32 d 16, sb_inodestart = get32 d 20, sb_bmapstart = get32 d 24\<rparr>"

definition readsb :: "nat \<Rightarrow> 'a bst_scheme \<Rightarrow> ('a bst_scheme, superblock) outcome" where
  "readsb dev s =
     on (bread dev 1 s) (\<lambda>bp s.
     let sb = sb_decode (b_data (buf s bp)) in
     on (brelse bp s) (\<lambda>_ s. Ok sb s))"

text \<open>Reading a block and releasing it again leaves the store as it was.\<close>

lemma bread_brelse_spec:
  assumes inv: "bio_inv s" and br: "bread 1 b s = Ok i s1"
  obtains s' where "brelse i s1 = Ok () s'" "bio_inv s'" "content s' = content s" "dirtyset s' = dirtyset s"
    "lockset s' = lockset s" "disk s' = disk s" "dwrites s' = dwrites s" "same_rest s s'"
    "b_data (buf s1 i) = content s b" "quiet s \<Longrightarrow> quiet s'"
proof -
  note A = bread_spec [OF inv br]
  have "b \<in> dirtyset s1 \<or> content s1 b = disk s1 b"
    using content_clean [OF inv A(8)] by (auto simp: A)
  then obtain s' where r: "brelse i s1 = Ok () s'" and R: "bio_inv s'" "content s' = content s1"
      "dirtyset s' = dirtyset s1" "lockset s' = lockset s1 - {b}" "disk s' = disk s1" "dwrites s' = dwrites s1"
      "same_rest s1 s'"
    using brelse_spec [OF A(1,2)] by metis
  have q: "quiet s'" if "quiet s"
    by (rule quiet_brelse [OF A(1,2) r quiet_bread [OF inv br that]])
  have "lockset s' = lockset s" using R(4) A(7,8) by auto
  then show thesis
    using that [OF r R(1)] R A q same_rest_trans [OF A(11) R(7)] by simp
qed

lemma readsb_spec:
  assumes inv: "bio_inv s" and r: "readsb 1 s = Ok sb s'"
  shows "sb = sb_decode (content s 1)" "bio_inv s'" "content s' = content s" "dirtyset s' = dirtyset s"
    "lockset s' = lockset s" "disk s' = disk s" "dwrites s' = dwrites s" "same_rest s s'" "quiet s \<Longrightarrow> quiet s'"
proof -
  from r obtain i s1 where br: "bread 1 1 s = Ok i s1"
    and k: "on (brelse i s1) (\<lambda>_ s. Ok (sb_decode (b_data (buf s1 i))) s) = Ok sb s'"
    by (auto simp: readsb_def Let_def elim!: onE)
  obtain t where rt: "brelse i s1 = Ok () t" and "bio_inv t" "content t = content s" "dirtyset t = dirtyset s"
    "lockset t = lockset s" "disk t = disk s" "dwrites t = dwrites s" "same_rest s t"
    "b_data (buf s1 i) = content s 1" "quiet s \<Longrightarrow> quiet t"
    using bread_brelse_spec [OF inv br] by metis
  with k show "sb = sb_decode (content s 1)" "bio_inv s'" "content s' = content s" "dirtyset s' = dirtyset s"
    "lockset s' = lockset s" "disk s' = disk s" "dwrites s' = dwrites s" "same_rest s s'" "quiet s \<Longrightarrow> quiet s'"
    by simp_all
qed

end
