(* ===== verification/Log.thy ===== *)
theory Log
  imports Superblock
begin

text \<open>
  The write-ahead log (\<^verbatim>\<open>system/storage/log.c\<close>). The in-memory header is the list of the
  home block numbers, its length is \<^verbatim>\<open>log.lh.n\<close>. A block of the log is \<open>lg_start + k + 1\<close>,
  the header block is \<open>lg_start\<close>. The theorems follow the writes that reach the device: cut
  after any of them, recovery gives either the state before the transaction or the one after.
\<close>

section \<open>State and operations\<close>

record lst = bst +
  lg_start :: nat
  lg_size :: int
  lg_outstanding :: int
  lg_committing :: bool
  lg_dev :: nat
  lg_lh :: "nat list"

text \<open>The header as a block: the count and the block numbers, little-endian; the rest of the
  block is left as it is.\<close>

definition hdr_encode :: "nat list \<Rightarrow> byte list \<Rightarrow> byte list" where
  "hdr_encode bs d = fold (\<lambda>k d. put32 (4 + 4 * k) (of_nat (bs ! k)) d) [0..<length bs]
                          (put32 0 (of_nat (length bs)) d)"

definition hdr_count :: "byte list \<Rightarrow> int" where
  "hdr_count d = sint (get32 d 0)"

definition hdr_decode :: "byte list \<Rightarrow> nat list" where
  "hdr_decode d = map (\<lambda>k. unat (get32 d (4 + 4 * k))) [0..<nat (hdr_count d)]"

definition install_one :: "nat \<Rightarrow> 'a lst_scheme \<Rightarrow> ('a lst_scheme, unit) outcome" where
  "install_one tail s =
     on (bread (lg_dev s) (lg_start s + tail + 1) s) (\<lambda>lbuf s.
     on (bread (lg_dev s) (lg_lh s ! tail) s) (\<lambda>dbuf s.
     on (bwrite dbuf (upd_data dbuf (\<lambda>_. b_data (buf s lbuf)) s)) (\<lambda>_ s.
     on (brelse lbuf s) (\<lambda>_ s.
     brelse dbuf s))))"

definition install_trans :: "'a lst_scheme \<Rightarrow> ('a lst_scheme, unit) outcome" where
  "install_trans s = loop install_one [0..<length (lg_lh s)] s"

text \<open>A count above \<^verbatim>\<open>LOGSIZE\<close> on the disk makes the copying loop write outside
  \<^verbatim>\<open>log.lh.block\<close>.\<close>

definition read_head :: "'a lst_scheme \<Rightarrow> ('a lst_scheme, unit) outcome" where
  "read_head s =
     on (bread (lg_dev s) (lg_start s) s) (\<lambda>bp s.
     let d = b_data (buf s bp) in
     if hdr_count d > int LOGSIZE then Undef ''read_head: block[] out of bounds''
     else brelse bp (s\<lparr>lg_lh := hdr_decode d\<rparr>))"

definition write_head :: "'a lst_scheme \<Rightarrow> ('a lst_scheme, unit) outcome" where
  "write_head s =
     on (bread (lg_dev s) (lg_start s) s) (\<lambda>bp s.
     on (bwrite bp (upd_data bp (hdr_encode (lg_lh s)) s)) (\<lambda>_ s.
     brelse bp s))"

definition recover_from_log :: "'a lst_scheme \<Rightarrow> ('a lst_scheme, unit) outcome" where
  "recover_from_log s =
     on (read_head s) (\<lambda>_ s.
     on (install_trans s) (\<lambda>_ s.
     write_head (s\<lparr>lg_lh := []\<rparr>)))"

definition initlog :: "nat \<Rightarrow> 'a lst_scheme \<Rightarrow> ('a lst_scheme, unit) outcome" where
  "initlog dev s =
     (if 4 + 4 * LOGSIZE \<ge> BSIZE then Panic ''initlog: too big logheader''
      else on (readsb dev s) (\<lambda>sb s.
           recover_from_log (s\<lparr>lg_start := unat (sb_logstart sb), lg_size := sint (sb_nlog sb), lg_dev := dev\<rparr>)))"

text \<open>One turn of the loop of \<^verbatim>\<open>begin_op\<close>: a process that was put to sleep runs it again when it
  wakes up.\<close>

definition begin_op :: "'a lst_scheme \<Rightarrow> ('a lst_scheme, unit) outcome" where
  "begin_op s =
     (if lg_committing s then sleep ChanLog s
      else if int (length (lg_lh s)) + (lg_outstanding s + 1) * int MAXOPBLOCKS > int LOGSIZE then sleep ChanLog s
      else Ok () (s\<lparr>lg_outstanding := lg_outstanding s + 1\<rparr>))"

definition write_one :: "nat \<Rightarrow> 'a lst_scheme \<Rightarrow> ('a lst_scheme, unit) outcome" where
  "write_one tail s =
     on (bread (lg_dev s) (lg_start s + tail + 1) s) (\<lambda>to s.
     on (bread (lg_dev s) (lg_lh s ! tail) s) (\<lambda>from s.
     on (bwrite to (upd_data to (\<lambda>_. b_data (buf s from)) s)) (\<lambda>_ s.
     on (brelse from s) (\<lambda>_ s.
     brelse to s))))"

definition write_log :: "'a lst_scheme \<Rightarrow> ('a lst_scheme, unit) outcome" where
  "write_log s = loop write_one [0..<length (lg_lh s)] s"

definition commit :: "'a lst_scheme \<Rightarrow> ('a lst_scheme, unit) outcome" where
  "commit s =
     (if length (lg_lh s) > 0 then
        on (write_log s) (\<lambda>_ s.
        on (write_head s) (\<lambda>_ s.
        on (install_trans s) (\<lambda>_ s.
        write_head (s\<lparr>lg_lh := []\<rparr>))))
      else Ok () s)"

definition end_op :: "'a lst_scheme \<Rightarrow> ('a lst_scheme, unit) outcome" where
  "end_op s =
     (let s = s\<lparr>lg_outstanding := lg_outstanding s - 1\<rparr> in
      if lg_committing s then Panic ''log.committing''
      else if lg_outstanding s = 0 then
        on (commit (s\<lparr>lg_committing := True\<rparr>)) (\<lambda>_ s.
        Ok () (wakeup ChanLog (s\<lparr>lg_committing := False\<rparr>)))
      else Ok () (wakeup ChanLog s))"

definition log_write :: "nat \<Rightarrow> 'a lst_scheme \<Rightarrow> ('a lst_scheme, unit) outcome" where
  "log_write i s =
     (if length (lg_lh s) \<ge> LOGSIZE \<or> int (length (lg_lh s)) \<ge> lg_size s - 1 then Panic ''too big a transaction''
      else if lg_outstanding s < 1 then Panic ''log_write outside of trans''
      else
        (let b = b_blockno (buf s i);
             lh = (case first_index (\<lambda>k. lg_lh s ! k = b) (length (lg_lh s)) of
                     Some k \<Rightarrow> (lg_lh s)[k := b]
                   | None \<Rightarrow> lg_lh s @ [b])
         in Ok () (set_dirty i (s\<lparr>lg_lh := lh\<rparr>))))"

section \<open>Frame facts\<close>

lemma same_rest_lst:
  assumes "same_rest s s'"
  shows "lg_start s' = lg_start s" "lg_size s' = lg_size s" "lg_outstanding s' = lg_outstanding s"
    "lg_committing s' = lg_committing s" "lg_dev s' = lg_dev s" "lg_lh s' = lg_lh s"
    "lst.more s' = lst.more s"
  using assms by (cases s; cases s'; simp add: same_rest_def)+

lemma cached_lst [simp]:
  "cached (s\<lparr>lg_lh := l\<rparr>) = cached s" "cached (s\<lparr>lg_outstanding := n\<rparr>) = cached s"
  "cached (s\<lparr>lg_committing := c\<rparr>) = cached s" "cached (s\<lparr>lg_start := a, lg_size := z, lg_dev := v\<rparr>) = cached s"
  by (simp_all add: cached_def fun_eq_iff)

lemma myproc_lst [simp]:
  "myproc (s\<lparr>lg_lh := l\<rparr>) = myproc s" "myproc (s\<lparr>lg_outstanding := n\<rparr>) = myproc s"
  "myproc (s\<lparr>lg_committing := c\<rparr>) = myproc s" "myproc (s\<lparr>lg_start := a, lg_size := z, lg_dev := v\<rparr>) = myproc s"
  by (simp_all add: myproc_def)

lemma mypid_lst [simp]:
  "mypid (s\<lparr>lg_lh := l\<rparr>) = mypid s" "mypid (s\<lparr>lg_outstanding := n\<rparr>) = mypid s"
  "mypid (s\<lparr>lg_committing := c\<rparr>) = mypid s" "mypid (s\<lparr>lg_start := a, lg_size := z, lg_dev := v\<rparr>) = mypid s"
  by (simp_all add: mypid_def)

lemma content_lst [simp]:
  "content (s\<lparr>lg_lh := l\<rparr>) = content s" "content (s\<lparr>lg_outstanding := n\<rparr>) = content s"
  "content (s\<lparr>lg_committing := c\<rparr>) = content s" "content (s\<lparr>lg_start := a, lg_size := z, lg_dev := v\<rparr>) = content s"
  by (simp_all add: content_def fun_eq_iff split: option.split)

lemma bio_inv_lst [simp]:
  "bio_inv (s\<lparr>lg_lh := l\<rparr>) = bio_inv s" "bio_inv (s\<lparr>lg_outstanding := n\<rparr>) = bio_inv s"
  "bio_inv (s\<lparr>lg_committing := c\<rparr>) = bio_inv s" "bio_inv (s\<lparr>lg_start := a, lg_size := z, lg_dev := v\<rparr>) = bio_inv s"
  by (simp_all add: bio_inv_def proc_ok_def)

lemma dirtyset_lst [simp]:
  "dirtyset (s\<lparr>lg_lh := l\<rparr>) = dirtyset s" "dirtyset (s\<lparr>lg_outstanding := n\<rparr>) = dirtyset s"
  "dirtyset (s\<lparr>lg_committing := c\<rparr>) = dirtyset s" "dirtyset (s\<lparr>lg_start := a, lg_size := z, lg_dev := v\<rparr>) = dirtyset s"
  by (simp_all add: dirtyset_def)

lemma lockset_lst [simp]:
  "lockset (s\<lparr>lg_lh := l\<rparr>) = lockset s" "lockset (s\<lparr>lg_outstanding := n\<rparr>) = lockset s"
  "lockset (s\<lparr>lg_committing := c\<rparr>) = lockset s" "lockset (s\<lparr>lg_start := a, lg_size := z, lg_dev := v\<rparr>) = lockset s"
  by (simp_all add: lockset_def)

lemma quiet_lst [simp]:
  "quiet (s\<lparr>lg_lh := l\<rparr>) = quiet s" "quiet (s\<lparr>lg_outstanding := n\<rparr>) = quiet s"
  "quiet (s\<lparr>lg_committing := c\<rparr>) = quiet s" "quiet (s\<lparr>lg_start := a, lg_size := z, lg_dev := v\<rparr>) = quiet s"
  by (simp_all add: quiet_def)

lemma holds_lst [simp]:
  "holds (s\<lparr>lg_lh := l\<rparr>) = holds s" "holds (s\<lparr>lg_outstanding := n\<rparr>) = holds s"
  "holds (s\<lparr>lg_committing := c\<rparr>) = holds s"
  by (simp_all add: holds_def fun_eq_iff)

section \<open>The header block\<close>

lemma length_hdr_fold [simp]:
  "length (fold (\<lambda>k d. put32 (4 + 4 * k) (f k) d) ks d) = length d"
  by (induction ks arbitrary: d) auto

lemma length_hdr_encode [simp]: "length (hdr_encode bs d) = length d"
  by (simp add: hdr_encode_def)

lemma get32_hdr_fold_0:
  "get32 (fold (\<lambda>k d. put32 (4 + 4 * k) (f k) d) ks d) 0 = get32 d 0"
  by (induction ks arbitrary: d) (auto simp: bytes_simps)

lemma get32_hdr_fold:
  "4 + 4 * n \<le> length d \<Longrightarrow> j < n \<Longrightarrow>
   get32 (fold (\<lambda>k d. put32 (4 + 4 * k) (f k) d) [0..<n] d) (4 + 4 * j) = f j"
proof (induction n)
  case (Suc n)
  show ?case
  proof (cases "j = n")
    case True
    with Suc.prems show ?thesis by (simp add: get32_put32_same)
  next
    case False
    with Suc show ?thesis by (simp add: get32_put32_other)
  qed
qed simp

lemma hdr_count_encode [simp]:
  assumes "length bs < 2 ^ 31" "length d = BSIZE"
  shows "hdr_count (hdr_encode bs d) = int (length bs)"
  using assms by (simp add: hdr_count_def hdr_encode_def get32_hdr_fold_0 get32_put32_same sint_of_nat_small)

lemma hdr_decode_encode [simp]:
  assumes n: "length bs \<le> LOGSIZE" and d: "length d = BSIZE" and b: "\<And>b. b \<in> set bs \<Longrightarrow> b < 2 ^ 32"
  shows "hdr_decode (hdr_encode bs d) = bs"
proof -
  have "hdr_count (hdr_encode bs d) = int (length bs)" using n d by simp
  moreover have "get32 (hdr_encode bs d) (4 + 4 * k) = of_nat (bs ! k)" if "k < length bs" for k
    unfolding hdr_encode_def using that n d by (intro get32_hdr_fold) auto
  moreover have "unat (of_nat (bs ! k) :: u32) = bs ! k" if "k < length bs" for k
    using that b by (intro unat_of_nat32) simp
  ultimately show ?thesis
    unfolding hdr_decode_def by (intro nth_equalityI) auto
qed

lemma hdr_decode_Nil [simp]: "length d = BSIZE \<Longrightarrow> hdr_decode (hdr_encode [] d) = []"
  by (rule hdr_decode_encode) auto

section \<open>Crash semantics of the device\<close>

definition apply_writes :: "(nat \<times> byte list) list \<Rightarrow> (nat \<Rightarrow> byte list) \<Rightarrow> nat \<Rightarrow> byte list" where
  "apply_writes ws d = fold (\<lambda>(b, x) d. d(b := x)) ws d"

text \<open>What recovery makes of a device: the blocks a committed header names are copied home, then
  the header is cleared.\<close>

definition replay :: "nat \<Rightarrow> (nat \<Rightarrow> byte list) \<Rightarrow> nat \<Rightarrow> byte list" where
  "replay start d =
     (let bs = hdr_decode (d start)
      in fold (\<lambda>k d. d(bs ! k := d (start + k + 1))) [0..<length bs] d)"

definition recovered :: "nat \<Rightarrow> (nat \<Rightarrow> byte list) \<Rightarrow> nat \<Rightarrow> byte list" where
  "recovered start d = (let d = replay start d in d(start := hdr_encode [] (d start)))"

lemma apply_writes_Nil [simp]: "apply_writes [] d = d"
  by (simp add: apply_writes_def)

lemma apply_writes_append [simp]: "apply_writes (vs @ ws) d = apply_writes ws (apply_writes vs d)"
  by (simp add: apply_writes_def)

lemma apply_writes_Cons [simp]: "apply_writes ((b, x) # ws) d = apply_writes ws (d(b := x))"
  by (simp add: apply_writes_def)

lemma apply_writes_other: "b \<notin> fst ` set ws \<Longrightarrow> apply_writes ws d b = d b"
proof (induction ws arbitrary: d)
  case (Cons w ws)
  then show ?case by (cases w) auto
qed simp

lemma apply_writes_distinct:
  "distinct (map fst ws) \<Longrightarrow> (b, x) \<in> set ws \<Longrightarrow> apply_writes ws d b = x"
proof (induction ws arbitrary: d)
  case (Cons w ws)
  then show ?case by (cases w) (auto simp: apply_writes_other rev_image_eqI)
qed simp

text \<open>Copying from blocks that are not targets: the order of the copies does not matter beyond the
  last one for each target.\<close>

fun copies :: "(nat \<Rightarrow> nat) \<Rightarrow> (nat \<Rightarrow> nat) \<Rightarrow> nat list \<Rightarrow> (nat \<Rightarrow> byte list) \<Rightarrow> nat \<Rightarrow> byte list" where
  "copies dst src [] d = d"
| "copies dst src (k # ks) d = copies dst src ks (d(dst k := d (src k)))"

lemma copies_fold: "fold (\<lambda>k d. d(dst k := d (src k))) ks d = copies dst src ks d"
  by (induction ks arbitrary: d) (auto simp: comp_def)

lemma copies_other: "b \<notin> dst ` set ks \<Longrightarrow> copies dst src ks d b = d b"
  by (induction ks arbitrary: d) auto

lemma copies_agree:
  assumes "\<And>k. k \<in> set ks \<Longrightarrow> src k \<notin> dst ` set ks" "\<And>k. k \<in> set ks \<Longrightarrow> d' (src k) = d (src k)"
    and "d' b = d b \<or> b \<in> dst ` set ks"
  shows "copies dst src ks d' b = copies dst src ks d b"
  using assms
proof (induction ks arbitrary: d d')
  case (Cons k ks)
  show ?case
    unfolding copies.simps
  proof (rule Cons.IH)
    fix j assume j: "j \<in> set ks"
    with Cons.prems(1) [of j] show "src j \<notin> dst ` set ks" by auto
    from j Cons.prems(1) [of j] Cons.prems(2) [of j] show
      "(d'(dst k := d' (src k))) (src j) = (d(dst k := d (src k))) (src j)" by auto
  qed (use Cons.prems in auto)
qed simp

lemma copies_distinct:
  assumes "\<And>k. k \<in> set ks \<Longrightarrow> src k \<notin> dst ` set ks" "inj_on dst (set ks)" "distinct ks" "k \<in> set ks"
  shows "copies dst src ks d (dst k) = d (src k)"
  using assms
proof (induction ks arbitrary: d)
  case (Cons j ks)
  show ?case
  proof (cases "k = j")
    case True
    with Cons.prems have "dst k \<notin> dst ` set ks" by (auto simp: inj_on_def)
    with True show ?thesis by (simp add: copies_other)
  next
    case False
    then have "copies dst src ks (d(dst j := d (src j))) (dst k) = (d(dst j := d (src j))) (src k)"
      using Cons.prems by (intro Cons.IH) (auto simp: inj_on_def)
    with False Cons.prems show ?thesis by auto
  qed
qed simp

lemma replay_empty: "hdr_decode (d start) = [] \<Longrightarrow> replay start d = d"
  by (simp add: replay_def)

lemma nth_image_upt: "(!) bs ` {0..<length bs} = set bs"
  by (metis map_nth set_map set_upt)

text \<open>A well formed header: it names home blocks only, each once.\<close>

definition hdr_ok :: "nat \<Rightarrow> nat list \<Rightarrow> bool" where
  "hdr_ok start bs \<longleftrightarrow> distinct bs \<and> set bs \<inter> {start..start + length bs} = {}"

lemma hdr_okD:
  assumes "hdr_ok start bs"
  shows "distinct bs" "start \<notin> set bs" "k < length bs \<Longrightarrow> Suc (start + k) \<notin> set bs"
proof -
  have dis: "set bs \<inter> {start..start + length bs} = {}" and "distinct bs"
    using assms by (auto simp: hdr_ok_def)
  then show "distinct bs" by simp
  show "start \<notin> set bs" using dis by auto
  assume "k < length bs"
  then have "Suc (start + k) \<in> {start..start + length bs}" by simp
  with dis show "Suc (start + k) \<notin> set bs" by blast
qed

lemma replay_agree:
  assumes "hdr_ok start bs" "hdr_decode (d start) = bs" "hdr_decode (d' start) = bs"
    and "\<And>k. k < length bs \<Longrightarrow> d' (start + k + 1) = d (start + k + 1)"
    and "d' b = d b \<or> b \<in> set bs"
  shows "replay start d' b = replay start d b"
proof -
  have "copies ((!) bs) (\<lambda>k. start + k + 1) [0..<length bs] d' b =
        copies ((!) bs) (\<lambda>k. start + k + 1) [0..<length bs] d b"
    by (rule copies_agree) (use assms hdr_okD [OF assms(1)] in \<open>auto simp: nth_image_upt\<close>)
  with assms show ?thesis by (simp add: replay_def Let_def copies_fold)
qed

lemma replay_value:
  assumes "hdr_ok start bs" "hdr_decode (d start) = bs" "k < length bs"
  shows "replay start d (bs ! k) = d (start + k + 1)"
proof -
  have "copies ((!) bs) (\<lambda>k. start + k + 1) [0..<length bs] d (bs ! k) = d (start + k + 1)"
    by (rule copies_distinct) (use assms hdr_okD [OF assms(1)] in \<open>auto simp: nth_image_upt inj_on_def nth_eq_iff_index_eq\<close>)
  with assms show ?thesis by (simp add: replay_def Let_def copies_fold)
qed

lemma replay_other: "b \<notin> set (hdr_decode (d start)) \<Longrightarrow> replay start d b = d b"
  unfolding replay_def Let_def copies_fold by (rule copies_other) (auto simp: set_conv_nth)

section \<open>Copying between the log and the home blocks\<close>

text \<open>The state after writing the blocks \<open>ws\<close> through the cache.\<close>

definition wrote :: "(nat \<times> byte list) list \<Rightarrow> 'a bst_scheme \<Rightarrow> 'a bst_scheme \<Rightarrow> bool" where
  "wrote ws s s' \<longleftrightarrow> bio_inv s' \<and> content s' = apply_writes ws (content s) \<and>
     disk s' = apply_writes ws (disk s) \<and> dwrites s' = dwrites s @ ws \<and>
     dirtyset s' = dirtyset s - fst ` set ws \<and> lockset s' = lockset s \<and> same_rest s s' \<and> (quiet s \<longrightarrow> quiet s')"

lemma wrote_Nil [simp]: "bio_inv s \<Longrightarrow> wrote [] s s"
  by (simp add: wrote_def)

lemma wrote_trans: "wrote vs s t \<Longrightarrow> wrote ws t u \<Longrightarrow> wrote (vs @ ws) s u"
  by (auto simp: wrote_def intro: same_rest_trans)

lemma quiet_copy_tail:
  assumes inv: "bio_inv s" and i: "holds s i a" and j: "holds s j b" and ab: "a \<noteq> b"
    and cl: "a \<in> dirtyset s \<or> content s a = disk s a" and q: "quiet s"
    and ok: "on (bwrite j (upd_data j (\<lambda>_. b_data (buf s i)) s)) (\<lambda>_ s. on (brelse i s) (\<lambda>_ s. brelse j s)) = Ok () s'"
  shows "quiet s'"
proof -
  let ?u = "upd_data j (\<lambda>_. b_data (buf s i)) s"
  have d: "b_data (buf s i) = content s a" using holdsD(4) [OF inv i] by simp
  note U = upd_data_spec [OF inv j, of "\<lambda>_. b_data (buf s i)", unfolded d, OF length_content [OF inv]]
  from ok obtain w x where w: "bwrite j ?u = Ok () w" and x: "brelse i w = Ok () x" and y: "brelse j x = Ok () s'"
    by (auto simp: on_eq_Ok)
  obtain w' where "bwrite j ?u = Ok () w'" and W: "bio_inv w'" "holds w' j b" "content w' = content ?u"
      "dirtyset w' = dirtyset ?u - {b}" "disk w' = (disk ?u)(b := content ?u b)"
      "\<And>k c. holds ?u k c \<Longrightarrow> holds w' k c"
    using bwrite_spec [OF U(1,2)] unfolding d by metis
  with w have [simp]: "w' = w" by simp
  have wi: "holds w i a" using W(6) U(9) [OF i] by (simp add: d)
  have "a \<in> dirtyset w \<or> content w a = disk w a"
    using cl ab W by (simp add: U d)
  then obtain x' where "brelse i w = Ok () x'" and X: "bio_inv x'" "\<And>k c. c \<noteq> a \<Longrightarrow> holds w k c \<Longrightarrow> holds x' k c"
    using brelse_spec [of w i a] wi W(1) by (metis \<open>w' = w\<close>)
  with x have [simp]: "x' = x" by simp
  have xj: "holds x j b" using X(2) [of b j] W(2) ab by auto
  have "quiet w" by (rule quiet_bwrite [OF w]) (simp add: q)
  then have "quiet x" by (rule quiet_brelse [OF W(1) [simplified] wi x])
  then show ?thesis by (rule quiet_brelse [OF X(1) [simplified] xj y])
qed

lemma copy_spec:
  assumes inv: "bio_inv s" and i: "holds s i a" and j: "holds s j b" and ab: "a \<noteq> b"
    and cl: "a \<in> dirtyset s \<or> content s a = disk s a"
  obtains s' where
    "on (bwrite j (upd_data j (\<lambda>_. b_data (buf s i)) s)) (\<lambda>_ s. on (brelse i s) (\<lambda>_ s. brelse j s)) = Ok () s'"
    "bio_inv s'" "content s' = (content s)(b := content s a)" "dirtyset s' = dirtyset s - {b}"
    "lockset s' = lockset s - {a, b}" "disk s' = (disk s)(b := content s a)"
    "dwrites s' = dwrites s @ [(b, content s a)]" "same_rest s s'" "quiet s \<longrightarrow> quiet s'"
proof (rule copy_tail_spec [OF inv i j ab cl])
  fix t
  assume r: "on (bwrite j (upd_data j (\<lambda>_. b_data (buf s i)) s)) (\<lambda>_ s. on (brelse i s) (\<lambda>_ s. brelse j s)) = Ok () t"
  have "quiet s \<longrightarrow> quiet t" using quiet_copy_tail [OF inv i j ab cl _ r] by blast
  moreover assume "bio_inv t" "content t = (content s)(b := content s a)" "dirtyset t = dirtyset s - {b}"
    "lockset t = lockset s - {a, b}" "disk t = (disk s)(b := content s a)"
    "dwrites t = dwrites s @ [(b, content s a)]" "same_rest s t"
  ultimately show thesis using r by (intro that)
qed

lemma install_one_spec:
  assumes inv: "bio_inv s" and dev: "lg_dev s = 1" and ok: "install_one k s = Ok u s'"
  shows "wrote [(lg_lh s ! k, content s (lg_start s + k + 1))] s s'"
    "lg_lh s ! k < disksize s" "lg_start s + k + 1 < disksize s"
proof -
  let ?a = "lg_start s + k + 1" and ?b = "lg_lh s ! k"
  from ok obtain i s1 where i: "bread (lg_dev s) ?a s = Ok i s1"
    and r1: "on (bread (lg_dev s1) (lg_lh s1 ! k) s1) (\<lambda>j s. on (bwrite j (upd_data j (\<lambda>_. b_data (buf s i)) s))
      (\<lambda>_ s. on (brelse i s) (\<lambda>_ s. brelse j s))) = Ok u s'"
    unfolding install_one_def by (rule onE)
  from i dev have i: "bread 1 ?a s = Ok i s1" by simp
  from r1 obtain j s2 where j: "bread (lg_dev s1) (lg_lh s1 ! k) s1 = Ok j s2"
    and rest: "on (bwrite j (upd_data j (\<lambda>_. b_data (buf s2 i)) s2)) (\<lambda>_ s. on (brelse i s) (\<lambda>_ s. brelse j s)) = Ok u s'"
    by (rule onE)
  from j dev have j: "bread 1 ?b s1 = Ok j s2"
    using same_rest_lst [OF bread_spec(11) [OF inv i]] by simp
  note B = bread2_spec [OF inv i j]
  have cl: "?a \<in> dirtyset s2 \<or> content s2 ?a = disk s2 ?a"
    using content_clean [OF inv B(5)] by (auto simp: B)
  obtain t where t: "on (bwrite j (upd_data j (\<lambda>_. b_data (buf s2 i)) s2)) (\<lambda>_ s. on (brelse i s) (\<lambda>_ s. brelse j s)) = Ok () t"
    and T: "bio_inv t" "content t = (content s2)(?b := content s2 ?a)" "dirtyset t = dirtyset s2 - {?b}"
    "lockset t = lockset s2 - {?a, ?b}" "disk t = (disk s2)(?b := content s2 ?a)"
    "dwrites t = dwrites s2 @ [(?b, content s2 ?a)]" "same_rest s2 t" "quiet s2 \<longrightarrow> quiet t"
    by (rule copy_spec [OF B(1,2,3,4) cl])
  have "t = s'" using t rest by simp
  moreover have "quiet s \<longrightarrow> quiet s2"
    using quiet_bread [OF inv i] quiet_bread [OF bread_spec(1) [OF inv i] j] by blast
  moreover have "lockset t = lockset s" using T(4) B(5,6,11) by auto
  ultimately show "wrote [(?b, content s ?a)] s s'"
    using T B same_rest_trans [OF B(14) T(7)] by (simp add: wrote_def)
  show "?b < disksize s" "?a < disksize s" by (rule B)+
qed

lemma write_one_spec:
  assumes inv: "bio_inv s" and dev: "lg_dev s = 1" and ok: "write_one k s = Ok u s'"
  shows "wrote [(lg_start s + k + 1, content s (lg_lh s ! k))] s s'"
proof -
  let ?a = "lg_start s + k + 1" and ?b = "lg_lh s ! k"
  from ok obtain i s1 where i: "bread (lg_dev s) ?a s = Ok i s1"
    and r1: "on (bread (lg_dev s1) (lg_lh s1 ! k) s1) (\<lambda>j s. on (bwrite i (upd_data i (\<lambda>_. b_data (buf s j)) s))
      (\<lambda>_ s. on (brelse j s) (\<lambda>_ s. brelse i s))) = Ok u s'"
    unfolding write_one_def by (rule onE)
  from i dev have i: "bread 1 ?a s = Ok i s1" by simp
  from r1 obtain j s2 where j: "bread (lg_dev s1) (lg_lh s1 ! k) s1 = Ok j s2"
    and rest: "on (bwrite i (upd_data i (\<lambda>_. b_data (buf s2 j)) s2)) (\<lambda>_ s. on (brelse j s) (\<lambda>_ s. brelse i s)) = Ok u s'"
    by (rule onE)
  from j dev have j: "bread 1 ?b s1 = Ok j s2"
    using same_rest_lst [OF bread_spec(11) [OF inv i]] by simp
  note B = bread2_spec [OF inv i j]
  have cl: "?b \<in> dirtyset s2 \<or> content s2 ?b = disk s2 ?b"
    using content_clean [OF inv B(6)] by (auto simp: B)
  obtain t where t: "on (bwrite i (upd_data i (\<lambda>_. b_data (buf s2 j)) s2)) (\<lambda>_ s. on (brelse j s) (\<lambda>_ s. brelse i s)) = Ok () t"
    and T: "bio_inv t" "content t = (content s2)(?a := content s2 ?b)" "dirtyset t = dirtyset s2 - {?a}"
    "lockset t = lockset s2 - {?b, ?a}" "disk t = (disk s2)(?a := content s2 ?b)"
    "dwrites t = dwrites s2 @ [(?a, content s2 ?b)]" "same_rest s2 t" "quiet s2 \<longrightarrow> quiet t"
    by (rule copy_spec [OF B(1,3,2) B(4) [symmetric] cl])
  have "t = s'" using t rest by simp
  moreover have "quiet s \<longrightarrow> quiet s2"
    using quiet_bread [OF inv i] quiet_bread [OF bread_spec(1) [OF inv i] j] by blast
  moreover have "lockset t = lockset s" using T(4) B(5,6,11) by auto
  ultimately show "wrote [(?a, content s ?b)] s s'"
    using T B same_rest_trans [OF B(14) T(7)] by (simp add: wrote_def)
qed

lemma wroteD:
  assumes "wrote ws s s'"
  shows "bio_inv s'" "content s' = apply_writes ws (content s)" "disk s' = apply_writes ws (disk s)"
    "dwrites s' = dwrites s @ ws" "dirtyset s' = dirtyset s - fst ` set ws" "lockset s' = lockset s"
    "same_rest s s'" "quiet s \<Longrightarrow> quiet s'" "disksize s' = disksize s"
  using assms by (auto simp: wrote_def same_rest_def)

lemma copy_loop_spec:
  assumes step: "\<And>k s u s'. k \<in> set ks \<Longrightarrow> bio_inv s \<Longrightarrow> P s \<Longrightarrow> f k s = Ok u s' \<Longrightarrow> wrote [(dst k, content s (src k))] s s'"
    and P: "\<And>s s'. P s \<Longrightarrow> same_rest s s' \<Longrightarrow> P s'"
    and "bio_inv s" "P s" "loop f ks s = Ok u s'" and disj: "\<And>k. k \<in> set ks \<Longrightarrow> src k \<notin> dst ` set ks"
  shows "wrote (map (\<lambda>k. (dst k, content s (src k))) ks) s s'"
  using step assms(3-6)
proof (induction ks arbitrary: s)
  case (Cons k ks)
  from Cons.prems(4) obtain v t where t: "f k s = Ok v t" and l: "loop f ks t = Ok u s'"
    by (auto simp: on_eq_Ok)
  have w: "wrote [(dst k, content s (src k))] s t"
    using Cons.prems(1) [of k s v t] Cons.prems(2,3) t by simp
  have "wrote (map (\<lambda>j. (dst j, content t (src j))) ks) t s'"
  proof (rule Cons.IH)
    show "src j \<notin> dst ` set ks" if "j \<in> set ks" for j
      using Cons.prems(5) [of j] that by auto
  qed (use Cons.prems(1) P [OF Cons.prems(3)] wroteD [OF w] l in auto)
  moreover have "content t (src j) = content s (src j)" if "j \<in> set ks" for j
    using Cons.prems(5) [of j] that wroteD(2) [OF w] by auto
  then have "map (\<lambda>j. (dst j, content t (src j))) ks = map (\<lambda>j. (dst j, content s (src j))) ks" by simp
  ultimately show ?case using wrote_trans [OF w] by fastforce
qed simp

definition at_log :: "nat \<Rightarrow> nat list \<Rightarrow> 'a lst_scheme \<Rightarrow> bool" where
  "at_log start lh s \<longleftrightarrow> lg_dev s = 1 \<and> lg_start s = start \<and> lg_lh s = lh"

lemma at_log_same_rest: "at_log start lh s \<Longrightarrow> same_rest s s' \<Longrightarrow> at_log start lh s'"
  by (simp add: at_log_def same_rest_lst)

lemma write_head_spec:
  assumes inv: "bio_inv s" and dev: "lg_dev s = 1" and ok: "write_head s = Ok u s'"
  shows "wrote [(lg_start s, hdr_encode (lg_lh s) (content s (lg_start s)))] s s'" "lg_start s \<notin> lockset s"
proof -
  let ?b = "lg_start s" and ?f = "hdr_encode (lg_lh s)"
  from ok obtain i s1 where i: "bread (lg_dev s) ?b s = Ok i s1"
    and r1: "on (bwrite i (upd_data i (hdr_encode (lg_lh s1)) s1)) (\<lambda>_ s. brelse i s) = Ok u s'"
    unfolding write_head_def by (rule onE)
  from i dev have i: "bread 1 ?b s = Ok i s1" by simp
  note A = bread_spec [OF inv i]
  from r1 have r1: "on (bwrite i (upd_data i ?f s1)) (\<lambda>_ s. brelse i s) = Ok u s'"
    by (simp add: same_rest_lst [OF A(11)])
  have len: "length (?f (content s1 ?b)) = BSIZE" using length_content [OF A(1)] by simp
  note U = upd_data_spec [OF A(1,2), where f = "?f", OF len]
  obtain w where w: "bwrite i (upd_data i ?f s1) = Ok () w"
    and W: "bio_inv w" "holds w i ?b" "content w = content (upd_data i ?f s1)"
      "dirtyset w = dirtyset (upd_data i ?f s1) - {?b}"
      "lockset w = lockset (upd_data i ?f s1)"
      "disk w = (disk (upd_data i ?f s1))(?b := content (upd_data i ?f s1) ?b)"
      "dwrites w = dwrites (upd_data i ?f s1) @ [(?b, content (upd_data i ?f s1) ?b)]"
      "same_rest (upd_data i ?f s1) w"
    by (rule bwrite_spec [OF U(1,2)])
  from r1 w have y: "brelse i w = Ok () s'" by simp
  have cl: "?b \<in> dirtyset w \<or> content w ?b = disk w ?b" by (simp add: W)
  obtain z where z: "brelse i w = Ok () z" and Z: "bio_inv z" "content z = content w" "dirtyset z = dirtyset w"
      "lockset z = lockset w - {?b}" "disk z = disk w" "dwrites z = dwrites w" "same_rest w z"
    by (rule brelse_spec [OF W(1,2) cl])
  from z y have [simp]: "z = s'" by simp
  have "quiet s \<longrightarrow> quiet s'"
    using quiet_bread [OF inv i] quiet_bwrite [OF w] quiet_brelse [OF W(1,2) y] by simp
  moreover have "same_rest s s'"
    using A(11) U(8) W(8) Z(7) by (auto intro: same_rest_trans)
  moreover have "lockset s' = lockset s" using Z(4) W(5) U(5) A(7,8) by auto
  ultimately show "wrote [(?b, ?f (content s ?b))] s s'"
    using Z by (simp add: wrote_def W U A)
  show "?b \<notin> lockset s" by (rule A)
qed

lemma read_head_spec:
  assumes inv: "bio_inv s" and dev: "lg_dev s = 1" and ok: "read_head s = Ok u s'"
  shows "bio_inv s'" "content s' = content s" "disk s' = disk s" "dwrites s' = dwrites s"
    "dirtyset s' = dirtyset s" "lockset s' = lockset s" "quiet s \<Longrightarrow> quiet s'" "disksize s' = disksize s"
    "lg_lh s' = hdr_decode (content s (lg_start s))" "lg_start s' = lg_start s" "lg_dev s' = 1"
    "lg_size s' = lg_size s" "lg_outstanding s' = lg_outstanding s" "lg_committing s' = lg_committing s"
    "length (lg_lh s') \<le> LOGSIZE" "lg_start s \<notin> lockset s"
proof -
  from ok obtain i s1 where i: "bread (lg_dev s) (lg_start s) s = Ok i s1"
    and r1: "(let d = b_data (buf s1 i) in
       if hdr_count d > int LOGSIZE then Undef ''read_head: block[] out of bounds''
       else brelse i (s1\<lparr>lg_lh := hdr_decode d\<rparr>)) = Ok u s'"
    unfolding read_head_def by (rule onE)
  from i dev have i: "bread 1 (lg_start s) s = Ok i s1" by simp
  note A = bread_spec [OF inv i]
  note R = same_rest_lst [OF A(11)]
  define d where "d = content s (lg_start s)"
  define v where "v = s1\<lparr>lg_lh := hdr_decode d\<rparr>"
  from r1 A(3) have c: "hdr_count d \<le> int LOGSIZE" and y: "brelse i v = Ok () s'"
    by (auto simp: d_def v_def Let_def split: if_splits)
  have V: "bio_inv v" "holds v i (lg_start s)" "content v = content s" "dirtyset v = dirtyset s"
    "lockset v = lockset s1" "disk v = disk s" "dwrites v = dwrites s" "quiet v = quiet s1"
    "disksize v = disksize s"
    using A by (simp_all add: v_def same_rest_def)
  have cl: "lg_start s \<in> dirtyset v \<or> content v (lg_start s) = disk v (lg_start s)"
    using content_clean [OF inv A(8)] by (auto simp: V)
  obtain z where z: "brelse i v = Ok () z" and Z: "bio_inv z" "content z = content v" "dirtyset z = dirtyset v"
      "lockset z = lockset v - {lg_start s}" "disk z = disk v" "dwrites z = dwrites v" "same_rest v z"
    by (rule brelse_spec [OF V(1,2) cl])
  from z y have [simp]: "z = s'" by simp
  note T = same_rest_lst [OF Z(7)]
  show "bio_inv s'" "content s' = content s" "disk s' = disk s" "dwrites s' = dwrites s" "dirtyset s' = dirtyset s"
    using Z V by simp_all
  show "lg_start s \<notin> lockset s" by (rule A)
  show "lockset s' = lockset s" using Z(4) V(5) A(7,8) by auto
  show "quiet s'" if "quiet s"
    using quiet_brelse [OF V(1,2) y] quiet_bread [OF inv i that] V(8) by simp
  show "disksize s' = disksize s" using Z(7) V(9) by (simp add: same_rest_def)
  show "lg_lh s' = hdr_decode (content s (lg_start s))" "lg_start s' = lg_start s" "lg_dev s' = 1"
    "lg_size s' = lg_size s" "lg_outstanding s' = lg_outstanding s" "lg_committing s' = lg_committing s"
    using T R dev by (simp_all add: v_def d_def)
  then show "length (lg_lh s') \<le> LOGSIZE"
    using c by (simp add: hdr_decode_def d_def)
qed

section \<open>Commit\<close>

definition log_writes :: "nat \<Rightarrow> nat list \<Rightarrow> (nat \<Rightarrow> byte list) \<Rightarrow> (nat \<times> byte list) list" where
  "log_writes start lh c = map (\<lambda>k. (start + k + 1, c (lh ! k))) [0..<length lh]"

definition home_writes :: "nat list \<Rightarrow> (nat \<Rightarrow> byte list) \<Rightarrow> (nat \<times> byte list) list" where
  "home_writes lh c = map (\<lambda>k. (lh ! k, c (lh ! k))) [0..<length lh]"

text \<open>The writes of a commit: the log, the header, the home blocks, the empty header.\<close>

definition commit_writes :: "nat \<Rightarrow> nat list \<Rightarrow> (nat \<Rightarrow> byte list) \<Rightarrow> (nat \<times> byte list) list" where
  "commit_writes start lh c =
     log_writes start lh c @ (start, hdr_encode lh (c start)) #
     home_writes lh c @ [(start, hdr_encode [] (hdr_encode lh (c start)))]"

lemma log_writes_simps [simp]:
  "length (log_writes start lh c) = length lh"
  "fst ` set (log_writes start lh c) = {Suc start..<Suc start + length lh}"
  "map fst (log_writes start lh c) = map (\<lambda>k. start + k + 1) [0..<length lh]"
proof -
  have "fst ` set (log_writes start lh c) = (\<lambda>k. Suc start + k) ` {0..<length lh}"
    by (simp add: log_writes_def image_image)
  then show "fst ` set (log_writes start lh c) = {Suc start..<Suc start + length lh}"
    by (simp only: image_add_atLeastLessThan) (simp add: add.commute)
qed (simp_all add: log_writes_def)

lemma home_writes_simps [simp]:
  "length (home_writes lh c) = length lh" "fst ` set (home_writes lh c) = set lh" "map fst (home_writes lh c) = lh"
  by (simp_all add: home_writes_def image_image nth_image_upt map_nth comp_def)

lemma log_writes_at: "k < length lh \<Longrightarrow> apply_writes (log_writes start lh c) d (Suc (start + k)) = c (lh ! k)"
  by (rule apply_writes_distinct) (auto simp: log_writes_def distinct_map inj_on_def)

lemma home_writes_at:
  assumes "distinct lh" "b \<in> set lh"
  shows "apply_writes (home_writes lh c) d b = c b"
proof (rule apply_writes_distinct)
  from assms(2) show "(b, c b) \<in> set (home_writes lh c)"
    unfolding in_set_conv_nth [of b] by (auto simp: home_writes_def)
qed (use assms in simp)

lemma take_home_writes: "fst ` set (take j (home_writes lh c)) \<subseteq> set lh"
  using set_take_subset [of j "home_writes lh c"] home_writes_simps(2) [of lh c] by blast

lemma take_log_writes: "fst ` set (take j (log_writes start lh c)) \<subseteq> {Suc start..<Suc start + length lh}"
  using set_take_subset [of j "log_writes start lh c"] log_writes_simps(2) [of start lh c] by blast

lemma recovered_other: "b \<noteq> start \<Longrightarrow> recovered start d b = replay start d b"
  by (simp add: recovered_def Let_def)

text \<open>Once the log and the header are on the device, recovery completes the transaction no matter
  how many of the home blocks have been written.\<close>

lemma committed_prefix:
  assumes ok: "hdr_ok start lh" and n: "length lh \<le> LOGSIZE" and w: "\<And>b. b \<in> set lh \<Longrightarrow> b < 2 ^ 32"
    and H: "length H = BSIZE" and b: "b \<notin> {start..start + length lh}"
  shows "recovered start (apply_writes (log_writes start lh c @ (start, hdr_encode lh H) # take j (home_writes lh c)) d) b
       = (if b \<in> set lh then c b else d b)"
proof -
  let ?d = "apply_writes (log_writes start lh c @ (start, hdr_encode lh H) # take j (home_writes lh c)) d"
  let ?e = "(apply_writes (log_writes start lh c) d)(start := hdr_encode lh H)"
  have notin: "x \<notin> fst ` set (take j (home_writes lh c))" if "x \<notin> set lh" for x
    using take_home_writes [of j lh c] that by blast
  have off: "?d x = ?e x" if "x \<notin> set lh" for x
    using apply_writes_other [OF notin [OF that]] by simp
  have dec: "hdr_decode (?d start) = lh"
    using off [OF hdr_okD(2) [OF ok]] hdr_decode_encode [OF n H w] by simp
  have bs: "b \<noteq> start" using b by auto
  show ?thesis
  proof (cases "b \<in> set lh")
    case True
    then obtain k where k: "k < length lh" "b = lh ! k" by (auto simp: in_set_conv_nth)
    have "replay start ?d b = ?d (start + k + 1)"
      unfolding k(2) by (rule replay_value [where d = ?d, OF ok dec k(1)])
    also have "\<dots> = ?e (start + k + 1)"
      by (rule off) (use hdr_okD(3) [OF ok k(1)] in simp)
    also have "\<dots> = c b" using log_writes_at [OF k(1)] by (simp add: k(2))
    finally show ?thesis using True by (simp add: recovered_other [OF bs])
  next
    case False
    then have "replay start ?d b = ?d b" using dec by (intro replay_other) simp
    also have "\<dots> = ?e b" by (rule off [OF False])
    also have "b \<notin> fst ` set (log_writes start lh c)" using b by (simp only: log_writes_simps) auto
    then have "?e b = d b" using bs by (simp add: apply_writes_other)
    finally show ?thesis using False by (simp add: recovered_other [OF bs])
  qed
qed

lemma commit_prefix:
  assumes ok: "hdr_ok start lh" and n: "length lh \<le> LOGSIZE" and w: "\<And>b. b \<in> set lh \<Longrightarrow> b < 2 ^ 32"
    and H: "length (c start) = BSIZE" and old: "hdr_decode (d start) = []"
    and D: "D = apply_writes (take j (commit_writes start lh c)) d"
  shows "(\<forall>b. b \<notin> {start..start + length lh} \<longrightarrow> recovered start D b = d b) \<or>
         (\<forall>b. b \<notin> {start..start + length lh} \<longrightarrow> recovered start D b = (if b \<in> set lh then c b else d b))"
proof -
  consider "j \<le> length lh" | "length lh < j" "j \<le> Suc (length lh + length lh)" | "Suc (length lh + length lh) < j"
    by linarith
  then show ?thesis
  proof cases
    case 1
    then have D: "D = apply_writes (take j (log_writes start lh c)) d"
      by (simp add: D commit_writes_def)
    have off: "D b = d b" if "b \<notin> {Suc start..<Suc start + length lh}" for b
      unfolding D using take_log_writes that by (intro apply_writes_other) blast
    have "hdr_decode (D start) = []" using off old by simp
    then have "recovered start D b = d b" if "b \<notin> {start..start + length lh}" for b
      using that off by (subst recovered_other) (auto simp: replay_empty)
    then show ?thesis by blast
  next
    case 2
    then obtain i where i: "j = Suc (length lh + i)" "i \<le> length lh"
      by (metis less_iff_Suc_add add_Suc_right nat_add_left_cancel_le Suc_le_mono)
    then have D: "D = apply_writes (log_writes start lh c @ (start, hdr_encode lh (c start)) # take i (home_writes lh c)) d"
      by (simp add: D commit_writes_def)
    show ?thesis
      unfolding D using committed_prefix [OF ok n w H] by blast
  next
    case 3
    then have D: "D = (apply_writes (log_writes start lh c @ (start, hdr_encode lh (c start)) # home_writes lh c) d)
        (start := hdr_encode [] (hdr_encode lh (c start)))"
      by (simp add: D commit_writes_def)
    have "hdr_decode (D start) = []" using H by (simp add: D)
    then have "recovered start D b = (if b \<in> set lh then c b else d b)" if "b \<notin> {start..start + length lh}" for b
      using that home_writes_at [OF hdr_okD(1) [OF ok]]
      by (subst recovered_other) (auto simp: replay_empty D apply_writes_other)
    then show ?thesis by blast
  qed
qed

section \<open>The invariant of the log and what commit does\<close>

definition log_region :: "'a lst_scheme \<Rightarrow> nat set" where
  "log_region s = {lg_start s..<lg_start s + nat (lg_size s)}"

definition log_inv :: "'a lst_scheme \<Rightarrow> bool" where
  "log_inv s \<longleftrightarrow>
     bio_inv s \<and> lg_dev s = 1 \<and> hdr_decode (disk s (lg_start s)) = [] \<and>
     distinct (lg_lh s) \<and> set (lg_lh s) \<inter> log_region s = {} \<and> set (lg_lh s) \<subseteq> {..<disksize s} \<and>
     length (lg_lh s) \<le> LOGSIZE \<and> int (length (lg_lh s)) < lg_size s \<and>
     dirtyset s = set (lg_lh s) \<and> lg_start s + nat (lg_size s) \<le> disksize s \<and> disksize s \<le> 2 ^ 32"

lemma log_invD:
  assumes "log_inv s"
  shows "bio_inv s" "lg_dev s = 1" "hdr_decode (disk s (lg_start s)) = []" "distinct (lg_lh s)"
    "set (lg_lh s) \<inter> log_region s = {}" "length (lg_lh s) \<le> LOGSIZE" "int (length (lg_lh s)) < lg_size s"
    "dirtyset s = set (lg_lh s)" "lg_start s + nat (lg_size s) \<le> disksize s"
    "hdr_ok (lg_start s) (lg_lh s)" "b \<in> set (lg_lh s) \<Longrightarrow> b < disksize s" "b \<in> set (lg_lh s) \<Longrightarrow> b < 2 ^ 32"
proof -
  show "set (lg_lh s) \<inter> log_region s = {}" using assms by (auto simp: log_inv_def)
  moreover have "{lg_start s..lg_start s + length (lg_lh s)} \<subseteq> log_region s"
    using assms by (auto simp: log_inv_def log_region_def)
  moreover show "distinct (lg_lh s)" using assms by (simp add: log_inv_def)
  ultimately show "hdr_ok (lg_start s) (lg_lh s)" by (auto simp: hdr_ok_def)
qed (use assms in \<open>auto simp: log_inv_def\<close>)

lemma write_log_spec:
  assumes inv: "bio_inv s" and dev: "lg_dev s = 1" and hd: "hdr_ok (lg_start s) (lg_lh s)" and ok: "write_log s = Ok u s'"
  shows "wrote (log_writes (lg_start s) (lg_lh s) (content s)) s s'"
  unfolding log_writes_def
proof (rule copy_loop_spec [where f = write_one and P = "at_log (lg_start s) (lg_lh s)"])
  show "wrote [(lg_start s + k + 1, content t (lg_lh s ! k))] t t'"
    if "bio_inv t" "at_log (lg_start s) (lg_lh s) t" "write_one k t = Ok v t'" for k t v t'
    using write_one_spec [OF that(1) _ that(3)] that(2) by (simp add: at_log_def)
  show "lg_lh s ! k \<notin> (\<lambda>k. lg_start s + k + 1) ` set [0..<length (lg_lh s)]" if "k \<in> set [0..<length (lg_lh s)]" for k
    using hdr_okD(3) [OF hd] nth_mem [of k "lg_lh s"] that by (metis (no_types, lifting) Suc_eq_plus1 atLeastLessThan_iff imageE set_upt)
qed (use assms in \<open>simp_all add: at_log_def write_log_def same_rest_lst\<close>)

lemma install_trans_spec:
  assumes inv: "bio_inv s" and dev: "lg_dev s = 1" and hd: "hdr_ok (lg_start s) (lg_lh s)" and ok: "install_trans s = Ok u s'"
  shows "wrote (map (\<lambda>k. (lg_lh s ! k, content s (lg_start s + k + 1))) [0..<length (lg_lh s)]) s s'"
proof (rule copy_loop_spec [where f = install_one and P = "at_log (lg_start s) (lg_lh s)"])
  show "wrote [(lg_lh s ! k, content t (lg_start s + k + 1))] t t'"
    if "bio_inv t" "at_log (lg_start s) (lg_lh s) t" "install_one k t = Ok v t'" for k t v t'
    using install_one_spec [OF that(1) _ that(3)] that(2) by (simp add: at_log_def)
  show "lg_start s + k + 1 \<notin> (!) (lg_lh s) ` set [0..<length (lg_lh s)]" if "k \<in> set [0..<length (lg_lh s)]" for k
    using hdr_okD(3) [OF hd, of k] that by (simp add: nth_image_upt)
qed (use assms in \<open>simp_all add: at_log_def install_trans_def same_rest_lst\<close>)

lemma same_rest_lh: "same_rest s s' \<Longrightarrow> same_rest (s\<lparr>lg_lh := l\<rparr>) (s'\<lparr>lg_lh := l\<rparr>)"
  by (cases s; cases s') (simp add: same_rest_def myproc_def)

lemma wrote_lh: "wrote ws s s' \<Longrightarrow> wrote ws (s\<lparr>lg_lh := l\<rparr>) (s'\<lparr>lg_lh := l\<rparr>)"
  by (simp add: wrote_def same_rest_lh)

lemma commit_spec:
  assumes inv: "log_inv s" and ne: "lg_lh s \<noteq> []" and ok: "commit s = Ok u s'"
  shows "wrote (commit_writes (lg_start s) (lg_lh s) (content s)) (s\<lparr>lg_lh := []\<rparr>) s'"
proof -
  let ?st = "lg_start s" and ?lh = "lg_lh s" and ?c = "content s"
  note I = log_invD [OF inv]
  from ok ne obtain v1 s1 v2 s2 v3 s3 where 1: "write_log s = Ok v1 s1" and 2: "write_head s1 = Ok v2 s2"
    and 3: "install_trans s2 = Ok v3 s3" and 4: "write_head (s3\<lparr>lg_lh := []\<rparr>) = Ok u s'"
    by (auto simp: commit_def on_eq_Ok)
  note W1 = wroteD [OF write_log_spec [OF I(1,2,10) 1]]
  note R1 = same_rest_lst [OF W1(7)]
  have "?st \<notin> fst ` set (log_writes ?st ?lh ?c)" by simp
  then have c1: "content s1 ?st = ?c ?st" using W1(2) by (simp add: apply_writes_other)
  have 2: "wrote [(?st, hdr_encode ?lh (?c ?st))] s1 s2"
    using write_head_spec(1) [OF W1(1) _ 2] I(2) c1 by (simp add: R1)
  note W2 = wroteD [OF 2] and R2 = same_rest_lst [OF wroteD(7) [OF 2]]
  have "content s2 (?st + k + 1) = ?c (?lh ! k)" if "k < length ?lh" for k
    using log_writes_at [OF that] by (simp add: W2 W1)
  then have "map (\<lambda>k. (?lh ! k, content s2 (?st + k + 1))) [0..<length ?lh] = home_writes ?lh ?c"
    by (simp add: home_writes_def)
  then have 3: "wrote (home_writes ?lh ?c) s2 s3"
    using install_trans_spec [OF W2(1) _ _ 3] I(2,10) by (simp add: R2 R1)
  note W3 = wroteD [OF 3] and R3 = same_rest_lst [OF wroteD(7) [OF 3]]
  have c3: "content s3 ?st = hdr_encode ?lh (?c ?st)"
    using hdr_okD(2) [OF I(10)] by (simp add: W3 W2 apply_writes_other)
  define t where "t = s3\<lparr>lg_lh := []\<rparr>"
  have 4: "wrote [(?st, hdr_encode [] (hdr_encode ?lh (?c ?st)))] t s'"
    using write_head_spec(1) [OF _ _ 4] W3(1) I(2) c3 by (simp add: t_def R3 R2 R1)
  have 123: "wrote (log_writes ?st ?lh ?c @ [(?st, hdr_encode ?lh (?c ?st))] @ home_writes ?lh ?c) s s3"
    using wrote_trans [OF write_log_spec [OF I(1,2,10) 1] wrote_trans [OF 2 3]] by simp
  then have "wrote (log_writes ?st ?lh ?c @ [(?st, hdr_encode ?lh (?c ?st))] @ home_writes ?lh ?c) (s\<lparr>lg_lh := []\<rparr>) t"
    unfolding t_def by (rule wrote_lh)
  from wrote_trans [OF this 4] show ?thesis by (simp add: commit_writes_def)
qed

section \<open>Commit and recovery return\<close>

lemma bread2_total:
  assumes inv: "bio_inv s" and q: "quiet s" and l: "lockset s = {}" and ab: "a \<noteq> b"
    and sz: "a < disksize s" "b < disksize s" and room: "card (insert b (dirtyset s)) < NBUF"
  obtains i s1 j s2 where "bread 1 a s = Ok i s1" "bread 1 b s1 = Ok j s2"
proof -
  have "card (dirtyset s) \<le> card (insert b (dirtyset s))" by (rule card_mono) auto
  then obtain i s1 where i: "bread 1 a s = Ok i s1"
    using bread_total [OF inv q sz(1)] l room by auto
  note A = bread_spec [OF inv i]
  have "b \<in> dirtyset s1 \<or> card (lockset s1 \<union> dirtyset s1) < NBUF"
    using room by (auto simp: A l card_insert_if split: if_splits)
  moreover have "b < disksize s1" using sz A(11) by (simp add: same_rest_def)
  moreover have "b \<notin> lockset s1" using A(7) l ab by simp
  ultimately obtain j s2 where "bread 1 b s1 = Ok j s2"
    using bread_total [OF A(1) quiet_bread [OF inv i q]] by blast
  with i show thesis by (rule that)
qed

lemma copy_ok:
  assumes inv: "bio_inv s" and i: "bread 1 a s = Ok i s1" and j: "bread 1 b s1 = Ok j s2"
  shows "\<exists>s'. on (bwrite j (upd_data j (\<lambda>_. b_data (buf s2 i)) s2)) (\<lambda>_ s. on (brelse i s) (\<lambda>_ s. brelse j s)) = Ok () s'"
    and "\<exists>s'. on (bwrite i (upd_data i (\<lambda>_. b_data (buf s2 j)) s2)) (\<lambda>_ s. on (brelse j s) (\<lambda>_ s. brelse i s)) = Ok () s'"
proof -
  note B = bread2_spec [OF inv i j]
  have cl: "a \<in> dirtyset s2 \<or> content s2 a = disk s2 a" "b \<in> dirtyset s2 \<or> content s2 b = disk s2 b"
    using content_clean [OF inv B(5)] content_clean [OF inv B(6)] by (auto simp: B)
  show "\<exists>s'. on (bwrite j (upd_data j (\<lambda>_. b_data (buf s2 i)) s2)) (\<lambda>_ s. on (brelse i s) (\<lambda>_ s. brelse j s)) = Ok () s'"
    by (rule copy_spec [OF B(1,2,3,4) cl(1)]) (rule exI)
  show "\<exists>s'. on (bwrite i (upd_data i (\<lambda>_. b_data (buf s2 j)) s2)) (\<lambda>_ s. on (brelse j s) (\<lambda>_ s. brelse i s)) = Ok () s'"
    by (rule copy_spec [OF B(1,3,2) B(4) [symmetric] cl(2)]) (rule exI)
qed

text \<open>The situation in which the copying loops run: nothing is locked, and pinned blocks and the
  target leave a buffer free.\<close>

definition roomy :: "nat \<Rightarrow> nat list \<Rightarrow> 'a lst_scheme \<Rightarrow> bool" where
  "roomy start lh s \<longleftrightarrow> bio_inv s \<and> quiet s \<and> lockset s = {} \<and> at_log start lh s \<and> hdr_ok start lh \<and>
     set lh \<subseteq> {..<disksize s} \<and> start + length lh < disksize s \<and> dirtyset s \<subseteq> set lh \<and> length lh < NBUF"

lemma roomy_bread2:
  assumes r: "roomy start lh s" and k: "k < length lh"
  obtains i s1 j s2 where "bread 1 (start + k + 1) s = Ok i s1" "bread 1 (lh ! k) s1 = Ok j s2"
proof (rule bread2_total)
  show "bio_inv s" "quiet s" "lockset s = {}" using r by (auto simp: roomy_def)
  have "hdr_ok start lh" using r by (simp add: roomy_def)
  from hdr_okD(3) [OF this k] show "start + k + 1 \<noteq> lh ! k" using nth_mem [OF k] by auto
  have sub: "set lh \<subseteq> {..<disksize s}" and "start + length lh < disksize s" using r by (simp_all add: roomy_def)
  then show "start + k + 1 < disksize s" using k by simp
  show "lh ! k < disksize s" using sub nth_mem [OF k] by blast
  have "insert (lh ! k) (dirtyset s) \<subseteq> set lh" using r k by (auto simp: roomy_def)
  then have "card (insert (lh ! k) (dirtyset s)) \<le> card (set lh)" by (intro card_mono) auto
  also have "\<dots> \<le> length lh" by (rule card_length)
  finally show "card (insert (lh ! k) (dirtyset s)) < NBUF" using r by (auto simp: roomy_def)
qed

lemma roomy_wrote: "roomy start lh s \<Longrightarrow> wrote ws s s' \<Longrightarrow> roomy start lh s'"
  unfolding roomy_def by (auto simp: wroteD at_log_same_rest)

lemma write_one_total:
  assumes r: "roomy start lh s" and k: "k < length lh"
  shows "\<exists>s'. write_one k s = Ok () s' \<and> roomy start lh s'"
proof -
  have inv: "bio_inv s" and at: "lg_dev s = 1" "lg_start s = start" "lg_lh s = lh"
    using r by (auto simp: roomy_def at_log_def)
  obtain i s1 j s2 where i: "bread 1 (start + k + 1) s = Ok i s1" and j: "bread 1 (lh ! k) s1 = Ok j s2"
    by (rule roomy_bread2 [OF r k])
  have "lg_dev s1 = 1" "lg_lh s1 = lh"
    using same_rest_lst [OF bread_spec(11) [OF inv i]] at by simp_all
  with i j copy_ok(2) [OF inv i j] at obtain s' where "write_one k s = Ok () s'"
    by (auto simp: write_one_def)
  with roomy_wrote [OF r write_one_spec [OF inv at(1)]] show ?thesis by blast
qed

lemma install_one_total:
  assumes r: "roomy start lh s" and k: "k < length lh"
  shows "\<exists>s'. install_one k s = Ok () s' \<and> roomy start lh s'"
proof -
  have inv: "bio_inv s" and at: "lg_dev s = 1" "lg_start s = start" "lg_lh s = lh"
    using r by (auto simp: roomy_def at_log_def)
  obtain i s1 j s2 where i: "bread 1 (start + k + 1) s = Ok i s1" and j: "bread 1 (lh ! k) s1 = Ok j s2"
    by (rule roomy_bread2 [OF r k])
  have "lg_dev s1 = 1" "lg_lh s1 = lh"
    using same_rest_lst [OF bread_spec(11) [OF inv i]] at by simp_all
  with i j copy_ok(1) [OF inv i j] at obtain s' where "install_one k s = Ok () s'"
    by (auto simp: install_one_def)
  with roomy_wrote [OF r install_one_spec(1) [OF inv at(1)]] show ?thesis by blast
qed

lemma write_head_total:
  assumes inv: "bio_inv s" and dev: "lg_dev s = 1" and q: "quiet s" and l: "lockset s = {}"
    and sz: "lg_start s < disksize s" and room: "card (dirtyset s) < NBUF"
  shows "\<exists>s'. write_head s = Ok () s'"
proof -
  let ?b = "lg_start s"
  obtain i s1 where i: "bread 1 ?b s = Ok i s1"
    using bread_total [OF inv q sz] l room by auto
  note A = bread_spec [OF inv i]
  have len: "length (hdr_encode (lg_lh s1) (content s1 ?b)) = BSIZE" using length_content [OF A(1)] by simp
  note U = upd_data_spec [OF A(1,2), where f = "hdr_encode (lg_lh s1)", OF len]
  obtain w where w: "bwrite i (upd_data i (hdr_encode (lg_lh s1)) s1) = Ok () w"
    and W: "bio_inv w" "holds w i ?b" "content w = content (upd_data i (hdr_encode (lg_lh s1)) s1)"
      "disk w = (disk (upd_data i (hdr_encode (lg_lh s1)) s1))(?b := content (upd_data i (hdr_encode (lg_lh s1)) s1) ?b)"
    using bwrite_spec [OF U(1,2)] by metis
  have "?b \<in> dirtyset w \<or> content w ?b = disk w ?b" by (simp add: W)
  then obtain z where "brelse i w = Ok () z" using brelse_spec [OF W(1,2)] by metis
  with i w dev show ?thesis by (simp add: write_head_def)
qed

lemma roomy_loops:
  assumes r: "roomy start lh s"
  shows "\<exists>s'. write_log s = Ok () s' \<and> roomy start lh s'" "\<exists>s'. install_trans s = Ok () s' \<and> roomy start lh s'"
proof -
  have e: "lg_lh s = lh" using r by (simp add: roomy_def at_log_def)
  show "\<exists>s'. write_log s = Ok () s' \<and> roomy start lh s'"
    unfolding write_log_def e by (rule loop_total) (use write_one_total r in simp_all)
  show "\<exists>s'. install_trans s = Ok () s' \<and> roomy start lh s'"
    unfolding install_trans_def e by (rule loop_total) (use install_one_total r in simp_all)
qed

lemma roomy_write_head:
  assumes "roomy start lh s"
  shows "\<exists>s'. write_head s = Ok () s' \<and> roomy start lh s'" "\<exists>s'. write_head (s\<lparr>lg_lh := []\<rparr>) = Ok () s'"
proof -
  have s: "bio_inv s" "lg_dev s = 1" "quiet s" "lockset s = {}" "lg_start s < disksize s" "dirtyset s \<subseteq> set lh" "length lh < NBUF"
    using assms by (auto simp: roomy_def at_log_def)
  have "card (dirtyset s) \<le> card (set lh)" using s(6) by (intro card_mono) auto
  also have "\<dots> \<le> length lh" by (rule card_length)
  finally have c: "card (dirtyset s) < NBUF" using s(7) by simp
  obtain s' where "write_head s = Ok () s'" using write_head_total [OF s(1-5) c] by blast
  with roomy_wrote [OF assms write_head_spec(1) [OF s(1,2)]]
  show "\<exists>s'. write_head s = Ok () s' \<and> roomy start lh s'" by blast
  show "\<exists>s'. write_head (s\<lparr>lg_lh := []\<rparr>) = Ok () s'" by (rule write_head_total) (use s c in simp_all)
qed

lemma commit_total:
  assumes inv: "log_inv s" and q: "quiet s" and l: "lockset s = {}" and sz: "lg_size s \<le> int NBUF"
  shows "\<exists>s'. commit s = Ok () s'"
proof (cases "lg_lh s = []")
  case False
  note I = log_invD [OF inv]
  have "roomy (lg_start s) (lg_lh s) s"
    using I(1,2,7,8,9,10,11) q l sz by (auto simp: roomy_def at_log_def)
  from roomy_loops(1) [OF this] obtain s1 where 1: "write_log s = Ok () s1" and "roomy (lg_start s) (lg_lh s) s1" by blast
  from roomy_write_head(1) [OF this(2)] obtain s2 where 2: "write_head s1 = Ok () s2" and "roomy (lg_start s) (lg_lh s) s2" by blast
  from roomy_loops(2) [OF this(2)] obtain s3 where 3: "install_trans s2 = Ok () s3" and "roomy (lg_start s) (lg_lh s) s3" by blast
  from roomy_write_head(2) [OF this(2)] 1 2 3 False show ?thesis by (auto simp: commit_def)
qed (simp add: commit_def)

section \<open>Transactions\<close>

lemma lst_wakeup [simp]:
  "lg_start (wakeup ch s) = lg_start s" "lg_size (wakeup ch s) = lg_size s" "lg_outstanding (wakeup ch s) = lg_outstanding s"
  "lg_committing (wakeup ch s) = lg_committing s" "lg_dev (wakeup ch s) = lg_dev s" "lg_lh (wakeup ch s) = lg_lh s"
  "lst.more (wakeup ch s) = lst.more s"
  by (simp_all add: wakeup_def)

lemma log_inv_frame [simp]:
  "log_inv (s\<lparr>lg_outstanding := n\<rparr>) = log_inv s" "log_inv (s\<lparr>lg_committing := c\<rparr>) = log_inv s"
  "log_region (s\<lparr>lg_outstanding := n\<rparr>) = log_region s" "log_region (s\<lparr>lg_committing := c\<rparr>) = log_region s"
  "log_inv s \<Longrightarrow> log_inv (wakeup ch s)"
  by (simp_all add: log_inv_def log_region_def)

text \<open>What the device holds once the current transaction is committed.\<close>

definition committed :: "'a lst_scheme \<Rightarrow> nat \<Rightarrow> byte list" where
  "committed s b = (if b \<in> set (lg_lh s) then content s b else disk s b)"

lemma commit_writes_home:
  assumes "hdr_ok start lh" "b \<notin> {start..start + length lh}"
  shows "apply_writes (commit_writes start lh c) d b = (if b \<in> set lh then c b else d b)"
proof -
  have "b \<noteq> start" "b \<notin> fst ` set (log_writes start lh c)" using assms(2) by (auto simp only: log_writes_simps) auto
  then show ?thesis
    using home_writes_at [OF hdr_okD(1) [OF assms(1)]] by (auto simp: commit_writes_def apply_writes_other)
qed

definition after_commit :: "'a lst_scheme \<Rightarrow> 'a lst_scheme \<Rightarrow> bool" where
  "after_commit s s' \<longleftrightarrow> log_inv s' \<and> lg_lh s' = [] \<and> dirtyset s' = {} \<and> lockset s' = lockset s \<and>
     (quiet s \<longrightarrow> quiet s') \<and> same_rest (s\<lparr>lg_lh := []\<rparr>) s' \<and>
     (\<forall>b. b \<notin> log_region s \<longrightarrow> disk s' b = committed s b \<and> content s' b = content s b) \<and>
     dwrites s' = dwrites s @ (if lg_lh s = [] then [] else commit_writes (lg_start s) (lg_lh s) (content s))"

lemma outside_region:
  assumes "log_inv s" "b \<notin> log_region s"
  shows "b \<notin> {lg_start s..lg_start s + length (lg_lh s)}" "b \<noteq> lg_start s"
  using assms log_invD(7) [OF assms(1)] by (auto simp: log_region_def)

lemma commit_post:
  assumes inv: "log_inv s" and ok: "commit s = Ok u s'"
  shows "after_commit s s'"
proof (cases "lg_lh s = []")
  case True
  with ok have [simp]: "s' = s" by (simp add: commit_def)
  have eq: "s\<lparr>lg_lh := []\<rparr> = s" using True by (cases s) simp
  have "same_rest (s\<lparr>lg_lh := []\<rparr>) s" unfolding eq by simp
  then show ?thesis
    using True inv log_invD(8) [OF inv] by (simp add: committed_def after_commit_def)
next
  case False
  note I = log_invD [OF inv]
  note W = wroteD [OF commit_spec [OF inv False ok], simplified]
  note R = same_rest_lst [OF W(7), simplified]
  have "disk s' (lg_start s) = hdr_encode [] (hdr_encode (lg_lh s) (content s (lg_start s)))"
    by (simp add: W commit_writes_def)
  then have hd: "hdr_decode (disk s' (lg_start s)) = []" using length_content [OF I(1)] by simp
  have dirty: "dirtyset s' = {}" using W(5) I(8) by (auto simp: commit_writes_def image_Un)
  have "log_inv s'"
    unfolding log_inv_def using W(1,9) R hd dirty I inv by (simp add: log_region_def log_inv_def)
  moreover have "apply_writes (commit_writes (lg_start s) (lg_lh s) (content s)) d b = (if b \<in> set (lg_lh s) then content s b else d b)"
    if "b \<notin> log_region s" for b d
    by (rule commit_writes_home [OF I(10) outside_region(1) [OF inv that]])
  ultimately show ?thesis
    using W R dirty False by (simp add: committed_def after_commit_def)
qed

lemma commit_crash:
  assumes inv: "log_inv s" and ok: "commit s = Ok u s'" and ws: "dwrites s' = dwrites s @ ws"
    and d: "d = apply_writes (take j ws) (disk s)"
  shows "(\<forall>b. b \<notin> log_region s \<longrightarrow> recovered (lg_start s) d b = disk s b) \<or>
         (\<forall>b. b \<notin> log_region s \<longrightarrow> recovered (lg_start s) d b = committed s b)"
proof -
  note I = log_invD [OF inv]
  note reg = outside_region [OF inv]
  have "ws = (if lg_lh s = [] then [] else commit_writes (lg_start s) (lg_lh s) (content s))"
    using commit_post [OF inv ok] ws by (simp add: after_commit_def)
  then consider "lg_lh s = []" "ws = []" | "ws = commit_writes (lg_start s) (lg_lh s) (content s)" by metis
  then show ?thesis
  proof cases
    case 1
    then have "d = disk s" by (simp add: d)
    then have "recovered (lg_start s) d b = disk s b" if "b \<notin> log_region s" for b
      using reg(2) [OF that] I(3) by (subst recovered_other) (auto simp: replay_empty)
    then show ?thesis by blast
  next
    case 2
    have "(\<forall>b. b \<notin> {lg_start s..lg_start s + length (lg_lh s)} \<longrightarrow> recovered (lg_start s) d b = disk s b) \<or>
       (\<forall>b. b \<notin> {lg_start s..lg_start s + length (lg_lh s)} \<longrightarrow> recovered (lg_start s) d b =
          (if b \<in> set (lg_lh s) then content s b else disk s b))"
      by (rule commit_prefix [where d = "disk s", OF I(10) I(6) I(12) length_content [OF I(1)] I(3)])
         (simp_all add: d 2)
    then show ?thesis using reg(1) unfolding committed_def by blast
  qed
qed

lemma first_index_nth_None: "first_index (\<lambda>k. xs ! k = b) (length xs) = None \<longleftrightarrow> b \<notin> set xs"
  by (auto simp: first_index_None in_set_conv_nth)

lemma log_write_Ok:
  "log_write i s = Ok u s' \<longleftrightarrow>
     length (lg_lh s) < LOGSIZE \<and> int (length (lg_lh s)) < lg_size s - 1 \<and> 1 \<le> lg_outstanding s \<and>
     s' = set_dirty i (s\<lparr>lg_lh := (if b_blockno (buf s i) \<in> set (lg_lh s) then lg_lh s
                                else lg_lh s @ [b_blockno (buf s i)])\<rparr>)"
proof (cases "first_index (\<lambda>k. lg_lh s ! k = b_blockno (buf s i)) (length (lg_lh s))")
  case None
  then have "b_blockno (buf s i) \<notin> set (lg_lh s)" by (simp add: first_index_nth_None)
  with None show ?thesis by (auto simp: log_write_def Let_def)
next
  case (Some k)
  then have "k < length (lg_lh s)" "lg_lh s ! k = b_blockno (buf s i)" by (auto simp: first_index_Some)
  then have "(lg_lh s)[k := b_blockno (buf s i)] = lg_lh s" "b_blockno (buf s i) \<in> set (lg_lh s)"
    using list_update_id [of "lg_lh s" k] nth_mem by metis+
  with Some show ?thesis by (auto simp: log_write_def Let_def)
qed

lemma log_write_spec:
  assumes inv: "log_inv s" and h: "holds s i b" and b: "b \<notin> log_region s" and ok: "log_write i s = Ok u s'"
  shows "log_inv s'" "holds s' i b" "content s' = content s" "dirtyset s' = insert b (dirtyset s)"
    "lockset s' = lockset s" "disk s' = disk s" "dwrites s' = dwrites s" "quiet s \<Longrightarrow> quiet s'"
    "lg_lh s' = (if b \<in> set (lg_lh s) then lg_lh s else lg_lh s @ [b])"
    "same_rest (s\<lparr>lg_lh := lg_lh s'\<rparr>) s'"
    "holds s j c \<Longrightarrow> holds s' j c" "1 \<le> lg_outstanding s"
proof -
  note I = log_invD [OF inv]
  note H = holdsD [OF I(1) h]
  define l where "l = (if b \<in> set (lg_lh s) then lg_lh s else lg_lh s @ [b])"
  define t where "t = s\<lparr>lg_lh := l\<rparr>"
  from ok H(3) have s': "s' = set_dirty i t" and n: "length (lg_lh s) < LOGSIZE" "int (length (lg_lh s)) < lg_size s - 1"
    and o: "1 \<le> lg_outstanding s"
    unfolding log_write_Ok t_def l_def by auto
  have t: "bio_inv t" "holds t i b" using I(1) h by (simp_all add: t_def)
  note D = set_dirty_spec [OF t]
  have R: "same_rest t s'" unfolding s' by (rule D)
  note RL = same_rest_lst [OF R]
  show c: "content s' = content s" "dirtyset s' = insert b (dirtyset s)" "lockset s' = lockset s"
    "disk s' = disk s" "dwrites s' = dwrites s" "holds s' i b" "holds s j c \<Longrightarrow> holds s' j c"
    using D by (simp_all add: s' t_def)
  show "quiet s \<Longrightarrow> quiet s'" by (simp add: s' t_def)
  show lh: "lg_lh s' = (if b \<in> set (lg_lh s) then lg_lh s else lg_lh s @ [b])"
    using RL(6) by (simp add: t_def l_def)
  then show "same_rest (s\<lparr>lg_lh := lg_lh s'\<rparr>) s'" using R by (simp add: t_def l_def)
  show "1 \<le> lg_outstanding s" by (rule o)
  have "disksize s' = disksize s" using R by (simp add: same_rest_def t_def)
  moreover have "bio_inv s'" unfolding s' by (rule D)
  ultimately show "log_inv s'"
    unfolding log_inv_def using I n b lh c H(8) RL inv
    by (auto simp: t_def log_region_def log_inv_def)
qed

lemma end_op_Ok:
  assumes "end_op s = Ok u s'"
  obtains "\<not> lg_committing s" "lg_outstanding s \<noteq> 1" "s' = wakeup ChanLog (s\<lparr>lg_outstanding := lg_outstanding s - 1\<rparr>)"
  | t where "\<not> lg_committing s" "lg_outstanding s = 1"
      "commit (s\<lparr>lg_outstanding := 0, lg_committing := True\<rparr>) = Ok () t" "s' = wakeup ChanLog (t\<lparr>lg_committing := False\<rparr>)"
  using assms by (cases "lg_outstanding s = 1") (auto simp: end_op_def Let_def on_eq_Ok split: if_splits)

lemma end_op_total:
  assumes "log_inv s" "quiet s" "lockset s = {}" "lg_size s \<le> int NBUF" "\<not> lg_committing s"
  shows "\<exists>s'. end_op s = Ok () s'"
proof (cases "lg_outstanding s = 1")
  case True
  have "\<exists>t. commit (s\<lparr>lg_outstanding := 0, lg_committing := True\<rparr>) = Ok () t"
    by (rule commit_total) (use assms in simp_all)
  with True assms show ?thesis by (auto simp: end_op_def)
qed (use assms in \<open>simp add: end_op_def Let_def\<close>)

lemma end_op_crash:
  assumes inv: "log_inv s" and ok: "end_op s = Ok u s'" and ws: "dwrites s' = dwrites s @ ws"
    and d: "d = apply_writes (take j ws) (disk s)"
  shows "(\<forall>b. b \<notin> log_region s \<longrightarrow> recovered (lg_start s) d b = disk s b) \<or>
         (\<forall>b. b \<notin> log_region s \<longrightarrow> recovered (lg_start s) d b = committed s b)"
  using ok
proof (cases rule: end_op_Ok)
  case 1
  then have "d = disk s" using ws d by simp
  then have "recovered (lg_start s) d b = disk s b" if "b \<notin> log_region s" for b
    using outside_region(2) [OF inv that] log_invD(3) [OF inv] by (subst recovered_other) (auto simp: replay_empty)
  then show ?thesis by blast
next
  case (2 t)
  have "committed (s\<lparr>lg_outstanding := 0, lg_committing := True\<rparr>) = committed s"
    by (simp add: committed_def fun_eq_iff)
  then show ?thesis
    using commit_crash [OF _ 2(3), of ws d j] inv ws d 2(4) by simp
qed

lemma end_op_post:
  assumes inv: "log_inv s" and ok: "end_op s = Ok u s'"
  shows "log_inv s'" "lg_outstanding s' = lg_outstanding s - 1" "b \<notin> log_region s \<Longrightarrow> content s' b = content s b"
    "lg_outstanding s = 1 \<Longrightarrow> lg_lh s' = [] \<and> (\<forall>b. b \<notin> log_region s \<longrightarrow> disk s' b = committed s b)"
    "lg_outstanding s \<noteq> 1 \<Longrightarrow> lg_lh s' = lg_lh s \<and> disk s' = disk s"
proof -
  have "log_inv s' \<and> lg_outstanding s' = lg_outstanding s - 1 \<and> (\<forall>b. b \<notin> log_region s \<longrightarrow> content s' b = content s b) \<and>
    (lg_outstanding s = 1 \<longrightarrow> lg_lh s' = [] \<and> (\<forall>b. b \<notin> log_region s \<longrightarrow> disk s' b = committed s b)) \<and>
    (lg_outstanding s \<noteq> 1 \<longrightarrow> lg_lh s' = lg_lh s \<and> disk s' = disk s)"
    using ok
  proof (cases rule: end_op_Ok)
    case 1
    with inv show ?thesis by simp
  next
    case (2 t)
    let ?s = "s\<lparr>lg_outstanding := 0, lg_committing := True\<rparr>"
    have c: "after_commit ?s t" by (rule commit_post [OF _ 2(3)]) (use inv in simp)
    have r: "same_rest (?s\<lparr>lg_lh := []\<rparr>) t" using c by (simp add: after_commit_def)
    have "lg_outstanding t = 0" using same_rest_lst(3) [OF r] by simp
    moreover have "committed ?s = committed s" by (simp add: committed_def fun_eq_iff)
    ultimately show ?thesis using 2 c by (simp add: after_commit_def)
  qed
  then show "log_inv s'" "lg_outstanding s' = lg_outstanding s - 1" "b \<notin> log_region s \<Longrightarrow> content s' b = content s b"
    "lg_outstanding s = 1 \<Longrightarrow> lg_lh s' = [] \<and> (\<forall>b. b \<notin> log_region s \<longrightarrow> disk s' b = committed s b)"
    "lg_outstanding s \<noteq> 1 \<Longrightarrow> lg_lh s' = lg_lh s \<and> disk s' = disk s"
    by blast+
qed

section \<open>Recovery\<close>

lemma hdr_encode_Nil_idem [simp]: "length d = BSIZE \<Longrightarrow> hdr_encode [] (hdr_encode [] d) = hdr_encode [] d"
  by (simp add: hdr_encode_def put32_def list_update_swap)

text \<open>The writes of a recovery.\<close>

definition recovery_writes :: "nat \<Rightarrow> (nat \<Rightarrow> byte list) \<Rightarrow> (nat \<times> byte list) list" where
  "recovery_writes start d =
     (let bs = hdr_decode (d start)
      in map (\<lambda>k. (bs ! k, d (start + k + 1))) [0..<length bs] @ [(start, hdr_encode [] (d start))])"

lemma recover_spec:
  assumes inv: "bio_inv s" and dev: "lg_dev s = 1" and clean: "dirtyset s = {}" and nl: "lockset s = {}"
    and hd: "hdr_ok (lg_start s) (hdr_decode (disk s (lg_start s)))"
    and ok: "recover_from_log s = Ok u s'"
  shows "bio_inv s'" "lg_lh s' = []" "dirtyset s' = {}" "lockset s' = {}" "disk s' = apply_writes (recovery_writes (lg_start s) (disk s)) (disk s)"
    "dwrites s' = dwrites s @ recovery_writes (lg_start s) (disk s)" "quiet s \<Longrightarrow> quiet s'"
    "lg_start s' = lg_start s" "lg_size s' = lg_size s" "lg_dev s' = 1" "lg_outstanding s' = lg_outstanding s"
    "disksize s' = disksize s"
proof -
  let ?st = "lg_start s" and ?bs = "hdr_decode (disk s (lg_start s))"
  have cd: "content s b = disk s b" for b using content_clean [OF inv] clean nl by simp
  from ok obtain v1 s1 v2 s2 where 1: "read_head s = Ok v1 s1" and 2: "install_trans s1 = Ok v2 s2"
    and 3: "write_head (s2\<lparr>lg_lh := []\<rparr>) = Ok u s'"
    by (auto simp: recover_from_log_def on_eq_Ok)
  note H = read_head_spec [OF inv dev 1]
  have lh: "lg_lh s1 = ?bs" using H(9) cd by simp
  have "wrote (map (\<lambda>k. (?bs ! k, disk s (?st + k + 1))) [0..<length ?bs]) s1 s2"
    using install_trans_spec [OF H(1,11) _ 2] hd by (simp add: lh H cd)
  note W2 = wroteD [OF this]
  note R2 = same_rest_lst [OF W2(7)]
  have "?st \<notin> fst ` set (map (\<lambda>k. (?bs ! k, disk s (?st + k + 1))) [0..<length ?bs])"
    using hdr_okD(2) [OF hd] by (simp add: image_image nth_image_upt)
  then have c2: "content s2 ?st = disk s ?st" using cd by (simp add: W2 H apply_writes_other)
  have "wrote [(?st, hdr_encode [] (disk s ?st))] (s2\<lparr>lg_lh := []\<rparr>) s'"
    using write_head_spec(1) [OF _ _ 3] W2(1) by (simp add: R2 H c2)
  note W3 = wroteD [OF this]
  note R3 = same_rest_lst [OF W3(7)]
  show "bio_inv s'" "lg_lh s' = []" "dirtyset s' = {}" "lockset s' = {}" "disk s' = apply_writes (recovery_writes (lg_start s) (disk s)) (disk s)"
    "dwrites s' = dwrites s @ recovery_writes (lg_start s) (disk s)" "quiet s \<Longrightarrow> quiet s'"
    "lg_start s' = lg_start s" "lg_size s' = lg_size s" "lg_dev s' = 1" "lg_outstanding s' = lg_outstanding s"
    "disksize s' = disksize s"
    using W3 W2 R3 R2 H clean nl by (simp_all add: recovery_writes_def Let_def)
qed

lemma recovery_writes_disk:
  assumes hd: "hdr_ok start (hdr_decode (d start))"
  shows "apply_writes (recovery_writes start d) d = recovered start d"
proof
  fix b
  let ?bs = "hdr_decode (d start)" and ?ws = "map (\<lambda>k. (hdr_decode (d start) ! k, d (start + k + 1))) [0..<length (hdr_decode (d start))]"
  have fst: "fst ` set ?ws = set ?bs" by (simp add: image_image nth_image_upt)
  have "apply_writes ?ws d b = replay start d b"
  proof (cases "b \<in> set ?bs")
    case True
    then obtain k where k: "k < length ?bs" "b = ?bs ! k" by (auto simp: in_set_conv_nth)
    then have "(b, d (start + k + 1)) \<in> set ?ws" by auto
    moreover have "distinct (map fst ?ws)" using hdr_okD(1) [OF hd] by (simp add: comp_def map_nth)
    ultimately have "apply_writes ?ws d b = d (start + k + 1)" by (intro apply_writes_distinct)
    then show ?thesis using replay_value [where d = d, OF hd refl k(1)] k(2) by simp
  next
    case False
    then show ?thesis using fst by (subst apply_writes_other) (auto simp: replay_other)
  qed
  moreover have "replay start d start = d start" using hdr_okD(2) [OF hd] by (simp add: replay_other)
  ultimately show "apply_writes (recovery_writes start d) d b = recovered start d b"
    by (simp add: recovery_writes_def recovered_def Let_def)
qed

text \<open>A crash during recovery is harmless: recovering again gives the same device.\<close>

lemma recovery_restart:
  assumes hd: "hdr_ok start (hdr_decode (d start))" and len: "\<And>b. length (d b) = BSIZE"
  shows "recovered start (apply_writes (take j (recovery_writes start d)) d) = recovered start d"
proof (cases "j \<le> length (hdr_decode (d start))")
  case True
  let ?bs = "hdr_decode (d start)" and ?ws = "map (\<lambda>k. (hdr_decode (d start) ! k, d (start + k + 1))) [0..<length (hdr_decode (d start))]"
  define e where "e = apply_writes (take j ?ws) d"
  have "fst ` set (take j ?ws) \<subseteq> fst ` set ?ws" by (intro image_mono set_take_subset)
  also have "\<dots> = set ?bs" by (simp add: image_image nth_image_upt)
  finally have off: "e b = d b" if "b \<notin> set ?bs" for b
    unfolding e_def using that by (intro apply_writes_other) blast
  have "replay start e = replay start d"
    by (rule ext, rule replay_agree [OF hd]) (use off hdr_okD [OF hd] in auto)
  moreover have "apply_writes (take j (recovery_writes start d)) d = e"
    using True by (simp add: e_def recovery_writes_def Let_def)
  ultimately show ?thesis by (simp add: recovered_def Let_def)
next
  case False
  then have "apply_writes (take j (recovery_writes start d)) d = recovered start d"
    using recovery_writes_disk [of start d] hd by (simp add: recovery_writes_def Let_def)
  moreover have s: "recovered start d start = hdr_encode [] (d start)"
    using hdr_okD(2) [OF hd] by (simp add: recovered_def Let_def replay_other)
  then have "replay start (recovered start d) = recovered start d"
    using len by (intro replay_empty) simp
  then have "recovered start (recovered start d) = recovered start d"
    using s len by (simp add: recovered_def [of start "recovered start d"] Let_def fun_eq_iff)
  ultimately show ?thesis by simp
qed

text \<open>Mounting: \<^verbatim>\<open>initlog\<close> on a clean cache recovers the device and establishes the invariant.\<close>

definition sane_log :: "(nat \<Rightarrow> byte list) \<Rightarrow> nat \<Rightarrow> bool" where
  "sane_log d n \<longleftrightarrow>
     (let sb = sb_decode (d 1); start = unat (sb_logstart sb); bs = hdr_decode (d start)
      in hdr_ok start bs \<and> 1 \<le> sint (sb_nlog sb) \<and> start + nat (sint (sb_nlog sb)) \<le> n \<and> n \<le> 2 ^ 32)"

lemma initlog_Ok:
  assumes "initlog 1 s = Ok u s'"
  obtains sb t where "readsb 1 s = Ok sb t"
    "recover_from_log (t\<lparr>lg_start := unat (sb_logstart sb), lg_size := sint (sb_nlog sb), lg_dev := 1\<rparr>) = Ok u s'"
  using assms by (auto simp: initlog_def on_eq_Ok)

lemma initlog_spec:
  assumes inv: "bio_inv s" and clean: "dirtyset s = {}" and nl: "lockset s = {}"
    and sane: "sane_log (disk s) (disksize s)" and ok: "initlog 1 s = Ok u s'"
  defines "start \<equiv> unat (sb_logstart (sb_decode (disk s 1)))"
  shows "log_inv s'" "lg_lh s' = []" "lg_start s' = start" "disk s' = recovered start (disk s)"
    "dwrites s' = dwrites s @ recovery_writes start (disk s)"
proof -
  obtain sb t where r: "readsb 1 s = Ok sb t"
    and ok: "recover_from_log (t\<lparr>lg_start := unat (sb_logstart sb), lg_size := sint (sb_nlog sb), lg_dev := 1\<rparr>) = Ok u s'"
    by (rule initlog_Ok [OF ok])
  note B = readsb_spec [OF inv r]
  have sb: "sb = sb_decode (disk s 1)" using B(1) content_clean [OF inv] clean nl by simp
  have [simp]: "disksize t = disksize s" using B(8) by (simp add: same_rest_def)
  define v where "v = t\<lparr>lg_start := unat (sb_logstart sb), lg_size := sint (sb_nlog sb), lg_dev := 1\<rparr>"
  have V: "bio_inv v" "lg_dev v = 1" "dirtyset v = {}" "lockset v = {}" "lg_start v = start" "disk v = disk s"
      "dwrites v = dwrites s" "disksize v = disksize s" "lg_size v = sint (sb_nlog sb)"
    using B(2-7) clean nl by (simp_all add: v_def start_def sb)
  have hd: "hdr_ok (lg_start v) (hdr_decode (disk v (lg_start v)))"
    using sane by (simp add: V sane_log_def Let_def start_def)
  note R = recover_spec [OF V(1-4) hd ok [folded v_def]]
  show "lg_lh s' = []" "lg_start s' = start" by (simp_all add: R V)
  show d: "disk s' = recovered start (disk s)"
    using recovery_writes_disk [of start "disk s"] hd by (simp add: R V)
  show "dwrites s' = dwrites s @ recovery_writes start (disk s)" by (simp add: R V)
  have "recovered start (disk s) start = hdr_encode [] (replay start (disk s) start)"
    by (simp add: recovered_def Let_def)
  moreover have "replay start (disk s) start = disk s start"
    using hd hdr_okD(2) by (simp add: V replay_other)
  ultimately have "hdr_decode (disk s' start) = []"
    using d bio_invD(5) [OF inv] by simp
  then show "log_inv s'"
    using R(1-4,8-12) V sane sb by (simp add: log_inv_def log_region_def sane_log_def Let_def start_def)
qed

lemma read_head_total:
  assumes inv: "bio_inv s" and dev: "lg_dev s = 1" and q: "quiet s" and l: "lockset s = {}" and d: "dirtyset s = {}"
    and sz: "lg_start s < disksize s" and c: "hdr_count (disk s (lg_start s)) \<le> int LOGSIZE"
  shows "\<exists>s'. read_head s = Ok () s'"
proof -
  obtain i s1 where i: "bread 1 (lg_start s) s = Ok i s1"
    using bread_total [OF inv q sz] l d by auto
  note A = bread_spec [OF inv i]
  have dt: "b_data (buf s1 i) = disk s (lg_start s)" using A(3) content_clean [OF inv] l d by simp
  define v where "v = s1\<lparr>lg_lh := hdr_decode (disk s (lg_start s))\<rparr>"
  have V: "bio_inv v" "holds v i (lg_start s)" and "content v (lg_start s) = disk v (lg_start s)"
    using A content_clean [OF inv] l d by (simp_all add: v_def)
  then obtain z where "brelse i v = Ok () z" using brelse_spec [OF V] by metis
  with i dt dev c show ?thesis by (simp add: read_head_def Let_def v_def)
qed

lemma recover_total:
  assumes inv: "bio_inv s" and dev: "lg_dev s = 1" and q: "quiet s" and l: "lockset s = {}" and d: "dirtyset s = {}"
    and hd: "hdr_ok (lg_start s) (hdr_decode (disk s (lg_start s)))" and c: "hdr_count (disk s (lg_start s)) < int NBUF"
    and bs: "set (hdr_decode (disk s (lg_start s))) \<subseteq> {..<disksize s}"
    and sz: "lg_start s + length (hdr_decode (disk s (lg_start s))) < disksize s"
  shows "\<exists>s'. recover_from_log s = Ok () s'"
proof -
  have cd: "content s = disk s" using content_clean [OF inv] l d by auto
  obtain s1 where 1: "read_head s = Ok () s1" using read_head_total [OF inv dev q l d] sz c by auto
  note H = read_head_spec [OF inv dev 1]
  have "length (hdr_decode (disk s (lg_start s))) < NBUF" using c by (simp add: hdr_decode_def)
  then have "roomy (lg_start s) (hdr_decode (disk s (lg_start s))) s1"
    using H hd bs sz q l d by (simp add: roomy_def at_log_def cd)
  from roomy_loops(2) [OF this] obtain s2 where 2: "install_trans s1 = Ok () s2"
    and "roomy (lg_start s) (hdr_decode (disk s (lg_start s))) s2" by blast
  from roomy_write_head(2) [OF this(2)] 1 2 show ?thesis by (auto simp: recover_from_log_def)
qed

lemma initlog_total:
  assumes inv: "bio_inv s" and q: "quiet s" and l: "lockset s = {}" and d: "dirtyset s = {}"
    and sane: "sane_log (disk s) (disksize s)"
    and st: "start = unat (sb_logstart (sb_decode (disk s 1)))" and c: "hdr_count (disk s start) < int NBUF"
    and bs: "set (hdr_decode (disk s start)) \<subseteq> {..<disksize s}"
    and sz: "start + length (hdr_decode (disk s start)) < disksize s" "1 < disksize s"
  shows "\<exists>s'. initlog 1 s = Ok () s'"
proof -
  have cd: "content s = disk s" using content_clean [OF inv] l d by auto
  obtain i s1 where i: "bread 1 1 s = Ok i s1" using bread_total [OF inv q sz(2)] l d by auto
  obtain t where t: "brelse i s1 = Ok () t" and T: "bio_inv t" "content t = content s" "dirtyset t = dirtyset s"
    "lockset t = lockset s" "disk t = disk s" "dwrites t = dwrites s" "same_rest s t"
    "b_data (buf s1 i) = content s 1" "quiet s \<Longrightarrow> quiet t"
    using bread_brelse_spec [OF inv i] by metis
  have [simp]: "disksize t = disksize s" using T(7) by (simp add: same_rest_def)
  have r: "readsb 1 s = Ok (sb_decode (disk s 1)) t" using i t T(8) cd by (simp add: readsb_def Let_def)
  let ?v = "t\<lparr>lg_start := unat (sb_logstart (sb_decode (disk s 1))), lg_size := sint (sb_nlog (sb_decode (disk s 1))), lg_dev := 1\<rparr>"
  have "\<exists>s'. recover_from_log ?v = Ok () s'"
    by (rule recover_total) (use T q l d c bs sz sane st in \<open>simp_all add: sane_log_def Let_def\<close>)
  with r show ?thesis by (auto simp: initlog_def)
qed

section \<open>Concurrent operations and the reservation of log space\<close>

text \<open>
  A run of several file system calls on one kernel: each is opened by \<^verbatim>\<open>begin_op\<close>, reads, changes, logs and
  releases buffers, and is closed by \<^verbatim>\<open>end_op\<close>; another process may run between any two of these steps. \<open>left p\<close> is how many
  further blocks the call of process \<open>p\<close> may add to the transaction; it starts at \<^verbatim>\<open>MAXOPBLOCKS\<close>. Processes outside of a call may read
  as well. A process that finds a buffer locked counts itself in and sleeps (\<open>t_wait\<close>), and takes the lock when it runs again
  (\<open>t_wake\<close>). Whoever changes a buffer logs it before releasing it. The commit inside of the last \<^verbatim>\<open>end_op\<close> is one step.
\<close>

type_synonym 'a txn = "'a lst_scheme \<times> (nat \<rightharpoonup> nat)"

inductive txn_step :: "'a txn \<Rightarrow> 'a txn \<Rightarrow> bool" where
  t_switch: "proc_ok (s\<lparr>cur := c, ptable := pt\<rparr>) \<Longrightarrow> txn_step (s, left) (s\<lparr>cur := c, ptable := pt\<rparr>, left)"
| t_begin: "left (cur s) = None \<Longrightarrow> begin_op s = Ok () s' \<Longrightarrow> txn_step (s, left) (s', left(cur s \<mapsto> MAXOPBLOCKS))"
| t_bread: "bread 1 b s = Ok i s' \<Longrightarrow> txn_step (s, left) (s', left)"
| t_wait: "bread 1 b s = Sleep ch s' \<Longrightarrow> proc_ok (s'\<lparr>cur := c, ptable := pt\<rparr>) \<Longrightarrow> txn_step (s, left) (s'\<lparr>cur := c, ptable := pt\<rparr>, left)"
| t_wake: "i < NBUF \<Longrightarrow> b_dev (buf s i) = 1 \<Longrightarrow> 0 < b_refcnt (buf s i) \<Longrightarrow> lock_buf i s = Ok i s' \<Longrightarrow> txn_step (s, left) (s', left)"
| t_change: "left (cur s) = Some n \<Longrightarrow> holds s i b \<Longrightarrow> length (f (content s b)) = BSIZE \<Longrightarrow> txn_step (s, left) (upd_data i f s, left)"
| t_absorb: "left (cur s) = Some n \<Longrightarrow> holds s i b \<Longrightarrow> b \<notin> log_region s \<Longrightarrow> b \<in> set (lg_lh s) \<Longrightarrow>
    log_write i s = Ok () s' \<Longrightarrow> txn_step (s, left) (s', left)"
| t_append: "left (cur s) = Some (Suc n) \<Longrightarrow> holds s i b \<Longrightarrow> b \<notin> log_region s \<Longrightarrow> b \<notin> set (lg_lh s) \<Longrightarrow>
    log_write i s = Ok () s' \<Longrightarrow> txn_step (s, left) (s', left(cur s \<mapsto> n))"
| t_brelse: "holds s i b \<Longrightarrow> b \<in> dirtyset s \<or> content s b = disk s b \<Longrightarrow> brelse i s = Ok () s' \<Longrightarrow> txn_step (s, left) (s', left)"
| t_end: "left (cur s) = Some n \<Longrightarrow> end_op s = Ok () s' \<Longrightarrow> txn_step (s, left) (s', left(cur s := None))"

definition reserved :: "(nat \<rightharpoonup> nat) \<Rightarrow> nat" where
  "reserved left = (\<Sum>p \<in> dom left. the (left p))"

text \<open>Every call that is running is counted, each has at most \<^verbatim>\<open>MAXOPBLOCKS\<close> left, and what is
  logged and what may still be logged fits into the log.\<close>

definition txn_inv :: "'a txn \<Rightarrow> bool" where
  "txn_inv t \<longleftrightarrow> (case t of (s, left) \<Rightarrow>
     log_inv s \<and> finite (dom left) \<and> lg_outstanding s = int (card (dom left)) \<and> \<not> lg_committing s \<and>
     (\<forall>p n. left p = Some n \<longrightarrow> n \<le> MAXOPBLOCKS) \<and>
     length (lg_lh s) + reserved left \<le> LOGSIZE)"

inductive_cases txn_stepE: "txn_step t t'"

text \<open>The invariant of the log does not depend on who runs, and reading, waiting, changing and releasing buffers keep it.\<close>

lemma log_inv_same_rest:
  assumes "log_inv s" "bio_inv s'" "same_rest s s'" "dirtyset s' = dirtyset s" "disk s' = disk s"
  shows "log_inv s'"
proof -
  have "disksize s' = disksize s" using assms(3) by (simp add: same_rest_def)
  then show ?thesis using assms same_rest_lst [OF assms(3)] by (simp add: log_inv_def log_region_def)
qed

lemma log_inv_switch:
  assumes "log_inv s" "proc_ok (s\<lparr>cur := c, ptable := pt\<rparr>)"
  shows "log_inv (s\<lparr>cur := c, ptable := pt\<rparr>)"
  using assms by (simp add: log_inv_def bio_inv_def dirtyset_def log_region_def)

lemma log_inv_in_place:
  assumes inv: "log_inv s" and i: "i < NBUF" "b_dev (buf s i) = 1" and ok: "buf_ok (disk s) (disksize s) (f (buf s i))"
    and f: "b_dev (f (buf s i)) = 1" "b_blockno (f (buf s i)) = b_blockno (buf s i)" "b_dirty (f (buf s i)) = b_dirty (buf s i)"
  shows "log_inv (upd_buf i f s)"
proof (rule log_inv_same_rest [OF inv])
  note I = log_invD(1) [OF inv]
  show "bio_inv (upd_buf i f s)" using f i(2) by (intro bio_inv_in_place [where f = f, OF I i(1) ok]) simp_all
  show "dirtyset (upd_buf i f s) = dirtyset s" using i f bio_invD(2) [OF I] by (auto simp: dirtyset_def nth_upd_buf)
qed simp_all

text \<open>A process that has to wait for a buffer leaves nothing behind but its reference.\<close>

lemma bread_Sleep:
  assumes "log_inv s" "bread 1 b s = Sleep ch s'"
  shows "\<exists>t. log_inv t \<and> same_rest s t \<and> s'\<lparr>cur := c, ptable := pt\<rparr> = t\<lparr>cur := c, ptable := pt\<rparr>"
proof -
  note I = log_invD(1) [OF assms(1)]
  have "find (\<lambda>i. b_dev (buf s i) = 1 \<and> b_blockno (buf s i) = b) (lru s) \<noteq> None"
  proof
    assume n: "find (\<lambda>i. b_dev (buf s i) = 1 \<and> b_blockno (buf s i) = b) (lru s) = None"
    have "i < NBUF \<and> \<not> sl_locked (b_lock (buf s i))" if "find (\<lambda>i. b_refcnt (buf s i) = 0 \<and> \<not> b_dirty (buf s i)) (rev (lru s)) = Some i" for i
    proof -
      have "i < NBUF" "b_refcnt (buf s i) = 0" using find_SomeD [OF that] bio_invD(4) [OF I] by auto
      then show ?thesis using bio_invD(6) [OF I, of i] by (simp add: buf_ok_def)
    qed
    then show False using assms(2) n bio_invD(2) [OF I]
      by (auto simp: bread_def bget_def lock_buf_def acquiresleep_def iderw_def Let_def nth_upd_buf split: option.splits if_splits)
  qed
  then obtain i where i: "find (\<lambda>i. b_dev (buf s i) = 1 \<and> b_blockno (buf s i) = b) (lru s) = Some i" by auto
  then have ib: "i < NBUF" "b_dev (buf s i) = 1" using find_SomeD [OF i] bio_invD(4) [OF I] by auto
  let ?t = "upd_buf i (\<lambda>b. b\<lparr>b_refcnt := b_refcnt b + 1\<rparr>) s"
  have "log_inv ?t" using bio_invD(6) [OF I ib(1)] ib by (intro log_inv_in_place [OF assms(1) ib]) (auto simp: buf_ok_def)
  moreover have "s'\<lparr>cur := c, ptable := pt\<rparr> = ?t\<lparr>cur := c, ptable := pt\<rparr>"
    using assms(2) i bio_invD(2) [OF I] ib bio_invD(6) [OF I ib(1)]
    by (auto simp: bread_def bget_def lock_buf_def acquiresleep_def sleep_def upd_proc_def upd_buf_def buf_ok_def split: if_splits)
  ultimately show ?thesis by auto
qed

lemma reserved_upd:
  assumes "finite (dom left)"
  shows "left p = None \<Longrightarrow> reserved (left(p \<mapsto> n)) = reserved left + n"
    "left p = Some m \<Longrightarrow> reserved (left(p \<mapsto> n)) + m = reserved left + n"
    "left p = Some m \<Longrightarrow> reserved (left(p := None)) + m = reserved left"
proof -
  let ?D = "dom left - {p}"
  have same: "(\<Sum>q\<in>?D. the ((left(p := x)) q)) = (\<Sum>q\<in>?D. the (left q))" for x by (rule sum.cong) auto
  have split: "reserved left = m + (\<Sum>q\<in>?D. the (left q))" if "left p = Some m" for m
    using sum.remove [OF assms, of p "\<lambda>q. the (left q)"] that by (auto simp: reserved_def)
  have ins: "reserved (left(p \<mapsto> n)) = n + (\<Sum>q\<in>?D. the (left q))"
    using sum.insert_remove [OF assms, of "\<lambda>q. the ((left(p \<mapsto> n)) q)" p] same [of "Some n"]
    by (simp add: reserved_def)
  show "left p = None \<Longrightarrow> reserved (left(p \<mapsto> n)) = reserved left + n"
    using ins by (simp add: reserved_def domIff)
  show "left p = Some m \<Longrightarrow> reserved (left(p \<mapsto> n)) + m = reserved left + n" using split ins by simp
  show "left p = Some m \<Longrightarrow> reserved (left(p := None)) + m = reserved left"
    using split same [of None] by (simp add: reserved_def)
qed

lemma reserved_le:
  assumes "finite (dom left)" "\<forall>p n. left p = Some n \<longrightarrow> n \<le> MAXOPBLOCKS"
  shows "reserved left \<le> card (dom left) * MAXOPBLOCKS"
proof -
  have "reserved left \<le> of_nat (card (dom left)) * MAXOPBLOCKS"
    unfolding reserved_def using assms(2) by (intro sum_bounded_above) (auto simp: dom_def)
  then show ?thesis by simp
qed

lemma begin_op_Ok:
  "begin_op s = Ok u s' \<longleftrightarrow> \<not> lg_committing s \<and>
     int (length (lg_lh s)) + (lg_outstanding s + 1) * int MAXOPBLOCKS \<le> int LOGSIZE \<and>
     s' = s\<lparr>lg_outstanding := lg_outstanding s + 1\<rparr>"
  by (auto simp: begin_op_def sleep_def)

lemma end_op_committing: "end_op s = Ok u s' \<Longrightarrow> log_inv s \<Longrightarrow> \<not> lg_committing s'"
proof (erule end_op_Ok)
qed simp_all

lemma txn_inv_cong:
  assumes "txn_inv (s, left)" "log_inv s'" "lg_outstanding s' = lg_outstanding s" "lg_committing s' = lg_committing s" "lg_lh s' = lg_lh s"
  shows "txn_inv (s', left)"
  using assms by (simp add: txn_inv_def)

lemma txn_step_inv:
  assumes "txn_step t t'" "txn_inv t"
  shows "txn_inv t'"
  using assms(1)
proof cases
  case (t_switch pt c s left)
  then have "txn_inv (s, left)" using assms(2) by simp
  then show ?thesis unfolding t_switch by (rule txn_inv_cong) (use t_switch assms(2) log_inv_switch in \<open>auto simp: txn_inv_def\<close>)
next
  case (t_begin left s s')
  with assms(2) have I: "log_inv s" "finite (dom left)" "lg_outstanding s = int (card (dom left))"
      "\<forall>p n. left p = Some n \<longrightarrow> n \<le> MAXOPBLOCKS"
    by (auto simp: txn_inv_def)
  have p: "cur s \<notin> dom left" using t_begin by auto
  have "length (lg_lh s) + card (dom left) * MAXOPBLOCKS + MAXOPBLOCKS \<le> LOGSIZE"
    using t_begin(4) I(3) by (simp add: begin_op_Ok)
  then have "length (lg_lh s) + reserved (left(cur s \<mapsto> MAXOPBLOCKS)) \<le> LOGSIZE"
    using reserved_le [OF I(2,4)] reserved_upd(1) [OF I(2) t_begin(3)] by simp
  then show ?thesis
    using t_begin I p by (auto simp: txn_inv_def begin_op_Ok card_insert_if)
next
  case (t_bread b s i s' left)
  have T: "txn_inv (s, left)" and inv: "log_inv s" using assms(2) t_bread(1) by (simp_all add: txn_inv_def)
  note B = bread_spec [OF log_invD(1) [OF inv] t_bread(3)]
  show ?thesis unfolding t_bread by (rule txn_inv_cong [OF T log_inv_same_rest [OF inv]]) (use B same_rest_lst [OF B(11)] in simp_all)
next
  case (t_wait b s ch s' pt c left)
  have T: "txn_inv (s, left)" and inv: "log_inv s" using assms(2) t_wait(1) by (simp_all add: txn_inv_def)
  obtain u where u: "log_inv u" "same_rest s u" "s'\<lparr>cur := c, ptable := pt\<rparr> = u\<lparr>cur := c, ptable := pt\<rparr>"
    using bread_Sleep [OF inv t_wait(3)] by blast
  show ?thesis unfolding t_wait(2) u(3)
    by (rule txn_inv_cong [OF T log_inv_switch [OF u(1)]]) (use same_rest_lst [OF u(2)] t_wait(4) u(3) in simp_all)
next
  case (t_wake i s s' left)
  have T: "txn_inv (s, left)" and inv: "log_inv s" using assms(2) t_wake(1) by (simp_all add: txn_inv_def)
  let ?f = "\<lambda>b. b\<lparr>b_lock := \<lparr>sl_locked = True, sl_pid = mypid s\<rparr>\<rparr>"
  have s': "s' = upd_buf i ?f s" using t_wake(6) by (simp add: lock_buf_Ok)
  have "log_inv s'" unfolding s' using bio_invD(6) [OF log_invD(1) [OF inv] t_wake(3)] t_wake(4,5)
    by (intro log_inv_in_place [OF inv t_wake(3,4)]) (auto simp: buf_ok_def)
  then show ?thesis unfolding t_wake(2) by (rule txn_inv_cong [OF T]) (use same_rest_lst [OF same_rest_upd_buf [of s i ?f]] in \<open>simp_all add: s'\<close>)
next
  case (t_change left s n i b f)
  have T: "txn_inv (s, left)" and inv: "log_inv s" using assms(2) t_change(1) by (simp_all add: txn_inv_def)
  note U = upd_data_spec [where f = f, OF log_invD(1) [OF inv] t_change(4,5)]
  show ?thesis unfolding t_change by (rule txn_inv_cong [OF T log_inv_same_rest [OF inv]]) (use U same_rest_lst [OF U(8)] in simp_all)
next
  case (t_absorb left s n i b s')
  with assms(2) have inv: "log_inv s" by (simp add: txn_inv_def)
  note L = log_write_spec [OF inv t_absorb(4,5,7)]
  show ?thesis using assms(2) t_absorb L(1,9) same_rest_lst [OF L(10)] by (simp add: txn_inv_def)
next
  case (t_append left s n i b s')
  with assms(2) have inv: "log_inv s" and f: "finite (dom left)" by (simp_all add: txn_inv_def)
  note L = log_write_spec [OF inv t_append(4,5,7)]
  have "reserved (left(cur s \<mapsto> n)) + Suc n = reserved left + n" by (rule reserved_upd(2) [OF f t_append(3)])
  moreover have "insert (cur s) (dom left) = dom left" using t_append(3) by auto
  moreover have "\<forall>p n. left p = Some n \<longrightarrow> n \<le> MAXOPBLOCKS" using assms(2) t_append(1) by (simp add: txn_inv_def)
  then have "Suc n \<le> MAXOPBLOCKS" using t_append(3) by blast
  ultimately show ?thesis
    using assms(2) t_append L(1,9) same_rest_lst [OF L(10)] by (auto simp: txn_inv_def)
next
  case (t_brelse s i b s' left)
  have T: "txn_inv (s, left)" and inv: "log_inv s" using assms(2) t_brelse(1) by (simp_all add: txn_inv_def)
  obtain u where "brelse i s = Ok () u" and R: "bio_inv u" "dirtyset u = dirtyset s" "disk u = disk s" "same_rest s u"
    by (rule brelse_spec [OF log_invD(1) [OF inv] t_brelse(3,4)])
  then have [simp]: "s' = u" using t_brelse(5) by simp
  show ?thesis unfolding t_brelse by (rule txn_inv_cong [OF T log_inv_same_rest [OF inv]]) (use R same_rest_lst [OF R(4)] in simp_all)
next
  case (t_end left s n s')
  with assms(2) have I: "log_inv s" "finite (dom left)" "lg_outstanding s = int (card (dom left))" by (simp_all add: txn_inv_def)
  note E = end_op_post [OF I(1) t_end(4)]
  have "reserved (left(cur s := None)) + n = reserved left" by (rule reserved_upd(3) [OF I(2) t_end(3)])
  moreover have "length (lg_lh s') \<le> length (lg_lh s)" using E(4,5) by (cases "lg_outstanding s = 1") auto
  moreover have "cur s \<in> dom left" using t_end(3) by auto
  then have "int (card (dom left - {cur s})) = int (card (dom left)) - 1"
    using I(2) by (simp add: card_Diff_singleton) (metis One_nat_def Suc_leI card_gt_0_iff empty_iff int_ops(2) of_nat_diff)
  ultimately show ?thesis
    using assms(2) t_end E(1,2) end_op_committing [OF t_end(4) I(1)] by (auto simp: txn_inv_def)
qed

lemma txn_reachable: "txn_step\<^sup>*\<^sup>* t t' \<Longrightarrow> txn_inv t \<Longrightarrow> txn_inv t'"
  by (induction rule: rtranclp_induct) (auto intro: txn_step_inv)

end
