(* ===== verification/Examples.thy ===== *)
theory Examples
  imports Log
begin

text \<open>
  Concrete kernel states on which the theorems of the development are applied: a kernel in
  the middle of a transaction and a machine that boots after a crash.
\<close>

section \<open>A running kernel with an open transaction\<close>

definition ex_tf :: trapframe where
  "ex_tf = \<lparr>tf_edi = 0, tf_esi = 0, tf_ebp = 0, tf_oesp = 0, tf_ebx = 0, tf_edx = 0, tf_ecx = 0, tf_eax = 0,
     tf_gs = 0, tf_fs = 0, tf_es = 0, tf_ds = 0, tf_trapno = 0, tf_err = 0, tf_eip = 0, tf_cs = 0,
     tf_eflags = 0, tf_esp = 0, tf_ss = 0\<rparr>"

definition ex_proc :: "int \<Rightarrow> procstate \<Rightarrow> proc" where
  "ex_proc pid st = \<lparr>p_sz = 0, p_pgdir = 0, p_kstack = 0, p_state = st, p_pid = pid, p_parent = None,
     p_tf = ex_tf, p_context = \<lparr>cx_edi = 0, cx_esi = 0, cx_ebx = 0, cx_ebp = 0, cx_eip = 0\<rparr>,
     p_chan = None, p_killed = False, p_ofile = replicate NOFILE None, p_cwd = None, p_name = []\<rparr>"

definition ex_buf :: buf where
  "ex_buf = \<lparr>b_valid = False, b_dirty = False, b_dev = 0, b_blockno = 0, b_lock = initsleeplock,
     b_refcnt = 0, b_data = replicate BSIZE 0\<rparr>"

text \<open>Block 100 has been changed in buffer 0 and logged; nothing has reached the device yet.\<close>

definition ex_dirty :: buf where
  "ex_dirty = \<lparr>b_valid = True, b_dirty = True, b_dev = 1, b_blockno = 100, b_lock = initsleeplock,
     b_refcnt = 0, b_data = replicate BSIZE 7\<rparr>"

definition ex_log :: lst where
  "ex_log = \<lparr>ptable = (replicate NPROC (ex_proc 0 UNUSED))[0 := ex_proc 1 RUNNING], cur = 0, initproc = 0, nextpid = 2,
     bufs = (replicate NBUF ex_buf)[0 := ex_dirty], lru = [0..<NBUF], disk = (\<lambda>_. replicate BSIZE 0),
     disksize = FSSIZE, dwrites = [], lg_start = 2, lg_size = 30, lg_outstanding = 1, lg_committing = False,
     lg_dev = 1, lg_lh = [100]\<rparr>"

lemma ex_log_bufs: "j < NBUF \<Longrightarrow> buf ex_log j = (if j = 0 then ex_dirty else ex_buf)"
  by (simp add: ex_log_def nth_list_update)

lemma ex_log_fields [simp]:
  "length (bufs ex_log) = NBUF" "lru ex_log = [0..<NBUF]" "disk ex_log = (\<lambda>_. replicate BSIZE 0)" "disksize ex_log = FSSIZE"
  "lg_start ex_log = 2" "lg_size ex_log = 30" "lg_outstanding ex_log = 1" "\<not> lg_committing ex_log"
  "lg_dev ex_log = 1" "lg_lh ex_log = [100]" "proc_ok ex_log" "dwrites ex_log = []"
  by (simp_all add: ex_log_def proc_ok_def myproc_def ex_proc_def)

lemma ex_bufs:
  "buf_ok d n ex_dirty = (100 < n)" "buf_ok d n ex_buf" "b_dev ex_dirty = 1" "b_dev ex_buf = 0"
  "b_blockno ex_dirty = 100" "b_dirty ex_dirty" "\<not> b_dirty ex_buf" "\<not> sl_locked (b_lock ex_dirty)"
  "\<not> sl_locked (b_lock ex_buf)" "b_refcnt ex_dirty = 0" "b_refcnt ex_buf = 0" "b_data ex_dirty = replicate BSIZE 7"
  by (simp_all add: ex_dirty_def ex_buf_def buf_ok_def initsleeplock_def)

lemma ex_log_bio: "bio_inv ex_log"
  unfolding bio_inv_def by (auto simp: ex_log_bufs ex_bufs split: if_splits)

lemma ex_log_sets: "dirtyset ex_log = {100}" "lockset ex_log = {}" "quiet ex_log"
  unfolding dirtyset_def lockset_def quiet_def by (auto simp: ex_log_bufs ex_bufs split: if_splits intro!: exI [of _ 0])

lemma hdr_decode_replicate0 [simp]: "hdr_decode (replicate 512 0) = []"
  by (simp add: hdr_decode_def hdr_count_def)

lemma ex_log_inv: "log_inv ex_log"
  unfolding log_inv_def using ex_log_bio ex_log_sets
  by (simp add: log_region_def)

text \<open>A device as a crash may leave it: the transaction that changes block 100 is committed (it is
  named by the header in block 2, its new content is in block 3) but not yet installed.\<close>

definition ex_crashed_disk :: "nat \<Rightarrow> byte list" where
  "ex_crashed_disk = (\<lambda>_. replicate BSIZE 0)
     (1 := put32 16 2 (put32 12 30 (replicate BSIZE 0)),
      2 := hdr_encode [100] (replicate BSIZE 0),
      3 := replicate BSIZE 9)"

definition ex_boot :: lst where
  "ex_boot = \<lparr>ptable = (replicate NPROC (ex_proc 0 UNUSED))[0 := ex_proc 1 RUNNING], cur = 0, initproc = 0, nextpid = 2,
     bufs = replicate NBUF ex_buf, lru = [0..<NBUF], disk = ex_crashed_disk,
     disksize = FSSIZE, dwrites = [], lg_start = 0, lg_size = 0, lg_outstanding = 0, lg_committing = False,
     lg_dev = 0, lg_lh = []\<rparr>"

lemma ex_boot_fields [simp]:
  "j < NBUF \<Longrightarrow> buf ex_boot j = ex_buf"
  "length (bufs ex_boot) = NBUF" "lru ex_boot = [0..<NBUF]" "disk ex_boot = ex_crashed_disk" "disksize ex_boot = FSSIZE"
  "proc_ok ex_boot" "dwrites ex_boot = []"
  by (simp_all add: ex_boot_def proc_ok_def myproc_def ex_proc_def)

lemma ex_crashed_disk_facts:
  "length (ex_crashed_disk b) = BSIZE" "hdr_decode (ex_crashed_disk 2) = [100]" "hdr_count (ex_crashed_disk 2) = 1"
  "sb_logstart (sb_decode (ex_crashed_disk 1)) = 2" "sb_nlog (sb_decode (ex_crashed_disk 1)) = 30"
proof -
  have "hdr_decode (hdr_encode [100] (replicate BSIZE 0)) = [100]" by (rule hdr_decode_encode) auto
  then show "hdr_decode (ex_crashed_disk 2) = [100]" by (simp add: ex_crashed_disk_def)
qed (simp_all add: ex_crashed_disk_def sb_decode_def bytes_simps)

lemma ex_boot_ok: "bio_inv ex_boot" "dirtyset ex_boot = {}" "lockset ex_boot = {}" "quiet ex_boot"
  "sane_log (disk ex_boot) (disksize ex_boot)"
  unfolding bio_inv_def dirtyset_def lockset_def quiet_def sane_log_def
  by (auto simp: ex_bufs ex_crashed_disk_facts [simplified] Let_def hdr_ok_def)

end
