(* ===== verification/Crash_Safety.thy ===== *)
theory Crash_Safety
  imports Examples
begin

text \<open>
  What the log of \<^verbatim>\<open>system/storage/log.c\<close> promises to the rest of the file system: atomic and
  durable transactions, recovery that can be repeated, and enough room for every call that
  \<^verbatim>\<open>begin_op\<close> admits.
\<close>

section \<open>Commit\<close>

text \<open>
  C1. A transaction is atomic with respect to crashes: however many of the block writes issued
  by \<^verbatim>\<open>end_op\<close> have reached the device when the machine stops, recovery of that device
  leaves every block outside the log either as it was before the transaction or as the
  transaction left it, and all of them on the same side.
\<close>

theorem end_op_crash_atomic:
  assumes "log_inv s" and "end_op s = Ok u s'" and "dwrites s' = dwrites s @ ws"
    and "d = apply_writes (take j ws) (disk s)"
  shows "(\<forall>b. b \<notin> log_region s \<longrightarrow> recovered (lg_start s) d b = disk s b) \<or>
         (\<forall>b. b \<notin> log_region s \<longrightarrow> recovered (lg_start s) d b = committed s b)"
  using assms by (rule end_op_crash)

theorem end_op_crash_atomic_witness:
  "\<exists>s'. end_op ex_log = Ok () s' \<and>
     ((\<forall>b. b \<notin> log_region ex_log \<longrightarrow> recovered 2 (apply_writes (take 3 (dwrites s')) (disk ex_log)) b = disk ex_log b) \<or>
      (\<forall>b. b \<notin> log_region ex_log \<longrightarrow> recovered 2 (apply_writes (take 3 (dwrites s')) (disk ex_log)) b = committed ex_log b))"
proof -
  obtain s' where "end_op ex_log = Ok () s'"
    using end_op_total [OF ex_log_inv ex_log_sets(3,2)] by auto
  then show ?thesis
    using end_op_crash_atomic [OF ex_log_inv, of "()" s' "dwrites s'" _ 3] by auto
qed

text \<open>
  C2. The last \<^verbatim>\<open>end_op\<close> of a transaction returns (no panic, no sleep) when no other process
  holds a buffer, and then the transaction is on the device: every block that was logged has
  its cached content there, the log is empty again and all logical contents are unchanged.
\<close>

theorem end_op_durable:
  assumes "log_inv s" "quiet s" "lockset s = {}" "lg_size s \<le> int NBUF" "\<not> lg_committing s" "lg_outstanding s = 1"
  shows "\<exists>s'. end_op s = Ok () s' \<and> log_inv s' \<and> lg_lh s' = [] \<and> lg_outstanding s' = 0 \<and>
    (\<forall>b. b \<notin> log_region s \<longrightarrow> disk s' b = committed s b \<and> content s' b = content s b)"
proof -
  obtain s' where "end_op s = Ok () s'" using end_op_total [OF assms(1-5)] by blast
  then show ?thesis using end_op_post [OF assms(1), of "()" s'] assms(6) by auto
qed

theorem end_op_durable_witness:
  "\<exists>s'. end_op ex_log = Ok () s' \<and> log_inv s' \<and> lg_lh s' = [] \<and> lg_outstanding s' = 0 \<and>
    (\<forall>b. b \<notin> log_region ex_log \<longrightarrow> disk s' b = committed ex_log b \<and> content s' b = content ex_log b)"
  by (rule end_op_durable) (simp_all add: ex_log_inv ex_log_sets)

section \<open>Recovery\<close>

text \<open>
  C3. Mounting after a crash: on a device whose log header is sane \<^verbatim>\<open>initlog\<close> returns, the device
  then holds exactly the recovered blocks, and the log is empty and ready for transactions.
\<close>

theorem initlog_recovers:
  assumes "bio_inv s" "quiet s" "lockset s = {}" "dirtyset s = {}" "sane_log (disk s) (disksize s)"
    and "start = unat (sb_logstart (sb_decode (disk s 1)))" "hdr_count (disk s start) < int NBUF"
    and "set (hdr_decode (disk s start)) \<subseteq> {..<disksize s}"
    and "start + length (hdr_decode (disk s start)) < disksize s" "1 < disksize s"
  shows "\<exists>s'. initlog 1 s = Ok () s' \<and> log_inv s' \<and> lg_lh s' = [] \<and> disk s' = recovered start (disk s)"
proof -
  obtain s' where "initlog 1 s = Ok () s'" using initlog_total [OF assms] by blast
  then show ?thesis using initlog_spec [OF assms(1,4,3,5), of "()" s'] assms(6) by auto
qed

theorem initlog_recovers_witness:
  "\<exists>s'. initlog 1 ex_boot = Ok () s' \<and> log_inv s' \<and> lg_lh s' = [] \<and> disk s' = recovered 2 (disk ex_boot)"
  by (rule initlog_recovers) (simp_all add: ex_boot_ok [simplified] ex_crashed_disk_facts [simplified])

text \<open>The header after any part of a recovery: as it was, or empty.\<close>

lemma recovery_prefix:
  assumes "hdr_ok start (hdr_decode (d start))" "length (d start) = BSIZE" "e = apply_writes (take j (recovery_writes start d)) d"
  shows "e start = d start \<or> hdr_decode (e start) = [] \<and> hdr_count (e start) = 0"
    "b \<noteq> start \<Longrightarrow> b \<notin> set (hdr_decode (d start)) \<Longrightarrow> e b = d b"
proof -
  let ?bs = "hdr_decode (d start)" and ?ws = "map (\<lambda>k. (hdr_decode (d start) ! k, d (start + k + 1))) [0..<length (hdr_decode (d start))]"
  have f: "fst ` set ?ws = set ?bs" by (simp add: image_image nth_image_upt)
  have r: "recovery_writes start d = ?ws @ [(start, hdr_encode [] (d start))]" by (simp add: recovery_writes_def Let_def)
  have "fst ` set (take j (recovery_writes start d)) \<subseteq> fst ` set (recovery_writes start d)" by (intro image_mono set_take_subset)
  also have "\<dots> = insert start (set ?bs)" unfolding r using f by simp
  finally show "b \<noteq> start \<Longrightarrow> b \<notin> set ?bs \<Longrightarrow> e b = d b" unfolding assms(3) by (intro apply_writes_other) blast
  show "e start = d start \<or> hdr_decode (e start) = [] \<and> hdr_count (e start) = 0"
  proof (cases "j \<le> length ?ws")
    case True
    have "fst ` set (take j ?ws) \<subseteq> fst ` set ?ws" by (intro image_mono set_take_subset)
    then have "start \<notin> fst ` set (take j ?ws)" using hdr_okD(2) [OF assms(1)] f by blast
    then show ?thesis using True by (simp add: assms(3) r apply_writes_other)
  next
    case False
    then have "e start = hdr_encode [] (d start)" by (simp add: assms(3) r)
    then show ?thesis using assms(2) by simp
  qed
qed

text \<open>
  C4. Recovery may itself be interrupted. When the machine stops after any part of the block writes that \<^verbatim>\<open>initlog\<close> issues, and starts again with an empty buffer
  cache, \<^verbatim>\<open>initlog\<close> returns and leaves the same device as an undisturbed recovery would have.
\<close>

theorem recovery_idempotent:
  assumes "bio_inv s" "quiet s" "lockset s = {}" "dirtyset s = {}" "sane_log (disk s) (disksize s)"
    and "start = unat (sb_logstart (sb_decode (disk s 1)))" "hdr_count (disk s start) < int NBUF"
    and "set (hdr_decode (disk s start)) \<subseteq> {..<disksize s} - {1}"
    and "start + length (hdr_decode (disk s start)) < disksize s" "1 < start"
    and "initlog 1 s = Ok () s'" "dwrites s' = dwrites s @ ws"
    and "bio_inv t" "quiet t" "lockset t = {}" "dirtyset t = {}" "disksize t = disksize s" "disk t = apply_writes (take j ws) (disk s)"
  shows "\<exists>t'. initlog 1 t = Ok () t' \<and> log_inv t' \<and> lg_lh t' = [] \<and> disk t' = disk s'"
proof -
  note S = initlog_spec [OF assms(1,4,3,5,11), folded assms(6)]
  have ws: "ws = recovery_writes start (disk s)" using S(5) assms(12) by simp
  have hd: "hdr_ok start (hdr_decode (disk s start))" and n: "1 \<le> sint (sb_nlog (sb_decode (disk s 1)))"
      "start + nat (sint (sb_nlog (sb_decode (disk s 1)))) \<le> disksize s" "disksize s \<le> 2 ^ 32"
    using assms(5,6) by (simp_all add: sane_log_def Let_def)
  note P = recovery_prefix [OF hd bio_invD(5) [OF assms(1)] assms(18) [unfolded ws]]
  have sb: "disk t 1 = disk s 1" using P(2) [of 1] assms(8,10) by auto
  have h: "hdr_decode (disk t start) = hdr_decode (disk s start) \<and> hdr_count (disk t start) = hdr_count (disk s start) \<or>
      hdr_decode (disk t start) = [] \<and> hdr_count (disk t start) = 0" using P(1) by auto
  have sane: "sane_log (disk t) (disksize t)"
    using h hd n unfolding sane_log_def Let_def sb assms(6) [symmetric] assms(17) by (auto simp: hdr_ok_def)
  have st: "start = unat (sb_logstart (sb_decode (disk t 1)))" by (simp only: sb assms(6))
  have sub: "set (hdr_decode (disk s start)) \<subseteq> {..<disksize s}" using assms(8) by blast
  obtain t' where t': "initlog 1 t = Ok () t'"
    using initlog_total [OF assms(13-16) sane st] h sub assms(7,9,10,17) by auto
  note T = initlog_spec [OF assms(13,16,15) sane t', folded st]
  have "disk t' = disk s'"
    using recovery_restart [of start "disk s" j, OF hd bio_invD(5) [OF assms(1)]] unfolding T(4) S(4) assms(18) ws .
  then show ?thesis using t' T(1,2) by blast
qed

text \<open>The machine of the example stops after the first write of its recovery.\<close>

theorem recovery_idempotent_witness:
  "\<exists>s' t'. initlog 1 ex_boot = Ok () s' \<and> initlog 1 (ex_boot\<lparr>disk := apply_writes (take 1 (dwrites s')) (disk ex_boot)\<rparr>) = Ok () t' \<and> disk t' = disk s'"
proof -
  note F = ex_crashed_disk_facts [simplified]
  obtain s' where s': "initlog 1 ex_boot = Ok () s'" 
    using initlog_total [OF ex_boot_ok(1,4,3,2,5) refl] F by auto
  let ?t = "ex_boot\<lparr>disk := apply_writes (take 1 (dwrites s')) (disk ex_boot)\<rparr>"
  have ws: "dwrites s' = recovery_writes 2 ex_crashed_disk" using initlog_spec(5) [OF ex_boot_ok(1-3,5) s'] F by simp
  have "proc_ok ?t" using ex_boot_fields(6) by (simp only: proc_ok_def) (simp add: myproc_def)
  then have t: "bio_inv ?t" "quiet ?t" "lockset ?t = {}" "dirtyset ?t = {}"
    using F unfolding ws recovery_writes_def
    by (auto simp: bio_inv_def quiet_def lockset_def dirtyset_def ex_bufs)
  have "\<exists>t'. initlog 1 ?t = Ok () t' \<and> log_inv t' \<and> lg_lh t' = [] \<and> disk t' = disk s'"
    by (rule recovery_idempotent [OF ex_boot_ok(1,4,3,2,5) refl _ _ _ _ s' _ t, where ws = "dwrites s'" and j = 1]) (simp_all add: F)
  then show ?thesis using s' by blast
qed

section \<open>Admission\<close>

text \<open>An idle kernel with an empty log.\<close>

definition ex_idle :: lst where
  "ex_idle = ex_log\<lparr>bufs := replicate NBUF ex_buf, lg_size := 30, lg_outstanding := 0, lg_lh := []\<rparr>"

lemma ex_idle_facts:
  "lg_lh ex_idle = []" "lg_outstanding ex_idle = 0" "\<not> lg_committing ex_idle" "lg_size ex_idle = 30" "lg_start ex_idle = 2" "disksize ex_idle = FSSIZE"
  "log_inv ex_idle" "quiet ex_idle" "lockset ex_idle = {}" "dirtyset ex_idle = {}"
proof -
  show 1: "lg_lh ex_idle = []" "lg_outstanding ex_idle = 0" "\<not> lg_committing ex_idle" "lg_size ex_idle = 30" "lg_start ex_idle = 2" "disksize ex_idle = FSSIZE"
    by (simp_all add: ex_idle_def)
  have b: "j < NBUF \<Longrightarrow> buf ex_idle j = ex_buf" for j by (simp add: ex_idle_def)
  have p: "proc_ok ex_idle" by (simp add: ex_idle_def ex_log_def proc_ok_def myproc_def ex_proc_def)
  have f: "length (bufs ex_idle) = NBUF" "lru ex_idle = [0..<NBUF]" "disk ex_idle = (\<lambda>_. replicate BSIZE 0)" "disksize ex_idle = FSSIZE"
    "lg_start ex_idle = 2" "lg_dev ex_idle = 1" by (simp_all add: ex_idle_def)
  have "bio_inv ex_idle" unfolding bio_inv_def by (auto simp: p f b ex_bufs)
  moreover show "dirtyset ex_idle = {}" "lockset ex_idle = {}" "quiet ex_idle" by (auto simp: dirtyset_def lockset_def quiet_def b ex_bufs)
  ultimately show "log_inv ex_idle" by (simp add: log_inv_def f 1 log_region_def)
qed

text \<open>
  C5. A system call that \<^verbatim>\<open>begin_op\<close> has admitted and that changes at most \<^verbatim>\<open>MAXOPBLOCKS\<close> blocks does not
  overflow the log, on a device whose log has at least \<^verbatim>\<open>LOGSIZE\<close> blocks. In every state that running calls can reach, by any interleaving of
  \<^verbatim>\<open>begin_op\<close>, \<^verbatim>\<open>bread\<close>, changes of buffers, \<^verbatim>\<open>log_write\<close>, \<^verbatim>\<open>brelse\<close> and \<^verbatim>\<open>end_op\<close>, a call that may still log a block can log it, with one exception:
  if the log has exactly \<^verbatim>\<open>LOGSIZE\<close> blocks and all of them but one are in use, \<^verbatim>\<open>log_write\<close> panics. And when nobody holds a buffer, \<^verbatim>\<open>end_op\<close>
  returns, and the last one leaves the log empty.
\<close>

theorem admitted_log_write_returns:
  assumes "txn_step\<^sup>*\<^sup>* (s0, Map.empty) (s, left)" "log_inv s0" "lg_lh s0 = []" "lg_outstanding s0 = 0" "\<not> lg_committing s0"
    and "int LOGSIZE \<le> lg_size s"
  shows "(\<forall>i n. left (cur s) = Some (Suc n) \<longrightarrow>
      (if lg_size s = int LOGSIZE \<and> length (lg_lh s) = LOGSIZE - 1 then log_write i s = Panic ''too big a transaction''
       else \<exists>s'. log_write i s = Ok () s')) \<and>
    (left (cur s) \<noteq> None \<and> quiet s \<and> lockset s = {} \<and> lg_size s \<le> int NBUF \<longrightarrow>
      (\<exists>s'. end_op s = Ok () s' \<and> (lg_outstanding s = 1 \<longrightarrow> lg_lh s' = [])))"
proof (intro conjI allI impI)
  have I: "txn_inv (s, left)" using assms(2-5) by (intro txn_reachable [OF assms(1)]) (simp add: txn_inv_def reserved_def)
  then have fin: "finite (dom left)" by (simp add: txn_inv_def)
  fix i n assume l: "left (cur s) = Some (Suc n)"
  then have "cur s \<in> dom left" by auto
  then have c: "0 < card (dom left)" using fin card_gt_0_iff by blast
  have "reserved (left(cur s := None)) + Suc n = reserved left" by (rule reserved_upd(3) [OF fin l])
  then have "length (lg_lh s) < LOGSIZE" "1 \<le> lg_outstanding s" using I c by (auto simp: txn_inv_def)
  then show "if lg_size s = int LOGSIZE \<and> length (lg_lh s) = LOGSIZE - 1 then log_write i s = Panic ''too big a transaction''
       else \<exists>s'. log_write i s = Ok () s'"
    using assms(6) by (auto simp: log_write_Ok) (simp add: log_write_def)
next
  have "txn_inv (s, left)" using assms(2-5) by (intro txn_reachable [OF assms(1)]) (simp add: txn_inv_def reserved_def)
  then have I: "log_inv s" "\<not> lg_committing s" by (auto simp: txn_inv_def)
  assume q: "left (cur s) \<noteq> None \<and> quiet s \<and> lockset s = {} \<and> lg_size s \<le> int NBUF"
  then obtain s' where "end_op s = Ok () s'" using end_op_total [OF I(1) _ _ _ I(2)] by blast
  then show "\<exists>s'. end_op s = Ok () s' \<and> (lg_outstanding s = 1 \<longrightarrow> lg_lh s' = [])" using end_op_post(4) [OF I(1)] by blast
qed

text \<open>A whole call on the idle kernel: it reads block 100, changes and logs it and releases it.\<close>

lemma ex_idle_run:
  obtains s where "txn_step\<^sup>*\<^sup>* (ex_idle, Map.empty) (s, [cur s \<mapsto> 9])" "lg_lh s = [100]" "lg_outstanding s = 1" "lg_size s = 30" "quiet s" "lockset s = {}"
proof -
  note F = ex_idle_facts
  define s1 where "s1 = ex_idle\<lparr>lg_outstanding := 1\<rparr>"
  have "begin_op ex_idle = Ok () s1" using F by (simp add: begin_op_def s1_def)
  then have 1: "txn_step (ex_idle, Map.empty) (s1, [cur s1 \<mapsto> 10])" using txn_step.t_begin [of Map.empty ex_idle s1] by (simp add: s1_def)
  have i1: "log_inv s1" "quiet s1" "lockset s1 = {}" "dirtyset s1 = {}" "disksize s1 = FSSIZE" "lg_outstanding s1 = 1" "lg_lh s1 = []" "lg_size s1 = 30" "lg_start s1 = 2"
    using F by (simp_all add: s1_def)
  have "100 < disksize s1" "100 \<notin> lockset s1" "100 \<in> dirtyset s1 \<or> card (lockset s1 \<union> dirtyset s1) < NBUF" using i1 by simp_all
  then obtain i s2 where b: "bread 1 100 s1 = Ok i s2" using bread_total [OF log_invD(1) [OF i1(1)] i1(2)] by blast
  note B = bread_spec [OF log_invD(1) [OF i1(1)] b] and q2 = quiet_bread [OF log_invD(1) [OF i1(1)] b i1(2)]
  note R2 = same_rest_lst [OF B(11)]
  have i2: "log_inv s2" "cur s2 = cur s1" using log_inv_same_rest [OF i1(1) B(1,11,6,9)] B(11) by (simp_all add: same_rest_def)
  let ?f = "\<lambda>_. replicate BSIZE 7 :: byte list"
  define s3 where "s3 = upd_data i ?f s2"
  note U = upd_data_spec [where f = ?f, OF B(1,2), simplified length_replicate, OF refl, folded s3_def]
  note R3 = same_rest_lst [OF U(8)]
  have i3: "log_inv s3" "cur s3 = cur s1" using log_inv_same_rest [OF i2(1) U(1,8,4,6)] U(8) i2(2) by (simp_all add: same_rest_def)
  have q3: "quiet s3" using q2 by (simp add: s3_def)
  have l3: "lg_outstanding s3 = 1" "lg_lh s3 = []" "lg_size s3 = 30" "100 \<notin> log_region s3"
    using R2 R3 i1 by (simp_all add: log_region_def)
  then obtain s4 where w: "log_write i s3 = Ok () s4" by (auto simp: log_write_Ok)
  note W = log_write_spec [OF i3(1) U(2) l3(4) w]
  note R4 = same_rest_lst [OF W(10)]
  have c4: "cur s4 = cur s1" using W(10) i3(2) by (simp add: same_rest_def)
  have "100 \<in> dirtyset s4 \<or> content s4 100 = disk s4 100" using W(4) by simp
  note Rel = brelse_spec [OF log_invD(1) [OF W(1)] W(2) this]
  obtain s5 where r: "brelse i s4 = Ok () s5" and R: "lockset s5 = lockset s4 - {100}" "same_rest s4 s5" by (rule Rel) blast
  note R5 = same_rest_lst [OF R(2)]
  have c5: "cur s5 = cur s1" using R(2) c4 by (simp add: same_rest_def)
  have "txn_step\<^sup>*\<^sup>* (ex_idle, Map.empty) (s5, [cur s1 \<mapsto> 9])"
  proof -
    have 2: "txn_step (s1, [cur s1 \<mapsto> 10]) (s2, [cur s1 \<mapsto> 10])" by (rule txn_step.t_bread [OF b])
    have 3: "txn_step (s2, [cur s1 \<mapsto> 10]) (s3, [cur s1 \<mapsto> 10])" unfolding s3_def by (rule txn_step.t_change [OF _ B(2)]) (simp_all add: i2)
    have "txn_step (s3, [cur s1 \<mapsto> 10]) (s4, [cur s1 \<mapsto> 10](cur s3 \<mapsto> 9))" by (rule txn_step.t_append [OF _ U(2) l3(4) _ w]) (simp_all add: i3 l3)
    then have 4: "txn_step (s3, [cur s1 \<mapsto> 10]) (s4, [cur s1 \<mapsto> 9])" by (simp add: i3)
    have 5: "txn_step (s4, [cur s1 \<mapsto> 9]) (s5, [cur s1 \<mapsto> 9])" by (rule txn_step.t_brelse [OF W(2) _ r]) (simp add: W(4))
    show ?thesis using 1 2 3 4 5 by (meson r_into_rtranclp rtranclp_trans)
  qed
  moreover have "lg_lh s5 = [100]" "lg_outstanding s5 = 1" "lg_size s5 = 30" using R5 R4 W(9) l3 by simp_all
  moreover have "lockset s5 = {}" using R(1) W(5) U(5) B(7) i1(3) by simp
  moreover have "quiet s5" by (rule quiet_brelse [OF log_invD(1) [OF W(1)] W(2) r W(8) [OF q3]])
  ultimately show thesis using that [of s5] c5 by simp
qed

theorem admitted_log_write_returns_witness:
  "\<exists>s s' s''. txn_step\<^sup>*\<^sup>* (ex_idle, Map.empty) (s, [cur s \<mapsto> 9]) \<and> lg_lh s = [100] \<and> log_write 0 s = Ok () s' \<and> end_op s = Ok () s'' \<and> lg_lh s'' = []"
proof -
  obtain s where s: "txn_step\<^sup>*\<^sup>* (ex_idle, Map.empty) (s, [cur s \<mapsto> 9])" "lg_lh s = [100]" "lg_outstanding s = 1" "lg_size s = 30" "quiet s" "lockset s = {}"
    by (rule ex_idle_run)
  note A = admitted_log_write_returns [OF s(1) ex_idle_facts(7,1,2,3)]
  have "\<exists>s'. log_write 0 s = Ok () s'" using A s(2,4) by (simp add: numeral_eq_Suc)
  moreover have "\<exists>s''. end_op s = Ok () s'' \<and> lg_lh s'' = []" using A s by simp
  ultimately show ?thesis using s(1,2) by blast
qed

text \<open>
  The on-disk log header is read back as it was written: any list of at most \<^verbatim>\<open>LOGSIZE\<close> block
  numbers survives \<^verbatim>\<open>write_head\<close> followed by \<^verbatim>\<open>read_head\<close>.
\<close>

lemma log_header_roundtrip:
  assumes "length bs \<le> LOGSIZE" "length d = BSIZE" "\<forall>b \<in> set bs. b < 2 ^ 32"
  shows "hdr_decode (hdr_encode bs d) = bs"
  using assms by (intro hdr_decode_encode) auto

lemma log_header_example:
  "hdr_decode (hdr_encode [3, 1, 4] (replicate BSIZE 255)) = [3, 1, 4]"
  by (rule log_header_roundtrip) simp_all

end
