(* ===== verification/Fs_Block.thy ===== *)
theory Fs_Block
  imports Log
begin

text \<open>
  The state of the file system (\<^verbatim>\<open>include/fs.h\<close>, \<^verbatim>\<open>include/file.h\<close>) and its block
  allocator (\<^verbatim>\<open>bzero\<close>, \<^verbatim>\<open>balloc\<close>, \<^verbatim>\<open>bfree\<close> of \<^verbatim>\<open>system/storage/fs.c\<close>). The theorems
  speak about the logical content of blocks (\<open>content\<close>), which is what the buffer cache and
  the log provide to the file system.
\<close>

section \<open>State\<close>

record inode =
  i_dev :: nat
  i_inum :: nat
  i_ref :: int
  i_lock :: sleeplock
  i_valid :: bool
  i_type :: u16
  i_major :: u16
  i_minor :: u16
  i_nlink :: u16
  i_size :: u32
  i_addrs :: "u32 list"

record fsst = lst +
  fsb :: superblock
  icache :: "inode list"

abbreviation (input) NDIRECT :: nat where "NDIRECT \<equiv> 12"
abbreviation (input) NINDIRECT :: nat where "NINDIRECT \<equiv> 128"
abbreviation (input) MAXFILE :: nat where "MAXFILE \<equiv> 140"
abbreviation (input) IPB :: nat where "IPB \<equiv> 8"
abbreviation (input) BPB :: nat where "BPB \<equiv> 4096"
abbreviation (input) DIRSIZ :: nat where "DIRSIZ \<equiv> 14"
abbreviation (input) T_DIR :: u16 where "T_DIR \<equiv> 1"
abbreviation (input) T_FILE :: u16 where "T_FILE \<equiv> 2"
abbreviation (input) T_DEV :: u16 where "T_DEV \<equiv> 3"

definition IBLOCK :: "nat \<Rightarrow> superblock \<Rightarrow> nat" where
  "IBLOCK i sb = i div IPB + unat (sb_inodestart sb)"

definition BBLOCK :: "nat \<Rightarrow> superblock \<Rightarrow> nat" where
  "BBLOCK b sb = b div BPB + unat (sb_bmapstart sb)"

section \<open>Operations\<close>

definition bzero :: "nat \<Rightarrow> nat \<Rightarrow> 'a fsst_scheme \<Rightarrow> ('a fsst_scheme, unit) outcome" where
  "bzero dev bno s =
     on (bread dev bno s) (\<lambda>bp s.
     on (log_write bp (upd_data bp (\<lambda>_. replicate BSIZE 0) s)) (\<lambda>_ s.
     brelse bp s))"

text \<open>\<^verbatim>\<open>bp->data[bi/8] & (1 << (bi % 8))\<close>, and setting and clearing that bit.\<close>

definition bm_test :: "nat \<Rightarrow> byte list \<Rightarrow> bool" where
  "bm_test bi d = bit (d ! (bi div 8)) (bi mod 8)"

definition bm_set :: "nat \<Rightarrow> byte list \<Rightarrow> byte list" where
  "bm_set bi d = d[bi div 8 := d ! (bi div 8) OR push_bit (bi mod 8) 1]"

definition bm_clear :: "nat \<Rightarrow> byte list \<Rightarrow> byte list" where
  "bm_clear bi d = d[bi div 8 := d ! (bi div 8) AND NOT (push_bit (bi mod 8) 1)]"

fun balloc_scan :: "nat \<Rightarrow> nat list \<Rightarrow> 'a fsst_scheme \<Rightarrow> ('a fsst_scheme, nat) outcome" where
  "balloc_scan dev [] s = Panic ''balloc: out of blocks''"
| "balloc_scan dev (b # bs) s =
     on (bread dev (BBLOCK b (fsb s)) s) (\<lambda>bp s.
     case first_index (\<lambda>bi. \<not> bm_test bi (b_data (buf s bp))) (min BPB (unat (sb_size (fsb s)) - b)) of
       Some bi \<Rightarrow>
         on (log_write bp (upd_data bp (bm_set bi) s)) (\<lambda>_ s.
         on (brelse bp s) (\<lambda>_ s.
         on (bzero dev (b + bi) s) (\<lambda>_ s.
         Ok (b + bi) s)))
     | None \<Rightarrow> on (brelse bp s) (\<lambda>_ s. balloc_scan dev bs s))"

definition balloc :: "nat \<Rightarrow> 'a fsst_scheme \<Rightarrow> ('a fsst_scheme, nat) outcome" where
  "balloc dev s = balloc_scan dev (map (\<lambda>k. k * BPB) [0..<(unat (sb_size (fsb s)) + (BPB - 1)) div BPB]) s"

definition bfree :: "nat \<Rightarrow> nat \<Rightarrow> 'a fsst_scheme \<Rightarrow> ('a fsst_scheme, unit) outcome" where
  "bfree dev b s =
     on (bread dev (BBLOCK b (fsb s)) s) (\<lambda>bp s.
     let bi = b mod BPB in
     if \<not> bm_test bi (b_data (buf s bp)) then Panic ''freeing free block''
     else
       on (log_write bp (upd_data bp (bm_clear bi) s)) (\<lambda>_ s.
       brelse bp s))"

section \<open>Changing a block inside a transaction\<close>

text \<open>Everything but the buffers, the device and the list of logged blocks stays as it is.\<close>

definition log_rest :: "'a lst_scheme \<Rightarrow> 'a lst_scheme \<Rightarrow> bool" where
  "log_rest s s' \<longleftrightarrow> same_rest (s\<lparr>lg_lh := lg_lh s'\<rparr>) s'"

text \<open>The state after updates of the blocks in \<open>bs\<close> inside a transaction.\<close>

definition updated :: "nat set \<Rightarrow> 'a lst_scheme \<Rightarrow> 'a lst_scheme \<Rightarrow> bool" where
  "updated bs s s' \<longleftrightarrow> log_inv s' \<and> set (lg_lh s') = set (lg_lh s) \<union> bs \<and> lockset s' = lockset s \<and>
     disk s' = disk s \<and> dwrites s' = dwrites s \<and> log_rest s s' \<and> (quiet s \<longrightarrow> quiet s') \<and>
     (\<forall>b. b \<notin> bs \<longrightarrow> content s' b = content s b) \<and> (\<forall>j c. holds s j c \<longrightarrow> holds s' j c)"

lemma log_rest_refl [simp]: "log_rest s s"
  by (simp add: log_rest_def)

lemma log_rest_trans: "log_rest s t \<Longrightarrow> log_rest t u \<Longrightarrow> log_rest s u"
  by (cases s; cases t; cases u) (simp add: log_rest_def same_rest_def myproc_def)

lemma same_rest_log_rest: "same_rest s s' \<Longrightarrow> log_rest s s'"
  using same_rest_lst(6) [of s s'] by (simp add: log_rest_def)

lemma log_restD:
  assumes "log_rest s s'"
  shows "cur s' = cur s" "myproc s' = myproc s" "initproc s' = initproc s" "nextpid s' = nextpid s"
    "length (ptable s') = length (ptable s)" "disksize s' = disksize s" "mypid s' = mypid s"
    "lg_start s' = lg_start s" "lg_size s' = lg_size s" "lg_outstanding s' = lg_outstanding s"
    "lg_committing s' = lg_committing s" "lg_dev s' = lg_dev s" "lst.more s' = lst.more s" "log_region s' = log_region s"
  using same_rest_lst [OF assms [unfolded log_rest_def]] assms
  by (auto simp: log_rest_def same_rest_def mypid_def log_region_def)

lemma log_rest_fsst:
  assumes "log_rest s s'"
  shows "fsb s' = fsb s" "icache s' = icache s" "fsst.more s' = fsst.more s"
  using log_restD(13) [OF assms] by (cases s; cases s'; simp)+

lemma updatedD:
  assumes "updated bs s s'"
  shows "log_inv s'" "set (lg_lh s') = set (lg_lh s) \<union> bs" "lockset s' = lockset s" "disk s' = disk s"
    "dwrites s' = dwrites s" "log_rest s s'" "quiet s \<Longrightarrow> quiet s'" "b \<notin> bs \<Longrightarrow> content s' b = content s b"
    "holds s j c \<Longrightarrow> holds s' j c" "bio_inv s'" "disksize s' = disksize s" "log_region s' = log_region s"
  using assms by (auto simp: updated_def log_invD log_restD)

lemma updated_fsst:
  assumes "updated bs s s'"
  shows "fsb s' = fsb s" "icache s' = icache s" "fsst.more s' = fsst.more s"
  using log_rest_fsst [OF updatedD(6) [OF assms]] .

lemma updated_refl [simp]: "log_inv s \<Longrightarrow> updated {} s s"
  by (simp add: updated_def)

lemma updated_trans: "updated bs s t \<Longrightarrow> updated cs t u \<Longrightarrow> updated (bs \<union> cs) s u"
  unfolding updated_def by (auto intro: log_rest_trans)

lemma log_inv_cong:
  assumes "log_inv s" "bio_inv s'" "same_rest s s'" "dirtyset s' = dirtyset s" "disk s' = disk s"
  shows "log_inv s'"
  using assms same_rest_lst [OF assms(3)] unfolding log_inv_def log_region_def by (simp add: same_rest_def)

lemma log_inv_bread: "log_inv s \<Longrightarrow> bread 1 b s = Ok i s1 \<Longrightarrow> log_inv s1"
  using log_inv_cong [OF _ bread_spec(1,11,6,9)] log_invD(1) by blast

section \<open>Working on other blocks while a buffer is held\<close>

lemma bracket_held:
  assumes inv: "log_inv s" and br: "bread 1 a s = Ok i s1" and up: "updated bs s1 s2"
  shows "holds s2 i a" "a \<in> dirtyset s2 \<or> content s2 a = disk s2 a" "log_inv s2" "a \<notin> lockset s"
    "lockset s2 = insert a (lockset s)" "disk s2 = disk s" "dwrites s2 = dwrites s" "log_rest s s2"
    "quiet s \<Longrightarrow> quiet s2" "set (lg_lh s2) = set (lg_lh s) \<union> bs" "b \<notin> bs \<Longrightarrow> content s2 b = content s b"
    "holds s j c \<Longrightarrow> holds s2 j c \<and> c \<noteq> a" "log_region s2 = log_region s"
proof -
  note bi = log_invD(1) [OF inv]
  note A = bread_spec [OF bi br] and U = updatedD [OF up]
  show "holds s2 i a" by (rule U(9) [OF A(2)])
  have lh1: "lg_lh s1 = lg_lh s" by (rule same_rest_lst [OF A(11)])
  show "a \<in> dirtyset s2 \<or> content s2 a = disk s2 a"
  proof (cases "a \<in> bs \<or> a \<in> dirtyset s")
    case True
    then show ?thesis using log_invD(8) [OF U(1)] log_invD(8) [OF inv] U(2) lh1 by auto
  next
    case False
    then show ?thesis using content_clean [OF bi A(8)] U(8) [of a] U(4) by (simp add: A)
  qed
  show "log_inv s2" by (rule U)
  show "a \<notin> lockset s" by (rule A)
  show "lockset s2 = insert a (lockset s)" "disk s2 = disk s" "dwrites s2 = dwrites s" using U A by simp_all
  show lr: "log_rest s s2" by (rule log_rest_trans [OF same_rest_log_rest [OF A(11)] U(6)])
  show "log_region s2 = log_region s" by (rule log_restD(14) [OF lr])
  show "quiet s \<Longrightarrow> quiet s2" using quiet_bread [OF bi br] U(7) by blast
  show "set (lg_lh s2) = set (lg_lh s) \<union> bs" using U(2) lh1 by simp
  show "b \<notin> bs \<Longrightarrow> content s2 b = content s b" using U(8) A(5) by simp
  show "holds s j c \<Longrightarrow> holds s2 j c \<and> c \<noteq> a"
    using U(9) A(12) A(8) holdsD(9) [OF bi] by blast
qed

lemma bracket_release:
  assumes inv: "log_inv s" and br: "bread 1 a s = Ok i s1" and up: "updated bs s1 s2"
  obtains s' where "brelse i s2 = Ok () s'" "updated bs s s'" "content s' = content s2"
proof -
  note B = bracket_held [OF assms]
  obtain s' where r: "brelse i s2 = Ok () s'" and R: "bio_inv s'" "content s' = content s2"
      "dirtyset s' = dirtyset s2" "lockset s' = lockset s2 - {a}" "disk s' = disk s2" "dwrites s' = dwrites s2"
      "same_rest s2 s'" and h: "\<And>j c. c \<noteq> a \<Longrightarrow> holds s2 j c \<Longrightarrow> holds s' j c"
    using brelse_spec [OF log_invD(1) [OF B(3)] B(1,2)] by metis
  have "log_inv s'" by (rule log_inv_cong [OF B(3) R(1,7)]) (simp_all add: R)
  moreover have "holds s' j c" if "holds s j c" for j c using h [of c j] B(12) [OF that] by blast
  moreover have "quiet s \<longrightarrow> quiet s'"
    using quiet_brelse [OF log_invD(1) [OF B(3)] B(1) r] B(9) by blast
  moreover have "lockset s' = lockset s" using R(4) B(4,5) by auto
  moreover have "log_rest s s'" by (rule log_rest_trans [OF B(8) same_rest_log_rest [OF R(7)]])
  ultimately have "updated bs s s'"
    using R B(6,7,10,11) same_rest_lst(6) [OF R(7)] by (simp add: updated_def)
  with r R(2) show thesis by (intro that)
qed

lemma bracket_modify:
  assumes inv: "log_inv s" and br: "bread 1 a s = Ok i s1" and up: "updated bs s1 s2"
    and nr: "a \<notin> log_region s" and len: "length (f (content s2 a)) = BSIZE"
    and lw: "log_write i (upd_data i f s2) = Ok u s3" and rl: "brelse i s3 = Ok v s'"
  shows "updated (insert a bs) s s'" "content s' = (content s2)(a := f (content s2 a))" "1 \<le> lg_outstanding s"
proof -
  note B = bracket_held [OF inv br up]
  note bi = log_invD(1) [OF B(3)]
  note U = upd_data_spec [OF bi B(1), where f = f, OF len]
  define t where "t = upd_data i f s2"
  have T: "bio_inv t" "holds t i a" "content t = (content s2)(a := f (content s2 a))" "dirtyset t = dirtyset s2"
      "lockset t = lockset s2" "disk t = disk s2" "dwrites t = dwrites s2" "same_rest s2 t"
    using U(1-8) by (simp_all add: t_def)
  have hT: "holds t j c" if "holds s2 j c" for j c using U(9) that by (simp add: t_def)
  have invT: "log_inv t" by (rule log_inv_cong [OF B(3) T(1,8,4,6)])
  have nrT: "a \<notin> log_region t" using nr B(13) same_rest_lst [OF T(8)] by (simp add: log_region_def)
  note L = log_write_spec [OF invT T(2) nrT lw [folded t_def]]
  have cl: "a \<in> dirtyset s3 \<or> content s3 a = disk s3 a" by (simp add: L)
  obtain z where z: "brelse i s3 = Ok () z" and R: "bio_inv z" "content z = content s3"
      "dirtyset z = dirtyset s3" "lockset z = lockset s3 - {a}" "disk z = disk s3" "dwrites z = dwrites s3"
      "same_rest s3 z" and h: "\<And>j c. c \<noteq> a \<Longrightarrow> holds s3 j c \<Longrightarrow> holds z j c"
    using brelse_spec [OF log_invD(1) [OF L(1)] L(2) cl] by metis
  have [simp]: "z = s'" using z rl by simp
  have "log_inv s'" using log_inv_cong [OF L(1) R(1,7)] R by simp
  moreover have "set (lg_lh s') = set (lg_lh s) \<union> insert a bs"
    using same_rest_lst(6) [OF R(7)] L(9) same_rest_lst(6) [OF T(8)] B(10) by auto
  moreover have "log_rest s s'"
    using log_rest_trans [OF B(8) log_rest_trans [OF same_rest_log_rest [OF T(8)] log_rest_trans [of t s3 s']]]
      L(10) same_rest_log_rest [OF R(7)]
    by (simp add: log_rest_def)
  moreover have "holds s' j c" if "holds s j c" for j c
    using h [of c j] L(11) [OF hT] B(12) [OF that] by auto
  moreover have "quiet s \<longrightarrow> quiet s'"
    using quiet_brelse [OF log_invD(1) [OF L(1)] L(2) z] L(8) B(9) by (auto simp: t_def)
  moreover have "lockset s' = lockset s" using R(4) L(5) T(5) B(4,5) by auto
  moreover show c: "content s' = (content s2)(a := f (content s2 a))" using R(2) L(3) T(3) by simp
  ultimately show "updated (insert a bs) s s'"
    using R L T B(6,7,11) by (simp add: updated_def)
  show "1 \<le> lg_outstanding s" using L(12) same_rest_lst(3) [OF T(8)] log_restD(10) [OF B(8)] by simp
qed

text \<open>Reading a block, and changing it.\<close>

lemma read_spec:
  assumes inv: "log_inv s" and br: "bread 1 b s = Ok i s1"
  obtains s' where "brelse i s1 = Ok () s'" "updated {} s s'" "b_data (buf s1 i) = content s b" "content s' = content s"
proof -
  note A = bread_spec [OF log_invD(1) [OF inv] br]
  obtain s' where "brelse i s1 = Ok () s'" "updated {} s s'" "content s' = content s1"
    by (rule bracket_release [OF inv br updated_refl [OF log_inv_bread [OF inv br]]])
  with A(3,5) show thesis by (intro that [of s']) simp_all
qed

lemma modify_spec:
  assumes inv: "log_inv s" and br: "bread 1 b s = Ok i s1" and nr: "b \<notin> log_region s"
    and len: "length (f (content s b)) = BSIZE"
    and lw: "log_write i (upd_data i f s1) = Ok u s2" and rl: "brelse i s2 = Ok v s'"
  shows "updated {b} s s'" "content s' b = f (content s b)" "1 \<le> lg_outstanding s"
proof -
  note c = bread_spec(5) [OF log_invD(1) [OF inv] br]
  have "length (f (content s1 b)) = BSIZE" using len c by simp
  from bracket_modify [OF inv br updated_refl [OF log_inv_bread [OF inv br]] nr this lw rl]
  show "updated {b} s s'" "content s' b = f (content s b)" "1 \<le> lg_outstanding s"
    using c by simp_all
qed

section \<open>The free map\<close>

lemma length_bm [simp]: "length (bm_set bi d) = length d" "length (bm_clear bi d) = length d"
  by (simp_all add: bm_set_def bm_clear_def)

lemma bm_test_set:
  assumes "bi div 8 < length d"
  shows "bm_test j (bm_set bi d) \<longleftrightarrow> j = bi \<or> bm_test j d"
proof (cases "j div 8 = bi div 8")
  case True
  then have "j = bi \<longleftrightarrow> j mod 8 = bi mod 8" by (metis div_mult_mod_eq)
  moreover have "bi mod 8 < 8" "j mod 8 < 8" by simp_all
  ultimately show ?thesis using True assms
    by (auto simp: bm_test_def bm_set_def bit_or_iff bit_push_bit_iff bit_1_iff bit_exp_iff)
next
  case False
  then show ?thesis by (auto simp: bm_test_def bm_set_def)
qed

lemma bm_test_clear:
  assumes "bi div 8 < length d"
  shows "bm_test j (bm_clear bi d) \<longleftrightarrow> j \<noteq> bi \<and> bm_test j d"
proof (cases "j div 8 = bi div 8")
  case True
  then have "j = bi \<longleftrightarrow> j mod 8 = bi mod 8" by (metis div_mult_mod_eq)
  moreover have "bi mod 8 < 8" "j mod 8 < 8" by simp_all
  ultimately show ?thesis using True assms
    by (auto simp: bm_test_def bm_clear_def bit_and_iff bit_not_iff bit_push_bit_iff bit_1_iff bit_exp_iff)
next
  case False
  then show ?thesis by (auto simp: bm_test_def bm_clear_def)
qed

text \<open>Block \<open>b\<close> is marked in use.\<close>

definition allocated :: "superblock \<Rightarrow> (nat \<Rightarrow> byte list) \<Rightarrow> nat \<Rightarrow> bool" where
  "allocated sb c b \<longleftrightarrow> bm_test (b mod BPB) (c (BBLOCK b sb))"

text \<open>The layout that the super block describes: boot block, super block, log, inodes, free map,
  data, in this order and without overlap.\<close>

definition datastart :: "superblock \<Rightarrow> nat" where
  "datastart sb = unat (sb_bmapstart sb) + unat (sb_size sb) div BPB + 1"

definition sb_ok :: "superblock \<Rightarrow> bool" where
  "sb_ok sb \<longleftrightarrow>
     2 \<le> unat (sb_logstart sb) \<and> unat (sb_logstart sb) + unat (sb_nlog sb) \<le> unat (sb_inodestart sb) \<and>
     unat (sb_inodestart sb) + unat (sb_ninodes sb) div IPB + 1 \<le> unat (sb_bmapstart sb) \<and>
     datastart sb \<le> unat (sb_size sb)"

definition fs_inv :: "'a fsst_scheme \<Rightarrow> bool" where
  "fs_inv s \<longleftrightarrow> log_inv s \<and> sb_ok (fsb s) \<and> lg_start s = unat (sb_logstart (fsb s)) \<and>
     nat (lg_size s) = unat (sb_nlog (fsb s)) \<and> unat (sb_size (fsb s)) \<le> disksize s \<and>
     (\<forall>b < datastart (fsb s). allocated (fsb s) (content s) b)"

lemma fs_invD:
  assumes "fs_inv s"
  shows "log_inv s" "sb_ok (fsb s)" "unat (sb_size (fsb s)) \<le> disksize s"
    "b < datastart (fsb s) \<Longrightarrow> allocated (fsb s) (content s) b"
    "bio_inv s" "log_region s = {unat (sb_logstart (fsb s))..<unat (sb_logstart (fsb s)) + unat (sb_nlog (fsb s))}"
  using assms by (auto simp: fs_inv_def log_invD log_region_def)

lemma region_bounds:
  assumes "fs_inv s"
  shows "b \<in> log_region s \<Longrightarrow> b < unat (sb_inodestart (fsb s))"
    "c \<le> unat (sb_size (fsb s)) \<Longrightarrow> BBLOCK c (fsb s) \<notin> log_region s"
    "c \<le> unat (sb_size (fsb s)) \<Longrightarrow> BBLOCK c (fsb s) < datastart (fsb s)"
    "datastart (fsb s) \<le> c \<Longrightarrow> c \<notin> log_region s"
    "k < unat (sb_ninodes (fsb s)) \<Longrightarrow> IBLOCK k (fsb s) \<notin> log_region s"
    "k < unat (sb_ninodes (fsb s)) \<Longrightarrow> IBLOCK k (fsb s) < unat (sb_bmapstart (fsb s))"
    "unat (sb_bmapstart (fsb s)) < datastart (fsb s)"
    "unat (sb_bmapstart (fsb s)) \<le> BBLOCK c (fsb s)"
proof -
  note O = fs_invD(2) [OF assms] and R = fs_invD(6) [OF assms]
  show b: "b \<in> log_region s \<Longrightarrow> b < unat (sb_inodestart (fsb s))" for b using O R by (auto simp: sb_ok_def)
  show bm: "unat (sb_bmapstart (fsb s)) < datastart (fsb s)" by (simp add: datastart_def)
  show bb: "unat (sb_bmapstart (fsb s)) \<le> BBLOCK c (fsb s)" for c by (simp add: BBLOCK_def)
  show "BBLOCK c (fsb s) \<notin> log_region s" using b bb [of c] O by (fastforce simp: sb_ok_def)
  show "c \<le> unat (sb_size (fsb s)) \<Longrightarrow> BBLOCK c (fsb s) < datastart (fsb s)"
    using div_le_mono [of c "unat (sb_size (fsb s))" BPB] by (simp add: BBLOCK_def datastart_def)
  show "datastart (fsb s) \<le> c \<Longrightarrow> c \<notin> log_region s" using b [of c] O bm by (auto simp: sb_ok_def)
  have ib: "unat (sb_inodestart (fsb s)) \<le> IBLOCK k (fsb s)" by (simp add: IBLOCK_def)
  show "IBLOCK k (fsb s) \<notin> log_region s" using b ib by fastforce
  show "k < unat (sb_ninodes (fsb s)) \<Longrightarrow> IBLOCK k (fsb s) < unat (sb_bmapstart (fsb s))"
    using div_le_mono [of k "unat (sb_ninodes (fsb s))" IPB] O by (auto simp: IBLOCK_def sb_ok_def)
qed

text \<open>The free map after one bit of it has been changed.\<close>

lemma allocated_upd:
  assumes "bi < BPB" "b mod BPB = bi" "length (c (BBLOCK b sb)) = BSIZE"
  shows "allocated sb (c(BBLOCK b sb := bm_set bi (c (BBLOCK b sb)))) b' \<longleftrightarrow> b' = b \<or> allocated sb c b'"
    "allocated sb (c(BBLOCK b sb := bm_clear bi (c (BBLOCK b sb)))) b' \<longleftrightarrow> b' \<noteq> b \<and> allocated sb c b'"
proof -
  have e: "b' = b \<longleftrightarrow> BBLOCK b' sb = BBLOCK b sb \<and> b' mod BPB = b mod BPB"
    unfolding BBLOCK_def by (metis add_right_cancel div_mult_mod_eq)
  have "bi div 8 < length (c (BBLOCK b sb))" using assms by simp
  then show "allocated sb (c(BBLOCK b sb := bm_set bi (c (BBLOCK b sb)))) b' \<longleftrightarrow> b' = b \<or> allocated sb c b'"
    "allocated sb (c(BBLOCK b sb := bm_clear bi (c (BBLOCK b sb)))) b' \<longleftrightarrow> b' \<noteq> b \<and> allocated sb c b'"
    using assms(2) e by (auto simp: allocated_def bm_test_set bm_test_clear)
qed

lemma bzero_spec:
  assumes inv: "log_inv s" and nr: "b \<notin> log_region s" and ok: "bzero 1 b s = Ok u s'"
  shows "updated {b} s s'" "content s' b = replicate BSIZE 0"
proof -
  from ok obtain i s1 v s2 where "bread 1 b s = Ok i s1" "log_write i (upd_data i (\<lambda>_. replicate BSIZE 0) s1) = Ok v s2"
      "brelse i s2 = Ok u s'"
    by (auto simp: bzero_def on_eq_Ok)
  from modify_spec [OF inv this(1) nr _ this(2,3)]
  show "updated {b} s s'" "content s' b = replicate BSIZE 0" by simp_all
qed

lemma fs_inv_cong:
  assumes "fs_inv s" "log_inv s'" "log_rest s s'" "\<And>b. b < datastart (fsb s) \<Longrightarrow> allocated (fsb s) (content s') b"
  shows "fs_inv s'"
  using assms log_restD [OF assms(3)] log_rest_fsst [OF assms(3)] by (simp add: fs_inv_def)

lemma allocated_cong:
  "(\<And>c. unat (sb_bmapstart sb) \<le> c \<Longrightarrow> c \<le> BBLOCK b sb \<Longrightarrow> c' c = d c) \<Longrightarrow> allocated sb c' b = allocated sb d b"
  by (simp add: allocated_def BBLOCK_def)

text \<open>What \<^verbatim>\<open>balloc\<close> promises: the block was free and lies in the data area, it is now marked and
  zeroed, and nothing else has changed.\<close>

definition balloc_post :: "nat \<Rightarrow> 'a fsst_scheme \<Rightarrow> 'a fsst_scheme \<Rightarrow> bool" where
  "balloc_post b s s' \<longleftrightarrow>
     datastart (fsb s) \<le> b \<and> b < unat (sb_size (fsb s)) \<and> \<not> allocated (fsb s) (content s) b \<and>
     fs_inv s' \<and> updated {BBLOCK b (fsb s), b} s s' \<and> content s' b = replicate BSIZE 0 \<and>
     (\<forall>b'. b' < unat (sb_size (fsb s)) \<longrightarrow> allocated (fsb s) (content s') b' = (b' = b \<or> allocated (fsb s) (content s) b'))"

lemma balloc_found:
  assumes inv: "fs_inv s" and sz: "b0 + bi < unat (sb_size (fsb s))" "bi < BPB" "b0 mod BPB = 0"
    and br: "bread 1 (BBLOCK b0 (fsb s)) s = Ok i s1"
    and free: "\<not> bm_test bi (content s (BBLOCK b0 (fsb s)))"
    and lw: "log_write i (upd_data i (bm_set bi) s1) = Ok u s2" and rl: "brelse i s2 = Ok v s3"
    and z: "bzero 1 (b0 + bi) s3 = Ok w s'"
  shows "balloc_post (b0 + bi) s s'"
proof -
  let ?b = "b0 + bi" and ?sb = "fsb s"
  let ?m = "BBLOCK b0 ?sb"
  note I = fs_invD [OF inv] and L = region_bounds [OF inv]
  obtain q where "b0 = BPB * q" using sz(3) by auto
  then have m: "BBLOCK ?b ?sb = ?m" "?b mod BPB = bi"
    using sz(2) by (auto simp: BBLOCK_def)
  have nm: "?m \<notin> log_region s" using L(2) sz by simp
  have "length (bm_set bi (content s ?m)) = BSIZE" using length_content [OF I(5)] by simp
  from modify_spec [OF I(1) br nm this lw rl]
  have 1: "updated {?m} s s3" and c1: "content s3 ?m = bm_set bi (content s ?m)" by simp_all
  have c: "content s3 = (content s)(?m := bm_set bi (content s ?m))"
    using updatedD(8) [OF 1] c1 by (auto simp: fun_eq_iff)
  have fr: "\<not> allocated ?sb (content s) ?b" using free m by (simp add: allocated_def)
  then have ds: "datastart ?sb \<le> ?b" using I(4) by (meson not_le)
  have al: "allocated ?sb (content s3) b' \<longleftrightarrow> b' = ?b \<or> allocated ?sb (content s) b'" for b'
    using allocated_upd(1) [of bi ?b "content s" ?sb b'] m sz(2) length_content [OF I(5)] c by simp
  have nb: "?b \<notin> log_region s3" using L(4) [OF ds] updatedD(12) [OF 1] by simp
  note Z = bzero_spec [OF updatedD(1) [OF 1] nb z]
  have u: "updated {BBLOCK ?b ?sb, ?b} s s'" using updated_trans [OF 1 Z(1)] m by (simp add: insert_commute)
  have al': "allocated ?sb (content s') b' \<longleftrightarrow> b' = ?b \<or> allocated ?sb (content s) b'" if "b' < unat (sb_size ?sb)" for b'
  proof -
    have "BBLOCK b' ?sb < datastart ?sb" using L(3) that by simp
    then have "BBLOCK b' ?sb \<noteq> ?b" using ds by simp
    then have "content s' (BBLOCK b' ?sb) = content s3 (BBLOCK b' ?sb)" using updatedD(8) [OF Z(1)] by simp
    then show ?thesis using al by (simp add: allocated_def)
  qed
  have "datastart ?sb \<le> unat (sb_size ?sb)" using I(2) by (simp add: sb_ok_def)
  then have "fs_inv s'"
    using I(4) al' by (intro fs_inv_cong [OF inv updatedD(1,6) [OF u]]) auto
  with ds sz(1) fr u Z(2) al' show ?thesis by (simp add: balloc_post_def)
qed

lemma balloc_post_start:
  assumes u: "updated {} s t" and p: "balloc_post b t s'" and c: "content t = content s"
  shows "balloc_post b s s'"
  using p updated_fsst [OF u] updated_trans [OF u, of "{BBLOCK b (fsb s), b}" s'] c
  by (simp add: balloc_post_def)

lemma fs_inv_read:
  assumes "fs_inv s" "updated {} s t"
  shows "fs_inv t" "content t = content s"
proof -
  show "content t = content s" using updatedD(8) [OF assms(2)] by auto
  then show "fs_inv t"
    using fs_invD(4) [OF assms(1)] by (intro fs_inv_cong [OF assms(1) updatedD(1,6) [OF assms(2)]]) simp
qed

lemma balloc_scan_spec:
  assumes "fs_inv s" "balloc_scan 1 bs s = Ok b s'"
    "\<And>b0. b0 \<in> set bs \<Longrightarrow> b0 mod BPB = 0 \<and> b0 < unat (sb_size (fsb s))"
  shows "balloc_post b s s'"
  using assms
proof (induction bs arbitrary: s)
  case (Cons b0 bs)
  note inv = Cons.prems(1)
  from Cons.prems(2) obtain i s1 where br: "bread 1 (BBLOCK b0 (fsb s)) s = Ok i s1"
    and r1: "(case first_index (\<lambda>bi. \<not> bm_test bi (b_data (buf s1 i))) (min BPB (unat (sb_size (fsb s1)) - b0)) of
       Some bi \<Rightarrow>
         on (log_write i (upd_data i (bm_set bi) s1)) (\<lambda>_ s.
         on (brelse i s) (\<lambda>_ s.
         on (bzero 1 (b0 + bi) s) (\<lambda>_ s.
         Ok (b0 + bi) s)))
     | None \<Rightarrow> on (brelse i s1) (\<lambda>_ s. balloc_scan 1 bs s)) = Ok b s'"
    unfolding balloc_scan.simps by (rule onE)
  note bi = fs_invD(5) [OF inv]
  have fsb1: "fsb s1 = fsb s" using log_rest_fsst [OF same_rest_log_rest [OF bread_spec(11) [OF bi br]]] by simp
  obtain t where t: "brelse i s1 = Ok () t" and T: "updated {} s t" "b_data (buf s1 i) = content s (BBLOCK b0 (fsb s))" "content t = content s"
    by (rule read_spec [OF fs_invD(1) [OF inv] br])
  show ?case
  proof (cases "first_index (\<lambda>bi. \<not> bm_test bi (b_data (buf s1 i))) (min BPB (unat (sb_size (fsb s1)) - b0))")
    case None
    with r1 t have "balloc_scan 1 bs t = Ok b s'" by simp
    then have p: "balloc_post b t s'"
      using Cons.IH [OF fs_inv_read(1) [OF inv T(1)]] Cons.prems(3) updated_fsst [OF T(1)] by simp
    show ?thesis by (rule balloc_post_start [OF T(1) p T(3)])
  next
    case (Some x)
    with r1 obtain v2 s2 v3 s3 v4 where "log_write i (upd_data i (bm_set x) s1) = Ok v2 s2" "brelse i s2 = Ok v3 s3"
        "bzero 1 (b0 + x) s3 = Ok v4 s'" and b: "b = b0 + x"
      by (auto simp: on_eq_Ok)
    moreover have "x < BPB" "b0 + x < unat (sb_size (fsb s))" "\<not> bm_test x (content s (BBLOCK b0 (fsb s)))"
      using Some T(2) fsb1 by (auto simp: first_index_Some)
    ultimately show ?thesis
      using balloc_found [OF inv _ _ _ br] Cons.prems(3) [of b0] by auto
  qed
qed simp

lemma balloc_spec:
  assumes "fs_inv s" "balloc 1 s = Ok b s'"
  shows "balloc_post b s s'"
proof (rule balloc_scan_spec [OF assms(1) assms(2) [unfolded balloc_def]])
  fix b0 assume "b0 \<in> set (map (\<lambda>k. k * BPB) [0..<(unat (sb_size (fsb s)) + (BPB - 1)) div BPB])"
  then obtain k where k: "b0 = k * BPB" "k < (unat (sb_size (fsb s)) + (BPB - 1)) div BPB" by auto
  then have "Suc k \<le> (unat (sb_size (fsb s)) + (BPB - 1)) div BPB" by simp
  then have "Suc k * BPB \<le> unat (sb_size (fsb s)) + (BPB - 1)"
    by (simp only: less_eq_div_iff_mult_less_eq)
  with k(1) show "b0 mod BPB = 0 \<and> b0 < unat (sb_size (fsb s))" by simp
qed

lemma bfree_spec:
  assumes inv: "fs_inv s" and ok: "bfree 1 b s = Ok u s'" and b: "datastart (fsb s) \<le> b" "b < unat (sb_size (fsb s))"
  shows "allocated (fsb s) (content s) b" "fs_inv s'" "updated {BBLOCK b (fsb s)} s s'"
    "allocated (fsb s) (content s') b' \<longleftrightarrow> b' \<noteq> b \<and> allocated (fsb s) (content s) b'"
proof -
  let ?m = "BBLOCK b (fsb s)"
  note I = fs_invD [OF inv] and L = region_bounds [OF inv]
  from ok obtain i s1 where br: "bread 1 ?m s = Ok i s1"
    and r1: "(let bi = b mod BPB in
     if \<not> bm_test bi (b_data (buf s1 i)) then Panic ''freeing free block''
     else on (log_write i (upd_data i (bm_clear bi) s1)) (\<lambda>_ s. brelse i s)) = Ok u s'"
    unfolding bfree_def by (rule onE)
  have "b_data (buf s1 i) = content s ?m" by (rule bread_spec(3) [OF I(5) br])
  with r1 have t: "bm_test (b mod BPB) (content s ?m)"
    and "\<exists>v s2. log_write i (upd_data i (bm_clear (b mod BPB)) s1) = Ok v s2 \<and> brelse i s2 = Ok u s'"
    by (auto simp: Let_def on_eq_Ok split: if_splits)
  then obtain v s2 where lw: "log_write i (upd_data i (bm_clear (b mod BPB)) s1) = Ok v s2" and rl: "brelse i s2 = Ok u s'" by blast
  from t show "allocated (fsb s) (content s) b" by (simp add: allocated_def)
  have nm: "?m \<notin> log_region s" using L(2) b by simp
  have "length (bm_clear (b mod BPB) (content s ?m)) = BSIZE" using length_content [OF I(5)] by simp
  note M = modify_spec [OF I(1) br nm this lw rl]
  show "updated {?m} s s'" by (rule M)
  have c: "content s' = (content s)(?m := bm_clear (b mod BPB) (content s ?m))"
    using updatedD(8) [OF M(1)] M(2) by (auto simp: fun_eq_iff)
  show al: "allocated (fsb s) (content s') b' \<longleftrightarrow> b' \<noteq> b \<and> allocated (fsb s) (content s) b'" for b'
    using allocated_upd(2) [of "b mod BPB" b "content s" "fsb s" b'] length_content [OF I(5)] c by simp
  show "fs_inv s'"
    using I(4) al b by (intro fs_inv_cong [OF inv updatedD(1,6) [OF M(1)]]) auto
qed

end
