(* ===== verification/Fs_Inode.thy ===== *)
theory Fs_Inode
  imports Fs_Block
begin

text \<open>
  Inodes (\<^verbatim>\<open>system/storage/fs.c\<close>): the on-disk \<^verbatim>\<open>struct dinode\<close>, the cache of in-memory
  inodes with its reference counts and locks, and the block map of a file. A \<^verbatim>\<open>struct inode*\<close>
  is an index into the cache.
\<close>

section \<open>On-disk inodes\<close>

record dinode =
  di_type :: u16
  di_major :: u16
  di_minor :: u16
  di_nlink :: u16
  di_size :: u32
  di_addrs :: "u32 list"

text \<open>\<^verbatim>\<open>(struct dinode*)bp->data + inum%IPB\<close>\<close>

definition di_off :: "nat \<Rightarrow> nat" where
  "di_off inum = 64 * (inum mod IPB)"

definition dinode_get :: "nat \<Rightarrow> byte list \<Rightarrow> dinode" where
  "dinode_get off d = \<lparr>di_type = get16 d off, di_major = get16 d (off + 2), di_minor = get16 d (off + 4),
     di_nlink = get16 d (off + 6), di_size = get32 d (off + 8),
     di_addrs = map (\<lambda>k. get32 d (off + 12 + 4 * k)) [0..<NDIRECT + 1]\<rparr>"

definition dinode_put :: "nat \<Rightarrow> dinode \<Rightarrow> byte list \<Rightarrow> byte list" where
  "dinode_put off di d =
     fold (\<lambda>k. put32 (off + 12 + 4 * k) (di_addrs di ! k)) [0..<NDIRECT + 1]
       (put32 (off + 8) (di_size di) (put16 (off + 6) (di_nlink di)
         (put16 (off + 4) (di_minor di) (put16 (off + 2) (di_major di) (put16 off (di_type di) d)))))"

definition inode_load :: "dinode \<Rightarrow> inode \<Rightarrow> inode" where
  "inode_load di ip = ip\<lparr>i_type := di_type di, i_major := di_major di, i_minor := di_minor di,
     i_nlink := di_nlink di, i_size := di_size di, i_addrs := di_addrs di\<rparr>"

definition inode_dinode :: "inode \<Rightarrow> dinode" where
  "inode_dinode ip = \<lparr>di_type = i_type ip, di_major = i_major ip, di_minor = i_minor ip,
     di_nlink = i_nlink ip, di_size = i_size ip, di_addrs = i_addrs ip\<rparr>"

section \<open>The inode cache\<close>

abbreviation inode :: "'a fsst_scheme \<Rightarrow> nat \<Rightarrow> inode" where
  "inode s ip \<equiv> icache s ! ip"

definition upd_inode :: "nat \<Rightarrow> (inode \<Rightarrow> inode) \<Rightarrow> 'a fsst_scheme \<Rightarrow> 'a fsst_scheme" where
  "upd_inode ip f s = s\<lparr>icache := (icache s)[ip := f (inode s ip)]\<rparr>"

definition iinit :: "nat \<Rightarrow> 'a fsst_scheme \<Rightarrow> ('a fsst_scheme, unit) outcome" where
  "iinit dev s =
     on (readsb dev (s\<lparr>icache := map (\<lambda>ip. ip\<lparr>i_lock := initsleeplock\<rparr>) (icache s)\<rparr>)) (\<lambda>sb s.
     Ok () (s\<lparr>fsb := sb\<rparr>))"

definition iget :: "nat \<Rightarrow> nat \<Rightarrow> 'a fsst_scheme \<Rightarrow> ('a fsst_scheme, nat) outcome" where
  "iget dev inum s =
     (case first_index (\<lambda>ip. i_ref (inode s ip) > 0 \<and> i_dev (inode s ip) = dev \<and> i_inum (inode s ip) = inum) NINODE of
        Some ip \<Rightarrow> Ok ip (upd_inode ip (\<lambda>i. i\<lparr>i_ref := i_ref i + 1\<rparr>) s)
      | None \<Rightarrow>
          (case first_index (\<lambda>ip. i_ref (inode s ip) = 0) NINODE of
             None \<Rightarrow> Panic ''iget: no inodes''
           | Some ip \<Rightarrow> Ok ip (upd_inode ip (\<lambda>i. i\<lparr>i_dev := dev, i_inum := inum, i_ref := 1, i_valid := False\<rparr>) s)))"

fun ialloc_scan :: "nat \<Rightarrow> u16 \<Rightarrow> nat list \<Rightarrow> 'a fsst_scheme \<Rightarrow> ('a fsst_scheme, nat) outcome" where
  "ialloc_scan dev ty [] s = Panic ''ialloc: no inodes''"
| "ialloc_scan dev ty (inum # inums) s =
     on (bread dev (IBLOCK inum (fsb s)) s) (\<lambda>bp s.
     if get16 (b_data (buf s bp)) (di_off inum) = 0 then
       on (log_write bp (upd_data bp (\<lambda>d. put16 (di_off inum) ty (splice (di_off inum) (replicate 64 0) d)) s)) (\<lambda>_ s.
       on (brelse bp s) (\<lambda>_ s.
       iget dev inum s))
     else on (brelse bp s) (\<lambda>_ s. ialloc_scan dev ty inums s))"

definition ialloc :: "nat \<Rightarrow> u16 \<Rightarrow> 'a fsst_scheme \<Rightarrow> ('a fsst_scheme, nat) outcome" where
  "ialloc dev ty s = ialloc_scan dev ty [1..<unat (sb_ninodes (fsb s))] s"

definition iupdate :: "nat \<Rightarrow> 'a fsst_scheme \<Rightarrow> ('a fsst_scheme, unit) outcome" where
  "iupdate ip s =
     on (bread (i_dev (inode s ip)) (IBLOCK (i_inum (inode s ip)) (fsb s)) s) (\<lambda>bp s.
     on (log_write bp (upd_data bp (dinode_put (di_off (i_inum (inode s ip))) (inode_dinode (inode s ip))) s)) (\<lambda>_ s.
     brelse bp s))"

definition idup :: "nat \<Rightarrow> 'a fsst_scheme \<Rightarrow> 'a fsst_scheme" where
  "idup ip s = upd_inode ip (\<lambda>i. i\<lparr>i_ref := i_ref i + 1\<rparr>) s"

definition ilock :: "nat \<Rightarrow> 'a fsst_scheme \<Rightarrow> ('a fsst_scheme, unit) outcome" where
  "ilock ip s =
     (if i_ref (inode s ip) < 1 then Panic ''ilock''
      else
        on (acquiresleep (ChanInodeLock ip) (i_lock (inode s ip)) s) (\<lambda>lk s.
        let s = upd_inode ip (\<lambda>i. i\<lparr>i_lock := lk\<rparr>) s in
        if \<not> i_valid (inode s ip) then
          on (bread (i_dev (inode s ip)) (IBLOCK (i_inum (inode s ip)) (fsb s)) s) (\<lambda>bp s.
          let di = dinode_get (di_off (i_inum (inode s ip))) (b_data (buf s bp)) in
          on (brelse bp (upd_inode ip (inode_load di) s)) (\<lambda>_ s.
          let s = upd_inode ip (\<lambda>i. i\<lparr>i_valid := True\<rparr>) s in
          if i_type (inode s ip) = 0 then Panic ''ilock: no type'' else Ok () s))
        else Ok () s))"

definition unlock_inode :: "nat \<Rightarrow> 'a fsst_scheme \<Rightarrow> 'a fsst_scheme" where
  "unlock_inode ip s =
     (let (lk, s) = releasesleep (ChanInodeLock ip) (i_lock (inode s ip)) s
      in upd_inode ip (\<lambda>i. i\<lparr>i_lock := lk\<rparr>) s)"

definition iunlock :: "nat \<Rightarrow> 'a fsst_scheme \<Rightarrow> ('a fsst_scheme, unit) outcome" where
  "iunlock ip s =
     (if \<not> holdingsleep (i_lock (inode s ip)) s \<or> i_ref (inode s ip) < 1 then Panic ''iunlock''
      else Ok () (unlock_inode ip s))"

section \<open>The block map\<close>

text \<open>\<^verbatim>\<open>if((addr = ip->addrs[k]) == 0) ip->addrs[k] = addr = balloc(ip->dev)\<close>\<close>

definition bmap_slot :: "nat \<Rightarrow> nat \<Rightarrow> 'a fsst_scheme \<Rightarrow> ('a fsst_scheme, nat) outcome" where
  "bmap_slot ip k s =
     (if i_addrs (inode s ip) ! k = 0 then
        on (balloc (i_dev (inode s ip)) s) (\<lambda>addr s.
        Ok addr (upd_inode ip (\<lambda>i. i\<lparr>i_addrs := (i_addrs i)[k := of_nat addr]\<rparr>) s))
      else Ok (unat (i_addrs (inode s ip) ! k)) s)"

text \<open>Entry \<open>j\<close> of the indirect block at \<open>addr\<close>, allocating the block it names if there is none.\<close>

definition bmap_entry :: "nat \<Rightarrow> nat \<Rightarrow> nat \<Rightarrow> 'a fsst_scheme \<Rightarrow> ('a fsst_scheme, nat) outcome" where
  "bmap_entry ip j addr s =
     on (bread (i_dev (inode s ip)) addr s) (\<lambda>bp s.
     let a = get32 (b_data (buf s bp)) (4 * j) in
     on (if a = 0 then
           on (balloc (i_dev (inode s ip)) s) (\<lambda>addr s.
           on (log_write bp (upd_data bp (put32 (4 * j) (of_nat addr)) s)) (\<lambda>_ s.
           Ok addr s))
         else Ok (unat a) s) (\<lambda>addr s.
     on (brelse bp s) (\<lambda>_ s.
     Ok addr s)))"

definition bmap :: "nat \<Rightarrow> nat \<Rightarrow> 'a fsst_scheme \<Rightarrow> ('a fsst_scheme, nat) outcome" where
  "bmap ip bn s =
     (if bn < NDIRECT then bmap_slot ip bn s
      else if bn - NDIRECT < NINDIRECT then
        on (bmap_slot ip NDIRECT s) (\<lambda>addr s. bmap_entry ip (bn - NDIRECT) addr s)
      else Panic ''bmap: out of range'')"

definition itrunc_direct :: "nat \<Rightarrow> nat \<Rightarrow> 'a fsst_scheme \<Rightarrow> ('a fsst_scheme, unit) outcome" where
  "itrunc_direct ip k s =
     (if i_addrs (inode s ip) ! k \<noteq> 0 then
        on (bfree (i_dev (inode s ip)) (unat (i_addrs (inode s ip) ! k)) s) (\<lambda>_ s.
        Ok () (upd_inode ip (\<lambda>i. i\<lparr>i_addrs := (i_addrs i)[k := 0]\<rparr>) s))
      else Ok () s)"

definition itrunc_entry :: "nat \<Rightarrow> nat \<Rightarrow> nat \<Rightarrow> 'a fsst_scheme \<Rightarrow> ('a fsst_scheme, unit) outcome" where
  "itrunc_entry ip bp j s =
     (let a = get32 (b_data (buf s bp)) (4 * j) in
      if a \<noteq> 0 then bfree (i_dev (inode s ip)) (unat a) s else Ok () s)"

definition itrunc :: "nat \<Rightarrow> 'a fsst_scheme \<Rightarrow> ('a fsst_scheme, unit) outcome" where
  "itrunc ip s =
     on (loop (itrunc_direct ip) [0..<NDIRECT] s) (\<lambda>_ s.
     on (if i_addrs (inode s ip) ! NDIRECT \<noteq> 0 then
           on (bread (i_dev (inode s ip)) (unat (i_addrs (inode s ip) ! NDIRECT)) s) (\<lambda>bp s.
           on (loop (itrunc_entry ip bp) [0..<NINDIRECT] s) (\<lambda>_ s.
           on (brelse bp s) (\<lambda>_ s.
           on (bfree (i_dev (inode s ip)) (unat (i_addrs (inode s ip) ! NDIRECT)) s) (\<lambda>_ s.
           Ok () (upd_inode ip (\<lambda>i. i\<lparr>i_addrs := (i_addrs i)[NDIRECT := 0]\<rparr>) s)))))
         else Ok () s) (\<lambda>_ s.
     iupdate ip (upd_inode ip (\<lambda>i. i\<lparr>i_size := 0\<rparr>) s)))"

definition iput :: "nat \<Rightarrow> 'a fsst_scheme \<Rightarrow> ('a fsst_scheme, unit) outcome" where
  "iput ip s =
     on (acquiresleep (ChanInodeLock ip) (i_lock (inode s ip)) s) (\<lambda>lk s.
     let s = upd_inode ip (\<lambda>i. i\<lparr>i_lock := lk\<rparr>) s in
     on (if i_valid (inode s ip) \<and> i_nlink (inode s ip) = 0 \<and> i_ref (inode s ip) = 1 then
           on (itrunc ip s) (\<lambda>_ s.
           on (iupdate ip (upd_inode ip (\<lambda>i. i\<lparr>i_type := 0\<rparr>) s)) (\<lambda>_ s.
           Ok () (upd_inode ip (\<lambda>i. i\<lparr>i_valid := False\<rparr>) s)))
         else Ok () s) (\<lambda>_ s.
     Ok () (upd_inode ip (\<lambda>i. i\<lparr>i_ref := i_ref i - 1\<rparr>) (unlock_inode ip s))))"

definition iunlockput :: "nat \<Rightarrow> 'a fsst_scheme \<Rightarrow> ('a fsst_scheme, unit) outcome" where
  "iunlockput ip s = on (iunlock ip s) (\<lambda>_ s. iput ip s)"

record stat =
  st_type :: u16
  st_dev :: nat
  st_ino :: nat
  st_nlink :: u16
  st_size :: u32

definition stati :: "nat \<Rightarrow> 'a fsst_scheme \<Rightarrow> stat" where
  "stati ip s = \<lparr>st_type = i_type (inode s ip), st_dev = i_dev (inode s ip), st_ino = i_inum (inode s ip),
     st_nlink = i_nlink (inode s ip), st_size = i_size (inode s ip)\<rparr>"

end
