(* ===== verification/Ring.thy ===== *)
theory Ring
  imports Prelude
begin

text \<open>
  Circular byte buffers, which pipes (\<^verbatim>\<open>system/core/pipe.c\<close>) and the console input
  (\<^verbatim>\<open>system/devices/console.c\<close>) both use, and the interface of a bounded queue that they
  implement.
\<close>

section \<open>Circular buffers with free-running counters\<close>

text \<open>The bytes between the counters \<open>r\<close> and \<open>w\<close> of a buffer of size \<open>N\<close>; the counters run
  freely and wrap at \<open>2 ^ 32\<close>.\<close>

definition ring_elems :: "nat \<Rightarrow> byte list \<Rightarrow> u32 \<Rightarrow> u32 \<Rightarrow> byte list" where
  "ring_elems N buf r w = map (\<lambda>k. buf ! (unat (r + of_nat k) mod N)) [0..<unat (w - r)]"

lemma length_ring_elems [simp]: "length (ring_elems N buf r w) = unat (w - r)"
  by (simp add: ring_elems_def)

lemma ring_elems_empty [simp]: "ring_elems N buf r r = []"
  by (simp add: ring_elems_def)

lemma ring_elems_Nil_iff: "ring_elems N buf r w = [] \<longleftrightarrow> r = w"
  by (metis length_0_conv length_ring_elems ring_elems_empty right_minus_eq unat_eq_zero)

lemma unat_diff_add1:
  fixes r w :: u32
  assumes "unat (w - r) < 2 ^ 32 - 1"
  shows "unat (w + 1 - r) = Suc (unat (w - r))"
proof -
  have "w + 1 - r = (w - r) + 1" by (simp add: algebra_simps)
  then have "unat (w + 1 - r) = unat ((w - r) + 1)" by (simp only:)
  also have "\<dots> = Suc (unat (w - r))" using assms by (subst unat_word_ariths(1)) simp
  finally show ?thesis .
qed

lemma unat_mod_ring:
  fixes r :: u32
  assumes "N dvd 2 ^ 32"
  shows "unat (r + of_nat k) mod N = (unat r + k) mod N"
proof -
  have "unat (r + of_nat k) = (unat r + k) mod 2 ^ 32"
    by (simp add: unat_word_ariths unat_of_nat take_bit_eq_mod mod_simps)
  then show ?thesis using assms by (simp add: mod_mod_cancel)
qed

lemma ring_index_inj:
  fixes r :: u32
  assumes N: "N dvd 2 ^ 32" and "j < N" "k < N" "unat (r + of_nat j) mod N = unat (r + of_nat k) mod N"
  shows "j = k"
proof -
  have e: "(unat r + j) mod N = (unat r + k) mod N" using assms by (simp add: unat_mod_ring)
  show ?thesis
  proof (cases "j \<le> k")
    case True
    with e have "N dvd k - j" using mod_eq_dvd_iff_nat [of "unat r + j" "unat r + k" N] by simp
    with True assms(3) show ?thesis by (cases "k - j = 0") (auto dest: dvd_imp_le)
  next
    case False
    with e have "N dvd j - k" using mod_eq_dvd_iff_nat [of "unat r + k" "unat r + j" N] by simp
    with False assms(2) show ?thesis by (cases "j - k = 0") (auto dest: dvd_imp_le)
  qed
qed

lemma ring_put:
  fixes r w :: u32
  assumes N: "N dvd 2 ^ 32" "length buf = N" and room: "unat (w - r) < N" and big: "N < 2 ^ 32"
  shows "ring_elems N (buf[unat w mod N := x]) r (w + 1) = ring_elems N buf r w @ [x]"
proof -
  let ?n = "unat (w - r)"
  have w: "w = r + of_nat ?n" by simp
  have len: "unat (w + 1 - r) = Suc ?n" using room big by (intro unat_diff_add1) simp
  have "unat w mod N < N" using room by simp
  then have last: "buf[unat w mod N := x] ! (unat (r + of_nat ?n) mod N) = x"
    using N(2) by simp
  have "buf[unat w mod N := x] ! (unat (r + of_nat k) mod N) = buf ! (unat (r + of_nat k) mod N)" if "k < ?n" for k
  proof -
    have "unat (r + of_nat k) mod N \<noteq> unat (r + of_nat ?n) mod N"
      using ring_index_inj [OF N(1), of k ?n r] that room by auto
    then show ?thesis by (simp flip: w)
  qed
  then show ?thesis unfolding ring_elems_def len using last by simp
qed

lemma ring_get:
  fixes r w :: u32
  assumes "r \<noteq> w"
  shows "ring_elems N buf r w = buf ! (unat r mod N) # ring_elems N buf (r + 1) w"
proof -
  have "w - r \<noteq> 0" using assms by auto
  then have n: "unat (w - r) = Suc (unat (w - (r + 1)))"
    using unat_sub [of 1 "w - r"] unat_gt_0 [of "w - r"] by (simp add: word_le_nat_alt algebra_simps)
  show ?thesis unfolding ring_elems_def n
    by (simp add: upt_conv_Cons map_Suc_upt [symmetric] add.commute add.left_commute del: upt_Suc)
qed

lemma ring_unput:
  fixes r w :: u32
  assumes "r \<noteq> w"
  shows "ring_elems N buf r w = ring_elems N buf r (w - 1) @ [buf ! (unat (w - 1) mod N)]"
proof -
  have "w - r \<noteq> 0" using assms by auto
  then have n: "unat (w - r) = Suc (unat (w - 1 - r))"
    using unat_sub [of 1 "w - r"] unat_gt_0 [of "w - r"] by (simp add: word_le_nat_alt algebra_simps)
  have "r + of_nat (unat (w - 1 - r)) = w - 1" by simp
  then show ?thesis unfolding ring_elems_def n by simp
qed

section \<open>The interface of a bounded queue of bytes\<close>

locale byte_queue =
  fixes inv :: "'s \<Rightarrow> bool" and elems :: "'s \<Rightarrow> byte list" and cap :: nat
    and put :: "byte \<Rightarrow> 's \<Rightarrow> 's" and front :: "'s \<Rightarrow> byte" and pop :: "'s \<Rightarrow> 's"
    and is_empty :: "'s \<Rightarrow> bool" and is_full :: "'s \<Rightarrow> bool"
  assumes empty_iff: "inv s \<Longrightarrow> is_empty s \<longleftrightarrow> elems s = []"
    and full_iff: "inv s \<Longrightarrow> is_full s \<longleftrightarrow> length (elems s) = cap"
    and bounded: "inv s \<Longrightarrow> length (elems s) \<le> cap"
    and put_ok: "inv s \<Longrightarrow> \<not> is_full s \<Longrightarrow> inv (put x s) \<and> elems (put x s) = elems s @ [x]"
    and pop_ok: "inv s \<Longrightarrow> \<not> is_empty s \<Longrightarrow> inv (pop s) \<and> elems s = front s # elems (pop s)"
begin

text \<open>Storing a sequence that fits, one byte after the other.\<close>

lemma put_many:
  "inv s \<Longrightarrow> length (elems s) + length xs \<le> cap \<Longrightarrow> inv (fold put xs s) \<and> elems (fold put xs s) = elems s @ xs"
proof (induction xs arbitrary: s)
  case (Cons x xs)
  then have "\<not> is_full s" by (auto simp: full_iff)
  with Cons put_ok [of s x] show ?case by auto
qed simp

text \<open>Taking \<open>n\<close> bytes out gives the first \<open>n\<close> that are in.\<close>

lemma pop_many:
  "inv s \<Longrightarrow> n \<le> length (elems s) \<Longrightarrow> inv ((pop ^^ n) s) \<and> elems ((pop ^^ n) s) = drop n (elems s)"
proof (induction n)
  case (Suc n)
  then have IH: "inv ((pop ^^ n) s)" "elems ((pop ^^ n) s) = drop n (elems s)" by auto
  with Suc.prems have "\<not> is_empty ((pop ^^ n) s)" by (auto simp: empty_iff)
  from pop_ok [OF IH(1) this] IH(2) show ?case
    by (metis drop_Suc funpow.simps(2) list.sel(3) o_apply tl_drop)
qed simp

lemma front_hd: "inv s \<Longrightarrow> \<not> is_empty s \<Longrightarrow> front s = hd (elems s)"
  using pop_ok [of s] by (metis list.sel(1))

end

end
