(* ===== verification/Printing.thy ===== *)
theory Printing
  imports Prelude
begin

text \<open>
  The formatting of \<^verbatim>\<open>cprintf\<close> in the kernel (\<^verbatim>\<open>system/devices/console.c\<close>) and of
  \<^verbatim>\<open>printf\<close> in the user library (\<^verbatim>\<open>user/lib/printf.c\<close>): the characters they emit, as
  functions of the format, of the argument words on the stack and of the strings in memory.
  Characters are bytes: 37 is \<^verbatim>\<open>%\<close>, 45 is \<^verbatim>\<open>-\<close>, 99, 100, 112, 115 and 120 are
  \<^verbatim>\<open>c\<close>, \<^verbatim>\<open>d\<close>, \<^verbatim>\<open>p\<close>, \<^verbatim>\<open>s\<close> and \<^verbatim>\<open>x\<close>.
\<close>

section \<open>Numbers\<close>

text \<open>\<^verbatim>\<open>digits[d]\<close>; the kernel's table has lower case letters, the user library's upper case.\<close>

definition digit :: "bool \<Rightarrow> nat \<Rightarrow> byte" where
  "digit upper d = of_nat (if d < 10 then 48 + d else if upper then 55 + d else 87 + d)"

text \<open>The \<^verbatim>\<open>do\<close> loop, least significant digit first. The callers pass base 10 or 16; a base
  below 2 never gets past the first digit here.\<close>

function digits_rev :: "bool \<Rightarrow> nat \<Rightarrow> nat \<Rightarrow> byte list" where
  "digits_rev upper base x =
     digit upper (x mod base) # (if x div base = 0 \<or> base < 2 then [] else digits_rev upper base (x div base))"
  by pat_completeness auto
termination
  by (relation "measure (\<lambda>(_, _, x). x)") (auto intro!: div_less_dividend simp: div_greater_zero_iff)

declare digits_rev.simps [simp del]

text \<open>The negation of the smallest number, which C leaves undefined, is that of the machine.\<close>

definition printint :: "bool \<Rightarrow> u32 \<Rightarrow> nat \<Rightarrow> bool \<Rightarrow> byte list" where
  "printint upper xx base sign =
     (let neg = (sign \<and> sint xx < 0);
          x = (if neg then - xx else xx);
          buf = digits_rev upper base (unat x) @ (if neg then [45] else [])
      in rev buf)"

section \<open>Formats\<close>

definition null_str :: "byte list" where
  "null_str = [40, 110, 117, 108, 108, 41]"

text \<open>\<open>args k\<close> is the \<open>k\<close>-th argument word, \<open>str p\<close> the string at address \<open>p\<close>.\<close>

fun cprintf_chars :: "(u32 \<Rightarrow> byte list) \<Rightarrow> (nat \<Rightarrow> u32) \<Rightarrow> nat \<Rightarrow> byte list \<Rightarrow> byte list" where
  "cprintf_chars str args k [] = []"
| "cprintf_chars str args k (c # fmt) =
     (if c \<noteq> 37 then c # cprintf_chars str args k fmt
      else (case fmt of
              [] \<Rightarrow> []
            | d # fmt' \<Rightarrow>
                if d = 100 then printint False (args k) 10 True @ cprintf_chars str args (k + 1) fmt'
                else if d = 120 \<or> d = 112 then printint False (args k) 16 False @ cprintf_chars str args (k + 1) fmt'
                else if d = 115 then (if args k = 0 then null_str else str (args k)) @ cprintf_chars str args (k + 1) fmt'
                else if d = 37 then 37 # cprintf_chars str args k fmt'
                else 37 # d # cprintf_chars str args k fmt'))"

text \<open>The user library's version is a two-state machine over the format.\<close>

fun printf_chars :: "(u32 \<Rightarrow> byte list) \<Rightarrow> (nat \<Rightarrow> u32) \<Rightarrow> bool \<Rightarrow> nat \<Rightarrow> byte list \<Rightarrow> byte list" where
  "printf_chars str args pct k [] = []"
| "printf_chars str args pct k (c # fmt) =
     (if \<not> pct then
        if c = 37 then printf_chars str args True k fmt
        else c # printf_chars str args False k fmt
      else if c = 100 then printint True (args k) 10 True @ printf_chars str args False (k + 1) fmt
      else if c = 120 \<or> c = 112 then printint True (args k) 16 False @ printf_chars str args False (k + 1) fmt
      else if c = 115 then (if args k = 0 then null_str else str (args k)) @ printf_chars str args False (k + 1) fmt
      else if c = 99 then ucast (args k) # printf_chars str args False (k + 1) fmt
      else if c = 37 then c # printf_chars str args False k fmt
      else 37 # c # printf_chars str args False k fmt)"

end
