(* ===== verification/Console.thy ===== *)
theory Console
  imports Fs_Inode Ring Printing
begin

text \<open>
  The console (\<^verbatim>\<open>system/devices/console.c\<close>, \<^verbatim>\<open>uartputc\<close> of \<^verbatim>\<open>system/devices/uart.c\<close>): the
  screen and the serial line for output, the line-edited input buffer, and the device
  functions that the file system calls for the console's inode. What has been sent to the
  serial line is kept as the list \<open>uart_out\<close>.
\<close>

section \<open>State\<close>

record cst = fsst +
  con_buf :: "byte list"
  con_r :: u32
  con_w :: u32
  con_e :: u32
  crt :: "nat \<Rightarrow> u16"
  crt_pos :: nat
  uart_on :: bool
  uart_out :: "byte list"
  dev_read :: "bool list"
  dev_write :: "bool list"

abbreviation (input) INPUT_BUF :: nat where "INPUT_BUF \<equiv> 128"
abbreviation (input) BACKSPACE :: nat where "BACKSPACE \<equiv> 256"
abbreviation (input) CONSOLE :: nat where "CONSOLE \<equiv> 1"

section \<open>Output\<close>

definition uartputc :: "byte \<Rightarrow> 'a cst_scheme \<Rightarrow> 'a cst_scheme" where
  "uartputc c s = (if \<not> uart_on s then s else s\<lparr>uart_out := uart_out s @ [c]\<rparr>)"

text \<open>The cell that shows character \<open>c\<close>: \<^verbatim>\<open>(c&0xff) | 0x0700\<close>.\<close>

definition crt_cell :: "nat \<Rightarrow> u16" where
  "crt_cell c = (of_nat c AND 0xFF) OR 0x0700"

text \<open>\<^verbatim>\<open>memmove(crt, crt+80, 23*80 cells)\<close> followed by clearing from the new position on.\<close>

definition crt_scroll :: "nat \<Rightarrow> (nat \<Rightarrow> u16) \<Rightarrow> nat \<Rightarrow> u16" where
  "crt_scroll pos m k =
     (if pos \<le> k \<and> k < 24 * 80 then 0 else if k < 23 * 80 then m (k + 80) else m k)"

definition cga_move :: "nat \<Rightarrow> nat \<Rightarrow> (nat \<Rightarrow> u16) \<Rightarrow> nat \<times> (nat \<Rightarrow> u16)" where
  "cga_move c pos m =
     (if c = 10 then (pos + (80 - pos mod 80), m)
      else if c = BACKSPACE then (if pos > 0 then pos - 1 else pos, m)
      else (pos + 1, m(pos := crt_cell c)))"

definition cga_wrap :: "nat \<Rightarrow> (nat \<Rightarrow> u16) \<Rightarrow> nat \<times> (nat \<Rightarrow> u16)" where
  "cga_wrap pos m = (if pos div 80 \<ge> 24 then (pos - 80, crt_scroll (pos - 80) m) else (pos, m))"

definition cgaputc :: "nat \<Rightarrow> 'a cst_scheme \<Rightarrow> ('a cst_scheme, unit) outcome" where
  "cgaputc c s =
     (let (pos, m) = cga_move c (crt_pos s) (crt s)
      in if pos > 25 * 80 then Panic ''pos under/overflow''
         else
           (let (pos, m) = cga_wrap pos m
            in Ok () (s\<lparr>crt_pos := pos, crt := m(pos := 0x0720)\<rparr>)))"

definition consputc :: "nat \<Rightarrow> 'a cst_scheme \<Rightarrow> ('a cst_scheme, unit) outcome" where
  "consputc c s =
     cgaputc c (if c = BACKSPACE then uartputc 8 (uartputc 32 (uartputc 8 s)) else uartputc (of_nat c) s)"

definition cprintf :: "(u32 \<Rightarrow> byte list) \<Rightarrow> (nat \<Rightarrow> u32) \<Rightarrow> byte list \<Rightarrow> 'a cst_scheme \<Rightarrow> ('a cst_scheme, unit) outcome" where
  "cprintf str args fmt s = loop (\<lambda>c. consputc (unat c)) (cprintf_chars str args 0 fmt) s"

section \<open>Input\<close>

text \<open>\<^verbatim>\<open>input.buf[input.e++ % INPUT_BUF] = c\<close> and \<^verbatim>\<open>c = input.buf[input.r++ % INPUT_BUF]\<close>\<close>

definition con_put :: "byte \<Rightarrow> 'a cst_scheme \<Rightarrow> 'a cst_scheme" where
  "con_put c s = s\<lparr>con_buf := (con_buf s)[unat (con_e s) mod INPUT_BUF := c], con_e := con_e s + 1\<rparr>"

definition con_front :: "'a cst_scheme \<Rightarrow> byte" where
  "con_front s = con_buf s ! (unat (con_r s) mod INPUT_BUF)"

definition con_pop :: "'a cst_scheme \<Rightarrow> 'a cst_scheme" where
  "con_pop s = s\<lparr>con_r := con_r s + 1\<rparr>"

lemma uartputc_frame [simp]:
  "con_buf (uartputc c s) = con_buf s" "con_r (uartputc c s) = con_r s" "con_w (uartputc c s) = con_w s"
  "con_e (uartputc c s) = con_e s" "crt (uartputc c s) = crt s" "crt_pos (uartputc c s) = crt_pos s"
  by (simp_all add: uartputc_def)

lemma cgaputc_frame:
  assumes "cgaputc c s = Ok u s'"
  obtains p m where "s' = s\<lparr>crt_pos := p, crt := m\<rparr>"
  using assms unfolding cgaputc_def Let_def by (auto split: if_splits prod.splits)

lemma consputc_frame:
  assumes "consputc c s = Ok u s'"
  shows "con_buf s' = con_buf s" "con_r s' = con_r s" "con_w s' = con_w s" "con_e s' = con_e s"
  using assms unfolding consputc_def by (auto elim!: cgaputc_frame)

text \<open>\<^verbatim>\<open>case C('U')\<close>: erase back to the start of the line.\<close>

function kill_line :: "'a cst_scheme \<Rightarrow> ('a cst_scheme, unit) outcome" where
  "kill_line s =
     (if con_e s \<noteq> con_w s \<and> con_buf s ! (unat (con_e s - 1) mod INPUT_BUF) \<noteq> 10 then
        on (consputc BACKSPACE (s\<lparr>con_e := con_e s - 1\<rparr>)) (\<lambda>_ s. kill_line s)
      else Ok () s)"
  by pat_completeness auto
termination
proof (relation "measure (\<lambda>s. unat (con_e s - con_w s))")
  fix s :: "'a cst_scheme" and a t
  assume h: "con_e s \<noteq> con_w s \<and> con_buf s ! (unat (con_e s - 1) mod INPUT_BUF) \<noteq> 10"
    and ok: "consputc BACKSPACE (s\<lparr>con_e := con_e s - 1\<rparr>) = Ok a t"
  have "con_e s - con_w s \<noteq> 0" using h by simp
  then have "unat (con_e s - con_w s) = Suc (unat (con_e s - 1 - con_w s))"
    using unat_sub [of 1 "con_e s - con_w s"] unat_gt_0 [of "con_e s - con_w s"]
    by (simp add: word_le_nat_alt algebra_simps)
  then show "(t, s) \<in> measure (\<lambda>s. unat (con_e s - con_w s))"
    using consputc_frame [OF ok] by simp
qed simp

declare kill_line.simps [simp del]

text \<open>One character of \<^verbatim>\<open>consoleintr\<close>: control-P (16) asks for a process listing, control-U (21)
  kills the line, control-H (8) and delete (127) erase one character.\<close>

definition consoleintr_char :: "nat \<Rightarrow> 'a cst_scheme \<Rightarrow> ('a cst_scheme, unit) outcome" where
  "consoleintr_char c s =
     (if c = 16 then Ok () s
      else if c = 21 then kill_line s
      else if c = 8 \<or> c = 127 then
        (if con_e s \<noteq> con_w s then consputc BACKSPACE (s\<lparr>con_e := con_e s - 1\<rparr>) else Ok () s)
      else if c \<noteq> 0 \<and> unat (con_e s - con_r s) < INPUT_BUF then
        (let c = (if c = 13 then 10 else c) in
         on (consputc c (con_put (of_nat c) s)) (\<lambda>_ s.
         Ok () (if c = 10 \<or> c = 4 \<or> con_e s = con_r s + of_nat INPUT_BUF
                then wakeup ChanInput (s\<lparr>con_w := con_e s\<rparr>) else s)))
      else Ok () s)"

text \<open>\<^verbatim>\<open>consoleintr(getc)\<close> for the characters that \<^verbatim>\<open>getc\<close> returns before its first negative
  result; the flag is \<^verbatim>\<open>doprocdump\<close>.\<close>

definition consoleintr :: "nat list \<Rightarrow> 'a cst_scheme \<Rightarrow> ('a cst_scheme, bool) outcome" where
  "consoleintr cs s = on (loop consoleintr_char cs s) (\<lambda>_ s. Ok (16 \<in> set cs) s)"

section \<open>The device functions\<close>

text \<open>The loop of \<^verbatim>\<open>consoleread\<close> with \<open>n\<close> bytes still wanted out of \<open>target\<close>; the flag is false if
  the process was killed while waiting, the list is what has been stored at \<^verbatim>\<open>dst\<close>.\<close>

fun consoleread_loop :: "nat \<Rightarrow> nat \<Rightarrow> byte list \<Rightarrow> 'a cst_scheme \<Rightarrow> ('a cst_scheme, bool \<times> byte list) outcome" where
  "consoleread_loop target 0 dst s = Ok (True, dst) s"
| "consoleread_loop target (Suc n) dst s =
     (if con_r s = con_w s then
        if p_killed (myproc s) then Ok (False, dst) s else sleep ChanInput s
      else
        (let c = con_front s; s = con_pop s in
         if c = 4 then Ok (True, dst) (if Suc n < target then s\<lparr>con_r := con_r s - 1\<rparr> else s)
         else if c = 10 then Ok (True, dst @ [c]) s
         else consoleread_loop target n (dst @ [c]) s))"

text \<open>The result and the bytes stored at \<^verbatim>\<open>dst\<close>.\<close>

definition consoleread :: "nat \<Rightarrow> nat \<Rightarrow> 'a cst_scheme \<Rightarrow> ('a cst_scheme, int \<times> byte list) outcome" where
  "consoleread ip n s =
     on (iunlock ip s) (\<lambda>_ s.
     on (consoleread_loop n n [] s) (\<lambda>(live, dst) s.
     on (ilock ip s) (\<lambda>_ s.
     Ok (if live then int (length dst) else -1, dst) s)))"

definition consolewrite :: "nat \<Rightarrow> byte list \<Rightarrow> 'a cst_scheme \<Rightarrow> ('a cst_scheme, int) outcome" where
  "consolewrite ip src s =
     on (iunlock ip s) (\<lambda>_ s.
     on (loop (\<lambda>c. consputc (unat c)) src s) (\<lambda>_ s.
     on (ilock ip s) (\<lambda>_ s.
     Ok (int (length src)) s)))"

definition consoleinit :: "'a cst_scheme \<Rightarrow> 'a cst_scheme" where
  "consoleinit s = s\<lparr>dev_write := (dev_write s)[CONSOLE := True], dev_read := (dev_read s)[CONSOLE := True]\<rparr>"

end
