(* ===== verification/Strings.thy ===== *)
theory Strings
  imports Prelude
begin

text \<open>
  The kernel's string library (\<^verbatim>\<open>system/runtime/string.c\<close>). The block operations
  (\<^verbatim>\<open>memset\<close>, \<^verbatim>\<open>memmove\<close>, \<^verbatim>\<open>memcmp\<close>) work on a byte-addressed 32-bit memory, as the code does
  with pointers that wrap; the string operations work on the bytes from a pointer on, where
  the end of the list stands for the terminating zero byte.
\<close>

section \<open>Memory\<close>

type_synonym mem = "u32 \<Rightarrow> byte"

text \<open>The \<^verbatim>\<open>rep stosb\<close> and \<^verbatim>\<open>rep stosl\<close> loops of \<^verbatim>\<open>include/x86.h\<close>.\<close>

fun stosb :: "u32 \<Rightarrow> byte \<Rightarrow> nat \<Rightarrow> mem \<Rightarrow> mem" where
  "stosb a c 0 m = m"
| "stosb a c (Suc n) m = stosb (a + 1) c n (m(a := c))"

definition write32 :: "u32 \<Rightarrow> u32 \<Rightarrow> mem \<Rightarrow> mem" where
  "write32 a w m = m(a := byte_of 0 w, a + 1 := byte_of 1 w, a + 2 := byte_of 2 w, a + 3 := byte_of 3 w)"

definition read32 :: "mem \<Rightarrow> u32 \<Rightarrow> u32" where
  "read32 m a = le32 (m a) (m (a + 1)) (m (a + 2)) (m (a + 3))"

fun stosl :: "u32 \<Rightarrow> u32 \<Rightarrow> nat \<Rightarrow> mem \<Rightarrow> mem" where
  "stosl a w 0 m = m"
| "stosl a w (Suc n) m = stosl (a + 4) w n (write32 a w m)"

definition memset :: "u32 \<Rightarrow> u32 \<Rightarrow> nat \<Rightarrow> mem \<Rightarrow> mem" where
  "memset dst c n m =
     (if dst mod 4 = 0 \<and> n mod 4 = 0 then
        (let c = c AND 0xFF
         in stosl dst (push_bit 24 c OR push_bit 16 c OR push_bit 8 c OR c) (n div 4) m)
      else stosb dst (ucast c) n m)"

fun memcmp :: "u32 \<Rightarrow> u32 \<Rightarrow> nat \<Rightarrow> mem \<Rightarrow> int" where
  "memcmp s1 s2 0 m = 0"
| "memcmp s1 s2 (Suc n) m =
     (if m s1 \<noteq> m s2 then uint (m s1) - uint (m s2) else memcmp (s1 + 1) (s2 + 1) n m)"

text \<open>\<^verbatim>\<open>while(n-- > 0) *--d = *--s\<close> and \<^verbatim>\<open>while(n-- > 0) *d++ = *s++\<close>\<close>

fun copy_down :: "u32 \<Rightarrow> u32 \<Rightarrow> nat \<Rightarrow> mem \<Rightarrow> mem" where
  "copy_down d s 0 m = m"
| "copy_down d s (Suc n) m = copy_down (d - 1) (s - 1) n (m(d - 1 := m (s - 1)))"

fun copy_up :: "u32 \<Rightarrow> u32 \<Rightarrow> nat \<Rightarrow> mem \<Rightarrow> mem" where
  "copy_up d s 0 m = m"
| "copy_up d s (Suc n) m = copy_up (d + 1) (s + 1) n (m(d := m s))"

definition memmove :: "u32 \<Rightarrow> u32 \<Rightarrow> nat \<Rightarrow> mem \<Rightarrow> mem" where
  "memmove dst src n m =
     (if src < dst \<and> src + of_nat n > dst then copy_down (dst + of_nat n) (src + of_nat n) n m
      else copy_up dst src n m)"

definition memcpy :: "u32 \<Rightarrow> u32 \<Rightarrow> nat \<Rightarrow> mem \<Rightarrow> mem" where
  "memcpy dst src n m = memmove dst src n m"

section \<open>Strings\<close>

text \<open>\<^verbatim>\<open>*p\<close>\<close>

definition ch :: "byte list \<Rightarrow> byte" where
  "ch p = (case p of [] \<Rightarrow> 0 | c # _ \<Rightarrow> c)"

fun strncmp :: "byte list \<Rightarrow> byte list \<Rightarrow> nat \<Rightarrow> int" where
  "strncmp p q 0 = 0"
| "strncmp p q (Suc n) =
     (if ch p \<noteq> 0 \<and> ch p = ch q then strncmp (tl p) (tl q) n else uint (ch p) - uint (ch q))"

text \<open>The bytes that \<^verbatim>\<open>strncpy(s, t, n)\<close> and \<^verbatim>\<open>safestrcpy(s, t, n)\<close> store at \<open>s\<close>.\<close>

fun strncpy :: "byte list \<Rightarrow> nat \<Rightarrow> byte list" where
  "strncpy t 0 = []"
| "strncpy t (Suc n) = (if ch t \<noteq> 0 then ch t # strncpy (tl t) n else 0 # replicate n 0)"

fun safestrcpy_loop :: "byte list \<Rightarrow> nat \<Rightarrow> byte list" where
  "safestrcpy_loop t 0 = [0]"
| "safestrcpy_loop t (Suc n) = (if ch t \<noteq> 0 then ch t # safestrcpy_loop (tl t) n else [0, 0])"

definition safestrcpy :: "byte list \<Rightarrow> int \<Rightarrow> byte list" where
  "safestrcpy t n = (if n \<le> 0 then [] else safestrcpy_loop t (nat n - 1))"

fun strlen :: "byte list \<Rightarrow> nat" where
  "strlen [] = 0"
| "strlen (c # s) = (if c \<noteq> 0 then Suc (strlen s) else 0)"

text \<open>The string that starts at a pointer.\<close>

definition cstr :: "byte list \<Rightarrow> byte list" where
  "cstr p = takeWhile (\<lambda>c. c \<noteq> 0) p"

section \<open>What the block operations do\<close>

lemma unat_pred: "(y :: u32) \<noteq> 0 \<Longrightarrow> unat y = Suc (unat (y - 1))"
  using unat_sub [of 1 y] unat_gt_0 [of y] by (simp add: word_le_nat_alt)

lemma unat_step: "x \<noteq> a \<Longrightarrow> unat (x - a) = Suc (unat (x - (a + 1)))" for x a :: u32
  using unat_pred [of "x - a"] by (simp add: algebra_simps)

lemma unat_minus_1: "unat (- 1 :: u32) = 2 ^ 32 - 1"
  by (simp add: unsigned_minus_1_eq_mask mask_eq_exp_minus_1)

lemma unat_wrap: "unat (a - (a + 1)) = 2 ^ 32 - 1" for a :: u32
  by (simp add: unat_minus_1)

lemma stosb_spec: "n \<le> 2 ^ 32 \<Longrightarrow> stosb a c n m x = (if unat (x - a) < n then c else m x)"
proof (induction n arbitrary: a m)
  case (Suc n)
  show ?case
  proof (cases "x = a")
    case True
    with Suc unat_wrap [of a] show ?thesis by simp
  next
    case False
    with Suc unat_step [OF False] show ?thesis by simp
  qed
qed simp

lemma stosl_stosb:
  assumes "byte_of 0 w = c" "byte_of 1 w = c" "byte_of 2 w = c" "byte_of 3 w = c"
  shows "stosl a w k m = stosb a c (4 * k) m"
proof (induction k arbitrary: a m)
  case (Suc k)
  have "4 * Suc k = Suc (Suc (Suc (Suc (4 * k))))" by simp
  then have "stosb a c (4 * Suc k) m = stosb (a + 1 + 1 + 1 + 1) c (4 * k) (m(a := c, a + 1 := c, a + 1 + 1 := c, a + 1 + 1 + 1 := c))"
    by (simp only: stosb.simps)
  also have "\<dots> = stosb (a + 4) c (4 * k) (write32 a w m)"
    using assms by (simp add: write32_def algebra_simps)
  finally show ?case using Suc by simp
qed simp

lemma memset_bytes:
  fixes c :: u32
  defines "c' \<equiv> c AND 0xFF"
  defines "w \<equiv> push_bit 24 c' OR push_bit 16 c' OR push_bit 8 c' OR c'"
  shows "byte_of 0 w = ucast c" "byte_of 1 w = ucast c" "byte_of 2 w = ucast c" "byte_of 3 w = ucast c"
proof -
  have b: "bit c' n \<longleftrightarrow> bit c n \<and> n < 8" for n
  proof -
    have "c' = take_bit 8 c" unfolding c'_def by (simp add: take_bit_eq_mask mask_eq_exp_minus_1)
    then show ?thesis by (simp add: bit_take_bit_iff conj_commute)
  qed
  show "byte_of 0 w = ucast c" "byte_of 1 w = ucast c" "byte_of 2 w = ucast c" "byte_of 3 w = ucast c"
    by (rule bit_word_eqI, auto simp: byte_of_def w_def b bit_simps)+
qed

lemma memset_spec:
  assumes "n \<le> 2 ^ 32"
  shows "memset dst c n m x = (if unat (x - dst) < n then ucast c else m x)"
proof (cases "dst mod 4 = 0 \<and> n mod 4 = 0")
  case True
  then have "4 * (n div 4) = n" by auto
  with True assms show ?thesis
    using stosl_stosb [OF memset_bytes] by (simp add: memset_def Let_def stosb_spec)
next
  case False
  with assms show ?thesis by (auto simp: memset_def stosb_spec)
qed

lemma copy_up_spec:
  assumes "n \<le> 2 ^ 32" "d = s \<or> n \<le> unat (d - s)"
  shows "copy_up d s n m x = (if unat (x - d) < n then m (s + (x - d)) else m x)"
  using assms
proof (induction n arbitrary: d s m)
  case (Suc n)
  have IH: "copy_up (d + 1) (s + 1) n (m(d := m s)) x =
      (if unat (x - (d + 1)) < n then (m(d := m s)) (s + 1 + (x - (d + 1))) else (m(d := m s)) x)"
    using Suc.prems by (intro Suc.IH) auto
  show ?case
  proof (cases "x = d")
    case True
    with IH unat_wrap [of d] Suc.prems(1) show ?thesis by simp
  next
    case False
    note st = unat_step [OF False]
    have e: "s + 1 + (x - (d + 1)) = s + (x - d)" by (simp add: algebra_simps)
    have "s + (x - d) \<noteq> d \<or> d = s" if "unat (x - d) < Suc n"
    proof (rule ccontr)
      assume "\<not> ?thesis"
      then have "x - d = d - s" "d \<noteq> s" by (auto simp: algebra_simps)
      with that Suc.prems(2) show False by simp
    qed
    with IH st e False show ?thesis by auto
  qed
qed simp

lemma copy_down_spec:
  assumes "n \<le> 2 ^ 32" "d = s \<or> n \<le> unat (s - d)"
  shows "copy_down d s n m x = (if unat (d - 1 - x) < n then m (s - 1 - (d - 1 - x)) else m x)"
  using assms
proof (induction n arbitrary: d s m)
  case (Suc n)
  have IH: "copy_down (d - 1) (s - 1) n (m(d - 1 := m (s - 1))) x =
      (if unat (d - 1 - 1 - x) < n then (m(d - 1 := m (s - 1))) (s - 1 - 1 - (d - 1 - 1 - x)) else (m(d - 1 := m (s - 1))) x)"
    using Suc.prems by (intro Suc.IH) auto
  show ?case
  proof (cases "x = d - 1")
    case True
    then have "unat (d - 1 - 1 - x) = 2 ^ 32 - 1" by (simp add: unat_minus_1)
    with IH True Suc.prems(1) show ?thesis by simp
  next
    case False
    then have "d - 1 - x \<noteq> 0" by auto
    from unat_pred [OF this] have st: "unat (d - 1 - x) = Suc (unat (d - 1 - 1 - x))" by (simp add: algebra_simps)
    have e: "s - 1 - 1 - (d - 1 - 1 - x) = s - 1 - (d - 1 - x)" by (simp add: algebra_simps)
    have "s - 1 - (d - 1 - x) \<noteq> d - 1 \<or> d = s" if "unat (d - 1 - x) < Suc n"
    proof (rule ccontr)
      assume "\<not> ?thesis"
      then have "d - 1 - x = s - d" "d \<noteq> s" by (auto simp: algebra_simps)
      with that Suc.prems(2) show False by simp
    qed
    with IH st e False show ?thesis by auto
  qed
qed simp

lemma unat_mirror:
  fixes k N :: u32
  assumes "unat N = n - 1" "0 < n"
  shows "unat (N - k) < n \<longleftrightarrow> unat k < n"
proof -
  have "unat k < 2 ^ 32" using unsigned_less [of k] by simp
  with assms show ?thesis by (auto simp: unat_sub_if_size word_le_nat_alt word_size)
qed

text \<open>\<^verbatim>\<open>memmove\<close> copies as if through a temporary buffer, however the two areas overlap.\<close>

lemma memmove_spec:
  assumes "unat src + n < 2 ^ 32" "unat dst + n < 2 ^ 32"
  shows "memmove dst src n m x = (if unat (x - dst) < n then m (src + (x - dst)) else m x)"
proof (cases "src < dst \<and> src + of_nat n > dst")
  case False
  have "dst = src \<or> n \<le> unat (dst - src)"
  proof (cases "src < dst")
    case True
    with False have le: "src + of_nat n \<le> dst" by simp
    have "unat (src + of_nat n) = unat src + n"
      using assms by (simp add: unat_word_ariths unat_of_nat take_bit_nat_eq_self)
    with le True show ?thesis by (simp add: word_le_nat_alt word_less_nat_alt unat_sub) linarith
  next
    case ge: False
    show ?thesis
      using ge assms by (auto simp: unat_sub_if_size word_le_nat_alt word_less_nat_alt word_size word_unat_eq_iff)
  qed
  moreover have "memmove dst src n m = copy_up dst src n m"
    unfolding memmove_def by (rule if_not_P [OF False])
  ultimately show ?thesis using assms by (simp add: copy_up_spec)
next
  case True
  let ?D = "dst + of_nat n :: u32" and ?S = "src + of_nat n :: u32"
  have "n \<le> unat (?S - ?D)"
    using True assms by (auto simp: unat_sub_if_size word_le_nat_alt word_less_nat_alt word_size)
  then have *: "copy_down ?D ?S n m x = (if unat (?D - 1 - x) < n then m (?S - 1 - (?D - 1 - x)) else m x)"
    using assms by (intro copy_down_spec) auto
  have "?S - 1 - (?D - 1 - x) = src + (x - dst)" by (simp add: algebra_simps)
  moreover have "n \<noteq> 0" using True by (cases n) auto
  then have "unat (?D - 1 - x) < n \<longleftrightarrow> unat (x - dst) < n"
  proof -
    have e: "?D - 1 - x = of_nat n - 1 - (x - dst)" by (simp add: algebra_simps)
    have "unat (of_nat n - 1 :: u32) = n - 1"
      using \<open>n \<noteq> 0\<close> assms(1) by (subst unat_sub) (auto simp: word_le_nat_alt unat_of_nat take_bit_nat_eq_self)
    then show ?thesis unfolding e using \<open>n \<noteq> 0\<close> by (intro unat_mirror) simp_all
  qed
  ultimately show ?thesis using True * by (simp add: memmove_def)
qed


section \<open>What the string operations do\<close>

lemma ch_simps [simp]: "ch [] = 0" "ch (c # p) = c"
  by (simp_all add: ch_def)

lemma cstr_simps [simp]: "cstr [] = []" "cstr (c # p) = (if c = 0 then [] else c # cstr p)"
  by (simp_all add: cstr_def)

lemma cstr_no_zero [simp]: "0 \<notin> set (cstr p)"
  by (auto simp: cstr_def dest: set_takeWhileD)

lemma cstr_cstr [simp]: "cstr (cstr p) = cstr p"
  by (induction p) auto

lemma cstr_id: "0 \<notin> set p \<Longrightarrow> cstr p = p"
  by (induction p) auto

lemma cstr_append_zero: "0 \<notin> set p \<Longrightarrow> cstr (p @ 0 # q) = p"
  by (induction p) auto

lemma strlen_cstr: "strlen p = length (cstr p)"
  by (induction p) auto

lemma cstr_unfold: "cstr p = (if ch p = 0 then [] else ch p # cstr (tl p))"
  by (cases p) auto

lemma strncmp_eq_0: "strncmp p q n = 0 \<longleftrightarrow> take n (cstr p) = take n (cstr q)"
proof (induction n arbitrary: p q)
  case (Suc n)
  show ?case
    by (subst (1 2) cstr_unfold) (use Suc in \<open>auto simp: word_uint_eq_iff\<close>)
qed simp

lemma length_strncpy [simp]: "length (strncpy t n) = n"
  by (induction t n rule: strncpy.induct) auto

lemma strncpy_pad: "strncpy t n = take n (cstr t) @ replicate (n - length (cstr t)) 0"
proof (induction t n rule: strncpy.induct)
  case (2 t n)
  show ?case
    by (subst (1 2) cstr_unfold) (use 2 in auto)
qed simp

lemma cstr_strncpy: "take n (cstr (strncpy t n)) = take n (cstr t)"
proof -
  have "cstr (take n (cstr t) @ replicate k 0) = take n (cstr t)" for k
    using cstr_no_zero [of t] set_take_subset [of n "cstr t"]
    by (cases k) (auto intro!: cstr_id cstr_append_zero)
  then show ?thesis by (simp add: strncpy_pad)
qed

lemma strncmp_strncpy: "strncmp name (strncpy name n) n = 0"
  by (simp add: strncmp_eq_0 cstr_strncpy)

lemma safestrcpy_loop_cstr: "cstr (safestrcpy_loop t n) = take n (cstr t)"
proof (induction t n rule: safestrcpy_loop.induct)
  case (2 t n)
  show ?case by (subst (2) cstr_unfold) (use 2 in auto)
qed simp

lemma safestrcpy_loop_length: "length (safestrcpy_loop t n) \<le> Suc n"
  by (induction t n rule: safestrcpy_loop.induct) auto

lemma safestrcpy_loop_zero: "0 \<in> set (safestrcpy_loop t n)"
  by (induction t n rule: safestrcpy_loop.induct) auto

lemma safestrcpy_spec:
  assumes "0 < n"
  shows "cstr (safestrcpy t n) = take (nat n - 1) (cstr t)" "length (safestrcpy t n) \<le> nat n" "0 \<in> set (safestrcpy t n)"
  using assms safestrcpy_loop_length [of t "nat n - 1"]
  by (simp_all add: safestrcpy_def safestrcpy_loop_cstr safestrcpy_loop_zero)

end
