(* ===== verification/Kalloc.thy ===== *)
theory Kalloc
  imports Console Strings
begin

text \<open>
  The physical page allocator (\<^verbatim>\<open>system/memory/kalloc.c\<close>) on the memory of the kernel. The free
  pages form a list that runs through the pages themselves: the first word of a free page is
  the address of the next.
\<close>

section \<open>State\<close>

abbreviation (input) PGSIZE :: nat where "PGSIZE \<equiv> 4096"
abbreviation (input) KERNBASE :: u32 where "KERNBASE \<equiv> 0x80000000"
abbreviation (input) PHYSTOP :: u32 where "PHYSTOP \<equiv> 0xE000000"

definition V2P :: "u32 \<Rightarrow> u32" where
  "V2P a = a - KERNBASE"

definition P2V :: "u32 \<Rightarrow> u32" where
  "P2V a = a + KERNBASE"

definition PGROUNDUP :: "u32 \<Rightarrow> u32" where
  "PGROUNDUP sz = (sz + 4096 - 1) AND NOT (4096 - 1)"

definition PGROUNDDOWN :: "u32 \<Rightarrow> u32" where
  "PGROUNDDOWN a = a AND NOT (4096 - 1)"

text \<open>The memory as the kernel sees it, \<^verbatim>\<open>kmem\<close>, and the symbol \<^verbatim>\<open>end\<close> that the linker defines.\<close>

record mst = cst +
  memory :: mem
  freelist :: u32
  use_lock :: bool
  kend :: u32

section \<open>Operations\<close>

definition kfree :: "u32 \<Rightarrow> 'a mst_scheme \<Rightarrow> ('a mst_scheme, unit) outcome" where
  "kfree v s =
     (if v mod 4096 \<noteq> 0 \<or> v < kend s \<or> V2P v \<ge> PHYSTOP then Panic ''kfree''
      else
        (let m = memset v 1 PGSIZE (memory s)
         in Ok () (s\<lparr>memory := write32 v (freelist s) m, freelist := v\<rparr>)))"

text \<open>The null pointer is 0.\<close>

definition kalloc :: "'a mst_scheme \<Rightarrow> u32 \<times> 'a mst_scheme" where
  "kalloc s =
     (let r = freelist s
      in (r, if r \<noteq> 0 then s\<lparr>freelist := read32 (memory s) r\<rparr> else s))"

lemma kfree_range: "kfree v s = Ok u s' \<Longrightarrow> unat v < 0x8E000000"
proof -
  assume "kfree v s = Ok u s'"
  then have "v - KERNBASE < PHYSTOP" by (auto simp: kfree_def V2P_def Let_def not_le split: if_splits)
  then show ?thesis using unat_lt32 [of v]
    by (simp add: word_less_nat_alt unat_sub_if_size word_size split: if_splits)
qed

function freerange_loop :: "u32 \<Rightarrow> u32 \<Rightarrow> 'a mst_scheme \<Rightarrow> ('a mst_scheme, unit) outcome" where
  "freerange_loop p vend s =
     (if p + 4096 \<le> vend then on (kfree p s) (\<lambda>_ s. freerange_loop (p + 4096) vend s) else Ok () s)"
  by pat_completeness auto
termination
proof (relation "measure (\<lambda>(p, vend, s). 0x90000000 - unat p)")
  fix p vend :: u32 and s s' :: "'a mst_scheme" and u
  assume "kfree p s = Ok u s'"
  then have "unat p < 0x8E000000" by (rule kfree_range)
  then have "unat p < unat (p + 4096)" "unat p < 0x90000000" by (simp_all add: unat_plus_if_size word_size)
  then show "((p + 4096, vend, s'), p, vend, s) \<in> measure (\<lambda>(p, vend, s). 0x90000000 - unat p)" by simp
qed simp

declare freerange_loop.simps [simp del]

definition freerange :: "u32 \<Rightarrow> u32 \<Rightarrow> 'a mst_scheme \<Rightarrow> ('a mst_scheme, unit) outcome" where
  "freerange vstart vend s = freerange_loop (PGROUNDUP vstart) vend s"

definition kinit1 :: "u32 \<Rightarrow> u32 \<Rightarrow> 'a mst_scheme \<Rightarrow> ('a mst_scheme, unit) outcome" where
  "kinit1 vstart vend s = freerange vstart vend (s\<lparr>use_lock := False\<rparr>)"

definition kinit2 :: "u32 \<Rightarrow> u32 \<Rightarrow> 'a mst_scheme \<Rightarrow> ('a mst_scheme, unit) outcome" where
  "kinit2 vstart vend s = on (freerange vstart vend s) (\<lambda>_ s. Ok () (s\<lparr>use_lock := True\<rparr>))"

section \<open>Words and pages in memory\<close>

text \<open>The byte \<open>x\<close> lies in the \<open>n\<close> bytes from \<open>a\<close> on.\<close>

definition within :: "u32 \<Rightarrow> nat \<Rightarrow> u32 \<Rightarrow> bool" where
  "within a n x \<longleftrightarrow> unat (x - a) < n"

lemma word_offs: "within a 4 x \<longleftrightarrow> x = a \<or> x = a + 1 \<or> x = a + 2 \<or> x = a + 3" for a x :: u32
proof
  assume "within a 4 x"
  then have "unat (x - a) = 0 \<or> unat (x - a) = 1 \<or> unat (x - a) = 2 \<or> unat (x - a) = 3"
    unfolding within_def by linarith
  then have "x - a = 0 \<or> x - a = 1 \<or> x - a = 2 \<or> x - a = 3"
    by (auto simp: word_unat_eq_iff)
  then show "x = a \<or> x = a + 1 \<or> x = a + 2 \<or> x = a + 3" by (auto simp: algebra_simps)
qed (auto simp: within_def)

lemma read32_write32 [simp]: "read32 (write32 a w m) a = w"
  by (simp add: read32_def write32_def)

lemma write32_frame: "\<not> within a 4 x \<Longrightarrow> write32 a w m x = m x"
  by (auto simp: word_offs write32_def)

lemma read32_cong: "(\<And>x. within a 4 x \<Longrightarrow> m' x = m x) \<Longrightarrow> read32 m' a = read32 m a"
  by (simp add: read32_def word_offs)

lemma memset_frame: "n \<le> 2 ^ 32 \<Longrightarrow> \<not> within a n x \<Longrightarrow> memset a c n m x = m x"
  by (simp add: memset_spec within_def)

definition aligned :: "u32 \<Rightarrow> bool" where
  "aligned p \<longleftrightarrow> unat p mod PGSIZE = 0"

lemma mod_4096_aligned: "p mod 4096 = 0 \<longleftrightarrow> aligned p" for p :: u32
proof -
  have "p mod 4096 = 0 \<longleftrightarrow> unat (p mod 4096) = 0" by (simp only: unat_eq_zero)
  also have "\<dots> \<longleftrightarrow> aligned p" by (simp add: unat_mod aligned_def)
  finally show ?thesis .
qed

definition page :: "u32 \<Rightarrow> nat" where
  "page x = unat x div PGSIZE"

lemma within_page: "aligned p \<Longrightarrow> within p PGSIZE x \<longleftrightarrow> page x = page p"
proof -
  assume al: "aligned p"
  then obtain q where q: "unat p = 4096 * q" by (auto simp: aligned_def)
  have "q < 1048576" using unat_lt32 [of p] q by simp
  show ?thesis
  proof (cases "p \<le> x")
    case True
    then have "unat (x - p) = unat x - unat p" "unat p \<le> unat x" by (simp_all add: unat_sub word_le_nat_alt)
    then show ?thesis using q by (auto simp: within_def page_def)
  next
    case False
    then have "unat (x - p) = 2 ^ 32 + unat x - unat p" "unat x < unat p"
      by (auto simp: unat_sub_if_size word_size word_le_nat_alt)
    then show ?thesis using q \<open>q < 1048576\<close> by (auto simp: within_def page_def)
  qed
qed

lemma page_inj: "aligned p \<Longrightarrow> aligned q \<Longrightarrow> page p = page q \<Longrightarrow> p = q"
  by (auto simp: aligned_def page_def word_unat_eq_iff)

lemma page_disjoint: "aligned p \<Longrightarrow> aligned q \<Longrightarrow> p \<noteq> q \<Longrightarrow> within p PGSIZE x \<Longrightarrow> \<not> within q PGSIZE x"
  using page_inj by (auto simp: within_page)

lemma within_mono: "within a m x \<Longrightarrow> m \<le> n \<Longrightarrow> within a n x"
  by (simp add: within_def)

section \<open>The free list\<close>

text \<open>The list through memory that starts at \<open>a\<close> consists of the pages \<open>ps\<close>.\<close>

fun flist :: "mem \<Rightarrow> u32 \<Rightarrow> u32 list \<Rightarrow> bool" where
  "flist m a [] \<longleftrightarrow> a = 0"
| "flist m a (p # ps) \<longleftrightarrow> a = p \<and> p \<noteq> 0 \<and> flist m (read32 m p) ps"

text \<open>A page that the allocator may own.\<close>

definition kpage :: "'a mst_scheme \<Rightarrow> u32 \<Rightarrow> bool" where
  "kpage s p \<longleftrightarrow> aligned p \<and> kend s \<le> p \<and> V2P p < PHYSTOP"

definition kmem_inv :: "'a mst_scheme \<Rightarrow> u32 list \<Rightarrow> bool" where
  "kmem_inv s ps \<longleftrightarrow> flist (memory s) (freelist s) ps \<and> distinct ps \<and> (\<forall>p \<in> set ps. kpage s p)"

lemma kpage_nonzero: "kpage s p \<Longrightarrow> p \<noteq> 0" "kpage s p \<Longrightarrow> KERNBASE \<le> p" "kpage s p \<Longrightarrow> unat p < 0x8E000000" "kpage s p \<Longrightarrow> aligned p"
proof -
  assume k: "kpage s p"
  then have l: "p - KERNBASE < PHYSTOP" by (simp add: kpage_def V2P_def)
  then show "p \<noteq> 0" by auto
  show "KERNBASE \<le> p" "unat p < 0x8E000000" using l unat_lt32 [of p]
    by (auto simp: word_less_nat_alt word_le_nat_alt unat_sub_if_size word_size split: if_splits)
  show "aligned p" using k by (simp add: kpage_def)
qed

lemma flist_cong: "flist m a ps \<Longrightarrow> (\<And>p. p \<in> set ps \<Longrightarrow> read32 m' p = read32 m p) \<Longrightarrow> flist m' a ps"
  by (induction ps arbitrary: a) auto

lemma flist_unique: "flist m a ps \<Longrightarrow> flist m a qs \<Longrightarrow> ps = qs"
proof (induction ps arbitrary: a qs)
  case Nil
  then show ?case by (cases qs) auto
next
  case (Cons p ps)
  then show ?case by (cases qs) auto
qed

text \<open>Whoever writes only to memory outside the free pages leaves the allocator alone.\<close>

lemma kmem_inv_frame:
  assumes "kmem_inv s ps" "freelist s' = freelist s" "kend s' = kend s"
    "\<And>p x. p \<in> set ps \<Longrightarrow> within p PGSIZE x \<Longrightarrow> memory s' x = memory s x"
  shows "kmem_inv s' ps"
proof -
  have "read32 (memory s') p = read32 (memory s) p" if "p \<in> set ps" for p
    by (rule read32_cong) (use assms(4) [OF that] within_mono in force)
  then show ?thesis using assms(1-3) by (auto simp: kmem_inv_def kpage_def intro: flist_cong)
qed

lemma kfree_spec:
  assumes inv: "kmem_inv s ps" and v: "kpage s v" "v \<notin> set ps"
  obtains s' where "kfree v s = Ok () s'" "kmem_inv s' (v # ps)"
    "\<And>x. \<not> within v PGSIZE x \<Longrightarrow> memory s' x = memory s x"
    "s' = s\<lparr>memory := memory s', freelist := v\<rparr>"
proof -
  define m where "m = write32 v (freelist s) (memset v 1 PGSIZE (memory s))"
  define s' where "s' = s\<lparr>memory := m, freelist := v\<rparr>"
  have ok: "kfree v s = Ok () s'" using v(1) by (simp add: kfree_def m_def s'_def kpage_def mod_4096_aligned not_le leD)
  have frame: "memory s' x = memory s x" if "\<not> within v PGSIZE x" for x
  proof -
    have "\<not> within v 4 x" using that within_mono by fastforce
    then show ?thesis using that by (simp add: s'_def m_def write32_frame memset_frame)
  qed
  have "flist m (freelist s) ps"
  proof (rule flist_cong)
    show "flist (memory s) (freelist s) ps" using inv by (simp add: kmem_inv_def)
    fix p assume p: "p \<in> set ps"
    then have "aligned p" "p \<noteq> v" using inv v by (auto simp: kmem_inv_def kpage_def)
    then have "\<not> within v PGSIZE x" if "within p 4 x" for x
      using page_disjoint [of p v x] within_mono [OF that, of PGSIZE] kpage_nonzero(4) [OF v(1)] by simp
    then show "read32 m p = read32 (memory s) p" using frame by (intro read32_cong) (simp add: s'_def)
  qed
  then have "kmem_inv s' (v # ps)" using inv v kpage_nonzero(1) [OF v(1)]
    by (simp add: kmem_inv_def s'_def m_def kpage_def)
  then show thesis using ok frame that [of s'] by (simp add: s'_def)
qed

lemma kfree_panics: "\<not> kpage s v \<Longrightarrow> kfree v s = Panic ''kfree''"
  by (auto simp: kfree_def kpage_def mod_4096_aligned not_le)

lemma kalloc_spec:
  assumes "kmem_inv s ps"
  shows "kalloc s = (case ps of [] \<Rightarrow> (0, s) | p # qs \<Rightarrow> (p, s\<lparr>freelist := read32 (memory s) p\<rparr>))"
    "ps = p # qs \<Longrightarrow> kmem_inv (s\<lparr>freelist := read32 (memory s) p\<rparr>) qs \<and> kpage s p \<and> p \<notin> set qs"
  using assms by (cases ps; auto simp: kmem_inv_def kalloc_def kpage_def Let_def)+

text \<open>\<^verbatim>\<open>freerange\<close> puts every page of the range on the list, the last one first.\<close>

lemma freerange_loop_spec:
  assumes "kmem_inv s ps" "aligned p" "\<And>k. k < n \<Longrightarrow> kpage s (p + of_nat k * 4096) \<and> p + of_nat k * 4096 \<notin> set ps"
    and "unat p + n * PGSIZE \<le> unat vend" "unat vend < unat p + (n + 1) * PGSIZE" "unat vend < 2 ^ 32 - PGSIZE"
  shows "\<exists>s'. freerange_loop p vend s = Ok () s' \<and> kmem_inv s' (rev (map (\<lambda>k. p + of_nat k * 4096) [0..<n]) @ ps)"
  using assms
proof (induction n arbitrary: p s ps)
  case 0
  then have "unat (p + 4096) = unat p + 4096" using unat_lt32 [of p] by (simp add: unat_plus_if_size word_size)
  then have "\<not> p + 4096 \<le> vend" using 0 by (simp add: word_le_nat_alt)
  then show ?case using 0 by (simp add: freerange_loop.simps)
next
  case (Suc n)
  have k0: "kpage s p" "p \<notin> set ps" using Suc.prems(3) [of 0] by simp_all
  have up: "unat (p + 4096) = unat p + 4096" using kpage_nonzero(3) [OF k0(1)] by (simp add: unat_plus_if_size word_size)
  obtain s1 where s1: "kfree p s = Ok () s1" "kmem_inv s1 (p # ps)" "s1 = s\<lparr>memory := memory s1, freelist := p\<rparr>"
    by (rule kfree_spec [OF Suc.prems(1) k0])
  have ke: "kpage s1 q = kpage s q" for q by (subst s1(3)) (simp add: kpage_def)
  have sh: "p + 4096 + of_nat k * 4096 = p + of_nat (Suc k) * 4096" for k by (simp add: algebra_simps)
  have ne: "p + of_nat (Suc k) * 4096 \<noteq> p" if "k < n" for k
  proof -
    have "Suc k * 4096 < 2 ^ 32" using that Suc.prems(4) unat_lt32 [of vend] by simp
    then have "unat (of_nat (Suc k * 4096) :: u32) = Suc k * 4096" by (rule unat_of_nat32)
    then have "(of_nat (Suc k * 4096) :: u32) \<noteq> 0" by (metis unat_0 mult_is_0 nat.simps(3) zero_neq_numeral)
    then show ?thesis by (simp add: algebra_simps)
  qed
  have "\<exists>s'. freerange_loop (p + 4096) vend s1 = Ok () s' \<and>
      kmem_inv s' (rev (map (\<lambda>k. p + 4096 + of_nat k * 4096) [0..<n]) @ p # ps)"
  proof (rule Suc.IH [OF s1(2)])
    show "aligned (p + 4096)" using Suc.prems(2) up by (simp add: aligned_def)
    show "kpage s1 (p + 4096 + of_nat k * 4096) \<and> p + 4096 + of_nat k * 4096 \<notin> set (p # ps)" if "k < n" for k
      unfolding sh ke using Suc.prems(3) [of "Suc k"] ne [OF that] that by simp
  qed (use Suc.prems(4-6) up in simp_all)
  then obtain s' where s': "freerange_loop (p + 4096) vend s1 = Ok () s'"
    "kmem_inv s' (rev (map (\<lambda>k. p + of_nat (Suc k) * 4096) [0..<n]) @ p # ps)" unfolding sh by blast
  have "p + 4096 \<le> vend" using up Suc.prems(4) by (simp add: word_le_nat_alt)
  then have "freerange_loop p vend s = Ok () s'" using s1(1) s'(1) by (subst freerange_loop.simps) simp
  moreover have "rev (map (\<lambda>k. p + of_nat k * 4096) [0..<Suc n]) = rev (map (\<lambda>k. p + of_nat (Suc k) * 4096) [0..<n]) @ [p]"
    by (simp add: upt_conv_Cons map_Suc_upt [symmetric] del: upt_Suc)
  ultimately show ?case using s'(2) by simp
qed

section \<open>The interface of the allocator\<close>

text \<open>What the clients of the allocator rely on: \<open>inv s ps\<close> says that the free pages are \<open>ps\<close>, in the
  order in which they are handed out.\<close>

locale page_allocator =
  fixes inv :: "'s \<Rightarrow> u32 list \<Rightarrow> bool" and ok :: "'s \<Rightarrow> u32 \<Rightarrow> bool"
    and alloc :: "'s \<Rightarrow> u32 \<times> 's" and free :: "u32 \<Rightarrow> 's \<Rightarrow> ('s, unit) outcome"
  assumes alloc_none: "inv s [] \<Longrightarrow> alloc s = (0, s)"
    and alloc_some: "inv s (p # ps) \<Longrightarrow> \<exists>s'. alloc s = (p, s') \<and> inv s' ps \<and> ok s' p \<and> p \<notin> set ps"
    and null_not_ok: "\<not> ok s 0"
    and free_ok: "inv s ps \<Longrightarrow> ok s p \<Longrightarrow> p \<notin> set ps \<Longrightarrow> \<exists>s'. free p s = Ok () s' \<and> inv s' (p # ps)"
    and free_bad: "\<not> ok s p \<Longrightarrow> \<exists>m. free p s = Panic m"
begin

lemma alloc_null_iff: "inv s ps \<Longrightarrow> fst (alloc s) = 0 \<longleftrightarrow> ps = []"
proof (cases ps)
  case (Cons p qs)
  assume "inv s ps"
  with Cons obtain s' where "alloc s = (p, s')" "ok s' p" using alloc_some [of s p qs] by auto
  with Cons null_not_ok show ?thesis by auto
qed (simp add: alloc_none)

lemma alloc_alloc_distinct:
  assumes "inv s ps" "alloc s = (p, s1)" "alloc s1 = (q, s2)" "q \<noteq> 0"
  shows "p \<noteq> q"
proof -
  obtain a qs where ps: "ps = a # qs"
    using alloc_null_iff [OF assms(1)] assms alloc_none [of s] by (cases ps) auto
  obtain t where t: "alloc s = (a, t)" "inv t qs" "a \<notin> set qs" using assms(1) ps alloc_some [of s a qs] by auto
  obtain b rs where qs: "qs = b # rs"
    using alloc_null_iff [OF t(2)] t(1) assms(2-4) alloc_none [of t] by (cases qs) auto
  obtain u where "alloc t = (b, u)" using t(2) qs alloc_some [of t b rs] by auto
  with t(1,3) qs assms(2,3) show ?thesis by auto
qed

text \<open>A page that is freed is the next one to be handed out, and freeing undoes allocating.\<close>

lemma free_alloc:
  assumes "inv s ps" "ok s p" "p \<notin> set ps"
  shows "\<exists>s1 s2. free p s = Ok () s1 \<and> alloc s1 = (p, s2) \<and> inv s2 ps"
proof -
  obtain s1 where s1: "free p s = Ok () s1" "inv s1 (p # ps)" using free_ok [OF assms] by blast
  then show ?thesis using alloc_some [of s1 p ps] by blast
qed

lemma alloc_free:
  assumes "inv s ps" "alloc s = (p, s1)" "p \<noteq> 0"
  shows "\<exists>s2. free p s1 = Ok () s2 \<and> inv s2 ps"
proof (cases ps)
  case Nil
  with assms alloc_none [of s] show ?thesis by simp
next
  case (Cons a qs)
  obtain t where "alloc s = (a, t)" "inv t qs" "ok t a" "a \<notin> set qs"
    using assms(1) Cons alloc_some [of s a qs] by auto
  with assms(2) Cons free_ok [of t qs a] show ?thesis by auto
qed

end

interpretation kmem: page_allocator kmem_inv kpage kalloc kfree
proof
  fix s :: "'a mst_scheme" and p ps
  show "kmem_inv s [] \<Longrightarrow> kalloc s = (0, s)" using kalloc_spec(1) [of s "[]"] by simp
  show "kmem_inv s (p # ps) \<Longrightarrow> \<exists>s'. kalloc s = (p, s') \<and> kmem_inv s' ps \<and> kpage s' p \<and> p \<notin> set ps"
    using kalloc_spec(1) [of s "p # ps"] kalloc_spec(2) [of s "p # ps" p ps] by (auto simp: kpage_def)
  show "\<not> kpage s 0" using kpage_nonzero(1) by blast
  show "kmem_inv s ps \<Longrightarrow> kpage s p \<Longrightarrow> p \<notin> set ps \<Longrightarrow> \<exists>s'. kfree p s = Ok () s' \<and> kmem_inv s' (p # ps)"
    using kfree_spec by blast
  show "\<not> kpage s p \<Longrightarrow> \<exists>m. kfree p s = Panic m" using kfree_panics by blast
qed

end
