(* ===== verification/Fs_Bmap.thy ===== *)
theory Fs_Bmap
  imports Fs_Inode
begin

text \<open>
  What the block map of a file guarantees: the blocks of a well formed file are in use, in
  the data area and pairwise distinct; \<^verbatim>\<open>bmap\<close> only ever fills holes with fresh zeroed blocks,
  so the bytes of the file and every other file stay as they are.
\<close>

section \<open>Frame facts of the inode cache\<close>

lemma icache_frame [simp]:
  "myproc (s\<lparr>icache := x\<rparr>) = myproc s" "mypid (s\<lparr>icache := x\<rparr>) = mypid s"
  "cached (s\<lparr>icache := x\<rparr>) = cached s" "dirtyset (s\<lparr>icache := x\<rparr>) = dirtyset s"
  "lockset (s\<lparr>icache := x\<rparr>) = lockset s" "quiet (s\<lparr>icache := x\<rparr>) = quiet s" "proc_ok (s\<lparr>icache := x\<rparr>) = proc_ok s"
  by (simp_all add: myproc_def mypid_def cached_def dirtyset_def lockset_def quiet_def proc_ok_def fun_eq_iff)

lemma icache_frame2 [simp]:
  "content (s\<lparr>icache := x\<rparr>) = content s" "holds (s\<lparr>icache := x\<rparr>) = holds s" "bio_inv (s\<lparr>icache := x\<rparr>) = bio_inv s"
  "log_region (s\<lparr>icache := x\<rparr>) = log_region s"
  by (simp_all add: content_def holds_def bio_inv_def log_region_def fun_eq_iff split: option.split)

lemma icache_frame3 [simp]:
  "log_inv (s\<lparr>icache := x\<rparr>) = log_inv s" "fs_inv (s\<lparr>icache := x\<rparr>) = fs_inv s"
  by (simp_all add: log_inv_def fs_inv_def)

lemma upd_inode_frame [simp]:
  "content (upd_inode ip f s) = content s" "holds (upd_inode ip f s) = holds s" "bio_inv (upd_inode ip f s) = bio_inv s"
  "log_region (upd_inode ip f s) = log_region s" "log_inv (upd_inode ip f s) = log_inv s" "fs_inv (upd_inode ip f s) = fs_inv s"
  "fsb (upd_inode ip f s) = fsb s" "lockset (upd_inode ip f s) = lockset s" "disk (upd_inode ip f s) = disk s"
  "length (icache (upd_inode ip f s)) = length (icache s)" "myproc (upd_inode ip f s) = myproc s"
  "mypid (upd_inode ip f s) = mypid s" "bufs (upd_inode ip f s) = bufs s" "lg_outstanding (upd_inode ip f s) = lg_outstanding s"
  "quiet (upd_inode ip f s) = quiet s" "lg_lh (upd_inode ip f s) = lg_lh s" "fsst.more (upd_inode ip f s) = fsst.more s"
  by (simp_all add: upd_inode_def)

lemma nth_upd_inode: "ip < length (icache s) \<Longrightarrow> inode (upd_inode ip f s) j = (if j = ip then f (inode s ip) else inode s j)"
  by (simp add: upd_inode_def nth_list_update)

text \<open>Updates of blocks together with changes of in-memory inodes.\<close>

definition fs_updated :: "nat set \<Rightarrow> 'a fsst_scheme \<Rightarrow> 'a fsst_scheme \<Rightarrow> bool" where
  "fs_updated bs s s' \<longleftrightarrow> updated bs (s\<lparr>icache := icache s'\<rparr>) s'"

lemma log_rest_icache: "log_rest s t \<Longrightarrow> log_rest (s\<lparr>icache := x\<rparr>) (t\<lparr>icache := x\<rparr>)"
  by (cases s; cases t) (simp add: log_rest_def same_rest_def myproc_def)

lemma updated_icache: "updated bs s t \<Longrightarrow> updated bs (s\<lparr>icache := x\<rparr>) (t\<lparr>icache := x\<rparr>)"
  by (simp add: updated_def log_rest_icache)

lemma fs_updated_updated: "updated bs s t \<Longrightarrow> fs_updated bs s t"
  using updated_fsst(2) [of bs s t] by (simp add: fs_updated_def)

lemma fs_updated_trans:
  assumes "fs_updated bs s t" "fs_updated cs t u"
  shows "fs_updated (bs \<union> cs) s u"
  using updated_trans [OF updated_icache [OF assms(1) [unfolded fs_updated_def], of "icache u"] assms(2) [unfolded fs_updated_def]]
  by (simp add: fs_updated_def)

lemma fs_updated_upd_inode: "log_inv s \<Longrightarrow> fs_updated {} s (upd_inode ip f s)"
  by (simp add: fs_updated_def upd_inode_def)

lemma fs_updatedD:
  assumes "fs_updated bs s s'"
  shows "log_inv s'" "set (lg_lh s') = set (lg_lh s) \<union> bs" "lockset s' = lockset s" "disk s' = disk s"
    "dwrites s' = dwrites s" "quiet s \<Longrightarrow> quiet s'" "b \<notin> bs \<Longrightarrow> content s' b = content s b"
    "holds s j c \<Longrightarrow> holds s' j c" "bio_inv s'" "disksize s' = disksize s" "log_region s' = log_region s"
    "fsb s' = fsb s" "fsst.more s' = fsst.more s" "myproc s' = myproc s" "mypid s' = mypid s"
    "lg_outstanding s' = lg_outstanding s" "cur s' = cur s" "lg_start s' = lg_start s" "lg_size s' = lg_size s"
    "lg_dev s' = lg_dev s" "lg_committing s' = lg_committing s"
  using updatedD [OF assms [unfolded fs_updated_def]] updated_fsst [OF assms [unfolded fs_updated_def]]
    log_restD [OF updatedD(6) [OF assms [unfolded fs_updated_def]]]
  by simp_all

lemma fs_updated_mono: "fs_updated bs s s' \<Longrightarrow> bs = cs \<Longrightarrow> fs_updated cs s s'"
  by simp

section \<open>The blocks of a file\<close>

text \<open>The address of block \<open>bn\<close> of a file with block pointers \<open>addrs\<close>, 0 for a hole, in a store with
  content \<open>c\<close>; the block itself, which for a hole is zero; and the bytes of the file.\<close>

definition blk_addr :: "(nat \<Rightarrow> byte list) \<Rightarrow> u32 list \<Rightarrow> nat \<Rightarrow> u32" where
  "blk_addr c addrs bn =
     (if bn < NDIRECT then addrs ! bn
      else if addrs ! NDIRECT = 0 then 0
      else get32 (c (unat (addrs ! NDIRECT))) (4 * (bn - NDIRECT)))"

definition file_block :: "(nat \<Rightarrow> byte list) \<Rightarrow> u32 list \<Rightarrow> nat \<Rightarrow> byte list" where
  "file_block c addrs bn = (if blk_addr c addrs bn = 0 then replicate BSIZE 0 else c (unat (blk_addr c addrs bn)))"

definition file_byte :: "(nat \<Rightarrow> byte list) \<Rightarrow> u32 list \<Rightarrow> nat \<Rightarrow> byte" where
  "file_byte c addrs k = file_block c addrs (k div BSIZE) ! (k mod BSIZE)"

definition file_blocks :: "(nat \<Rightarrow> byte list) \<Rightarrow> u32 list \<Rightarrow> nat set" where
  "file_blocks c addrs = (if addrs ! NDIRECT = 0 then {} else {unat (addrs ! NDIRECT)}) \<union>
     {unat (blk_addr c addrs bn) | bn. bn < MAXFILE \<and> blk_addr c addrs bn \<noteq> 0}"

text \<open>A pointer into the data area whose block is marked in use.\<close>

definition good :: "superblock \<Rightarrow> (nat \<Rightarrow> byte list) \<Rightarrow> u32 \<Rightarrow> bool" where
  "good sb c x \<longleftrightarrow> datastart sb \<le> unat x \<and> unat x < unat (sb_size sb) \<and> allocated sb c (unat x)"

text \<open>A file is well formed if all its pointers are good and no block is used twice.\<close>

definition file_wf :: "superblock \<Rightarrow> (nat \<Rightarrow> byte list) \<Rightarrow> u32 list \<Rightarrow> bool" where
  "file_wf sb c addrs \<longleftrightarrow> length addrs = NDIRECT + 1 \<and>
     (addrs ! NDIRECT \<noteq> 0 \<longrightarrow> good sb c (addrs ! NDIRECT)) \<and>
     (\<forall>bn < MAXFILE. blk_addr c addrs bn \<noteq> 0 \<longrightarrow> good sb c (blk_addr c addrs bn) \<and> blk_addr c addrs bn \<noteq> addrs ! NDIRECT) \<and>
     (\<forall>m < MAXFILE. \<forall>n < MAXFILE. m \<noteq> n \<longrightarrow> blk_addr c addrs m \<noteq> 0 \<longrightarrow> blk_addr c addrs m \<noteq> blk_addr c addrs n)"

lemma file_wfD:
  assumes "file_wf sb c addrs"
  shows "length addrs = NDIRECT + 1" "addrs ! NDIRECT \<noteq> 0 \<Longrightarrow> good sb c (addrs ! NDIRECT)"
    "bn < MAXFILE \<Longrightarrow> blk_addr c addrs bn \<noteq> 0 \<Longrightarrow> good sb c (blk_addr c addrs bn)"
    "bn < MAXFILE \<Longrightarrow> blk_addr c addrs bn \<noteq> 0 \<Longrightarrow> blk_addr c addrs bn \<noteq> addrs ! NDIRECT"
    "m < MAXFILE \<Longrightarrow> n < MAXFILE \<Longrightarrow> m \<noteq> n \<Longrightarrow> blk_addr c addrs m \<noteq> 0 \<Longrightarrow> blk_addr c addrs m \<noteq> blk_addr c addrs n"
    "x \<in> file_blocks c addrs \<Longrightarrow> datastart sb \<le> x \<and> x < unat (sb_size sb) \<and> allocated sb c x"
proof -
  show 1: "length addrs = NDIRECT + 1" "addrs ! NDIRECT \<noteq> 0 \<Longrightarrow> good sb c (addrs ! NDIRECT)"
    "\<And>bn. bn < MAXFILE \<Longrightarrow> blk_addr c addrs bn \<noteq> 0 \<Longrightarrow> good sb c (blk_addr c addrs bn)"
    "bn < MAXFILE \<Longrightarrow> blk_addr c addrs bn \<noteq> 0 \<Longrightarrow> blk_addr c addrs bn \<noteq> addrs ! NDIRECT"
    "m < MAXFILE \<Longrightarrow> n < MAXFILE \<Longrightarrow> m \<noteq> n \<Longrightarrow> blk_addr c addrs m \<noteq> 0 \<Longrightarrow> blk_addr c addrs m \<noteq> blk_addr c addrs n"
    using assms by (simp_all add: file_wf_def)
  show "x \<in> file_blocks c addrs \<Longrightarrow> datastart sb \<le> x \<and> x < unat (sb_size sb) \<and> allocated sb c x"
    using 1(2,3) by (auto simp: file_blocks_def good_def split: if_splits)
qed

text \<open>A change that concerns one file only: it stays well formed and keeps the blocks it has, no block
  in use by anyone else and no block below the free map changes, and nothing is freed.\<close>

definition file_frame :: "superblock \<Rightarrow> (nat \<Rightarrow> byte list) \<Rightarrow> u32 list \<Rightarrow> (nat \<Rightarrow> byte list) \<Rightarrow> u32 list \<Rightarrow> bool" where
  "file_frame sb c addrs c' addrs' \<longleftrightarrow>
     file_wf sb c' addrs' \<and>
     (\<forall>bn < MAXFILE. blk_addr c addrs bn \<noteq> 0 \<longrightarrow> blk_addr c' addrs' bn = blk_addr c addrs bn) \<and>
     (addrs ! NDIRECT \<noteq> 0 \<longrightarrow> addrs' ! NDIRECT = addrs ! NDIRECT) \<and>
     (\<forall>x. datastart sb \<le> x \<longrightarrow> x < unat (sb_size sb) \<longrightarrow> allocated sb c x \<longrightarrow> x \<notin> file_blocks c addrs \<longrightarrow>
        c' x = c x \<and> x \<notin> file_blocks c' addrs') \<and>
     (\<forall>x < unat (sb_size sb). allocated sb c x \<longrightarrow> allocated sb c' x) \<and>
     (\<forall>x < unat (sb_bmapstart sb). c' x = c x)"

lemma file_frameD:
  assumes "file_frame sb c addrs c' addrs'"
  shows "file_wf sb c' addrs'"
    "bn < MAXFILE \<Longrightarrow> blk_addr c addrs bn \<noteq> 0 \<Longrightarrow> blk_addr c' addrs' bn = blk_addr c addrs bn"
    "addrs ! NDIRECT \<noteq> 0 \<Longrightarrow> addrs' ! NDIRECT = addrs ! NDIRECT"
    "datastart sb \<le> x \<Longrightarrow> x < unat (sb_size sb) \<Longrightarrow> allocated sb c x \<Longrightarrow> x \<notin> file_blocks c addrs \<Longrightarrow>
       c' x = c x \<and> x \<notin> file_blocks c' addrs'"
    "x < unat (sb_size sb) \<Longrightarrow> allocated sb c x \<Longrightarrow> allocated sb c' x"
    "x < unat (sb_bmapstart sb) \<Longrightarrow> c' x = c x"
  using assms by (simp_all add: file_frame_def)

lemma file_frame_refl: "file_wf sb c addrs \<Longrightarrow> file_frame sb c addrs c addrs"
  by (simp add: file_frame_def)

lemma file_frame_trans:
  assumes g: "file_frame sb c a c' a'" and h: "file_frame sb c' a' c'' a''"
  shows "file_frame sb c a c'' a''"
proof -
  note G = file_frameD [OF g] and H = file_frameD [OF h]
  have "c'' x = c x \<and> x \<notin> file_blocks c'' a''"
    if "datastart sb \<le> x" "x < unat (sb_size sb)" "allocated sb c x" "x \<notin> file_blocks c a" for x
    using G(4) [OF that] H(4) [OF that(1,2) G(5) [OF that(2,3)]] by simp
  then show ?thesis
    unfolding file_frame_def using H(1) G(2,3,5,6) H(2,3,5,6) by simp
qed

text \<open>Filling holes of a file: it reads the same.\<close>

definition file_grow :: "superblock \<Rightarrow> (nat \<Rightarrow> byte list) \<Rightarrow> u32 list \<Rightarrow> (nat \<Rightarrow> byte list) \<Rightarrow> u32 list \<Rightarrow> bool" where
  "file_grow sb c addrs c' addrs' \<longleftrightarrow> file_frame sb c addrs c' addrs' \<and>
     (\<forall>bn < MAXFILE. file_block c' addrs' bn = file_block c addrs bn)"

lemma file_grow_refl: "file_wf sb c addrs \<Longrightarrow> file_grow sb c addrs c addrs"
  by (simp add: file_grow_def file_frame_refl)

lemma file_grow_trans:
  "file_grow sb c a c' a' \<Longrightarrow> file_grow sb c' a' c'' a'' \<Longrightarrow> file_grow sb c a c'' a''"
  by (simp add: file_grow_def) (blast intro: file_frame_trans)

lemma file_growD:
  assumes "file_grow sb c addrs c' addrs'"
  shows "file_frame sb c addrs c' addrs'" "file_wf sb c' addrs'"
    "bn < MAXFILE \<Longrightarrow> file_block c' addrs' bn = file_block c addrs bn"
  using assms file_frameD(1) by (auto simp: file_grow_def)

lemma balloc_postD:
  assumes inv: "fs_inv s" and p: "balloc_post b s s'"
  shows "datastart (fsb s) \<le> b" "b < unat (sb_size (fsb s))" "\<not> allocated (fsb s) (content s) b" "fs_inv s'"
    "updated {BBLOCK b (fsb s), b} s s'" "content s' b = replicate BSIZE 0"
    "x < unat (sb_size (fsb s)) \<Longrightarrow> allocated (fsb s) (content s') x \<longleftrightarrow> x = b \<or> allocated (fsb s) (content s) x"
    "datastart (fsb s) \<le> x \<Longrightarrow> x \<noteq> b \<Longrightarrow> content s' x = content s x"
    "x < unat (sb_bmapstart (fsb s)) \<Longrightarrow> content s' x = content s x"
    "unat (of_nat b :: u32) = b" "(of_nat b :: u32) \<noteq> 0" "good (fsb s) (content s') (of_nat b)"
    "good (fsb s) (content s) y \<Longrightarrow> good (fsb s) (content s') y \<and> content s' (unat y) = content s (unat y) \<and> y \<noteq> of_nat b"
proof -
  note L = region_bounds [OF inv]
  show P: "datastart (fsb s) \<le> b" "b < unat (sb_size (fsb s))" "\<not> allocated (fsb s) (content s) b" "fs_inv s'"
    "updated {BBLOCK b (fsb s), b} s s'" "content s' b = replicate BSIZE 0"
    using p by (auto simp: balloc_post_def)
  show al: "x < unat (sb_size (fsb s)) \<Longrightarrow> allocated (fsb s) (content s') x \<longleftrightarrow> x = b \<or> allocated (fsb s) (content s) x" for x
    using p by (auto simp: balloc_post_def)
  have bb: "BBLOCK b (fsb s) < datastart (fsb s)" using L(3) P(2) by simp
  show c: "datastart (fsb s) \<le> x \<Longrightarrow> x \<noteq> b \<Longrightarrow> content s' x = content s x" for x
    using updatedD(8) [OF P(5)] bb by auto
  show "x < unat (sb_bmapstart (fsb s)) \<Longrightarrow> content s' x = content s x"
    using updatedD(8) [OF P(5), of x] L(7) L(8) [of b] P(1) by auto
  have "b < 2 ^ 32" using P(2) unat_lt32 [of "sb_size (fsb s)"] by (rule order.strict_trans)
  then show u: "unat (of_nat b :: u32) = b" by (simp add: unat_of_nat32)
  have "0 < datastart (fsb s)" by (simp add: datastart_def)
  then show "(of_nat b :: u32) \<noteq> 0" using u P(1) by (metis not_less unat_0)
  show "good (fsb s) (content s') (of_nat b)" using P(1,2) al [OF P(2)] u by (simp add: good_def)
  show "good (fsb s) (content s) y \<Longrightarrow> good (fsb s) (content s') y \<and> content s' (unat y) = content s (unat y) \<and> y \<noteq> of_nat b"
    using al [of "unat y"] c [of "unat y"] u P(3) by (auto simp: good_def)
qed

lemma in_file_blocks:
  "x \<in> file_blocks c addrs \<longleftrightarrow> addrs ! NDIRECT \<noteq> 0 \<and> x = unat (addrs ! NDIRECT) \<or>
     (\<exists>bn < MAXFILE. blk_addr c addrs bn \<noteq> 0 \<and> x = unat (blk_addr c addrs bn))"
  by (auto simp: file_blocks_def)

text \<open>The common part of filling a hole: one pointer of the file goes from 0 to a fresh zeroed block.\<close>

lemma file_grow_fill:
  assumes inv: "fs_inv s" and wf: "file_wf (fsb s) (content s) addrs" and p: "balloc_post b s s'"
    and len: "length addrs' = NDIRECT + 1" and ind: "addrs' ! NDIRECT = addrs ! NDIRECT"
    and k: "k < MAXFILE" "blk_addr (content s) addrs k = 0"
    and A: "\<And>bn. bn < MAXFILE \<Longrightarrow> blk_addr c' addrs' bn = (if bn = k then of_nat b else blk_addr (content s) addrs bn)"
    and c': "\<And>x. addrs ! NDIRECT = 0 \<or> x \<noteq> unat (addrs ! NDIRECT) \<Longrightarrow> c' x = content s' x"
  shows "file_grow (fsb s) (content s) addrs c' addrs'"
proof -
  let ?sb = "fsb s" and ?c = "content s"
  note P = balloc_postD [OF inv p] and W = file_wfD [OF wf] and L = region_bounds [OF inv]
  have nind: "addrs ! NDIRECT \<noteq> of_nat b"
    using P(11,13) W(2) by metis
  have bb: "BBLOCK x ?sb < datastart ?sb" if "x < unat (sb_size ?sb)" for x using L(3) that by simp
  have cb: "c' x = content s' x" if "x < datastart ?sb" for x
    using c' [of x] W(2) that by (cases "addrs ! NDIRECT = 0") (auto simp: good_def)
  have al: "allocated ?sb c' x = allocated ?sb (content s') x" if "x < unat (sb_size ?sb)" for x
    using cb [OF bb [OF that]] by (simp add: allocated_def)
  have g: "good ?sb c' y = good ?sb (content s') y" for y
    using al by (auto simp: good_def)
  have A0: "blk_addr c' addrs' bn \<noteq> of_nat b" if "bn < MAXFILE" "bn \<noteq> k" for bn
    using A [OF that(1)] that(2) P(11) P(13) [OF W(3) [OF that(1)]] by auto
  have wf': "file_wf ?sb c' addrs'"
    unfolding file_wf_def
  proof (intro conjI allI impI)
    show "length addrs' = NDIRECT + 1" by (rule len)
    show "good ?sb c' (addrs' ! NDIRECT)" if "addrs' ! NDIRECT \<noteq> 0"
      using that ind W(2) P(13) by (simp add: g)
    show "good ?sb c' (blk_addr c' addrs' bn)" if "bn < MAXFILE" "blk_addr c' addrs' bn \<noteq> 0" for bn
      using that A [OF that(1)] W(3) [OF that(1)] P(12,13) by (auto simp: g split: if_splits)
    show "blk_addr c' addrs' bn \<noteq> addrs' ! NDIRECT" if "bn < MAXFILE" "blk_addr c' addrs' bn \<noteq> 0" for bn
      using that A [OF that(1)] W(4) [OF that(1)] nind ind by (auto split: if_splits)
    show "blk_addr c' addrs' m \<noteq> blk_addr c' addrs' n"
      if "m < MAXFILE" "n < MAXFILE" "m \<noteq> n" "blk_addr c' addrs' m \<noteq> 0" for m n
      using that A [OF that(1)] A [OF that(2)] A0 [OF that(1)] A0 [OF that(2)] W(5) [OF that(1,2,3)]
      by (cases "m = k"; cases "n = k") auto
  qed
  have blk: "file_block c' addrs' bn = file_block ?c addrs bn" if bn: "bn < MAXFILE" for bn
  proof (cases "bn = k")
    case True
    then have "blk_addr c' addrs' bn = of_nat b" using A [OF bn] by simp
    moreover have "b \<noteq> unat (addrs ! NDIRECT)" using nind by auto
    then have "c' b = replicate BSIZE 0" using c' [of b] P(6) by simp
    ultimately show ?thesis using True k(2) P(10,11) by (simp add: file_block_def)
  next
    case False
    then have e: "blk_addr c' addrs' bn = blk_addr ?c addrs bn" using A [OF bn] by simp
    show ?thesis
    proof (cases "blk_addr ?c addrs bn = 0")
      case True
      with e show ?thesis by (simp add: file_block_def)
    next
      case nz: False
      have "unat (blk_addr ?c addrs bn) \<noteq> unat (addrs ! NDIRECT)" using W(4) [OF bn nz] by (simp add: word_unat_eq_iff)
      then have "c' (unat (blk_addr ?c addrs bn)) = ?c (unat (blk_addr ?c addrs bn))"
        using c' P(13) [OF W(3) [OF bn nz]] by simp
      with e nz show ?thesis by (simp add: file_block_def)
    qed
  qed
  have other: "c' x = ?c x \<and> x \<notin> file_blocks c' addrs'"
    if x: "datastart ?sb \<le> x" "x < unat (sb_size ?sb)" "allocated ?sb ?c x" "x \<notin> file_blocks ?c addrs" for x
  proof
    have xb: "x \<noteq> b" using x(3) P(3) by auto
    have "addrs ! NDIRECT = 0 \<or> x \<noteq> unat (addrs ! NDIRECT)" using x(4) by (auto simp: in_file_blocks)
    then show "c' x = ?c x" using c' P(8) [OF x(1) xb] by simp
    show "x \<notin> file_blocks c' addrs'"
    proof
      assume "x \<in> file_blocks c' addrs'"
      then have "\<exists>bn < MAXFILE. blk_addr c' addrs' bn \<noteq> 0 \<and> x = unat (blk_addr c' addrs' bn)"
        using x(4) ind by (auto simp: in_file_blocks)
      then obtain bn where bn: "bn < MAXFILE" "blk_addr c' addrs' bn \<noteq> 0" "x = unat (blk_addr c' addrs' bn)" by blast
      with A [OF bn(1)] xb P(10) have "bn \<noteq> k" by auto
      with bn A [OF bn(1)] x(4) show False by (auto simp: in_file_blocks)
    qed
  qed
  have "allocated ?sb c' x" if "x < unat (sb_size ?sb)" "allocated ?sb ?c x" for x
    using al [OF that(1)] P(7) [OF that(1)] that(2) by simp
  moreover have "c' x = ?c x" if "x < unat (sb_bmapstart ?sb)" for x
    using cb [of x] P(9) [OF that] that L(7) by simp
  moreover have "blk_addr c' addrs' bn = blk_addr ?c addrs bn" if "bn < MAXFILE" "blk_addr ?c addrs bn \<noteq> 0" for bn
    using A [OF that(1)] that k by auto
  ultimately show ?thesis
    using wf' blk other ind by (simp add: file_grow_def file_frame_def)
qed

lemma file_grow_direct:
  assumes inv: "fs_inv s" and wf: "file_wf (fsb s) (content s) addrs" and p: "balloc_post b s s'"
    and k: "k < NDIRECT" "addrs ! k = 0"
  shows "file_grow (fsb s) (content s) addrs (content s') (addrs[k := of_nat b])"
proof (rule file_grow_fill [OF inv wf p])
  note P = balloc_postD [OF inv p] and W = file_wfD [OF wf]
  show "length (addrs[k := of_nat b]) = NDIRECT + 1" "addrs[k := of_nat b] ! NDIRECT = addrs ! NDIRECT" "k < MAXFILE"
    using W(1) k by simp_all
  show "blk_addr (content s) addrs k = 0" using k by (simp add: blk_addr_def)
  show "blk_addr (content s') (addrs[k := of_nat b]) bn = (if bn = k then of_nat b else blk_addr (content s) addrs bn)"
    if "bn < MAXFILE" for bn
    using k W(1,2) P(13) [of "addrs ! NDIRECT"] by (auto simp: blk_addr_def nth_list_update)
qed simp

lemma file_grow_entry:
  assumes inv: "fs_inv s" and wf: "file_wf (fsb s) (content s) addrs" and p: "balloc_post b s s'"
    and nz: "addrs ! NDIRECT \<noteq> 0" and j: "j < NINDIRECT" "get32 (content s (unat (addrs ! NDIRECT))) (4 * j) = 0"
    and c': "c' = (content s')(unat (addrs ! NDIRECT) := put32 (4 * j) (of_nat b) (content s' (unat (addrs ! NDIRECT))))"
  shows "file_grow (fsb s) (content s) addrs c' addrs"
proof (rule file_grow_fill [OF inv wf p])
  note P = balloc_postD [OF inv p] and W = file_wfD [OF wf]
  show "length addrs = NDIRECT + 1" by (rule W)
  show "NDIRECT + j < MAXFILE" using j by simp
  show "blk_addr (content s) addrs (NDIRECT + j) = 0" using j by (simp add: blk_addr_def)
  have len: "length (content s (unat (addrs ! NDIRECT))) = BSIZE" by (rule length_content [OF fs_invD(5) [OF inv]])
  show "blk_addr c' addrs bn = (if bn = NDIRECT + j then of_nat b else blk_addr (content s) addrs bn)" if "bn < MAXFILE" for bn
    using nz j that len P(13) [OF W(2) [OF nz]] by (auto simp: blk_addr_def c' get32_put32_same intro!: get32_put32_other)
  show "c' x = content s' x" if "addrs ! NDIRECT = 0 \<or> x \<noteq> unat (addrs ! NDIRECT)" for x
    using that nz by (simp add: c')
qed simp

text \<open>A new indirect block is all holes.\<close>

lemma file_grow_indirect:
  assumes inv: "fs_inv s" and wf: "file_wf (fsb s) (content s) addrs" and p: "balloc_post b s s'"
    and z: "addrs ! NDIRECT = 0"
  shows "file_grow (fsb s) (content s) addrs (content s') (addrs[NDIRECT := of_nat b])"
proof -
  let ?sb = "fsb s" and ?c = "content s" and ?c' = "content s'" and ?a = "addrs[NDIRECT := of_nat b]"
  note P = balloc_postD [OF inv p] and W = file_wfD [OF wf]
  have a: "?a ! NDIRECT = of_nat b" "\<And>k. k \<noteq> NDIRECT \<Longrightarrow> ?a ! k = addrs ! k" using W(1) by simp_all
  have A: "blk_addr ?c' ?a bn = blk_addr ?c addrs bn" if "bn < MAXFILE" for bn
    using that a z P(6,10,11) by (auto simp: blk_addr_def)
  have g: "good ?sb ?c' (blk_addr ?c addrs bn) \<and> ?c' (unat (blk_addr ?c addrs bn)) = ?c (unat (blk_addr ?c addrs bn)) \<and>
      blk_addr ?c addrs bn \<noteq> of_nat b" if "bn < MAXFILE" "blk_addr ?c addrs bn \<noteq> 0" for bn
    using P(13) [OF W(3) [OF that]] .
  have "file_wf ?sb ?c' ?a"
    unfolding file_wf_def using A g a W(1,5) P(12) by (simp add: A)
  moreover have "file_block ?c' ?a bn = file_block ?c addrs bn" if "bn < MAXFILE" for bn
    using A [OF that] g [OF that] by (simp add: file_block_def)
  moreover have "?c' x = ?c x \<and> x \<notin> file_blocks ?c' ?a"
    if x: "datastart ?sb \<le> x" "allocated ?sb ?c x" "x \<notin> file_blocks ?c addrs" for x
  proof -
    have "x \<noteq> b" using x(2) P(3) by auto
    then show ?thesis using P(8) [OF x(1)] x(3) a A P(10) by (auto simp: in_file_blocks)
  qed
  ultimately show ?thesis
    using A P(7,9) z by (simp add: file_grow_def file_frame_def)
qed

section \<open>The block map\<close>

definition inode_ok :: "nat \<Rightarrow> 'a fsst_scheme \<Rightarrow> bool" where
  "inode_ok ip s \<longleftrightarrow> ip < length (icache s) \<and> i_dev (inode s ip) = 1 \<and>
     file_wf (fsb s) (content s) (i_addrs (inode s ip))"

text \<open>Between \<open>s\<close> and \<open>s'\<close> only the file at \<open>ip\<close> has been changed.\<close>

definition touched :: "nat \<Rightarrow> 'a fsst_scheme \<Rightarrow> 'a fsst_scheme \<Rightarrow> bool" where
  "touched ip s s' \<longleftrightarrow> fs_inv s' \<and> (\<exists>bs. fs_updated bs s s') \<and>
     file_frame (fsb s) (content s) (i_addrs (inode s ip)) (content s') (i_addrs (inode s' ip)) \<and>
     icache s' = (icache s)[ip := (inode s ip)\<lparr>i_addrs := i_addrs (inode s' ip)\<rparr>]"

lemma touched_refl: "fs_inv s \<Longrightarrow> inode_ok ip s \<Longrightarrow> touched ip s s"
  using fs_updated_updated [OF updated_refl [OF fs_invD(1)]]
  by (auto simp: touched_def inode_ok_def file_frame_refl)

lemma icache_addrs_trans:
  assumes "ict = (ics :: inode list)[ip := (ics ! ip)\<lparr>i_addrs := a\<rparr>]" "icu = ict[ip := (ict ! ip)\<lparr>i_addrs := b\<rparr>]"
  shows "icu = ics[ip := (ics ! ip)\<lparr>i_addrs := b\<rparr>]"
  using assms by (cases "ip < length ics") (simp_all add: list_update_beyond)

lemma touched_trans:
  assumes "touched ip s t" "touched ip t u"
  shows "touched ip s u"
proof -
  from assms obtain bs cs where "fs_updated bs s t" "fs_updated cs t u" by (auto simp: touched_def)
  then have "fs_updated (bs \<union> cs) s u" and fsb: "fsb t = fsb s"
    using fs_updated_trans fs_updatedD(12) by blast+
  moreover have "file_frame (fsb s) (content s) (i_addrs (inode s ip)) (content u) (i_addrs (inode u ip))"
  proof (rule file_frame_trans)
    show "file_frame (fsb s) (content s) (i_addrs (inode s ip)) (content t) (i_addrs (inode t ip))"
      using assms(1) by (simp add: touched_def)
    show "file_frame (fsb s) (content t) (i_addrs (inode t ip)) (content u) (i_addrs (inode u ip))"
      using assms(2) fsb by (simp add: touched_def)
  qed
  moreover have "icache u = (icache s)[ip := (inode s ip)\<lparr>i_addrs := i_addrs (inode u ip)\<rparr>]"
  proof (rule icache_addrs_trans)
    show "icache t = (icache s)[ip := (inode s ip)\<lparr>i_addrs := i_addrs (inode t ip)\<rparr>]"
      using assms(1) unfolding touched_def by blast
    show "icache u = (icache t)[ip := (inode t ip)\<lparr>i_addrs := i_addrs (inode u ip)\<rparr>]"
      using assms(2) unfolding touched_def by blast
  qed
  moreover have "fs_inv u" using assms(2) unfolding touched_def by blast
  ultimately show ?thesis unfolding touched_def by blast
qed

lemma touchedD:
  assumes "touched ip s s'"
  shows "fs_inv s'" "fsb s' = fsb s" "inode_ok ip s \<Longrightarrow> inode_ok ip s'"
    "\<exists>bs. fs_updated bs s s'" "j \<noteq> ip \<Longrightarrow> inode s' j = inode s j"
    "file_frame (fsb s) (content s) (i_addrs (inode s ip)) (content s') (i_addrs (inode s' ip))"
    "ip < length (icache s) \<Longrightarrow> inode s' ip = (inode s ip)\<lparr>i_addrs := i_addrs (inode s' ip)\<rparr>"
    "length (icache s') = length (icache s)"
proof -
  obtain bs where b: "fs_updated bs s s'" using assms by (auto simp: touched_def)
  show "fs_inv s'" "\<exists>bs. fs_updated bs s s'"
    "file_frame (fsb s) (content s) (i_addrs (inode s ip)) (content s') (i_addrs (inode s' ip))"
    using assms by (auto simp: touched_def)
  then have wf: "file_wf (fsb s) (content s') (i_addrs (inode s' ip))" by (simp add: file_frameD)
  show fsb: "fsb s' = fsb s" by (rule fs_updatedD [OF b])
  define a where "a = i_addrs (inode s' ip)"
  have ic: "icache s' = (icache s)[ip := (inode s ip)\<lparr>i_addrs := a\<rparr>]"
    using assms by (simp add: touched_def a_def)
  show "j \<noteq> ip \<Longrightarrow> inode s' j = inode s j" "length (icache s') = length (icache s)" by (simp_all add: ic)
  show e: "inode s' ip = (inode s ip)\<lparr>i_addrs := i_addrs (inode s' ip)\<rparr>" if "ip < length (icache s)"
    using that by (simp add: ic a_def [symmetric])
  show "inode_ok ip s'" if "inode_ok ip s"
  proof -
    have "ip < length (icache s)" "i_dev (inode s ip) = 1" using that by (auto simp: inode_ok_def)
    then show ?thesis using wf fsb by (simp add: inode_ok_def ic)
  qed
qed

text \<open>Only holes of the file at \<open>ip\<close> have been filled.\<close>

definition grown :: "nat \<Rightarrow> 'a fsst_scheme \<Rightarrow> 'a fsst_scheme \<Rightarrow> bool" where
  "grown ip s s' \<longleftrightarrow> touched ip s s' \<and>
     (\<forall>bn < MAXFILE. file_block (content s') (i_addrs (inode s' ip)) bn = file_block (content s) (i_addrs (inode s ip)) bn)"

lemma grown_refl: "fs_inv s \<Longrightarrow> inode_ok ip s \<Longrightarrow> grown ip s s"
  by (simp add: grown_def touched_refl)

lemma grown_trans: "grown ip s t \<Longrightarrow> grown ip t u \<Longrightarrow> grown ip s u"
  using touched_trans [of ip s t u] by (simp add: grown_def)

lemma grownI:
  assumes "fs_inv s'" "fs_updated bs s s'"
    "file_grow (fsb s) (content s) (i_addrs (inode s ip)) (content s') (i_addrs (inode s' ip))"
    "icache s' = (icache s)[ip := (inode s ip)\<lparr>i_addrs := i_addrs (inode s' ip)\<rparr>]"
  shows "grown ip s s'"
  using assms by (auto simp: grown_def touched_def file_grow_def)

lemma grownD:
  assumes "grown ip s s'"
  shows "touched ip s s'" "fs_inv s'" "inode_ok ip s \<Longrightarrow> inode_ok ip s'"
    "bn < MAXFILE \<Longrightarrow> file_block (content s') (i_addrs (inode s' ip)) bn = file_block (content s) (i_addrs (inode s ip)) bn"
  using assms touchedD(1,3) by (auto simp: grown_def)

lemma bmap_slot_spec:
  assumes inv: "fs_inv s" and ok: "inode_ok ip s" and k: "k \<le> NDIRECT" and b: "bmap_slot ip k s = Ok a s'"
  shows "grown ip s s'" "i_addrs (inode s' ip) ! k = of_nat a" "of_nat a \<noteq> (0 :: u32)" "unat (of_nat a :: u32) = a"
proof -
  let ?addrs = "i_addrs (inode s ip)"
  have wf: "file_wf (fsb s) (content s) ?addrs" and dev: "i_dev (inode s ip) = 1" and ip: "ip < length (icache s)"
    using ok by (auto simp: inode_ok_def)
  have "grown ip s s' \<and> i_addrs (inode s' ip) ! k = of_nat a \<and> of_nat a \<noteq> (0 :: u32) \<and> unat (of_nat a :: u32) = a"
  proof (cases "?addrs ! k = 0")
    case False
    with b have "a = unat (?addrs ! k)" "s' = s" by (auto simp: bmap_slot_def)
    then show ?thesis using False grown_refl [OF inv ok] by simp
  next
    case True
    from b True dev obtain s1 where b1: "balloc 1 s = Ok a s1"
      and s': "s' = upd_inode ip (\<lambda>i. i\<lparr>i_addrs := (i_addrs i)[k := of_nat a]\<rparr>) s1"
      by (auto simp: bmap_slot_def on_eq_Ok)
    note p = balloc_spec [OF inv b1]
    note P = balloc_postD [OF inv p]
    have ic: "icache s1 = icache s" by (rule updated_fsst [OF P(5)])
    have i': "inode s' ip = (inode s ip)\<lparr>i_addrs := ?addrs[k := of_nat a]\<rparr>" using ip ic by (simp add: s' nth_upd_inode)
    have ia: "i_addrs (inode s' ip) = ?addrs[k := of_nat a]" by (simp add: i')
    have cs: "content s' = content s1" by (simp add: s')
    have "file_grow (fsb s) (content s) ?addrs (content s1) (?addrs[k := of_nat a])"
      using file_grow_direct [OF inv wf p _ True] file_grow_indirect [OF inv wf p] True k by (cases "k = NDIRECT") auto
    then have 1: "file_grow (fsb s) (content s) ?addrs (content s') (i_addrs (inode s' ip))" unfolding ia cs .
    have 2: "fs_updated ({BBLOCK a (fsb s), a} \<union> {}) s s'"
      unfolding s' by (rule fs_updated_trans [OF fs_updated_updated [OF P(5)] fs_updated_upd_inode [OF updatedD(1) [OF P(5)]]])
    have 3: "icache s' = (icache s)[ip := (inode s ip)\<lparr>i_addrs := i_addrs (inode s' ip)\<rparr>]"
      unfolding ia using ic by (simp add: s' upd_inode_def)
    have "fs_inv s'" using P(4) by (simp add: s')
    from grownI [OF this 2 1 3] have "grown ip s s'" .
    moreover have "k < length ?addrs" using file_wfD(1) [OF wf] k by simp
    ultimately show ?thesis using P(10,11) by (simp add: i')
  qed
  then show "grown ip s s'" "i_addrs (inode s' ip) ! k = of_nat a" "of_nat a \<noteq> (0 :: u32)" "unat (of_nat a :: u32) = a"
    by auto
qed

lemma fs_inv_bread:
  assumes "fs_inv s" "bread 1 a s = Ok i s1"
  shows "fs_inv s1"
proof -
  note A = bread_spec [OF fs_invD(5) [OF assms(1)] assms(2)]
  show ?thesis
    using fs_invD(4) [OF assms(1)]
    by (intro fs_inv_cong [OF assms(1) log_inv_bread [OF fs_invD(1) [OF assms(1)] assms(2)] same_rest_log_rest [OF A(11)]])
       (simp add: A)
qed

lemma grown_updated:
  assumes ok: "inode_ok ip s" and inv: "fs_inv s'" and up: "updated bs s s'"
    and g: "file_grow (fsb s) (content s) (i_addrs (inode s ip)) (content s') (i_addrs (inode s ip))"
  shows "grown ip s s'"
proof -
  have ic: "icache s' = icache s" by (rule updated_fsst [OF up])
  show ?thesis
    by (rule grownI [OF inv fs_updated_updated [OF up]]) (use g ic in simp_all)
qed

lemma bmap_spec:
  assumes inv: "fs_inv s" and ok: "inode_ok ip s" and b: "bmap ip bn s = Ok a s'"
  shows "grown ip s s'" "bn < MAXFILE" "blk_addr (content s') (i_addrs (inode s' ip)) bn = of_nat a"
    "of_nat a \<noteq> (0 :: u32)" "unat (of_nat a :: u32) = a"
proof -
  have "grown ip s s' \<and> bn < MAXFILE \<and> blk_addr (content s') (i_addrs (inode s' ip)) bn = of_nat a \<and>
    of_nat a \<noteq> (0 :: u32) \<and> unat (of_nat a :: u32) = a"
  proof (cases "bn < NDIRECT")
    case True
    with b have "bmap_slot ip bn s = Ok a s'" by (simp add: bmap_def)
    from bmap_slot_spec [OF inv ok _ this] True show ?thesis by (simp add: blk_addr_def)
  next
    case False
    define j where "j = bn - NDIRECT"
    from b False have j: "j < NINDIRECT" by (auto simp: bmap_def j_def split: if_splits)
    from b False j obtain ind s1 where sl: "bmap_slot ip NDIRECT s = Ok ind s1" and r1: "bmap_entry ip j ind s1 = Ok a s'"
      by (auto simp: bmap_def j_def on_eq_Ok)
    note S = bmap_slot_spec [OF inv ok _ sl, simplified]
    note G = grownD [OF S(1)]
    have inv1: "fs_inv s1" and ok1: "inode_ok ip s1" using G(2,3) ok by auto
    let ?addrs = "i_addrs (inode s1 ip)" and ?c = "content s1"
    have wf1: "file_wf (fsb s1) ?c ?addrs" and dev1: "i_dev (inode s1 ip) = 1" using ok1 by (auto simp: inode_ok_def)
    have ind: "unat (?addrs ! NDIRECT) = ind" "?addrs ! NDIRECT \<noteq> 0" using S(2,3,4) by simp_all
    from r1 [unfolded bmap_entry_def dev1] obtain bp s2 where br: "bread 1 ind s1 = Ok bp s2"
      and r2: "(let a = get32 (b_data (buf s2 bp)) (4 * j) in
        on (if a = 0 then
              on (balloc (i_dev (inode s2 ip)) s2) (\<lambda>addr s.
              on (log_write bp (upd_data bp (put32 (4 * j) (of_nat addr)) s)) (\<lambda>_ s.
              Ok addr s))
            else Ok (unat a) s2) (\<lambda>addr s.
        on (brelse bp s) (\<lambda>_ s.
        Ok addr s))) = Ok a s'"
      by (rule onE)
    note A = bread_spec [OF fs_invD(5) [OF inv1] br]
    have inv2: "fs_inv s2" by (rule fs_inv_bread [OF inv1 br])
    have F2: "fsb s2 = fsb s1" "icache s2 = icache s1"
      using log_rest_fsst [OF same_rest_log_rest [OF A(11)]] by auto
    define w where "w = get32 (?c ind) (4 * j)"
    have dw: "get32 (b_data (buf s2 bp)) (4 * j) = w" using A(3) by (simp add: w_def)
    have bn: "bn = NDIRECT + j" "bn < MAXFILE" using False j by (simp_all add: j_def)
    show ?thesis
    proof (cases "w = 0")
      case False
      with r2 dw have a: "a = unat w" and rl: "brelse bp s2 = Ok () s'" by (auto simp: on_eq_Ok)
      have u2: "updated {} s2 s2" by (rule updated_refl [OF fs_invD(1) [OF inv2]])
      obtain z where z: "brelse bp s2 = Ok () z" and Z: "updated {} s1 z" "content z = content s2"
        by (rule bracket_release [OF fs_invD(1) [OF inv1] br u2])
      have [simp]: "z = s'" using z rl by simp
      have c': "content s' = ?c" using Z(2) A(5) by simp
      have "grown ip s1 s'"
        using grown_updated [OF ok1 fs_inv_read(1) [OF inv1] Z(1)] Z(1) c' file_grow_refl [OF wf1] by simp
      moreover have "i_addrs (inode s' ip) = ?addrs" using updated_fsst(2) [OF Z(1)] by simp
      then have "blk_addr (content s') (i_addrs (inode s' ip)) bn = w"
        using c' ind bn by (simp add: blk_addr_def w_def)
      ultimately show ?thesis using grown_trans [OF S(1)] False bn(2) a by auto
    next
      case True
      with r2 dw dev1 F2 obtain s3 v s4 where ba: "balloc 1 s2 = Ok a s3"
        and lw: "log_write bp (upd_data bp (put32 (4 * j) (of_nat a)) s3) = Ok v s4" and rl: "brelse bp s4 = Ok () s'"
        by (auto simp: on_eq_Ok)
      note p = balloc_spec [OF inv2 ba]
      note P = balloc_postD [OF inv2 p]
      have gi: "good (fsb s1) ?c (?addrs ! NDIRECT)" by (rule file_wfD(2) [OF wf1 ind(2)])
      then have ds: "datastart (fsb s1) \<le> ind" using ind by (simp add: good_def)
      have nr: "ind \<notin> log_region s1" by (rule region_bounds(4) [OF inv1 ds])
      have len: "length (put32 (4 * j) (of_nat a) (content s3 ind)) = BSIZE"
        using length_content [OF fs_invD(5) [OF P(4)]] by simp
      note M = bracket_modify [where f = "put32 (4 * j) (of_nat a)", OF fs_invD(1) [OF inv1] br P(5) nr len lw rl]
      have wf2: "file_wf (fsb s2) (content s2) ?addrs" using wf1 F2 A(5) by simp
      have g: "file_grow (fsb s1) ?c ?addrs (content s') ?addrs"
        using file_grow_entry [OF inv2 wf2 p ind(2) j(1) _ refl] True M(2) F2 A(5) ind(1) by (simp add: w_def)
      have F': "icache s' = icache s1" "fsb s' = fsb s1" using updated_fsst [OF M(1)] by auto
      have "fs_inv s'"
      proof (rule fs_inv_cong [OF inv1 updatedD(1,6) [OF M(1)]])
        fix b assume b: "b < datastart (fsb s1)"
        have "datastart (fsb s1) \<le> unat (sb_size (fsb s1))" using fs_invD(2) [OF inv1] by (simp add: sb_ok_def)
        then show "allocated (fsb s1) (content s') b"
          using file_frameD(5) [OF file_growD(1) [OF g]] fs_invD(4) [OF inv1 b] b by simp
      qed
      then have "grown ip s1 s'" using grown_updated [OF ok1 _ M(1) g] by simp
      moreover have "get32 (content s' ind) (4 * j) = of_nat a"
        using j(1) length_content [OF fs_invD(5) [OF P(4)]] by (simp add: M(2) get32_put32_same)
      then have "blk_addr (content s') (i_addrs (inode s' ip)) bn = of_nat a"
        using ind bn F' by (simp add: blk_addr_def)
      ultimately show ?thesis using grown_trans [OF S(1)] bn(2) P(10,11) by auto
    qed
  qed
  then show "grown ip s s'" "bn < MAXFILE" "blk_addr (content s') (i_addrs (inode s' ip)) bn = of_nat a"
    "of_nat a \<noteq> (0 :: u32)" "unat (of_nat a :: u32) = a"
    by auto
qed

end
