(* ===== verification/Fs_File.thy ===== *)
theory Fs_File
  imports Console Strings Fs_Bmap
begin

text \<open>
  Reading and writing the content of an inode (\<^verbatim>\<open>readi\<close>, \<^verbatim>\<open>writei\<close>), directories
  (\<^verbatim>\<open>dirlookup\<close>, \<^verbatim>\<open>dirlink\<close>) and path names (\<^verbatim>\<open>skipelem\<close>, \<^verbatim>\<open>namex\<close>) of
  \<^verbatim>\<open>system/storage/fs.c\<close>. A routine that fills a buffer of its caller returns the bytes it
  stores there; a routine that reads one takes them. Offsets are numbers once the code has
  checked that they do not wrap.
\<close>

section \<open>Inode content\<close>

text \<open>\<^verbatim>\<open>ip->major < 0 || ip->major >= NDEV || !devsw[ip->major].read\<close>\<close>

definition has_dev :: "bool list \<Rightarrow> u16 \<Rightarrow> bool" where
  "has_dev devs major \<longleftrightarrow> \<not> (sint major < 0 \<or> sint major \<ge> int NDEV) \<and> devs ! nat (sint major)"

function readi_loop :: "nat \<Rightarrow> nat \<Rightarrow> nat \<Rightarrow> byte list \<Rightarrow> 'a cst_scheme \<Rightarrow> ('a cst_scheme, byte list) outcome" where
  "readi_loop ip off n dst s =
     (if n = 0 then Ok dst s
      else
        on (bmap ip (off div BSIZE) s) (\<lambda>addr s.
        on (bread (i_dev (inode s ip)) addr s) (\<lambda>bp s.
        let m = min n (BSIZE - off mod BSIZE);
            chunk = slice (off mod BSIZE) m (b_data (buf s bp))
        in on (brelse bp s) (\<lambda>_ s. readi_loop ip (off + m) (n - m) (dst @ chunk) s))))"
  by pat_completeness auto
termination
  by (relation "measure (\<lambda>(_, _, n, _, _). n)") auto

declare readi_loop.simps [simp del]

text \<open>The result and the bytes stored at \<^verbatim>\<open>dst\<close>.\<close>

definition readi :: "nat \<Rightarrow> u32 \<Rightarrow> u32 \<Rightarrow> 'a cst_scheme \<Rightarrow> ('a cst_scheme, int \<times> byte list) outcome" where
  "readi ip off n s =
     (if i_type (inode s ip) = T_DEV then
        if \<not> has_dev (dev_read s) (i_major (inode s ip)) then Ok (-1, []) s
        else consoleread ip (nat (sint n)) s
      else if off > i_size (inode s ip) \<or> off + n < off then Ok (-1, []) s
      else
        (let n = (if off + n > i_size (inode s ip) then i_size (inode s ip) - off else n) in
         on (readi_loop ip (unat off) (unat n) [] s) (\<lambda>dst s.
         Ok (sint n, dst) s)))"

text \<open>The offset after the loop.\<close>

function writei_loop :: "nat \<Rightarrow> nat \<Rightarrow> byte list \<Rightarrow> 'a cst_scheme \<Rightarrow> ('a cst_scheme, nat) outcome" where
  "writei_loop ip off src s =
     (if src = [] then Ok off s
      else
        on (bmap ip (off div BSIZE) s) (\<lambda>addr s.
        on (bread (i_dev (inode s ip)) addr s) (\<lambda>bp s.
        let m = min (length src) (BSIZE - off mod BSIZE) in
        on (log_write bp (upd_data bp (splice (off mod BSIZE) (take m src)) s)) (\<lambda>_ s.
        on (brelse bp s) (\<lambda>_ s.
        writei_loop ip (off + m) (drop m src) s)))))"
  by pat_completeness auto
termination
  by (relation "measure (\<lambda>(_, _, src, _). length src)") auto

declare writei_loop.simps [simp del]

definition writei :: "nat \<Rightarrow> byte list \<Rightarrow> u32 \<Rightarrow> 'a cst_scheme \<Rightarrow> ('a cst_scheme, int) outcome" where
  "writei ip src off s =
     (let n = of_nat (length src) :: u32 in
      if i_type (inode s ip) = T_DEV then
        if \<not> has_dev (dev_write s) (i_major (inode s ip)) then Ok (-1) s
        else consolewrite ip src s
      else if off > i_size (inode s ip) \<or> off + n < off then Ok (-1) s
      else if unat (off + n) > MAXFILE * BSIZE then Ok (-1) s
      else
        on (writei_loop ip (unat off) src s) (\<lambda>off s.
        on (if n > 0 \<and> off > unat (i_size (inode s ip)) then
              iupdate ip (upd_inode ip (\<lambda>i. i\<lparr>i_size := of_nat off\<rparr>) s)
            else Ok () s) (\<lambda>_ s.
        Ok (sint n) s)))"

section \<open>Directories\<close>

definition namecmp :: "byte list \<Rightarrow> byte list \<Rightarrow> int" where
  "namecmp s t = strncmp s t DIRSIZ"

text \<open>A \<^verbatim>\<open>struct dirent\<close> is 16 bytes: the inode number and the name.\<close>

abbreviation (input) DIRENT :: nat where "DIRENT \<equiv> 16"

definition de_inum :: "byte list \<Rightarrow> u16" where
  "de_inum de = get16 de 0"

definition de_name :: "byte list \<Rightarrow> byte list" where
  "de_name de = take DIRSIZ (drop 2 de)"

definition de_make :: "u16 \<Rightarrow> byte list \<Rightarrow> byte list" where
  "de_make inum name = lo16 inum # hi16 inum # strncpy name DIRSIZ"

text \<open>The offsets \<^verbatim>\<open>for(off = 0; off < size; off += sizeof(de))\<close>.\<close>

definition dir_offs :: "u32 \<Rightarrow> nat list" where
  "dir_offs sz = map (\<lambda>k. DIRENT * k) [0..<(unat sz + (DIRENT - 1)) div DIRENT]"

text \<open>The inode found and the offset of its entry.\<close>

fun dirlookup_scan :: "nat \<Rightarrow> byte list \<Rightarrow> nat list \<Rightarrow> 'a cst_scheme \<Rightarrow> ('a cst_scheme, (nat \<times> nat) option) outcome" where
  "dirlookup_scan dp name [] s = Ok None s"
| "dirlookup_scan dp name (off # offs) s =
     on (readi dp (of_nat off) (of_nat DIRENT) s) (\<lambda>(r, de) s.
     if r \<noteq> int DIRENT then Panic ''dirlookup read''
     else if de_inum de = 0 then dirlookup_scan dp name offs s
     else if namecmp name (de_name de) = 0 then
       on (iget (i_dev (inode s dp)) (unat (de_inum de)) s) (\<lambda>ip s.
       Ok (Some (ip, off)) s)
     else dirlookup_scan dp name offs s)"

definition dirlookup :: "nat \<Rightarrow> byte list \<Rightarrow> 'a cst_scheme \<Rightarrow> ('a cst_scheme, (nat \<times> nat) option) outcome" where
  "dirlookup dp name s =
     (if i_type (inode s dp) \<noteq> T_DIR then Panic ''dirlookup not DIR''
      else dirlookup_scan dp name (dir_offs (i_size (inode s dp))) s)"

text \<open>The offset of the first empty entry, or the end of the directory.\<close>

fun dirlink_slot :: "nat \<Rightarrow> nat list \<Rightarrow> nat \<Rightarrow> 'a cst_scheme \<Rightarrow> ('a cst_scheme, nat) outcome" where
  "dirlink_slot dp [] off s = Ok off s"
| "dirlink_slot dp (off # offs) _ s =
     on (readi dp (of_nat off) (of_nat DIRENT) s) (\<lambda>(r, de) s.
     if r \<noteq> int DIRENT then Panic ''dirlink read''
     else if de_inum de = 0 then Ok off s
     else dirlink_slot dp offs (off + DIRENT) s)"

definition dirlink :: "nat \<Rightarrow> byte list \<Rightarrow> nat \<Rightarrow> 'a cst_scheme \<Rightarrow> ('a cst_scheme, int) outcome" where
  "dirlink dp name inum s =
     on (dirlookup dp name s) (\<lambda>found s.
     case found of
       Some (ip, _) \<Rightarrow> on (iput ip s) (\<lambda>_ s. Ok (-1) s)
     | None \<Rightarrow>
         on (dirlink_slot dp (dir_offs (i_size (inode s dp))) 0 s) (\<lambda>off s.
         on (writei dp (de_make (of_nat inum) name) (of_nat off) s) (\<lambda>r s.
         if r \<noteq> int DIRENT then Panic ''dirlink'' else Ok 0 s)))"

section \<open>Path names\<close>

text \<open>A path is the bytes before its terminating zero; 47 is the slash. The result is the rest of
  the path and the element, cut to \<^verbatim>\<open>DIRSIZ\<close> bytes.\<close>

definition skipelem :: "byte list \<Rightarrow> (byte list \<times> byte list) option" where
  "skipelem path =
     (let path = dropWhile (\<lambda>c. c = 47) path in
      if path = [] then None
      else
        (let elem = takeWhile (\<lambda>c. c \<noteq> 47) path;
             path = dropWhile (\<lambda>c. c \<noteq> 47) path
         in Some (dropWhile (\<lambda>c. c = 47) path, take DIRSIZ elem)))"

lemma skipelem_shorter: "skipelem path = Some (path', name) \<Longrightarrow> length path' < length path"
proof -
  assume h: "skipelem path = Some (path', name)"
  let ?p = "dropWhile (\<lambda>c. c = 47) path"
  from h have ne: "?p \<noteq> []" and p': "path' = dropWhile (\<lambda>c. c = 47) (dropWhile (\<lambda>c. c \<noteq> 47) ?p)"
    by (auto simp: skipelem_def Let_def split: if_splits)
  have hd: "hd ?p \<noteq> 47" using hd_dropWhile [OF ne] .
  have "length path' \<le> length (dropWhile (\<lambda>c. c \<noteq> 47) ?p)" unfolding p' by (rule length_dropWhile_le)
  also have "\<dots> < length ?p"
    using ne hd length_dropWhile_le [of "\<lambda>c. c \<noteq> 47" "tl ?p"] by (cases ?p) auto
  also have "\<dots> \<le> length path" by (rule length_dropWhile_le)
  finally show ?thesis .
qed

text \<open>The loop of \<^verbatim>\<open>namex\<close> from inode \<open>ip\<close> on; \<open>None\<close> is the null pointer, the second result is the
  content of \<^verbatim>\<open>name\<close>.\<close>

function namex_loop :: "nat \<Rightarrow> byte list \<Rightarrow> bool \<Rightarrow> byte list \<Rightarrow> 'a cst_scheme \<Rightarrow> ('a cst_scheme, nat option \<times> byte list) outcome" where
  "namex_loop ip path parent name s =
     (case skipelem path of
        None \<Rightarrow>
          if parent then on (iput ip s) (\<lambda>_ s. Ok (None, name) s) else Ok (Some ip, name) s
      | Some (path', name') \<Rightarrow>
          on (ilock ip s) (\<lambda>_ s.
          if i_type (inode s ip) \<noteq> T_DIR then on (iunlockput ip s) (\<lambda>_ s. Ok (None, name') s)
          else if parent \<and> path' = [] then on (iunlock ip s) (\<lambda>_ s. Ok (Some ip, name') s)
          else
            on (dirlookup ip name' s) (\<lambda>found s.
            case found of
              None \<Rightarrow> on (iunlockput ip s) (\<lambda>_ s. Ok (None, name') s)
            | Some (next, _) \<Rightarrow> on (iunlockput ip s) (\<lambda>_ s. namex_loop next path' parent name' s))))"
  by pat_completeness auto
termination
  by (relation "measure (\<lambda>(_, path, _, _, _). length path)") (auto dest: skipelem_shorter)

declare namex_loop.simps [simp del]

definition namex :: "byte list \<Rightarrow> bool \<Rightarrow> 'a cst_scheme \<Rightarrow> ('a cst_scheme, nat option \<times> byte list) outcome" where
  "namex path parent s =
     (if ch path = 47 then on (iget ROOTDEV ROOTINO s) (\<lambda>ip s. namex_loop ip path parent [] s)
      else (case p_cwd (myproc s) of
              None \<Rightarrow> Undef ''idup: null inode''
            | Some ip \<Rightarrow> namex_loop ip path parent [] (idup ip s)))"

definition namei :: "byte list \<Rightarrow> 'a cst_scheme \<Rightarrow> ('a cst_scheme, nat option) outcome" where
  "namei path s = on (namex path False s) (\<lambda>(ip, _) s. Ok ip s)"

definition nameiparent :: "byte list \<Rightarrow> 'a cst_scheme \<Rightarrow> ('a cst_scheme, nat option \<times> byte list) outcome" where
  "nameiparent path s = namex path True s"

end
