(* ===== verification/Vm.thy ===== *)
theory Vm
  imports Kalloc Fs_File
begin

text \<open>
  Page tables and user address spaces (\<^verbatim>\<open>system/memory/vm.c\<close>, \<^verbatim>\<open>include/mmu.h\<close>). Page directories
  and page tables are pages of the memory, read and written word by word as the code does; a
  null pointer is 0.
\<close>

section \<open>State\<close>

text \<open>The symbol \<^verbatim>\<open>data\<close> of the linker script, \<^verbatim>\<open>kpgdir\<close>, the page table register and the kernel stack
  pointer of the task state segment.\<close>

record vst = mst +
  kdata :: u32
  kpgdir :: u32
  cr3 :: u32
  ts_esp0 :: u32

abbreviation (input) EXTMEM :: u32 where "EXTMEM \<equiv> 0x100000"
abbreviation (input) DEVSPACE :: u32 where "DEVSPACE \<equiv> 0xFE000000"
abbreviation (input) KERNLINK :: u32 where "KERNLINK \<equiv> 0x80100000"
abbreviation (input) PTE_P :: u32 where "PTE_P \<equiv> 1"
abbreviation (input) PTE_W :: u32 where "PTE_W \<equiv> 2"
abbreviation (input) PTE_U :: u32 where "PTE_U \<equiv> 4"
abbreviation (input) KSTACKSIZE :: u32 where "KSTACKSIZE \<equiv> 4096"

definition PDX :: "u32 \<Rightarrow> u32" where
  "PDX va = drop_bit 22 va AND 0x3FF"

definition PTX :: "u32 \<Rightarrow> u32" where
  "PTX va = drop_bit 12 va AND 0x3FF"

definition PGADDR :: "u32 \<Rightarrow> u32 \<Rightarrow> u32 \<Rightarrow> u32" where
  "PGADDR d t o' = push_bit 22 d OR push_bit 12 t OR o'"

definition PTE_ADDR :: "u32 \<Rightarrow> u32" where
  "PTE_ADDR pte = pte AND NOT 0xFFF"

definition PTE_FLAGS :: "u32 \<Rightarrow> u32" where
  "PTE_FLAGS pte = pte AND 0xFFF"

definition store32 :: "u32 \<Rightarrow> u32 \<Rightarrow> 'a mst_scheme \<Rightarrow> 'a mst_scheme" where
  "store32 a w s = s\<lparr>memory := write32 a w (memory s)\<rparr>"

definition load32 :: "'a mst_scheme \<Rightarrow> u32 \<Rightarrow> u32" where
  "load32 s a = read32 (memory s) a"

text \<open>Storing bytes at an address.\<close>

fun store_bytes :: "u32 \<Rightarrow> byte list \<Rightarrow> mem \<Rightarrow> mem" where
  "store_bytes a [] m = m"
| "store_bytes a (b # bs) m = store_bytes (a + 1) bs (m(a := b))"

definition zero_page :: "u32 \<Rightarrow> 'a mst_scheme \<Rightarrow> 'a mst_scheme" where
  "zero_page p s = s\<lparr>memory := memset p 0 PGSIZE (memory s)\<rparr>"

text \<open>The values of \<open>i\<close> in \<^verbatim>\<open>for(i = a; i < b; i += PGSIZE)\<close>.\<close>

definition page_addrs :: "u32 \<Rightarrow> u32 \<Rightarrow> u32 list" where
  "page_addrs a b = map (\<lambda>k. a + of_nat (k * PGSIZE)) [0..<(unat b - unat a + (PGSIZE - 1)) div PGSIZE]"

section \<open>Page tables\<close>

definition walkpgdir :: "u32 \<Rightarrow> u32 \<Rightarrow> bool \<Rightarrow> 'a mst_scheme \<Rightarrow> u32 \<times> 'a mst_scheme" where
  "walkpgdir pgdir va alloc s =
     (let pde = pgdir + 4 * PDX va in
      if load32 s pde AND PTE_P \<noteq> 0 then (P2V (PTE_ADDR (load32 s pde)) + 4 * PTX va, s)
      else if \<not> alloc then (0, s)
      else
        (let (pgtab, s) = kalloc s in
         if pgtab = 0 then (0, s)
         else (pgtab + 4 * PTX va,
               store32 pde (V2P pgtab OR PTE_P OR PTE_W OR PTE_U) (zero_page pgtab s))))"

text \<open>The loop of \<^verbatim>\<open>mappages\<close>, with \<open>n\<close> more turns to go after this one: \<open>a\<close> and \<open>last\<close> are both
  page aligned, so \<open>a\<close> reaches \<open>last\<close> after \<^verbatim>\<open>(last - a) / PGSIZE\<close> turns.\<close>

fun mappages_loop :: "u32 \<Rightarrow> u32 \<Rightarrow> u32 \<Rightarrow> u32 \<Rightarrow> nat \<Rightarrow> 'a mst_scheme \<Rightarrow> ('a mst_scheme, int) outcome" where
  "mappages_loop pgdir a pa perm n s =
     (let (pte, s) = walkpgdir pgdir a True s in
      if pte = 0 then Ok (-1) s
      else if load32 s pte AND PTE_P \<noteq> 0 then Panic ''remap''
      else
        (let s = store32 pte (pa OR perm OR PTE_P) s in
         case n of 0 \<Rightarrow> Ok 0 s | Suc n \<Rightarrow> mappages_loop pgdir (a + 4096) (pa + 4096) perm n s))"

declare mappages_loop.simps [simp del]

definition mappages :: "u32 \<Rightarrow> u32 \<Rightarrow> u32 \<Rightarrow> u32 \<Rightarrow> u32 \<Rightarrow> 'a mst_scheme \<Rightarrow> ('a mst_scheme, int) outcome" where
  "mappages pgdir va sz pa perm s =
     (let a = PGROUNDDOWN va; last = PGROUNDDOWN (va + sz - 1)
      in mappages_loop pgdir a pa perm (unat (last - a) div PGSIZE) s)"

section \<open>User memory\<close>

text \<open>
  The loop of \<^verbatim>\<open>deallocuvm\<close> from \<open>a\<close> on. It only ends if \<open>a\<close> does not pass the end of the address
  space; a turn that would is reported as \<open>Undef\<close>.
\<close>

definition dealloc_next :: "u32 \<Rightarrow> bool \<Rightarrow> u32" where
  "dealloc_next a skip = (if skip then PGADDR (PDX a + 1) 0 0 - 4096 + 4096 else a + 4096)"

definition dealloc_page :: "u32 \<Rightarrow> 'a mst_scheme \<Rightarrow> ('a mst_scheme, unit) outcome" where
  "dealloc_page pte s =
     (if load32 s pte AND PTE_P \<noteq> 0 then
        (let pa = PTE_ADDR (load32 s pte) in
         if pa = 0 then Panic ''kfree''
         else on (kfree (P2V pa) s) (\<lambda>_ s. Ok () (store32 pte 0 s)))
      else Ok () s)"

function deallocuvm_loop :: "u32 \<Rightarrow> u32 \<Rightarrow> u32 \<Rightarrow> 'a mst_scheme \<Rightarrow> ('a mst_scheme, unit) outcome" where
  "deallocuvm_loop pgdir a oldsz s =
     (if a < oldsz then
        (let pte = fst (walkpgdir pgdir a False s) in
         on (if pte = 0 then Ok () s else dealloc_page pte s) (\<lambda>_ s.
         if dealloc_next a (pte = 0) \<le> a then Undef ''deallocuvm: address wraps''
         else deallocuvm_loop pgdir (dealloc_next a (pte = 0)) oldsz s))
      else Ok () s)"
  by pat_completeness auto
termination
proof (relation "measure (\<lambda>(_, a, _, _). 2 ^ 32 - unat a)")
  fix pgdir a oldsz :: u32 and s s' :: "'a mst_scheme" and pte :: u32
  assume "\<not> dealloc_next a (pte = 0) \<le> a"
  then have "unat a < unat (dealloc_next a (pte = 0))" by (simp add: word_le_nat_alt)
  then show "((pgdir, dealloc_next a (pte = 0), oldsz, s'), pgdir, a, oldsz, s) \<in> measure (\<lambda>(_, a, _, _). 2 ^ 32 - unat a)"
    using unat_lt32 [of "dealloc_next a (pte = 0)"] by simp
qed simp

declare deallocuvm_loop.simps [simp del]

definition deallocuvm :: "u32 \<Rightarrow> u32 \<Rightarrow> u32 \<Rightarrow> 'a mst_scheme \<Rightarrow> ('a mst_scheme, u32) outcome" where
  "deallocuvm pgdir oldsz newsz s =
     (if newsz \<ge> oldsz then Ok oldsz s
      else on (deallocuvm_loop pgdir (PGROUNDUP newsz) oldsz s) (\<lambda>_ s. Ok newsz s))"

definition freevm_entry :: "u32 \<Rightarrow> nat \<Rightarrow> 'a mst_scheme \<Rightarrow> ('a mst_scheme, unit) outcome" where
  "freevm_entry pgdir i s =
     (let pde = load32 s (pgdir + of_nat (4 * i)) in
      if pde AND PTE_P \<noteq> 0 then kfree (P2V (PTE_ADDR pde)) s else Ok () s)"

definition freevm :: "u32 \<Rightarrow> 'a mst_scheme \<Rightarrow> ('a mst_scheme, unit) outcome" where
  "freevm pgdir s =
     (if pgdir = 0 then Panic ''freevm: no pgdir''
      else
        on (deallocuvm pgdir KERNBASE 0 s) (\<lambda>_ s.
        on (loop (freevm_entry pgdir) [0..<1024] s) (\<lambda>_ s.
        kfree pgdir s)))"

text \<open>The table \<^verbatim>\<open>kmap\<close>: virtual start, physical start and end, permissions.\<close>

definition kmap :: "u32 \<Rightarrow> (u32 \<times> u32 \<times> u32 \<times> u32) list" where
  "kmap data =
     [(KERNBASE, 0, EXTMEM, PTE_W),
      (KERNLINK, V2P KERNLINK, V2P data, 0),
      (data, V2P data, PHYSTOP, PTE_W),
      (DEVSPACE, DEVSPACE, 0, PTE_W)]"

text \<open>False if an entry could not be mapped.\<close>

fun setupkvm_loop :: "u32 \<Rightarrow> (u32 \<times> u32 \<times> u32 \<times> u32) list \<Rightarrow> 'a mst_scheme \<Rightarrow> ('a mst_scheme, bool) outcome" where
  "setupkvm_loop pgdir [] s = Ok True s"
| "setupkvm_loop pgdir ((virt, phys_start, phys_end, perm) # ks) s =
     on (mappages pgdir virt (phys_end - phys_start) phys_start perm s) (\<lambda>r s.
     if r < 0 then Ok False s else setupkvm_loop pgdir ks s)"

definition setupkvm :: "'a vst_scheme \<Rightarrow> ('a vst_scheme, u32) outcome" where
  "setupkvm s =
     (let (pgdir, s) = kalloc s in
      if pgdir = 0 then Ok 0 s
      else
        (let s = zero_page pgdir s in
         if P2V PHYSTOP > DEVSPACE then Panic ''PHYSTOP too high''
         else
           on (setupkvm_loop pgdir (kmap (kdata s)) s) (\<lambda>ok s.
           if ok then Ok pgdir s else on (freevm pgdir s) (\<lambda>_ s. Ok 0 s))))"

definition switchkvm :: "'a vst_scheme \<Rightarrow> 'a vst_scheme" where
  "switchkvm s = s\<lparr>cr3 := V2P (kpgdir s)\<rparr>"

definition kvmalloc :: "'a vst_scheme \<Rightarrow> ('a vst_scheme, unit) outcome" where
  "kvmalloc s = on (setupkvm s) (\<lambda>pgdir s. Ok () (switchkvm (s\<lparr>kpgdir := pgdir\<rparr>)))"

text \<open>\<^verbatim>\<open>switchuvm(p)\<close> for the process in slot \<open>p\<close>: the segment descriptor of the task state segment is
  not modelled.\<close>

definition switchuvm :: "nat \<Rightarrow> 'a vst_scheme \<Rightarrow> ('a vst_scheme, unit) outcome" where
  "switchuvm p s =
     (if p_kstack (ptable s ! p) = 0 then Panic ''switchuvm: no kstack''
      else if p_pgdir (ptable s ! p) = 0 then Panic ''switchuvm: no pgdir''
      else Ok () (s\<lparr>ts_esp0 := p_kstack (ptable s ! p) + KSTACKSIZE, cr3 := V2P (p_pgdir (ptable s ! p))\<rparr>))"

definition inituvm :: "u32 \<Rightarrow> byte list \<Rightarrow> 'a mst_scheme \<Rightarrow> ('a mst_scheme, unit) outcome" where
  "inituvm pgdir init s =
     (if length init \<ge> PGSIZE then Panic ''inituvm: more than a page''
      else
        (let (mem, s) = kalloc s in
         if mem = 0 then Undef ''inituvm: null page''
         else
           on (mappages pgdir 0 4096 (V2P mem) (PTE_W OR PTE_U) (zero_page mem s)) (\<lambda>_ s.
           Ok () (s\<lparr>memory := store_bytes mem init (memory s)\<rparr>))))"

definition loaduvm_page :: "u32 \<Rightarrow> u32 \<Rightarrow> nat \<Rightarrow> u32 \<Rightarrow> u32 \<Rightarrow> u32 \<Rightarrow> 'a mst_scheme \<Rightarrow> ('a mst_scheme, bool) outcome" where
  "loaduvm_page pgdir addr ip offset sz i s =
     (let pte = fst (walkpgdir pgdir (addr + i) False s) in
      if pte = 0 then Panic ''loaduvm: address should exist''
      else
        (let pa = PTE_ADDR (load32 s pte);
             n = (if sz - i < 4096 then sz - i else 4096)
         in on (readi ip (offset + i) n s) (\<lambda>(r, bs) s.
            Ok (r = sint n) (s\<lparr>memory := store_bytes (P2V pa) bs (memory s)\<rparr>))))"

fun loaduvm_loop :: "u32 \<Rightarrow> u32 \<Rightarrow> nat \<Rightarrow> u32 \<Rightarrow> u32 \<Rightarrow> u32 list \<Rightarrow> 'a mst_scheme \<Rightarrow> ('a mst_scheme, int) outcome" where
  "loaduvm_loop pgdir addr ip offset sz [] s = Ok 0 s"
| "loaduvm_loop pgdir addr ip offset sz (i # is) s =
     on (loaduvm_page pgdir addr ip offset sz i s) (\<lambda>ok s.
     if \<not> ok then Ok (-1) s else loaduvm_loop pgdir addr ip offset sz is s)"

definition loaduvm :: "u32 \<Rightarrow> u32 \<Rightarrow> nat \<Rightarrow> u32 \<Rightarrow> u32 \<Rightarrow> 'a mst_scheme \<Rightarrow> ('a mst_scheme, int) outcome" where
  "loaduvm pgdir addr ip offset sz s =
     (if addr mod 4096 \<noteq> 0 then Panic ''loaduvm: addr must be page aligned''
      else loaduvm_loop pgdir addr ip offset sz (page_addrs 0 sz) s)"

text \<open>A console message without arguments.\<close>

definition kprint :: "string \<Rightarrow> 'a cst_scheme \<Rightarrow> ('a cst_scheme, unit) outcome" where
  "kprint msg s = cprintf (\<lambda>_. []) (\<lambda>_. 0) (map of_char msg) s"

fun allocuvm_loop :: "u32 \<Rightarrow> u32 \<Rightarrow> u32 \<Rightarrow> u32 list \<Rightarrow> 'a mst_scheme \<Rightarrow> ('a mst_scheme, u32) outcome" where
  "allocuvm_loop pgdir oldsz newsz [] s = Ok newsz s"
| "allocuvm_loop pgdir oldsz newsz (a # as) s =
     (let (mem, s) = kalloc s in
      if mem = 0 then
        on (kprint ''allocuvm out of memory\<newline>'' s) (\<lambda>_ s.
        on (deallocuvm pgdir newsz oldsz s) (\<lambda>_ s. Ok 0 s))
      else
        on (mappages pgdir a 4096 (V2P mem) (PTE_W OR PTE_U) (zero_page mem s)) (\<lambda>r s.
        if r < 0 then
          on (kprint ''allocuvm out of memory (2)\<newline>'' s) (\<lambda>_ s.
          on (deallocuvm pgdir newsz oldsz s) (\<lambda>_ s.
          on (kfree mem s) (\<lambda>_ s. Ok 0 s)))
        else allocuvm_loop pgdir oldsz newsz as s))"

definition allocuvm :: "u32 \<Rightarrow> u32 \<Rightarrow> u32 \<Rightarrow> 'a mst_scheme \<Rightarrow> ('a mst_scheme, u32) outcome" where
  "allocuvm pgdir oldsz newsz s =
     (if newsz \<ge> KERNBASE then Ok 0 s
      else if newsz < oldsz then Ok oldsz s
      else allocuvm_loop pgdir oldsz newsz (page_addrs (PGROUNDUP oldsz) newsz) s)"

definition clearpteu :: "u32 \<Rightarrow> u32 \<Rightarrow> 'a mst_scheme \<Rightarrow> ('a mst_scheme, unit) outcome" where
  "clearpteu pgdir uva s =
     (let pte = fst (walkpgdir pgdir uva False s) in
      if pte = 0 then Panic ''clearpteu''
      else Ok () (store32 pte (load32 s pte AND NOT PTE_U) s))"

text \<open>The loop of \<^verbatim>\<open>copyuvm\<close>; false stands for \<^verbatim>\<open>goto bad\<close>.\<close>

fun copyuvm_loop :: "u32 \<Rightarrow> u32 \<Rightarrow> u32 list \<Rightarrow> 'a mst_scheme \<Rightarrow> ('a mst_scheme, bool) outcome" where
  "copyuvm_loop pgdir d [] s = Ok True s"
| "copyuvm_loop pgdir d (i # is) s =
     (let pte = fst (walkpgdir pgdir i False s) in
      if pte = 0 then Panic ''copyuvm: pte should exist''
      else if load32 s pte AND PTE_P = 0 then Panic ''copyuvm: page not present''
      else
        (let pa = PTE_ADDR (load32 s pte);
             flags = PTE_FLAGS (load32 s pte);
             (mem, s) = kalloc s
         in if mem = 0 then Ok False s
            else
              on (mappages d i 4096 (V2P mem) flags (s\<lparr>memory := memmove mem (P2V pa) PGSIZE (memory s)\<rparr>)) (\<lambda>r s.
              if r < 0 then on (kfree mem s) (\<lambda>_ s. Ok False s)
              else copyuvm_loop pgdir d is s)))"

definition copyuvm :: "u32 \<Rightarrow> u32 \<Rightarrow> 'a vst_scheme \<Rightarrow> ('a vst_scheme, u32) outcome" where
  "copyuvm pgdir sz s =
     on (setupkvm s) (\<lambda>d s.
     if d = 0 then Ok 0 s
     else
       on (copyuvm_loop pgdir d (page_addrs 0 sz) s) (\<lambda>ok s.
       if ok then Ok d s else on (freevm d s) (\<lambda>_ s. Ok 0 s)))"

definition uva2ka :: "u32 \<Rightarrow> u32 \<Rightarrow> 'a mst_scheme \<Rightarrow> ('a mst_scheme, u32) outcome" where
  "uva2ka pgdir uva s =
     (let pte = fst (walkpgdir pgdir uva False s) in
      if pte = 0 then Undef ''uva2ka: null pte''
      else if load32 s pte AND PTE_P = 0 then Ok 0 s
      else if load32 s pte AND PTE_U = 0 then Ok 0 s
      else Ok (P2V (PTE_ADDR (load32 s pte))) s)"

text \<open>The bit operations on addresses are divisions.\<close>

lemma mask12: "(4095 :: u32) = mask 12" "(1023 :: u32) = mask 10"
  by (simp_all add: mask_eq_exp_minus_1)

lemma unat_mask_low: "unat (a AND 0xFFF) = unat a mod PGSIZE" for a :: u32
  by (simp add: mask12 take_bit_eq_mask [symmetric] unsigned_take_bit_eq take_bit_eq_mod unat_mod)

lemma unat_PGROUNDDOWN: "unat (PGROUNDDOWN a) = unat a div PGSIZE * PGSIZE"
proof -
  have "PGROUNDDOWN a = push_bit 12 (drop_bit 12 a)"
    unfolding PGROUNDDOWN_def by (rule bit_word_eqI) (auto simp: mask12 bit_simps)
  moreover have "unat (push_bit 12 (drop_bit 12 a)) = take_bit 32 (push_bit 12 (drop_bit 12 (unat a)))"
    using unat_lt32 [of a] by (simp add: unsigned_push_bit_eq unsigned_drop_bit_eq take_bit_nat_eq_self)
  moreover have "unat a div PGSIZE * PGSIZE \<le> unat a" by simp
  then have "unat a div PGSIZE * PGSIZE < 2 ^ 32" using unat_lt32 [of a] by linarith
  ultimately show ?thesis by (simp add: push_bit_eq_mult drop_bit_eq_div take_bit_nat_eq_self)
qed

lemma unat_PDX: "unat (PDX va) = unat va div 2 ^ 22"
  using unat_lt32 [of va]
  by (simp add: PDX_def mask12 take_bit_eq_mask [symmetric] unsigned_take_bit_eq take_bit_eq_mod unsigned_drop_bit_eq drop_bit_eq_div unat_mod unat_div)

lemma unat_PTX: "unat (PTX va) = unat va div PGSIZE mod 1024"
  by (simp add: PTX_def mask12 take_bit_eq_mask [symmetric] unsigned_take_bit_eq take_bit_eq_mod unsigned_drop_bit_eq drop_bit_eq_div unat_mod unat_div)

lemma unat_page_off: "unat (va - PGROUNDDOWN va) = unat va mod PGSIZE"
proof -
  have "PGROUNDDOWN va \<le> va" by (simp add: word_le_nat_alt unat_PGROUNDDOWN)
  then have "unat (va - PGROUNDDOWN va) = unat va - unat (PGROUNDDOWN va)" by (rule unat_sub)
  then show ?thesis by (simp add: unat_PGROUNDDOWN minus_div_mult_eq_mod)
qed

function copyout :: "u32 \<Rightarrow> u32 \<Rightarrow> byte list \<Rightarrow> 'a mst_scheme \<Rightarrow> ('a mst_scheme, int) outcome" where
  "copyout pgdir va src s =
     (if src = [] then Ok 0 s
      else
        (let va0 = PGROUNDDOWN va in
         on (uva2ka pgdir va0 s) (\<lambda>pa0 s.
         if pa0 = 0 then Ok (-1) s
         else
           (let n = min (PGSIZE - unat (va - va0)) (length src) in
            copyout pgdir (va0 + 4096) (drop n src)
              (s\<lparr>memory := store_bytes (pa0 + (va - va0)) (take n src) (memory s)\<rparr>)))))"
  by pat_completeness auto
termination
proof (relation "measure (\<lambda>(_, _, src, _). length src)")
  fix pgdir va :: u32 and src :: "byte list" and s s' :: "'a mst_scheme" and va0 :: u32 and pa0 :: u32 and n
  assume "src \<noteq> []" "va0 = PGROUNDDOWN va" "n = min (PGSIZE - unat (va - va0)) (length src)"
  moreover have "unat va mod PGSIZE < PGSIZE" by simp
  ultimately have "0 < n" "src \<noteq> []" by (simp_all add: unat_page_off)
  then show "((pgdir, va0 + 4096, drop n src, s'\<lparr>memory := store_bytes (pa0 + (va - va0)) (take n src) (memory s')\<rparr>),
      pgdir, va, src, s) \<in> measure (\<lambda>(_, _, src, _). length src)" by simp
qed simp

declare copyout.simps [simp del]

end
