(* ===== verification/Pipe.thy ===== *)
theory Pipe
  imports Vm Ring
begin

text \<open>
  Pipes (\<^verbatim>\<open>system/core/pipe.c\<close>). A \<^verbatim>\<open>struct pipe\<close> lives in a page of its own, so the pipes are a
  store indexed by the page's address. \<^verbatim>\<open>pipealloc\<close>, which needs the file table, is in the
  theory of files.
\<close>

section \<open>State\<close>

abbreviation (input) PIPESIZE :: nat where "PIPESIZE \<equiv> 512"

record pipe =
  pi_data :: "byte list"
  pi_nread :: u32
  pi_nwrite :: u32
  pi_readopen :: bool
  pi_writeopen :: bool

record pist = vst +
  pipes :: "u32 \<Rightarrow> pipe"

definition upd_pipe :: "u32 \<Rightarrow> (pipe \<Rightarrow> pipe) \<Rightarrow> 'a pist_scheme \<Rightarrow> 'a pist_scheme" where
  "upd_pipe p f s = s\<lparr>pipes := (pipes s)(p := f (pipes s p))\<rparr>"

section \<open>The ring\<close>

text \<open>\<^verbatim>\<open>p->data[p->nwrite++ % PIPESIZE] = c\<close>, \<^verbatim>\<open>p->data[p->nread++ % PIPESIZE]\<close> and the two tests on the
  counters, which wrap.\<close>

definition pipe_put :: "byte \<Rightarrow> pipe \<Rightarrow> pipe" where
  "pipe_put c p = p\<lparr>pi_data := (pi_data p)[unat (pi_nwrite p) mod PIPESIZE := c], pi_nwrite := pi_nwrite p + 1\<rparr>"

definition pipe_front :: "pipe \<Rightarrow> byte" where
  "pipe_front p = pi_data p ! (unat (pi_nread p) mod PIPESIZE)"

definition pipe_pop :: "pipe \<Rightarrow> pipe" where
  "pipe_pop p = p\<lparr>pi_nread := pi_nread p + 1\<rparr>"

definition pipe_empty :: "pipe \<Rightarrow> bool" where
  "pipe_empty p \<longleftrightarrow> pi_nread p = pi_nwrite p"

definition pipe_full :: "pipe \<Rightarrow> bool" where
  "pipe_full p \<longleftrightarrow> pi_nwrite p = pi_nread p + of_nat PIPESIZE"

section \<open>Operations\<close>

definition pipeclose :: "u32 \<Rightarrow> bool \<Rightarrow> 'a pist_scheme \<Rightarrow> ('a pist_scheme, unit) outcome" where
  "pipeclose p writable s =
     (let s = (if writable then wakeup (ChanPipeRead p) (upd_pipe p (\<lambda>q. q\<lparr>pi_writeopen := False\<rparr>) s)
               else wakeup (ChanPipeWrite p) (upd_pipe p (\<lambda>q. q\<lparr>pi_readopen := False\<rparr>) s))
      in if \<not> pi_readopen (pipes s p) \<and> \<not> pi_writeopen (pipes s p) then kfree p s else Ok () s)"

text \<open>
  The loop of \<^verbatim>\<open>pipewrite\<close> with the bytes \<open>src\<close> still to be stored, out of \<open>n\<close>: the bytes that
  are left when it returns or goes to sleep, and the outcome. A process that sleeps on
  \<^verbatim>\<open>&p->nwrite\<close> continues, when it is woken, with the bytes that were left.
\<close>

fun pipewrite_loop :: "u32 \<Rightarrow> byte list \<Rightarrow> int \<Rightarrow> 'a pist_scheme \<Rightarrow> byte list \<times> ('a pist_scheme, int) outcome" where
  "pipewrite_loop p [] n s = ([], Ok n (wakeup (ChanPipeRead p) s))"
| "pipewrite_loop p (c # src) n s =
     (if pipe_full (pipes s p) then
        if \<not> pi_readopen (pipes s p) \<or> p_killed (myproc s) then (c # src, Ok (-1) s)
        else (c # src, sleep (ChanPipeWrite p) (wakeup (ChanPipeRead p) s))
      else pipewrite_loop p src n (upd_pipe p (pipe_put c) s))"

definition pipewrite :: "u32 \<Rightarrow> byte list \<Rightarrow> 'a pist_scheme \<Rightarrow> ('a pist_scheme, int) outcome" where
  "pipewrite p src s = snd (pipewrite_loop p src (int (length src)) s)"

text \<open>\<^verbatim>\<open>for(i = 0; i < n; i++)\<close> of \<^verbatim>\<open>piperead\<close>: the bytes stored at \<^verbatim>\<open>addr\<close> and the pipe.\<close>

fun pipe_take :: "nat \<Rightarrow> pipe \<Rightarrow> byte list \<times> pipe" where
  "pipe_take 0 q = ([], q)"
| "pipe_take (Suc n) q =
     (if pipe_empty q then ([], q)
      else (let (bs, q') = pipe_take n (pipe_pop q) in (pipe_front q # bs, q')))"

text \<open>The result and the bytes stored at \<^verbatim>\<open>addr\<close>; a process that sleeps on \<^verbatim>\<open>&p->nread\<close> starts over
  when it is woken.\<close>

definition piperead :: "u32 \<Rightarrow> int \<Rightarrow> 'a pist_scheme \<Rightarrow> ('a pist_scheme, int \<times> byte list) outcome" where
  "piperead p n s =
     (if pipe_empty (pipes s p) \<and> pi_writeopen (pipes s p) then
        if p_killed (myproc s) then Ok (-1, []) s else sleep (ChanPipeRead p) s
      else
        (let (bs, q) = pipe_take (nat n) (pipes s p)
         in Ok (int (length bs), bs) (wakeup (ChanPipeWrite p) (upd_pipe p (\<lambda>_. q) s))))"

section \<open>A pipe is a bounded queue\<close>

definition pipe_elems :: "pipe \<Rightarrow> byte list" where
  "pipe_elems p = ring_elems PIPESIZE (pi_data p) (pi_nread p) (pi_nwrite p)"

definition pipe_inv :: "pipe \<Rightarrow> bool" where
  "pipe_inv p \<longleftrightarrow> length (pi_data p) = PIPESIZE \<and> unat (pi_nwrite p - pi_nread p) \<le> PIPESIZE"

lemma pipe_full_iff: "pipe_full p \<longleftrightarrow> unat (pi_nwrite p - pi_nread p) = PIPESIZE"
proof -
  have "pipe_full p \<longleftrightarrow> pi_nwrite p - pi_nread p = 512" by (auto simp: pipe_full_def algebra_simps)
  also have "\<dots> \<longleftrightarrow> unat (pi_nwrite p - pi_nread p) = PIPESIZE" by (simp add: word_unat_eq_iff)
  finally show ?thesis .
qed

interpretation pipe_q: byte_queue pipe_inv pipe_elems PIPESIZE pipe_put pipe_front pipe_pop pipe_empty pipe_full
proof
  fix p :: pipe and x assume inv: "pipe_inv p"
  show "pipe_empty p \<longleftrightarrow> pipe_elems p = []" by (simp add: pipe_empty_def pipe_elems_def ring_elems_Nil_iff)
  show "pipe_full p \<longleftrightarrow> length (pipe_elems p) = PIPESIZE" by (simp add: pipe_full_iff pipe_elems_def)
  show "length (pipe_elems p) \<le> PIPESIZE" using inv by (simp add: pipe_inv_def pipe_elems_def)
  show "pipe_inv (pipe_put x p) \<and> pipe_elems (pipe_put x p) = pipe_elems p @ [x]" if "\<not> pipe_full p"
  proof -
    have lt: "unat (pi_nwrite p - pi_nread p) < PIPESIZE" using that inv by (simp add: pipe_full_iff pipe_inv_def)
    then have "unat (pi_nwrite p + 1 - pi_nread p) = Suc (unat (pi_nwrite p - pi_nread p))"
      by (intro unat_diff_add1) simp
    then show ?thesis
      using inv lt ring_put [of PIPESIZE "pi_data p" "pi_nwrite p" "pi_nread p" x]
      by (simp add: pipe_inv_def pipe_elems_def pipe_put_def)
  qed
  show "pipe_inv (pipe_pop p) \<and> pipe_elems p = pipe_front p # pipe_elems (pipe_pop p)" if "\<not> pipe_empty p"
  proof -
    have e: "pipe_elems p = pipe_front p # pipe_elems (pipe_pop p)"
      using that ring_get [of "pi_nread p" "pi_nwrite p" PIPESIZE "pi_data p"]
      by (simp add: pipe_empty_def pipe_elems_def pipe_front_def pipe_pop_def)
    from arg_cong [OF e, of length] have "unat (pi_nwrite p - pi_nread p) = Suc (unat (pi_nwrite p - (pi_nread p + 1)))"
      by (simp add: pipe_elems_def pipe_pop_def)
    then show ?thesis using inv e by (simp add: pipe_inv_def pipe_pop_def)
  qed
qed

section \<open>What reading and writing do\<close>

lemma pipe_frame [simp]:
  "pipes (upd_pipe p f s) q = (if q = p then f (pipes s p) else pipes s q)" "pipes (wakeup c s) = pipes s"
  "myproc (upd_pipe p f s) = myproc s"
  by (simp_all add: upd_pipe_def wakeup_def myproc_def)

text \<open>The state a routine leaves behind when it returns or sleeps.\<close>

fun left_state :: "('s, 'a) outcome \<Rightarrow> 's option" where
  "left_state (Ok a s) = Some s"
| "left_state (Sleep c s) = Some s"
| "left_state _ = None"

lemma left_state_sleep [simp]: "left_state (sleep c s) = Some (upd_proc (cur s) (\<lambda>q. q\<lparr>p_chan := Some c, p_state := SLEEPING\<rparr>) s)"
  by (simp add: sleep_def)

lemma pipes_upd_proc [simp]: "pipes (upd_proc i f s) = pipes s"
  by (simp add: upd_proc_def)

lemma pipewrite_loop_spec:
  assumes "pipe_inv (pipes s p)" "pipewrite_loop p src n s = (rest, out)"
  shows "\<exists>s' stored. left_state out = Some s' \<and> src = stored @ rest \<and> pipe_inv (pipes s' p) \<and>
    pipe_elems (pipes s' p) = pipe_elems (pipes s p) @ stored \<and> (\<forall>q. q \<noteq> p \<longrightarrow> pipes s' q = pipes s q) \<and>
    (rest = [] \<longrightarrow> (\<exists>t. out = Ok n t)) \<and>
    (rest \<noteq> [] \<longrightarrow> length (pipe_elems (pipes s' p)) = PIPESIZE \<and>
       (if \<not> pi_readopen (pipes s p) \<or> p_killed (myproc s) then \<exists>t. out = Ok (-1) t else \<exists>t. out = Sleep (ChanPipeWrite p) t))"
  using assms
proof (induction p src n s arbitrary: rest out rule: pipewrite_loop.induct)
  case (1 p n s)
  then show ?case by auto
next
  case (2 p c src n s)
  show ?case
  proof (cases "pipe_full (pipes s p)")
    case True
    with 2 pipe_q.full_iff [of "pipes s p"] show ?thesis by (auto simp: sleep_def split: if_splits)
  next
    case False
    let ?t = "upd_pipe p (pipe_put c) s"
    have P: "pipe_inv (pipes ?t p)" "pipe_elems (pipes ?t p) = pipe_elems (pipes s p) @ [c]"
      using pipe_q.put_ok [of "pipes s p" c] 2(2) False by auto
    from False 2(3) have "pipewrite_loop p src n ?t = (rest, out)" by simp
    from 2(1) [OF False P(1) this] obtain s' stored where s': "left_state out = Some s'" "src = stored @ rest" "pipe_inv (pipes s' p)"
      "pipe_elems (pipes s' p) = pipe_elems (pipes ?t p) @ stored" "\<forall>q. q \<noteq> p \<longrightarrow> pipes s' q = pipes ?t q"
      "rest = [] \<longrightarrow> (\<exists>t. out = Ok n t)"
      "rest \<noteq> [] \<longrightarrow> length (pipe_elems (pipes s' p)) = PIPESIZE \<and>
       (if \<not> pi_readopen (pipes ?t p) \<or> p_killed (myproc ?t) then \<exists>t. out = Ok (-1) t else \<exists>t. out = Sleep (ChanPipeWrite p) t)"
      by blast
    moreover have "pi_readopen (pipes ?t p) = pi_readopen (pipes s p)" by (simp add: pipe_put_def)
    ultimately show ?thesis using P(2) by (intro exI [of _ s'] exI [of _ "c # stored"]) auto
  qed
qed

lemma pipe_take_spec:
  assumes "pipe_inv q" "pipe_take n q = (bs, q')"
  shows "pipe_inv q' \<and> bs = take n (pipe_elems q) \<and> pipe_elems q' = drop n (pipe_elems q)"
  using assms
proof (induction n arbitrary: q bs)
  case (Suc n)
  show ?case
  proof (cases "pipe_empty q")
    case True
    with Suc.prems pipe_q.empty_iff [of q] show ?thesis by simp
  next
    case False
    with Suc.prems obtain cs where cs: "pipe_take n (pipe_pop q) = (cs, q')" "bs = pipe_front q # cs"
      by (auto split: prod.splits)
    have inv: "pipe_inv (pipe_pop q)" and e: "pipe_elems q = pipe_front q # pipe_elems (pipe_pop q)"
      using pipe_q.pop_ok [OF Suc.prems(1) False] by blast+
    show ?thesis unfolding e using Suc.IH [OF inv cs(1)] cs(2) by simp
  qed
qed simp

lemma piperead_spec:
  assumes inv: "pipe_inv (pipes s p)" and r: "piperead p n s = Ok (k, bs) s'"
  shows "pipe_inv (pipes s' p) \<and> (\<forall>q. q \<noteq> p \<longrightarrow> pipes s' q = pipes s q) \<and> pipe_elems (pipes s p) = bs @ pipe_elems (pipes s' p) \<and>
    (k = -1 \<and> bs = [] \<or> k = int (length bs) \<and> bs = take (nat n) (pipe_elems (pipes s p)))"
proof (cases "pipe_empty (pipes s p) \<and> pi_writeopen (pipes s p)")
  case True
  then show ?thesis using r inv by (auto simp: piperead_def sleep_def split: if_splits)
next
  case False
  obtain cs q where t: "pipe_take (nat n) (pipes s p) = (cs, q)" by (cases "pipe_take (nat n) (pipes s p)")
  with False r have "k = int (length bs)" "cs = bs" "s' = wakeup (ChanPipeWrite p) (upd_pipe p (\<lambda>_. q) s)"
    by (auto simp: piperead_def Let_def)
  then show ?thesis using pipe_take_spec [OF inv t] append_take_drop_id [of "nat n" "pipe_elems (pipes s p)"] by auto
qed

section \<open>The stream through a pipe\<close>

text \<open>
  Writers and readers of one pipe in any order, together with whatever else the kernel does that
  leaves the pipe alone. \<open>w\<close> is what the writers have stored so far, \<open>r\<close> what the readers have
  got. A write step is a call of \<^verbatim>\<open>pipewrite\<close> or its continuation after a sleep.
\<close>

inductive pipe_step :: "u32 \<Rightarrow> 'a pist_scheme \<times> byte list \<times> byte list \<Rightarrow> 'a pist_scheme \<times> byte list \<times> byte list \<Rightarrow> bool" for p where
  writes: "pipewrite_loop p src n s = (rest, out) \<Longrightarrow> left_state out = Some s' \<Longrightarrow>
    pipe_step p (s, w, r) (s', w @ take (length src - length rest) src, r)"
| reads: "piperead p n s = Ok (k, bs) s' \<Longrightarrow> pipe_step p (s, w, r) (s', w, r @ bs)"
| waits: "piperead p n s = Sleep c s' \<Longrightarrow> pipe_step p (s, w, r) (s', w, r)"
| other: "pipes s' p = pipes s p \<Longrightarrow> pipe_step p (s, w, r) (s', w, r)"

inductive_cases pipe_stepE: "pipe_step p x y"

definition stream_inv :: "u32 \<Rightarrow> 'a pist_scheme \<times> byte list \<times> byte list \<Rightarrow> bool" where
  "stream_inv p x \<longleftrightarrow> (case x of (s, w, r) \<Rightarrow> pipe_inv (pipes s p) \<and> w = r @ pipe_elems (pipes s p))"

lemma pipe_step_inv: "pipe_step p x y \<Longrightarrow> stream_inv p x \<Longrightarrow> stream_inv p y"
proof (induction rule: pipe_step.induct)
  case (writes src n s rest out s' w r)
  then show ?case using pipewrite_loop_spec [of s p src n rest out] by (auto simp: stream_inv_def)
next
  case (reads n s k bs s' w r)
  then show ?case using piperead_spec [of s p n k bs s'] by (simp add: stream_inv_def)
next
  case (waits n s c s' w r)
  then have "pipes s' p = pipes s p" by (auto simp: piperead_def sleep_def split: if_splits prod.splits)
  with waits show ?case by (simp add: stream_inv_def)
qed (simp add: stream_inv_def)

lemma pipe_steps_inv: "(pipe_step p)\<^sup>*\<^sup>* x y \<Longrightarrow> stream_inv p x \<Longrightarrow> stream_inv p y"
  by (induction rule: rtranclp_induct) (auto intro: pipe_step_inv)

end
