(* ===== verification/File.thy ===== *)
theory File
  imports Pipe
begin

text \<open>
  Open files (\<^verbatim>\<open>system/core/file.c\<close>) and \<^verbatim>\<open>pipealloc\<close> of \<^verbatim>\<open>system/core/pipe.c\<close>. A \<^verbatim>\<open>struct file*\<close> is
  an index of \<^verbatim>\<open>ftable.file\<close>.
\<close>

section \<open>State\<close>

datatype ftype = FD_NONE | FD_PIPE | FD_INODE

record filest =
  f_type :: ftype
  f_ref :: int
  f_readable :: bool
  f_writable :: bool
  f_pipe :: u32
  f_ip :: nat
  f_off :: u32

record fist = pist +
  ftable :: "filest list"

abbreviation the_file :: "'a fist_scheme \<Rightarrow> nat \<Rightarrow> filest" where
  "the_file s f \<equiv> ftable s ! f"

definition upd_file :: "nat \<Rightarrow> (filest \<Rightarrow> filest) \<Rightarrow> 'a fist_scheme \<Rightarrow> 'a fist_scheme" where
  "upd_file f g s = s\<lparr>ftable := (ftable s)[f := g (the_file s f)]\<rparr>"

section \<open>Operations\<close>

definition filealloc :: "'a fist_scheme \<Rightarrow> nat option \<times> 'a fist_scheme" where
  "filealloc s =
     (case first_index (\<lambda>f. f_ref (the_file s f) = 0) NFILE of
        Some f \<Rightarrow> (Some f, upd_file f (\<lambda>x. x\<lparr>f_ref := 1\<rparr>) s)
      | None \<Rightarrow> (None, s))"

definition filedup :: "nat \<Rightarrow> 'a fist_scheme \<Rightarrow> ('a fist_scheme, unit) outcome" where
  "filedup f s =
     (if f_ref (the_file s f) < 1 then Panic ''filedup''
      else Ok () (upd_file f (\<lambda>x. x\<lparr>f_ref := f_ref x + 1\<rparr>) s))"

definition fileclose :: "nat \<Rightarrow> 'a fist_scheme \<Rightarrow> ('a fist_scheme, unit) outcome" where
  "fileclose f s =
     (if f_ref (the_file s f) < 1 then Panic ''fileclose''
      else if f_ref (the_file s f) - 1 > 0 then Ok () (upd_file f (\<lambda>x. x\<lparr>f_ref := f_ref x - 1\<rparr>) s)
      else
        (let ff = the_file s f;
             s = upd_file f (\<lambda>x. x\<lparr>f_ref := 0, f_type := FD_NONE\<rparr>) s
         in case f_type ff of
              FD_PIPE \<Rightarrow> pipeclose (f_pipe ff) (f_writable ff) s
            | FD_INODE \<Rightarrow>
                on (begin_op s) (\<lambda>_ s.
                on (iput (f_ip ff) s) (\<lambda>_ s.
                end_op s))
            | FD_NONE \<Rightarrow> Ok () s))"

text \<open>The result, with what is stored at \<^verbatim>\<open>st\<close> if it is 0.\<close>

definition filestat :: "nat \<Rightarrow> 'a fist_scheme \<Rightarrow> ('a fist_scheme, stat option) outcome" where
  "filestat f s =
     (if f_type (the_file s f) = FD_INODE then
        on (ilock (f_ip (the_file s f)) s) (\<lambda>_ s.
        let st = stati (f_ip (the_file s f)) s
        in on (iunlock (f_ip (the_file s f)) s) (\<lambda>_ s. Ok (Some st) s))
      else Ok None s)"

text \<open>The result and the bytes stored at \<^verbatim>\<open>addr\<close>.\<close>

definition fileread :: "nat \<Rightarrow> int \<Rightarrow> 'a fist_scheme \<Rightarrow> ('a fist_scheme, int \<times> byte list) outcome" where
  "fileread f n s =
     (if \<not> f_readable (the_file s f) then Ok (-1, []) s
      else case f_type (the_file s f) of
             FD_PIPE \<Rightarrow> piperead (f_pipe (the_file s f)) n s
           | FD_INODE \<Rightarrow>
               on (ilock (f_ip (the_file s f)) s) (\<lambda>_ s.
               on (readi (f_ip (the_file s f)) (f_off (the_file s f)) (of_int n) s) (\<lambda>(r, bs) s.
               let s = (if r > 0 then upd_file f (\<lambda>x. x\<lparr>f_off := f_off x + of_int r\<rparr>) s else s)
               in on (iunlock (f_ip (the_file s f)) s) (\<lambda>_ s. Ok (r, bs) s)))
           | FD_NONE \<Rightarrow> Panic ''fileread'')"

text \<open>The loop of \<^verbatim>\<open>filewrite\<close>: at most 1536 bytes go into one transaction. The result says whether all
  bytes were written.\<close>

abbreviation (input) MAXWRITE :: nat where "MAXWRITE \<equiv> 1536"

function filewrite_loop :: "nat \<Rightarrow> byte list \<Rightarrow> 'a fist_scheme \<Rightarrow> ('a fist_scheme, bool) outcome" where
  "filewrite_loop f src s =
     (if src = [] then Ok True s
      else
        (let n1 = min (length src) MAXWRITE in
         on (begin_op s) (\<lambda>_ s.
         on (ilock (f_ip (the_file s f)) s) (\<lambda>_ s.
         on (writei (f_ip (the_file s f)) (take n1 src) (f_off (the_file s f)) s) (\<lambda>r s.
         let s = (if r > 0 then upd_file f (\<lambda>x. x\<lparr>f_off := f_off x + of_int r\<rparr>) s else s) in
         on (iunlock (f_ip (the_file s f)) s) (\<lambda>_ s.
         on (end_op s) (\<lambda>_ s.
         if r < 0 then Ok False s
         else if r \<noteq> int n1 then Panic ''short filewrite''
         else filewrite_loop f (drop n1 src) s)))))))"
  by pat_completeness auto
termination
  by (relation "measure (\<lambda>(_, src, _). length src)") auto

declare filewrite_loop.simps [simp del]

definition filewrite :: "nat \<Rightarrow> byte list \<Rightarrow> 'a fist_scheme \<Rightarrow> ('a fist_scheme, int) outcome" where
  "filewrite f src s =
     (if \<not> f_writable (the_file s f) then Ok (-1) s
      else case f_type (the_file s f) of
             FD_PIPE \<Rightarrow> pipewrite (f_pipe (the_file s f)) src s
           | FD_INODE \<Rightarrow>
               on (filewrite_loop f src s) (\<lambda>all s.
               Ok (if all then int (length src) else -1) s)
           | FD_NONE \<Rightarrow> Panic ''filewrite'')"

text \<open>The two ends of a new pipe, or \<open>None\<close> for -1. Whatever the page held before stays in
  \<^verbatim>\<open>p->data\<close>.\<close>

definition close_opt :: "nat option \<Rightarrow> 'a fist_scheme \<Rightarrow> ('a fist_scheme, unit) outcome" where
  "close_opt f s = (case f of Some f \<Rightarrow> fileclose f s | None \<Rightarrow> Ok () s)"

definition pipealloc :: "'a fist_scheme \<Rightarrow> ('a fist_scheme, (nat \<times> nat) option) outcome" where
  "pipealloc s =
     (let (f0, s) = filealloc s;
          (f1, s) = (case f0 of Some _ \<Rightarrow> filealloc s | None \<Rightarrow> (None, s));
          (p, s) = (case f1 of Some _ \<Rightarrow> kalloc s | None \<Rightarrow> (0, s))
      in case (f0, f1) of
           (Some a, Some b) \<Rightarrow>
             if p \<noteq> 0 then
               Ok (Some (a, b))
                 (upd_file b (\<lambda>x. x\<lparr>f_type := FD_PIPE, f_readable := False, f_writable := True, f_pipe := p\<rparr>)
                 (upd_file a (\<lambda>x. x\<lparr>f_type := FD_PIPE, f_readable := True, f_writable := False, f_pipe := p\<rparr>)
                 (upd_pipe p (\<lambda>q. q\<lparr>pi_readopen := True, pi_writeopen := True, pi_nwrite := 0, pi_nread := 0\<rparr>) s)))
             else on (close_opt f0 s) (\<lambda>_ s. on (close_opt f1 s) (\<lambda>_ s. Ok None s))
         | _ \<Rightarrow> on (close_opt f0 s) (\<lambda>_ s. on (close_opt f1 s) (\<lambda>_ s. Ok None s)))"

end
