(* ===== verification/Spinlock.thy ===== *)
theory Spinlock
  imports Strings
begin

text \<open>
  Spin locks and the nesting of interrupt masking (\<^verbatim>\<open>system/sync/spinlock.c\<close>, \<^verbatim>\<open>mycpu\<close> of
  \<^verbatim>\<open>system/core/proc.c\<close>) on a machine with several processors. The other theories treat the
  code between \<^verbatim>\<open>acquire\<close> and \<^verbatim>\<open>release\<close> as one step; here the lock itself is taken apart
  into the steps between which other processors may run, and mutual exclusion is proved for
  every interleaving.
\<close>

section \<open>State\<close>

record cpu =
  c_apicid :: byte
  c_if :: bool
  c_ncli :: int
  c_intena :: bool

record spinlock =
  sk_locked :: bool
  sk_cpu :: "nat option"
  sk_pcs :: "u32 list"

record smp =
  cpus :: "cpu list"
  locks :: "nat \<Rightarrow> spinlock"

abbreviation the_cpu :: "'a smp_scheme \<Rightarrow> nat \<Rightarrow> cpu" where
  "the_cpu s c \<equiv> cpus s ! c"

definition upd_cpu :: "nat \<Rightarrow> (cpu \<Rightarrow> cpu) \<Rightarrow> 'a smp_scheme \<Rightarrow> 'a smp_scheme" where
  "upd_cpu c f s = s\<lparr>cpus := (cpus s)[c := f (the_cpu s c)]\<rparr>"

definition upd_lock :: "nat \<Rightarrow> (spinlock \<Rightarrow> spinlock) \<Rightarrow> 'a smp_scheme \<Rightarrow> 'a smp_scheme" where
  "upd_lock lk f s = s\<lparr>locks := (locks s)(lk := f (locks s lk))\<rparr>"

section \<open>Operations\<close>

text \<open>The processor that executes is \<open>c\<close>: its \<^verbatim>\<open>lapicid()\<close> and its interrupt flag are those of
  \<^verbatim>\<open>cpus[c]\<close>.\<close>

definition mycpu :: "nat \<Rightarrow> 'a smp_scheme \<Rightarrow> ('a smp_scheme, nat) outcome" where
  "mycpu c s =
     (if c_if (the_cpu s c) then Panic ''mycpu called with interrupts enabled''
      else case first_index (\<lambda>i. c_apicid (the_cpu s i) = c_apicid (the_cpu s c)) (length (cpus s)) of
             Some i \<Rightarrow> Ok i s
           | None \<Rightarrow> Panic ''unknown apicid'')"

definition pushcli :: "nat \<Rightarrow> 'a smp_scheme \<Rightarrow> ('a smp_scheme, unit) outcome" where
  "pushcli c s =
     (let eflags = c_if (the_cpu s c);
          s = upd_cpu c (\<lambda>p. p\<lparr>c_if := False\<rparr>) s
      in on (mycpu c s) (\<lambda>i s.
         Ok () (upd_cpu i (\<lambda>p. p\<lparr>c_intena := (if c_ncli p = 0 then eflags else c_intena p), c_ncli := c_ncli p + 1\<rparr>) s)))"

definition popcli :: "nat \<Rightarrow> 'a smp_scheme \<Rightarrow> ('a smp_scheme, unit) outcome" where
  "popcli c s =
     (if c_if (the_cpu s c) then Panic ''popcli - interruptible''
      else
        on (mycpu c s) (\<lambda>i s.
        let s = upd_cpu i (\<lambda>p. p\<lparr>c_ncli := c_ncli p - 1\<rparr>) s
        in if c_ncli (the_cpu s i) < 0 then Panic ''popcli''
           else if c_ncli (the_cpu s i) = 0 \<and> c_intena (the_cpu s i)
             then Ok () (upd_cpu c (\<lambda>p. p\<lparr>c_if := True\<rparr>) s)
             else Ok () s))"

definition holding :: "nat \<Rightarrow> nat \<Rightarrow> 'a smp_scheme \<Rightarrow> ('a smp_scheme, bool) outcome" where
  "holding c lk s =
     on (pushcli c s) (\<lambda>_ s.
     on (mycpu c s) (\<lambda>i s.
     let r = (sk_locked (locks s lk) \<and> sk_cpu (locks s lk) = Some i)
     in on (popcli c s) (\<lambda>_ s. Ok r s)))"

definition initlock :: "nat \<Rightarrow> 'a smp_scheme \<Rightarrow> 'a smp_scheme" where
  "initlock lk s = upd_lock lk (\<lambda>l. l\<lparr>sk_locked := False, sk_cpu := None\<rparr>) s"

text \<open>The call stack, following the saved frame pointers; the frame starts two words below \<open>v\<close>.\<close>

fun callerpcs :: "mem \<Rightarrow> u32 \<Rightarrow> nat \<Rightarrow> u32 list" where
  "callerpcs m ebp 0 = []"
| "callerpcs m ebp (Suc n) =
     (if ebp = 0 \<or> ebp < 0x80000000 \<or> ebp = 0xffffffff then replicate (Suc n) 0
      else read32 m (ebp + 4) # callerpcs m (read32 m ebp) n)"

definition getcallerpcs :: "mem \<Rightarrow> u32 \<Rightarrow> u32 list" where
  "getcallerpcs m v = callerpcs m (v - 8) 10"

lemma length_getcallerpcs: "length (getcallerpcs m v) = 10"
proof -
  have "length (callerpcs m e n) = n" for e n by (induction n arbitrary: e) auto
  then show ?thesis by (simp add: getcallerpcs_def)
qed

text \<open>\<^verbatim>\<open>acquire\<close> in three parts: up to the spin loop, one turn of the loop (the result says whether
  the lock was taken), and after the loop. \<open>pcs\<close> is what \<^verbatim>\<open>getcallerpcs\<close> records.\<close>

definition acquire_enter :: "nat \<Rightarrow> nat \<Rightarrow> 'a smp_scheme \<Rightarrow> ('a smp_scheme, unit) outcome" where
  "acquire_enter c lk s =
     on (pushcli c s) (\<lambda>_ s.
     on (holding c lk s) (\<lambda>h s.
     if h then Panic ''acquire'' else Ok () s))"

definition acquire_xchg :: "nat \<Rightarrow> 'a smp_scheme \<Rightarrow> ('a smp_scheme, bool) outcome" where
  "acquire_xchg lk s = Ok (\<not> sk_locked (locks s lk)) (upd_lock lk (\<lambda>l. l\<lparr>sk_locked := True\<rparr>) s)"

definition acquire_record :: "nat \<Rightarrow> nat \<Rightarrow> u32 list \<Rightarrow> 'a smp_scheme \<Rightarrow> ('a smp_scheme, unit) outcome" where
  "acquire_record c lk pcs s =
     on (mycpu c s) (\<lambda>i s. Ok () (upd_lock lk (\<lambda>l. l\<lparr>sk_cpu := Some i, sk_pcs := pcs\<rparr>) s))"

text \<open>\<^verbatim>\<open>release\<close> up to the store to \<^verbatim>\<open>lk->locked\<close>, and from the store on.\<close>

definition release_enter :: "nat \<Rightarrow> nat \<Rightarrow> 'a smp_scheme \<Rightarrow> ('a smp_scheme, unit) outcome" where
  "release_enter c lk s =
     on (holding c lk s) (\<lambda>h s.
     if \<not> h then Panic ''release''
     else Ok () (upd_lock lk (\<lambda>l. l\<lparr>sk_pcs := (sk_pcs l)[0 := 0], sk_cpu := None\<rparr>) s))"

definition release_store :: "nat \<Rightarrow> nat \<Rightarrow> 'a smp_scheme \<Rightarrow> ('a smp_scheme, unit) outcome" where
  "release_store c lk s = popcli c (upd_lock lk (\<lambda>l. l\<lparr>sk_locked := False\<rparr>) s)"

section \<open>One processor\<close>

definition smp_ok :: "'a smp_scheme \<Rightarrow> bool" where
  "smp_ok s \<longleftrightarrow> distinct (map c_apicid (cpus s))"

lemma upd_cpu_simps [simp]:
  "length (cpus (upd_cpu c f s)) = length (cpus s)" "locks (upd_cpu c f s) = locks s" "smp.more (upd_cpu c f s) = smp.more s"
  "cpus (upd_lock lk g s) = cpus s" "smp.more (upd_lock lk g s) = smp.more s"
  "locks (upd_lock lk g s) lk' = (if lk' = lk then g (locks s lk) else locks s lk')"
  by (simp_all add: upd_cpu_def upd_lock_def)

lemma the_cpu_upd: "c < length (cpus s) \<Longrightarrow> the_cpu (upd_cpu c f s) d = (if d = c then f (the_cpu s c) else the_cpu s d)"
  by (simp add: upd_cpu_def nth_list_update)

lemma smp_ok_upd [simp]:
  "(\<And>p. c_apicid (f p) = c_apicid p) \<Longrightarrow> smp_ok (upd_cpu c f s) = smp_ok s" "smp_ok (upd_lock lk g s) = smp_ok s"
proof -
  show "smp_ok (upd_lock lk g s) = smp_ok s" by (simp add: smp_ok_def)
  assume f: "\<And>p. c_apicid (f p) = c_apicid p"
  have "map c_apicid ((cpus s)[c := f (the_cpu s c)]) = map c_apicid (cpus s)"
    by (cases "c < length (cpus s)") (simp_all add: map_update f list_update_same_conv list_update_beyond)
  then show "smp_ok (upd_cpu c f s) = smp_ok s" by (simp add: smp_ok_def upd_cpu_def)
qed

lemma mycpu_Ok:
  assumes "smp_ok s" "c < length (cpus s)" "\<not> c_if (the_cpu s c)"
  shows "mycpu c s = Ok c s"
proof -
  have "first_index (\<lambda>i. c_apicid (the_cpu s i) = c_apicid (the_cpu s c)) (length (cpus s)) = Some c"
    using assms(1,2) nth_eq_iff_index_eq [of "map c_apicid (cpus s)"]
    by (auto simp: first_index_Some smp_ok_def)
  then show ?thesis using assms by (simp add: mycpu_def)
qed

lemma upd_cpu_twice: "upd_cpu c f (upd_cpu c g s) = upd_cpu c (\<lambda>p. f (g p)) s"
  by (cases "c < length (cpus s)") (simp_all add: upd_cpu_def list_update_beyond)

lemma upd_cpu_if_id: "c < length (cpus s) \<Longrightarrow> f (the_cpu s c) = the_cpu s c \<Longrightarrow> upd_cpu c f s = s"
  by (simp add: upd_cpu_def)

lemma upd_cpu_cong: "f (the_cpu s c) = g (the_cpu s c) \<Longrightarrow> upd_cpu c f s = upd_cpu c g s"
  by (simp add: upd_cpu_def)

lemma pushcli_Ok:
  assumes "smp_ok s" "c < length (cpus s)"
  shows "pushcli c s = Ok () (upd_cpu c (\<lambda>p. p\<lparr>c_if := False, c_intena := (if c_ncli p = 0 then c_if p else c_intena p), c_ncli := c_ncli p + 1\<rparr>) s)"
proof -
  let ?s = "upd_cpu c (\<lambda>p. p\<lparr>c_if := False\<rparr>) s"
  have "mycpu c ?s = Ok c ?s" using assms by (intro mycpu_Ok) (simp_all add: the_cpu_upd)
  then show ?thesis by (simp add: pushcli_def upd_cpu_twice) (rule upd_cpu_cong, simp)
qed

lemma popcli_Ok:
  assumes "smp_ok s" "c < length (cpus s)" "\<not> c_if (the_cpu s c)" "1 \<le> c_ncli (the_cpu s c)"
  shows "popcli c s = Ok () (upd_cpu c (\<lambda>p. p\<lparr>c_ncli := c_ncli p - 1, c_if := (c_ncli p = 1 \<and> c_intena p)\<rparr>) s)"
  using assms mycpu_Ok [OF assms(1-3)]
  by (auto simp: popcli_def Let_def the_cpu_upd upd_cpu_twice intro!: upd_cpu_cong)

text \<open>\<^verbatim>\<open>holding\<close> leaves the machine as it is, up to \<^verbatim>\<open>intena\<close>, which is dead while \<^verbatim>\<open>ncli\<close> is 0.\<close>

lemma holding_Ok:
  assumes "smp_ok s" "c < length (cpus s)" "0 \<le> c_ncli (the_cpu s c)" "c_if (the_cpu s c) \<longrightarrow> c_ncli (the_cpu s c) = 0"
  shows "holding c lk s = Ok (sk_locked (locks s lk) \<and> sk_cpu (locks s lk) = Some c)
    (upd_cpu c (\<lambda>p. p\<lparr>c_intena := (if c_ncli p = 0 then c_if p else c_intena p)\<rparr>) s)"
proof -
  define s1 where "s1 = upd_cpu c (\<lambda>p. p\<lparr>c_if := False, c_intena := (if c_ncli p = 0 then c_if p else c_intena p), c_ncli := c_ncli p + 1\<rparr>) s"
  have ok: "smp_ok s1" "c < length (cpus s1)" using assms by (simp_all add: s1_def)
  have p: "the_cpu s1 c = (the_cpu s c)\<lparr>c_if := False, c_intena := (if c_ncli (the_cpu s c) = 0 then c_if (the_cpu s c) else c_intena (the_cpu s c)),
     c_ncli := c_ncli (the_cpu s c) + 1\<rparr>" using assms(2) by (simp add: s1_def the_cpu_upd)
  have "popcli c s1 = Ok () (upd_cpu c (\<lambda>p. p\<lparr>c_intena := (if c_ncli p = 0 then c_if p else c_intena p)\<rparr>) s)"
    using popcli_Ok [OF ok] p assms(3,4) by (auto simp: s1_def upd_cpu_twice intro!: upd_cpu_cong)
  then show ?thesis
    using pushcli_Ok [OF assms(1,2)] mycpu_Ok [OF ok] p by (simp add: holding_def s1_def [symmetric]) (simp add: s1_def)
qed

section \<open>All processors\<close>

text \<open>
  Where a processor is: outside the lock code, spinning for a lock, past the exchange that took
  it, or about to store 0 into it. \<open>held\<close> and \<open>extra\<close> are history variables: the locks whose
  \<^verbatim>\<open>acquire\<close> has returned and whose \<^verbatim>\<open>release\<close> has not been entered, and the calls of
  \<^verbatim>\<open>pushcli\<close> by other code that have not been undone.
\<close>

datatype spin_pc = Run | Spin nat | Got nat | Rel nat

record spin_sys = smp +
  at :: "nat \<Rightarrow> spin_pc"
  held :: "nat \<Rightarrow> nat set"
  extra :: "nat \<Rightarrow> nat"

inductive spin_step :: "spin_sys \<Rightarrow> spin_sys \<Rightarrow> bool" where
  enter: "c < length (cpus s) \<Longrightarrow> at s c = Run \<Longrightarrow> acquire_enter c lk s = Ok () s' \<Longrightarrow>
    spin_step s (s'\<lparr>at := (at s)(c := Spin lk)\<rparr>)"
| xchg: "c < length (cpus s) \<Longrightarrow> at s c = Spin lk \<Longrightarrow> acquire_xchg lk s = Ok got s' \<Longrightarrow>
    spin_step s (s'\<lparr>at := (at s)(c := if got then Got lk else Spin lk)\<rparr>)"
| stamp: "c < length (cpus s) \<Longrightarrow> at s c = Got lk \<Longrightarrow> acquire_record c lk pcs s = Ok () s' \<Longrightarrow>
    spin_step s (s'\<lparr>at := (at s)(c := Run), held := (held s)(c := insert lk (held s c))\<rparr>)"
| release: "c < length (cpus s) \<Longrightarrow> at s c = Run \<Longrightarrow> release_enter c lk s = Ok () s' \<Longrightarrow>
    spin_step s (s'\<lparr>at := (at s)(c := Rel lk), held := (held s)(c := held s c - {lk})\<rparr>)"
| store: "c < length (cpus s) \<Longrightarrow> at s c = Rel lk \<Longrightarrow> release_store c lk s = Ok () s' \<Longrightarrow>
    spin_step s (s'\<lparr>at := (at s)(c := Run)\<rparr>)"
| push: "c < length (cpus s) \<Longrightarrow> at s c = Run \<Longrightarrow> pushcli c s = Ok () s' \<Longrightarrow>
    spin_step s (s'\<lparr>extra := (extra s)(c := extra s c + 1)\<rparr>)"
| pop: "c < length (cpus s) \<Longrightarrow> at s c = Run \<Longrightarrow> 0 < extra s c \<Longrightarrow> popcli c s = Ok () s' \<Longrightarrow>
    spin_step s (s'\<lparr>extra := (extra s)(c := extra s c - 1)\<rparr>)"
| sti: "c < length (cpus s) \<Longrightarrow> at s c = Run \<Longrightarrow> c_ncli (the_cpu s c) = 0 \<Longrightarrow>
    spin_step s (upd_cpu c (\<lambda>p. p\<lparr>c_if := True\<rparr>) s)"

text \<open>Processor \<open>c\<close> has the lock, from the exchange that took it to the store that frees it.\<close>

definition owns :: "spin_sys \<Rightarrow> nat \<Rightarrow> nat \<Rightarrow> bool" where
  "owns s c lk \<longleftrightarrow> lk \<in> held s c \<or> at s c = Got lk \<or> at s c = Rel lk"

definition depth :: "spin_sys \<Rightarrow> nat \<Rightarrow> int" where
  "depth s c = int (card (held s c) + extra s c + (if at s c = Run then 0 else 1))"

definition cpu_inv :: "spin_sys \<Rightarrow> nat \<Rightarrow> bool" where
  "cpu_inv s c \<longleftrightarrow> finite (held s c) \<and> c_ncli (the_cpu s c) = depth s c \<and> (c_if (the_cpu s c) \<longrightarrow> depth s c = 0)"

definition lock_inv :: "spin_sys \<Rightarrow> nat \<Rightarrow> bool" where
  "lock_inv s lk \<longleftrightarrow>
     (\<forall>c. owns s c lk \<longrightarrow> c < length (cpus s) \<and> sk_locked (locks s lk)) \<and>
     (\<forall>c d. owns s c lk \<longrightarrow> owns s d lk \<longrightarrow> c = d) \<and>
     (\<forall>c. sk_cpu (locks s lk) = Some c \<longleftrightarrow> lk \<in> held s c) \<and>
     (\<forall>c. at s c = Got lk \<or> at s c = Rel lk \<longrightarrow> sk_cpu (locks s lk) = None) \<and>
     (sk_locked (locks s lk) \<longrightarrow> (\<exists>c. owns s c lk))"

definition spin_inv :: "spin_sys \<Rightarrow> bool" where
  "spin_inv s \<longleftrightarrow> smp_ok s \<and> (\<forall>c < length (cpus s). cpu_inv s c) \<and> (\<forall>lk. lock_inv s lk)"

lemma spin_invD:
  assumes "spin_inv s" "c < length (cpus s)"
  shows "smp_ok s" "finite (held s c)" "c_ncli (the_cpu s c) = depth s c" "c_if (the_cpu s c) \<Longrightarrow> depth s c = 0" "0 \<le> depth s c"
  using assms by (auto simp: spin_inv_def cpu_inv_def depth_def)

lemma lock_invD:
  assumes "spin_inv s"
  shows "owns s c lk \<Longrightarrow> c < length (cpus s)" "owns s c lk \<Longrightarrow> sk_locked (locks s lk)"
    "owns s c lk \<Longrightarrow> owns s d lk \<Longrightarrow> c = d" "sk_cpu (locks s lk) = Some c \<longleftrightarrow> lk \<in> held s c"
    "at s c = Got lk \<or> at s c = Rel lk \<Longrightarrow> sk_cpu (locks s lk) = None"
    "sk_locked (locks s lk) \<Longrightarrow> \<exists>c. owns s c lk"
  using assms by (auto simp: spin_inv_def lock_inv_def)

text \<open>The effect of each step on a machine that satisfies the invariant.\<close>

lemma depth_pos: "at s c \<noteq> Run \<Longrightarrow> 1 \<le> depth s c"
  by (simp add: depth_def)

lemma held_depth: "finite (held s c) \<Longrightarrow> lk \<in> held s c \<Longrightarrow> 1 \<le> depth s c"
  using card_gt_0_iff [of "held s c"] by (auto simp: depth_def)

lemma holding_inv:
  assumes "spin_inv s" "c < length (cpus s)"
  shows "holding c lk s = Ok (lk \<in> held s c) (upd_cpu c (\<lambda>p. p\<lparr>c_intena := (if c_ncli p = 0 then c_if p else c_intena p)\<rparr>) s)"
proof -
  note D = spin_invD [OF assms]
  have "lock_inv s lk" using assms(1) by (simp add: spin_inv_def)
  then have "(sk_locked (locks s lk) \<and> sk_cpu (locks s lk) = Some c) \<longleftrightarrow> lk \<in> held s c"
    by (auto simp: lock_inv_def owns_def)
  then show ?thesis using holding_Ok [OF D(1) assms(2), of lk] D by simp
qed

lemma acquire_enter_inv:
  assumes inv: "spin_inv s" and c: "c < length (cpus s)" and lk: "lk \<notin> held s c"
  shows "acquire_enter c lk s = Ok () (upd_cpu c (\<lambda>p. p\<lparr>c_if := False, c_intena := (if c_ncli p = 0 then c_if p else c_intena p), c_ncli := c_ncli p + 1\<rparr>) s)"
proof -
  note D = spin_invD [OF inv c]
  define t where "t = upd_cpu c (\<lambda>p. p\<lparr>c_if := False, c_intena := (if c_ncli p = 0 then c_if p else c_intena p), c_ncli := c_ncli p + 1\<rparr>) s"
  have p: "pushcli c s = Ok () t" unfolding t_def by (rule pushcli_Ok [OF D(1) c])
  have tc: "the_cpu t c = (the_cpu s c)\<lparr>c_if := False, c_intena := (if c_ncli (the_cpu s c) = 0 then c_if (the_cpu s c) else c_intena (the_cpu s c)),
    c_ncli := c_ncli (the_cpu s c) + 1\<rparr>" using c by (simp add: t_def the_cpu_upd)
  have "lock_inv s lk" using inv by (simp add: spin_inv_def)
  then have "\<not> (sk_locked (locks t lk) \<and> sk_cpu (locks t lk) = Some c)"
    using lk by (auto simp: lock_inv_def t_def)
  moreover have "upd_cpu c (\<lambda>p. p\<lparr>c_intena := (if c_ncli p = 0 then c_if p else c_intena p)\<rparr>) t = t"
    using c tc D(3,5) by (intro upd_cpu_if_id) (simp_all add: t_def)
  moreover have "smp_ok t" "c < length (cpus t)" using D(1) c by (simp_all add: t_def)
  ultimately have "holding c lk t = Ok False t" using holding_Ok [of t c lk] tc D(3,5) by simp
  then show ?thesis using p by (simp add: acquire_enter_def t_def)
qed

lemma acquire_enter_held:
  assumes inv: "spin_inv s" and c: "c < length (cpus s)" and lk: "lk \<in> held s c"
  shows "acquire_enter c lk s = Panic ''acquire''"
proof -
  note D = spin_invD [OF inv c]
  define t where "t = upd_cpu c (\<lambda>p. p\<lparr>c_if := False, c_intena := (if c_ncli p = 0 then c_if p else c_intena p), c_ncli := c_ncli p + 1\<rparr>) s"
  have p: "pushcli c s = Ok () t" unfolding t_def by (rule pushcli_Ok [OF D(1) c])
  have "lock_inv s lk" using inv by (simp add: spin_inv_def)
  then have "sk_locked (locks t lk) \<and> sk_cpu (locks t lk) = Some c" using lk by (auto simp: lock_inv_def owns_def t_def)
  moreover have "smp_ok t" "c < length (cpus t)" "c_ncli (the_cpu t c) = depth s c + 1" "\<not> c_if (the_cpu t c)"
    using D c by (simp_all add: t_def the_cpu_upd)
  ultimately obtain u where "holding c lk t = Ok True u" using holding_Ok [of t c lk] D(5) by auto
  then show ?thesis using p by (simp add: acquire_enter_def)
qed

lemma release_enter_inv:
  assumes inv: "spin_inv s" and c: "c < length (cpus s)"
  shows "release_enter c lk s =
    (if lk \<in> held s c then Ok () (upd_lock lk (\<lambda>l. l\<lparr>sk_pcs := (sk_pcs l)[0 := 0], sk_cpu := None\<rparr>) s) else Panic ''release'')"
proof (cases "lk \<in> held s c")
  case True
  note D = spin_invD [OF inv c]
  have "1 \<le> c_ncli (the_cpu s c)" using held_depth [OF D(2) True] D(3) by simp
  then have "upd_cpu c (\<lambda>p. p\<lparr>c_intena := (if c_ncli p = 0 then c_if p else c_intena p)\<rparr>) s = s"
    using c by (intro upd_cpu_if_id) simp_all
  with True show ?thesis using holding_inv [OF inv c, of lk] by (simp add: release_enter_def)
qed (use holding_inv [OF inv c, of lk] in \<open>simp add: release_enter_def\<close>)

lemma popcli_inv:
  assumes inv: "spin_inv s" and c: "c < length (cpus s)" and d: "1 \<le> depth s c"
  shows "popcli c s = Ok () (upd_cpu c (\<lambda>p. p\<lparr>c_ncli := c_ncli p - 1, c_if := (c_ncli p = 1 \<and> c_intena p)\<rparr>) s)"
  using spin_invD [OF inv c] d by (intro popcli_Ok c) auto

lemma release_store_inv:
  assumes inv: "spin_inv s" and c: "c < length (cpus s)" and d: "1 \<le> depth s c"
  shows "release_store c lk s = Ok () (upd_cpu c (\<lambda>p. p\<lparr>c_ncli := c_ncli p - 1, c_if := (c_ncli p = 1 \<and> c_intena p)\<rparr>)
    (upd_lock lk (\<lambda>l. l\<lparr>sk_locked := False\<rparr>) s))"
  using spin_invD [OF inv c] d unfolding release_store_def by (intro popcli_Ok) (use c in auto)

lemma acquire_record_inv:
  assumes inv: "spin_inv s" and c: "c < length (cpus s)" and d: "1 \<le> depth s c"
  shows "acquire_record c lk pcs s = Ok () (upd_lock lk (\<lambda>l. l\<lparr>sk_cpu := Some c, sk_pcs := pcs\<rparr>) s)"
proof -
  have "mycpu c s = Ok c s" using spin_invD [OF inv c] d by (intro mycpu_Ok c) auto
  then show ?thesis by (simp add: acquire_record_def)
qed

lemmas spin_effects = acquire_enter_inv release_enter_inv popcli_inv release_store_inv acquire_record_inv

lemma spin_frame [simp]:
  "at (upd_cpu c f s) = at s" "held (upd_cpu c f s) = held s" "extra (upd_cpu c f s) = extra s"
  "at (upd_lock lk g s) = at s" "held (upd_lock lk g s) = held s" "extra (upd_lock lk g s) = extra s"
  "smp_ok (s\<lparr>at := a\<rparr>) = smp_ok s" "smp_ok (s\<lparr>held := h\<rparr>) = smp_ok s" "smp_ok (s\<lparr>extra := e\<rparr>) = smp_ok s"
  by (simp_all add: upd_cpu_def upd_lock_def smp_ok_def)

text \<open>An invariant per processor and per lock: what a step has to keep.\<close>

lemma spin_invI:
  assumes "spin_inv s" "smp_ok t" "length (cpus t) = length (cpus s)"
    and "\<And>d. d < length (cpus s) \<Longrightarrow> d \<noteq> c \<Longrightarrow> the_cpu t d = the_cpu s d \<and> held t d = held s d \<and> extra t d = extra s d \<and> at t d = at s d"
    and "c < length (cpus s) \<Longrightarrow> cpu_inv t c"
    and "\<And>lk. lock_inv t lk"
  shows "spin_inv t"
  unfolding spin_inv_def
proof (intro conjI allI impI)
  fix d assume d: "d < length (cpus t)"
  show "cpu_inv t d"
  proof (cases "d = c")
    case True
    then show ?thesis using assms(3,5) d by simp
  next
    case False
    then show ?thesis using assms(1,3) assms(4) [of d] d by (auto simp: spin_inv_def cpu_inv_def depth_def)
  qed
qed (use assms(2,6) in auto)

lemma lock_inv_same:
  assumes "spin_inv s" "length (cpus t) = length (cpus s)" "sk_cpu (locks t lk) = sk_cpu (locks s lk)"
    "sk_locked (locks t lk) = sk_locked (locks s lk)" "\<And>d. at t d = Got lk \<longleftrightarrow> at s d = Got lk"
    "\<And>d. at t d = Rel lk \<longleftrightarrow> at s d = Rel lk" "\<And>d. lk \<in> held t d \<longleftrightarrow> lk \<in> held s d"
  shows "lock_inv t lk"
proof -
  have o: "owns t c lk = owns s c lk" for c using assms by (simp add: owns_def)
  have "lock_inv s lk" using assms(1) by (simp add: spin_inv_def)
  then show ?thesis unfolding lock_inv_def o assms(2-7) .
qed

lemma enter_inv:
  assumes inv: "spin_inv s" and c: "c < length (cpus s)" and run: "at s c = Run" and ok: "acquire_enter c lk s = Ok () s'"
  shows "spin_inv (s'\<lparr>at := (at s)(c := Spin lk)\<rparr>)"
proof (rule spin_invI [OF inv, where c = c])
  note D = spin_invD [OF inv c]
  have lk: "lk \<notin> held s c" using ok acquire_enter_held [OF inv c] by fastforce
  have s': "s' = upd_cpu c (\<lambda>p. p\<lparr>c_if := False, c_intena := (if c_ncli p = 0 then c_if p else c_intena p), c_ncli := c_ncli p + 1\<rparr>) s"
    using acquire_enter_inv [OF inv c lk] ok by simp
  show "lock_inv (s'\<lparr>at := (at s)(c := Spin lk)\<rparr>) l" for l
    by (rule lock_inv_same [OF inv]) (use run in \<open>auto simp: s'\<close>)
  show "cpu_inv (s'\<lparr>at := (at s)(c := Spin lk)\<rparr>) c" using c D run by (auto simp: s' the_cpu_upd cpu_inv_def depth_def)
qed (use c ok inv acquire_enter_inv [OF inv c] acquire_enter_held [OF inv c] in \<open>cases "lk \<in> held s c"; auto simp: the_cpu_upd spin_inv_def\<close>)+

lemma xchg_inv:
  assumes inv: "spin_inv s" and c: "c < length (cpus s)" and sp: "at s c = Spin lk" and ok: "acquire_xchg lk s = Ok got s'"
  shows "spin_inv (s'\<lparr>at := (at s)(c := if got then Got lk else Spin lk)\<rparr>)"
proof (rule spin_invI [OF inv, where c = c])
  note D = spin_invD [OF inv c] and L = lock_invD [OF inv]
  have s': "s' = upd_lock lk (\<lambda>l. l\<lparr>sk_locked := True\<rparr>) s" and got: "got = (\<not> sk_locked (locks s lk))"
    using ok by (auto simp: acquire_xchg_def)
  let ?t = "s'\<lparr>at := (at s)(c := if got then Got lk else Spin lk)\<rparr>"
  show "lock_inv ?t l" for l
  proof (cases "l = lk \<and> got")
    case True
    then have n: "\<not> owns s d lk" for d using L(2) got by blast
    then have "sk_cpu (locks s lk) = None" using L(4) [of lk] by (cases "sk_cpu (locks s lk)") (auto simp: owns_def)
    with True n c show ?thesis by (auto simp: lock_inv_def owns_def s')
  next
    case False
    show ?thesis by (rule lock_inv_same [OF inv]) (use False sp got in \<open>auto simp: s'\<close>)
  qed
  show "cpu_inv ?t c" using D sp by (auto simp: s' cpu_inv_def depth_def)
qed (use ok inv in \<open>auto simp: acquire_xchg_def spin_inv_def\<close>)

lemma stamp_inv:
  assumes inv: "spin_inv s" and c: "c < length (cpus s)" and got: "at s c = Got lk" and ok: "acquire_record c lk pcs s = Ok () s'"
  shows "spin_inv (s'\<lparr>at := (at s)(c := Run), held := (held s)(c := insert lk (held s c))\<rparr>)"
proof -
  note D = spin_invD [OF inv c] and L = lock_invD [OF inv]
  have d: "1 \<le> depth s c" using got by (intro depth_pos) simp
  have s': "s' = upd_lock lk (\<lambda>l. l\<lparr>sk_cpu := Some c, sk_pcs := pcs\<rparr>) s"
    using acquire_record_inv [OF inv c d, of lk pcs] ok by simp
  have nh: "lk \<notin> held s e" for e using L(4) [of lk e] L(5) [of c lk] got by simp
  have o: "owns s e lk \<longleftrightarrow> e = c" for e using L(3) [of c lk e] got by (auto simp: owns_def)
  have no: "at s e \<noteq> Got lk" "at s e \<noteq> Rel lk" if "e \<noteq> c" for e using o [of e] that by (auto simp: owns_def)
  let ?t = "s'\<lparr>at := (at s)(c := Run), held := (held s)(c := insert lk (held s c))\<rparr>"
  show ?thesis
  proof (rule spin_invI [OF inv, where c = c])
    show "lock_inv ?t l" for l
    proof (cases "l = lk")
      case True
      then show ?thesis using nh no c L(2) [of c lk] got o by (auto simp: lock_inv_def owns_def s')
    next
      case False
      show ?thesis by (rule lock_inv_same [OF inv]) (use False got in \<open>auto simp: s'\<close>)
    qed
    show "cpu_inv ?t c" using D got nh by (auto simp: s' cpu_inv_def depth_def)
  qed (use inv in \<open>auto simp: s' spin_inv_def\<close>)
qed

lemma release_inv:
  assumes inv: "spin_inv s" and c: "c < length (cpus s)" and run: "at s c = Run" and ok: "release_enter c lk s = Ok () s'"
  shows "spin_inv (s'\<lparr>at := (at s)(c := Rel lk), held := (held s)(c := held s c - {lk})\<rparr>)"
proof -
  note D = spin_invD [OF inv c] and L = lock_invD [OF inv]
  have s': "s' = upd_lock lk (\<lambda>l. l\<lparr>sk_pcs := (sk_pcs l)[0 := 0], sk_cpu := None\<rparr>) s" and lk: "lk \<in> held s c"
    using ok release_enter_inv [OF inv c, of lk] by (auto split: if_splits)
  have o: "owns s e lk \<longleftrightarrow> e = c" for e using L(3) [of c lk e] lk by (auto simp: owns_def)
  have no: "at s e \<noteq> Got lk" "at s e \<noteq> Rel lk" "lk \<notin> held s e" if "e \<noteq> c" for e using o [of e] that by (auto simp: owns_def)
  have card: "card (held s c) = Suc (card (held s c - {lk}))" using D(2) lk by (metis card.remove)
  let ?t = "s'\<lparr>at := (at s)(c := Rel lk), held := (held s)(c := held s c - {lk})\<rparr>"
  show ?thesis
  proof (rule spin_invI [OF inv, where c = c])
    show "lock_inv ?t l" for l
    proof (cases "l = lk")
      case True
      then show ?thesis using no c L(2) [of c lk] lk o by (auto simp: lock_inv_def owns_def s')
    next
      case False
      show ?thesis by (rule lock_inv_same [OF inv]) (use False run in \<open>auto simp: s'\<close>)
    qed
    show "cpu_inv ?t c" using D run card by (auto simp: s' cpu_inv_def depth_def)
  qed (use inv in \<open>auto simp: s' spin_inv_def\<close>)
qed

lemma store_inv:
  assumes inv: "spin_inv s" and c: "c < length (cpus s)" and rel: "at s c = Rel lk" and ok: "release_store c lk s = Ok () s'"
  shows "spin_inv (s'\<lparr>at := (at s)(c := Run)\<rparr>)"
proof -
  note D = spin_invD [OF inv c] and L = lock_invD [OF inv]
  have d: "1 \<le> depth s c" using rel by (intro depth_pos) simp
  have s': "s' = upd_cpu c (\<lambda>p. p\<lparr>c_ncli := c_ncli p - 1, c_if := (c_ncli p = 1 \<and> c_intena p)\<rparr>) (upd_lock lk (\<lambda>l. l\<lparr>sk_locked := False\<rparr>) s)"
    using ok release_store_inv [OF inv c d, of lk] by simp
  have o: "owns s e lk \<longleftrightarrow> e = c" for e using L(3) [of c lk e] rel by (auto simp: owns_def)
  have nh: "lk \<notin> held s e" for e using L(4) [of lk e] L(5) [of c lk] rel by simp
  have no: "at s e \<noteq> Got lk" "at s e \<noteq> Rel lk" if "e \<noteq> c" for e using o [of e] that by (auto simp: owns_def)
  let ?t = "s'\<lparr>at := (at s)(c := Run)\<rparr>"
  show ?thesis
  proof (rule spin_invI [OF inv, where c = c])
    show "lock_inv ?t l" for l
    proof (cases "l = lk")
      case True
      then show ?thesis using no nh L(5) [of c lk] rel by (auto simp: lock_inv_def owns_def s')
    next
      case False
      show ?thesis by (rule lock_inv_same [OF inv]) (use False rel in \<open>auto simp: s'\<close>)
    qed
    show "cpu_inv ?t c" using D rel c by (auto simp: s' cpu_inv_def depth_def the_cpu_upd)
  qed (use inv c in \<open>auto simp: s' spin_inv_def the_cpu_upd\<close>)
qed

lemma cli_inv:
  assumes inv: "spin_inv s" and c: "c < length (cpus s)" and run: "at s c = Run"
  shows "pushcli c s = Ok () s' \<Longrightarrow> spin_inv (s'\<lparr>extra := (extra s)(c := extra s c + 1)\<rparr>)"
    "popcli c s = Ok () s' \<Longrightarrow> 0 < extra s c \<Longrightarrow> spin_inv (s'\<lparr>extra := (extra s)(c := extra s c - 1)\<rparr>)"
    "c_ncli (the_cpu s c) = 0 \<Longrightarrow> spin_inv (upd_cpu c (\<lambda>p. p\<lparr>c_if := True\<rparr>) s)"
proof -
  note D = spin_invD [OF inv c]
  have L: "lock_inv (t\<lparr>extra := e\<rparr>) l = lock_inv t l" "lock_inv (upd_cpu c f s) l" for t :: spin_sys and e f l
    using inv by (simp_all add: lock_inv_def owns_def spin_inv_def)
  show "pushcli c s = Ok () s' \<Longrightarrow> spin_inv (s'\<lparr>extra := (extra s)(c := extra s c + 1)\<rparr>)"
    by (rule spin_invI [OF inv, where c = c])
      (use D c run pushcli_Ok [OF D(1) c] L in \<open>auto simp: the_cpu_upd cpu_inv_def depth_def\<close>)
  show "popcli c s = Ok () s' \<Longrightarrow> 0 < extra s c \<Longrightarrow> spin_inv (s'\<lparr>extra := (extra s)(c := extra s c - 1)\<rparr>)"
    by (rule spin_invI [OF inv, where c = c])
      (use D c run popcli_inv [OF inv c] L in \<open>auto simp: the_cpu_upd cpu_inv_def depth_def\<close>)
  show "c_ncli (the_cpu s c) = 0 \<Longrightarrow> spin_inv (upd_cpu c (\<lambda>p. p\<lparr>c_if := True\<rparr>) s)"
    by (rule spin_invI [OF inv, where c = c]) (use D c run L in \<open>auto simp: the_cpu_upd cpu_inv_def depth_def\<close>)
qed

lemma spin_step_inv: "spin_step s t \<Longrightarrow> spin_inv s \<Longrightarrow> spin_inv t"
  by (induction rule: spin_step.induct) (blast intro: enter_inv xchg_inv stamp_inv release_inv store_inv cli_inv)+

lemma spin_reachable: "spin_step\<^sup>*\<^sup>* s t \<Longrightarrow> spin_inv s \<Longrightarrow> spin_inv t"
  by (induction rule: rtranclp_induct) (auto intro: spin_step_inv)

section \<open>Mutual exclusion\<close>

definition spin_start :: "spin_sys \<Rightarrow> bool" where
  "spin_start s \<longleftrightarrow> smp_ok s \<and> (\<forall>c < length (cpus s). c_ncli (the_cpu s c) = 0) \<and>
     (\<forall>lk. \<not> sk_locked (locks s lk) \<and> sk_cpu (locks s lk) = None) \<and>
     (\<forall>c. at s c = Run \<and> held s c = {} \<and> extra s c = 0)"

lemma spin_start_inv: "spin_start s \<Longrightarrow> spin_inv s"
  by (simp add: spin_start_def spin_inv_def cpu_inv_def depth_def lock_inv_def owns_def)

text \<open>
  C6. Mutual exclusion: whatever the interleaving of the processors, two of them are never both
  between the return of \<^verbatim>\<open>acquire\<close> and the call of \<^verbatim>\<open>release\<close> for the same lock, and a processor
  that holds a lock has its interrupts off.
\<close>

theorem spinlock_mutual_exclusion:
  assumes "spin_start s0" "spin_step\<^sup>*\<^sup>* s0 s" "lk \<in> held s c"
  shows "c < length (cpus s) \<and> \<not> c_if (the_cpu s c) \<and> (lk \<in> held s d \<longrightarrow> d = c)"
proof -
  have inv: "spin_inv s" using assms(1,2) spin_reachable spin_start_inv by blast
  have o: "owns s c lk" using assms(3) by (simp add: owns_def)
  then have c: "c < length (cpus s)" by (rule lock_invD(1) [OF inv])
  have "1 \<le> depth s c" by (rule held_depth [OF spin_invD(2) [OF inv c] assms(3)])
  then show ?thesis using c spin_invD(4) [OF inv c] lock_invD(3) [OF inv o, of d] by (auto simp: owns_def)
qed

text \<open>Two processors and any number of free locks.\<close>

definition ex_smp :: spin_sys where
  "ex_smp = \<lparr>cpus = map (\<lambda>i. \<lparr>c_apicid = of_nat i, c_if = True, c_ncli = 0, c_intena = False\<rparr>) [0..<2],
     locks = (\<lambda>_. \<lparr>sk_locked = False, sk_cpu = None, sk_pcs = replicate 10 0\<rparr>), at = (\<lambda>_. Run), held = (\<lambda>_. {}), extra = (\<lambda>_. 0)\<rparr>"

lemma ex_smp_start: "spin_start ex_smp" "length (cpus ex_smp) = 2"
  by (auto simp: spin_start_def ex_smp_def smp_ok_def numeral_2_eq_2 less_Suc_eq)

lemma ex_smp_acquired: "\<exists>s. spin_step\<^sup>*\<^sup>* ex_smp s \<and> 7 \<in> held s 0"
proof -
  have i0: "spin_inv ex_smp" by (rule spin_start_inv [OF ex_smp_start(1)])
  have a0: "0 < length (cpus ex_smp)" "at ex_smp 0 = Run" "7 \<notin> held ex_smp 0" by (simp_all add: ex_smp_def)
  obtain t1 where t1: "acquire_enter 0 7 ex_smp = Ok () t1" "length (cpus t1) = 2" "\<not> sk_locked (locks t1 7)"
    using acquire_enter_inv [OF i0 a0(1,3)] ex_smp_start(2) by (simp add: ex_smp_def)
  define s1 where "s1 = t1\<lparr>at := (at ex_smp)(0 := Spin 7)\<rparr>"
  have 1: "spin_step ex_smp s1" unfolding s1_def by (rule spin_step.enter [OF a0(1,2) t1(1)])
  have i1: "spin_inv s1" by (rule spin_step_inv [OF 1 i0])
  have a1: "0 < length (cpus s1)" "at s1 0 = Spin 7" "\<not> sk_locked (locks s1 7)" using t1 by (simp_all add: s1_def)
  obtain t2 where t2: "acquire_xchg 7 s1 = Ok True t2" "cpus t2 = cpus s1" using a1 by (simp add: acquire_xchg_def)
  define s2 where "s2 = t2\<lparr>at := (at s1)(0 := if True then Got 7 else Spin 7)\<rparr>"
  have 2: "spin_step s1 s2" unfolding s2_def by (rule spin_step.xchg [OF a1(1,2) t2(1)])
  have i2: "spin_inv s2" by (rule spin_step_inv [OF 2 i1])
  have a2: "0 < length (cpus s2)" "at s2 0 = Got 7" using a1 t2 by (simp_all add: s2_def)
  obtain t3 where t3: "acquire_record 0 7 [] s2 = Ok () t3"
    using acquire_record_inv [OF i2 a2(1) depth_pos] a2 by fastforce
  have 3: "spin_step s2 (t3\<lparr>at := (at s2)(0 := Run), held := (held s2)(0 := insert 7 (held s2 0))\<rparr>)"
    by (rule spin_step.stamp [OF a2 t3])
  from 1 2 3 have "spin_step\<^sup>*\<^sup>* ex_smp (t3\<lparr>at := (at s2)(0 := Run), held := (held s2)(0 := insert 7 (held s2 0))\<rparr>)"
    by (meson r_into_rtranclp rtranclp_trans)
  then show ?thesis by (intro exI conjI) auto
qed

theorem spinlock_mutual_exclusion_witness:
  "\<exists>s. spin_step\<^sup>*\<^sup>* ex_smp s \<and> 7 \<in> held s 0 \<and> \<not> c_if (the_cpu s 0) \<and> 7 \<notin> held s 1"
proof -
  obtain s where s: "spin_step\<^sup>*\<^sup>* ex_smp s" "7 \<in> held s 0" using ex_smp_acquired by blast
  show ?thesis using s spinlock_mutual_exclusion [OF ex_smp_start(1) s, of 1] by auto
qed

section \<open>Interrupts\<close>

text \<open>A step after which processor \<open>c\<close> is still inside at least \<open>k\<close> brackets.\<close>

definition nested :: "nat \<Rightarrow> int \<Rightarrow> spin_sys \<Rightarrow> spin_sys \<Rightarrow> bool" where
  "nested c k s t \<longleftrightarrow> spin_step s t \<and> k \<le> c_ncli (the_cpu t c)"

text \<open>Inside a bracket nothing changes the interrupt state that was saved when it was entered.\<close>

lemma spin_step_intena:
  assumes "spin_step s t" "spin_inv s" "c < length (cpus s)" "1 \<le> c_ncli (the_cpu s c)" "1 \<le> c_ncli (the_cpu t c)"
  shows "c_intena (the_cpu t c) = c_intena (the_cpu s c) \<and> length (cpus t) = length (cpus s)"
  using assms(1)
proof cases
  case (enter d lk s')
  then have "lk \<notin> held s d" using acquire_enter_held [OF assms(2)] by fastforce
  then show ?thesis using enter acquire_enter_inv [OF assms(2), of d lk] assms(4) by (auto simp: the_cpu_upd split: if_splits)
next
  case (xchg d lk got s')
  then show ?thesis by (auto simp: acquire_xchg_def)
next
  case (stamp d lk pcs s')
  then show ?thesis using acquire_record_inv [OF assms(2) stamp(2) depth_pos] by auto
next
  case (release d lk s')
  then show ?thesis using release_enter_inv [OF assms(2) release(2), of lk] by (auto split: if_splits)
next
  case (store d lk s')
  then show ?thesis using release_store_inv [OF assms(2) store(2) depth_pos] by (auto simp: the_cpu_upd split: if_splits)
next
  case (push d s')
  then show ?thesis using pushcli_Ok [OF spin_invD(1) [OF assms(2,3)] push(2)] assms(4) by (auto simp: the_cpu_upd split: if_splits)
next
  case (pop d s')
  then have "1 \<le> depth s d" by (simp add: depth_def)
  then show ?thesis using pop popcli_inv [OF assms(2) pop(2)] by (auto simp: the_cpu_upd split: if_splits)
next
  case (sti d)
  then show ?thesis using assms(4) by (auto simp: the_cpu_upd split: if_splits)
qed

lemma nested_intena:
  assumes "(nested c k)\<^sup>*\<^sup>* s t" "spin_inv s" "c < length (cpus s)" "1 \<le> k" "k \<le> c_ncli (the_cpu s c)"
  shows "spin_inv t \<and> c_intena (the_cpu t c) = c_intena (the_cpu s c) \<and> length (cpus t) = length (cpus s) \<and> k \<le> c_ncli (the_cpu t c)"
  using assms(1)
proof (induction rule: rtranclp_induct)
  case base
  then show ?case using assms by simp
next
  case (step t u)
  then have st: "spin_step t u" "k \<le> c_ncli (the_cpu u c)" by (simp_all add: nested_def)
  then show ?case using step.IH spin_step_inv [OF st(1)] spin_step_intena [OF st(1), of c] assms(3,4) by auto
qed

lemma bracket_restores:
  assumes inv: "spin_inv s" and c: "c < length (cpus s)" "at s c = Run"
    and en: "acquire_enter c lk s = Ok () s1" and run: "(nested c (c_ncli (the_cpu s c) + 1))\<^sup>*\<^sup>* (s1\<lparr>at := (at s)(c := Spin lk)\<rparr>) s2"
    and re: "at s2 c = Rel lk'" "c_ncli (the_cpu s2 c) = c_ncli (the_cpu s c) + 1" "release_store c lk' s2 = Ok () s3"
  shows "\<not> c_if (the_cpu s2 c) \<and> c_if (the_cpu s3 c) = c_if (the_cpu s c) \<and> c_ncli (the_cpu s3 c) = c_ncli (the_cpu s c)"
proof -
  note D = spin_invD [OF inv c(1)]
  let ?t = "s1\<lparr>at := (at s)(c := Spin lk)\<rparr>"
  have "lk \<notin> held s c" using en acquire_enter_held [OF inv c(1)] by fastforce
  then have s1: "s1 = upd_cpu c (\<lambda>p. p\<lparr>c_if := False, c_intena := (if c_ncli p = 0 then c_if p else c_intena p), c_ncli := c_ncli p + 1\<rparr>) s"
    using acquire_enter_inv [OF inv c(1)] en by simp
  have t: "spin_inv ?t" "c < length (cpus ?t)" "c_ncli (the_cpu ?t c) = c_ncli (the_cpu s c) + 1"
      "c_intena (the_cpu ?t c) = (if c_ncli (the_cpu s c) = 0 then c_if (the_cpu s c) else c_intena (the_cpu s c))"
    using enter_inv [OF inv c en] c(1) by (auto simp: s1 the_cpu_upd)
  have N: "spin_inv s2" "c_intena (the_cpu s2 c) = c_intena (the_cpu ?t c)" "c < length (cpus s2)"
    using nested_intena [OF run t(1,2)] t(2,3) D(3,5) by auto
  have d: "1 \<le> depth s2 c" using re(1) by (intro depth_pos) simp
  have "s3 = upd_cpu c (\<lambda>p. p\<lparr>c_ncli := c_ncli p - 1, c_if := (c_ncli p = 1 \<and> c_intena p)\<rparr>) (upd_lock lk' (\<lambda>l. l\<lparr>sk_locked := False\<rparr>) s2)"
    using re(3) release_store_inv [OF N(1,3) d, of lk'] by simp
  then have e: "c_if (the_cpu s3 c) = (c_ncli (the_cpu s c) = 0 \<and> c_intena (the_cpu s2 c))" "c_ncli (the_cpu s3 c) = c_ncli (the_cpu s c)"
    using N(3) re(2) by (simp_all add: the_cpu_upd)
  have "\<not> c_if (the_cpu s2 c)" using spin_invD(4) [OF N(1,3)] d by auto
  moreover have "c_if (the_cpu s3 c) = c_if (the_cpu s c)" using e(1) N(2) t(4) D(3,4) by auto
  ultimately show ?thesis using e(2) by blast
qed

text \<open>
  C7. Brackets of \<^verbatim>\<open>acquire\<close> and \<^verbatim>\<open>release\<close>. In every reachable state entering \<^verbatim>\<open>acquire\<close> for a lock the processor does
  not hold, and \<^verbatim>\<open>release\<close> of one it does, do not panic, and the two wrong uses (taking a lock twice, releasing a lock
  that is not held) do. From the entry of an \<^verbatim>\<open>acquire\<close> to the \<^verbatim>\<open>release\<close> that closes its bracket, whatever the other processors
  do and whatever brackets are opened and closed in between, interrupts are off, and afterwards the
  interrupt flag and the nesting count are what they were before the \<^verbatim>\<open>acquire\<close>.
\<close>

theorem spinlock_brackets:
  assumes "spin_start s0" "spin_step\<^sup>*\<^sup>* s0 s" "c < length (cpus s)"
  shows "(if lk \<in> held s c
     then acquire_enter c lk s = Panic ''acquire'' \<and> (\<exists>s'. release_enter c lk s = Ok () s')
     else (\<exists>s'. acquire_enter c lk s = Ok () s') \<and> release_enter c lk s = Panic ''release'') \<and>
    (at s c = Rel lk \<longrightarrow> (\<exists>s'. release_store c lk s = Ok () s')) \<and>
    (\<forall>s1 s2 s3 lk'. at s c = Run \<and> acquire_enter c lk s = Ok () s1 \<and>
       (nested c (c_ncli (the_cpu s c) + 1))\<^sup>*\<^sup>* (s1\<lparr>at := (at s)(c := Spin lk)\<rparr>) s2 \<and>
       at s2 c = Rel lk' \<and> c_ncli (the_cpu s2 c) = c_ncli (the_cpu s c) + 1 \<and> release_store c lk' s2 = Ok () s3 \<longrightarrow>
       \<not> c_if (the_cpu s2 c) \<and> c_if (the_cpu s3 c) = c_if (the_cpu s c) \<and> c_ncli (the_cpu s3 c) = c_ncli (the_cpu s c))"
proof (intro conjI allI impI)
  have inv: "spin_inv s" using assms(1,2) spin_reachable spin_start_inv by blast
  show "if lk \<in> held s c
     then acquire_enter c lk s = Panic ''acquire'' \<and> (\<exists>s'. release_enter c lk s = Ok () s')
     else (\<exists>s'. acquire_enter c lk s = Ok () s') \<and> release_enter c lk s = Panic ''release''"
    using acquire_enter_held [OF inv assms(3)] acquire_enter_inv [OF inv assms(3)] release_enter_inv [OF inv assms(3), of lk] by auto
  show "\<exists>s'. release_store c lk s = Ok () s'" if "at s c = Rel lk"
    using release_store_inv [OF inv assms(3) depth_pos] that by auto
  fix s1 s2 s3 lk'
  assume "at s c = Run \<and> acquire_enter c lk s = Ok () s1 \<and>
       (nested c (c_ncli (the_cpu s c) + 1))\<^sup>*\<^sup>* (s1\<lparr>at := (at s)(c := Spin lk)\<rparr>) s2 \<and>
       at s2 c = Rel lk' \<and> c_ncli (the_cpu s2 c) = c_ncli (the_cpu s c) + 1 \<and> release_store c lk' s2 = Ok () s3"
  then have "\<not> c_if (the_cpu s2 c) \<and> c_if (the_cpu s3 c) = c_if (the_cpu s c) \<and> c_ncli (the_cpu s3 c) = c_ncli (the_cpu s c)"
    using bracket_restores [OF inv assms(3)] by blast
  then show "\<not> c_if (the_cpu s2 c)" "c_if (the_cpu s3 c) = c_if (the_cpu s c)" "c_ncli (the_cpu s3 c) = c_ncli (the_cpu s c)" by blast+
qed

text \<open>Processor 0 takes lock 7 and gives it back.\<close>

lemma ex_smp_bracket:
  obtains s1 s2 s3 where "acquire_enter 0 7 ex_smp = Ok () s1" "(nested 0 1)\<^sup>*\<^sup>* (s1\<lparr>at := (at ex_smp)(0 := Spin 7)\<rparr>) s2"
    "at s2 0 = Rel 7" "c_ncli (the_cpu s2 0) = 1" "release_store 0 7 s2 = Ok () s3"
proof -
  have i0: "spin_inv ex_smp" by (rule spin_start_inv [OF ex_smp_start(1)])
  have a0: "0 < length (cpus ex_smp)" "at ex_smp 0 = Run" "7 \<notin> held ex_smp 0" "c_ncli (the_cpu ex_smp 0) = 0" "\<not> sk_locked (locks ex_smp 7)"
    by (simp_all add: ex_smp_def upt_conv_Cons)
  obtain t1 where t1: "acquire_enter 0 7 ex_smp = Ok () t1" "length (cpus t1) = 2" "\<not> sk_locked (locks t1 7)" "c_ncli (the_cpu t1 0) = 1"
    using acquire_enter_inv [OF i0 a0(1,3)] a0 ex_smp_start(2) by (simp add: the_cpu_upd)
  define s1 where "s1 = t1\<lparr>at := (at ex_smp)(0 := Spin 7)\<rparr>"
  have i1: "spin_inv s1" unfolding s1_def by (rule enter_inv [OF i0 a0(1,2) t1(1)])
  have a1: "0 < length (cpus s1)" "at s1 0 = Spin 7" "\<not> sk_locked (locks s1 7)" "c_ncli (the_cpu s1 0) = 1" using t1 by (simp_all add: s1_def)
  obtain t2 where t2: "acquire_xchg 7 s1 = Ok True t2" "cpus t2 = cpus s1" using a1 by (simp add: acquire_xchg_def)
  define s2 where "s2 = t2\<lparr>at := (at s1)(0 := if True then Got 7 else Spin 7)\<rparr>"
  have 2: "nested 0 1 s1 s2" using spin_step.xchg [OF a1(1,2) t2(1)] t2(2) a1(4) by (simp add: nested_def s2_def)
  have i2: "spin_inv s2" using spin_step_inv i1 2 by (auto simp: nested_def)
  have a2: "0 < length (cpus s2)" "at s2 0 = Got 7" "c_ncli (the_cpu s2 0) = 1" using a1 t2 by (simp_all add: s2_def)
  obtain t3 where t3: "acquire_record 0 7 [] s2 = Ok () t3" "cpus t3 = cpus s2"
    using acquire_record_inv [OF i2 a2(1) depth_pos] a2 by fastforce
  define s3 where "s3 = t3\<lparr>at := (at s2)(0 := Run), held := (held s2)(0 := insert 7 (held s2 0))\<rparr>"
  have 3: "nested 0 1 s2 s3" using spin_step.stamp [OF a2(1,2) t3(1)] t3(2) a2(3) by (simp add: nested_def s3_def)
  have i3: "spin_inv s3" using spin_step_inv i2 3 by (auto simp: nested_def)
  have a3: "0 < length (cpus s3)" "at s3 0 = Run" "c_ncli (the_cpu s3 0) = 1" "7 \<in> held s3 0" using a2 t3 by (simp_all add: s3_def)
  obtain t4 where t4: "release_enter 0 7 s3 = Ok () t4" "cpus t4 = cpus s3" using release_enter_inv [OF i3 a3(1), of 7] a3(4) by auto
  define s4 where "s4 = t4\<lparr>at := (at s3)(0 := Rel 7), held := (held s3)(0 := held s3 0 - {7})\<rparr>"
  have 4: "nested 0 1 s3 s4" using spin_step.release [OF a3(1,2) t4(1)] t4(2) a3(3) by (simp add: nested_def s4_def)
  have i4: "spin_inv s4" using spin_step_inv i3 4 by (auto simp: nested_def)
  have a4: "0 < length (cpus s4)" "at s4 0 = Rel 7" "c_ncli (the_cpu s4 0) = 1" using a3 t4 by (simp_all add: s4_def)
  obtain s5 where "release_store 0 7 s4 = Ok () s5" using release_store_inv [OF i4 a4(1) depth_pos] a4(2) by fastforce
  moreover have "(nested 0 1)\<^sup>*\<^sup>* s1 s4" using 2 3 4 by (meson r_into_rtranclp rtranclp_trans)
  ultimately show thesis using that [OF t1(1)] a4 by (simp add: s1_def)
qed

theorem spinlock_brackets_witness:
  "\<exists>s1 s2 s3. acquire_enter 0 7 ex_smp = Ok () s1 \<and> (nested 0 1)\<^sup>*\<^sup>* (s1\<lparr>at := (at ex_smp)(0 := Spin 7)\<rparr>) s2 \<and>
     \<not> c_if (the_cpu s2 0) \<and> release_store 0 7 s2 = Ok () s3 \<and> c_if (the_cpu s3 0) \<and> release_enter 0 7 ex_smp = Panic ''release''"
proof -
  obtain s1 s2 s3 where b: "acquire_enter 0 7 ex_smp = Ok () s1" "(nested 0 1)\<^sup>*\<^sup>* (s1\<lparr>at := (at ex_smp)(0 := Spin 7)\<rparr>) s2"
    "at s2 0 = Rel 7" "c_ncli (the_cpu s2 0) = 1" "release_store 0 7 s2 = Ok () s3" by (rule ex_smp_bracket)
  have a: "0 < length (cpus ex_smp)" "at ex_smp 0 = Run" "7 \<notin> held ex_smp 0" "c_ncli (the_cpu ex_smp 0) = 0" "c_if (the_cpu ex_smp 0)"
    by (simp_all add: ex_smp_def upt_conv_Cons)
  have "\<not> c_if (the_cpu s2 0) \<and> c_if (the_cpu s3 0) \<and> release_enter 0 7 ex_smp = Panic ''release''"
    using spinlock_brackets [OF ex_smp_start(1) rtranclp.rtrancl_refl a(1), of 7] a b by auto
  then show ?thesis using b by blast
qed

end
