(* ===== verification/Proc.thy ===== *)
theory Proc
  imports File Spinlock
begin

text \<open>
  The life of a process (\<^verbatim>\<open>system/core/proc.c\<close>): creation, growth, exit, waiting for children,
  and the scheduler. \<open>p_tf\<close> and \<open>p_context\<close> are the structures that \<^verbatim>\<open>p->tf\<close> and \<^verbatim>\<open>p->context\<close>
  point to on the kernel stack of the process.
\<close>

section \<open>State\<close>

text \<open>The clock, the static variables of \<^verbatim>\<open>kbdgetc\<close> and \<^verbatim>\<open>forkret\<close>, the loop variable of the scheduler and two code
  addresses.\<close>

record kst = fist +
  ticks :: u32
  kbd_shift :: byte
  first_run :: bool
  sched_at :: nat
  sym_forkret :: u32
  sym_trapret :: u32

abbreviation proc :: "'a pst_scheme \<Rightarrow> nat \<Rightarrow> proc" where
  "proc s i \<equiv> ptable s ! i"

definition zero_tf :: trapframe where
  "zero_tf = \<lparr>tf_edi = 0, tf_esi = 0, tf_ebp = 0, tf_oesp = 0, tf_ebx = 0, tf_edx = 0, tf_ecx = 0, tf_eax = 0,
     tf_gs = 0, tf_fs = 0, tf_es = 0, tf_ds = 0, tf_trapno = 0, tf_err = 0, tf_eip = 0, tf_cs = 0,
     tf_eflags = 0, tf_esp = 0, tf_ss = 0\<rparr>"

section \<open>Creating processes\<close>

text \<open>The slot of the new process, or \<open>None\<close>. The trap frame takes 76 bytes at the top of the kernel
  stack; below it is the return address of \<^verbatim>\<open>forkret\<close>.\<close>

definition allocproc :: "'a kst_scheme \<Rightarrow> nat option \<times> 'a kst_scheme" where
  "allocproc s =
     (case first_index (\<lambda>i. p_state (proc s i) = UNUSED) NPROC of
        None \<Rightarrow> (None, s)
      | Some i \<Rightarrow>
          (let s = upd_proc i (\<lambda>p. p\<lparr>p_state := EMBRYO, p_pid := nextpid s\<rparr>) (s\<lparr>nextpid := wrap32 (nextpid s + 1)\<rparr>);
               (kstack, s) = kalloc s;
               s = upd_proc i (\<lambda>p. p\<lparr>p_kstack := kstack\<rparr>) s
           in if kstack = 0 then (None, upd_proc i (\<lambda>p. p\<lparr>p_state := UNUSED\<rparr>) s)
              else (Some i,
                upd_proc i (\<lambda>p. p\<lparr>p_context := \<lparr>cx_edi = 0, cx_esi = 0, cx_ebx = 0, cx_ebp = 0, cx_eip = sym_forkret s\<rparr>\<rparr>)
                  (store32 (kstack + KSTACKSIZE - 76 - 4) (sym_trapret s) s))))"

text \<open>\<open>initcode\<close> is the program linked in as \<^verbatim>\<open>_binary_initcode_start\<close>.\<close>

definition userinit :: "byte list \<Rightarrow> 'a kst_scheme \<Rightarrow> ('a kst_scheme, unit) outcome" where
  "userinit initcode s =
     (case allocproc s of
        (None, s) \<Rightarrow> Undef ''userinit: null process''
      | (Some p, s) \<Rightarrow>
          on (setupkvm (s\<lparr>initproc := p\<rparr>)) (\<lambda>pgdir s.
          let s = upd_proc p (\<lambda>q. q\<lparr>p_pgdir := pgdir\<rparr>) s in
          if pgdir = 0 then Panic ''userinit: out of memory?''
          else
            on (inituvm pgdir initcode s) (\<lambda>_ s.
            let s = upd_proc p (\<lambda>q. q\<lparr>p_sz := 4096,
                      p_tf := zero_tf\<lparr>tf_cs := 0x1B, tf_ds := 0x23, tf_es := 0x23, tf_ss := 0x23,
                                     tf_eflags := 0x200, tf_esp := 4096, tf_eip := 0\<rparr>,
                      p_name := safestrcpy (map of_char ''initcode'') 16\<rparr>) s
            in on (namei (map of_char ''/'') s) (\<lambda>cwd s.
               Ok () (upd_proc p (\<lambda>q. q\<lparr>p_cwd := cwd, p_state := RUNNABLE\<rparr>) s)))))"

definition growproc :: "int \<Rightarrow> 'a kst_scheme \<Rightarrow> ('a kst_scheme, int) outcome" where
  "growproc n s =
     (let sz = p_sz (myproc s); pgdir = p_pgdir (myproc s)
      in on (if n > 0 then allocuvm pgdir sz (sz + of_int n) s
             else if n < 0 then deallocuvm pgdir sz (sz + of_int n) s
             else Ok sz s) (\<lambda>sz s.
         if n \<noteq> 0 \<and> sz = 0 then Ok (-1) s
         else
           on (switchuvm (cur s) (upd_proc (cur s) (\<lambda>p. p\<lparr>p_sz := sz\<rparr>) s)) (\<lambda>_ s.
           Ok 0 s)))"

text \<open>One turn of the loop that passes the open files to the child \<open>np\<close>.\<close>

definition fork_fd :: "nat \<Rightarrow> nat \<Rightarrow> 'a kst_scheme \<Rightarrow> ('a kst_scheme, unit) outcome" where
  "fork_fd np i s =
     (case p_ofile (myproc s) ! i of
        None \<Rightarrow> Ok () s
      | Some f \<Rightarrow>
          on (filedup f s) (\<lambda>_ s.
          Ok () (upd_proc np (\<lambda>p. p\<lparr>p_ofile := (p_ofile p)[i := Some f]\<rparr>) s)))"

definition fork :: "'a kst_scheme \<Rightarrow> ('a kst_scheme, int) outcome" where
  "fork s =
     (case allocproc s of
        (None, s) \<Rightarrow> Ok (-1) s
      | (Some np, s) \<Rightarrow>
          on (copyuvm (p_pgdir (myproc s)) (p_sz (myproc s)) s) (\<lambda>pgdir s.
          let s = upd_proc np (\<lambda>p. p\<lparr>p_pgdir := pgdir\<rparr>) s in
          if pgdir = 0 then
            on (kfree (p_kstack (proc s np)) s) (\<lambda>_ s.
            Ok (-1) (upd_proc np (\<lambda>p. p\<lparr>p_kstack := 0, p_state := UNUSED\<rparr>) s))
          else
            (let curproc = myproc s;
                 s = upd_proc np (\<lambda>p. p\<lparr>p_sz := p_sz curproc, p_parent := Some (cur s),
                       p_tf := (p_tf curproc)\<lparr>tf_eax := 0\<rparr>\<rparr>) s
             in on (loop (fork_fd np) [0..<NOFILE] s) (\<lambda>_ s.
                case p_cwd curproc of
                  None \<Rightarrow> Undef ''idup: null inode''
                | Some cwd \<Rightarrow>
                    (let s = upd_proc np (\<lambda>p. p\<lparr>p_cwd := Some cwd, p_name := safestrcpy (p_name curproc) 16\<rparr>) (idup cwd s);
                         pid = p_pid (proc s np)
                     in Ok pid (upd_proc np (\<lambda>p. p\<lparr>p_state := RUNNABLE\<rparr>) s))))))"

section \<open>Exit and wait\<close>

definition exit_fd :: "nat \<Rightarrow> 'a kst_scheme \<Rightarrow> ('a kst_scheme, unit) outcome" where
  "exit_fd fd s =
     (case p_ofile (myproc s) ! fd of
        None \<Rightarrow> Ok () s
      | Some f \<Rightarrow>
          on (fileclose f s) (\<lambda>_ s.
          Ok () (upd_proc (cur s) (\<lambda>p. p\<lparr>p_ofile := (p_ofile p)[fd := None]\<rparr>) s)))"

text \<open>One turn of the loop that passes the children of the exiting process to \<^verbatim>\<open>initproc\<close>.\<close>

definition abandon :: "nat \<Rightarrow> 'a pst_scheme \<Rightarrow> 'a pst_scheme" where
  "abandon i s =
     (if p_parent (proc s i) = Some (cur s) then
        (let s = upd_proc i (\<lambda>p. p\<lparr>p_parent := Some (initproc s)\<rparr>) s
         in if p_state (proc s i) = ZOMBIE then wakeup (ChanProc (initproc s)) s else s)
      else s)"

text \<open>\<^verbatim>\<open>exit\<close> does not return: \<open>Ok\<close> is the state in which the scheduler takes over.\<close>

definition exit :: "'a kst_scheme \<Rightarrow> ('a kst_scheme, unit) outcome" where
  "exit s =
     (if cur s = initproc s then Panic ''init exiting''
      else
        on (loop exit_fd [0..<NOFILE] s) (\<lambda>_ s.
        on (begin_op s) (\<lambda>_ s.
        case p_cwd (myproc s) of
          None \<Rightarrow> Undef ''iput: null inode''
        | Some cwd \<Rightarrow>
            on (iput cwd s) (\<lambda>_ s.
            on (end_op s) (\<lambda>_ s.
            let s = upd_proc (cur s) (\<lambda>p. p\<lparr>p_cwd := None\<rparr>) s;
                s = (case p_parent (myproc s) of Some q \<Rightarrow> wakeup (ChanProc q) s | None \<Rightarrow> s);
                s = fold abandon [0..<NPROC] s
            in Ok () (upd_proc (cur s) (\<lambda>p. p\<lparr>p_state := ZOMBIE\<rparr>) s))))))"

definition wait :: "'a kst_scheme \<Rightarrow> ('a kst_scheme, int) outcome" where
  "wait s =
     (case first_index (\<lambda>i. p_parent (proc s i) = Some (cur s) \<and> p_state (proc s i) = ZOMBIE) NPROC of
        Some i \<Rightarrow>
          (let pid = p_pid (proc s i)
           in on (kfree (p_kstack (proc s i)) s) (\<lambda>_ s.
              on (freevm (p_pgdir (proc s i)) (upd_proc i (\<lambda>p. p\<lparr>p_kstack := 0\<rparr>) s)) (\<lambda>_ s.
              Ok pid (upd_proc i (\<lambda>p. p\<lparr>p_pid := 0, p_parent := None, p_name := (p_name p)[0 := 0],
                        p_killed := False, p_state := UNUSED\<rparr>) s))))
      | None \<Rightarrow>
          if \<not> (\<exists>i \<in> {..<NPROC}. p_parent (proc s i) = Some (cur s)) \<or> p_killed (myproc s) then Ok (-1) s
          else sleep (ChanProc (cur s)) s)"

section \<open>Scheduling\<close>

text \<open>\<^verbatim>\<open>sched\<close> with \<^verbatim>\<open>ptable.lock\<close> held as the only lock: the state in which the scheduler takes over.\<close>

definition sched :: "'a kst_scheme \<Rightarrow> ('a kst_scheme, unit) outcome" where
  "sched s = (if p_state (myproc s) = RUNNING then Panic ''sched running'' else Ok () s)"

definition yield :: "'a kst_scheme \<Rightarrow> ('a kst_scheme, unit) outcome" where
  "yield s = sched (upd_proc (cur s) (\<lambda>p. p\<lparr>p_state := RUNNABLE\<rparr>) s)"

text \<open>What follows the \<^verbatim>\<open>sched()\<close> of \<^verbatim>\<open>sleep\<close> when the process runs again.\<close>

definition sleep_return :: "'a pst_scheme \<Rightarrow> 'a pst_scheme" where
  "sleep_return s = upd_proc (cur s) (\<lambda>p. p\<lparr>p_chan := None\<rparr>) s"

text \<open>The next process that the two loops of \<^verbatim>\<open>scheduler\<close> switch to when the inner one stands at slot \<open>k\<close>:
  first the rest of the table, then, after another turn of the outer loop, the table from the
  start. \<open>None\<close> if nothing can run.\<close>

definition next_runnable :: "nat \<Rightarrow> proc list \<Rightarrow> nat option" where
  "next_runnable k ps = find (\<lambda>i. p_state (ps ! i) = RUNNABLE) ([k..<NPROC] @ [0..<k])"

definition scheduler :: "'a kst_scheme \<Rightarrow> ('a kst_scheme, unit) outcome" where
  "scheduler s =
     (case next_runnable (sched_at s) (ptable s) of
        None \<Rightarrow> Ok () (s\<lparr>sched_at := 0\<rparr>)
      | Some i \<Rightarrow>
          on (switchuvm i (s\<lparr>cur := i, sched_at := i + 1\<rparr>)) (\<lambda>_ s.
          Ok () (upd_proc i (\<lambda>p. p\<lparr>p_state := RUNNING\<rparr>) s)))"

definition forkret :: "'a kst_scheme \<Rightarrow> ('a kst_scheme, unit) outcome" where
  "forkret s =
     (if first_run s then
        on (iinit ROOTDEV (s\<lparr>first_run := False\<rparr>)) (\<lambda>_ s.
        initlog ROOTDEV s)
      else Ok () s)"

section \<open>The process listing\<close>

definition state_name :: "procstate \<Rightarrow> string" where
  "state_name st = (case st of UNUSED \<Rightarrow> ''unused'' | EMBRYO \<Rightarrow> ''embryo'' | SLEEPING \<Rightarrow> ''sleep ''
     | RUNNABLE \<Rightarrow> ''runble'' | RUNNING \<Rightarrow> ''run   '' | ZOMBIE \<Rightarrow> ''zombie'')"

definition procdump_pc :: "u32 \<Rightarrow> 'a kst_scheme \<Rightarrow> ('a kst_scheme, unit) outcome" where
  "procdump_pc pc s = cprintf (\<lambda>_. []) (\<lambda>_. pc) (map of_char '' %p'') s"

definition procdump_one :: "nat \<Rightarrow> 'a kst_scheme \<Rightarrow> ('a kst_scheme, unit) outcome" where
  "procdump_one i s =
     (let p = proc s i in
      if p_state p = UNUSED then Ok () s
      else
        on (cprintf (\<lambda>a. if a = 1 then map of_char (state_name (p_state p)) else cstr (p_name p))
              (\<lambda>k. [of_int (p_pid p), 1, 2] ! k) (map of_char ''%d %s %s'') s) (\<lambda>_ s.
        on (if p_state p = SLEEPING then
              loop procdump_pc (takeWhile (\<lambda>pc. pc \<noteq> 0) (getcallerpcs (memory s) (cx_ebp (p_context p) + 8))) s
            else Ok () s) (\<lambda>_ s.
        kprint ''\<newline>'' s)))"

definition procdump :: "'a kst_scheme \<Rightarrow> ('a kst_scheme, unit) outcome" where
  "procdump s = loop procdump_one [0..<NPROC] s"

end
