(* ===== verification/Exec.thy ===== *)
theory Exec
  imports Proc
begin

text \<open>
  Loading a program (\<^verbatim>\<open>system/core/exec.c\<close>, \<^verbatim>\<open>include/elf.h\<close>). The path and the arguments are the
  strings that the pointers passed to \<^verbatim>\<open>exec\<close> point to; the ELF structures are the bytes read
  from the file, with the fields at their offsets.
\<close>

section \<open>ELF headers\<close>

abbreviation (input) ELF_MAGIC :: u32 where "ELF_MAGIC \<equiv> 0x464C457F"

definition elf_magic :: "byte list \<Rightarrow> u32" where "elf_magic h = get32 h 0"
definition elf_entry :: "byte list \<Rightarrow> u32" where "elf_entry h = get32 h 24"
definition elf_phoff :: "byte list \<Rightarrow> u32" where "elf_phoff h = get32 h 28"
definition elf_phnum :: "byte list \<Rightarrow> u16" where "elf_phnum h = get16 h 44"

definition ph_type :: "byte list \<Rightarrow> u32" where "ph_type h = get32 h 0"
definition ph_off :: "byte list \<Rightarrow> u32" where "ph_off h = get32 h 4"
definition ph_vaddr :: "byte list \<Rightarrow> u32" where "ph_vaddr h = get32 h 8"
definition ph_filesz :: "byte list \<Rightarrow> u32" where "ph_filesz h = get32 h 16"
definition ph_memsz :: "byte list \<Rightarrow> u32" where "ph_memsz h = get32 h 20"

section \<open>Loading\<close>

text \<open>The loop over the program headers, with \<open>n\<close> of them to go; \<open>None\<close> is \<^verbatim>\<open>goto bad\<close>.\<close>

fun exec_load :: "nat \<Rightarrow> u32 \<Rightarrow> nat \<Rightarrow> u32 \<Rightarrow> u32 \<Rightarrow> 'a kst_scheme \<Rightarrow> ('a kst_scheme, u32 option) outcome" where
  "exec_load ip pgdir 0 off sz s = Ok (Some sz) s"
| "exec_load ip pgdir (Suc n) off sz s =
     on (readi ip off 32 s) (\<lambda>(r, ph) s.
     if r \<noteq> 32 then Ok None s
     else if ph_type ph \<noteq> 1 then exec_load ip pgdir n (off + 32) sz s
     else if ph_memsz ph < ph_filesz ph then Ok None s
     else if ph_vaddr ph + ph_memsz ph < ph_vaddr ph then Ok None s
     else
       on (allocuvm pgdir sz (ph_vaddr ph + ph_memsz ph) s) (\<lambda>sz s.
       if sz = 0 then Ok None s
       else if ph_vaddr ph mod 4096 \<noteq> 0 then Ok None s
       else
         on (loaduvm pgdir (ph_vaddr ph) ip (ph_off ph) (ph_filesz ph) s) (\<lambda>r s.
         if r < 0 then Ok None s else exec_load ip pgdir n (off + 32) sz s)))"

text \<open>The header checks and the loop; the page directory, 0 if there is none yet, and what follows
  from success: the entry point and the size.\<close>

definition exec_image :: "nat \<Rightarrow> 'a kst_scheme \<Rightarrow> ('a kst_scheme, u32 \<times> (u32 \<times> u32) option) outcome" where
  "exec_image ip s =
     on (readi ip 0 52 s) (\<lambda>(r, elf) s.
     if r \<noteq> 52 \<or> elf_magic elf \<noteq> ELF_MAGIC then Ok (0, None) s
     else
       on (setupkvm s) (\<lambda>pgdir s.
       if pgdir = 0 then Ok (0, None) s
       else
         on (exec_load ip pgdir (unat (elf_phnum elf)) (elf_phoff elf) 0 s) (\<lambda>sz s.
         Ok (pgdir, map_option (\<lambda>sz. (elf_entry elf, sz)) sz) s)))"

section \<open>The stack\<close>

text \<open>Pushing the argument strings: the stack pointer and the addresses of the strings.\<close>

fun exec_args :: "u32 \<Rightarrow> byte list list \<Rightarrow> nat \<Rightarrow> u32 \<Rightarrow> u32 list \<Rightarrow> 'a kst_scheme \<Rightarrow> ('a kst_scheme, (u32 \<times> u32 list) option) outcome" where
  "exec_args pgdir [] argc sp ustack s = Ok (Some (sp, ustack)) s"
| "exec_args pgdir (arg # args) argc sp ustack s =
     (if argc \<ge> MAXARG then Ok None s
      else
        (let sp = (sp - (of_nat (length arg) + 1)) AND NOT 3
         in on (copyout pgdir sp (arg @ [0]) s) (\<lambda>r s.
            if r < 0 then Ok None s
            else exec_args pgdir args (argc + 1) sp (ustack @ [sp]) s)))"

definition word_bytes :: "u32 \<Rightarrow> byte list" where
  "word_bytes w = [byte_of 0 w, byte_of 1 w, byte_of 2 w, byte_of 3 w]"

definition exec_ustack :: "u32 \<Rightarrow> u32 list \<Rightarrow> u32 list" where
  "exec_ustack sp addrs =
     [0xffffffff, of_nat (length addrs), sp - (of_nat (length addrs) + 1) * 4] @ addrs @ [0]"

text \<open>From the allocation of the two stack pages to the last \<^verbatim>\<open>copyout\<close>: the size and the stack pointer.\<close>

definition exec_stack :: "u32 \<Rightarrow> u32 \<Rightarrow> byte list list \<Rightarrow> 'a kst_scheme \<Rightarrow> ('a kst_scheme, (u32 \<times> u32) option) outcome" where
  "exec_stack pgdir sz argv s =
     (let sz = PGROUNDUP sz in
      on (allocuvm pgdir sz (sz + 2 * 4096) s) (\<lambda>sz s.
      if sz = 0 then Ok None s
      else
        on (clearpteu pgdir (sz - 2 * 4096) s) (\<lambda>_ s.
        on (exec_args pgdir argv 0 sz [] s) (\<lambda>res s.
        case res of
          None \<Rightarrow> Ok None s
        | Some (sp, addrs) \<Rightarrow>
            (let sp' = sp - (3 + of_nat (length addrs) + 1) * 4
             in on (copyout pgdir sp' (concat (map word_bytes (exec_ustack sp addrs))) s) (\<lambda>r s.
                if r < 0 then Ok None s else Ok (Some (sz, sp')) s))))))"

section \<open>exec\<close>

text \<open>The part of the path after its last slash.\<close>

definition path_last :: "byte list \<Rightarrow> byte list" where
  "path_last path = rev (takeWhile (\<lambda>c. c \<noteq> 47) (rev path))"

definition exec_bad :: "u32 \<Rightarrow> nat option \<Rightarrow> 'a kst_scheme \<Rightarrow> ('a kst_scheme, int) outcome" where
  "exec_bad pgdir ip s =
     on (if pgdir \<noteq> 0 then freevm pgdir s else Ok () s) (\<lambda>_ s.
     on (case ip of
           Some ip \<Rightarrow> on (iunlockput ip s) (\<lambda>_ s. end_op s)
         | None \<Rightarrow> Ok () s) (\<lambda>_ s.
     Ok (-1) s))"

definition exec_commit :: "byte list \<Rightarrow> u32 \<Rightarrow> u32 \<Rightarrow> u32 \<Rightarrow> u32 \<Rightarrow> 'a kst_scheme \<Rightarrow> ('a kst_scheme, int) outcome" where
  "exec_commit path pgdir entry sz sp s =
     (let oldpgdir = p_pgdir (myproc s);
          s = upd_proc (cur s) (\<lambda>p. p\<lparr>p_name := safestrcpy (path_last path) 16, p_pgdir := pgdir, p_sz := sz,
                p_tf := (p_tf p)\<lparr>tf_eip := entry, tf_esp := sp\<rparr>\<rparr>) s
      in on (switchuvm (cur s) s) (\<lambda>_ s.
         on (freevm oldpgdir s) (\<lambda>_ s.
         Ok 0 s)))"

definition exec :: "byte list \<Rightarrow> byte list list \<Rightarrow> 'a kst_scheme \<Rightarrow> ('a kst_scheme, int) outcome" where
  "exec path argv s =
     on (begin_op s) (\<lambda>_ s.
     on (namei path s) (\<lambda>ip s.
     case ip of
       None \<Rightarrow>
         on (end_op s) (\<lambda>_ s.
         on (kprint ''exec: fail\<newline>'' s) (\<lambda>_ s.
         Ok (-1) s))
     | Some ip \<Rightarrow>
         on (ilock ip s) (\<lambda>_ s.
         on (exec_image ip s) (\<lambda>(pgdir, img) s.
         case img of
           None \<Rightarrow> exec_bad pgdir (Some ip) s
         | Some (entry, sz) \<Rightarrow>
             on (iunlockput ip s) (\<lambda>_ s.
             on (end_op s) (\<lambda>_ s.
             on (exec_stack pgdir sz argv s) (\<lambda>st s.
             case st of
               None \<Rightarrow> exec_bad pgdir None s
             | Some (sz, sp) \<Rightarrow> exec_commit path pgdir entry sz sp s)))))))"

end
