(* ===== verification/Syscall.thy ===== *)
theory Syscall
  imports Exec
begin

text \<open>
  System call arguments (\<^verbatim>\<open>system/core/syscall.c\<close>) and the process system calls
  (\<^verbatim>\<open>system/core/sysproc.c\<close>). The kernel runs on the page table of the calling process, so a user
  address is read and written through that table; an access to a page that is not mapped is a
  trap in the kernel, which panics. A system call returns the value for \<^verbatim>\<open>%eax\<close>.
\<close>

section \<open>User memory\<close>

text \<open>The kernel address of a user address, for an access that needs the page table entry bits \<open>need\<close>.\<close>

definition uaddr :: "u32 \<Rightarrow> u32 \<Rightarrow> 'a kst_scheme \<Rightarrow> u32 option" where
  "uaddr need va s =
     (let pte = fst (walkpgdir (p_pgdir (myproc s)) va False s) in
      if pte = 0 \<or> load32 s pte AND need \<noteq> need then None
      else Some (P2V (PTE_ADDR (load32 s pte)) + (va AND 0xFFF)))"

definition uload8 :: "u32 \<Rightarrow> 'a kst_scheme \<Rightarrow> ('a kst_scheme, byte) outcome" where
  "uload8 va s = (case uaddr PTE_P va s of None \<Rightarrow> Panic ''trap'' | Some a \<Rightarrow> Ok (memory s a) s)"

definition ustore8 :: "u32 \<Rightarrow> byte \<Rightarrow> 'a kst_scheme \<Rightarrow> ('a kst_scheme, unit) outcome" where
  "ustore8 va b s =
     (case uaddr (PTE_P OR PTE_W) va s of
        None \<Rightarrow> Panic ''trap''
      | Some a \<Rightarrow> Ok () (s\<lparr>memory := (memory s)(a := b)\<rparr>))"

fun uload :: "u32 \<Rightarrow> nat \<Rightarrow> 'a kst_scheme \<Rightarrow> ('a kst_scheme, byte list) outcome" where
  "uload va 0 s = Ok [] s"
| "uload va (Suc n) s = on (uload8 va s) (\<lambda>b s. on (uload (va + 1) n s) (\<lambda>bs s. Ok (b # bs) s))"

fun ustore :: "u32 \<Rightarrow> byte list \<Rightarrow> 'a kst_scheme \<Rightarrow> ('a kst_scheme, unit) outcome" where
  "ustore va [] s = Ok () s"
| "ustore va (b # bs) s = on (ustore8 va b s) (\<lambda>_ s. ustore (va + 1) bs s)"

section \<open>Arguments\<close>

text \<open>\<open>None\<close> is the result -1; otherwise the result is 0 and the value is what is stored through the
  pointer argument.\<close>

definition fetchint :: "u32 \<Rightarrow> 'a kst_scheme \<Rightarrow> ('a kst_scheme, u32 option) outcome" where
  "fetchint addr s =
     (if addr \<ge> p_sz (myproc s) \<or> addr + 4 > p_sz (myproc s) then Ok None s
      else on (uload addr 4 s) (\<lambda>bs s. Ok (Some (get32 bs 0)) s))"

text \<open>The loop of \<^verbatim>\<open>fetchstr\<close> with \<open>n\<close> bytes before \<^verbatim>\<open>ep\<close>.\<close>

fun fetchstr_loop :: "u32 \<Rightarrow> nat \<Rightarrow> byte list \<Rightarrow> 'a kst_scheme \<Rightarrow> ('a kst_scheme, byte list option) outcome" where
  "fetchstr_loop a 0 acc s = Ok None s"
| "fetchstr_loop a (Suc n) acc s =
     on (uload8 a s) (\<lambda>b s.
     if b = 0 then Ok (Some acc) s else fetchstr_loop (a + 1) n (acc @ [b]) s)"

text \<open>The string at \<open>addr\<close>; its length is the result.\<close>

definition fetchstr :: "u32 \<Rightarrow> 'a kst_scheme \<Rightarrow> ('a kst_scheme, byte list option) outcome" where
  "fetchstr addr s =
     (if addr \<ge> p_sz (myproc s) then Ok None s
      else fetchstr_loop addr (unat (p_sz (myproc s)) - unat addr) [] s)"

definition argint :: "nat \<Rightarrow> 'a kst_scheme \<Rightarrow> ('a kst_scheme, u32 option) outcome" where
  "argint n s = fetchint (tf_esp (p_tf (myproc s)) + 4 + 4 * of_nat n) s"

definition argptr :: "nat \<Rightarrow> int \<Rightarrow> 'a kst_scheme \<Rightarrow> ('a kst_scheme, u32 option) outcome" where
  "argptr n len s =
     on (argint n s) (\<lambda>i s.
     case i of
       None \<Rightarrow> Ok None s
     | Some i \<Rightarrow>
         if len < 0 \<or> i \<ge> p_sz (myproc s) \<or> i + of_int len > p_sz (myproc s) then Ok None s
         else Ok (Some i) s)"

definition argstr :: "nat \<Rightarrow> 'a kst_scheme \<Rightarrow> ('a kst_scheme, byte list option) outcome" where
  "argstr n s =
     on (argint n s) (\<lambda>addr s.
     case addr of None \<Rightarrow> Ok None s | Some addr \<Rightarrow> fetchstr addr s)"

section \<open>Process system calls\<close>

definition sys_fork :: "'a kst_scheme \<Rightarrow> ('a kst_scheme, int) outcome" where
  "sys_fork s = fork s"

definition sys_exit :: "'a kst_scheme \<Rightarrow> ('a kst_scheme, unit) outcome" where
  "sys_exit s = exit s"

definition sys_wait :: "'a kst_scheme \<Rightarrow> ('a kst_scheme, int) outcome" where
  "sys_wait s = wait s"

definition sys_kill :: "'a kst_scheme \<Rightarrow> ('a kst_scheme, int) outcome" where
  "sys_kill s =
     on (argint 0 s) (\<lambda>pid s.
     case pid of
       None \<Rightarrow> Ok (-1) s
     | Some pid \<Rightarrow> (let (r, s) = kill (sint pid) s in Ok r s))"

definition sys_getpid :: "'a kst_scheme \<Rightarrow> ('a kst_scheme, int) outcome" where
  "sys_getpid s = Ok (p_pid (myproc s)) s"

definition sys_sbrk :: "'a kst_scheme \<Rightarrow> ('a kst_scheme, int) outcome" where
  "sys_sbrk s =
     on (argint 0 s) (\<lambda>n s.
     case n of
       None \<Rightarrow> Ok (-1) s
     | Some n \<Rightarrow>
         (let addr = p_sz (myproc s)
          in on (growproc (sint n) s) (\<lambda>r s.
             if r < 0 then Ok (-1) s else Ok (sint addr) s)))"

text \<open>The loop of \<^verbatim>\<open>sys_sleep\<close>: \<^verbatim>\<open>ticks - ticks0 < n\<close> compares unsigned numbers. A process that sleeps
  continues here, with the same \<open>ticks0\<close> and \<open>n\<close>, when it is woken.\<close>

definition sleep_loop :: "u32 \<Rightarrow> u32 \<Rightarrow> 'a kst_scheme \<Rightarrow> ('a kst_scheme, int) outcome" where
  "sleep_loop ticks0 n s =
     (if ticks s - ticks0 < n then
        if p_killed (myproc s) then Ok (-1) s else sleep ChanTicks s
      else Ok 0 s)"

definition sys_sleep :: "'a kst_scheme \<Rightarrow> ('a kst_scheme, int) outcome" where
  "sys_sleep s =
     on (argint 0 s) (\<lambda>n s.
     case n of None \<Rightarrow> Ok (-1) s | Some n \<Rightarrow> sleep_loop (ticks s) n s)"

definition sys_uptime :: "'a kst_scheme \<Rightarrow> ('a kst_scheme, int) outcome" where
  "sys_uptime s = Ok (sint (ticks s)) s"

end
