(* ===== verification/Sysfile.thy ===== *)
theory Sysfile
  imports Syscall
begin

text \<open>
  The file system calls (\<^verbatim>\<open>system/core/sysfile.c\<close>).
\<close>

section \<open>Descriptors\<close>

text \<open>The descriptor and the file, or \<open>None\<close> for -1.\<close>

definition argfd :: "nat \<Rightarrow> 'a kst_scheme \<Rightarrow> ('a kst_scheme, (nat \<times> nat) option) outcome" where
  "argfd n s =
     on (argint n s) (\<lambda>fd s.
     case fd of
       None \<Rightarrow> Ok None s
     | Some fd \<Rightarrow>
         if sint fd < 0 \<or> sint fd \<ge> int NOFILE then Ok None s
         else (case p_ofile (myproc s) ! nat (sint fd) of
                 None \<Rightarrow> Ok None s
               | Some f \<Rightarrow> Ok (Some (nat (sint fd), f)) s))"

definition set_ofile :: "nat \<Rightarrow> nat option \<Rightarrow> 'a pst_scheme \<Rightarrow> 'a pst_scheme" where
  "set_ofile fd f s = upd_proc (cur s) (\<lambda>p. p\<lparr>p_ofile := (p_ofile p)[fd := f]\<rparr>) s"

definition fdalloc :: "nat \<Rightarrow> 'a kst_scheme \<Rightarrow> nat option \<times> 'a kst_scheme" where
  "fdalloc f s =
     (case first_index (\<lambda>fd. p_ofile (myproc s) ! fd = None) NOFILE of
        Some fd \<Rightarrow> (Some fd, set_ofile fd (Some f) s)
      | None \<Rightarrow> (None, s))"

definition sys_dup :: "'a kst_scheme \<Rightarrow> ('a kst_scheme, int) outcome" where
  "sys_dup s =
     on (argfd 0 s) (\<lambda>a s.
     case a of
       None \<Rightarrow> Ok (-1) s
     | Some (_, f) \<Rightarrow>
         (case fdalloc f s of
            (None, s) \<Rightarrow> Ok (-1) s
          | (Some fd, s) \<Rightarrow> on (filedup f s) (\<lambda>_ s. Ok (int fd) s)))"

text \<open>\<^verbatim>\<open>argfd(0, 0, &f) < 0 || argint(2, &n) < 0 || argptr(1, &p, n) < 0\<close>\<close>

definition arg_fbuf :: "'a kst_scheme \<Rightarrow> ('a kst_scheme, (nat \<times> u32 \<times> int) option) outcome" where
  "arg_fbuf s =
     on (argfd 0 s) (\<lambda>a s.
     case a of
       None \<Rightarrow> Ok None s
     | Some (_, f) \<Rightarrow>
         on (argint 2 s) (\<lambda>n s.
         case n of
           None \<Rightarrow> Ok None s
         | Some n \<Rightarrow>
             on (argptr 1 (sint n) s) (\<lambda>p s.
             Ok (map_option (\<lambda>p. (f, p, sint n)) p) s)))"

definition sys_read :: "'a kst_scheme \<Rightarrow> ('a kst_scheme, int) outcome" where
  "sys_read s =
     on (arg_fbuf s) (\<lambda>a s.
     case a of
       None \<Rightarrow> Ok (-1) s
     | Some (f, p, n) \<Rightarrow>
         on (fileread f n s) (\<lambda>(r, bs) s.
         on (ustore p bs s) (\<lambda>_ s.
         Ok r s)))"

definition sys_write :: "'a kst_scheme \<Rightarrow> ('a kst_scheme, int) outcome" where
  "sys_write s =
     on (arg_fbuf s) (\<lambda>a s.
     case a of
       None \<Rightarrow> Ok (-1) s
     | Some (f, p, n) \<Rightarrow>
         on (uload p (nat n) s) (\<lambda>bs s.
         filewrite f bs s))"

definition sys_close :: "'a kst_scheme \<Rightarrow> ('a kst_scheme, int) outcome" where
  "sys_close s =
     on (argfd 0 s) (\<lambda>a s.
     case a of
       None \<Rightarrow> Ok (-1) s
     | Some (fd, f) \<Rightarrow> on (fileclose f (set_ofile fd None s)) (\<lambda>_ s. Ok 0 s))"

text \<open>The 20 bytes of a \<^verbatim>\<open>struct stat\<close>, with two bytes of padding after each \<^verbatim>\<open>short\<close> that is left as
  zero here.\<close>

definition stat_bytes :: "stat \<Rightarrow> byte list" where
  "stat_bytes st =
     [lo16 (st_type st), hi16 (st_type st), 0, 0] @ word_bytes (of_nat (st_dev st)) @ word_bytes (of_nat (st_ino st)) @
     [lo16 (st_nlink st), hi16 (st_nlink st), 0, 0] @ word_bytes (st_size st)"

definition sys_fstat :: "'a kst_scheme \<Rightarrow> ('a kst_scheme, int) outcome" where
  "sys_fstat s =
     on (argfd 0 s) (\<lambda>a s.
     case a of
       None \<Rightarrow> Ok (-1) s
     | Some (_, f) \<Rightarrow>
         on (argptr 1 20 s) (\<lambda>p s.
         case p of
           None \<Rightarrow> Ok (-1) s
         | Some p \<Rightarrow>
             on (filestat f s) (\<lambda>st s.
             case st of
               None \<Rightarrow> Ok (-1) s
             | Some st \<Rightarrow> on (ustore p (stat_bytes st) s) (\<lambda>_ s. Ok 0 s))))"

section \<open>Links\<close>

text \<open>\<^verbatim>\<open>ip->nlink += d; iupdate(ip)\<close>\<close>

definition add_nlink :: "nat \<Rightarrow> u16 \<Rightarrow> 'a kst_scheme \<Rightarrow> ('a kst_scheme, unit) outcome" where
  "add_nlink ip d s = iupdate ip (upd_inode ip (\<lambda>i. i\<lparr>i_nlink := i_nlink i + d\<rparr>) s)"

definition fail_op :: "'a kst_scheme \<Rightarrow> ('a kst_scheme, int) outcome" where
  "fail_op s = on (end_op s) (\<lambda>_ s. Ok (-1) s)"

definition put_fail_op :: "nat \<Rightarrow> 'a kst_scheme \<Rightarrow> ('a kst_scheme, int) outcome" where
  "put_fail_op ip s = on (iunlockput ip s) (\<lambda>_ s. fail_op s)"

definition link_bad :: "nat \<Rightarrow> 'a kst_scheme \<Rightarrow> ('a kst_scheme, int) outcome" where
  "link_bad ip s =
     on (ilock ip s) (\<lambda>_ s.
     on (add_nlink ip (-1) s) (\<lambda>_ s.
     put_fail_op ip s))"

definition sys_link :: "'a kst_scheme \<Rightarrow> ('a kst_scheme, int) outcome" where
  "sys_link s =
     on (argstr 0 s) (\<lambda>old s.
     case old of
       None \<Rightarrow> Ok (-1) s
     | Some old \<Rightarrow>
     on (argstr 1 s) (\<lambda>new s.
     case new of
       None \<Rightarrow> Ok (-1) s
     | Some new \<Rightarrow>
     on (begin_op s) (\<lambda>_ s.
     on (namei old s) (\<lambda>ip s.
     case ip of
       None \<Rightarrow> fail_op s
     | Some ip \<Rightarrow>
     on (ilock ip s) (\<lambda>_ s.
     if i_type (inode s ip) = T_DIR then put_fail_op ip s
     else
     on (add_nlink ip 1 s) (\<lambda>_ s.
     on (iunlock ip s) (\<lambda>_ s.
     on (nameiparent new s) (\<lambda>(dp, name) s.
     case dp of
       None \<Rightarrow> link_bad ip s
     | Some dp \<Rightarrow>
     on (ilock dp s) (\<lambda>_ s.
     on (if i_dev (inode s dp) \<noteq> i_dev (inode s ip) then Ok (-1) s
         else dirlink dp name (i_inum (inode s ip)) s) (\<lambda>r s.
     on (iunlockput dp s) (\<lambda>_ s.
     if r < 0 then link_bad ip s
     else
     on (iput ip s) (\<lambda>_ s.
     on (end_op s) (\<lambda>_ s.
     Ok 0 s)))))))))))))"

text \<open>Offsets from the third entry on.\<close>

fun isdirempty_scan :: "nat \<Rightarrow> nat list \<Rightarrow> 'a kst_scheme \<Rightarrow> ('a kst_scheme, bool) outcome" where
  "isdirempty_scan dp [] s = Ok True s"
| "isdirempty_scan dp (off # offs) s =
     on (readi dp (of_nat off) (of_nat DIRENT) s) (\<lambda>(r, de) s.
     if r \<noteq> int DIRENT then Panic ''isdirempty: readi''
     else if de_inum de \<noteq> 0 then Ok False s
     else isdirempty_scan dp offs s)"

definition isdirempty :: "nat \<Rightarrow> 'a kst_scheme \<Rightarrow> ('a kst_scheme, bool) outcome" where
  "isdirempty dp s = isdirempty_scan dp (drop 2 (dir_offs (i_size (inode s dp)))) s"

text \<open>From the check of \<^verbatim>\<open>ip\<close> on, with \<^verbatim>\<open>dp\<close> and \<^verbatim>\<open>ip\<close> locked.\<close>

definition unlink_entry :: "nat \<Rightarrow> nat \<Rightarrow> nat \<Rightarrow> 'a kst_scheme \<Rightarrow> ('a kst_scheme, int) outcome" where
  "unlink_entry dp ip off s =
     on (writei dp (replicate DIRENT 0) (of_nat off) s) (\<lambda>r s.
     if r \<noteq> int DIRENT then Panic ''unlink: writei''
     else
       on (if i_type (inode s ip) = T_DIR then add_nlink dp (-1) s else Ok () s) (\<lambda>_ s.
       on (iunlockput dp s) (\<lambda>_ s.
       on (add_nlink ip (-1) s) (\<lambda>_ s.
       on (iunlockput ip s) (\<lambda>_ s.
       on (end_op s) (\<lambda>_ s.
       Ok 0 s))))))"

definition sys_unlink :: "'a kst_scheme \<Rightarrow> ('a kst_scheme, int) outcome" where
  "sys_unlink s =
     on (argstr 0 s) (\<lambda>path s.
     case path of
       None \<Rightarrow> Ok (-1) s
     | Some path \<Rightarrow>
     on (begin_op s) (\<lambda>_ s.
     on (nameiparent path s) (\<lambda>(dp, name) s.
     case dp of
       None \<Rightarrow> fail_op s
     | Some dp \<Rightarrow>
     on (ilock dp s) (\<lambda>_ s.
     if namecmp name [46] = 0 \<or> namecmp name [46, 46] = 0 then put_fail_op dp s
     else
     on (dirlookup dp name s) (\<lambda>found s.
     case found of
       None \<Rightarrow> put_fail_op dp s
     | Some (ip, off) \<Rightarrow>
     on (ilock ip s) (\<lambda>_ s.
     if sint (i_nlink (inode s ip)) < 1 then Panic ''unlink: nlink < 1''
     else
     on (if i_type (inode s ip) = T_DIR then isdirempty ip s else Ok True s) (\<lambda>empty s.
     if \<not> empty then on (iunlockput ip s) (\<lambda>_ s. put_fail_op dp s)
     else unlink_entry dp ip off s)))))))"

section \<open>Creating and opening\<close>

text \<open>The rest of \<^verbatim>\<open>create\<close> once the new inode is allocated.\<close>

definition create_new :: "nat \<Rightarrow> byte list \<Rightarrow> nat \<Rightarrow> u16 \<Rightarrow> u16 \<Rightarrow> u16 \<Rightarrow> 'a kst_scheme \<Rightarrow> ('a kst_scheme, nat option) outcome" where
  "create_new dp name ip ty major minor s =
     on (ilock ip s) (\<lambda>_ s.
     on (iupdate ip (upd_inode ip (\<lambda>i. i\<lparr>i_major := major, i_minor := minor, i_nlink := 1\<rparr>) s)) (\<lambda>_ s.
     on (if ty = T_DIR then
           on (add_nlink dp 1 s) (\<lambda>_ s.
           on (dirlink ip [46] (i_inum (inode s ip)) s) (\<lambda>r s.
           if r < 0 then Panic ''create dots''
           else
             on (dirlink ip [46, 46] (i_inum (inode s dp)) s) (\<lambda>r s.
             if r < 0 then Panic ''create dots'' else Ok () s)))
         else Ok () s) (\<lambda>_ s.
     on (dirlink dp name (i_inum (inode s ip)) s) (\<lambda>r s.
     if r < 0 then Panic ''create: dirlink''
     else on (iunlockput dp s) (\<lambda>_ s. Ok (Some ip) s)))))"

definition create :: "byte list \<Rightarrow> u16 \<Rightarrow> u16 \<Rightarrow> u16 \<Rightarrow> 'a kst_scheme \<Rightarrow> ('a kst_scheme, nat option) outcome" where
  "create path ty major minor s =
     on (nameiparent path s) (\<lambda>(dp, name) s.
     case dp of
       None \<Rightarrow> Ok None s
     | Some dp \<Rightarrow>
     on (ilock dp s) (\<lambda>_ s.
     on (dirlookup dp name s) (\<lambda>found s.
     case found of
       Some (ip, _) \<Rightarrow>
         on (iunlockput dp s) (\<lambda>_ s.
         on (ilock ip s) (\<lambda>_ s.
         if ty = T_FILE \<and> i_type (inode s ip) = T_FILE then Ok (Some ip) s
         else on (iunlockput ip s) (\<lambda>_ s. Ok None s)))
     | None \<Rightarrow>
         on (ialloc (i_dev (inode s dp)) ty s) (\<lambda>ip s.
         create_new dp name ip ty major minor s))))"

text \<open>\<^verbatim>\<open>O_WRONLY\<close> is bit 0, \<^verbatim>\<open>O_RDWR\<close> bit 1 and \<^verbatim>\<open>O_CREATE\<close> bit 9 of the mode.\<close>

definition open_inode :: "byte list \<Rightarrow> u32 \<Rightarrow> 'a kst_scheme \<Rightarrow> ('a kst_scheme, nat option) outcome" where
  "open_inode path omode s =
     (if omode AND 0x200 \<noteq> 0 then create path T_FILE 0 0 s
      else
        on (namei path s) (\<lambda>ip s.
        case ip of
          None \<Rightarrow> Ok None s
        | Some ip \<Rightarrow>
            on (ilock ip s) (\<lambda>_ s.
            if i_type (inode s ip) = T_DIR \<and> omode \<noteq> 0 then on (iunlockput ip s) (\<lambda>_ s. Ok None s)
            else Ok (Some ip) s)))"

definition sys_open :: "'a kst_scheme \<Rightarrow> ('a kst_scheme, int) outcome" where
  "sys_open s =
     on (argstr 0 s) (\<lambda>path s.
     case path of
       None \<Rightarrow> Ok (-1) s
     | Some path \<Rightarrow>
     on (argint 1 s) (\<lambda>omode s.
     case omode of
       None \<Rightarrow> Ok (-1) s
     | Some omode \<Rightarrow>
     on (begin_op s) (\<lambda>_ s.
     on (open_inode path omode s) (\<lambda>ip s.
     case ip of
       None \<Rightarrow> fail_op s
     | Some ip \<Rightarrow>
         (let (f, s) = filealloc s;
              (fd, s) = (case f of Some f \<Rightarrow> fdalloc f s | None \<Rightarrow> (None, s))
          in case (f, fd) of
               (Some f, Some fd) \<Rightarrow>
                 on (iunlock ip s) (\<lambda>_ s.
                 on (end_op s) (\<lambda>_ s.
                 Ok (int fd) (upd_file f (\<lambda>x. x\<lparr>f_type := FD_INODE, f_ip := ip, f_off := 0,
                   f_readable := (omode AND 1 = 0), f_writable := (omode AND 1 \<noteq> 0 \<or> omode AND 2 \<noteq> 0)\<rparr>) s)))
             | _ \<Rightarrow> on (close_opt f s) (\<lambda>_ s. put_fail_op ip s))))))"

definition sys_mkdir :: "'a kst_scheme \<Rightarrow> ('a kst_scheme, int) outcome" where
  "sys_mkdir s =
     on (begin_op s) (\<lambda>_ s.
     on (argstr 0 s) (\<lambda>path s.
     on (case path of None \<Rightarrow> Ok None s | Some path \<Rightarrow> create path T_DIR 0 0 s) (\<lambda>ip s.
     case ip of
       None \<Rightarrow> fail_op s
     | Some ip \<Rightarrow> on (iunlockput ip s) (\<lambda>_ s. on (end_op s) (\<lambda>_ s. Ok 0 s)))))"

definition sys_mknod :: "'a kst_scheme \<Rightarrow> ('a kst_scheme, int) outcome" where
  "sys_mknod s =
     on (begin_op s) (\<lambda>_ s.
     on (argstr 0 s) (\<lambda>path s.
     case path of
       None \<Rightarrow> fail_op s
     | Some path \<Rightarrow>
     on (argint 1 s) (\<lambda>major s.
     case major of
       None \<Rightarrow> fail_op s
     | Some major \<Rightarrow>
     on (argint 2 s) (\<lambda>minor s.
     case minor of
       None \<Rightarrow> fail_op s
     | Some minor \<Rightarrow>
     on (create path T_DEV (ucast major) (ucast minor) s) (\<lambda>ip s.
     case ip of
       None \<Rightarrow> fail_op s
     | Some ip \<Rightarrow> on (iunlockput ip s) (\<lambda>_ s. on (end_op s) (\<lambda>_ s. Ok 0 s)))))))"

definition sys_chdir :: "'a kst_scheme \<Rightarrow> ('a kst_scheme, int) outcome" where
  "sys_chdir s =
     on (begin_op s) (\<lambda>_ s.
     on (argstr 0 s) (\<lambda>path s.
     on (case path of None \<Rightarrow> Ok None s | Some path \<Rightarrow> namei path s) (\<lambda>ip s.
     case ip of
       None \<Rightarrow> fail_op s
     | Some ip \<Rightarrow>
         on (ilock ip s) (\<lambda>_ s.
         if i_type (inode s ip) \<noteq> T_DIR then put_fail_op ip s
         else
           on (iunlock ip s) (\<lambda>_ s.
           case p_cwd (myproc s) of
             None \<Rightarrow> Undef ''iput: null inode''
           | Some cwd \<Rightarrow>
               on (iput cwd s) (\<lambda>_ s.
               on (end_op s) (\<lambda>_ s.
               Ok 0 (upd_proc (cur s) (\<lambda>p. p\<lparr>p_cwd := Some ip\<rparr>) s))))))))"

section \<open>exec and pipe\<close>

text \<open>The loop of \<^verbatim>\<open>sys_exec\<close> with \<open>n\<close> places left in \<^verbatim>\<open>argv\<close>.\<close>

fun exec_argv :: "u32 \<Rightarrow> nat \<Rightarrow> byte list list \<Rightarrow> 'a kst_scheme \<Rightarrow> ('a kst_scheme, byte list list option) outcome" where
  "exec_argv uargv 0 argv s = Ok None s"
| "exec_argv uargv (Suc n) argv s =
     on (fetchint uargv s) (\<lambda>uarg s.
     case uarg of
       None \<Rightarrow> Ok None s
     | Some uarg \<Rightarrow>
         if uarg = 0 then Ok (Some argv) s
         else
           on (fetchstr uarg s) (\<lambda>arg s.
           case arg of
             None \<Rightarrow> Ok None s
           | Some arg \<Rightarrow> exec_argv (uargv + 4) n (argv @ [arg]) s))"

definition sys_exec :: "'a kst_scheme \<Rightarrow> ('a kst_scheme, int) outcome" where
  "sys_exec s =
     on (argstr 0 s) (\<lambda>path s.
     case path of
       None \<Rightarrow> Ok (-1) s
     | Some path \<Rightarrow>
     on (argint 1 s) (\<lambda>uargv s.
     case uargv of
       None \<Rightarrow> Ok (-1) s
     | Some uargv \<Rightarrow>
     on (exec_argv uargv MAXARG [] s) (\<lambda>argv s.
     case argv of None \<Rightarrow> Ok (-1) s | Some argv \<Rightarrow> exec path argv s)))"

definition sys_pipe :: "'a kst_scheme \<Rightarrow> ('a kst_scheme, int) outcome" where
  "sys_pipe s =
     on (argptr 0 8 s) (\<lambda>p s.
     case p of
       None \<Rightarrow> Ok (-1) s
     | Some p \<Rightarrow>
     on (pipealloc s) (\<lambda>fs s.
     case fs of
       None \<Rightarrow> Ok (-1) s
     | Some (rd, wr) \<Rightarrow>
         (let (fd0, s) = fdalloc rd s;
              (fd1, s) = (case fd0 of Some _ \<Rightarrow> fdalloc wr s | None \<Rightarrow> (None, s))
          in case (fd0, fd1) of
               (Some fd0, Some fd1) \<Rightarrow>
                 on (ustore p (word_bytes (of_nat fd0) @ word_bytes (of_nat fd1)) s) (\<lambda>_ s.
                 Ok 0 s)
             | _ \<Rightarrow>
                 (let s = (case fd0 of Some fd0 \<Rightarrow> set_ofile fd0 None s | None \<Rightarrow> s)
                  in on (fileclose rd s) (\<lambda>_ s.
                     on (fileclose wr s) (\<lambda>_ s.
                     Ok (-1) s))))))"

end
