(* ===== verification/Devices.thy ===== *)
theory Devices
  imports Console
begin

text \<open>
  The input devices: the keyboard (\<^verbatim>\<open>system/devices/kbd.c\<close> with the key maps of \<^verbatim>\<open>include/kbd.h\<close>) and
  the serial line (\<^verbatim>\<open>system/devices/uart.c\<close>). What the ports deliver is an argument: the scan codes
  waiting in the keyboard controller, the characters waiting in the serial port.
\<close>

section \<open>Key maps\<close>

text \<open>Bits of the shift state: \<^verbatim>\<open>SHIFT\<close> 1, \<^verbatim>\<open>CTL\<close> 2, \<^verbatim>\<open>ALT\<close> 4, \<^verbatim>\<open>CAPSLOCK\<close> 8, \<^verbatim>\<open>NUMLOCK\<close> 16,
  \<^verbatim>\<open>SCROLLLOCK\<close> 32, \<^verbatim>\<open>E0ESC\<close> 64.\<close>

definition shiftcode :: "nat \<Rightarrow> byte" where
  "shiftcode d =
     (if d = 0x1D \<or> d = 0x9D then 2
      else if d = 0x2A \<or> d = 0x36 then 1
      else if d = 0x38 \<or> d = 0xB8 then 4 else 0)"

definition togglecode :: "nat \<Rightarrow> byte" where
  "togglecode d = (if d = 0x3A then 8 else if d = 0x45 then 16 else if d = 0x46 then 32 else 0)"

text \<open>The first entries of each table, in order, as character codes; 0 is \<^verbatim>\<open>NO\<close>.\<close>

definition normal_row :: "nat list" where
  "normal_row =
     [0, 27, 49, 50, 51, 52, 53, 54,
      55, 56, 57, 48, 45, 61, 8, 9,
      113, 119, 101, 114, 116, 121, 117, 105,
      111, 112, 91, 93, 10, 0, 97, 115,
      100, 102, 103, 104, 106, 107, 108, 59,
      39, 96, 0, 92, 122, 120, 99, 118,
      98, 110, 109, 44, 46, 47, 0, 42,
      0, 32, 0, 0, 0, 0, 0, 0,
      0, 0, 0, 0, 0, 0, 0, 55,
      56, 57, 45, 52, 53, 54, 43, 49,
      50, 51, 48, 46, 0, 0, 0, 0]"

definition shift_row :: "nat list" where
  "shift_row =
     [0, 27, 33, 64, 35, 36, 37, 94,
      38, 42, 40, 41, 95, 43, 8, 9,
      81, 87, 69, 82, 84, 89, 85, 73,
      79, 80, 123, 125, 10, 0, 65, 83,
      68, 70, 71, 72, 74, 75, 76, 58,
      34, 126, 0, 124, 90, 88, 67, 86,
      66, 78, 77, 60, 62, 63, 0, 42,
      0, 32, 0, 0, 0, 0, 0, 0,
      0, 0, 0, 0, 0, 0, 0, 55,
      56, 57, 45, 52, 53, 54, 43, 49,
      50, 51, 48, 46, 0, 0, 0, 0]"

text \<open>\<^verbatim>\<open>C(x)\<close> is \<^verbatim>\<open>x - '@'\<close> in an \<^verbatim>\<open>uchar\<close>: \<^verbatim>\<open>C('/')\<close> is 239.\<close>

definition ctl_row :: "nat list" where
  "ctl_row =
     [0, 0, 0, 0, 0, 0, 0, 0,
      0, 0, 0, 0, 0, 0, 0, 0,
      17, 23, 5, 18, 20, 25, 21, 9,
      15, 16, 0, 0, 13, 0, 1, 19,
      4, 6, 7, 8, 10, 11, 12, 0,
      0, 0, 0, 28, 26, 24, 3, 22,
      2, 14, 13, 0, 0, 239, 0, 0]"

text \<open>The entries that the three tables give to keys with an escape code.\<close>

definition escaped_key :: "nat \<Rightarrow> nat" where
  "escaped_key d =
     (if d = 0xC8 then 0xE2 else if d = 0xD0 then 0xE3 else if d = 0xC9 then 0xE6 else if d = 0xD1 then 0xE7
      else if d = 0xCB then 0xE4 else if d = 0xCD then 0xE5 else if d = 0x97 then 0xE0 else if d = 0xCF then 0xE1
      else if d = 0xD2 then 0xE8 else if d = 0xD3 then 0xE9 else 0)"

definition key_at :: "nat list \<Rightarrow> nat \<Rightarrow> nat \<Rightarrow> nat \<Rightarrow> nat" where
  "key_at row enter div_key d =
     (if d < length row then row ! d else if d = 0x9C then enter else if d = 0xB5 then div_key else escaped_key d)"

definition normalmap :: "nat \<Rightarrow> nat" where "normalmap = key_at normal_row 10 47"
definition shiftmap :: "nat \<Rightarrow> nat" where "shiftmap = key_at shift_row 10 47"
definition ctlmap :: "nat \<Rightarrow> nat" where "ctlmap = key_at ctl_row 13 239"

section \<open>The keyboard\<close>

definition charcode :: "byte \<Rightarrow> nat \<Rightarrow> nat" where
  "charcode sel d = (if sel = 0 then normalmap d else if sel = 1 then shiftmap d else ctlmap d)"

definition caps :: "nat \<Rightarrow> nat" where
  "caps c = (if 97 \<le> c \<and> c \<le> 122 then c - 32 else if 65 \<le> c \<and> c \<le> 90 then c + 32 else c)"

text \<open>\<^verbatim>\<open>kbdgetc\<close> once the controller has a scan code \<open>d\<close>: the character (0 for none) and the shift state.\<close>

definition kbd_key :: "nat \<Rightarrow> byte \<Rightarrow> nat \<times> byte" where
  "kbd_key d shift =
     (if d = 0xE0 then (0, shift OR 64)
      else if d \<ge> 0x80 then
        (let d = (if shift AND 64 \<noteq> 0 then d else d - 0x80)
         in (0, shift AND NOT (shiftcode d OR 64)))
      else
        (let d = (if shift AND 64 \<noteq> 0 then d + 0x80 else d);
             shift = shift AND NOT 64;
             shift = (shift OR shiftcode d) XOR togglecode d;
             c = charcode (shift AND 3) d
         in (if shift AND 8 \<noteq> 0 then caps c else c, shift)))"

text \<open>\<^verbatim>\<open>kbdgetc\<close> returns -1 when no scan code is waiting.\<close>

definition kbdgetc :: "byte list \<times> byte \<Rightarrow> nat option \<times> byte list \<times> byte" where
  "kbdgetc st =
     (case st of
        ([], shift) \<Rightarrow> (None, [], shift)
      | (d # ds, shift) \<Rightarrow> (let (c, shift) = kbd_key (unat d) shift in (Some c, ds, shift)))"

fun kbd_chars :: "byte list \<Rightarrow> byte \<Rightarrow> nat list \<times> byte" where
  "kbd_chars [] shift = ([], shift)"
| "kbd_chars (d # ds) shift =
     (let (c, shift) = kbd_key (unat d) shift; (cs, shift) = kbd_chars ds shift in (c # cs, shift))"

text \<open>\<^verbatim>\<open>consoleintr(kbdgetc)\<close> with the scan codes \<open>ds\<close> waiting; the second result is the new shift state.\<close>

definition kbdintr :: "byte list \<Rightarrow> byte \<Rightarrow> 'a cst_scheme \<Rightarrow> ('a cst_scheme, bool \<times> byte) outcome" where
  "kbdintr ds shift s =
     (let (cs, shift) = kbd_chars ds shift in on (consoleintr cs s) (\<lambda>dump s. Ok (dump, shift) s))"

section \<open>The serial line\<close>

text \<open>\<open>present\<close> says whether the status register answered.\<close>

definition uartinit :: "bool \<Rightarrow> 'a cst_scheme \<Rightarrow> 'a cst_scheme" where
  "uartinit present s =
     (if \<not> present then s else fold uartputc (map of_char ''xv6...\<newline>'') (s\<lparr>uart_on := True\<rparr>))"

definition uartgetc :: "'a cst_scheme \<Rightarrow> byte list \<Rightarrow> nat option \<times> byte list" where
  "uartgetc s cs = (if \<not> uart_on s then (None, cs) else case cs of [] \<Rightarrow> (None, []) | c # cs \<Rightarrow> (Some (unat c), cs))"

definition uartintr :: "byte list \<Rightarrow> 'a cst_scheme \<Rightarrow> ('a cst_scheme, bool) outcome" where
  "uartintr cs s = consoleintr (if uart_on s then map unat cs else []) s"

end
