(* ===== verification/Trap.thy ===== *)
theory Trap
  imports Sysfile Devices
begin

text \<open>
  The system call table (\<^verbatim>\<open>syscall\<close> of \<^verbatim>\<open>system/core/syscall.c\<close>) and the trap handler
  (\<^verbatim>\<open>system/platform/x86/trap.c\<close>). Numbers are those of \<^verbatim>\<open>include/syscall.h\<close> and \<^verbatim>\<open>include/traps.h\<close>.
\<close>

section \<open>System calls\<close>

text \<open>\<^verbatim>\<open>syscalls[num]()\<close> for a number in the table; \<open>None\<close> if the call does not return.\<close>

definition sys_call :: "int \<Rightarrow> 'a kst_scheme \<Rightarrow> ('a kst_scheme, int option) outcome" where
  "sys_call num s =
     (if num = 2 then on (sys_exit s) (\<lambda>_ s. Ok None s)
      else
        on (if num = 1 then sys_fork s else if num = 3 then sys_wait s else if num = 4 then sys_pipe s
            else if num = 5 then sys_read s else if num = 6 then sys_kill s else if num = 7 then sys_exec s
            else if num = 8 then sys_fstat s else if num = 9 then sys_chdir s else if num = 10 then sys_dup s
            else if num = 11 then sys_getpid s else if num = 12 then sys_sbrk s else if num = 13 then sys_sleep s
            else if num = 14 then sys_uptime s else if num = 15 then sys_open s else if num = 16 then sys_write s
            else if num = 17 then sys_mknod s else if num = 18 then sys_unlink s else if num = 19 then sys_link s
            else if num = 20 then sys_mkdir s else sys_close s) (\<lambda>r s.
        Ok (Some r) s))"

definition set_eax :: "u32 \<Rightarrow> 'a pst_scheme \<Rightarrow> 'a pst_scheme" where
  "set_eax v s = upd_proc (cur s) (\<lambda>p. p\<lparr>p_tf := (p_tf p)\<lparr>tf_eax := v\<rparr>\<rparr>) s"

text \<open>The result says whether the process is still there.\<close>

definition syscall :: "'a kst_scheme \<Rightarrow> ('a kst_scheme, bool) outcome" where
  "syscall s =
     (let num = sint (tf_eax (p_tf (myproc s))) in
      if num > 0 \<and> num < 22 then
        on (sys_call num s) (\<lambda>r s.
        case r of None \<Rightarrow> Ok False s | Some r \<Rightarrow> Ok True (set_eax (of_int r) s))
      else
        on (cprintf (\<lambda>_. cstr (p_name (myproc s))) (\<lambda>k. [of_int (p_pid (myproc s)), 1, of_int num] ! k)
              (map of_char ''%d %s: unknown sys call %d\<newline>'') s) (\<lambda>_ s.
        Ok True (set_eax (-1) s)))"

section \<open>Traps\<close>

text \<open>What the handler finds outside the kernel state: the processor, whether it runs a process, the
  faulting address, and what waits in the two input devices.\<close>

record trap_env =
  te_cpu :: nat
  te_idle :: bool
  te_cr2 :: u32
  te_kbd :: "byte list"
  te_uart :: "byte list"

text \<open>How the handler ends: it returns to the interrupted code, the process is gone, or it has given up
  the processor and will run \<open>trap_resume\<close> when it gets it back.\<close>

datatype trap_end = Resume | Gone | Yielded

definition trap_exit :: "'a kst_scheme \<Rightarrow> ('a kst_scheme, trap_end) outcome" where
  "trap_exit s = on (exit s) (\<lambda>_ s. Ok Gone s)"

definition trap_syscall :: "trapframe \<Rightarrow> 'a kst_scheme \<Rightarrow> ('a kst_scheme, trap_end) outcome" where
  "trap_syscall tf s =
     (if p_killed (myproc s) then trap_exit s
      else
        on (syscall (upd_proc (cur s) (\<lambda>p. p\<lparr>p_tf := tf\<rparr>) s)) (\<lambda>here s.
        if \<not> here then Ok Gone s
        else if p_killed (myproc s) then trap_exit s
        else Ok Resume s))"

text \<open>The \<^verbatim>\<open>switch\<close>: timer, disk, keyboard, serial line, spurious interrupts, and everything else. The disk is the memory disk, whose \<^verbatim>\<open>ideintr\<close>
  does nothing; the interrupt routine of \<^verbatim>\<open>ide.c\<close> is in \<open>Ide\<close>.\<close>

definition trap_timer :: "trap_env \<Rightarrow> 'a kst_scheme \<Rightarrow> 'a kst_scheme" where
  "trap_timer env s = (if te_cpu env = 0 then wakeup ChanTicks (s\<lparr>ticks := ticks s + 1\<rparr>) else s)"

definition trap_default :: "trap_env \<Rightarrow> trapframe \<Rightarrow> 'a kst_scheme \<Rightarrow> ('a kst_scheme, unit) outcome" where
  "trap_default env tf s =
     (if te_idle env \<or> tf_cs tf AND 3 = 0 then
        on (cprintf (\<lambda>_. []) (\<lambda>k. [tf_trapno tf, of_nat (te_cpu env), tf_eip tf, te_cr2 env] ! k)
              (map of_char ''unexpected trap %d from cpu %d eip %x (cr2=0x%x)\<newline>'') s) (\<lambda>_ s.
        Panic ''trap'')
      else
        on (cprintf (\<lambda>_. cstr (p_name (myproc s)))
              (\<lambda>k. [of_int (p_pid (myproc s)), 1, tf_trapno tf, tf_err tf, of_nat (te_cpu env), tf_eip tf, te_cr2 env] ! k)
              (map of_char ''pid %d %s: trap %d err %d on cpu %d eip 0x%x addr 0x%x--kill proc\<newline>'') s) (\<lambda>_ s.
        Ok () (upd_proc (cur s) (\<lambda>p. p\<lparr>p_killed := True\<rparr>) s)))"

definition trap_switch :: "trap_env \<Rightarrow> trapframe \<Rightarrow> 'a kst_scheme \<Rightarrow> ('a kst_scheme, unit) outcome" where
  "trap_switch env tf s =
     (let n = tf_trapno tf in
      if n = 32 then Ok () (trap_timer env s)
      else if n = 46 \<or> n = 47 then Ok () s
      else if n = 33 then
        on (kbdintr (te_kbd env) (kbd_shift s) s) (\<lambda>(dump, shift) s.
        let s = s\<lparr>kbd_shift := shift\<rparr> in if dump then procdump s else Ok () s)
      else if n = 36 then on (uartintr (te_uart env) s) (\<lambda>dump s. if dump then procdump s else Ok () s)
      else if n = 39 \<or> n = 63 then
        cprintf (\<lambda>_. []) (\<lambda>k. [of_nat (te_cpu env), ucast (tf_cs tf), tf_eip tf] ! k)
          (map of_char ''cpu%d: spurious interrupt at %x:%x\<newline>'') s
      else trap_default env tf s)"

text \<open>The last check, also made when the process runs again after \<^verbatim>\<open>yield\<close>.\<close>

definition trap_resume :: "trap_env \<Rightarrow> trapframe \<Rightarrow> 'a kst_scheme \<Rightarrow> ('a kst_scheme, trap_end) outcome" where
  "trap_resume env tf s =
     (if \<not> te_idle env \<and> p_killed (myproc s) \<and> tf_cs tf AND 3 = 3 then trap_exit s else Ok Resume s)"

definition trap :: "trap_env \<Rightarrow> trapframe \<Rightarrow> 'a kst_scheme \<Rightarrow> ('a kst_scheme, trap_end) outcome" where
  "trap env tf s =
     (if tf_trapno tf = 64 then trap_syscall tf s
      else
        on (trap_switch env tf s) (\<lambda>_ s.
        if \<not> te_idle env \<and> p_killed (myproc s) \<and> tf_cs tf AND 3 = 3 then trap_exit s
        else if \<not> te_idle env \<and> p_state (myproc s) = RUNNING \<and> tf_trapno tf = 32 then
          on (yield s) (\<lambda>_ s. Ok Yielded s)
        else trap_resume env tf s))"

end
