(* ===== verification/Fs_Content.thy ===== *)
theory Fs_Content
  imports Fs_File
begin

text \<open>
  What \<^verbatim>\<open>readi\<close>, \<^verbatim>\<open>writei\<close> and \<^verbatim>\<open>iupdate\<close> do to the bytes of a file: \<^verbatim>\<open>readi\<close> returns the
  requested slice and changes nothing, \<^verbatim>\<open>writei\<close> replaces it and leaves all other files as
  they are, and \<^verbatim>\<open>iupdate\<close> makes the on-disk inode equal to the one in memory.
\<close>

section \<open>Reading\<close>

lemma grown_read:
  assumes inv: "fs_inv s" and ok: "inode_ok ip s" and up: "updated {} s s'"
  shows "grown ip s s'"
proof (rule grown_updated [OF ok fs_inv_read(1) [OF inv up] up])
  have "file_wf (fsb s) (content s) (i_addrs (inode s ip))" using ok by (simp add: inode_ok_def)
  then show "file_grow (fsb s) (content s) (i_addrs (inode s ip)) (content s') (i_addrs (inode s ip))"
    using fs_inv_read(2) [OF inv up] by (simp add: file_grow_refl)
qed

lemma length_file_block: "bio_inv s \<Longrightarrow> length (file_block (content s) addrs bn) = BSIZE"
  by (simp add: file_block_def length_content)

lemma grown_byte:
  assumes "grown ip s s'" "k < MAXFILE * BSIZE"
  shows "file_byte (content s') (i_addrs (inode s' ip)) k = file_byte (content s) (i_addrs (inode s ip)) k"
proof -
  have "k div BSIZE < MAXFILE" using assms(2) by (simp add: less_mult_imp_div_less)
  then show ?thesis using grownD(4) [OF assms(1)] by (simp add: file_byte_def)
qed

lemma block_off: "r < BSIZE \<Longrightarrow> (q * BSIZE + r) div BSIZE = q \<and> (q * BSIZE + r) mod BSIZE = r"
  by simp

lemma slice_file_block:
  assumes "length (file_block c addrs (off div BSIZE)) = BSIZE" "m \<le> BSIZE - off mod BSIZE"
  shows "slice (off mod BSIZE) m (file_block c addrs (off div BSIZE)) = map (file_byte c addrs) [off..<off + m]"
proof (rule nth_equalityI)
  have lt: "off mod BSIZE < BSIZE" by simp
  then have le: "off mod BSIZE + m \<le> BSIZE" using assms(2) by linarith
  show "length (slice (off mod BSIZE) m (file_block c addrs (off div BSIZE))) = length (map (file_byte c addrs) [off..<off + m])"
    using assms(1) le by simp
  fix i assume "i < length (slice (off mod BSIZE) m (file_block c addrs (off div BSIZE)))"
  then have i: "i < m" using assms(1) le by simp
  have "(off + i) div BSIZE = off div BSIZE \<and> (off + i) mod BSIZE = off mod BSIZE + i"
  proof -
    have e: "off div BSIZE * BSIZE + (off mod BSIZE + i) = off + i" by simp
    have "off mod BSIZE + i < BSIZE" using le i by linarith
    from block_off [OF this, of "off div BSIZE"] show ?thesis unfolding e .
  qed
  then show "slice (off mod BSIZE) m (file_block c addrs (off div BSIZE)) ! i = map (file_byte c addrs) [off..<off + m] ! i"
    using i assms(1) le by (simp add: slice_def file_byte_def)
qed

lemma readi_loop_spec:
  assumes "readi_loop ip off n dst s = Ok d s'" "fs_inv s" "inode_ok ip s" "off + n \<le> MAXFILE * BSIZE"
  shows "grown ip s s' \<and> d = dst @ map (file_byte (content s) (i_addrs (inode s ip))) [off..<off + n]"
  using assms
proof (induction ip off n dst s rule: readi_loop.induct)
  case (1 ip off n dst s)
  note inv = "1.prems"(2) and ok = "1.prems"(3)
  show ?case
  proof (cases "n = 0")
    case True
    with 1 show ?thesis by (simp add: readi_loop.simps grown_refl)
  next
    case False
    define m where "m = min n (BSIZE - off mod BSIZE)"
    have m: "m \<le> n" "m \<le> BSIZE - off mod BSIZE" by (simp_all add: m_def)
    from "1.prems"(1) False obtain a s1 where bm: "bmap ip (off div BSIZE) s = Ok a s1"
      and r1: "on (bread (i_dev (inode s1 ip)) a s1) (\<lambda>bp s.
        let chunk = slice (off mod BSIZE) m (b_data (buf s bp))
        in on (brelse bp s) (\<lambda>_ s. readi_loop ip (off + m) (n - m) (dst @ chunk) s)) = Ok d s'"
      by (subst (asm) readi_loop.simps) (auto simp: on_eq_Ok m_def Let_def)
    note B = bmap_spec [OF inv ok bm]
    have inv1: "fs_inv s1" and ok1: "inode_ok ip s1" using grownD(2,3) [OF B(1)] ok by auto
    then have dev: "i_dev (inode s1 ip) = 1" by (simp add: inode_ok_def)
    from r1 [unfolded dev] obtain bp s2 where br: "bread 1 a s1 = Ok bp s2"
      and r2: "(let chunk = slice (off mod BSIZE) m (b_data (buf s2 bp))
        in on (brelse bp s2) (\<lambda>_ s. readi_loop ip (off + m) (n - m) (dst @ chunk) s)) = Ok d s'"
      by (rule onE)
    obtain s3 where rl: "brelse bp s2 = Ok () s3" and R: "updated {} s1 s3" "b_data (buf s2 bp) = content s1 a"
      by (rule read_spec [OF fs_invD(1) [OF inv1] br])
    have g13: "grown ip s1 s3" by (rule grown_read [OF inv1 ok1 R(1)])
    have g: "grown ip s s3" by (rule grown_trans [OF B(1) g13])
    let ?f = "file_byte (content s) (i_addrs (inode s ip))"
    have "content s1 a = file_block (content s1) (i_addrs (inode s1 ip)) (off div BSIZE)"
      using B(3,4,5) by (simp add: file_block_def)
    also have "\<dots> = file_block (content s) (i_addrs (inode s ip)) (off div BSIZE)" by (rule grownD(4) [OF B(1,2)])
    finally have chunk: "slice (off mod BSIZE) m (b_data (buf s2 bp)) = map ?f [off..<off + m]"
      using R(2) slice_file_block [OF length_file_block [OF fs_invD(5) [OF inv]] m(2)] by simp
    have l3: "readi_loop ip (off + m) (n - m) (dst @ map ?f [off..<off + m]) s3 = Ok d s'"
      using r2 rl chunk by simp
    have "grown ip s3 s' \<and> d = (dst @ map ?f [off..<off + m]) @ map (file_byte (content s3) (i_addrs (inode s3 ip))) [off + m..<off + m + (n - m)]"
    proof (rule "1.IH" [OF False bm _ m_def _ rl])
      show "bread (i_dev (inode s1 ip)) a s1 = Ok bp s2" using br dev by simp
      show "map ?f [off..<off + m] = slice (off mod BSIZE) m (b_data (buf s2 bp))" using chunk by simp
    qed (use l3 grownD(2,3) [OF g] ok m "1.prems"(4) in auto)
    moreover have "map (file_byte (content s3) (i_addrs (inode s3 ip))) [off + m..<off + n] = map ?f [off + m..<off + n]"
      using grown_byte [OF g] "1.prems"(4) by simp
    moreover have "[off..<off + n] = [off..<off + m] @ [off + m..<off + n]"
      using m(1) upt_add_eq_append [of off "off + m" "n - m"] by simp
    ultimately show ?thesis using m grown_trans [OF g] by simp
  qed
qed

section \<open>On-disk inodes\<close>

lemma length_put32_fold [simp]: "length (fold (\<lambda>k. put32 (f k) (g k)) ks d) = length d"
  by (induction ks arbitrary: d) auto

lemma length_dinode_put [simp]: "length (dinode_put off di d) = length d"
  by (simp add: dinode_put_def del: upt_Suc)

lemma get32_addr_fold:
  "off + 4 * n \<le> length d \<Longrightarrow> j < n \<Longrightarrow> get32 (fold (\<lambda>k. put32 (off + 4 * k) (g k)) [0..<n] d) (off + 4 * j) = g j"
proof (induction n)
  case (Suc n)
  then show ?case
    by (cases "j = n") (auto simp: get32_put32_same get32_put32_other)
qed simp

lemma get_addr_fold_other:
  "i + 4 \<le> off \<or> off + 4 * n \<le> i \<Longrightarrow> get32 (fold (\<lambda>k. put32 (off + 4 * k) (g k)) [0..<n] d) i = get32 d i"
  "i + 2 \<le> off \<or> off + 4 * n \<le> i \<Longrightarrow> get16 (fold (\<lambda>k. put32 (off + 4 * k) (g k)) [0..<n] d) i = get16 d i"
  by (induction n) (auto simp: get32_put32_other get16_put32_other)

lemma dinode_get_put_same:
  assumes "off + 64 \<le> length d" "length (di_addrs di) = NDIRECT + 1"
  shows "dinode_get off (dinode_put off di d) = di"
proof -
  let ?b = "put32 (off + 8) (di_size di) (put16 (off + 6) (di_nlink di)
         (put16 (off + 4) (di_minor di) (put16 (off + 2) (di_major di) (put16 off (di_type di) d))))"
  have p: "dinode_put off di d = fold (\<lambda>k. put32 (off + 12 + 4 * k) (di_addrs di ! k)) [0..<13] ?b"
    by (simp add: dinode_put_def)
  have len: "length ?b = length d" by simp
  have addrs: "map (\<lambda>k. get32 (dinode_put off di d) (off + 12 + 4 * k)) [0..<13] = di_addrs di"
    unfolding p using assms get32_addr_fold [of "off + 12" 13 ?b] len by (intro nth_equalityI) auto
  have f: "get16 (dinode_put off di d) off = di_type di" "get16 (dinode_put off di d) (off + 2) = di_major di"
    "get16 (dinode_put off di d) (off + 4) = di_minor di" "get16 (dinode_put off di d) (off + 6) = di_nlink di"
    "get32 (dinode_put off di d) (off + 8) = di_size di"
    unfolding p using assms by (simp_all add: get_addr_fold_other bytes_simps)
  show ?thesis using addrs f by (simp add: dinode_get_def)
qed

lemma dinode_get_put_other:
  assumes "off' + 64 \<le> off \<or> off + 64 \<le> off'"
  shows "dinode_get off' (dinode_put off di d) = dinode_get off' d"
proof -
  let ?b = "put32 (off + 8) (di_size di) (put16 (off + 6) (di_nlink di)
         (put16 (off + 4) (di_minor di) (put16 (off + 2) (di_major di) (put16 off (di_type di) d))))"
  have p: "dinode_put off di d = fold (\<lambda>k. put32 (off + 12 + 4 * k) (di_addrs di ! k)) [0..<13] ?b"
    by (simp add: dinode_put_def)
  have g32: "get32 (dinode_put off di d) i = get32 d i" if "i + 4 \<le> off \<or> off + 64 \<le> i" for i
    unfolding p using that by (subst get_addr_fold_other) (auto simp: bytes_simps)
  have g16: "get16 (dinode_put off di d) i = get16 d i" if "i + 2 \<le> off \<or> off + 64 \<le> i" for i
    unfolding p using that by (subst get_addr_fold_other) (auto simp: bytes_simps)
  show ?thesis
    unfolding dinode_get_def using assms by (auto simp: g32 g16 intro!: map_cong)
qed

definition dinode_at :: "superblock \<Rightarrow> (nat \<Rightarrow> byte list) \<Rightarrow> nat \<Rightarrow> dinode" where
  "dinode_at sb c inum = dinode_get (di_off inum) (c (IBLOCK inum sb))"

lemma di_off_bound: "di_off inum + 64 \<le> BSIZE"
proof -
  have "inum mod 8 \<le> 7" using pos_mod_bound [of 8 "int inum"] by simp
  then show ?thesis by (simp add: di_off_def)
qed

lemma di_off_disjoint:
  assumes "IBLOCK i sb = IBLOCK j sb" "i \<noteq> j"
  shows "di_off i + 64 \<le> di_off j \<or> di_off j + 64 \<le> di_off i"
proof -
  have "i div 8 = j div 8" using assms(1) by (simp add: IBLOCK_def)
  then have "i mod 8 \<noteq> j mod 8" using assms(2) by (metis div_mult_mod_eq)
  then show ?thesis by (auto simp: di_off_def)
qed

lemma dinode_at_put:
  assumes "length (c (IBLOCK i sb)) = BSIZE" "length (di_addrs di) = NDIRECT + 1"
    and "c' = c(IBLOCK i sb := dinode_put (di_off i) di (c (IBLOCK i sb)))"
  shows "dinode_at sb c' j = (if j = i then di else dinode_at sb c j)"
proof (cases "IBLOCK j sb = IBLOCK i sb")
  case True
  then show ?thesis
    using assms dinode_get_put_same [of "di_off i" "c (IBLOCK i sb)" di] di_off_bound [of i]
      dinode_get_put_other [OF di_off_disjoint [OF True]]
    by (cases "j = i") (simp_all add: dinode_at_def)
next
  case False
  then have "j \<noteq> i" by auto
  with False assms(3) show ?thesis by (simp add: dinode_at_def)
qed

lemma low_block_fs_inv:
  assumes inv: "fs_inv s" and up: "updated {b} s s'" and b: "b < unat (sb_bmapstart (fsb s))"
  shows "fs_inv s'" "allocated (fsb s) (content s') x = allocated (fsb s) (content s) x"
proof -
  have al: "allocated (fsb s) (content s') x = allocated (fsb s) (content s) x" for x
    using updatedD(8) [OF up, of "BBLOCK x (fsb s)"] region_bounds(8) [OF inv, of x] b by (simp add: allocated_def)
  then show "allocated (fsb s) (content s') x = allocated (fsb s) (content s) x" by simp
  show "fs_inv s'" using fs_invD(4) [OF inv] al by (intro fs_inv_cong [OF inv updatedD(1,6) [OF up]]) simp
qed

lemma iupdate_spec:
  assumes inv: "fs_inv s" and dev: "i_dev (inode s ip) = 1" and inum: "i_inum (inode s ip) < unat (sb_ninodes (fsb s))"
    and len: "length (i_addrs (inode s ip)) = NDIRECT + 1" and ok: "iupdate ip s = Ok u s'"
  shows "updated {IBLOCK (i_inum (inode s ip)) (fsb s)} s s'" "fs_inv s'"
    "dinode_at (fsb s) (content s') j = (if j = i_inum (inode s ip) then inode_dinode (inode s ip) else dinode_at (fsb s) (content s) j)"
    "allocated (fsb s) (content s') x = allocated (fsb s) (content s) x" "1 \<le> lg_outstanding s"
proof -
  let ?i = "i_inum (inode s ip)" and ?di = "inode_dinode (inode s ip)"
  let ?b = "IBLOCK ?i (fsb s)"
  note L = region_bounds(5,6) [OF inv inum]
  from ok dev obtain bp s1 where br: "bread 1 ?b s = Ok bp s1"
    and r1: "on (log_write bp (upd_data bp (dinode_put (di_off (i_inum (inode s1 ip))) (inode_dinode (inode s1 ip))) s1)) (\<lambda>_ s. brelse bp s) = Ok u s'"
    by (auto simp: iupdate_def on_eq_Ok)
  have ic: "icache s1 = icache s"
    by (rule log_rest_fsst [OF same_rest_log_rest [OF bread_spec(11) [OF fs_invD(5) [OF inv] br]]])
  from r1 [unfolded ic] obtain v s2 where lw: "log_write bp (upd_data bp (dinode_put (di_off ?i) ?di) s1) = Ok v s2"
    and rl: "brelse bp s2 = Ok u s'" by (rule onE)
  have lc: "length (content s ?b) = BSIZE" by (rule length_content [OF fs_invD(5) [OF inv]])
  then have "length (dinode_put (di_off ?i) ?di (content s ?b)) = BSIZE" by simp
  note M = modify_spec [where f = "dinode_put (di_off ?i) ?di", OF fs_invD(1) [OF inv] br L(1) this lw rl]
  show "updated {?b} s s'" by (rule M)
  show "fs_inv s'" "allocated (fsb s) (content s') x = allocated (fsb s) (content s) x"
    using low_block_fs_inv [OF inv M(1) L(2)] by auto
  have "content s' = (content s)(?b := dinode_put (di_off ?i) ?di (content s ?b))"
    using updatedD(8) [OF M(1)] M(2) by (auto simp: fun_eq_iff)
  then show "dinode_at (fsb s) (content s') j = (if j = ?i then ?di else dinode_at (fsb s) (content s) j)"
    using len lc by (intro dinode_at_put) (simp_all add: inode_dinode_def)
  show "1 \<le> lg_outstanding s" by (rule M)
qed

section \<open>Writing\<close>

lemma write_block_frame:
  assumes inv: "fs_inv s" and wf: "file_wf (fsb s) (content s) addrs" and bn: "bn < MAXFILE"
    and a: "blk_addr (content s) addrs bn = a" "a \<noteq> 0" and c': "c' = (content s)(unat a := X)"
  shows "file_frame (fsb s) (content s) addrs c' addrs"
    "m < MAXFILE \<Longrightarrow> file_block c' addrs m = (if m = bn then X else file_block (content s) addrs m)"
proof -
  let ?sb = "fsb s" and ?c = "content s"
  note W = file_wfD [OF wf]
  have g: "good ?sb ?c a" and na: "a \<noteq> addrs ! NDIRECT" using W(3,4) [OF bn] a by auto
  have ds: "datastart ?sb \<le> unat a" using g by (simp add: good_def)
  have ni: "c' (unat (addrs ! NDIRECT)) = ?c (unat (addrs ! NDIRECT))"
    using na by (simp add: c' word_unat_eq_iff)
  have A: "blk_addr c' addrs m = blk_addr ?c addrs m" for m using ni by (simp add: blk_addr_def)
  have al: "allocated ?sb c' x = allocated ?sb ?c x" if "x < unat (sb_size ?sb)" for x
    using region_bounds(3) [OF inv, of x] that ds by (simp add: allocated_def c')
  have gd: "good ?sb c' y = good ?sb ?c y" for y using al by (auto simp: good_def)
  have "file_wf ?sb c' addrs" using wf by (simp add: file_wf_def A gd)
  moreover have fb: "file_blocks c' addrs = file_blocks ?c addrs" by (simp add: file_blocks_def A)
  moreover have "unat a \<in> file_blocks ?c addrs" using bn a by (auto simp: in_file_blocks)
  moreover have "unat (sb_bmapstart ?sb) \<le> unat a" using ds region_bounds(7) [OF inv] by simp
  ultimately show "file_frame ?sb ?c addrs c' addrs"
    unfolding file_frame_def using A al by (auto simp: c')
  show "file_block c' addrs m = (if m = bn then X else file_block ?c addrs m)" if m: "m < MAXFILE"
  proof (cases "m = bn")
    case True
    then show ?thesis using a A by (simp add: file_block_def c')
  next
    case False
    have "blk_addr ?c addrs m = 0 \<or> unat (blk_addr ?c addrs m) \<noteq> unat a"
      using W(5) [OF m bn False] a by (auto simp: word_unat_eq_iff)
    then have "blk_addr ?c addrs m = 0 \<or> c' (unat (blk_addr ?c addrs m)) = ?c (unat (blk_addr ?c addrs m))"
      by (auto simp: c')
    with False show ?thesis by (auto simp: file_block_def A)
  qed
qed

lemma touched_write_block:
  assumes inv: "fs_inv s" and ok: "inode_ok ip s" and bn: "bn < MAXFILE"
    and a: "blk_addr (content s) (i_addrs (inode s ip)) bn = of_nat a" "of_nat a \<noteq> (0 :: u32)" "unat (of_nat a :: u32) = a"
    and up: "updated {a} s s'" and X: "content s' a = X"
  shows "touched ip s s'"
    "m < MAXFILE \<Longrightarrow> file_block (content s') (i_addrs (inode s' ip)) m =
       (if m = bn then X else file_block (content s) (i_addrs (inode s ip)) m)"
proof -
  have wf: "file_wf (fsb s) (content s) (i_addrs (inode s ip))" using ok by (simp add: inode_ok_def)
  have c': "content s' = (content s)(unat (of_nat a :: u32) := X)"
    using updatedD(8) [OF up] X a(3) by (auto simp: fun_eq_iff)
  note W = write_block_frame [OF inv wf bn a(1,2) c']
  have ic: "icache s' = icache s" by (rule updated_fsst [OF up])
  show "m < MAXFILE \<Longrightarrow> file_block (content s') (i_addrs (inode s' ip)) m =
       (if m = bn then X else file_block (content s) (i_addrs (inode s ip)) m)"
    using W(2) ic by simp
  have "fs_inv s'"
  proof (rule fs_inv_cong [OF inv updatedD(1,6) [OF up]])
    fix b assume b: "b < datastart (fsb s)"
    have "datastart (fsb s) \<le> unat (sb_size (fsb s))" using fs_invD(2) [OF inv] by (simp add: sb_ok_def)
    then show "allocated (fsb s) (content s') b"
      using file_frameD(5) [OF W(1)] fs_invD(4) [OF inv b] b by simp
  qed
  moreover have "\<exists>bs. fs_updated bs s s'" using fs_updated_updated [OF up] by blast
  moreover have "file_frame (fsb s) (content s) (i_addrs (inode s ip)) (content s') (i_addrs (inode s' ip))" using W(1) ic by simp
  moreover have "icache s' = (icache s)[ip := (inode s ip)\<lparr>i_addrs := i_addrs (inode s' ip)\<rparr>]" using ic by simp
  ultimately show "touched ip s s'" unfolding touched_def by blast
qed

lemma splice_file_byte:
  assumes "k div BSIZE = off div BSIZE" "length blk = BSIZE" "m \<le> length src" "m \<le> BSIZE - off mod BSIZE"
  shows "splice (off mod BSIZE) (take m src) blk ! (k mod BSIZE) =
    (if off \<le> k \<and> k < off + m then src ! (k - off) else blk ! (k mod BSIZE))"
proof -
  have lt: "off mod BSIZE < BSIZE" by simp
  then have le: "off mod BSIZE + length (take m src) \<le> length blk" using assms by simp
  have k: "k = off div BSIZE * BSIZE + k mod BSIZE" using assms(1) by (metis div_mult_mod_eq)
  have o: "off = off div BSIZE * BSIZE + off mod BSIZE" by simp
  have "k mod BSIZE < length blk" using assms(2) by simp
  note n = nth_splice [OF le this]
  have "off \<le> k \<longleftrightarrow> off mod BSIZE \<le> k mod BSIZE" using k o by linarith
  moreover have "k < off + m \<longleftrightarrow> k mod BSIZE < off mod BSIZE + m" using k o by linarith
  moreover have "k - off = k mod BSIZE - off mod BSIZE" using k o by linarith
  moreover have "take m src ! (k - off) = src ! (k - off)" if "off \<le> k" "k < off + m" using that by simp
  ultimately show ?thesis using n assms(3) by auto
qed

lemma writei_loop_spec:
  assumes "writei_loop ip off src s = Ok off' s'" "fs_inv s" "inode_ok ip s" "off + length src \<le> MAXFILE * BSIZE"
  shows "touched ip s s' \<and> off' = off + length src \<and>
    (\<forall>k < MAXFILE * BSIZE. file_byte (content s') (i_addrs (inode s' ip)) k =
       (if off \<le> k \<and> k < off + length src then src ! (k - off) else file_byte (content s) (i_addrs (inode s ip)) k)) \<and>
    (src \<noteq> [] \<longrightarrow> 1 \<le> lg_outstanding s)"
  using assms
proof (induction ip off src s rule: writei_loop.induct)
  case (1 ip off src s)
  note inv = "1.prems"(2) and ok = "1.prems"(3)
  show ?case
  proof (cases "src = []")
    case True
    with 1 show ?thesis by (auto simp: writei_loop.simps touched_refl)
  next
    case False
    define m where "m = min (length src) (BSIZE - off mod BSIZE)"
    have m: "m \<le> length src" "m \<le> BSIZE - off mod BSIZE" by (simp_all add: m_def)
    from "1.prems"(1) False obtain a s1 where bm: "bmap ip (off div BSIZE) s = Ok a s1"
      and r1: "on (bread (i_dev (inode s1 ip)) a s1) (\<lambda>bp s.
        on (log_write bp (upd_data bp (splice (off mod BSIZE) (take m src)) s)) (\<lambda>_ s.
        on (brelse bp s) (\<lambda>_ s.
        writei_loop ip (off + m) (drop m src) s))) = Ok off' s'"
      by (subst (asm) writei_loop.simps) (auto simp: on_eq_Ok m_def Let_def)
    note B = bmap_spec [OF inv ok bm]
    have inv1: "fs_inv s1" and ok1: "inode_ok ip s1" using grownD(2,3) [OF B(1)] ok by auto
    then have dev: "i_dev (inode s1 ip) = 1" by (simp add: inode_ok_def)
    from r1 [unfolded dev] obtain bp s2 where br: "bread 1 a s1 = Ok bp s2"
      and r2: "on (log_write bp (upd_data bp (splice (off mod BSIZE) (take m src)) s2)) (\<lambda>_ s.
        on (brelse bp s) (\<lambda>_ s. writei_loop ip (off + m) (drop m src) s)) = Ok off' s'"
      by (rule onE)
    from r2 obtain v s3 where lw: "log_write bp (upd_data bp (splice (off mod BSIZE) (take m src)) s2) = Ok v s3"
      and r3: "on (brelse bp s3) (\<lambda>_ s. writei_loop ip (off + m) (drop m src) s) = Ok off' s'"
      by (rule onE)
    from r3 obtain w s4 where rl: "brelse bp s3 = Ok w s4" and l4: "writei_loop ip (off + m) (drop m src) s4 = Ok off' s'"
      by (rule onE)
    let ?c1 = "content s1" and ?a1 = "i_addrs (inode s1 ip)"
    have lc: "length (?c1 a) = BSIZE" by (rule length_content [OF fs_invD(5) [OF inv1]])
    have "off mod BSIZE < BSIZE" by simp
    then have len: "length (splice (off mod BSIZE) (take m src) (?c1 a)) = BSIZE"
      using lc m by (subst length_splice) auto
    have wf1: "file_wf (fsb s1) ?c1 ?a1" using ok1 by (simp add: inode_ok_def)
    have "good (fsb s1) ?c1 (of_nat a)" using file_wfD(3) [OF wf1 B(2)] B(3,4) by simp
    then have nr: "a \<notin> log_region s1" using region_bounds(4) [OF inv1] B(5) by (simp add: good_def)
    note M = modify_spec [where f = "splice (off mod BSIZE) (take m src)", OF fs_invD(1) [OF inv1] br nr len lw rl]
    note T = touched_write_block [OF inv1 ok1 B(2-5) M(1,2)]
    have t: "touched ip s s4" by (rule touched_trans [OF grownD(1) [OF B(1)] T(1)])
    have IH: "touched ip s4 s' \<and> off' = off + m + length (drop m src) \<and>
      (\<forall>k < MAXFILE * BSIZE. file_byte (content s') (i_addrs (inode s' ip)) k =
       (if off + m \<le> k \<and> k < off + m + length (drop m src) then drop m src ! (k - (off + m))
        else file_byte (content s4) (i_addrs (inode s4 ip)) k)) \<and> (drop m src \<noteq> [] \<longrightarrow> 1 \<le> lg_outstanding s4)"
    proof (rule "1.IH" [OF False bm _ m_def lw rl l4])
      show "bread (i_dev (inode s1 ip)) a s1 = Ok bp s2" using br dev by simp
      show "fs_inv s4" "inode_ok ip s4" using touchedD(1,3) [OF t] ok by auto
      show "off + m + length (drop m src) \<le> MAXFILE * BSIZE" using m "1.prems"(4) by simp
    qed
    have byte: "file_byte (content s4) (i_addrs (inode s4 ip)) k =
        (if off \<le> k \<and> k < off + m then src ! (k - off) else file_byte (content s) (i_addrs (inode s ip)) k)"
      if k: "k < MAXFILE * BSIZE" for k
    proof -
      have kb: "k div BSIZE < MAXFILE" using k by (simp add: less_mult_imp_div_less)
      have blk: "?c1 a = file_block ?c1 ?a1 (off div BSIZE)" using B(3,4,5) by (simp add: file_block_def)
      show ?thesis
      proof (cases "k div BSIZE = off div BSIZE")
        case True
        then have "file_byte (content s4) (i_addrs (inode s4 ip)) k = splice (off mod BSIZE) (take m src) (?c1 a) ! (k mod BSIZE)"
          using T(2) [OF kb] by (simp add: file_byte_def)
        also have "\<dots> = (if off \<le> k \<and> k < off + m then src ! (k - off) else ?c1 a ! (k mod BSIZE))"
          by (rule splice_file_byte [OF True lc m])
        finally show ?thesis using blk True grown_byte [OF B(1) k] by (simp add: file_byte_def)
      next
        case False
        have "\<not> (off \<le> k \<and> k < off + m)"
        proof
          assume "off \<le> k \<and> k < off + m"
          then obtain i where i: "k = off + i" "i < m" by (metis le_Suc_ex nat_add_left_cancel_less)
          have e: "off div BSIZE * BSIZE + (off mod BSIZE + i) = off + i" by simp
          have "off mod BSIZE + i < BSIZE" using m(2) i(2) by linarith
          from block_off [OF this, of "off div BSIZE"] have "(off + i) div BSIZE = off div BSIZE" unfolding e by simp
          with i(1) False show False by simp
        qed
        moreover have "file_byte (content s4) (i_addrs (inode s4 ip)) k = file_byte ?c1 ?a1 k"
          using T(2) [OF kb] False by (simp add: file_byte_def)
        ultimately show ?thesis using grown_byte [OF B(1) k] by auto
      qed
    qed
    have nth: "drop m src ! (k - (off + m)) = src ! (k - off)" if "off + m \<le> k" "k < off + length src" for k
      using that m(1) by simp
    obtain bs where "fs_updated bs s s1" using touchedD(4) [OF grownD(1) [OF B(1)]] by blast
    then have "1 \<le> lg_outstanding s" using M(3) fs_updatedD(16) by fastforce
    moreover have "touched ip s s'" using touched_trans [OF t] IH by blast
    moreover have "file_byte (content s') (i_addrs (inode s' ip)) k =
       (if off \<le> k \<and> k < off + length src then src ! (k - off) else file_byte (content s) (i_addrs (inode s ip)) k)"
      if k: "k < MAXFILE * BSIZE" for k
      using IH k byte [OF k] nth [of k] m(1) by auto
    ultimately show ?thesis using IH m(1) by auto
  qed
qed

section \<open>What readi and writei do to a file\<close>

text \<open>The bytes of the file at \<open>ip\<close>.\<close>

definition file_data :: "'a fsst_scheme \<Rightarrow> nat \<Rightarrow> byte list" where
  "file_data s ip = map (file_byte (content s) (i_addrs (inode s ip))) [0..<unat (i_size (inode s ip))]"

lemma length_file_data [simp]: "length (file_data s ip) = unat (i_size (inode s ip))"
  by (simp add: file_data_def)

lemma slice_file_data:
  "a + m \<le> unat (i_size (inode s ip)) \<Longrightarrow>
   slice a m (file_data s ip) = map (file_byte (content s) (i_addrs (inode s ip))) [a..<a + m]"
  by (rule nth_equalityI) (auto simp: slice_def file_data_def)

lemma readi_spec:
  assumes inv: "fs_inv s" and ok: "inode_ok ip s" and ty: "i_type (inode s ip) \<noteq> T_DEV"
    and sz: "unat (i_size (inode s ip)) \<le> MAXFILE * BSIZE" and r: "readi ip off n s = Ok (k, d) s'"
  shows "unat off \<le> unat (i_size (inode s ip)) \<Longrightarrow> unat off + unat n < 2 ^ 32 \<Longrightarrow>
      grown ip s s' \<and> d = slice (unat off) (unat n) (file_data s ip) \<and> k = int (length d)"
    "unat off > unat (i_size (inode s ip)) \<or> unat off + unat n \<ge> 2 ^ 32 \<Longrightarrow> k = -1 \<and> d = [] \<and> s' = s"
proof -
  assume o: "unat off \<le> unat (i_size (inode s ip))" and nw: "unat off + unat n < 2 ^ 32"
  let ?sz = "i_size (inode s ip)"
  define n' where "n' = (if off + n > ?sz then ?sz - off else n)"
  have "unat (?sz - off) = unat ?sz - unat off" using o by (intro unat_sub) (simp add: word_le_nat_alt)
  then have n': "unat n' = min (unat n) (unat ?sz - unat off)"
    using unat_add_no_overflow [OF nw] o by (auto simp: n'_def word_less_nat_alt)
  have "\<not> off > ?sz" "\<not> off + n < off" using o nw word_add_overflow [of off n] by (auto simp: word_less_nat_alt)
  with r ty have l: "readi_loop ip (unat off) (unat n') [] s = Ok d s'" and k: "k = sint n'"
    by (auto simp: readi_def Let_def on_eq_Ok n'_def)
  have le: "unat off + unat n' \<le> unat ?sz" using n' o by simp
  then have "grown ip s s' \<and> d = [] @ map (file_byte (content s) (i_addrs (inode s ip))) [unat off..<unat off + unat n']"
    using sz by (intro readi_loop_spec [OF l inv ok]) simp
  moreover have "slice (unat off) (unat n) (file_data s ip) = slice (unat off) (unat n') (file_data s ip)"
    using n' by (auto simp: slice_def min_def)
  moreover have "sint n' = int (unat n')" using le sz by (intro sint_small) simp
  ultimately show "grown ip s s' \<and> d = slice (unat off) (unat n) (file_data s ip) \<and> k = int (length d)"
    using slice_file_data [OF le] k by simp
next
  assume "unat off > unat (i_size (inode s ip)) \<or> unat off + unat n \<ge> 2 ^ 32"
  then have "off > i_size (inode s ip) \<or> off + n < off"
    using word_add_overflow [of off n] by (auto simp: word_less_nat_alt)
  with r ty show "k = -1 \<and> d = [] \<and> s' = s" by (simp add: readi_def split: if_splits)
qed

text \<open>Which blocks of a file exist.\<close>

definition has_block :: "'a fsst_scheme \<Rightarrow> nat \<Rightarrow> nat \<Rightarrow> bool" where
  "has_block s ip bn \<longleftrightarrow> blk_addr (content s) (i_addrs (inode s ip)) bn \<noteq> 0"

lemma touched_has_block: "touched ip s s' \<Longrightarrow> bn < MAXFILE \<Longrightarrow> has_block s ip bn \<Longrightarrow> has_block s' ip bn"
  using file_frameD(2) [OF touchedD(6)] by (fastforce simp: has_block_def)

lemma bmap_present:
  assumes inv: "fs_inv s" and ok: "inode_ok ip s" and h: "has_block s ip bn" and b: "bmap ip bn s = Ok a s'"
  shows "icache s' = icache s"
proof (cases "bn < NDIRECT")
  case True
  with h b show ?thesis by (auto simp: bmap_def bmap_slot_def has_block_def blk_addr_def)
next
  case False
  let ?ind = "i_addrs (inode s ip) ! NDIRECT" and ?j = "bn - NDIRECT"
  have dev: "i_dev (inode s ip) = 1" using ok by (simp add: inode_ok_def)
  from h False have nz: "?ind \<noteq> 0" "get32 (content s (unat ?ind)) (4 * ?j) \<noteq> 0"
    by (auto simp: has_block_def blk_addr_def split: if_splits)
  with b False have e: "bmap_entry ip ?j (unat ?ind) s = Ok a s'" by (auto simp: bmap_def bmap_slot_def split: if_splits)
  from e [unfolded bmap_entry_def dev] obtain bp s1 where br: "bread 1 (unat ?ind) s = Ok bp s1"
    and r: "(let a = get32 (b_data (buf s1 bp)) (4 * ?j) in
     on (if a = 0 then
           on (balloc (i_dev (inode s1 ip)) s1) (\<lambda>addr s.
           on (log_write bp (upd_data bp (put32 (4 * ?j) (of_nat addr)) s)) (\<lambda>_ s.
           Ok addr s))
         else Ok (unat a) s1) (\<lambda>addr s.
     on (brelse bp s) (\<lambda>_ s.
     Ok addr s))) = Ok a s'" by (rule onE)
  obtain z where "brelse bp s1 = Ok () z" and Z: "updated {} s z" "b_data (buf s1 bp) = content s (unat ?ind)"
    by (rule read_spec [OF fs_invD(1) [OF inv] br])
  with r nz(2) have "s' = z" by (simp add: Let_def)
  then show ?thesis using updated_fsst(2) [OF Z(1)] by simp
qed

text \<open>The blocks that a write of \<open>n\<close> bytes at \<open>off\<close> goes to.\<close>

definition in_range :: "nat \<Rightarrow> nat \<Rightarrow> nat \<Rightarrow> bool" where
  "in_range off n bn \<longleftrightarrow> n > 0 \<and> off div BSIZE \<le> bn \<and> bn \<le> (off + n - 1) div BSIZE"

lemma range_first: "n > 0 \<Longrightarrow> in_range off n (off div BSIZE)"
  by (simp add: in_range_def div_le_mono)

lemma range_split:
  assumes "m = min n (BSIZE - off mod BSIZE)" "n > 0"
  shows "in_range off n bn \<longleftrightarrow> bn = off div BSIZE \<or> in_range (off + m) (n - m) bn"
proof (cases "n \<le> BSIZE - off mod BSIZE")
  case True
  have "off mod BSIZE < BSIZE" by simp
  with True assms(2) have lt: "off mod BSIZE + (n - 1) < BSIZE" by linarith
  have e: "off div BSIZE * BSIZE + (off mod BSIZE + (n - 1)) = off + n - 1" using assms(2) by simp
  from block_off [OF lt, of "off div BSIZE"] have "(off + n - 1) div BSIZE = off div BSIZE" unfolding e by simp
  with True assms show ?thesis by (auto simp: in_range_def)
next
  case False
  then have m: "m = BSIZE - off mod BSIZE" "m < n" using assms by auto
  have "off mod BSIZE < BSIZE" by simp
  moreover have "off = off div BSIZE * BSIZE + off mod BSIZE" by simp
  ultimately have "off + m = off div BSIZE * BSIZE + BSIZE" using m(1) by linarith
  then have d: "(off + m) div BSIZE = off div BSIZE + 1" by simp
  have "off + m \<le> off + n - 1" using m(2) by linarith
  then have "off div BSIZE + 1 \<le> (off + n - 1) div BSIZE" using div_le_mono [of "off + m" "off + n - 1" BSIZE] d by simp
  moreover have "off + m + (n - m) - 1 = off + n - 1" using m(2) by simp
  ultimately show ?thesis using d m(2) by (auto simp: in_range_def)
qed

lemma writei_loop_step:
  assumes "writei_loop ip off src s = Ok off' s'" "fs_inv s" "inode_ok ip s" "src \<noteq> []"
  obtains m a s1 s4 where "m = min (length src) (BSIZE - off mod BSIZE)" "bmap ip (off div BSIZE) s = Ok a s1"
    "grown ip s s1" "off div BSIZE < MAXFILE" "has_block s1 ip (off div BSIZE)" "touched ip s1 s4" "icache s4 = icache s1"
    "writei_loop ip (off + m) (drop m src) s4 = Ok off' s'"
proof -
  note inv = assms(2) and ok = assms(3)
  define m where "m = min (length src) (BSIZE - off mod BSIZE)"
  from assms(1,4) obtain a s1 where bm: "bmap ip (off div BSIZE) s = Ok a s1"
    and r1: "on (bread (i_dev (inode s1 ip)) a s1) (\<lambda>bp s.
      on (log_write bp (upd_data bp (splice (off mod BSIZE) (take m src)) s)) (\<lambda>_ s.
      on (brelse bp s) (\<lambda>_ s.
      writei_loop ip (off + m) (drop m src) s))) = Ok off' s'"
    by (subst (asm) writei_loop.simps) (auto simp: on_eq_Ok m_def Let_def)
  note B = bmap_spec [OF inv ok bm]
  have inv1: "fs_inv s1" and ok1: "inode_ok ip s1" using grownD(2,3) [OF B(1)] ok by auto
  then have dev: "i_dev (inode s1 ip) = 1" by (simp add: inode_ok_def)
  from r1 [unfolded dev] obtain bp s2 where br: "bread 1 a s1 = Ok bp s2"
    and r2: "on (log_write bp (upd_data bp (splice (off mod BSIZE) (take m src)) s2)) (\<lambda>_ s.
      on (brelse bp s) (\<lambda>_ s. writei_loop ip (off + m) (drop m src) s)) = Ok off' s'"
    by (rule onE)
  from r2 obtain v s3 where lw: "log_write bp (upd_data bp (splice (off mod BSIZE) (take m src)) s2) = Ok v s3"
    and r3: "on (brelse bp s3) (\<lambda>_ s. writei_loop ip (off + m) (drop m src) s) = Ok off' s'"
    by (rule onE)
  from r3 obtain w s4 where rl: "brelse bp s3 = Ok w s4" and l4: "writei_loop ip (off + m) (drop m src) s4 = Ok off' s'"
    by (rule onE)
  have lc: "length (content s1 a) = BSIZE" by (rule length_content [OF fs_invD(5) [OF inv1]])
  have "off mod BSIZE < BSIZE" by simp
  then have len: "length (splice (off mod BSIZE) (take m src) (content s1 a)) = BSIZE"
    using lc by (subst length_splice) (auto simp: m_def)
  have wf1: "file_wf (fsb s1) (content s1) (i_addrs (inode s1 ip))" using ok1 by (simp add: inode_ok_def)
  have "good (fsb s1) (content s1) (of_nat a)" using file_wfD(3) [OF wf1 B(2)] B(3,4) by simp
  then have nr: "a \<notin> log_region s1" using region_bounds(4) [OF inv1] B(5) by (simp add: good_def)
  note M = modify_spec [where f = "splice (off mod BSIZE) (take m src)", OF fs_invD(1) [OF inv1] br nr len lw rl]
  note T = touched_write_block [OF inv1 ok1 B(2-5) M(1,2)]
  have "has_block s1 ip (off div BSIZE)" using B(3,4) by (simp add: has_block_def)
  with B T(1) updated_fsst(2) [OF M(1)] l4 bm m_def show thesis by (intro that)
qed

lemma writei_loop_blocks:
  assumes "writei_loop ip off src s = Ok off' s'" "fs_inv s" "inode_ok ip s" "off + length src \<le> MAXFILE * BSIZE"
  shows "(\<forall>bn. in_range off (length src) bn \<longrightarrow> has_block s' ip bn) \<and>
    ((\<forall>bn. in_range off (length src) bn \<longrightarrow> has_block s ip bn) \<longrightarrow> icache s' = icache s)"
  using assms
proof (induction "length src" arbitrary: off src s rule: less_induct)
  case less
  show ?case
  proof (cases "src = []")
    case True
    with less.prems show ?thesis by (auto simp: writei_loop.simps in_range_def)
  next
    case False
    from less.prems(1-3) False obtain m a s1 s4 where m: "m = min (length src) (BSIZE - off mod BSIZE)"
      and bm: "bmap ip (off div BSIZE) s = Ok a s1" and g: "grown ip s s1" and bn: "off div BSIZE < MAXFILE"
      and hb: "has_block s1 ip (off div BSIZE)" and t: "touched ip s1 s4" and ic: "icache s4 = icache s1"
      and l: "writei_loop ip (off + m) (drop m src) s4 = Ok off' s'"
      by (rule writei_loop_step)
    have t04: "touched ip s s4" by (rule touched_trans [OF grownD(1) [OF g] t])
    have inv4: "fs_inv s4" and ok4: "inode_ok ip s4" using touchedD(1,3) [OF t04] less.prems(3) by auto
    have "off mod BSIZE < BSIZE" by simp
    then have "0 < m" using False m by simp
    then have lt: "length (drop m src) < length src" using False by simp
    have le: "off + m + length (drop m src) \<le> MAXFILE * BSIZE" using less.prems(4) m by simp
    note IH = less.hyps [OF lt l inv4 ok4 le]
    have sp: "in_range off (length src) bn \<longleftrightarrow> bn = off div BSIZE \<or> in_range (off + m) (length (drop m src)) bn" for bn
      using range_split [OF m] False by simp
    have t4': "touched ip s4 s'" using writei_loop_spec [OF l inv4 ok4 le] by blast
    have "has_block s' ip bn'" if "in_range off (length src) bn'" for bn'
      using that IH sp [of bn'] touched_has_block [OF t4' bn] touched_has_block [OF t bn hb] by auto
    moreover have "icache s' = icache s" if all: "\<forall>bn. in_range off (length src) bn \<longrightarrow> has_block s ip bn"
    proof -
      have "has_block s ip (off div BSIZE)" using all sp by blast
      then have "icache s1 = icache s" by (rule bmap_present [OF less.prems(2,3) _ bm])
      moreover have "has_block s4 ip bn'" if r: "in_range (off + m) (length (drop m src)) bn'" for bn'
      proof -
        have "bn' \<le> (off + m + length (drop m src) - 1) div BSIZE" using r unfolding in_range_def by blast
        also have "\<dots> < MAXFILE" using r le by (intro less_mult_imp_div_less) (auto simp: in_range_def)
        finally show ?thesis using touched_has_block [OF t04] all sp r by blast
      qed
      ultimately show ?thesis using IH ic by simp
    qed
    ultimately show ?thesis by blast
  qed
qed

text \<open>A file only depends on its own blocks.\<close>

lemma file_cong:
  assumes "\<And>x. x \<in> file_blocks c addrs \<Longrightarrow> c' x = c x"
  shows "blk_addr c' addrs bn = blk_addr c addrs bn"
    "bn < MAXFILE \<Longrightarrow> file_block c' addrs bn = file_block c addrs bn"
    "file_blocks c' addrs = file_blocks c addrs"
    "k < MAXFILE * BSIZE \<Longrightarrow> file_byte c' addrs k = file_byte c addrs k"
proof -
  have b: "blk_addr c' addrs m = blk_addr c addrs m" for m
    using assms [of "unat (addrs ! NDIRECT)"] by (auto simp: blk_addr_def file_blocks_def)
  then show "blk_addr c' addrs bn = blk_addr c addrs bn" .
  show f: "bn < MAXFILE \<Longrightarrow> file_block c' addrs bn = file_block c addrs bn" for bn
    using assms [of "unat (blk_addr c addrs bn)"] b by (auto simp: file_block_def file_blocks_def)
  show "file_blocks c' addrs = file_blocks c addrs" using b by (simp add: file_blocks_def)
  show "k < MAXFILE * BSIZE \<Longrightarrow> file_byte c' addrs k = file_byte c addrs k"
    using f [of "k div BSIZE"] by (simp add: file_byte_def less_mult_imp_div_less)
qed

lemma file_wf_cong:
  assumes "file_wf sb c addrs" "\<And>x. x \<in> file_blocks c addrs \<Longrightarrow> c' x = c x"
    "\<And>x. x < unat (sb_size sb) \<Longrightarrow> allocated sb c x \<Longrightarrow> allocated sb c' x"
  shows "file_wf sb c' addrs"
  using assms(1,3) file_cong(1) [OF assms(2)] by (auto simp: file_wf_def good_def)

text \<open>The bytes \<open>d\<close> after \<open>src\<close> has been written at \<open>off\<close>.\<close>

definition overwrite :: "nat \<Rightarrow> byte list \<Rightarrow> byte list \<Rightarrow> byte list" where
  "overwrite off src d = take off d @ src @ drop (off + length src) d"

lemma length_overwrite: "off \<le> length d \<Longrightarrow> length (overwrite off src d) = max (length d) (off + length src)"
  by (simp add: overwrite_def)

lemma nth_overwrite:
  "off \<le> length d \<Longrightarrow> k < max (length d) (off + length src) \<Longrightarrow>
   overwrite off src d ! k = (if off \<le> k \<and> k < off + length src then src ! (k - off) else d ! k)"
  by (auto simp: overwrite_def nth_append)

text \<open>Between \<open>s\<close> and \<open>s'\<close> the file at \<open>ip\<close> may have changed, together with its on-disk inode; all other
  inodes, in memory and on disk, and all other blocks in use are the same.\<close>

definition only_file :: "nat \<Rightarrow> 'a fsst_scheme \<Rightarrow> 'a fsst_scheme \<Rightarrow> bool" where
  "only_file ip s s' \<longleftrightarrow> fsb s' = fsb s \<and> length (icache s') = length (icache s) \<and>
     (\<forall>j. j \<noteq> ip \<longrightarrow> inode s' j = inode s j) \<and>
     (\<forall>n. n < unat (sb_ninodes (fsb s)) \<longrightarrow> n \<noteq> i_inum (inode s ip) \<longrightarrow> dinode_at (fsb s) (content s') n = dinode_at (fsb s) (content s) n) \<and>
     (\<forall>x. datastart (fsb s) \<le> x \<longrightarrow> x < unat (sb_size (fsb s)) \<longrightarrow> allocated (fsb s) (content s) x \<longrightarrow>
        x \<notin> file_blocks (content s) (i_addrs (inode s ip)) \<longrightarrow> content s' x = content s x) \<and>
     (\<forall>x < unat (sb_size (fsb s)). allocated (fsb s) (content s) x \<longrightarrow> allocated (fsb s) (content s') x) \<and>
     disk s' = disk s"

lemma iblock_low: "fs_inv s \<Longrightarrow> n < unat (sb_ninodes (fsb s)) \<Longrightarrow> IBLOCK n (fsb s) < unat (sb_bmapstart (fsb s))"
  using region_bounds(5,6) by blast

lemma touched_only_file:
  assumes t: "touched ip s s'" and inv: "fs_inv s"
  shows "only_file ip s s'"
proof -
  note D = touchedD [OF t]
  note F = file_frameD [OF D(6)]
  obtain bs where "fs_updated bs s s'" using D(4) by blast
  then have "disk s' = disk s" by (rule fs_updatedD)
  moreover have "dinode_at (fsb s) (content s') n = dinode_at (fsb s) (content s) n" if "n < unat (sb_ninodes (fsb s))" for n
    using F(6) [OF iblock_low [OF inv that]] by (simp add: dinode_at_def)
  ultimately show ?thesis unfolding only_file_def using D(2,5,8) F(4,5) by blast
qed

text \<open>Setting the size and writing the inode back, the end of \<^verbatim>\<open>writei\<close>.\<close>

lemma set_size_spec:
  assumes inv: "fs_inv s" and ok: "inode_ok ip s" and inum: "i_inum (inode s ip) < unat (sb_ninodes (fsb s))"
    and u: "iupdate ip (upd_inode ip (\<lambda>i. i\<lparr>i_size := z\<rparr>) s) = Ok u s'"
  shows "only_file ip s s'" "fs_inv s'" "inode_ok ip s'" "inode s' ip = (inode s ip)\<lparr>i_size := z\<rparr>"
    "k < MAXFILE * BSIZE \<Longrightarrow> file_byte (content s') (i_addrs (inode s ip)) k = file_byte (content s) (i_addrs (inode s ip)) k"
    "dinode_at (fsb s) (content s') (i_inum (inode s ip)) = inode_dinode (inode s' ip)" "1 \<le> lg_outstanding s"
    "blk_addr (content s') (i_addrs (inode s ip)) bn = blk_addr (content s) (i_addrs (inode s ip)) bn"
proof -
  define s2 where "s2 = upd_inode ip (\<lambda>i. i\<lparr>i_size := z\<rparr>) s"
  have ip: "ip < length (icache s)" and dev: "i_dev (inode s ip) = 1"
    and wf: "file_wf (fsb s) (content s) (i_addrs (inode s ip))" using ok by (auto simp: inode_ok_def)
  have i2: "inode s2 j = (if j = ip then (inode s ip)\<lparr>i_size := z\<rparr> else inode s j)" for j
    unfolding s2_def by (rule nth_upd_inode [OF ip])
  have f2: "fs_inv s2" "fsb s2 = fsb s" "content s2 = content s" "lg_outstanding s2 = lg_outstanding s" "disk s2 = disk s"
    "length (icache s2) = length (icache s)" using inv by (simp_all add: s2_def)
  have u2: "iupdate ip s2 = Ok u s'" using u by (simp add: s2_def)
  have p: "i_dev (inode s2 ip) = 1" "i_inum (inode s2 ip) < unat (sb_ninodes (fsb s2))" "length (i_addrs (inode s2 ip)) = NDIRECT + 1"
    using dev inum file_wfD(1) [OF wf] f2 i2 by simp_all
  note U = iupdate_spec [OF f2(1) p u2, unfolded f2]
  have ic: "icache s' = icache s2" and fb: "fsb s' = fsb s" using updated_fsst [OF U(1)] f2 by simp_all
  have d: "content s' x = content s x" if "datastart (fsb s) \<le> x" for x
  proof -
    have "x \<noteq> IBLOCK (i_inum (inode s2 ip)) (fsb s)" using iblock_low [OF inv inum] region_bounds(7) [OF inv] that i2 by simp
    then show ?thesis using updatedD(8) [OF U(1), of x] f2(3) by simp
  qed
  have fb_eq: "content s' x = content s x" if "x \<in> file_blocks (content s) (i_addrs (inode s ip))" for x
    by (rule d) (use file_wfD(6) [OF wf that] in blast)
  show "inode s' ip = (inode s ip)\<lparr>i_size := z\<rparr>" using ic i2 by simp
  show "fs_inv s'" by (rule U(2))
  show "inode_ok ip s'" unfolding inode_ok_def
    using ip dev ic i2 fb f2(6) file_wf_cong [OF wf fb_eq] U(4) by simp
  show "1 \<le> lg_outstanding s" by (rule U(5))
  show "only_file ip s s'" unfolding only_file_def
    using fb ic i2 U(3,4) d updatedD(4) [OF U(1)] f2(5,6) by simp
  show "dinode_at (fsb s) (content s') (i_inum (inode s ip)) = inode_dinode (inode s' ip)" using U(3) i2 ic by simp
  show "blk_addr (content s') (i_addrs (inode s ip)) bn = blk_addr (content s) (i_addrs (inode s ip)) bn"
    by (rule file_cong(1) [OF fb_eq])
  assume "k < MAXFILE * BSIZE"
  then show "file_byte (content s') (i_addrs (inode s ip)) k = file_byte (content s) (i_addrs (inode s ip)) k"
    by (intro file_cong(4) fb_eq)
qed

lemma only_file_trans:
  assumes st: "only_file ip s t" and tu: "only_file ip t u" and i: "i_inum (inode t ip) = i_inum (inode s ip)"
    and fr: "\<And>x. datastart (fsb s) \<le> x \<Longrightarrow> x < unat (sb_size (fsb s)) \<Longrightarrow> allocated (fsb s) (content s) x \<Longrightarrow>
       x \<notin> file_blocks (content s) (i_addrs (inode s ip)) \<Longrightarrow> x \<notin> file_blocks (content t) (i_addrs (inode t ip))"
  shows "only_file ip s u"
  using st tu i fr unfolding only_file_def by (simp (no_asm_simp)) (metis (no_types, lifting))

lemma file_data_overwrite:
  assumes z: "unat (i_size (inode s ip)) \<le> MAXFILE * BSIZE" and o: "off \<le> unat (i_size (inode s ip))"
    and le: "off + length src \<le> MAXFILE * BSIZE"
    and b: "\<forall>k < MAXFILE * BSIZE. file_byte (content s') (i_addrs (inode s' ip)) k =
       (if off \<le> k \<and> k < off + length src then src ! (k - off) else file_byte (content s) (i_addrs (inode s ip)) k)"
    and z': "unat (i_size (inode s' ip)) = max (unat (i_size (inode s ip))) (off + length src)"
  shows "file_data s' ip = overwrite off src (file_data s ip)"
proof (rule nth_equalityI)
  have o': "off \<le> length (file_data s ip)" using o by simp
  show "length (file_data s' ip) = length (overwrite off src (file_data s ip))"
    using z' length_overwrite [OF o'] by simp
  fix k assume "k < length (file_data s' ip)"
  then have k: "k < max (length (file_data s ip)) (off + length src)" using z' by simp
  then have "k < MAXFILE * BSIZE" using z le by simp
  moreover have "\<not> (off \<le> k \<and> k < off + length src) \<Longrightarrow> k < unat (i_size (inode s ip))" using k o by auto
  ultimately show "file_data s' ip ! k = overwrite off src (file_data s ip) ! k"
    unfolding nth_overwrite [OF o' k] using b k z' by (auto simp: file_data_def)
qed

lemma writei_spec:
  assumes inv: "fs_inv s" and ok: "inode_ok ip s" and ty: "i_type (inode s ip) \<noteq> T_DEV"
    and sz: "unat (i_size (inode s ip)) \<le> MAXFILE * BSIZE" and inum: "i_inum (inode s ip) < unat (sb_ninodes (fsb s))"
    and o: "unat off \<le> unat (i_size (inode s ip))" and le: "unat off + length src \<le> MAXFILE * BSIZE"
    and w: "writei ip src off s = Ok k s'"
  shows "k = int (length src)" "file_data s' ip = overwrite (unat off) src (file_data s ip)"
    "fs_inv s'" "inode_ok ip s'" "only_file ip s s'"
    "inode s' ip = (inode s ip)\<lparr>i_size := i_size (inode s' ip), i_addrs := i_addrs (inode s' ip)\<rparr>"
    "unat (i_size (inode s' ip)) \<le> MAXFILE * BSIZE"
    "\<exists>s1. writei_loop ip (unat off) src s = Ok (unat off + length src) s1 \<and> touched ip s s1 \<and>
       (if src \<noteq> [] \<and> unat off + length src > unat (i_size (inode s ip))
        then dinode_at (fsb s) (content s') (i_inum (inode s ip)) = inode_dinode (inode s' ip) \<and>
          i_addrs (inode s' ip) = i_addrs (inode s1 ip) \<and> (\<forall>bn. has_block s' ip bn = has_block s1 ip bn)
        else s' = s1)" (is ?loop)
proof -
  define n :: u32 where "n = of_nat (length src)"
  have lt: "length src < 2 ^ 32" "unat off + length src < 2 ^ 32" using le by simp_all
  have n: "unat n = length src" unfolding n_def by (rule unat_of_nat32) (use lt in simp)
  have no: "\<not> off > i_size (inode s ip)" "\<not> off + n < off" "\<not> unat (off + n) > MAXFILE * BSIZE"
    using o le lt n word_add_overflow [of off n] unat_add_no_overflow [of off n] by (simp_all add: word_less_nat_alt)
  have k0: "sint n = int (length src)" using sint_small [of n] n le by simp
  have n0: "n > 0 \<longleftrightarrow> src \<noteq> []" using n by (metis length_greater_0_conv word_less_nat_alt unat_0)
  from w no ty have "on (writei_loop ip (unat off) src s) (\<lambda>off s.
        on (if n > 0 \<and> off > unat (i_size (inode s ip)) then iupdate ip (upd_inode ip (\<lambda>i. i\<lparr>i_size := of_nat off\<rparr>) s)
            else Ok () s) (\<lambda>_ s. Ok (sint n) s)) = Ok k s'"
    unfolding writei_def n_def [symmetric] Let_def by simp
  then obtain off' s1 where l: "writei_loop ip (unat off) src s = Ok off' s1" and
    r: "on (if n > 0 \<and> off' > unat (i_size (inode s1 ip)) then iupdate ip (upd_inode ip (\<lambda>i. i\<lparr>i_size := of_nat off'\<rparr>) s1)
            else Ok () s1) (\<lambda>_ s. Ok (sint n) s) = Ok k s'" by (rule onE)
  from r obtain u where r': "(if n > 0 \<and> off' > unat (i_size (inode s1 ip)) then iupdate ip (upd_inode ip (\<lambda>i. i\<lparr>i_size := of_nat off'\<rparr>) s1)
            else Ok () s1) = Ok u s'" and k: "k = sint n" by (auto elim: onE)
  show "k = int (length src)" using k k0 by simp
  from writei_loop_spec [OF l inv ok le] have t: "touched ip s s1" and off': "off' = unat off + length src"
    and bytes: "\<forall>k < MAXFILE * BSIZE. file_byte (content s1) (i_addrs (inode s1 ip)) k =
       (if unat off \<le> k \<and> k < unat off + length src then src ! (k - unat off) else file_byte (content s) (i_addrs (inode s ip)) k)"
    by blast+
  note D = touchedD [OF t]
  have ip: "ip < length (icache s)" using ok by (simp add: inode_ok_def)
  note i1 = D(7) [OF ip]
  have z1: "i_size (inode s1 ip) = i_size (inode s ip)" "i_inum (inode s1 ip) = i_inum (inode s ip)"
    by (subst i1, simp)+
  note of1 = touched_only_file [OF t inv]
  have "file_data s' ip = overwrite (unat off) src (file_data s ip) \<and> fs_inv s' \<and> inode_ok ip s' \<and> only_file ip s s' \<and>
    inode s' ip = (inode s ip)\<lparr>i_size := i_size (inode s' ip), i_addrs := i_addrs (inode s' ip)\<rparr> \<and>
    unat (i_size (inode s' ip)) \<le> MAXFILE * BSIZE \<and> ?loop"
  proof (cases "src \<noteq> [] \<and> unat off + length src > unat (i_size (inode s ip))")
    case True
    then have it: "iupdate ip (upd_inode ip (\<lambda>i. i\<lparr>i_size := of_nat off'\<rparr>) s1) = Ok u s'" using r' n0 off' z1 by simp
    have inum1: "i_inum (inode s1 ip) < unat (sb_ninodes (fsb s1))" using inum z1 D(2) by simp
    note S = set_size_spec [OF D(1) D(3) [OF ok] inum1 it]
    have zz: "unat (of_nat off' :: u32) = off'" by (rule unat_of_nat32) (use off' lt in simp)
    have z': "unat (i_size (inode s' ip)) = max (unat (i_size (inode s ip))) (unat off + length src)"
      using S(4) zz off' True by simp
    have a': "i_addrs (inode s' ip) = i_addrs (inode s1 ip)" using S(4) by simp
    have "file_data s' ip = overwrite (unat off) src (file_data s ip)"
      by (rule file_data_overwrite [OF sz o le _ z']) (use bytes S(5) a' in simp)
    moreover have "only_file ip s s'"
      by (rule only_file_trans [OF of1 S(1) z1(2)]) (use file_frameD(4) [OF D(6)] in blast)
    moreover have "inode s' ip = (inode s ip)\<lparr>i_size := i_size (inode s' ip), i_addrs := i_addrs (inode s' ip)\<rparr>"
      unfolding S(4) by (subst i1) simp
    moreover have ?loop using l off' t True S(6,8) D(2) z1 a' by (simp add: has_block_def)
    ultimately show ?thesis using S(2,3) z' sz le by simp
  next
    case False
    then have e: "s' = s1" using r' n0 off' z1 by (auto split: if_splits)
    have z': "unat (i_size (inode s1 ip)) = max (unat (i_size (inode s ip))) (unat off + length src)"
      using False o z1 by auto
    have "file_data s1 ip = overwrite (unat off) src (file_data s ip)"
      by (rule file_data_overwrite [OF sz o le bytes z'])
    moreover have "inode s1 ip = (inode s ip)\<lparr>i_size := i_size (inode s1 ip), i_addrs := i_addrs (inode s1 ip)\<rparr>"
      unfolding z1 by (subst i1) simp
    moreover have ?loop using l off' t False e by auto
    ultimately show ?thesis using e D(1) D(3) [OF ok] of1 z1 sz by simp
  qed
  then show "file_data s' ip = overwrite (unat off) src (file_data s ip)"
    "fs_inv s'" "inode_ok ip s'" "only_file ip s s'"
    "inode s' ip = (inode s ip)\<lparr>i_size := i_size (inode s' ip), i_addrs := i_addrs (inode s' ip)\<rparr>"
    "unat (i_size (inode s' ip)) \<le> MAXFILE * BSIZE" ?loop by blast+
qed

lemma writei_error:
  assumes "i_type (inode s ip) \<noteq> T_DEV" "length src < 2 ^ 32"
    and "unat off > unat (i_size (inode s ip)) \<or> unat off + length src > MAXFILE * BSIZE"
  shows "writei ip src off s = Ok (-1) s"
proof -
  have n: "unat (of_nat (length src) :: u32) = length src" using assms(2) by (rule unat_of_nat32)
  show ?thesis
    using assms n word_add_overflow [of off "of_nat (length src)"] unat_add_no_overflow [of off "of_nat (length src)"]
    by (cases "2 ^ 32 \<le> unat off + length src") (auto simp: writei_def Let_def word_less_nat_alt)
qed

text \<open>A file without holes whose inode has been written back stays one: \<^verbatim>\<open>writei\<close> writes the inode back
  only when the size grows, which is enough since otherwise no block is allocated.\<close>

definition no_holes :: "'a fsst_scheme \<Rightarrow> nat \<Rightarrow> bool" where
  "no_holes s ip \<longleftrightarrow> (\<forall>bn. bn * BSIZE < unat (i_size (inode s ip)) \<longrightarrow> has_block s ip bn)"

definition synced :: "'a fsst_scheme \<Rightarrow> nat \<Rightarrow> bool" where
  "synced s ip \<longleftrightarrow> dinode_at (fsb s) (content s) (i_inum (inode s ip)) = inode_dinode (inode s ip)"

lemma in_range_block: "in_range off n bn \<Longrightarrow> bn * BSIZE < off + n"
proof -
  assume r: "in_range off n bn"
  then have "bn * BSIZE \<le> (off + n - 1) div BSIZE * BSIZE" by (intro mult_le_mono1) (simp add: in_range_def)
  also have "\<dots> \<le> off + n - 1" by simp
  finally have "bn * BSIZE \<le> off + n - 1" .
  moreover have "0 < n" using r by (simp add: in_range_def)
  ultimately show ?thesis by linarith
qed

lemma block_in_range: "off \<le> bn * BSIZE \<Longrightarrow> bn * BSIZE < off + n \<Longrightarrow> in_range off n bn"
  using div_le_mono [of off "bn * BSIZE" BSIZE] div_le_mono [of "bn * BSIZE" "off + n - 1" BSIZE] by (simp add: in_range_def)

lemma writei_synced:
  assumes inv: "fs_inv s" and ok: "inode_ok ip s" and ty: "i_type (inode s ip) \<noteq> T_DEV"
    and sz: "unat (i_size (inode s ip)) \<le> MAXFILE * BSIZE" and inum: "i_inum (inode s ip) < unat (sb_ninodes (fsb s))"
    and o: "unat off \<le> unat (i_size (inode s ip))" and le: "unat off + length src \<le> MAXFILE * BSIZE"
    and w: "writei ip src off s = Ok k s'" and nh: "no_holes s ip" and sy: "synced s ip"
  shows "no_holes s' ip" "synced s' ip"
proof -
  note W = writei_spec [OF inv ok ty sz inum o le w]
  obtain s1 where l: "writei_loop ip (unat off) src s = Ok (unat off + length src) s1" and t: "touched ip s s1"
    and fin: "if src \<noteq> [] \<and> unat off + length src > unat (i_size (inode s ip))
        then dinode_at (fsb s) (content s') (i_inum (inode s ip)) = inode_dinode (inode s' ip) \<and>
          i_addrs (inode s' ip) = i_addrs (inode s1 ip) \<and> (\<forall>bn. has_block s' ip bn = has_block s1 ip bn)
        else s' = s1" using W(8) by blast
  have B: "\<forall>bn. in_range (unat off) (length src) bn \<longrightarrow> has_block s1 ip bn"
    and C: "(\<forall>bn. in_range (unat off) (length src) bn \<longrightarrow> has_block s ip bn) \<Longrightarrow> icache s1 = icache s"
    using writei_loop_blocks [OF l inv ok le] by blast+
  have keep: "has_block s1 ip bn" if "bn * BSIZE < unat (i_size (inode s ip))" for bn
  proof (rule touched_has_block [OF t])
    show "has_block s ip bn" using nh that by (simp add: no_holes_def)
    show "bn < MAXFILE" using that sz by linarith
  qed
  have fb: "fsb s' = fsb s" using W(5) by (simp add: only_file_def)
  have len: "unat (i_size (inode s' ip)) = max (unat (i_size (inode s ip))) (unat off + length src)"
    using arg_cong [OF W(2), of length] length_overwrite [of "unat off" "file_data s ip" src] o by simp
  have iu: "i_inum (inode s' ip) = i_inum (inode s ip)" by (subst W(6)) simp
  show "no_holes s' ip" unfolding no_holes_def
  proof (intro allI impI)
    fix bn assume "bn * BSIZE < unat (i_size (inode s' ip))"
    then have "bn * BSIZE < unat (i_size (inode s ip)) \<or> in_range (unat off) (length src) bn"
      using len o block_in_range [of "unat off" bn "length src"] by (cases "unat off \<le> bn * BSIZE") (auto simp: less_max_iff_disj)
    then have "has_block s1 ip bn" using keep B by blast
    then show "has_block s' ip bn" using fin by (auto split: if_splits)
  qed
  show "synced s' ip"
  proof (cases "src \<noteq> [] \<and> unat off + length src > unat (i_size (inode s ip))")
    case True
    then show ?thesis using fin fb iu by (simp add: synced_def)
  next
    case False
    then have e: "s' = s1" using fin by auto
    have "has_block s ip bn" if r: "in_range (unat off) (length src) bn" for bn
    proof -
      have "src \<noteq> []" using r by (auto simp: in_range_def)
      then have "bn * BSIZE < unat (i_size (inode s ip))" using in_range_block [OF r] False by linarith
      then show ?thesis using nh by (simp add: no_holes_def)
    qed
    then have "icache s1 = icache s" using C by blast
    moreover have "content s1 (IBLOCK (i_inum (inode s ip)) (fsb s)) = content s (IBLOCK (i_inum (inode s ip)) (fsb s))"
      by (rule file_frameD(6) [OF touchedD(6) [OF t] iblock_low [OF inv inum]])
    ultimately show ?thesis using sy e fb by (simp add: synced_def dinode_at_def)
  qed
qed

end
