(* ===== verification/Fs_Total.thy ===== *)
theory Fs_Total
  imports Fs_Content
begin

text \<open>
  When the file system code returns: inside a transaction whose reservation covers the blocks it
  changes, and with free blocks left on the device, \<^verbatim>\<open>balloc\<close>, \<^verbatim>\<open>bmap\<close>, \<^verbatim>\<open>iupdate\<close>, \<^verbatim>\<open>readi\<close> and
  \<^verbatim>\<open>writei\<close> do not panic and do not wait. The account is the number of blocks in the log: \<open>room N F k\<close>
  says that at most \<open>k\<close> blocks outside the set \<open>F\<close> may still be added if the log is not to exceed
  \<open>N\<close> blocks.
\<close>

section \<open>Room in the log and in the buffer cache\<close>

definition room :: "nat \<Rightarrow> nat set \<Rightarrow> nat \<Rightarrow> 'a lst_scheme \<Rightarrow> bool" where
  "room N F k s \<longleftrightarrow> quiet s \<and> 1 \<le> lg_outstanding s \<and> finite F \<and> lockset s \<subseteq> F \<and>
     card (set (lg_lh s) \<union> F) + k \<le> N \<and> N < LOGSIZE \<and> int N < lg_size s - 1"

lemma roomD:
  assumes "room N F k s" "log_inv s"
  shows "card (lockset s \<union> dirtyset s) < NBUF" "length (lg_lh s) < LOGSIZE" "int (length (lg_lh s)) < lg_size s - 1"
    "1 \<le> lg_outstanding s" "quiet s"
proof -
  have R: "finite F" "lockset s \<subseteq> F" "card (set (lg_lh s) \<union> F) + k \<le> N" "N < LOGSIZE" "int N < lg_size s - 1"
    using assms(1) by (auto simp: room_def)
  have "lockset s \<union> dirtyset s \<subseteq> set (lg_lh s) \<union> F" using R(2) log_invD(8) [OF assms(2)] by auto
  then have "card (lockset s \<union> dirtyset s) \<le> card (set (lg_lh s) \<union> F)" using R(1) by (intro card_mono) auto
  then show "card (lockset s \<union> dirtyset s) < NBUF" using R by linarith
  have "length (lg_lh s) \<le> card (set (lg_lh s) \<union> F)"
    using card_mono [of "set (lg_lh s) \<union> F" "set (lg_lh s)"] R(1) distinct_card [OF log_invD(4) [OF assms(2)]] by auto
  then show "length (lg_lh s) < LOGSIZE" "int (length (lg_lh s)) < lg_size s - 1" using R by linarith+
qed (use assms(1) in \<open>auto simp: room_def\<close>)

lemma room_bread:
  assumes "room N F k s" "log_inv s" "b < disksize s" "b \<notin> lockset s"
  shows "\<exists>i s1. bread 1 b s = Ok i s1"
  using bread_total [OF log_invD(1) [OF assms(2)] roomD(5) [OF assms(1,2)] assms(3,4)] roomD(1) [OF assms(1,2)] by blast

lemma room_grow:
  assumes r: "room N F k s" and lh: "set (lg_lh s') = set (lg_lh s) \<union> bs" and l: "lockset s' \<subseteq> F"
    and q: "quiet s'" and o: "lg_outstanding s' = lg_outstanding s" "lg_size s' = lg_size s"
    and c: "card (bs - (set (lg_lh s) \<union> F)) + k' \<le> k"
  shows "room N F k' s'"
proof -
  have fin: "finite F" using r by (simp add: room_def)
  have e: "set (lg_lh s') \<union> F = (set (lg_lh s) \<union> F) \<union> (bs - (set (lg_lh s) \<union> F))" using lh by auto
  have "card (set (lg_lh s') \<union> F) \<le> card (set (lg_lh s) \<union> F) + card (bs - (set (lg_lh s) \<union> F))"
    unfolding e by (rule card_Un_le)
  then show ?thesis using r l q o c by (auto simp: room_def)
qed

lemma room_updated:
  assumes "room N F k s" "updated bs s s'" "card (bs - (set (lg_lh s) \<union> F)) + k' \<le> k"
  shows "room N F k' s'"
proof -
  note U = updatedD [OF assms(2)] and L = log_restD [OF updatedD(6) [OF assms(2)]]
  show ?thesis
    by (rule room_grow [OF assms(1) U(2) _ _ L(10,9) assms(3)]) (use assms(1) U(3,7) in \<open>auto simp: room_def\<close>)
qed

lemma room_mono: "room N F k s \<Longrightarrow> k' \<le> k \<Longrightarrow> room N F k' s"
  by (auto simp: room_def)

lemma room_bread_state:
  assumes r: "room N F k s" and inv: "log_inv s" and br: "bread 1 b s = Ok i s1" and b: "b \<in> set (lg_lh s) \<union> F"
  shows "room N (insert b F) k s1" "log_inv s1"
proof -
  note A = bread_spec [OF log_invD(1) [OF inv] br]
  note L = same_rest_lst [OF A(11)]
  have e: "set (lg_lh s1) \<union> insert b F = set (lg_lh s) \<union> F" using b L(6) by auto
  show "room N (insert b F) k s1"
    using r quiet_bread [OF log_invD(1) [OF inv] br] A(7) L e unfolding room_def by auto
  show "log_inv s1" by (rule log_inv_bread [OF inv br])
qed

lemma log_write_total:
  assumes "length (lg_lh s) < LOGSIZE" "int (length (lg_lh s)) < lg_size s - 1" "1 \<le> lg_outstanding s"
  shows "\<exists>s'. log_write i s = Ok () s'"
  using assms by (simp add: log_write_Ok)

text \<open>Changing a block one holds, and changing a block.\<close>

lemma bracket_modify_total:
  assumes inv: "log_inv s" and br: "bread 1 a s = Ok i s1" and up: "updated bs s1 s2"
    and nr: "a \<notin> log_region s" and len: "length (f (content s2 a)) = BSIZE" and r: "room N F k s2"
  shows "\<exists>s3 s'. log_write i (upd_data i f s2) = Ok () s3 \<and> brelse i s3 = Ok () s'"
proof -
  note B = bracket_held [OF inv br up]
  note bi = log_invD(1) [OF B(3)]
  note U = upd_data_spec [OF bi B(1), where f = f, OF len]
  define t where "t = upd_data i f s2"
  have T: "bio_inv t" "holds t i a" "content t = (content s2)(a := f (content s2 a))" "dirtyset t = dirtyset s2"
      "lockset t = lockset s2" "disk t = disk s2" "dwrites t = dwrites s2" "same_rest s2 t"
    using U(1-8) by (simp_all add: t_def)
  have invT: "log_inv t" by (rule log_inv_cong [OF B(3) T(1,8,4,6)])
  have nrT: "a \<notin> log_region t" using nr B(13) same_rest_lst [OF T(8)] by (simp add: log_region_def)
  obtain s3 where lw: "log_write i t = Ok () s3"
    using log_write_total [of t i] roomD(2-4) [OF r B(3)] same_rest_lst [OF T(8)] by auto
  note L = log_write_spec [OF invT T(2) nrT lw]
  have cl: "a \<in> dirtyset s3 \<or> content s3 a = disk s3 a" by (simp add: L)
  obtain z where "brelse i s3 = Ok () z"
    using brelse_spec [OF log_invD(1) [OF L(1)] L(2) cl] by metis
  with lw show ?thesis by (auto simp: t_def)
qed

lemma modify_total:
  assumes inv: "log_inv s" and r: "room N F k s" and b: "b < disksize s" "b \<notin> lockset s" "b \<notin> log_region s"
    and len: "length (f (content s b)) = BSIZE"
  obtains i s1 s2 s' where "bread 1 b s = Ok i s1" "log_write i (upd_data i f s1) = Ok () s2" "brelse i s2 = Ok () s'"
proof -
  obtain i s1 where br: "bread 1 b s = Ok i s1" using room_bread [OF r inv b(1,2)] by blast
  note A = bread_spec [OF log_invD(1) [OF inv] br]
  note L = same_rest_lst [OF A(11)]
  have inv1: "log_inv s1" by (rule log_inv_bread [OF inv br])
  have len1: "length (f (content s1 b)) = BSIZE" using len A(5) by simp
  note U = upd_data_spec [where f = f, OF A(1,2) len1]
  have invT: "log_inv (upd_data i f s1)" by (rule log_inv_cong [OF inv1 U(1,8,4,6)])
  have nrT: "b \<notin> log_region (upd_data i f s1)" using b(3) L same_rest_lst [OF U(8)] by (simp add: log_region_def)
  obtain s2 where lw: "log_write i (upd_data i f s1) = Ok () s2"
    using log_write_total [of "upd_data i f s1" i] roomD(2-4) [OF r inv] same_rest_lst [OF U(8)] L by auto
  note W = log_write_spec [OF invT U(2) nrT lw]
  have cl: "b \<in> dirtyset s2 \<or> content s2 b = disk s2 b" by (simp add: W)
  obtain z where "brelse i s2 = Ok () z"
    using brelse_spec [OF log_invD(1) [OF W(1)] W(2) cl] by metis
  with br lw show thesis by (rule that)
qed

section \<open>Allocating a block\<close>

definition bitmap :: "superblock \<Rightarrow> nat set" where
  "bitmap sb = (\<lambda>b. BBLOCK b sb) ` {..<unat (sb_size sb)}"

definition free_blocks :: "'a fsst_scheme \<Rightarrow> nat set" where
  "free_blocks s = {b. b < unat (sb_size (fsb s)) \<and> \<not> allocated (fsb s) (content s) b}"

text \<open>Only data blocks in use are locked.\<close>

definition locks_data :: "'a fsst_scheme \<Rightarrow> bool" where
  "locks_data s \<longleftrightarrow> (\<forall>x \<in> lockset s. datastart (fsb s) \<le> x \<and> x \<notin> free_blocks s)"

lemma finite_free_blocks [simp]: "finite (free_blocks s)"
  by (rule finite_subset [of _ "{..<unat (sb_size (fsb s))}"]) (auto simp: free_blocks_def)

lemma free_blocks_cong: "fsb s' = fsb s \<Longrightarrow> (\<And>b. b < unat (sb_size (fsb s)) \<Longrightarrow> allocated (fsb s) (content s') b = allocated (fsb s) (content s) b) \<Longrightarrow>
    free_blocks s' = free_blocks s"
  by (auto simp: free_blocks_def)

lemma size_disk: "fs_inv s \<Longrightarrow> b < unat (sb_size (fsb s)) \<Longrightarrow> b < disksize s"
  using fs_invD(3) by fastforce

lemma datastart_size: "fs_inv s \<Longrightarrow> b < datastart (fsb s) \<Longrightarrow> b < unat (sb_size (fsb s))"
  using fs_invD(2) by (fastforce simp: sb_ok_def)

lemma locks_data_read:
  assumes "fs_inv s" "updated {} s t" "locks_data s"
  shows "locks_data t" "free_blocks t = free_blocks s"
proof -
  show e: "free_blocks t = free_blocks s"
    using fs_inv_read(2) [OF assms(1,2)] updated_fsst(1) [OF assms(2)] by (intro free_blocks_cong) simp_all
  show "locks_data t" using assms(3) updatedD(3) [OF assms(2)] updated_fsst(1) [OF assms(2)] e by (simp add: locks_data_def)
qed

lemma bzero_total:
  assumes "log_inv s" "room N F k s" "b < disksize s" "b \<notin> lockset s" "b \<notin> log_region s"
  shows "\<exists>s'. bzero 1 b s = Ok () s'"
proof -
  obtain i s1 s2 s' where "bread 1 b s = Ok i s1" "log_write i (upd_data i (\<lambda>_. replicate BSIZE 0) s1) = Ok () s2" "brelse i s2 = Ok () s'"
    by (rule modify_total [OF assms, of "\<lambda>_. replicate BSIZE 0"]) simp_all
  then show ?thesis by (simp add: bzero_def)
qed

lemma balloc_scan_total:
  assumes "fs_inv s" "room N F (Suc k) s" "bitmap (fsb s) \<subseteq> F" "locks_data s"
    "\<And>b0. b0 \<in> set bs \<Longrightarrow> b0 mod BPB = 0 \<and> b0 < unat (sb_size (fsb s))"
    "\<exists>b0 \<in> set bs. \<exists>bi < BPB. b0 + bi \<in> free_blocks s"
  shows "\<exists>b s'. balloc_scan 1 bs s = Ok b s'"
  using assms
proof (induction bs arbitrary: s)
  case (Cons b0 bs)
  note inv = Cons.prems(1) and r = Cons.prems(2) and ld = Cons.prems(4)
  note I = fs_invD [OF inv] and L = region_bounds [OF inv]
  let ?m = "BBLOCK b0 (fsb s)"
  have b0: "b0 mod BPB = 0" "b0 < unat (sb_size (fsb s))" using Cons.prems(5) by simp_all
  have m: "?m < datastart (fsb s)" "?m \<notin> log_region s" using L(2,3) b0 by simp_all
  have mF: "?m \<in> F" using Cons.prems(3) b0(2) by (auto simp: bitmap_def)
  have mk: "?m < disksize s" "?m \<notin> lockset s" using size_disk [OF inv] datastart_size [OF inv] m(1) ld by (auto simp: locks_data_def)
  obtain i s1 where br: "bread 1 ?m s = Ok i s1" using room_bread [OF r I(1) mk] by blast
  have fsb1: "fsb s1 = fsb s" using log_rest_fsst [OF same_rest_log_rest [OF bread_spec(11) [OF I(5) br]]] by simp
  obtain t where t: "brelse i s1 = Ok () t" and T: "updated {} s t" "b_data (buf s1 i) = content s ?m" "content t = content s"
    by (rule read_spec [OF I(1) br])
  have al: "allocated (fsb s) (content s) (b0 + bi) = bm_test bi (content s ?m)" if "bi < BPB" for bi
  proof -
    obtain q where "b0 = BPB * q" using b0(1) by auto
    then show ?thesis using that by (simp add: allocated_def BBLOCK_def)
  qed
  show ?case
  proof (cases "first_index (\<lambda>bi. \<not> bm_test bi (b_data (buf s1 i))) (min BPB (unat (sb_size (fsb s1)) - b0))")
    case None
    have "\<not> (\<exists>bi < BPB. b0 + bi \<in> free_blocks s)"
      using None T(2) fsb1 al by (auto simp: first_index_None free_blocks_def)
    with Cons.prems(6) have ex: "\<exists>b0 \<in> set bs. \<exists>bi < BPB. b0 + bi \<in> free_blocks s" by simp
    note D = locks_data_read [OF inv T(1) ld]
    have "\<exists>b s'. balloc_scan 1 bs t = Ok b s'"
    proof (rule Cons.IH [OF fs_inv_read(1) [OF inv T(1)]])
      show "room N F (Suc k) t" by (rule room_updated [OF r T(1)]) simp
    qed (use Cons.prems(3,5) updated_fsst(1) [OF T(1)] D ex in auto)
    with None br t show ?thesis by simp
  next
    case (Some x)
    then have x: "x < BPB" "b0 + x < unat (sb_size (fsb s))" "\<not> bm_test x (content s ?m)"
      using T(2) fsb1 by (auto simp: first_index_Some)
    then have fr: "b0 + x \<in> free_blocks s" using al by (simp add: free_blocks_def)
    have ds: "datastart (fsb s) \<le> b0 + x" by (rule ccontr) (use fr I(4) [of "b0 + x"] in \<open>simp add: free_blocks_def\<close>)
    have len: "length (bm_set x (content s ?m)) = BSIZE" using length_content [OF I(5)] by simp
    obtain i' s1' s2 s3 where M: "bread 1 ?m s = Ok i' s1'" "log_write i' (upd_data i' (bm_set x) s1') = Ok () s2" "brelse i' s2 = Ok () s3"
      by (rule modify_total [where f = "bm_set x", OF I(1) r mk m(2) len])
    have e: "i' = i" "s1' = s1" using M(1) br by simp_all
    note U = modify_spec [where f = "bm_set x", OF I(1) M(1) m(2) len M(2,3)]
    have r3: "room N F k s3" by (rule room_updated [OF r U(1)]) (use mF in simp)
    have "\<exists>s'. bzero 1 (b0 + x) s3 = Ok () s'"
    proof (rule bzero_total [OF updatedD(1) [OF U(1)] r3])
      show "b0 + x < disksize s3" using size_disk [OF inv x(2)] updatedD(11) [OF U(1)] by simp
      show "b0 + x \<notin> lockset s3" using fr ld updatedD(3) [OF U(1)] by (auto simp: locks_data_def)
      show "b0 + x \<notin> log_region s3" using L(4) [OF ds] updatedD(12) [OF U(1)] by simp
    qed
    with Some M e show ?thesis by auto
  qed
qed simp

lemma balloc_total:
  assumes inv: "fs_inv s" and r: "room N F (Suc k) s" and bm: "bitmap (fsb s) \<subseteq> F" and l: "locks_data s"
    and free: "free_blocks s \<noteq> {}"
  obtains b s' where "balloc 1 s = Ok b s'" "balloc_post b s s'" "room N F k s'" "locks_data s'"
    "card (free_blocks s') + 1 = card (free_blocks s)"
proof -
  let ?bs = "map (\<lambda>k. k * BPB) [0..<(unat (sb_size (fsb s)) + (BPB - 1)) div BPB]"
  have b0: "b0 mod BPB = 0 \<and> b0 < unat (sb_size (fsb s))" if "b0 \<in> set ?bs" for b0
  proof -
    obtain q where q: "b0 = q * BPB" "q < (unat (sb_size (fsb s)) + (BPB - 1)) div BPB" using \<open>b0 \<in> set ?bs\<close> by auto
    then have "Suc q \<le> (unat (sb_size (fsb s)) + (BPB - 1)) div BPB" by simp
    then have "Suc q * BPB \<le> unat (sb_size (fsb s)) + (BPB - 1)" by (simp only: less_eq_div_iff_mult_less_eq)
    with q(1) show ?thesis by simp
  qed
  from free obtain f where f: "f \<in> free_blocks s" by blast
  then have fs: "f < unat (sb_size (fsb s))" by (simp add: free_blocks_def)
  have "f div BPB < (unat (sb_size (fsb s)) + (BPB - 1)) div BPB"
    using div_le_mono [of "f + BPB" "unat (sb_size (fsb s)) + (BPB - 1)" BPB] fs by simp
  then have "f div BPB * BPB \<in> set ?bs" by auto
  moreover have "f div BPB * BPB + f mod BPB \<in> free_blocks s" using f by simp
  moreover have "f mod BPB < BPB" by simp
  ultimately have ex: "\<exists>b0 \<in> set ?bs. \<exists>bi < BPB. b0 + bi \<in> free_blocks s" by blast
  from balloc_scan_total [OF inv r bm l b0 ex] obtain b s' where ok: "balloc 1 s = Ok b s'"
    unfolding balloc_def by blast
  note p = balloc_spec [OF inv ok]
  note P = balloc_postD [OF inv p]
  have bF: "BBLOCK b (fsb s) \<in> F" using bm P(2) by (auto simp: bitmap_def)
  have "{BBLOCK b (fsb s), b} - (set (lg_lh s) \<union> F) \<subseteq> {b}" using bF by auto
  then have "card ({BBLOCK b (fsb s), b} - (set (lg_lh s) \<union> F)) \<le> 1" using card_mono [of "{b}"] by fastforce
  then have r': "room N F k s'" by (intro room_updated [OF r P(5)]) simp
  have fb: "fsb s' = fsb s" by (rule updated_fsst [OF P(5)])
  have fe: "free_blocks s' = free_blocks s - {b}" using P(7) fb by (auto simp: free_blocks_def)
  have "b \<in> free_blocks s" using P(2,3) by (simp add: free_blocks_def)
  then have "card (free_blocks s') + 1 = card (free_blocks s)"
    using fe card_Suc_Diff1 [of "free_blocks s" b] by simp
  moreover have "locks_data s'" using l updatedD(3) [OF P(5)] fb fe by (simp add: locks_data_def)
  ultimately show thesis using ok p r' by (intro that)
qed

section \<open>The block map\<close>

text \<open>Room for \<open>k\<close> more blocks, in the log and on the device.\<close>

definition able :: "nat \<Rightarrow> nat set \<Rightarrow> nat \<Rightarrow> 'a fsst_scheme \<Rightarrow> bool" where
  "able N F k s \<longleftrightarrow> room N F k s \<and> bitmap (fsb s) \<subseteq> F \<and> k \<le> card (free_blocks s)"

lemma lg_size_upd_inode [simp]: "lg_size (upd_inode ip f s) = lg_size s"
  by (simp add: upd_inode_def)

lemma able_upd_inode [simp]: "able N F k (upd_inode ip f s) = able N F k s"
  by (simp add: able_def room_def free_blocks_def)

lemma balloc_able:
  assumes inv: "fs_inv s" and a: "able N F (Suc k) s" and l: "locks_data s"
  obtains b s' where "balloc 1 s = Ok b s'" "balloc_post b s s'" "able N F k s'"
proof -
  have "free_blocks s \<noteq> {}" using a by (auto simp: able_def)
  then obtain b s' where B: "balloc 1 s = Ok b s'" "balloc_post b s s'" "room N F k s'"
      "card (free_blocks s') + 1 = card (free_blocks s)"
    using balloc_total [OF inv _ _ l] a unfolding able_def by metis
  moreover have "fsb s' = fsb s" using B(2) updated_fsst(1) by (auto simp: balloc_post_def)
  ultimately show thesis using a by (intro that) (auto simp: able_def)
qed

lemma bmap_slot_able:
  assumes inv: "fs_inv s" and ok: "inode_ok ip s" and a: "able N F (Suc k) s" and l: "lockset s = {}"
  obtains (old) "i_addrs (inode s ip) ! j \<noteq> 0" "bmap_slot ip j s = Ok (unat (i_addrs (inode s ip) ! j)) s"
  | (new) b s' where "i_addrs (inode s ip) ! j = 0" "bmap_slot ip j s = Ok b s'" "able N F k s'" "b \<in> set (lg_lh s')" "lockset s' = {}"
      "i_addrs (inode s' ip) = (i_addrs (inode s ip))[j := of_nat b]" "set (lg_lh s) \<subseteq> set (lg_lh s')"
proof (cases "i_addrs (inode s ip) ! j = 0")
  case True
  have "locks_data s" using l by (simp add: locks_data_def)
  then obtain b s1 where b: "balloc 1 s = Ok b s1" "balloc_post b s s1" "able N F k s1" by (rule balloc_able [OF inv a])
  have u: "updated {BBLOCK b (fsb s), b} s s1" using b(2) by (simp add: balloc_post_def)
  show thesis
    using True b ok updatedD(2,3) [OF u] updated_fsst(2) [OF u] l
    by (intro new [of b "upd_inode ip (\<lambda>i. i\<lparr>i_addrs := (i_addrs i)[j := of_nat b]\<rparr>) s1"]) (auto simp: bmap_slot_def inode_ok_def nth_upd_inode)
qed (use old in \<open>simp add: bmap_slot_def\<close>)

lemma bmap_entry_able:
  assumes inv: "fs_inv s" and ok: "inode_ok ip s" and ab: "able N F (Suc k) s" and l: "lockset s = {}"
    and ind: "i_addrs (inode s ip) ! NDIRECT \<noteq> 0" "unat (i_addrs (inode s ip) ! NDIRECT) = ind" "ind \<in> set (lg_lh s) \<union> F"
  obtains a s' where "bmap_entry ip j ind s = Ok a s'" "updated {} s s'" "able N F (Suc k) s'"
    "get32 (content s ind) (4 * j) \<noteq> 0"
  | a s' where "bmap_entry ip j ind s = Ok a s'" "updated {ind, BBLOCK a (fsb s), a} s s'" "able N F k s'" "a \<in> set (lg_lh s')"
proof -
  note I = fs_invD [OF inv]
  have wf: "file_wf (fsb s) (content s) (i_addrs (inode s ip))" and dev: "i_dev (inode s ip) = 1" using ok by (auto simp: inode_ok_def)
  have "good (fsb s) (content s) (i_addrs (inode s ip) ! NDIRECT)" by (rule file_wfD(2) [OF wf ind(1)])
  then have g: "datastart (fsb s) \<le> ind" "ind < unat (sb_size (fsb s))" "ind \<notin> free_blocks s"
    using ind(2) by (auto simp: good_def free_blocks_def)
  have r: "room N F (Suc k) s" "bitmap (fsb s) \<subseteq> F" "Suc k \<le> card (free_blocks s)" using ab by (auto simp: able_def)
  obtain bp s1 where br: "bread 1 ind s = Ok bp s1" using room_bread [OF r(1) I(1) size_disk [OF inv g(2)]] l by auto
  note A = bread_spec [OF I(5) br]
  have inv1: "fs_inv s1" by (rule fs_inv_bread [OF inv br])
  have F1: "fsb s1 = fsb s" "icache s1 = icache s"
    using log_rest_fsst [OF same_rest_log_rest [OF A(11)]] by auto
  have dw: "b_data (buf s1 bp) = content s ind" by (rule A(3))
  show thesis
  proof (cases "get32 (content s ind) (4 * j) = 0")
    case False
    obtain z where z: "brelse bp s1 = Ok () z" and Z: "updated {} s z" "content z = content s" by (rule read_spec [OF I(1) br])
    have fb: "fsb z = fsb s" by (rule updated_fsst [OF Z(1)])
    have "able N F (Suc k) z"
      using room_updated [OF r(1) Z(1), of "Suc k"] r(2,3) fb Z(2) by (simp add: able_def free_blocks_def)
    then show thesis
      by (rule that(1) [rotated 2]) (use False br z dw dev Z(1) in \<open>simp_all add: bmap_entry_def Let_def\<close>)
  next
    case True
    note R = room_bread_state [OF r(1) I(1) br ind(3)]
    have fe: "free_blocks s1 = free_blocks s" using A(5) F1 by (simp add: free_blocks_def)
    have "able N (insert ind F) (Suc k) s1" using R r(2,3) F1 fe by (auto simp: able_def)
    moreover have "locks_data s1" using A(7) l g F1 fe by (simp add: locks_data_def)
    ultimately obtain b s2 where b: "balloc 1 s1 = Ok b s2" "balloc_post b s1 s2" "able N (insert ind F) k s2"
      by (rule balloc_able [OF inv1])
    note P = balloc_postD [OF inv1 b(2)]
    have nr: "ind \<notin> log_region s" by (rule region_bounds(4) [OF inv g(1)])
    have len: "length (put32 (4 * j) (of_nat b) (content s2 ind)) = BSIZE" using length_content [OF fs_invD(5) [OF P(4)]] by simp
    have "room N (insert ind F) k s2" using b(3) by (simp add: able_def)
    from bracket_modify_total [where f = "put32 (4 * j) (of_nat b)", OF I(1) br P(5) nr len this]
    obtain s3 s' where m: "log_write bp (upd_data bp (put32 (4 * j) (of_nat b)) s2) = Ok () s3" "brelse bp s3 = Ok () s'" by blast
    note M = bracket_modify [where f = "put32 (4 * j) (of_nat b)", OF I(1) br P(5) nr len m]
    have fb: "fsb s' = fsb s" by (rule updated_fsst [OF M(1)])
    have bF: "BBLOCK b (fsb s) \<in> F" using r(2) P(2) F1 by (auto simp: bitmap_def)
    have up: "updated {ind, BBLOCK b (fsb s), b} s s'" using M(1) F1 by simp
    have "{ind, BBLOCK b (fsb s), b} - (set (lg_lh s) \<union> F) \<subseteq> {b}" using bF ind(3) by auto
    then have "card ({ind, BBLOCK b (fsb s), b} - (set (lg_lh s) \<union> F)) \<le> 1" using card_mono [of "{b}"] by fastforce
    then have "room N F k s'" by (intro room_updated [OF r(1) up]) simp
    moreover have "free_blocks s' = free_blocks s2"
    proof -
      have "content s' (BBLOCK x (fsb s)) = content s2 (BBLOCK x (fsb s))" if "x < unat (sb_size (fsb s))" for x
        using M(2) region_bounds(3) [OF inv, of x] that g(1) by auto
      then show ?thesis using fb F1 updated_fsst(1) [OF P(5)] by (auto simp: free_blocks_def allocated_def)
    qed
    ultimately have "able N F k s'" using b(3) r(2) fb by (simp add: able_def)
    moreover have "b \<in> set (lg_lh s')" using updatedD(2) [OF up] by simp
    ultimately show thesis
      using True br b(1) m dw dev F1 up by (intro that(2)) (simp_all add: bmap_entry_def Let_def)
  qed
qed

text \<open>A missing indirect block costs one block more; an existing one is accounted for in \<open>F\<close> or is in the log.\<close>

definition ind_cost :: "nat \<Rightarrow> 'a fsst_scheme \<Rightarrow> nat" where
  "ind_cost ip s = (if i_addrs (inode s ip) ! NDIRECT = 0 then 1 else 0)"

definition ind_in :: "nat set \<Rightarrow> nat \<Rightarrow> 'a fsst_scheme \<Rightarrow> bool" where
  "ind_in F ip s \<longleftrightarrow> i_addrs (inode s ip) ! NDIRECT = 0 \<or> unat (i_addrs (inode s ip) ! NDIRECT) \<in> set (lg_lh s) \<union> F"

lemma ind_updated:
  assumes "updated bs s s'"
  shows "ind_cost ip s' = ind_cost ip s" "ind_in F ip s \<Longrightarrow> ind_in F ip s'"
  using updated_fsst(2) [OF assms] updatedD(2) [OF assms] by (auto simp: ind_cost_def ind_in_def)

lemma bmap_able:
  assumes inv: "fs_inv s" and ok: "inode_ok ip s" and bn: "bn < MAXFILE"
    and ab: "able N F (Suc k + ind_cost ip s) s" and l: "lockset s = {}" and i: "ind_in F ip s"
  obtains a s' where "bmap ip bn s = Ok a s'" "lockset s' = {}" "ind_in F ip s'"
    "able N F (Suc k + ind_cost ip s') s' \<or> able N F (k + ind_cost ip s') s' \<and> a \<in> set (lg_lh s')"
proof (cases "bn < NDIRECT")
  case True
  from ab have ab: "able N F (Suc (k + ind_cost ip s)) s" by simp
  from inv ok ab l show thesis
  proof (cases rule: bmap_slot_able [where j = bn])
    case old
    show thesis by (rule that [of "unat (i_addrs (inode s ip) ! bn)" s]) (use True old ab l i in \<open>simp_all add: bmap_def\<close>)
  next
    case (new b s')
    have e: "i_addrs (inode s' ip) ! NDIRECT = i_addrs (inode s ip) ! NDIRECT" using new(6) True by simp
    have "ind_cost ip s' = ind_cost ip s" "ind_in F ip s'" using e i new(7) by (auto simp: ind_cost_def ind_in_def)
    then show thesis by (intro that [of b s']) (use True new in \<open>simp_all add: bmap_def\<close>)
  qed
next
  case False
  note result = that
  define j where "j = bn - NDIRECT"
  have bm: "bmap ip bn s = on (bmap_slot ip NDIRECT s) (\<lambda>addr s. bmap_entry ip j addr s)"
    using False bn less_diff_conv2 [of NDIRECT bn NINDIRECT] by (simp add: bmap_def j_def)
  have entry: thesis if inv: "fs_inv t" and ok: "inode_ok ip t" and l: "lockset t = {}" and a: "able N F (Suc k) t"
    and ind: "i_addrs (inode t ip) ! NDIRECT \<noteq> 0" and i: "ind_in F ip t"
    and e: "bmap_slot ip NDIRECT s = Ok (unat (i_addrs (inode t ip) ! NDIRECT)) t" for t
  proof -
    have "unat (i_addrs (inode t ip) ! NDIRECT) \<in> set (lg_lh t) \<union> F" using i ind by (simp add: ind_in_def)
    from inv ok a l ind refl this show thesis
    proof (cases rule: bmap_entry_able [where j = j])
      case (1 a s')
      have c: "ind_cost ip s' = 0" "ind_in F ip s'" using ind_updated [OF 1(2)] i ind by (simp_all add: ind_cost_def)
      show thesis by (rule result [of a s']) (use 1 bm e c l updatedD(3) [OF 1(2)] in simp_all)
    next
      case (2 a s')
      have c: "ind_cost ip s' = 0" "ind_in F ip s'" using ind_updated [OF 2(2)] i ind by (simp_all add: ind_cost_def)
      show thesis by (rule result [of a s']) (use 2 bm e c l updatedD(3) [OF 2(2)] in simp_all)
    qed
  qed
  have ab': "able N F (Suc (k + ind_cost ip s)) s" using ab by simp
  from inv ok ab' l show thesis
  proof (cases rule: bmap_slot_able [where j = NDIRECT])
    case old
    then have "able N F (Suc k) s" using ab by (simp add: ind_cost_def)
    then show thesis by (rule entry [OF inv ok l]) (use old i in simp_all)
  next
    case (new b s')
    note S = bmap_slot_spec [OF inv ok order.refl new(2)]
    have "able N F (Suc k) s'" using new(1,3) by (simp add: ind_cost_def)
    then show thesis
      by (rule entry [OF grownD(2) [OF S(1)] grownD(3) [OF S(1) ok] new(5)]) (use S new(2,4) in \<open>simp_all add: ind_in_def\<close>)
  qed
qed

section \<open>Writing\<close>

text \<open>The number of blocks that \<open>n\<close> bytes at \<open>off\<close> touch.\<close>

definition span :: "nat \<Rightarrow> nat \<Rightarrow> nat" where
  "span off n = (if n = 0 then 0 else (off + n - 1) div BSIZE - off div BSIZE + 1)"

lemma span_step:
  assumes "m = min n (BSIZE - off mod BSIZE)" "n > 0"
  shows "span off n = Suc (span (off + m) (n - m))"
proof (cases "n \<le> BSIZE - off mod BSIZE")
  case True
  have "off mod BSIZE < BSIZE" by simp
  with True assms(2) have lt: "off mod BSIZE + (n - 1) < BSIZE" by linarith
  have e: "off div BSIZE * BSIZE + (off mod BSIZE + (n - 1)) = off + n - 1" using assms(2) by simp
  from block_off [OF lt, of "off div BSIZE"] have "(off + n - 1) div BSIZE = off div BSIZE" unfolding e by simp
  with True assms show ?thesis by (simp add: span_def)
next
  case False
  then have m: "m = BSIZE - off mod BSIZE" "m < n" using assms by auto
  have "off mod BSIZE < BSIZE" by simp
  moreover have "off = off div BSIZE * BSIZE + off mod BSIZE" by simp
  ultimately have "off + m = off div BSIZE * BSIZE + BSIZE" using m(1) by linarith
  then have d: "(off + m) div BSIZE = off div BSIZE + 1" by simp
  have "off + m \<le> off + n - 1" using m(2) by linarith
  then have "off div BSIZE + 1 \<le> (off + n - 1) div BSIZE" using div_le_mono [of "off + m" "off + n - 1" BSIZE] d by simp
  moreover have "off + m + (n - m) - 1 = off + n - 1" using m(2) by simp
  ultimately show ?thesis using d m(2) Suc_diff_Suc [of "off div BSIZE" "(off + n - 1) div BSIZE"] by (simp add: span_def)
qed

lemma able_write_block:
  assumes inv: "fs_inv s" and u: "updated {a} s s'" and ds: "datastart (fsb s) \<le> a"
    and ab: "able N F (Suc k) s \<or> able N F k s \<and> a \<in> set (lg_lh s)"
  shows "able N F k s'"
proof -
  have fb: "fsb s' = fsb s" by (rule updated_fsst [OF u])
  have "content s' (BBLOCK x (fsb s)) = content s (BBLOCK x (fsb s))" if "x < unat (sb_size (fsb s))" for x
    using updatedD(8) [OF u, of "BBLOCK x (fsb s)"] region_bounds(3) [OF inv, of x] that ds by auto
  then have fe: "free_blocks s' = free_blocks s" using fb by (auto simp: free_blocks_def allocated_def)
  have c: "card ({a} - (set (lg_lh s) \<union> F)) \<le> 1" using card_mono [of "{a}" "{a} - (set (lg_lh s) \<union> F)"] by simp
  from ab show ?thesis
  proof
    assume "able N F (Suc k) s"
    then show ?thesis using room_updated [OF _ u, of N F "Suc k" k] c fb fe by (simp add: able_def)
  next
    assume "able N F k s \<and> a \<in> set (lg_lh s)"
    then show ?thesis using room_updated [OF _ u, of N F k k] fb fe by (simp add: able_def)
  qed
qed

lemma writei_loop_total:
  assumes "fs_inv s" "inode_ok ip s" "off + length src \<le> MAXFILE * BSIZE" "lockset s = {}" "ind_in F ip s"
    "able N F (span off (length src) + ind_cost ip s) s"
  shows "\<exists>s'. writei_loop ip off src s = Ok (off + length src) s' \<and> lockset s' = {} \<and> able N F (ind_cost ip s') s'"
  using assms
proof (induction "length src" arbitrary: off src s rule: less_induct)
  case less
  note inv = less.prems(1) and ok = less.prems(2)
  show ?case
  proof (cases "src = []")
    case True
    with less.prems show ?thesis by (simp add: writei_loop.simps span_def)
  next
    case False
    define m where "m = min (length src) (BSIZE - off mod BSIZE)"
    have mp: "0 < m" "m \<le> length src" "m \<le> BSIZE - off mod BSIZE"
      using False mod_less_divisor [of BSIZE off] by (auto simp: m_def)
    define k where "k = span (off + m) (length src - m)"
    have sp: "span off (length src) = Suc k" unfolding k_def using False by (intro span_step [OF m_def]) simp
    have bn: "off div BSIZE < MAXFILE" using less.prems(3) False by (intro less_mult_imp_div_less) (cases src; simp)
    from bmap_able [OF inv ok bn less.prems(6) [unfolded sp] less.prems(4,5)]
    obtain a s1 where bm: "bmap ip (off div BSIZE) s = Ok a s1" and l1: "lockset s1 = {}" and i1: "ind_in F ip s1"
      and ab1: "able N F (Suc k + ind_cost ip s1) s1 \<or> able N F (k + ind_cost ip s1) s1 \<and> a \<in> set (lg_lh s1)" by blast
    note B = bmap_spec [OF inv ok bm]
    have inv1: "fs_inv s1" and ok1: "inode_ok ip s1" using grownD(2,3) [OF B(1)] ok by auto
    have dev: "i_dev (inode s1 ip) = 1" and wf1: "file_wf (fsb s1) (content s1) (i_addrs (inode s1 ip))"
      using ok1 by (simp_all add: inode_ok_def)
    have "good (fsb s1) (content s1) (of_nat a)" using file_wfD(3) [OF wf1 B(2)] B(3,4) by simp
    then have a: "datastart (fsb s1) \<le> a" "a < unat (sb_size (fsb s1))" using B(5) by (simp_all add: good_def)
    have nr: "a \<notin> log_region s1" using region_bounds(4) [OF inv1 a(1)] .
    have lc: "length (content s1 a) = BSIZE" by (rule length_content [OF fs_invD(5) [OF inv1]])
    have "off mod BSIZE < BSIZE" by simp
    then have len: "length (splice (off mod BSIZE) (take m src) (content s1 a)) = BSIZE"
      using lc mp by (subst length_splice) auto
    have r1: "room N F 0 s1" using ab1 room_mono [of N F _ s1 0] by (auto simp: able_def)
    obtain bp s2 s3 s4 where M: "bread 1 a s1 = Ok bp s2" "log_write bp (upd_data bp (splice (off mod BSIZE) (take m src)) s2) = Ok () s3" "brelse bp s3 = Ok () s4"
      by (rule modify_total [where f = "splice (off mod BSIZE) (take m src)", OF fs_invD(1) [OF inv1] r1 size_disk [OF inv1 a(2)] _ nr len])
         (simp add: l1)
    note U = modify_spec [where f = "splice (off mod BSIZE) (take m src)", OF fs_invD(1) [OF inv1] M(1) nr len M(2,3)]
    note T = touched_write_block [OF inv1 ok1 B(2-5) U(1,2)]
    have t04: "touched ip s s4" by (rule touched_trans [OF grownD(1) [OF B(1)] T(1)])
    have ab4: "able N F (k + ind_cost ip s4) s4"
      using able_write_block [OF inv1 U(1) a(1), of N F "k + ind_cost ip s1"] ab1 ind_updated(1) [OF U(1)] by simp
    have "\<exists>s'. writei_loop ip (off + m) (drop m src) s4 = Ok (off + m + length (drop m src)) s' \<and> lockset s' = {} \<and> able N F (ind_cost ip s') s'"
    proof (rule less.hyps)
      show "length (drop m src) < length src" using mp False by simp
      show "fs_inv s4" "inode_ok ip s4" using touchedD(1,3) [OF t04] ok by auto
      show "off + m + length (drop m src) \<le> MAXFILE * BSIZE" using less.prems(3) mp by simp
      show "lockset s4 = {}" using updatedD(3) [OF U(1)] l1 by simp
      show "ind_in F ip s4" by (rule ind_updated(2) [OF U(1) i1])
      show "able N F (span (off + m) (length (drop m src)) + ind_cost ip s4) s4" using ab4 by (simp add: k_def)
    qed
    then obtain s' where w: "writei_loop ip (off + m) (drop m src) s4 = Ok (off + length src) s'"
      and fin: "lockset s' = {}" "able N F (ind_cost ip s') s'" using mp by auto
    have "writei_loop ip off src s = Ok (off + length src) s'"
      using False bm M dev w by (subst writei_loop.simps) (simp add: Let_def m_def [symmetric])
    with fin show ?thesis by blast
  qed
qed

lemma iupdate_total:
  assumes inv: "fs_inv s" and r: "room N F k s" and l: "lockset s = {}" and dev: "i_dev (inode s ip) = 1"
    and inum: "i_inum (inode s ip) < unat (sb_ninodes (fsb s))"
  shows "\<exists>s'. iupdate ip s = Ok () s'"
proof -
  let ?i = "i_inum (inode s ip)" and ?di = "inode_dinode (inode s ip)"
  let ?b = "IBLOCK ?i (fsb s)"
  note L = region_bounds(5,6) [OF inv inum]
  have b: "?b < disksize s" using L(2) region_bounds(7) [OF inv] size_disk [OF inv datastart_size [OF inv]] by simp
  have len: "length (dinode_put (di_off ?i) ?di (content s ?b)) = BSIZE" using length_content [OF fs_invD(5) [OF inv]] by simp
  obtain bp s1 s2 s' where M: "bread 1 ?b s = Ok bp s1" "log_write bp (upd_data bp (dinode_put (di_off ?i) ?di) s1) = Ok () s2" "brelse bp s2 = Ok () s'"
    by (rule modify_total [where f = "dinode_put (di_off ?i) ?di", OF fs_invD(1) [OF inv] r b _ L(1) len]) (simp add: l)
  have "icache s1 = icache s"
    by (rule log_rest_fsst [OF same_rest_log_rest [OF bread_spec(11) [OF fs_invD(5) [OF inv] M(1)]]])
  then show ?thesis using M dev by (simp add: iupdate_def)
qed

definition file_ready :: "nat \<Rightarrow> 'a fsst_scheme \<Rightarrow> bool" where
  "file_ready ip s \<longleftrightarrow> fs_inv s \<and> inode_ok ip s \<and> i_type (inode s ip) \<noteq> T_DEV \<and>
     unat (i_size (inode s ip)) \<le> MAXFILE * BSIZE \<and> i_inum (inode s ip) < unat (sb_ninodes (fsb s))"

lemma writei_total:
  assumes f: "file_ready ip s" and l: "lockset s = {}" and i: "ind_in F ip s" and iF: "IBLOCK (i_inum (inode s ip)) (fsb s) \<in> F"
    and o: "unat off \<le> unat (i_size (inode s ip))" and le: "unat off + length src \<le> MAXFILE * BSIZE"
    and ab: "able N F (span (unat off) (length src) + ind_cost ip s) s"
  shows "\<exists>s'. writei ip src off s = Ok (int (length src)) s' \<and> room N F 0 s' \<and> log_inv s' \<and> lockset s' = {}"
proof -
  have inv: "fs_inv s" and ok: "inode_ok ip s" and ty: "i_type (inode s ip) \<noteq> T_DEV"
    and inum: "i_inum (inode s ip) < unat (sb_ninodes (fsb s))" using f by (simp_all add: file_ready_def)
  define n :: u32 where "n = of_nat (length src)"
  have lt: "length src < 2 ^ 32" "unat off + length src < 2 ^ 32" using le by simp_all
  have n: "unat n = length src" unfolding n_def by (rule unat_of_nat32) (use lt in simp)
  have no: "\<not> off > i_size (inode s ip)" "\<not> off + n < off" "\<not> unat (off + n) > MAXFILE * BSIZE"
    using o le lt n word_add_overflow [of off n] unat_add_no_overflow [of off n] by (simp_all add: word_less_nat_alt)
  have k0: "sint n = int (length src)" using sint_small [of n] n le by simp
  obtain s1 where w: "writei_loop ip (unat off) src s = Ok (unat off + length src) s1" and l1: "lockset s1 = {}"
    and ab1: "able N F (ind_cost ip s1) s1"
    using writei_loop_total [OF inv ok le l i ab] by blast
  have t: "touched ip s s1" using writei_loop_spec [OF w inv ok le] by blast
  note D = touchedD [OF t]
  have r1: "room N F 0 s1" using ab1 room_mono [of N F _ s1 0] by (auto simp: able_def)
  have ip: "ip < length (icache s)" and dev: "i_dev (inode s ip) = 1" using ok by (simp_all add: inode_ok_def)
  note i1 = D(7) [OF ip]
  have z1: "i_dev (inode s1 ip) = 1" "i_inum (inode s1 ip) = i_inum (inode s ip)" by (subst i1, simp add: dev)+
  have e: "writei ip src off s = on (if n > 0 \<and> unat off + length src > unat (i_size (inode s1 ip)) then
        iupdate ip (upd_inode ip (\<lambda>i. i\<lparr>i_size := of_nat (unat off + length src)\<rparr>) s1) else Ok () s1) (\<lambda>_ s. Ok (sint n) s)"
    using no ty w by (simp add: writei_def n_def [symmetric] Let_def)
  show ?thesis
  proof (cases "n > 0 \<and> unat off + length src > unat (i_size (inode s1 ip))")
    case False
    have "writei ip src off s = Ok (int (length src)) s1" unfolding e if_not_P [OF False] using k0 by simp
    then show ?thesis using r1 fs_invD(1) [OF D(1)] l1 by blast
  next
    case True
    define t where "t = upd_inode ip (\<lambda>i. i\<lparr>i_size := of_nat (unat off + length src)\<rparr>) s1"
    have ip1: "ip < length (icache s1)" using ip D(8) by simp
    have T: "fs_inv t" "room N F 0 t" "lockset t = {}" "i_dev (inode t ip) = 1" "i_inum (inode t ip) = i_inum (inode s ip)" "fsb t = fsb s"
      "length (i_addrs (inode t ip)) = NDIRECT + 1"
      using D(1,2) r1 l1 z1 ip1 D(3) [OF ok] by (simp_all add: t_def nth_upd_inode room_def inode_ok_def file_wf_def)
    obtain s' where u: "iupdate ip t = Ok () s'" using iupdate_total [OF T(1-4)] inum T(5,6) by auto
    note U = iupdate_spec [OF T(1,4) _ T(7) u]
    have up: "updated {IBLOCK (i_inum (inode s ip)) (fsb s)} t s'" using U(1) inum T(5,6) by simp
    have "room N F 0 s'" by (rule room_updated [OF T(2) up]) (use iF in simp)
    moreover have "writei ip src off s = Ok (int (length src)) s'" unfolding e if_P [OF True] using u k0 by (simp add: t_def)
    ultimately show ?thesis using updatedD(1,3) [OF up] T(3) by auto
  qed
qed

text \<open>The reservation of one operation, for a process that runs alone inside it.\<close>

definition op_ready :: "'a lst_scheme \<Rightarrow> bool" where
  "op_ready s \<longleftrightarrow> quiet s \<and> lockset s = {} \<and> 1 \<le> lg_outstanding s \<and>
     length (lg_lh s) + MAXOPBLOCKS \<le> LOGSIZE \<and> int LOGSIZE \<le> lg_size s"

lemma span_chunk:
  assumes "n \<le> 3 * BSIZE"
  shows "span off n \<le> 4"
proof -
  have "(off + n - 1) div BSIZE \<le> (off + BSIZE * 3) div BSIZE" using assms by (intro div_le_mono) simp
  also have "\<dots> = off div BSIZE + 3" by (subst div_mult_self2) simp_all
  finally have "(off + n - 1) div BSIZE - off div BSIZE \<le> 3" by linarith
  then show ?thesis by (simp add: span_def)
qed

lemma bitmap_one: "unat (sb_size sb) \<le> BPB \<Longrightarrow> bitmap sb \<subseteq> {unat (sb_bmapstart sb)}"
  by (auto simp: bitmap_def BBLOCK_def)

lemma op_ready_able:
  assumes op: "op_ready s" and inv: "log_inv s" and bm: "unat (sb_size (fsb s)) \<le> BPB" and n: "n \<le> 3 * BSIZE"
    and free: "5 \<le> card (free_blocks s)"
    and F: "F = {unat (sb_bmapstart (fsb s)), IBLOCK (i_inum (inode s ip)) (fsb s)} \<union>
      (if i_addrs (inode s ip) ! NDIRECT = 0 then {} else {unat (i_addrs (inode s ip) ! NDIRECT)})"
  shows "able (length (lg_lh s) + 7) F (span off n + ind_cost ip s) s" "ind_in F ip s"
proof -
  have "card F + ind_cost ip s \<le> 3" unfolding F ind_cost_def by (auto simp: card_insert_if)
  moreover have "card (set (lg_lh s) \<union> F) \<le> length (lg_lh s) + card F"
    using card_Un_le [of "set (lg_lh s)" F] card_length [of "lg_lh s"] by linarith
  ultimately have "card (set (lg_lh s) \<union> F) + (span off n + ind_cost ip s) \<le> length (lg_lh s) + 7"
    using span_chunk [OF n, of off] by linarith
  moreover have "span off n + ind_cost ip s \<le> card (free_blocks s)"
    using span_chunk [OF n, of off] free by (simp add: ind_cost_def)
  moreover have "finite F" by (simp add: F)
  moreover have "bitmap (fsb s) \<subseteq> F" using bitmap_one [OF bm] by (auto simp: F)
  ultimately show "able (length (lg_lh s) + 7) F (span off n + ind_cost ip s) s"
    using op by (simp add: able_def room_def op_ready_def)
  show "ind_in F ip s" by (simp add: ind_in_def F)
qed

lemma writei_op:
  assumes "file_ready ip s" "op_ready s" "unat (sb_size (fsb s)) \<le> BPB" "5 \<le> card (free_blocks s)"
    and "length src \<le> 3 * BSIZE" "unat off \<le> unat (i_size (inode s ip))" "unat off + length src \<le> MAXFILE * BSIZE"
  shows "\<exists>s'. writei ip src off s = Ok (int (length src)) s' \<and>
    file_data s' ip = overwrite (unat off) src (file_data s ip) \<and> only_file ip s s' \<and> file_ready ip s' \<and>
    length (lg_lh s') \<le> length (lg_lh s) + 7 \<and> quiet s' \<and> lockset s' = {} \<and>
    (no_holes s ip \<and> synced s ip \<longrightarrow> no_holes s' ip \<and> synced s' ip)"
proof -
  have f: "fs_inv s" "inode_ok ip s" "i_type (inode s ip) \<noteq> T_DEV" "unat (i_size (inode s ip)) \<le> MAXFILE * BSIZE"
    "i_inum (inode s ip) < unat (sb_ninodes (fsb s))" using assms(1) by (simp_all add: file_ready_def)
  define F where "F = {unat (sb_bmapstart (fsb s)), IBLOCK (i_inum (inode s ip)) (fsb s)} \<union>
      (if i_addrs (inode s ip) ! NDIRECT = 0 then {} else {unat (i_addrs (inode s ip) ! NDIRECT)})"
  note A = op_ready_able [OF assms(2) fs_invD(1) [OF f(1)] assms(3,5,4) F_def]
  have l: "lockset s = {}" using assms(2) by (simp add: op_ready_def)
  have "IBLOCK (i_inum (inode s ip)) (fsb s) \<in> F" by (simp add: F_def)
  from writei_total [OF assms(1) l A(2) this assms(6,7) A(1)]
  obtain s' where w: "writei ip src off s = Ok (int (length src)) s'" and r: "room (length (lg_lh s) + 7) F 0 s'"
    and inv: "log_inv s'" and l': "lockset s' = {}" by blast
  note W = writei_spec [OF f assms(6,7) w]
  have "length (lg_lh s') = card (set (lg_lh s'))" using distinct_card [OF log_invD(4) [OF inv]] by simp
  also have "\<dots> \<le> card (set (lg_lh s') \<union> F)" by (rule card_mono) (auto simp: F_def)
  also have "\<dots> \<le> length (lg_lh s) + 7" using r by (simp add: room_def)
  finally have len: "length (lg_lh s') \<le> length (lg_lh s) + 7" .
  have "i_type (inode s' ip) \<noteq> T_DEV" "i_inum (inode s' ip) < unat (sb_ninodes (fsb s'))"
    using f(3,5) W(5) by (subst W(6), simp add: only_file_def)+
  then have "file_ready ip s'" using W(3,4,7) by (simp add: file_ready_def)
  moreover have "no_holes s ip \<and> synced s ip \<longrightarrow> no_holes s' ip \<and> synced s' ip"
    using writei_synced [OF f assms(6,7) w] by blast
  ultimately show ?thesis using w W(2,5) len r l' by (auto simp: room_def)
qed


section \<open>Reading\<close>

text \<open>A process that reads blocks, not necessarily inside a transaction.\<close>

definition read_ready :: "'a lst_scheme \<Rightarrow> bool" where
  "read_ready s \<longleftrightarrow> quiet s \<and> lockset s = {} \<and> length (lg_lh s) < NBUF"

lemma read_ready_updated: "read_ready s \<Longrightarrow> updated {} s s' \<Longrightarrow> log_inv s \<Longrightarrow> read_ready s'"
  using updatedD(2,3,7) [of "{}" s s'] distinct_card [OF log_invD(4) [of s]] distinct_card [OF log_invD(4) [of s']] updatedD(1) [of "{}" s s']
  by (simp add: read_ready_def)

lemma read_total:
  assumes inv: "log_inv s" and r: "read_ready s" and b: "b < disksize s"
  obtains i s1 s' where "bread 1 b s = Ok i s1" "brelse i s1 = Ok () s'" "updated {} s s'" "b_data (buf s1 i) = content s b"
    "content s' = content s" "read_ready s'" "icache s1 = icache s"
proof -
  have "card (lockset s \<union> dirtyset s) < NBUF"
    using r log_invD(8) [OF inv] card_length [of "lg_lh s"] by (simp add: read_ready_def)
  then obtain i s1 where br: "bread 1 b s = Ok i s1"
    using bread_total [OF log_invD(1) [OF inv] _ b] r by (auto simp: read_ready_def)
  obtain s' where "brelse i s1 = Ok () s'" and u: "updated {} s s'" and "b_data (buf s1 i) = content s b" "content s' = content s"
    by (rule read_spec [OF inv br])
  moreover have "icache s1 = icache s"
    by (rule log_rest_fsst [OF same_rest_log_rest [OF bread_spec(11) [OF log_invD(1) [OF inv] br]]])
  ultimately show thesis using br read_ready_updated [OF r u inv] by (intro that)
qed

lemma bmap_read:
  assumes inv: "fs_inv s" and ok: "inode_ok ip s" and r: "read_ready s" and bn: "bn < MAXFILE" and h: "has_block s ip bn"
  obtains s' where "bmap ip bn s = Ok (unat (blk_addr (content s) (i_addrs (inode s ip)) bn)) s'" "updated {} s s'"
    "content s' = content s" "read_ready s'"
proof (cases "bn < NDIRECT")
  case True
  have "bmap ip bn s = Ok (unat (blk_addr (content s) (i_addrs (inode s ip)) bn)) s"
    using True h by (simp add: bmap_def bmap_slot_def blk_addr_def has_block_def)
  then show thesis using fs_invD(1) [OF inv] r by (intro that [of s]) simp_all
next
  case False
  let ?ind = "i_addrs (inode s ip) ! NDIRECT" and ?j = "bn - NDIRECT"
  have dev: "i_dev (inode s ip) = 1" and wf: "file_wf (fsb s) (content s) (i_addrs (inode s ip))" using ok by (simp_all add: inode_ok_def)
  from h False have nz: "?ind \<noteq> 0" "get32 (content s (unat ?ind)) (4 * ?j) \<noteq> 0"
    by (auto simp: has_block_def blk_addr_def split: if_splits)
  have "unat ?ind < disksize s" using file_wfD(2) [OF wf nz(1)] size_disk [OF inv] by (simp add: good_def)
  then obtain i s1 s' where R: "bread 1 (unat ?ind) s = Ok i s1" "brelse i s1 = Ok () s'" "updated {} s s'"
      "b_data (buf s1 i) = content s (unat ?ind)" "content s' = content s" "read_ready s'"
    using read_total [OF fs_invD(1) [OF inv] r] by metis
  have "?j < NINDIRECT" using False bn less_diff_conv2 [of NDIRECT bn NINDIRECT] by simp
  then have "bmap ip bn s = Ok (unat (blk_addr (content s) (i_addrs (inode s ip)) bn)) s'"
    using False R(1,2,4) nz dev by (simp add: bmap_def bmap_slot_def bmap_entry_def Let_def blk_addr_def)
  then show thesis using R(3,5,6) by (rule that)
qed

lemma readi_loop_total:
  assumes "fs_inv s" "inode_ok ip s" "read_ready s" "off + n \<le> MAXFILE * BSIZE" "\<And>bn. in_range off n bn \<Longrightarrow> has_block s ip bn"
  shows "\<exists>d s'. readi_loop ip off n dst s = Ok d s' \<and> updated {} s s' \<and> read_ready s'"
  using assms
proof (induction n arbitrary: off dst s rule: less_induct)
  case (less n)
  note inv = less.prems(1) and ok = less.prems(2)
  show ?case
  proof (cases "n = 0")
    case True
    with less.prems(3) fs_invD(1) [OF inv] show ?thesis by (simp add: readi_loop.simps)
  next
    case False
    define m where "m = min n (BSIZE - off mod BSIZE)"
    have mp: "0 < m" "m \<le> n" using False mod_less_divisor [of BSIZE off] by (auto simp: m_def)
    have bn: "off div BSIZE < MAXFILE" using less.prems(4) False by (intro less_mult_imp_div_less) simp
    have h: "has_block s ip (off div BSIZE)" by (rule less.prems(5) [OF range_first]) (use False in simp)
    let ?a = "unat (blk_addr (content s) (i_addrs (inode s ip)) (off div BSIZE))"
    obtain s1 where bm: "bmap ip (off div BSIZE) s = Ok ?a s1" and U1: "updated {} s s1" "content s1 = content s" "read_ready s1"
      by (rule bmap_read [OF inv ok less.prems(3) bn h])
    have inv1: "fs_inv s1" by (rule fs_inv_read(1) [OF inv U1(1)])
    have e1: "icache s1 = icache s" "fsb s1 = fsb s" using updated_fsst [OF U1(1)] by auto
    have dev: "i_dev (inode s1 ip) = 1" and wf: "file_wf (fsb s) (content s) (i_addrs (inode s ip))"
      using ok e1 by (simp_all add: inode_ok_def)
    have "?a < disksize s1" using file_wfD(3) [OF wf bn] h size_disk [OF inv1, of ?a] e1 by (simp add: has_block_def good_def)
    then obtain i s2 s3 where R: "bread 1 ?a s1 = Ok i s2" "brelse i s2 = Ok () s3" "updated {} s1 s3" "read_ready s3"
      using read_total [OF fs_invD(1) [OF inv1] U1(3)] by metis
    have U: "updated {} s s3" using updated_trans [OF U1(1) R(3)] by simp
    have e3: "icache s3 = icache s" "fsb s3 = fsb s" "content s3 = content s"
      using updated_fsst [OF U] fs_inv_read(2) [OF inv U] by auto
    have "\<exists>d s'. readi_loop ip (off + m) (n - m) (dst @ slice (off mod BSIZE) m (b_data (buf s2 i))) s3 = Ok d s' \<and> updated {} s3 s' \<and> read_ready s'"
    proof (rule less.IH)
      show "n - m < n" using mp False by simp
      show "fs_inv s3" by (rule fs_inv_read(1) [OF inv U])
      show "inode_ok ip s3" using ok e3 by (simp add: inode_ok_def)
      show "off + m + (n - m) \<le> MAXFILE * BSIZE" using less.prems(4) mp by simp
      show "has_block s3 ip b" if "in_range (off + m) (n - m) b" for b
        using less.prems(5) [of b] range_split [OF m_def, of b] that False e3 by (simp add: has_block_def)
    qed (rule R)
    then obtain d s' where w: "readi_loop ip (off + m) (n - m) (dst @ slice (off mod BSIZE) m (b_data (buf s2 i))) s3 = Ok d s'"
      and fin: "updated {} s3 s'" "read_ready s'" by blast
    have "readi_loop ip off n dst s = Ok d s'"
      using False bm R(1,2) dev w by (subst readi_loop.simps) (simp add: Let_def m_def [symmetric])
    with fin updated_trans [OF U fin(1)] show ?thesis by auto
  qed
qed

lemma readi_total:
  assumes f: "file_ready ip s" and r: "read_ready s" and nh: "no_holes s ip"
    and o: "unat off \<le> unat (i_size (inode s ip))" "unat off + unat n < 2 ^ 32"
  shows "\<exists>k d s'. readi ip off n s = Ok (k, d) s' \<and> updated {} s s' \<and> read_ready s'"
proof -
  have inv: "fs_inv s" and ok: "inode_ok ip s" and ty: "i_type (inode s ip) \<noteq> T_DEV"
    and sz: "unat (i_size (inode s ip)) \<le> MAXFILE * BSIZE" using f by (simp_all add: file_ready_def)
  let ?sz = "i_size (inode s ip)"
  define n' where "n' = (if off + n > ?sz then ?sz - off else n)"
  have "unat (?sz - off) = unat ?sz - unat off" using o by (intro unat_sub) (simp add: word_le_nat_alt)
  then have n': "unat n' = min (unat n) (unat ?sz - unat off)"
    using unat_add_no_overflow [OF o(2)] o by (auto simp: n'_def word_less_nat_alt)
  have le: "unat off + unat n' \<le> unat ?sz" using n' o by simp
  have hb: "has_block s ip bn" if "in_range (unat off) (unat n') bn" for bn
    using in_range_block [OF that] le nh by (simp add: no_holes_def)
  have "unat off + unat n' \<le> MAXFILE * BSIZE" using le sz by simp
  from readi_loop_total [OF inv ok r this hb] obtain d s' where
    l: "readi_loop ip (unat off) (unat n') [] s = Ok d s'" "updated {} s s'" "read_ready s'" by blast
  have "\<not> off > ?sz" "\<not> off + n < off" using o word_add_overflow [of off n] by (auto simp: word_less_nat_alt)
  with ty l(1) have "readi ip off n s = Ok (sint n', d) s'" by (simp add: readi_def Let_def n'_def [symmetric])
  with l show ?thesis by blast
qed

end
