(* ===== verification/Fs_Trunc.thy ===== *)
theory Fs_Trunc
  imports Fs_Total
begin

text \<open>
  Freeing blocks: \<^verbatim>\<open>bfree\<close> and \<^verbatim>\<open>itrunc\<close> return and give back exactly the blocks of the file.
\<close>

section \<open>Freeing one block\<close>

lemma bfree_total:
  assumes inv: "fs_inv s" and r: "room N F k s" and b: "datastart (fsb s) \<le> b" "b < unat (sb_size (fsb s))"
    and al: "allocated (fsb s) (content s) b" and bF: "BBLOCK b (fsb s) \<in> F" and l: "locks_data s"
  obtains s' where "bfree 1 b s = Ok () s'" "fs_inv s'" "updated {BBLOCK b (fsb s)} s s'" "room N F k s'"
    "free_blocks s' = insert b (free_blocks s)"
proof -
  let ?m = "BBLOCK b (fsb s)"
  note I = fs_invD [OF inv] and L = region_bounds [OF inv]
  have m: "?m < datastart (fsb s)" "?m \<notin> log_region s" using L(2,3) b by simp_all
  have mk: "?m < disksize s" "?m \<notin> lockset s"
    using size_disk [OF inv datastart_size [OF inv m(1)]] m(1) l by (auto simp: locks_data_def)
  have len: "length (bm_clear (b mod BPB) (content s ?m)) = BSIZE" using length_content [OF I(5)] by simp
  obtain i s1 s2 s' where M: "bread 1 ?m s = Ok i s1" "log_write i (upd_data i (bm_clear (b mod BPB)) s1) = Ok () s2" "brelse i s2 = Ok () s'"
    by (rule modify_total [where f = "bm_clear (b mod BPB)", OF I(1) r mk m(2) len])
  have "bm_test (b mod BPB) (b_data (buf s1 i))"
    using bread_spec(3) [OF I(5) M(1)] al by (simp add: allocated_def)
  then have ok: "bfree 1 b s = Ok () s'" using M by (simp add: bfree_def Let_def)
  note S = bfree_spec [OF inv ok b]
  have "room N F k s'" by (rule room_updated [OF r S(3)]) (use bF in simp)
  moreover have "free_blocks s' = insert b (free_blocks s)"
    using S(4) b(2) updated_fsst(1) [OF S(3)] by (auto simp: free_blocks_def)
  ultimately show thesis using ok S(2,3) by (intro that)
qed

text \<open>Between \<open>s\<close> and \<open>s'\<close> the blocks in \<open>A\<close> have been freed and nothing else on the device has changed.\<close>

definition freed :: "nat set \<Rightarrow> 'a fsst_scheme \<Rightarrow> 'a fsst_scheme \<Rightarrow> bool" where
  "freed A s s' \<longleftrightarrow> fs_inv s' \<and> (\<exists>bs. bs \<subseteq> bitmap (fsb s) \<and> fs_updated bs s s') \<and> free_blocks s' = free_blocks s \<union> A"

lemma freed_refl: "fs_inv s \<Longrightarrow> freed {} s s"
  using fs_updated_updated [OF updated_refl [OF fs_invD(1)]] by (auto simp: freed_def)

lemma freed_trans:
  assumes "freed A s t" "freed B t u"
  shows "freed (A \<union> B) s u"
proof -
  obtain bs cs where "bs \<subseteq> bitmap (fsb s)" "fs_updated bs s t" "cs \<subseteq> bitmap (fsb t)" "fs_updated cs t u"
    using assms by (auto simp: freed_def)
  then have "bs \<union> cs \<subseteq> bitmap (fsb s)" "fs_updated (bs \<union> cs) s u"
    using fs_updated_trans fs_updatedD(12) by fastforce+
  moreover have "free_blocks u = free_blocks s \<union> (A \<union> B)" "fs_inv u" using assms by (auto simp: freed_def)
  ultimately show ?thesis unfolding freed_def by blast
qed

lemma freedD:
  assumes "freed A s s'" "fs_inv s"
  shows "fs_inv s'" "fsb s' = fsb s" "free_blocks s' = free_blocks s \<union> A" "lockset s' = lockset s"
    "unat (sb_bmapstart (fsb s)) > x \<or> datastart (fsb s) \<le> x \<Longrightarrow> content s' x = content s x"
    "holds s j c \<Longrightarrow> holds s' j c" "disk s' = disk s"
proof -
  obtain bs where bs: "bs \<subseteq> bitmap (fsb s)" "fs_updated bs s s'" using assms(1) by (auto simp: freed_def)
  show "fs_inv s'" "fsb s' = fsb s" "free_blocks s' = free_blocks s \<union> A" "lockset s' = lockset s" "disk s' = disk s"
    "holds s j c \<Longrightarrow> holds s' j c"
    using assms(1) fs_updatedD(3,4,8,12) [OF bs(2)] by (auto simp: freed_def)
  assume "unat (sb_bmapstart (fsb s)) > x \<or> datastart (fsb s) \<le> x"
  moreover have "unat (sb_bmapstart (fsb s)) \<le> y \<and> y < datastart (fsb s)" if "y \<in> bs" for y
    using that bs(1) region_bounds(3,8) [OF assms(2)] by (auto simp: bitmap_def)
  ultimately have "x \<notin> bs" by fastforce
  then show "content s' x = content s x" by (rule fs_updatedD(7) [OF bs(2)])
qed

lemma freed_upd_inode:
  assumes "freed A s t"
  shows "freed A s (upd_inode ip f t)"
proof -
  obtain bs where bs: "bs \<subseteq> bitmap (fsb s)" "fs_updated bs s t" "fs_inv t" "free_blocks t = free_blocks s \<union> A"
    using assms by (auto simp: freed_def)
  have "fs_updated (bs \<union> {}) s (upd_inode ip f t)"
    by (rule fs_updated_trans [OF bs(2) fs_updated_upd_inode [OF fs_invD(1) [OF bs(3)]]])
  moreover have "free_blocks (upd_inode ip f t) = free_blocks t" by (simp add: free_blocks_def)
  ultimately show ?thesis unfolding freed_def using bs by auto
qed

lemma room_upd_inode [simp]: "room N F k (upd_inode ip f s) = room N F k s"
  by (simp add: room_def)

lemma bfree_freed:
  assumes inv: "fs_inv s" and r: "room N F k s" and bm: "bitmap (fsb s) \<subseteq> F" and b: "datastart (fsb s) \<le> b" "b < unat (sb_size (fsb s))"
    and al: "allocated (fsb s) (content s) b" and l: "locks_data s"
  obtains s' where "bfree 1 b s = Ok () s'" "freed {b} s s'" "room N F k s'" "icache s' = icache s"
    "\<exists>bs. bs \<subseteq> bitmap (fsb s) \<and> updated bs s s'"
proof -
  have B: "BBLOCK b (fsb s) \<in> bitmap (fsb s)" using b(2) by (auto simp: bitmap_def)
  then obtain s' where S: "bfree 1 b s = Ok () s'" "fs_inv s'" "updated {BBLOCK b (fsb s)} s s'" "room N F k s'"
    "free_blocks s' = insert b (free_blocks s)"
    using bfree_total [OF inv r b al _ l] bm by blast
  have "freed {b} s s'" using S(2,5) fs_updated_updated [OF S(3)] B by (auto simp: freed_def)
  then show thesis using S(1,3,4) updated_fsst(2) [OF S(3)] B by (intro that [of s']) auto
qed

section \<open>The direct blocks\<close>

lemma unat_zero_iff: "unat (x :: u32) = 0 \<longleftrightarrow> x = 0"
  by (simp add: unat_eq_0)

lemma itrunc_direct_total:
  assumes inv: "fs_inv s" and ok: "inode_ok ip s" and r: "room N F k s" and bm: "bitmap (fsb s) \<subseteq> F" and l: "lockset s = {}"
    and n: "n \<le> NDIRECT" and addrs: "i_addrs (inode s ip) = a"
  shows "\<exists>t. loop (itrunc_direct ip) [0..<n] s = Ok () t \<and> freed {unat (a ! j) | j. j < n \<and> a ! j \<noteq> 0} s t \<and> room N F k t \<and>
    icache t = (icache s)[ip := (inode s ip)\<lparr>i_addrs := replicate n 0 @ drop n a\<rparr>]"
  using n
proof (induction n)
  case 0
  have "(inode s ip)\<lparr>i_addrs := a\<rparr> = inode s ip" using addrs by (cases "inode s ip") simp
  then show ?case using freed_refl [OF inv] r by simp
next
  case (Suc n)
  then obtain t where t: "loop (itrunc_direct ip) [0..<n] s = Ok () t" and f: "freed {unat (a ! j) | j. j < n \<and> a ! j \<noteq> 0} s t"
    and rt: "room N F k t" and ic: "icache t = (icache s)[ip := (inode s ip)\<lparr>i_addrs := replicate n 0 @ drop n a\<rparr>]" by auto
  have wf: "file_wf (fsb s) (content s) a" and ip: "ip < length (icache s)" and dev: "i_dev (inode s ip) = 1"
    using ok addrs by (auto simp: inode_ok_def)
  note D = freedD [OF f inv]
  have la: "length a = NDIRECT + 1" by (rule file_wfD(1) [OF wf])
  then have nl: "n < length a" using Suc.prems by simp
  have an: "i_addrs (inode t ip) ! n = a ! n" "i_dev (inode t ip) = 1" using ic ip dev nl by (simp_all add: nth_append)
  have lt: "(replicate n 0 @ drop n a)[n := 0] = replicate (Suc n) 0 @ drop (Suc n) a"
    using nl by (simp add: list_update_append Cons_nth_drop_Suc [symmetric] replicate_append_same)
  show ?case
  proof (cases "a ! n = 0")
    case True
    have "replicate n 0 @ drop n a = replicate (Suc n) 0 @ drop (Suc n) a"
      using nl True by (simp add: Cons_nth_drop_Suc [symmetric] replicate_append_same)
    moreover have "{unat (a ! j) | j. j < Suc n \<and> a ! j \<noteq> 0} = {unat (a ! j) | j. j < n \<and> a ! j \<noteq> 0}"
      using True less_Suc_eq by auto
    moreover have "loop (itrunc_direct ip) [0..<Suc n] s = Ok () t"
      unfolding loop_Suc t using an True by (simp add: itrunc_direct_def)
    ultimately show ?thesis using f rt ic by auto
  next
    case False
    have nm: "n < MAXFILE" "n < NDIRECT" using Suc.prems by simp_all
    have ba: "blk_addr (content s) a j = a ! j" if "j < NDIRECT" for j using that by (simp add: blk_addr_def)
    have g: "good (fsb s) (content s) (a ! n)" using file_wfD(3) [OF wf nm(1)] ba nm(2) False by simp
    have "unat (a ! n) \<noteq> unat (a ! j)" if "j < n" for j
      using file_wfD(5) [OF wf nm(1), of j] ba [of n] ba [of j] that nm False by (simp add: word_unat_eq_iff)
    then have "unat (a ! n) \<notin> free_blocks t" using D(3) g by (auto simp: good_def free_blocks_def)
    then have al: "allocated (fsb t) (content t) (unat (a ! n))" using g D(2) by (auto simp: good_def free_blocks_def)
    have h: "bitmap (fsb t) \<subseteq> F" "datastart (fsb t) \<le> unat (a ! n)" "unat (a ! n) < unat (sb_size (fsb t))" "locks_data t"
      using bm D(2,4) g l by (simp_all add: good_def locks_data_def)
    obtain u where u: "bfree 1 (unat (a ! n)) t = Ok () u" "freed {unat (a ! n)} t u" "room N F k u" "icache u = icache t"
      by (rule bfree_freed [OF D(1) rt h(1-3) al h(4)])
    let ?v = "upd_inode ip (\<lambda>i. i\<lparr>i_addrs := (i_addrs i)[n := 0]\<rparr>) u"
    have "loop (itrunc_direct ip) [0..<Suc n] s = Ok () ?v"
      unfolding loop_Suc t using u(1) an False by (simp add: itrunc_direct_def)
    moreover have "freed ({unat (a ! j) | j. j < n \<and> a ! j \<noteq> 0} \<union> {unat (a ! n)}) s ?v"
      by (rule freed_upd_inode [OF freed_trans [OF f u(2)]])
    moreover have "{unat (a ! j) | j. j < n \<and> a ! j \<noteq> 0} \<union> {unat (a ! n)} = {unat (a ! j) | j. j < Suc n \<and> a ! j \<noteq> 0}"
      using False less_Suc_eq by auto
    moreover have "icache ?v = (icache s)[ip := (inode s ip)\<lparr>i_addrs := replicate (Suc n) 0 @ drop (Suc n) a\<rparr>]"
      using u(4) ic ip lt by (simp add: upd_inode_def)
    ultimately show ?thesis using u(3) by auto
  qed
qed

section \<open>The indirect block\<close>

lemma itrunc_entries_total:
  assumes inv: "fs_inv s" and h: "holds s bp ind" and r: "room N F k s" and bm: "bitmap (fsb s) \<subseteq> F" and l: "lockset s = {ind}"
    and dev: "i_dev (inode s ip) = 1" and ind: "datastart (fsb s) \<le> ind" "ind \<notin> free_blocks s"
    and e: "\<And>j. e j = get32 (content s ind) (4 * j)"
    and g: "\<And>j. j < NINDIRECT \<Longrightarrow> e j \<noteq> 0 \<Longrightarrow> good (fsb s) (content s) (e j) \<and> unat (e j) \<noteq> ind"
    and d: "\<And>i j. i < NINDIRECT \<Longrightarrow> j < NINDIRECT \<Longrightarrow> i \<noteq> j \<Longrightarrow> e i \<noteq> 0 \<Longrightarrow> e i \<noteq> e j"
    and n: "n \<le> NINDIRECT"
  shows "\<exists>t. loop (itrunc_entry ip bp) [0..<n] s = Ok () t \<and> freed {unat (e j) | j. j < n \<and> e j \<noteq> 0} s t \<and> room N F k t \<and>
    (\<exists>bs. updated bs s t)"
  using n
proof (induction n)
  case 0
  then show ?case using freed_refl [OF inv] r updated_refl [OF fs_invD(1) [OF inv]] by auto
next
  case (Suc n)
  then obtain t bs where t: "loop (itrunc_entry ip bp) [0..<n] s = Ok () t" and f: "freed {unat (e j) | j. j < n \<and> e j \<noteq> 0} s t"
    and rt: "room N F k t" and ut: "updated bs s t" by auto
  note D = freedD [OF f inv]
  have "b_data (buf t bp) = content t ind" using holdsD(4) [OF fs_invD(5) [OF D(1)] D(6) [OF h]] by simp
  then have en: "get32 (b_data (buf t bp)) (4 * n) = e n" using D(5) [of ind] ind(1) e by simp
  have dv: "i_dev (inode t ip) = 1" using dev updated_fsst(2) [OF ut] by simp
  show ?case
  proof (cases "e n = 0")
    case True
    have "{unat (e j) | j. j < Suc n \<and> e j \<noteq> 0} = {unat (e j) | j. j < n \<and> e j \<noteq> 0}"
      using True less_Suc_eq by auto
    moreover have "loop (itrunc_entry ip bp) [0..<Suc n] s = Ok () t"
      unfolding loop_Suc t using en True by (simp add: itrunc_entry_def)
    ultimately show ?thesis using f rt ut by auto
  next
    case False
    have n: "n < NINDIRECT" using Suc.prems by simp
    have gn: "good (fsb s) (content s) (e n)" "unat (e n) \<noteq> ind" using g [OF n False] by auto
    have "unat (e n) \<noteq> unat (e j)" if "j < n" for j
      using d [OF n, of j] that n False by (simp add: word_unat_eq_iff)
    then have "unat (e n) \<notin> free_blocks t" using D(3) gn by (auto simp: good_def free_blocks_def)
    then have al: "allocated (fsb t) (content t) (unat (e n))" using gn D(2) by (auto simp: good_def free_blocks_def)
    have "ind \<notin> {unat (e j) | j. j < n \<and> e j \<noteq> 0}"
    proof
      assume "ind \<in> {unat (e j) | j. j < n \<and> e j \<noteq> 0}"
      then obtain j where "j < n" "e j \<noteq> 0" "unat (e j) = ind" by blast
      then show False using g [of j] n by simp
    qed
    then have h': "bitmap (fsb t) \<subseteq> F" "datastart (fsb t) \<le> unat (e n)" "unat (e n) < unat (sb_size (fsb t))" "locks_data t"
      using bm D(2,3,4) gn l ind by (simp_all add: good_def locks_data_def)
    obtain u where u: "bfree 1 (unat (e n)) t = Ok () u" "freed {unat (e n)} t u" "room N F k u"
      "\<exists>cs. cs \<subseteq> bitmap (fsb t) \<and> updated cs t u"
      by (rule bfree_freed [OF D(1) rt h'(1-3) al h'(4)])
    obtain cs where cs: "updated cs t u" using u(4) by blast
    have "loop (itrunc_entry ip bp) [0..<Suc n] s = Ok () u"
      unfolding loop_Suc t using u(1) en dv False by (simp add: itrunc_entry_def)
    moreover have "freed ({unat (e j) | j. j < n \<and> e j \<noteq> 0} \<union> {unat (e n)}) s u" by (rule freed_trans [OF f u(2)])
    moreover have "{unat (e j) | j. j < n \<and> e j \<noteq> 0} \<union> {unat (e n)} = {unat (e j) | j. j < Suc n \<and> e j \<noteq> 0}"
      using False less_Suc_eq by auto
    ultimately show ?thesis using u(3) updated_trans [OF ut cs] by auto
  qed
qed

lemma itrunc_indirect_total:
  assumes inv: "fs_inv s" and r: "room N F k s" and bm: "bitmap (fsb s) \<subseteq> F" and l: "lockset s = {}"
    and ip: "ip < length (icache s)" and dev: "i_dev (inode s ip) = 1" and iF: "ind \<in> F"
    and ind: "i_addrs (inode s ip) ! NDIRECT \<noteq> 0" "unat (i_addrs (inode s ip) ! NDIRECT) = ind" "good (fsb s) (content s) (i_addrs (inode s ip) ! NDIRECT)"
    and e: "\<And>j. e j = get32 (content s ind) (4 * j)"
    and g: "\<And>j. j < NINDIRECT \<Longrightarrow> e j \<noteq> 0 \<Longrightarrow> good (fsb s) (content s) (e j) \<and> unat (e j) \<noteq> ind"
    and d: "\<And>i j. i < NINDIRECT \<Longrightarrow> j < NINDIRECT \<Longrightarrow> i \<noteq> j \<Longrightarrow> e i \<noteq> 0 \<Longrightarrow> e i \<noteq> e j"
  shows "\<exists>t. on (bread (i_dev (inode s ip)) (unat (i_addrs (inode s ip) ! NDIRECT)) s) (\<lambda>bp s.
       on (loop (itrunc_entry ip bp) [0..<NINDIRECT] s) (\<lambda>_ s.
       on (brelse bp s) (\<lambda>_ s.
       on (bfree (i_dev (inode s ip)) (unat (i_addrs (inode s ip) ! NDIRECT)) s) (\<lambda>_ s.
       Ok () (upd_inode ip (\<lambda>i. i\<lparr>i_addrs := (i_addrs i)[NDIRECT := 0]\<rparr>) s))))) = Ok () t \<and>
     freed ({unat (e j) | j. j < NINDIRECT \<and> e j \<noteq> 0} \<union> {ind}) s t \<and> room N F k t \<and>
     icache t = (icache s)[ip := (inode s ip)\<lparr>i_addrs := (i_addrs (inode s ip))[NDIRECT := 0]\<rparr>]"
proof -
  let ?A = "{unat (e j) | j. j < NINDIRECT \<and> e j \<noteq> 0}"
  have i: "datastart (fsb s) \<le> ind" "ind < unat (sb_size (fsb s))" "allocated (fsb s) (content s) ind" "ind \<notin> free_blocks s"
    using ind by (auto simp: good_def free_blocks_def)
  obtain bp s1 where br: "bread 1 ind s = Ok bp s1"
    using room_bread [OF r fs_invD(1) [OF inv] size_disk [OF inv i(2)]] l by auto
  note A = bread_spec [OF fs_invD(5) [OF inv] br]
  have inv1: "fs_inv s1" by (rule fs_inv_bread [OF inv br])
  have F1: "fsb s1 = fsb s" "icache s1 = icache s" using log_rest_fsst [OF same_rest_log_rest [OF A(11)]] by auto
  have fe: "free_blocks s1 = free_blocks s" using A(5) F1 by (simp add: free_blocks_def)
  have r1: "room N F k s1" using room_bread_state(1) [OF r fs_invD(1) [OF inv] br] iF by (simp add: insert_absorb)
  have "\<exists>t. loop (itrunc_entry ip bp) [0..<NINDIRECT] s1 = Ok () t \<and> freed ?A s1 t \<and> room N F k t \<and> (\<exists>bs. updated bs s1 t)"
  proof (rule itrunc_entries_total [OF inv1 A(2) r1])
    show "bitmap (fsb s1) \<subseteq> F" "lockset s1 = {ind}" "i_dev (inode s1 ip) = 1" "datastart (fsb s1) \<le> ind" "ind \<notin> free_blocks s1"
      using bm A(7) l dev i F1 fe by simp_all
    show "e j = get32 (content s1 ind) (4 * j)" for j using e A(5) by simp
    show "good (fsb s1) (content s1) (e j) \<and> unat (e j) \<noteq> ind" if "j < NINDIRECT" "e j \<noteq> 0" for j
      using g [OF that] F1 A(5) by simp
  qed (use d in simp_all)
  then obtain u bs where u: "loop (itrunc_entry ip bp) [0..<NINDIRECT] s1 = Ok () u" "freed ?A s1 u" "room N F k u" "updated bs s1 u"
    by blast
  note D = freedD [OF u(2) inv1]
  obtain v where v: "brelse bp u = Ok () v" and V: "updated bs s v" "content v = content u"
    by (rule bracket_release [OF fs_invD(1) [OF inv] br u(4)])
  have Fv: "fsb v = fsb s" "icache v = icache s" using updated_fsst [OF V(1)] by auto
  have fv: "free_blocks v = free_blocks s \<union> ?A" using D(2,3) F1 fe V(2) Fv by (simp add: free_blocks_def)
  have "fs_inv v"
    using fs_invD(4) [OF D(1)] V(2) D(2) F1 by (intro fs_inv_cong [OF inv updatedD(1,6) [OF V(1)]]) simp
  have bsb: "\<exists>cs. cs \<subseteq> bitmap (fsb s) \<and> fs_updated cs s v"
  proof -
    obtain cs where cs: "cs \<subseteq> bitmap (fsb s1)" "fs_updated cs s1 u" using u(2) by (auto simp: freed_def)
    have "updated cs s v" unfolding updated_def
      using V(1) cs fs_updatedD(2,7) [OF cs(2)] updatedD(2) [OF V(1)] V(2) A(5) updatedD(2) [OF u(4)] same_rest_lst(6) [OF A(11)]
      by (auto simp: updated_def)
    then show ?thesis using cs(1) F1 fs_updated_updated [of cs s v] by auto
  qed
  have fr1: "freed ?A s v" using \<open>fs_inv v\<close> fv bsb by (simp add: freed_def)
  have rv: "room N F k v"
    using u(3) r updatedD(2,3,7) [OF V(1)] updatedD(2) [OF u(4)] same_rest_lst(6) [OF A(11)] log_restD(9,10) [OF updatedD(6) [OF V(1)]]
    by (simp add: room_def)
  have "ind \<notin> ?A" using g by blast
  then have al: "allocated (fsb v) (content v) ind" using fv i Fv by (auto simp: free_blocks_def)
  have h: "bitmap (fsb v) \<subseteq> F" "datastart (fsb v) \<le> ind" "ind < unat (sb_size (fsb v))" "locks_data v"
    using bm Fv i updatedD(3) [OF V(1)] l by (simp_all add: locks_data_def)
  obtain w where w: "bfree 1 ind v = Ok () w" "freed {ind} v w" "room N F k w" "icache w = icache v"
    by (rule bfree_freed [OF \<open>fs_inv v\<close> rv h(1-3) al h(4)])
  let ?t = "upd_inode ip (\<lambda>i. i\<lparr>i_addrs := (i_addrs i)[NDIRECT := 0]\<rparr>) w"
  have "freed (?A \<union> {ind}) s ?t" by (rule freed_upd_inode [OF freed_trans [OF fr1 w(2)]])
  moreover have "icache ?t = (icache s)[ip := (inode s ip)\<lparr>i_addrs := (i_addrs (inode s ip))[NDIRECT := 0]\<rparr>]"
    using w(4) Fv by (simp add: upd_inode_def)
  ultimately show ?thesis using br u(1) v w(1,3) dev ind(2) Fv F1 by auto
qed

section \<open>The whole file\<close>

lemma ex_less_add: "(\<exists>k < m + n. P k) \<longleftrightarrow> (\<exists>j < m. P j) \<or> (\<exists>j < n. P (m + j))" for m n :: nat
proof
  assume "\<exists>k < m + n. P k"
  then obtain k where k: "k < m + n" "P k" by blast
  show "(\<exists>j < m. P j) \<or> (\<exists>j < n. P (m + j))"
  proof (cases "k < m")
    case False
    then have "k - m < n" "P (m + (k - m))" using k by auto
    then show ?thesis by blast
  qed (use k in blast)
qed (use trans_less_add1 nat_add_left_cancel_less in blast)

lemma itrunc_total:
  assumes f: "file_ready ip s" and r: "room N F k s" and bm: "bitmap (fsb s) \<subseteq> F" and l: "lockset s = {}"
    and iF: "IBLOCK (i_inum (inode s ip)) (fsb s) \<in> F" and ind: "ind_in F ip s" "set (lg_lh s) \<subseteq> F"
  shows "\<exists>s'. itrunc ip s = Ok () s' \<and> fs_inv s' \<and> room N F k s' \<and> lockset s' = {} \<and> fsb s' = fsb s \<and>
    free_blocks s' = free_blocks s \<union> file_blocks (content s) (i_addrs (inode s ip)) \<and>
    icache s' = (icache s)[ip := (inode s ip)\<lparr>i_addrs := replicate 13 0, i_size := 0\<rparr>] \<and>
    (\<forall>x. datastart (fsb s) \<le> x \<longrightarrow> content s' x = content s x) \<and>
    (\<forall>n < unat (sb_ninodes (fsb s)). dinode_at (fsb s) (content s') n =
       (if n = i_inum (inode s ip) then inode_dinode (inode s' ip) else dinode_at (fsb s) (content s) n))"
proof -
  have inv: "fs_inv s" and ok: "inode_ok ip s" and inum: "i_inum (inode s ip) < unat (sb_ninodes (fsb s))"
    using f by (simp_all add: file_ready_def)
  define a where "a = i_addrs (inode s ip)"
  have wf: "file_wf (fsb s) (content s) a" and ip: "ip < length (icache s)" and dev: "i_dev (inode s ip) = 1"
    using ok by (auto simp: inode_ok_def a_def)
  have la: "length a = 13" using file_wfD(1) [OF wf] by simp
  let ?A = "{unat (a ! j) | j. j < NDIRECT \<and> a ! j \<noteq> 0}"
  obtain t where t: "loop (itrunc_direct ip) [0..<NDIRECT] s = Ok () t" and ft: "freed ?A s t" and rt: "room N F k t"
    and it: "icache t = (icache s)[ip := (inode s ip)\<lparr>i_addrs := replicate NDIRECT 0 @ drop NDIRECT a\<rparr>]"
    using itrunc_direct_total [OF inv ok r bm l order.refl a_def [symmetric]] by blast
  note D = freedD [OF ft inv]
  have dr: "replicate NDIRECT 0 @ drop NDIRECT a = replicate NDIRECT 0 @ [a ! NDIRECT]"
    using la Cons_nth_drop_Suc [of NDIRECT a] by simp
  have t12: "i_addrs (inode t ip) = replicate NDIRECT 0 @ [a ! NDIRECT]" "i_dev (inode t ip) = 1" "ip < length (icache t)"
    using it ip dev dr by simp_all
  define B where "B = (if a ! NDIRECT = 0 then {} else
     {unat (get32 (content s (unat (a ! NDIRECT))) (4 * j)) | j. j < NINDIRECT \<and> get32 (content s (unat (a ! NDIRECT))) (4 * j) \<noteq> 0} \<union> {unat (a ! NDIRECT)})"
  define rest where "rest = (if i_addrs (inode t ip) ! NDIRECT \<noteq> 0 then
           on (bread (i_dev (inode t ip)) (unat (i_addrs (inode t ip) ! NDIRECT)) t) (\<lambda>bp s.
           on (loop (itrunc_entry ip bp) [0..<NINDIRECT] s) (\<lambda>_ s.
           on (brelse bp s) (\<lambda>_ s.
           on (bfree (i_dev (inode s ip)) (unat (i_addrs (inode s ip) ! NDIRECT)) s) (\<lambda>_ s.
           Ok () (upd_inode ip (\<lambda>i. i\<lparr>i_addrs := (i_addrs i)[NDIRECT := 0]\<rparr>) s)))))
         else Ok () t)"
  have "\<exists>u. rest = Ok () u \<and> freed B t u \<and> room N F k u \<and> icache u = (icache s)[ip := (inode s ip)\<lparr>i_addrs := replicate 13 0\<rparr>]"
  proof (cases "a ! NDIRECT = 0")
    case True
    have "replicate NDIRECT 0 @ [a ! NDIRECT] = replicate 13 0" using True by (simp add: replicate_append_same numeral_eq_Suc)
    then show ?thesis using True freed_refl [OF D(1)] rt it dr t12 by (simp add: rest_def B_def)
  next
    case False
    define ind where "ind = unat (a ! NDIRECT)"
    define e where "e j = get32 (content s ind) (4 * j)" for j
    have be: "blk_addr (content s) a (NDIRECT + j) = e j" for j using False by (simp add: blk_addr_def e_def ind_def)
    have ba: "blk_addr (content s) a j = a ! j" if "j < NDIRECT" for j using that by (simp add: blk_addr_def)
    have gt: "good (fsb t) (content t) x" if "good (fsb s) (content s) x" "unat x \<notin> ?A" for x
      using that D(2,3) by (auto simp: good_def free_blocks_def)
    have gi: "good (fsb s) (content s) (a ! NDIRECT)" by (rule file_wfD(2) [OF wf False])
    have iA: "ind \<notin> ?A"
    proof
      assume "ind \<in> ?A"
      then obtain j where "j < NDIRECT" "a ! j \<noteq> 0" "unat (a ! j) = ind" by auto
      then show False using file_wfD(4) [OF wf, of j] ba [of j] by (simp add: ind_def word_unat_eq_iff)
    qed
    have t': "i_addrs (inode t ip) ! NDIRECT = a ! NDIRECT" using t12(1) by (simp add: nth_append)
    have ct: "content t ind = content s ind" using D(5) [of ind] gi by (simp add: good_def ind_def)
    have "\<exists>u. on (bread (i_dev (inode t ip)) (unat (i_addrs (inode t ip) ! NDIRECT)) t) (\<lambda>bp s.
       on (loop (itrunc_entry ip bp) [0..<NINDIRECT] s) (\<lambda>_ s.
       on (brelse bp s) (\<lambda>_ s.
       on (bfree (i_dev (inode s ip)) (unat (i_addrs (inode s ip) ! NDIRECT)) s) (\<lambda>_ s.
       Ok () (upd_inode ip (\<lambda>i. i\<lparr>i_addrs := (i_addrs i)[NDIRECT := 0]\<rparr>) s))))) = Ok () u \<and>
     freed ({unat (e j) | j. j < NINDIRECT \<and> e j \<noteq> 0} \<union> {ind}) t u \<and> room N F k u \<and>
     icache u = (icache t)[ip := (inode t ip)\<lparr>i_addrs := (i_addrs (inode t ip))[NDIRECT := 0]\<rparr>]"
    proof (rule itrunc_indirect_total [OF D(1) rt])
      show "bitmap (fsb t) \<subseteq> F" "lockset t = {}" using bm D(2,4) l by simp_all
      show "ip < length (icache t)" "i_dev (inode t ip) = 1" by (rule t12)+
      show "ind \<in> F" using ind False by (auto simp: ind_in_def ind_def a_def)
      show "i_addrs (inode t ip) ! NDIRECT \<noteq> 0" "unat (i_addrs (inode t ip) ! NDIRECT) = ind"
        "good (fsb t) (content t) (i_addrs (inode t ip) ! NDIRECT)"
        unfolding t' using False gt [OF gi] iA by (simp_all add: ind_def)
      show "e j = get32 (content t ind) (4 * j)" for j using ct by (simp add: e_def)
      show "good (fsb t) (content t) (e j) \<and> unat (e j) \<noteq> ind" if j: "j < NINDIRECT" "e j \<noteq> 0" for j
      proof
        have m: "NDIRECT + j < MAXFILE" "blk_addr (content s) a (NDIRECT + j) \<noteq> 0" using j be by simp_all
        show "unat (e j) \<noteq> ind" using file_wfD(4) [OF wf m] be by (simp add: ind_def word_unat_eq_iff)
        have "unat (e j) \<notin> ?A"
        proof
          assume "unat (e j) \<in> ?A"
          then obtain i where "i < NDIRECT" "a ! i \<noteq> 0" "unat (a ! i) = unat (e j)" by auto
          then show False using file_wfD(5) [OF wf m(1), of i] ba [of i] be [of j] j by (simp add: word_unat_eq_iff)
        qed
        then show "good (fsb t) (content t) (e j)" using gt file_wfD(3) [OF wf m] be by simp
      qed
      show "e i \<noteq> e j" if "i < NINDIRECT" "j < NINDIRECT" "i \<noteq> j" "e i \<noteq> 0" for i j
        using file_wfD(5) [OF wf, of "NDIRECT + i" "NDIRECT + j"] be that by simp
    qed
    moreover have "(replicate NDIRECT 0 @ [a ! NDIRECT])[NDIRECT := 0] = replicate 13 0"
      by (simp add: list_update_append replicate_append_same numeral_eq_Suc)
    ultimately show ?thesis using False t' it ip dr by (simp add: rest_def B_def e_def ind_def)
  qed
  then obtain u where u: "rest = Ok () u" and fu: "freed B t u" and ru: "room N F k u"
    and iu: "icache u = (icache s)[ip := (inode s ip)\<lparr>i_addrs := replicate 13 0\<rparr>]" by blast
  have fsu: "freed (?A \<union> B) s u" by (rule freed_trans [OF ft fu])
  note E = freedD [OF fsu inv]
  have fb: "?A \<union> B = file_blocks (content s) a"
  proof -
    have bn: "(\<exists>bn < MAXFILE. blk_addr (content s) a bn \<noteq> 0 \<and> x = unat (blk_addr (content s) a bn)) \<longleftrightarrow>
        (\<exists>j < NDIRECT. a ! j \<noteq> 0 \<and> x = unat (a ! j)) \<or>
        (\<exists>j < NINDIRECT. blk_addr (content s) a (NDIRECT + j) \<noteq> 0 \<and> x = unat (blk_addr (content s) a (NDIRECT + j)))" for x
    proof -
      have "(\<exists>j < NDIRECT. blk_addr (content s) a j \<noteq> 0 \<and> x = unat (blk_addr (content s) a j)) \<longleftrightarrow> (\<exists>j < NDIRECT. a ! j \<noteq> 0 \<and> x = unat (a ! j))"
        by (auto simp: blk_addr_def)
      then show ?thesis
        using ex_less_add [of NDIRECT NINDIRECT "\<lambda>bn. blk_addr (content s) a bn \<noteq> 0 \<and> x = unat (blk_addr (content s) a bn)"] by simp
    qed
    show ?thesis
      unfolding file_blocks_def B_def by (rule set_eqI) (use bn in \<open>auto simp: blk_addr_def\<close>)
  qed
  define v where "v = upd_inode ip (\<lambda>i. i\<lparr>i_size := 0\<rparr>) u"
  have i': "icache v = (icache s)[ip := (inode s ip)\<lparr>i_addrs := replicate 13 0, i_size := 0\<rparr>]"
    using iu ip by (simp add: v_def upd_inode_def)
  have V: "fs_inv v" "room N F k v" "lockset v = {}" "i_dev (inode v ip) = 1" "fsb v = fsb s" "content v = content u"
    "free_blocks v = free_blocks u" "i_inum (inode v ip) = i_inum (inode s ip)" "length (i_addrs (inode v ip)) = NDIRECT + 1"
    using E ru l dev ip i' by (simp_all add: v_def free_blocks_def)
  obtain s' where up: "iupdate ip v = Ok () s'"
    using iupdate_total [OF V(1-4)] inum V(5,8) by auto
  have inum': "i_inum (inode v ip) < unat (sb_ninodes (fsb v))" using inum V by simp
  note U = iupdate_spec [OF V(1,4) inum' V(9) up]
  have r': "room N F k s'" by (rule room_updated [OF V(2) U(1)]) (use iF V(5,8) in simp)
  have fr: "free_blocks s' = free_blocks s \<union> file_blocks (content s) a"
    using U(4) V(5,7) E(3) fb updated_fsst(1) [OF U(1)] by (auto simp: free_blocks_def)
  have ib: "IBLOCK (i_inum (inode v ip)) (fsb v) < unat (sb_bmapstart (fsb s))"
    using iblock_low [OF V(1) inum'] V(5) by simp
  have ct: "content s' x = content s x" if "datastart (fsb s) \<le> x" for x
    using updatedD(8) [OF U(1), of x] ib region_bounds(7) [OF inv] that V(6) E(5) [of x] by auto
  have da: "dinode_at (fsb s) (content v) n = dinode_at (fsb s) (content s) n" if "n < unat (sb_ninodes (fsb s))" for n
    using E(5) [of "IBLOCK n (fsb s)"] iblock_low [OF inv that] V(6) by (simp add: dinode_at_def)
  have is': "icache s' = icache v" by (rule updated_fsst [OF U(1)])
  have "itrunc ip s = Ok () s'"
    using t u up by (simp add: itrunc_def rest_def [symmetric] v_def)
  moreover have "\<forall>n < unat (sb_ninodes (fsb s)). dinode_at (fsb s) (content s') n =
       (if n = i_inum (inode s ip) then inode_dinode (inode s' ip) else dinode_at (fsb s) (content s) n)"
    using U(3) V(5,8) da is' by simp
  ultimately show ?thesis
    using U(2) r' updatedD(3) [OF U(1)] V(3) updated_fsst(1) [OF U(1)] V(5) fr i' is' ct by (simp add: a_def)
qed

end
