(* ===== verification/Kernel_Example.thy ===== *)
theory Kernel_Example
  imports Trap Fs_Trunc Examples
begin

text \<open>
  A concrete kernel on which the theorems about the file system, the processes and the system
  calls are applied: a device with a small file system, one file open, five processes.
\<close>

section \<open>The device\<close>

text \<open>1000 blocks: the log in blocks 2 to 31, 200 inodes from block 32, the free map in block 58, data
  from block 59. Block 59 is in use.\<close>

definition ex_sb :: superblock where
  "ex_sb = \<lparr>sb_size = 1000, sb_nblocks = 941, sb_ninodes = 200, sb_nlog = 30, sb_logstart = 2,
     sb_inodestart = 32, sb_bmapstart = 58\<rparr>"

definition ex_bits :: "byte list" where
  "ex_bits = replicate 7 255 @ [15] @ replicate 504 0"

text \<open>Inode 5, in block 32, is a file of 100 bytes in block 59; the process has it locked.\<close>

definition ex_inode :: inode where
  "ex_inode = \<lparr>i_dev = 1, i_inum = 5, i_ref = 1, i_lock = \<lparr>sl_locked = True, sl_pid = 2\<rparr>, i_valid = True, i_type = T_FILE,
     i_major = 0, i_minor = 0, i_nlink = 1, i_size = 100, i_addrs = 59 # replicate 12 0\<rparr>"

definition ex_disk :: "nat \<Rightarrow> byte list" where
  "ex_disk = (\<lambda>_. replicate BSIZE 0)(58 := ex_bits, 59 := replicate BSIZE 65,
     32 := dinode_put (di_off 5) (inode_dinode ex_inode) (replicate BSIZE 0))"

definition ex_noinode :: inode where
  "ex_noinode = \<lparr>i_dev = 0, i_inum = 0, i_ref = 0, i_lock = initsleeplock, i_valid = False, i_type = 0,
     i_major = 0, i_minor = 0, i_nlink = 0, i_size = 0, i_addrs = replicate 13 0\<rparr>"

text \<open>The root directory, the working directory of the process.\<close>

definition ex_dir :: inode where
  "ex_dir = ex_inode\<lparr>i_inum := 1, i_ref := 2, i_lock := initsleeplock, i_type := T_DIR, i_size := 0, i_addrs := replicate 13 0\<rparr>"

section \<open>The state\<close>

definition ex_k :: kst where
  "ex_k = \<lparr>ptable = (replicate NPROC (ex_proc 0 UNUSED))[0 := (ex_proc 1 SLEEPING)\<lparr>p_chan := Some (ChanProc 0)\<rparr>,
       1 := (ex_proc 2 RUNNING)\<lparr>p_parent := Some 0, p_kstack := 0x80700000, p_pgdir := 0x80701000, p_sz := 4096, p_cwd := Some 1\<rparr>,
       2 := (ex_proc 3 RUNNABLE)\<lparr>p_parent := Some 1, p_kstack := 0x80702000, p_pgdir := 0x80703000\<rparr>,
       3 := (ex_proc 4 ZOMBIE)\<lparr>p_parent := Some 1, p_kstack := 0x80706000, p_pgdir := 0x80707000\<rparr>,
       4 := (ex_proc 5 RUNNABLE)\<lparr>p_parent := Some 2, p_kstack := 0x80704000, p_pgdir := 0x80705000\<rparr>],
     cur = 1, initproc = 0, nextpid = 6,
     bufs = replicate NBUF ex_buf, lru = [0..<NBUF], disk = ex_disk, disksize = FSSIZE, dwrites = [],
     lg_start = 2, lg_size = 30, lg_outstanding = 1, lg_committing = False, lg_dev = 1, lg_lh = [],
     fsb = ex_sb, icache = (replicate NINODE ex_noinode)[0 := ex_inode, 1 := ex_dir],
     con_buf = replicate 128 0, con_r = 0, con_w = 0, con_e = 0, crt = (\<lambda>_. 0), crt_pos = 0, uart_on = False, uart_out = [],
     dev_read = (replicate 10 False)[1 := True], dev_write = (replicate 10 False)[1 := True],
     memory = (\<lambda>_. 0), freelist = 0, use_lock = True, kend = 0x80115000,
     kdata = 0x80108000, kpgdir = 0x80700000, cr3 = 0x700000, ts_esp0 = 0,
     pipes = (\<lambda>_. \<lparr>pi_data = replicate 512 0, pi_nread = 0, pi_nwrite = 0, pi_readopen = True, pi_writeopen = True\<rparr>),
     ftable = replicate NFILE \<lparr>f_type = FD_NONE, f_ref = 0, f_readable = False, f_writable = False, f_pipe = 0, f_ip = 0, f_off = 0\<rparr>,
     ticks = 100, kbd_shift = 0, first_run = False, sched_at = 0, sym_forkret = 0x80103000, sym_trapret = 0x80105000\<rparr>"

lemma ex_k_bufs [simp]: "j < NBUF \<Longrightarrow> buf ex_k j = ex_buf"
  by (simp add: ex_k_def)

lemma ex_k_fields [simp]:
  "length (bufs ex_k) = NBUF" "lru ex_k = [0..<NBUF]" "disk ex_k = ex_disk" "disksize ex_k = FSSIZE" "dwrites ex_k = []"
  "lg_start ex_k = 2" "lg_size ex_k = 30" "lg_outstanding ex_k = 1" "\<not> lg_committing ex_k" "lg_dev ex_k = 1" "lg_lh ex_k = []"
  "fsb ex_k = ex_sb" "cur ex_k = 1" "length (ptable ex_k) = NPROC" "length (icache ex_k) = NINODE" "inode ex_k 0 = ex_inode"
  "ticks ex_k = 100" "sched_at ex_k = 0"
  by (simp_all add: ex_k_def)

lemma ex_k_proc_ok [simp]: "proc_ok ex_k"
  by (simp add: ex_k_def proc_ok_def myproc_def ex_proc_def)

lemma length_ex_disk [simp]: "length (ex_disk b) = BSIZE"
  by (simp add: ex_disk_def ex_bits_def)

lemma ex_k_bio: "bio_inv ex_k"
  unfolding bio_inv_def by (auto simp: ex_bufs)

lemma ex_k_sets [simp]: "dirtyset ex_k = {}" "lockset ex_k = {}" "quiet ex_k"
  unfolding dirtyset_def lockset_def quiet_def by (auto simp: ex_bufs)

lemma ex_k_content [simp]: "content ex_k = ex_disk"
proof
  fix b
  have "cached ex_k b = None" by (auto simp: cached_None ex_bufs)
  then show "content ex_k b = ex_disk b" by (simp add: content_def)
qed

lemma ex_k_log: "log_inv ex_k"
  unfolding log_inv_def using ex_k_bio by (simp add: log_region_def) (simp add: ex_disk_def)

lemma ex_bits_used: "b < 60 \<Longrightarrow> bm_test b ex_bits"
proof -
  have "list_all (\<lambda>b. bm_test b ex_bits) [0..<60]" by code_simp
  then show "b < 60 \<Longrightarrow> bm_test b ex_bits" by (simp only: list_all_iff) simp
qed

lemma ex_bits_free: "b \<in> {60..64} \<Longrightarrow> \<not> bm_test b ex_bits"
proof -
  have "list_all (\<lambda>b. \<not> bm_test b ex_bits) [60..<65]" by code_simp
  then show "b \<in> {60..64} \<Longrightarrow> \<not> bm_test b ex_bits"
    by (simp only: list_all_iff set_upt Ball_def atLeastLessThan_iff atLeastAtMost_iff) simp
qed

lemma ex_sb_simps [simp]:
  "sb_size ex_sb = 1000" "sb_ninodes ex_sb = 200" "sb_inodestart ex_sb = 32" "sb_bmapstart ex_sb = 58" "datastart ex_sb = 59"
  by (simp_all add: ex_sb_def datastart_def)

lemma ex_allocated: "b < 1000 \<Longrightarrow> allocated ex_sb ex_disk b = bm_test b ex_bits"
  by (simp add: allocated_def BBLOCK_def ex_disk_def)

lemma ex_k_fs: "fs_inv ex_k"
  unfolding fs_inv_def using ex_k_log by (simp add: sb_ok_def ex_allocated ex_bits_used) (simp add: ex_sb_def)

lemma ex_blk_addr: "bn < MAXFILE \<Longrightarrow> blk_addr ex_disk (59 # replicate 12 0) bn = (if bn = 0 then 59 else 0)"
  by (auto simp: blk_addr_def nth_Cons split: nat.split)

lemma ex_k_file: "file_ready 0 ex_k" "no_holes ex_k 0" "read_ready ex_k" "op_ready ex_k"
proof -
  have "file_wf ex_sb ex_disk (59 # replicate 12 0)"
    unfolding file_wf_def by (auto simp: ex_blk_addr good_def ex_allocated ex_bits_used)
  then show "file_ready 0 ex_k" using ex_k_fs by (simp add: file_ready_def inode_ok_def) (simp add: ex_inode_def)
  show "no_holes ex_k 0" by (simp add: no_holes_def has_block_def) (simp add: ex_inode_def ex_blk_addr)
qed (simp_all add: read_ready_def op_ready_def)

lemma ex_k_synced: "synced ex_k 0"
proof -
  have "dinode_get (di_off 5) (dinode_put (di_off 5) (inode_dinode ex_inode) (replicate BSIZE 0)) = inode_dinode ex_inode"
    using di_off_bound [of 5] by (intro dinode_get_put_same) (simp_all add: inode_dinode_def ex_inode_def)
  then show ?thesis by (simp add: synced_def dinode_at_def IBLOCK_def) (simp add: ex_inode_def ex_disk_def)
qed

lemma ex_k_free: "5 \<le> card (free_blocks ex_k)"
proof -
  have "{60..64} \<subseteq> free_blocks ex_k" by (auto simp: free_blocks_def ex_allocated ex_bits_free)
  from card_mono [OF finite_free_blocks this] show ?thesis by simp
qed

end
