(* ===== verification/Fs_Properties.thy ===== *)
theory Fs_Properties
  imports Kernel_Example
begin

text \<open>
  What the file system promises for the content of files: reading, writing, allocation of
  blocks, and the inodes on the device.
\<close>

text \<open>
  C8. \<^verbatim>\<open>readi\<close> of a file without holes returns, outside as well as inside a transaction, and delivers
  exactly the requested bytes of the file, fewer at its end; no block and no inode changes. An
  offset beyond the end, or one that overflows with the length, gives -1.
\<close>

theorem readi_correct:
  assumes "file_ready ip s" "read_ready s" "no_holes s ip"
  shows "if unat off \<le> unat (i_size (inode s ip)) \<and> unat off + unat n < 2 ^ 32
    then \<exists>s'. readi ip off n s =
        Ok (int (length (slice (unat off) (unat n) (file_data s ip))), slice (unat off) (unat n) (file_data s ip)) s' \<and>
      content s' = content s \<and> icache s' = icache s \<and> disk s' = disk s \<and> lockset s' = lockset s
    else readi ip off n s = Ok (-1, []) s"
proof (cases "unat off \<le> unat (i_size (inode s ip)) \<and> unat off + unat n < 2 ^ 32")
  case True
  have f: "fs_inv s" "inode_ok ip s" "i_type (inode s ip) \<noteq> T_DEV" "unat (i_size (inode s ip)) \<le> MAXFILE * BSIZE"
    using assms(1) by (simp_all add: file_ready_def)
  obtain k d s' where r: "readi ip off n s = Ok (k, d) s'" and u: "updated {} s s'"
    using readi_total [OF assms] True by blast
  have "d = slice (unat off) (unat n) (file_data s ip) \<and> k = int (length d)"
    using readi_spec(1) [OF f r] True by blast
  then show ?thesis
    using True r updatedD(3,4) [OF u] updated_fsst(2) [OF u] fs_inv_read(2) [OF f(1) u] by auto
next
  case False
  then have "off > i_size (inode s ip) \<or> off + n < off"
    using word_add_overflow [of off n] by (auto simp: word_less_nat_alt)
  with assms(1) False show ?thesis by (auto simp: readi_def file_ready_def)
qed

lemma ex_k_data: "file_data ex_k 0 = replicate 100 65"
proof -
  have b: "file_block ex_disk (59 # replicate 12 0) 0 = replicate BSIZE 65"
    unfolding file_block_def using ex_blk_addr [of 0] by (simp add: ex_disk_def)
  have "file_byte ex_disk (59 # replicate 12 0) k = 65" if "k < 100" for k
    using that b by (simp add: file_byte_def)
  then have "map (file_byte ex_disk (59 # replicate 12 0)) [0..<100] = map (\<lambda>_. 65) [0..<100]" by (intro map_cong) auto
  then show ?thesis by (simp add: file_data_def ex_inode_def map_replicate_const del: upt_Suc)
qed

theorem readi_correct_witness: "\<exists>s'. readi 0 10 200 ex_k = Ok (90, replicate 90 65) s' \<and> content s' = content ex_k"
proof -
  have "slice 10 200 (replicate 100 (65 :: byte)) = replicate 90 65" by (simp add: slice_def)
  then show ?thesis
    using readi_correct [OF ex_k_file(1,3,2), of 10 200] by (auto simp: ex_k_data ex_inode_def)
qed

text \<open>
  C9. The write of one turn of \<^verbatim>\<open>filewrite\<close> (at most 1536 bytes) returns inside the reservation that
  \<^verbatim>\<open>begin_op\<close> has made for it, if five blocks are free: at most seven blocks enter the log, which is
  less than \<^verbatim>\<open>MAXOPBLOCKS\<close>. The file then holds the bytes written, at the place they were written
  to; all other files, the blocks of the device and the other inodes are as before, and a file
  without holes whose inode has been written back stays one.
\<close>

theorem writei_correct:
  assumes "file_ready ip s" "op_ready s" "unat (sb_size (fsb s)) \<le> BPB" "5 \<le> card (free_blocks s)"
    and "length src \<le> 3 * BSIZE" "unat off \<le> unat (i_size (inode s ip))" "unat off + length src \<le> MAXFILE * BSIZE"
  shows "\<exists>s'. writei ip src off s = Ok (int (length src)) s' \<and>
    file_data s' ip = overwrite (unat off) src (file_data s ip) \<and> only_file ip s s' \<and> file_ready ip s' \<and>
    length (lg_lh s') \<le> length (lg_lh s) + 7 \<and> quiet s' \<and> lockset s' = {} \<and>
    (no_holes s ip \<and> synced s ip \<longrightarrow> no_holes s' ip \<and> synced s' ip)"
  using writei_op [OF assms] .

theorem writei_correct_witness:
  "\<exists>s'. writei 0 [1, 2, 3] 100 ex_k = Ok 3 s' \<and> file_data s' 0 = replicate 100 65 @ [1, 2, 3]"
proof -
  have "overwrite 100 [1, 2, 3] (replicate 100 (65 :: byte)) = replicate 100 65 @ [1, 2, 3]" by (simp add: overwrite_def)
  then show ?thesis
    using writei_correct [OF ex_k_file(1,4) _ ex_k_free, of "[1, 2, 3]" 100]
    by (auto simp: ex_k_data ex_inode_def)
qed

text \<open>
  C10. What is written can be read back: after a write inside a transaction, \<^verbatim>\<open>readi\<close> of the same
  range returns and gives the bytes that were written.
\<close>

theorem write_then_read:
  assumes "file_ready ip s" "op_ready s" "unat (sb_size (fsb s)) \<le> BPB" "5 \<le> card (free_blocks s)" "no_holes s ip" "synced s ip"
    and "length src \<le> 3 * BSIZE" "unat off \<le> unat (i_size (inode s ip))" "unat off + length src \<le> MAXFILE * BSIZE"
  shows "\<exists>s' s''. writei ip src off s = Ok (int (length src)) s' \<and>
    readi ip off (of_nat (length src)) s' = Ok (int (length src), src) s''"
proof -
  have f: "fs_inv s" "inode_ok ip s" "i_type (inode s ip) \<noteq> T_DEV" "unat (i_size (inode s ip)) \<le> MAXFILE * BSIZE"
    "i_inum (inode s ip) < unat (sb_ninodes (fsb s))" using assms(1) by (simp_all add: file_ready_def)
  obtain s' where w: "writei ip src off s = Ok (int (length src)) s'" and r: "file_ready ip s'" "quiet s'" "lockset s' = {}"
      "length (lg_lh s') \<le> length (lg_lh s) + 7"
    using writei_op [OF assms(1-4,7-9)] by blast
  have rr: "read_ready s'" using r(2-4) assms(2) by (simp add: read_ready_def op_ready_def)
  note W = writei_spec [OF f assms(8,9) w] and S = writei_synced [OF f assms(8,9) w assms(5,6)]
  let ?n = "of_nat (length src) :: u32"
  have n: "unat ?n = length src" using assms(7) by (intro unat_of_nat32) simp
  have sl: "slice (unat off) (length src) (overwrite (unat off) src (file_data s ip)) = src"
    using assms(8) by (simp add: slice_def overwrite_def)
  have sz: "unat (i_size (inode s' ip)) = length (file_data s' ip)" by simp
  have le: "unat off \<le> unat (i_size (inode s' ip))" "unat off + unat ?n < 2 ^ 32"
    unfolding sz W(2) using assms(8,9) n by (simp_all add: length_overwrite)
  obtain k d s'' where rd: "readi ip off ?n s' = Ok (k, d) s''" using readi_total [OF r(1) rr S(1) le] by blast
  have "unat (i_size (inode s' ip)) \<le> MAXFILE * BSIZE" "i_type (inode s' ip) \<noteq> T_DEV" "fs_inv s'" "inode_ok ip s'"
    using r(1) by (simp_all add: file_ready_def)
  then have "d = slice (unat off) (unat ?n) (file_data s' ip) \<and> k = int (length d)"
    using readi_spec(1) [OF _ _ _ _ rd le] by blast
  then show ?thesis using w rd n sl W(2) by auto
qed

theorem write_then_read_witness:
  "\<exists>s' s''. writei 0 [1, 2, 3] 50 ex_k = Ok 3 s' \<and> readi 0 50 3 s' = Ok (3, [1, 2, 3]) s''"
  using write_then_read [OF ex_k_file(1,4) _ ex_k_free ex_k_file(2) ex_k_synced, of "[1, 2, 3]" 50] by (simp add: ex_inode_def)

text \<open>
  C11. \<^verbatim>\<open>balloc\<close> returns inside a transaction while a block is free: the block it gives was free, is now
  marked and filled with zeros, and no other data block changes; \<^verbatim>\<open>bfree\<close> of it returns and makes
  the set of free blocks what it was.
\<close>

theorem balloc_bfree:
  assumes "fs_inv s" "op_ready s" "unat (sb_size (fsb s)) \<le> BPB" "free_blocks s \<noteq> {}"
  shows "\<exists>b s' s''. balloc 1 s = Ok b s' \<and> b \<in> free_blocks s \<and> datastart (fsb s) \<le> b \<and>
    free_blocks s' = free_blocks s - {b} \<and> content s' b = replicate BSIZE 0 \<and>
    (\<forall>x. datastart (fsb s) \<le> x \<and> x \<noteq> b \<longrightarrow> content s' x = content s x) \<and>
    bfree 1 b s' = Ok () s'' \<and> free_blocks s'' = free_blocks s"
proof -
  have l: "lockset s = {}" "locks_data s" using assms(2) by (simp_all add: op_ready_def locks_data_def)
  obtain F where F: "finite F" "bitmap (fsb s) \<subseteq> F" "card F \<le> 1" using bitmap_one [OF assms(3)] by (metis card.empty card.insert empty_iff finite.simps le_refl One_nat_def)
  have "room (length (lg_lh s) + 2) F (Suc 0) s"
    using assms(2) F card_Un_le [of "set (lg_lh s)" F] card_length [of "lg_lh s"] by (simp add: room_def op_ready_def)
  then obtain b s' where B: "balloc 1 s = Ok b s'" "balloc_post b s s'" "room (length (lg_lh s) + 2) F 0 s'" "locks_data s'"
    by (rule balloc_total [OF assms(1) _ F(2) l(2) assms(4)])
  note P = balloc_postD [OF assms(1) B(2)]
  have fb: "fsb s' = fsb s" by (rule updated_fsst [OF P(5)])
  have fe: "free_blocks s' = free_blocks s - {b}" using P(7) fb by (auto simp: free_blocks_def)
  have "BBLOCK b (fsb s') \<in> F" "allocated (fsb s') (content s') b" "datastart (fsb s') \<le> b" "b < unat (sb_size (fsb s'))"
    using F(2) P(1,2) P(7) [of b] fb by (auto simp: bitmap_def)
  then obtain s'' where "bfree 1 b s' = Ok () s''" "free_blocks s'' = insert b (free_blocks s')"
    using bfree_total [OF P(4) B(3) _ _ _ _ B(4)] by blast
  moreover have "b \<in> free_blocks s" using P(2,3) by (simp add: free_blocks_def)
  ultimately show ?thesis using B(1) P(1,6,8) fe by auto
qed

theorem balloc_bfree_witness: "\<exists>b s' s''. balloc 1 ex_k = Ok b s' \<and> bfree 1 b s' = Ok () s'' \<and> free_blocks s'' = free_blocks ex_k"
proof -
  have "free_blocks ex_k \<noteq> {}" using ex_k_free by auto
  then show ?thesis using balloc_bfree [OF ex_k_fs ex_k_file(4)] by fastforce
qed

text \<open>
  C12. \<^verbatim>\<open>itrunc\<close> returns inside a transaction and gives back exactly the blocks of the file, direct,
  indirect and the indirect block itself: they are free afterwards and nothing else is. The file
  is empty, its inode is written back so, and no other inode and no data block has changed.
\<close>

theorem itrunc_correct:
  assumes "file_ready ip s" "op_ready s" "unat (sb_size (fsb s)) \<le> BPB"
  shows "\<exists>s'. itrunc ip s = Ok () s' \<and> free_blocks s' = free_blocks s \<union> file_blocks (content s) (i_addrs (inode s ip)) \<and>
    file_data s' ip = [] \<and> synced s' ip \<and> (\<forall>j. j \<noteq> ip \<longrightarrow> inode s' j = inode s j) \<and>
    (\<forall>x. datastart (fsb s) \<le> x \<longrightarrow> content s' x = content s x) \<and>
    (\<forall>n < unat (sb_ninodes (fsb s)). n \<noteq> i_inum (inode s ip) \<longrightarrow> dinode_at (fsb s) (content s') n = dinode_at (fsb s) (content s) n)"
proof -
  define F where "F = set (lg_lh s) \<union> ({unat (sb_bmapstart (fsb s)), IBLOCK (i_inum (inode s ip)) (fsb s)} \<union>
      (if i_addrs (inode s ip) ! NDIRECT = 0 then {} else {unat (i_addrs (inode s ip) ! NDIRECT)}))"
  have "card ({unat (sb_bmapstart (fsb s)), IBLOCK (i_inum (inode s ip)) (fsb s)} \<union>
      (if i_addrs (inode s ip) ! NDIRECT = 0 then {} else {unat (i_addrs (inode s ip) ! NDIRECT)})) \<le> 3"
    by (auto simp: card_insert_if)
  then have "card F \<le> length (lg_lh s) + 3" unfolding F_def
    using card_Un_le card_length [of "lg_lh s"] by (meson add_mono order_trans)
  moreover have "set (lg_lh s) \<union> F = F" by (auto simp: F_def)
  ultimately have r: "room (length (lg_lh s) + 3) F 0 s" using assms(2) by (simp add: room_def op_ready_def) (simp add: F_def)
  have h: "bitmap (fsb s) \<subseteq> F" "lockset s = {}" "IBLOCK (i_inum (inode s ip)) (fsb s) \<in> F" "ind_in F ip s" "set (lg_lh s) \<subseteq> F"
    using bitmap_one [OF assms(3)] assms(2) by (auto simp: F_def ind_in_def op_ready_def)
  from itrunc_total [OF assms(1) r h] obtain s' where S: "itrunc ip s = Ok () s'" "fsb s' = fsb s"
    "free_blocks s' = free_blocks s \<union> file_blocks (content s) (i_addrs (inode s ip))"
    "icache s' = (icache s)[ip := (inode s ip)\<lparr>i_addrs := replicate 13 0, i_size := 0\<rparr>]"
    "\<forall>x. datastart (fsb s) \<le> x \<longrightarrow> content s' x = content s x"
    "\<forall>n < unat (sb_ninodes (fsb s)). dinode_at (fsb s) (content s') n =
       (if n = i_inum (inode s ip) then inode_dinode (inode s' ip) else dinode_at (fsb s) (content s) n)" by blast
  have ip: "ip < length (icache s)" "i_inum (inode s ip) < unat (sb_ninodes (fsb s))" using assms(1) by (simp_all add: file_ready_def inode_ok_def)
  have "file_data s' ip = []" "synced s' ip" "\<forall>j. j \<noteq> ip \<longrightarrow> inode s' j = inode s j"
    using S(2,4,6) ip by (simp_all add: file_data_def synced_def)
  then show ?thesis using S(1,3,5,6) by auto
qed

theorem itrunc_correct_witness: "\<exists>s'. itrunc 0 ex_k = Ok () s' \<and> free_blocks s' = free_blocks ex_k \<union> {59}"
proof -
  have "file_blocks ex_disk (59 # replicate 12 0) = {59}"
    unfolding file_blocks_def using ex_blk_addr by (auto intro!: exI [of _ 0] split: if_splits)
  then show ?thesis using itrunc_correct [OF ex_k_file(1,4)] by (auto simp: ex_inode_def)
qed

text \<open>
  C13. \<^verbatim>\<open>iupdate\<close> returns inside a transaction and makes the inode on the device the one in memory:
  \<^verbatim>\<open>ilock\<close> of that inode number, reading it back, gets the same type, device numbers, link count, size and
  block addresses. The other inodes, in the same block or not, are untouched.
\<close>

theorem iupdate_correct:
  assumes "file_ready ip s" "op_ready s"
  shows "\<exists>s'. iupdate ip s = Ok () s' \<and> icache s' = icache s \<and> free_blocks s' = free_blocks s \<and>
    (\<forall>i. inode_load (dinode_at (fsb s) (content s') (i_inum (inode s ip))) i =
       (inode s ip)\<lparr>i_dev := i_dev i, i_inum := i_inum i, i_ref := i_ref i, i_lock := i_lock i, i_valid := i_valid i\<rparr>) \<and>
    (\<forall>n. n \<noteq> i_inum (inode s ip) \<longrightarrow> dinode_at (fsb s) (content s') n = dinode_at (fsb s) (content s) n)"
proof -
  have f: "fs_inv s" "i_dev (inode s ip) = 1" "i_inum (inode s ip) < unat (sb_ninodes (fsb s))" "length (i_addrs (inode s ip)) = NDIRECT + 1"
    using assms(1) by (auto simp: file_ready_def inode_ok_def file_wf_def)
  have l: "lockset s = {}" using assms(2) by (simp add: op_ready_def)
  have "room (length (lg_lh s)) {} 0 s"
    using assms(2) card_length [of "lg_lh s"] by (simp add: room_def op_ready_def)
  then obtain s' where u: "iupdate ip s = Ok () s'" using iupdate_total [OF f(1) _ l f(2,3)] by blast
  note U = iupdate_spec [OF f u]
  have "free_blocks s' = free_blocks s" using U(4) updated_fsst(1) [OF U(1)] by (simp add: free_blocks_def)
  moreover have "inode_load (inode_dinode (inode s ip)) i =
       (inode s ip)\<lparr>i_dev := i_dev i, i_inum := i_inum i, i_ref := i_ref i, i_lock := i_lock i, i_valid := i_valid i\<rparr>" for i
    by (simp add: inode_load_def inode_dinode_def)
  ultimately show ?thesis using u U(3) updated_fsst(2) [OF U(1)] by auto
qed

theorem iupdate_correct_witness: "\<exists>s'. iupdate 0 ex_k = Ok () s' \<and> icache s' = icache ex_k"
  using iupdate_correct [OF ex_k_file(1,4)] by blast

end
