(* ===== verification/Proc_Frame.thy ===== *)
theory Proc_Frame
  imports Proc
begin

text \<open>
  What the routines that \<^verbatim>\<open>exit\<close>, \<^verbatim>\<open>wait\<close> and \<^verbatim>\<open>fork\<close> call do to the process table: they leave the running
  process, the initial process and the pids alone, and change a process only by waking it up.
\<close>

section \<open>Keeping the processes\<close>

definition woken :: "proc \<Rightarrow> proc \<Rightarrow> bool" where
  "woken p q \<longleftrightarrow> q = p \<or> p_state p = SLEEPING \<and> q = p\<lparr>p_state := RUNNABLE\<rparr>"

definition pkeep :: "'a pst_scheme \<Rightarrow> 'a pst_scheme \<Rightarrow> bool" where
  "pkeep s t \<longleftrightarrow> cur t = cur s \<and> initproc t = initproc s \<and> nextpid t = nextpid s \<and>
     length (ptable t) = length (ptable s) \<and> (\<forall>i < length (ptable s). woken (ptable s ! i) (ptable t ! i))"

definition keeps :: "'a pst_scheme \<Rightarrow> ('a pst_scheme, 'b) outcome \<Rightarrow> bool" where
  "keeps s m \<longleftrightarrow> (\<forall>a t. m = Ok a t \<longrightarrow> pkeep s t)"

lemma keepsD: "keeps s m \<Longrightarrow> m = Ok a t \<Longrightarrow> pkeep s t"
  by (simp add: keeps_def)

lemma woken_refl [simp]: "woken p p"
  by (simp add: woken_def)

lemma woken_trans: "woken p q \<Longrightarrow> woken q r \<Longrightarrow> woken p r"
  by (auto simp: woken_def)

lemma pkeep_refl [simp]: "pkeep s s"
  by (simp add: pkeep_def)

lemma pkeep_trans: "pkeep r s \<Longrightarrow> pkeep s t \<Longrightarrow> pkeep r t"
  by (auto simp: pkeep_def intro: woken_trans)

named_theorems keep

lemma keeps_simps [simp]:
  "keeps s (Panic m)" "keeps s (Sleep c t)" "keeps s (Undef m)" "keeps s (Ok a t) = pkeep s t"
  by (simp_all add: keeps_def)

lemma keeps_on [keep]:
  "keeps s m \<Longrightarrow> (\<And>a t. m = Ok a t \<Longrightarrow> pkeep s t \<Longrightarrow> keeps s (k a t)) \<Longrightarrow> keeps s (on m k)"
  by (cases m) (simp_all add: keeps_def)

lemma keeps_loop [keep]:
  "(\<And>x t. pkeep r t \<Longrightarrow> keeps r (f x t)) \<Longrightarrow> pkeep r s \<Longrightarrow> keeps r (loop f xs s)"
  by (induction xs arbitrary: s) (auto intro!: keep)

lemma woken_wakeup1: "i < length ps \<Longrightarrow> woken (ps ! i) (wakeup1 c ps ! i)"
  by (simp add: nth_wakeup1 woken_def)

lemma pkeep_wakeup [keep]: "pkeep r s \<Longrightarrow> pkeep r (wakeup c s)"
  by (erule pkeep_trans) (simp add: pkeep_def wakeup_def woken_wakeup1)

lemma keeps_sleep [simp]: "keeps r (sleep c s)"
  by (simp add: sleep_def)

lemma keeps_acquiresleep [keep]: "pkeep r s \<Longrightarrow> keeps r (acquiresleep c lk s)"
  by (simp add: acquiresleep_def)

lemma pkeep_releasesleep [keep]: "pkeep r s \<Longrightarrow> pkeep r (snd (releasesleep c lk s))"
  by (simp add: releasesleep_def keep)

section \<open>Updates elsewhere\<close>

lemma pkeep_bst [simp]:
  "pkeep r (s\<lparr>bufs := b\<rparr>) = pkeep r s" "pkeep r (s\<lparr>lru := l\<rparr>) = pkeep r s" "pkeep r (s\<lparr>disk := d\<rparr>) = pkeep r s"
  "pkeep r (s\<lparr>dwrites := w\<rparr>) = pkeep r s"
  by (simp_all add: pkeep_def)

lemma pkeep_lst [simp]:
  "pkeep r (s\<lparr>lg_start := a\<rparr>) = pkeep r s" "pkeep r (s\<lparr>lg_size := n\<rparr>) = pkeep r s" "pkeep r (s\<lparr>lg_outstanding := o'\<rparr>) = pkeep r s"
  "pkeep r (s\<lparr>lg_committing := c\<rparr>) = pkeep r s" "pkeep r (s\<lparr>lg_dev := d\<rparr>) = pkeep r s" "pkeep r (s\<lparr>lg_lh := h\<rparr>) = pkeep r s"
  by (simp_all add: pkeep_def)

lemma pkeep_fsst [simp]:
  "pkeep r (s\<lparr>fsb := b\<rparr>) = pkeep r s" "pkeep r (s\<lparr>icache := i\<rparr>) = pkeep r s"
  by (simp_all add: pkeep_def)

lemma pkeep_mst [simp]:
  "pkeep r (s\<lparr>memory := m\<rparr>) = pkeep r s" "pkeep r (s\<lparr>freelist := f\<rparr>) = pkeep r s"
  by (simp_all add: pkeep_def)

lemma pkeep_fist [simp]:
  "pkeep r' (s'\<lparr>pipes := p\<rparr>) = pkeep r' s'" "pkeep r (s\<lparr>ftable := f\<rparr>) = pkeep r s"
  by (simp_all add: pkeep_def)

lemma pkeep_upd [simp]:
  "pkeep r (upd_buf i f s1) = pkeep r s1" "pkeep r (upd_data i g s1) = pkeep r s1" "pkeep r (set_dirty i s1) = pkeep r s1"
  "pkeep r' (upd_inode ip h s2) = pkeep r' s2" "pkeep r' (idup ip s2) = pkeep r' s2"
  "pkeep r3 (upd_pipe p q s3) = pkeep r3 s3" "pkeep r4 (upd_file x y s4) = pkeep r4 s4"
  by (simp_all add: upd_buf_def upd_data_def set_dirty_def upd_inode_def idup_def upd_pipe_def upd_file_def)

section \<open>Blocks, log and inodes\<close>

lemma keeps_bread [keep]: "pkeep r s \<Longrightarrow> keeps r (bread dev b s)"
  by (auto simp: bread_def bget_def lock_buf_def iderw_def Let_def intro!: keep split: option.split)

lemma keeps_bwrite [keep]: "pkeep r s \<Longrightarrow> keeps r (bwrite i s)"
  by (auto simp: bwrite_def iderw_def Let_def intro!: keep)

lemma keeps_brelse [keep]: "pkeep r s \<Longrightarrow> keeps r (brelse i s)"
  by (auto simp: brelse_def releasesleep_def Let_def intro!: keep)

lemma keeps_log [keep]:
  assumes "pkeep r s"
  shows "keeps r (begin_op s)" "keeps r (end_op s)" "keeps r (log_write i s)"
  using assms
  by (auto simp: begin_op_def end_op_def commit_def write_log_def write_one_def write_head_def install_trans_def install_one_def
      log_write_def Let_def intro!: keep)

lemma keeps_bfree [keep]: "pkeep r s \<Longrightarrow> keeps r (bfree dev b s)"
  by (auto simp: bfree_def Let_def intro!: keep)

lemma keeps_iupdate [keep]: "pkeep r s \<Longrightarrow> keeps r (iupdate ip s)"
  by (auto simp: iupdate_def Let_def intro!: keep)

lemma keeps_itrunc [keep]: "pkeep r s \<Longrightarrow> keeps r (itrunc ip s)"
  by (auto simp: itrunc_def itrunc_direct_def itrunc_entry_def Let_def intro!: keep)

lemma keeps_iput [keep]: "pkeep r s \<Longrightarrow> keeps r (iput ip s)"
  by (auto simp: iput_def unlock_inode_def releasesleep_def Let_def intro!: keep split: prod.split)

section \<open>Memory, pipes and files\<close>

lemma keeps_kfree [keep]: "pkeep r s \<Longrightarrow> keeps r (kfree p s)"
  by (auto simp: kfree_def Let_def intro!: keep)

lemma pkeep_kalloc [keep]: "pkeep r s \<Longrightarrow> pkeep r (snd (kalloc s))"
  by (auto simp: kalloc_def Let_def intro!: keep)

lemma pkeep_store [simp]: "pkeep r (store32 a v s) = pkeep r s" "pkeep r (zero_page p s) = pkeep r s"
  by (simp_all add: store32_def zero_page_def)

lemma pkeep_walkpgdir [keep]: "pkeep r s \<Longrightarrow> pkeep r (snd (walkpgdir pgdir va alloc s))"
  using pkeep_kalloc [of r s] by (auto simp: walkpgdir_def Let_def split: prod.split)

lemma keeps_deallocuvm_loop [keep]: "pkeep r s \<Longrightarrow> keeps r (deallocuvm_loop pgdir a oldsz s)"
proof (induction pgdir a oldsz s rule: deallocuvm_loop.induct)
  case (1 pgdir a oldsz s)
  let ?pte = "fst (walkpgdir pgdir a False s)"
  have m: "keeps r (if ?pte = 0 then Ok () s else dealloc_page ?pte s)"
    using 1(2) by (auto simp: dealloc_page_def Let_def intro!: keep)
  show ?case
  proof (cases "a < oldsz")
    case True
    have "keeps r (on (if ?pte = 0 then Ok () s else dealloc_page ?pte s) (\<lambda>_ s'.
        if dealloc_next a (?pte = 0) \<le> a then Undef ''deallocuvm: address wraps''
        else deallocuvm_loop pgdir (dealloc_next a (?pte = 0)) oldsz s'))"
      by (rule keeps_on [OF m]) (auto intro: 1(1) [OF True refl])
    with True show ?thesis by (simp add: deallocuvm_loop.simps [of pgdir a] Let_def)
  qed (simp add: deallocuvm_loop.simps [of pgdir a] 1(2))
qed

lemma keeps_freevm [keep]: "pkeep r s \<Longrightarrow> keeps r (freevm pgdir s)"
  by (auto simp: freevm_def deallocuvm_def freevm_entry_def Let_def intro!: keep)

lemma keeps_pipeclose [keep]: "pkeep r s \<Longrightarrow> keeps r (pipeclose p w s)"
  by (auto simp: pipeclose_def Let_def intro!: keep)

lemma keeps_filedup [keep]: "pkeep r s \<Longrightarrow> keeps r (filedup f s)"
  by (auto simp: filedup_def)

lemma keeps_fileclose [keep]: "pkeep r s \<Longrightarrow> keeps r (fileclose f s)"
  by (auto simp: fileclose_def Let_def intro!: keep split: ftype.split)

end
