(* ===== verification/Vm_Spec.thy ===== *)
theory Vm_Spec
  imports Vm
begin

text \<open>
  Page tables as maps from virtual pages to entries: what \<^verbatim>\<open>walkpgdir\<close> and the routines that store
  through it (\<^verbatim>\<open>system/memory/vm.c\<close>) do to the map, and which pages of memory they touch.
\<close>

section \<open>Words in pages\<close>

definition slot :: "u32 \<Rightarrow> nat \<Rightarrow> u32" where
  "slot p i = p + of_nat (4 * i)"

lemma slot_word: "p + 4 * w = slot p (unat w)" for p w :: u32
  by (simp add: slot_def)

lemma aligned_bound: "aligned p \<Longrightarrow> unat p + 4096 \<le> 2 ^ 32"
proof -
  assume "aligned p"
  then obtain q where q: "unat p = 4096 * q" by (auto simp: aligned_def)
  then have "q < 1048576" using unat_lt32 [of p] by simp
  then show ?thesis using q by simp
qed

lemma unat_slot: "aligned p \<Longrightarrow> i < 1024 \<Longrightarrow> unat (slot p i) = unat p + 4 * i"
  using aligned_bound [of p] unat_add_no_overflow [of p "of_nat (4 * i)"] unat_of_nat32 [of "4 * i"] by (simp add: slot_def)

lemma within_slot:
  assumes "aligned p" "i < 1024"
  shows "within (slot p i) 4 x \<longleftrightarrow> unat x div 4 = unat p div 4 + i"
proof -
  have u: "unat (slot p i) = unat p + 4 * i" by (rule unat_slot [OF assms])
  obtain q where q: "unat p = 4 * (1024 * q)" using assms(1) by (auto simp: aligned_def)
  have b: "unat p + 4 * i + 4 \<le> 2 ^ 32" using aligned_bound [OF assms(1)] assms(2) by simp
  show ?thesis
  proof (cases "slot p i \<le> x")
    case True
    then have "unat (x - slot p i) = unat x - (unat p + 4 * i)" "unat p + 4 * i \<le> unat x"
      using u by (simp_all add: unat_sub word_le_nat_alt)
    then show ?thesis using q by (auto simp: within_def)
  next
    case False
    then have "unat (x - slot p i) = 2 ^ 32 + unat x - (unat p + 4 * i)" "unat x < unat p + 4 * i"
      using u by (auto simp: unat_sub_if_size word_size word_le_nat_alt)
    then show ?thesis using q b by (auto simp: within_def)
  qed
qed

lemma slot_in_page: "aligned p \<Longrightarrow> i < 1024 \<Longrightarrow> within (slot p i) 4 x \<Longrightarrow> within p PGSIZE x"
proof -
  assume a: "aligned p" "i < 1024" "within (slot p i) 4 x"
  obtain q where q: "unat p = 4096 * q" using a(1) by (auto simp: aligned_def)
  from a have "unat x div 4 = unat p div 4 + i" by (simp add: within_slot)
  then have "unat x div 4 div 1024 = q" using q a(2) by simp
  then show ?thesis using a(1) q by (simp add: within_page page_def div_mult2_eq [symmetric])
qed

lemma read32_slot_other:
  assumes "aligned p" "i < 1024" "aligned q" "j < 1024" "(p, i) \<noteq> (q, j)"
  shows "read32 (write32 (slot p i) v m) (slot q j) = read32 m (slot q j)"
proof (rule read32_cong)
  fix x assume x: "within (slot q j) 4 x"
  have "\<not> within (slot p i) 4 x"
  proof
    assume y: "within (slot p i) 4 x"
    then have "within p PGSIZE x" "within q PGSIZE x" using x assms slot_in_page by blast+
    then have "p = q" using page_disjoint [OF assms(1,3)] by blast
    moreover have "i = j" using x y assms \<open>p = q\<close> by (simp add: within_slot)
    ultimately show False using assms(5) by simp
  qed
  then show "write32 (slot p i) v m x = m x" by (rule write32_frame)
qed

lemma read32_page_cong:
  "aligned p \<Longrightarrow> i < 1024 \<Longrightarrow> (\<And>x. within p PGSIZE x \<Longrightarrow> m' x = m x) \<Longrightarrow> read32 m' (slot p i) = read32 m (slot p i)"
  by (rule read32_cong) (use slot_in_page in blast)

text \<open>Entries: an address of a page and flags below it.\<close>

lemma aligned_take_bit: "aligned p \<longleftrightarrow> take_bit 12 p = 0"
proof -
  have "take_bit 12 p = 0 \<longleftrightarrow> unat (take_bit 12 p) = 0" by (simp only: unat_eq_zero)
  also have "\<dots> \<longleftrightarrow> aligned p" by (simp add: unsigned_take_bit_eq take_bit_eq_mod aligned_def unat_mod)
  finally show ?thesis by simp
qed

lemma aligned_bits: "aligned p \<Longrightarrow> n < 12 \<Longrightarrow> \<not> bit p n"
proof -
  assume "aligned p" "n < 12"
  then have "bit (take_bit 12 p) n = False" by (simp add: aligned_take_bit)
  then show ?thesis using \<open>n < 12\<close> by (simp add: bit_take_bit_iff)
qed

lemma bits_below: "f < 4096 \<Longrightarrow> bit f n \<Longrightarrow> n < 12" for f :: u32
proof -
  assume f: "f < 4096" and b: "bit f n"
  have "take_bit 12 f = f" using f by (simp add: take_bit_eq_mod word_unat_eq_iff unat_mod word_less_nat_alt)
  then show ?thesis using b by (metis bit_take_bit_iff)
qed

lemma PTE_ADDR_make: "aligned p \<Longrightarrow> f < 4096 \<Longrightarrow> PTE_ADDR (p OR f) = p"
  unfolding PTE_ADDR_def by (rule bit_word_eqI) (auto simp: mask12 bit_simps dest: aligned_bits bits_below)

lemma PTE_FLAGS_make: "aligned p \<Longrightarrow> f < 4096 \<Longrightarrow> PTE_FLAGS (p OR f) = f"
  unfolding PTE_FLAGS_def by (rule bit_word_eqI) (auto simp: mask12 bit_simps dest: aligned_bits bits_below)

lemma aligned_add: "aligned p \<Longrightarrow> aligned q \<Longrightarrow> aligned (p + q)"
proof -
  assume "aligned p" "aligned q"
  moreover have "unat (p + q) mod PGSIZE = (unat p + unat q) mod PGSIZE"
    by (simp add: unat_word_ariths mod_mod_cancel)
  ultimately show ?thesis by (simp add: aligned_def mod_add_eq [symmetric])
qed

lemma aligned_KERNBASE: "aligned KERNBASE"
  by (simp add: aligned_def)

lemma aligned_V2P: "aligned p \<Longrightarrow> aligned (V2P p)"
proof -
  have "- (KERNBASE) = KERNBASE" by simp
  then have "V2P p = p + KERNBASE" unfolding V2P_def by (metis diff_conv_add_uminus)
  then show "aligned p \<Longrightarrow> aligned (V2P p)" using aligned_add [OF _ aligned_KERNBASE, of p] by simp
qed

lemma aligned_P2V: "aligned p \<Longrightarrow> aligned (P2V p)"
  using aligned_add [OF _ aligned_KERNBASE, of p] by (simp add: P2V_def)

lemma aligned_PTE_ADDR: "aligned (PTE_ADDR e)"
  unfolding aligned_take_bit PTE_ADDR_def by (rule bit_word_eqI) (auto simp: mask12 bit_simps)

lemma P2V_V2P [simp]: "P2V (V2P p) = p" "V2P (P2V p) = p"
  by (simp_all add: P2V_def V2P_def)


section \<open>Page tables\<close>

definition present :: "u32 \<Rightarrow> bool" where
  "present e \<longleftrightarrow> e AND PTE_P \<noteq> 0"

text \<open>The entry for \<open>va\<close> in the directory, the table it points to, and the entry in that table, 0 if there is none.\<close>

definition pde :: "'a mst_scheme \<Rightarrow> u32 \<Rightarrow> nat \<Rightarrow> u32" where
  "pde s d i = load32 s (slot d i)"

definition ptab :: "'a mst_scheme \<Rightarrow> u32 \<Rightarrow> nat \<Rightarrow> u32" where
  "ptab s d i = P2V (PTE_ADDR (pde s d i))"

definition dir_ix :: "u32 \<Rightarrow> nat" where
  "dir_ix va = unat (PDX va)"

definition tab_ix :: "u32 \<Rightarrow> nat" where
  "tab_ix va = unat (PTX va)"

definition pte :: "'a mst_scheme \<Rightarrow> u32 \<Rightarrow> u32 \<Rightarrow> u32" where
  "pte s d va = (if present (pde s d (dir_ix va)) then load32 s (slot (ptab s d (dir_ix va)) (tab_ix va)) else 0)"

text \<open>The pages that the tables of \<open>d\<close> take up.\<close>

definition pt_pages :: "'a mst_scheme \<Rightarrow> u32 \<Rightarrow> u32 set" where
  "pt_pages s d = insert d {ptab s d i | i. i < 1024 \<and> present (pde s d i)}"

definition pt_wf :: "'a mst_scheme \<Rightarrow> u32 \<Rightarrow> bool" where
  "pt_wf s d \<longleftrightarrow> kpage s d \<and> (\<forall>i < 1024. present (pde s d i) \<longrightarrow> kpage s (ptab s d i) \<and> ptab s d i \<noteq> d) \<and>
     (\<forall>i < 1024. \<forall>j < 1024. present (pde s d i) \<and> present (pde s d j) \<and> ptab s d i = ptab s d j \<longrightarrow> i = j)"

definition vm_inv :: "'a mst_scheme \<Rightarrow> u32 \<Rightarrow> u32 list \<Rightarrow> bool" where
  "vm_inv s d fs \<longleftrightarrow> kmem_inv s fs \<and> pt_wf s d \<and> pt_pages s d \<inter> set fs = {}"

text \<open>Only the pages in \<open>P\<close> have changed.\<close>

definition touches :: "u32 set \<Rightarrow> 'a mst_scheme \<Rightarrow> 'a mst_scheme \<Rightarrow> bool" where
  "touches P s t \<longleftrightarrow> (\<exists>m f. t = s\<lparr>memory := m, freelist := f\<rparr> \<and> (\<forall>x. (\<forall>p \<in> P. \<not> within p PGSIZE x) \<longrightarrow> m x = memory s x))"

lemma touches_refl [simp]: "touches P s s"
  unfolding touches_def by (intro exI [of _ "memory s"] exI [of _ "freelist s"]) simp

lemma touches_trans: "touches P s t \<Longrightarrow> touches P t u \<Longrightarrow> touches P s u"
  unfolding touches_def by (elim exE conjE, intro exI conjI) auto

lemma touchesD:
  assumes "touches P s t"
  shows "kend t = kend s" "kpage t p = kpage s p" "(\<And>p. p \<in> P \<Longrightarrow> \<not> within p PGSIZE x) \<Longrightarrow> memory t x = memory s x"
  using assms by (auto simp: touches_def kpage_def)

lemma touches_mono: "touches P s t \<Longrightarrow> P \<subseteq> Q \<Longrightarrow> touches Q s t"
  unfolding touches_def by blast

lemma ix_less [simp]: "dir_ix va < 1024" "tab_ix va < 1024"
  using unat_lt32 [of va] by (simp_all add: dir_ix_def tab_ix_def unat_PDX unat_PTX less_mult_imp_div_less)

lemma ix_page: "dir_ix va = dir_ix vb \<and> tab_ix va = tab_ix vb \<longleftrightarrow> page va = page vb"
proof -
  have d: "dir_ix v = page v div 1024" "tab_ix v = page v mod 1024" for v
    by (simp_all add: dir_ix_def tab_ix_def unat_PDX unat_PTX page_def div_mult2_eq [symmetric])
  show ?thesis unfolding d by (metis div_mult_mod_eq)
qed

lemma walk_slots:
  "walkpgdir d va alloc s =
     (if present (pde s d (dir_ix va)) then (slot (ptab s d (dir_ix va)) (tab_ix va), s)
      else if \<not> alloc then (0, s)
      else (let (t, s) = kalloc s in
         if t = 0 then (0, s)
         else (slot t (tab_ix va), store32 (slot d (dir_ix va)) (V2P t OR PTE_P OR PTE_W OR PTE_U) (zero_page t s))))"
  unfolding walkpgdir_def Let_def slot_word present_def pde_def ptab_def dir_ix_def tab_ix_def by simp


section \<open>Frames\<close>

lemma pt_wfD:
  assumes "pt_wf s d" "i < 1024" "present (pde s d i)"
  shows "kpage s (ptab s d i)" "aligned (ptab s d i)" "ptab s d i \<noteq> d" "ptab s d i \<in> pt_pages s d"
  using assms kpage_nonzero(4) by (auto simp: pt_wf_def pt_pages_def)

lemma pt_wf_inj:
  "pt_wf s d \<Longrightarrow> i < 1024 \<Longrightarrow> j < 1024 \<Longrightarrow> present (pde s d i) \<Longrightarrow> present (pde s d j) \<Longrightarrow> ptab s d i = ptab s d j \<Longrightarrow> i = j"
  unfolding pt_wf_def by blast

lemma pt_wf_dir: "pt_wf s d \<Longrightarrow> aligned d" "pt_wf s d \<Longrightarrow> kpage s d" "d \<in> pt_pages s d"
  using kpage_nonzero(4) by (auto simp: pt_wf_def pt_pages_def)

lemma aligned_pt_pages: "pt_wf s d \<Longrightarrow> p \<in> pt_pages s d \<Longrightarrow> aligned p"
  using pt_wf_dir(1) pt_wfD(2) by (fastforce simp: pt_pages_def)

lemma touches_page:
  assumes "touches P s t" "aligned q" "q \<notin> P" "\<forall>p \<in> P. aligned p" "within q PGSIZE x"
  shows "memory t x = memory s x"
  using assms(1) by (rule touchesD) (use assms page_disjoint in blast)

lemma touches_slot:
  assumes "touches P s t" "aligned q" "q \<notin> P" "\<forall>p \<in> P. aligned p" "i < 1024"
  shows "load32 t (slot q i) = load32 s (slot q i)"
  unfolding load32_def by (rule read32_page_cong [OF assms(2,5)]) (rule touches_page [OF assms(1-4)])

lemma pt_same:
  assumes "\<And>i. i < 1024 \<Longrightarrow> pde t d i = pde s d i"
  shows "i < 1024 \<Longrightarrow> ptab t d i = ptab s d i" "pt_pages t d = pt_pages s d" "(\<And>p. kpage t p = kpage s p) \<Longrightarrow> pt_wf t d = pt_wf s d"
proof -
  show p: "ptab t d i = ptab s d i" if "i < 1024" for i using that by (simp add: ptab_def assms)
  have "{ptab t d i | i. i < 1024 \<and> present (pde t d i)} = {ptab s d i | i. i < 1024 \<and> present (pde s d i)}"
    using assms p by metis
  then show "pt_pages t d = pt_pages s d" by (simp add: pt_pages_def)
  show "(\<And>p. kpage t p = kpage s p) \<Longrightarrow> pt_wf t d = pt_wf s d" using assms p by (simp add: pt_wf_def cong: conj_cong)
qed

lemma pt_frame:
  assumes "pt_wf s d" "touches P s t" "\<forall>p \<in> P. aligned p" "P \<inter> pt_pages s d = {}"
  shows "pt_wf t d" "pt_pages t d = pt_pages s d" "pte t d va = pte s d va"
proof -
  have d: "aligned d" "d \<notin> P" using pt_wf_dir(1) [OF assms(1)] pt_wf_dir(3) [of d s] assms(4) by auto
  have e: "pde t d i = pde s d i" if "i < 1024" for i
    unfolding pde_def by (rule touches_slot [OF assms(2) d assms(3) that])
  note p = pt_same(1) [OF e]
  show "pt_wf t d" "pt_pages t d = pt_pages s d"
    using pt_same(2,3) [of t d s, OF e] touchesD(2) [OF assms(2)] assms(1) by auto
  have "load32 t (slot (ptab s d (dir_ix va)) (tab_ix va)) = load32 s (slot (ptab s d (dir_ix va)) (tab_ix va))"
    if "present (pde s d (dir_ix va))"
    using pt_wfD [OF assms(1) ix_less(1) that] assms(4) by (intro touches_slot [OF assms(2) _ _ assms(3)]) auto
  then show "pte t d va = pte s d va" using e [of "dir_ix va"] p [of "dir_ix va"] by (simp add: pte_def)
qed

lemma kmem_frame:
  assumes "kmem_inv s fs" "touches P s t" "\<forall>p \<in> P. aligned p" "P \<inter> set fs = {}" "freelist t = freelist s"
  shows "kmem_inv t fs"
proof (rule kmem_inv_frame [OF assms(1,5) touchesD(1) [OF assms(2)]])
  fix p x assume p: "p \<in> set fs" "within p PGSIZE x"
  then have "aligned p" "p \<notin> P" using assms(1,4) by (auto simp: kmem_inv_def kpage_def)
  then show "memory t x = memory s x" using touches_page [OF assms(2) _ _ assms(3) p(2)] by blast
qed

lemma touches_store: "aligned p \<Longrightarrow> i < 1024 \<Longrightarrow> touches {p} s (store32 (slot p i) v s)"
  unfolding touches_def store32_def
  by (intro exI [of _ "write32 (slot p i) v (memory s)"] exI [of _ "freelist s"])
    (auto intro!: write32_frame dest: slot_in_page)

lemma touches_zero: "touches {p} s (zero_page p s)"
  unfolding touches_def zero_page_def
  by (intro exI [of _ "memset p 0 PGSIZE (memory s)"] exI [of _ "freelist s"]) (auto simp: memset_frame)

lemma load_store_slot:
  "aligned p \<Longrightarrow> i < 1024 \<Longrightarrow> aligned q \<Longrightarrow> j < 1024 \<Longrightarrow>
    load32 (store32 (slot p i) v s) (slot q j) = (if p = q \<and> i = j then v else load32 s (slot q j))"
  by (auto simp: load32_def store32_def read32_slot_other)

lemma load_zero_page: "aligned p \<Longrightarrow> i < 1024 \<Longrightarrow> load32 (zero_page p s) (slot p i) = 0"
proof -
  assume "aligned p" "i < 1024"
  then have "memory (zero_page p s) x = 0" if "within (slot p i) 4 x" for x
    using slot_in_page [OF _ _ that] by (simp add: zero_page_def memset_spec within_def)
  then show ?thesis by (simp add: load32_def read32_def word_offs le32_def)
qed

lemma store_frame [simp]:
  "freelist (store32 a v s) = freelist s" "freelist (zero_page p s) = freelist s" "kend (store32 a v s) = kend s" "kend (zero_page p s) = kend s"
  "kpage (store32 a v s) q = kpage s q" "kpage (zero_page p s) q = kpage s q"
  by (simp_all add: store32_def zero_page_def kpage_def)

section \<open>Storing an entry\<close>

lemma store_pte:
  fixes v :: u32
  assumes inv: "vm_inv s d fs" and pr: "present (pde s d (dir_ix va))"
  defines "t \<equiv> store32 (slot (ptab s d (dir_ix va)) (tab_ix va)) v s"
  shows "vm_inv t d fs" "pt_pages t d = pt_pages s d" "pte t d vb = (if page vb = page va then v else pte s d vb)"
    "touches (pt_pages s d) s t"
proof -
  have w: "kmem_inv s fs" "pt_wf s d" "pt_pages s d \<inter> set fs = {}" using inv by (simp_all add: vm_inv_def)
  let ?p = "ptab s d (dir_ix va)"
  note P = pt_wfD [OF w(2) ix_less(1) pr]
  have tp: "touches {?p} s t" unfolding t_def using P(2) by (rule touches_store) simp
  then show tq: "touches (pt_pages s d) s t" by (rule touches_mono) (use P(4) in simp)
  have k: "kmem_inv t fs" using w(1) tp by (rule kmem_frame) (use P(2,4) w(3) in \<open>auto simp: t_def\<close>)
  have e: "pde t d i = pde s d i" if "i < 1024" for i
    unfolding pde_def t_def using P(2,3) pt_wf_dir(1) [OF w(2)] that by (simp add: load_store_slot)
  note p = pt_same(1) [OF e]
  show pp: "pt_pages t d = pt_pages s d" by (rule pt_same(2)) (rule e)
  have "pt_wf t d" using w(2) touchesD(2) [OF tp] pt_same(3) [of t d s, OF e] by simp
  then show "vm_inv t d fs" using k w(3) pp by (simp add: vm_inv_def)
  show "pte t d vb = (if page vb = page va then v else pte s d vb)"
  proof (cases "present (pde s d (dir_ix vb))")
    case True
    note Q = pt_wfD [OF w(2) ix_less(1) True]
    have "?p = ptab s d (dir_ix vb) \<longleftrightarrow> dir_ix va = dir_ix vb" using w(2) pr True by (auto simp: pt_wf_def)
    then show ?thesis using True e p P(2) Q(2) ix_page [of va vb] by (auto simp: pte_def t_def load_store_slot)
  next
    case False
    then have "page vb \<noteq> page va" using pr ix_page [of va vb] by auto
    then show ?thesis using False e by (simp add: pte_def)
  qed
qed


section \<open>Finding the place of an entry\<close>

lemma or_flags: "p OR PTE_P OR PTE_W OR PTE_U = p OR 7" for p :: u32
  by (simp add: or.assoc)

lemma present_bit: "present e \<longleftrightarrow> bit e 0"
  by (simp add: present_def and_one_eq bit_0 even_iff_mod_2_eq_zero [symmetric])

lemma present_or: "present (p OR f) \<longleftrightarrow> present p \<or> present f"
  by (simp add: present_bit bit_or_iff)

lemma new_table:
  assumes "vm_inv s d (p # fs)" "\<not> present (pde s d (dir_ix va))"
  defines "t \<equiv> store32 (slot d (dir_ix va)) (V2P p OR PTE_P OR PTE_W OR PTE_U) (zero_page p (s\<lparr>freelist := read32 (memory s) p\<rparr>))"
  shows "vm_inv t d fs" "present (pde t d (dir_ix va))" "ptab t d (dir_ix va) = p" "pt_pages t d = insert p (pt_pages s d)"
    "pte t d vb = pte s d vb" "touches (insert p (pt_pages s d)) s t"
proof -
  have w: "kmem_inv s (p # fs)" "pt_wf s d" "pt_pages s d \<inter> set (p # fs) = {}" using assms(1) by (simp_all add: vm_inv_def)
  let ?ix = "dir_ix va" and ?s1 = "s\<lparr>freelist := read32 (memory s) p\<rparr>"
  have k: "kmem_inv ?s1 fs" "kpage s p" "p \<notin> set fs" using kalloc_spec(2) [OF w(1) refl] by blast+
  have ap: "aligned p" "aligned d" using kpage_nonzero(4) [OF k(2)] pt_wf_dir(1) [OF w(2)] .
  have pd: "p \<noteq> d" using w(3) pt_wf_dir(3) [of d s] by auto
  have tz: "touches {p} ?s1 (zero_page p ?s1)" by (rule touches_zero)
  have ts: "touches {d} (zero_page p ?s1) t" unfolding t_def by (rule touches_store) (use ap in simp_all)
  have tt: "touches {p, d} ?s1 t" by (rule touches_trans [OF touches_mono [OF tz] touches_mono [OF ts]]) simp_all
  have "touches {p, d} s ?s1" unfolding touches_def by (intro exI [of _ "memory s"]) auto
  then have "touches {p, d} s t" using tt by (rule touches_trans)
  then show "touches (insert p (pt_pages s d)) s t" by (rule touches_mono) (simp add: pt_pages_def)
  have kt: "kmem_inv t fs"
    by (rule kmem_frame [OF k(1) tt]) (use ap w(3) k(3) pt_wf_dir(3) [of d s] in \<open>auto simp: t_def\<close>)
  have P: "PTE_ADDR (V2P p OR PTE_P OR PTE_W OR PTE_U) = V2P p"
    unfolding or_flags by (rule PTE_ADDR_make [OF aligned_V2P [OF ap(1)]]) simp
  have pr: "present (V2P p OR PTE_P OR PTE_W OR PTE_U)" by (simp add: present_or) (simp add: present_def)
  have e: "pde t d i = (if i = ?ix then V2P p OR PTE_P OR PTE_W OR PTE_U else pde s d i)" if "i < 1024" for i
  proof -
    have "load32 (zero_page p ?s1) (slot d i) = load32 ?s1 (slot d i)"
      by (rule touches_slot [OF tz ap(2) _ _ that]) (use pd ap in auto)
    then show ?thesis using that ap by (auto simp: pde_def t_def load_store_slot) (simp add: load32_def)
  qed
  then have q: "ptab t d i = (if i = ?ix then p else ptab s d i)" if "i < 1024" for i using that P by (simp add: ptab_def or.assoc)
  show "present (pde t d ?ix)" "ptab t d ?ix = p" using e [of ?ix] q [of ?ix] pr by simp_all
  have "{ptab t d i | i. i < 1024 \<and> present (pde t d i)} = insert p {ptab s d i | i. i < 1024 \<and> present (pde s d i)}" (is "?A = ?B")
  proof
    show "?A \<subseteq> ?B" using e q by auto blast
    have "p \<in> ?A" using e [of ?ix] q [of ?ix] pr by (auto intro!: exI [of _ ?ix])
    moreover have "ptab s d i \<in> ?A" if "i < 1024" "present (pde s d i)" for i
      using that assms(2) e [OF that(1)] q [OF that(1)] by (intro CollectI exI [of _ i]) auto
    ultimately show "?B \<subseteq> ?A" by blast
  qed
  then show pp: "pt_pages t d = insert p (pt_pages s d)" by (auto simp: pt_pages_def)
  have np: "ptab s d i \<noteq> p" if "i < 1024" "present (pde s d i)" for i using pt_wfD(4) [OF w(2) that] w(3) by auto
  have kp: "kpage t x = kpage s x" for x by (simp add: t_def) (simp add: kpage_def)
  have "pt_wf t d" using w(2) k(2) pd np unfolding pt_wf_def kp by (simp add: e q) metis
  then show "vm_inv t d fs" using kt pp w(3) k(3) by (auto simp: vm_inv_def)
  have l: "load32 t (slot q i) = (if q = p then 0 else load32 s (slot q i))" if "aligned q" "q \<noteq> d" "i < 1024" for q i
  proof (cases "q = p")
    case True
    then show ?thesis using that ap load_zero_page [OF ap(1) that(3), of ?s1] by (simp add: t_def load_store_slot)
  next
    case False
    have "load32 t (slot q i) = load32 ?s1 (slot q i)" by (rule touches_slot [OF tt that(1) _ _ that(3)]) (use False that ap in auto)
    then show ?thesis using False by (simp add: load32_def)
  qed
  show "pte t d vb = pte s d vb"
  proof (cases "dir_ix vb = ?ix")
    case True
    then show ?thesis using assms(2) ap pd e [of ?ix] q [of ?ix] by (simp add: pte_def l)
  next
    case False
    then show ?thesis using e [of "dir_ix vb"] q [of "dir_ix vb"] l pt_wfD [OF w(2), of "dir_ix vb"] np [of "dir_ix vb"]
      by (auto simp: pte_def)
  qed
qed


lemma slot_nonzero: "kpage s p \<Longrightarrow> i < 1024 \<Longrightarrow> slot p i \<noteq> 0"
proof
  assume k: "kpage s p" "i < 1024" "slot p i = 0"
  have "unat (slot p i) = unat p + 4 * i" using unat_slot kpage_nonzero(4) [OF k(1)] k(2) by blast
  then show False using k(3) kpage_nonzero(1) [OF k(1)] by (simp add: unat_eq_zero)
qed

lemma walk_alloc:
  assumes "vm_inv s d fs"
  obtains (found) t new fs' where "walkpgdir d va True s = (slot (ptab t d (dir_ix va)) (tab_ix va), t)"
      "slot (ptab t d (dir_ix va)) (tab_ix va) \<noteq> 0" "present (pde t d (dir_ix va))" "vm_inv t d fs'" "fs = new @ fs'"
      "pt_pages t d = pt_pages s d \<union> set new" "\<And>vb. pte t d vb = pte s d vb" "touches (pt_pages t d) s t"
  | (full) "walkpgdir d va True s = (0, s)" "fs = []"
proof (cases "present (pde s d (dir_ix va))")
  case True
  have "pt_wf s d" using assms by (simp add: vm_inv_def)
  then have "slot (ptab s d (dir_ix va)) (tab_ix va) \<noteq> 0" using slot_nonzero [OF pt_wfD(1) [OF _ _ True]] by simp
  then show thesis using True assms by (intro found [of s fs "[]"]) (simp_all add: walk_slots)
next
  case False
  have k: "kmem_inv s fs" using assms by (simp add: vm_inv_def)
  show thesis
  proof (cases fs)
    case Nil
    then show thesis using full False kalloc_spec(1) [OF k] by (simp add: walk_slots)
  next
    case (Cons p qs)
    let ?t = "store32 (slot d (dir_ix va)) (V2P p OR PTE_P OR PTE_W OR PTE_U) (zero_page p (s\<lparr>freelist := read32 (memory s) p\<rparr>))"
    note T = new_table [OF assms [unfolded Cons] False]
    have kp: "kpage s p" using k Cons by (simp add: kmem_inv_def)
    have "walkpgdir d va True s = (slot p (tab_ix va), ?t)"
      using False kalloc_spec(1) [OF k] Cons kpage_nonzero(1) [OF kp] by (simp add: walk_slots)
    then show thesis using T Cons slot_nonzero [OF kp, of "tab_ix va"] by (intro found [of ?t qs "[p]"]) auto
  qed
qed

lemma walk_find:
  "walkpgdir d va False s = (if present (pde s d (dir_ix va)) then slot (ptab s d (dir_ix va)) (tab_ix va) else 0, s)"
  by (simp add: walk_slots)

lemma load_pte: "present (pde s d (dir_ix va)) \<Longrightarrow> load32 s (slot (ptab s d (dir_ix va)) (tab_ix va)) = pte s d va"
  by (simp add: pte_def)

lemma page_next:
  assumes "page a + 1 < 2 ^ 20"
  shows "page (a + 4096) = page a + 1" "aligned a \<Longrightarrow> aligned (a + 4096)"
proof -
  have "unat a + 4096 < 2 ^ 32" using assms div_mult_mod_eq [of "unat a" PGSIZE] mod_less_divisor [of PGSIZE "unat a"] by (simp add: page_def)
  then have "unat (a + 4096) = unat a + 4096" using unat_add_no_overflow [of a 4096] by simp
  then show "page (a + 4096) = page a + 1" "aligned a \<Longrightarrow> aligned (a + 4096)" by (simp_all add: page_def aligned_def)
qed

section \<open>Mapping a range\<close>

definition va_range :: "u32 \<Rightarrow> nat \<Rightarrow> u32 \<Rightarrow> bool" where
  "va_range a n vb \<longleftrightarrow> page a \<le> page vb \<and> page vb \<le> page a + n"

lemma mappages_loop_spec:
  assumes "vm_inv s d fs" "page a + n < 2 ^ 20" "\<And>vb. va_range a n vb \<Longrightarrow> \<not> present (pte s d vb)"
  shows "\<exists>r t new fs'. mappages_loop d a pa perm n s = Ok r t \<and> vm_inv t d fs' \<and> fs = new @ fs' \<and>
    pt_pages t d = pt_pages s d \<union> set new \<and> touches (pt_pages t d) s t \<and> (r = 0 \<or> r = -1 \<and> fs' = []) \<and>
    (\<forall>vb. \<not> va_range a n vb \<longrightarrow> pte t d vb = pte s d vb) \<and>
    (r = 0 \<longrightarrow> (\<forall>vb. va_range a n vb \<longrightarrow> pte t d vb = (pa + of_nat (page vb - page a) * 4096) OR perm OR PTE_P))"
  using assms
proof (induction n arbitrary: a pa s fs)
  case 0
  from 0(1) show ?case
  proof (cases rule: walk_alloc [where va = a])
    case (found t new fs')
    note S = store_pte [OF found(4,3), of "pa OR perm OR PTE_P"]
    have "\<not> present (pte t d a)" using found(7) 0(3) [of a] by (simp add: va_range_def)
    then have "mappages_loop d a pa perm 0 s = Ok 0 (store32 (slot (ptab t d (dir_ix a)) (tab_ix a)) (pa OR perm OR PTE_P) t)"
      using found(1,2) load_pte [OF found(3)] by (simp add: mappages_loop.simps [of d a] present_def)
    moreover have "touches (pt_pages t d) s (store32 (slot (ptab t d (dir_ix a)) (tab_ix a)) (pa OR perm OR PTE_P) t)"
      using touches_trans [OF found(8) S(4)] .
    ultimately show ?thesis using S(1-3) found(5-7) by (auto simp: va_range_def)
  next
    case full
    then show ?thesis using 0 by (auto simp: mappages_loop.simps [of d a])
  qed
next
  case (Suc n)
  from Suc.prems(1) show ?case
  proof (cases rule: walk_alloc [where va = a])
    case (found t new fs')
    let ?t = "store32 (slot (ptab t d (dir_ix a)) (tab_ix a)) (pa OR perm OR PTE_P) t"
    note S = store_pte [OF found(4,3), of "pa OR perm OR PTE_P"]
    have pn: "page (a + 4096) = page a + 1" using Suc.prems(2) by (intro page_next) simp
    have r: "va_range a (Suc n) vb \<longleftrightarrow> page vb = page a \<or> va_range (a + 4096) n vb" for vb
      using pn by (auto simp: va_range_def)
    have nr: "\<not> va_range (a + 4096) n vb" if "page vb = page a" for vb using that pn by (simp add: va_range_def)
    have "\<not> present (pte t d a)" using found(7) Suc.prems(3) [of a] by (simp add: va_range_def)
    then have m: "mappages_loop d a pa perm (Suc n) s = mappages_loop d (a + 4096) (pa + 4096) perm n ?t"
      using found(1,2) load_pte [OF found(3)] by (simp add: mappages_loop.simps [of d a] present_def)
    have "\<not> present (pte ?t d vb)" if "va_range (a + 4096) n vb" for vb
      using that Suc.prems(3) [of vb] S(3) found(7) r nr by auto
    moreover have "page (a + 4096) + n < 2 ^ 20" using Suc.prems(2) pn by simp
    ultimately obtain q u new' fs'' where
      I: "mappages_loop d (a + 4096) (pa + 4096) perm n ?t = Ok q u" "vm_inv u d fs''" "fs' = new' @ fs''"
      "pt_pages u d = pt_pages ?t d \<union> set new'" "touches (pt_pages u d) ?t u" "q = 0 \<or> q = -1 \<and> fs'' = []"
      "\<forall>vb. \<not> va_range (a + 4096) n vb \<longrightarrow> pte u d vb = pte ?t d vb"
      "q = 0 \<longrightarrow> (\<forall>vb. va_range (a + 4096) n vb \<longrightarrow> pte u d vb = (pa + 4096 + of_nat (page vb - page (a + 4096)) * 4096) OR perm OR PTE_P)"
      using Suc.IH [where a = "a + 4096" and pa = "pa + 4096", OF S(1)] by blast
    have "touches (pt_pages u d) s u"
      using touches_trans [OF touches_trans [OF found(8) S(4), THEN touches_mono] I(5)] I(4) S(2) by blast
    moreover have "pte u d vb = (pa + of_nat (page vb - page a) * 4096) OR perm OR PTE_P" if "q = 0" "va_range a (Suc n) vb" for vb
    proof (cases "page vb = page a")
      case True
      then show ?thesis using I(7) S(3) nr by simp
    next
      case False
      then have i: "va_range (a + 4096) n vb" using that(2) r by blast
      then have "page vb - page a = Suc (page vb - page (a + 4096))" unfolding va_range_def pn by linarith
      then show ?thesis using I(8) that(1) i by (simp add: algebra_simps)
    qed
    moreover have "pte u d vb = pte s d vb" if "\<not> va_range a (Suc n) vb" for vb
      using that I(7) S(3) found(7) r by simp
    ultimately show ?thesis unfolding m using I(1-4,6) S(2) found(5,6)
      by (intro exI [of _ q] exI [of _ u] exI [of _ "new @ new'"] exI [of _ fs'']) auto
  next
    case full
    then show ?thesis using Suc.prems(1) by (auto simp: mappages_loop.simps [of d a])
  qed
qed

end
