(* ===== verification/Vm_User.thy ===== *)
theory Vm_User
  imports Vm_Spec
begin

text \<open>
  The user part of an address space: each mapped page has a page of memory of its own, and what
  \<^verbatim>\<open>deallocuvm\<close> and \<^verbatim>\<open>freevm\<close> (\<^verbatim>\<open>system/memory/vm.c\<close>) give back.
\<close>

section \<open>The pages of a process\<close>

text \<open>The page of memory that the entry for \<open>va\<close> points to.\<close>

definition uframe :: "'a mst_scheme \<Rightarrow> u32 \<Rightarrow> u32 \<Rightarrow> u32" where
  "uframe s d va = P2V (PTE_ADDR (pte s d va))"

definition umapped :: "'a mst_scheme \<Rightarrow> u32 \<Rightarrow> u32 \<Rightarrow> bool" where
  "umapped s d va \<longleftrightarrow> va < KERNBASE \<and> present (pte s d va)"

text \<open>Below \<^verbatim>\<open>KERNBASE\<close> every mapped page has a page of memory of its own, which is neither free nor part of the
  tables.\<close>

definition um_inv :: "'a mst_scheme \<Rightarrow> u32 \<Rightarrow> u32 list \<Rightarrow> bool" where
  "um_inv s d fs \<longleftrightarrow> vm_inv s d fs \<and> KERNBASE < kend s \<and>
     (\<forall>va. umapped s d va \<longrightarrow> kpage s (uframe s d va) \<and> uframe s d va \<notin> pt_pages s d \<and> uframe s d va \<notin> set fs) \<and>
     (\<forall>va vb. umapped s d va \<and> umapped s d vb \<and> uframe s d va = uframe s d vb \<longrightarrow> page va = page vb)"

lemma um_invD:
  assumes "um_inv s d fs"
  shows "vm_inv s d fs" "kmem_inv s fs" "pt_wf s d" "pt_pages s d \<inter> set fs = {}" "KERNBASE < kend s"
    "umapped s d va \<Longrightarrow> kpage s (uframe s d va)" "umapped s d va \<Longrightarrow> uframe s d va \<notin> pt_pages s d" "umapped s d va \<Longrightarrow> uframe s d va \<notin> set fs"
    "umapped s d va \<Longrightarrow> umapped s d vb \<Longrightarrow> uframe s d va = uframe s d vb \<Longrightarrow> page va = page vb"
  using assms unfolding um_inv_def vm_inv_def by blast+

lemma um_invI:
  assumes "vm_inv s d fs" "KERNBASE < kend s"
    and "\<And>va. umapped s d va \<Longrightarrow> kpage s (uframe s d va) \<and> uframe s d va \<notin> pt_pages s d \<and> uframe s d va \<notin> set fs"
    and "\<And>va vb. umapped s d va \<Longrightarrow> umapped s d vb \<Longrightarrow> uframe s d va = uframe s d vb \<Longrightarrow> page va = page vb"
  shows "um_inv s d fs"
  using assms unfolding um_inv_def by blast

lemma pte_page: "page va = page vb \<Longrightarrow> pte s d va = pte s d vb"
  using ix_page [of va vb] by (simp add: pte_def)

lemma below_kernbase: "va < KERNBASE \<longleftrightarrow> page va < 0x80000"
  by (simp add: word_less_nat_alt page_def less_mult_imp_div_less) linarith

lemma umapped_page: "page va = page vb \<Longrightarrow> umapped s d va = umapped s d vb"
  using pte_page [of va vb s d] by (simp add: umapped_def below_kernbase)

lemma uframe_page: "page va = page vb \<Longrightarrow> uframe s d va = uframe s d vb"
  using pte_page [of va vb s d] by (simp add: uframe_def)

section \<open>Unmapping\<close>

text \<open>\<^verbatim>\<open>kfree\<close> of the page behind an entry, which is then cleared.\<close>

lemma kfree_touches:
  assumes "kmem_inv s fs" "kpage s v" "v \<notin> set fs"
  obtains t where "kfree v s = Ok () t" "kmem_inv t (v # fs)" "touches {v} s t"
proof (rule kfree_spec [OF assms])
  fix t assume t: "kfree v s = Ok () t" "kmem_inv t (v # fs)" "\<And>x. \<not> within v PGSIZE x \<Longrightarrow> memory t x = memory s x"
    "t = s\<lparr>memory := memory t, freelist := v\<rparr>"
  then have "touches {v} s t" unfolding touches_def by (intro exI [of _ "memory t"] exI [of _ v]) simp
  then show thesis using that t(1,2) by blast
qed

lemma dealloc_page_spec:
  assumes inv: "um_inv s d fs" and m: "umapped s d va" and pr: "present (pde s d (dir_ix va))"
  obtains t where "dealloc_page (slot (ptab s d (dir_ix va)) (tab_ix va)) s = Ok () t" "um_inv t d (uframe s d va # fs)"
    "pt_pages t d = pt_pages s d" "\<And>vb. pte t d vb = (if page vb = page va then 0 else pte s d vb)"
    "touches (insert (uframe s d va) (pt_pages s d)) s t"
proof -
  let ?f = "uframe s d va" and ?a = "slot (ptab s d (dir_ix va)) (tab_ix va)"
  note I = um_invD [OF inv] and F = um_invD(6-8) [OF inv m]
  obtain s1 where s1: "kfree ?f s = Ok () s1" "kmem_inv s1 (?f # fs)" and t1: "touches {?f} s s1"
    by (rule kfree_touches [OF I(2) F(1,3)])
  have al: "\<forall>p \<in> {?f}. aligned p" "{?f} \<inter> pt_pages s d = {}" using kpage_nonzero(4) [OF F(1)] F(2) by auto
  note P = pt_frame [OF I(3) t1 al]
  have d: "aligned d" "d \<notin> {?f}" using pt_wf_dir(1) [OF I(3)] pt_wf_dir(3) [of d s] F(2) by auto
  have pd: "pde s1 d i = pde s d i" if "i < 1024" for i
    unfolding pde_def by (rule touches_slot [OF t1 d al(1) that])
  have v1: "vm_inv s1 d (?f # fs)" using s1(2) P(1,2) I(4) F(2) by (auto simp: vm_inv_def)
  have pr1: "present (pde s1 d (dir_ix va))" using pd pr by simp
  have pt1: "ptab s1 d (dir_ix va) = ptab s d (dir_ix va)" using pd by (simp add: ptab_def)
  define t where "t = store32 ?a 0 s1"
  note S = store_pte [OF v1 pr1, of 0, unfolded pt1, folded t_def]
  have pte: "pte t d vb = (if page vb = page va then 0 else pte s d vb)" for vb using S(3) P(3) by simp
  have tt: "touches (insert ?f (pt_pages s d)) s t"
    using touches_trans [OF touches_mono [OF t1] touches_mono [OF S(4)]] P(2) by blast
  have um: "umapped t d vb \<longleftrightarrow> page vb \<noteq> page va \<and> umapped s d vb" for vb
    by (simp add: umapped_def pte) (simp add: present_def)
  have uf: "uframe t d vb = uframe s d vb" if "page vb \<noteq> page va" for vb using that by (simp add: uframe_def pte)
  have pp: "pt_pages t d = pt_pages s d" using S(2) P(2) by simp
  have "um_inv t d (?f # fs)"
  proof (rule um_invI [OF S(1)])
    show "KERNBASE < kend t" using I(5) touchesD(1) [OF tt] by simp
    fix vb assume "umapped t d vb"
    then have b: "page vb \<noteq> page va" "umapped s d vb" using um by blast+
    then have "uframe s d vb \<noteq> ?f" using I(9) [OF b(2) m] by blast
    then show "kpage t (uframe t d vb) \<and> uframe t d vb \<notin> pt_pages t d \<and> uframe t d vb \<notin> set (?f # fs)"
      using um_invD(6-8) [OF inv b(2)] uf [OF b(1)] pp touchesD(2) [OF tt] by simp
  next
    fix vb vc assume "umapped t d vb" "umapped t d vc" "uframe t d vb = uframe t d vc"
    then show "page vb = page vc" using um uf um_invD(9) [OF inv, of vb vc] by metis
  qed
  moreover have "PTE_ADDR (pte s d va) \<noteq> 0"
  proof
    assume "PTE_ADDR (pte s d va) = 0"
    then have "?f = KERNBASE" by (simp add: uframe_def P2V_def)
    then show False using F(1) I(5) by (metis kpage_def leD)
  qed
  then have "dealloc_page ?a s = Ok () t"
    using s1(1) m load_pte [OF pr] by (simp add: dealloc_page_def t_def umapped_def present_def uframe_def Let_def)
  ultimately show thesis using that pp pte tt by blast
qed

lemma PDX_less: "unat (PDX a) < 1024"
  using unat_lt32 [of a] by (simp add: unat_PDX less_mult_imp_div_less)

lemma unat_PGADDR: "d < 1024 \<Longrightarrow> unat (PGADDR (of_nat d) 0 0) = d * 2 ^ 22"
  by (simp add: PGADDR_def push_bit_eq_mult unat_word_ariths unat_of_nat32 mult.commute)

lemma unat_dealloc_skip:
  assumes "a < KERNBASE"
  shows "unat (dealloc_next a True) = (unat a div 2 ^ 22 + 1) * 2 ^ 22"
proof -
  have "unat a < 512 * 2 ^ 22" using assms by (simp add: word_less_nat_alt)
  then have d: "unat a div 2 ^ 22 < 512" by (simp only: less_mult_imp_div_less)
  have "PDX a + 1 = of_nat (unat a div 2 ^ 22 + 1)"
    unfolding unat_PDX [symmetric] by simp
  then show ?thesis using unat_PGADDR [of "unat a div 2 ^ 22 + 1"] d by (simp add: dealloc_next_def add.commute)
qed

lemma page_unat: "aligned a \<Longrightarrow> unat a = page a * PGSIZE"
  by (auto simp: aligned_def page_def)

lemma dealloc_next_page:
  assumes "aligned a" "a < KERNBASE"
  shows "aligned (dealloc_next a skip)" "\<not> dealloc_next a skip \<le> a"
    "page (dealloc_next a skip) = (if skip then (page a div 1024 + 1) * 1024 else page a + 1)"
proof -
  have pa: "page a < 0x80000" using assms(2) by (simp add: below_kernbase)
  define n where "n = (if skip then (page a div 1024 + 1) * 1024 else page a + 1)"
  have "unat (dealloc_next a True) = (page a div 1024 + 1) * 1024 * PGSIZE"
    unfolding unat_dealloc_skip [OF assms(2)] by (simp add: page_def div_mult2_eq [symmetric])
  moreover have "unat (dealloc_next a False) = (page a + 1) * PGSIZE"
    using pa page_unat [OF assms(1)] by (simp add: dealloc_next_def unat_add_no_overflow)
  ultimately have u: "unat (dealloc_next a skip) = n * PGSIZE" by (cases skip) (simp_all only: n_def if_True if_False)
  have "page a < n" using dividend_less_div_times [of 1024 "page a"] by (simp add: n_def)
  then show "\<not> dealloc_next a skip \<le> a" unfolding word_le_nat_alt u page_unat [OF assms(1)] by simp
  show "aligned (dealloc_next a skip)" unfolding aligned_def u by simp
  have "page (dealloc_next a skip) = n" unfolding page_def u by simp
  then show "page (dealloc_next a skip) = (if skip then (page a div 1024 + 1) * 1024 else page a + 1)" unfolding n_def .
qed

definition npages :: "u32 \<Rightarrow> nat" where
  "npages sz = (unat sz + (PGSIZE - 1)) div PGSIZE"

lemma less_npages: "aligned a \<Longrightarrow> a < sz \<longleftrightarrow> page a < npages sz"
  by (auto simp: word_less_nat_alt page_unat npages_def)

lemma npages_kernbase: "sz \<le> KERNBASE \<Longrightarrow> npages sz \<le> 0x80000"
  by (simp add: npages_def word_le_nat_alt div_le_mono [of _ "0x80000 * 4096 + 4095", THEN order_trans])

definition gone :: "'a mst_scheme \<Rightarrow> u32 \<Rightarrow> nat \<Rightarrow> nat \<Rightarrow> u32 set" where
  "gone s d n m = {vb. n \<le> page vb \<and> page vb < m \<and> present (pte s d vb)}"

lemma gone_one: "gone s d (page a) (page a + 1) = {vb. page vb = page a \<and> present (pte s d a)}"
  unfolding gone_def by (metis (no_types, lifting) Collect_cong add.commute less_Suc_eq_le order_antisym order_refl plus_1_eq_Suc pte_page)

text \<open>One turn of the loop, which either skips a directory entry or looks at one page.\<close>

lemma dealloc_step:
  assumes inv: "um_inv s d fs" and a: "aligned a" "a < KERNBASE"
  defines "skip \<equiv> \<not> present (pde s d (dir_ix a))"
  defines "G \<equiv> gone s d (page a) (page (dealloc_next a skip))"
  shows "\<exists>u fs'. (if skip then Ok () s else dealloc_page (slot (ptab s d (dir_ix a)) (tab_ix a)) s) = Ok () u \<and> um_inv u d (fs' @ fs) \<and>
    pt_pages u d = pt_pages s d \<and> (\<forall>vb. pte u d vb = (if vb \<in> G then 0 else pte s d vb)) \<and>
    set fs' = uframe s d ` G \<and> touches (set fs' \<union> pt_pages s d) s u \<and> (G = {} \<or> \<not> skip)"
proof (cases skip)
  case True
  have h: "dir_ix vb = dir_ix a" if "page a \<le> page vb" "page vb < (page a div 1024 + 1) * 1024" for vb
  proof -
    have "page a div 1024 \<le> page vb div 1024" using that(1) by (rule div_le_mono)
    moreover have "page vb div 1024 < page a div 1024 + 1" using that(2) by (rule less_mult_imp_div_less)
    moreover have "dir_ix v = page v div 1024" for v by (simp add: dir_ix_def unat_PDX page_def div_mult2_eq [symmetric])
    ultimately show ?thesis by simp
  qed
  have e: "\<not> present (pte s d vb)" if "page a \<le> page vb" "page vb < (page a div 1024 + 1) * 1024" for vb
    using h [OF that] True by (simp add: skip_def pte_def) (simp add: present_def)
  have n: "page (dealloc_next a skip) = (page a div 1024 + 1) * 1024" using True dealloc_next_page(3) [OF a, of True] by (simp only: if_True)
  have "G = {}" unfolding G_def gone_def n using e by blast
  then show ?thesis using True inv by (intro exI [of _ s] exI [of _ "[]"]) simp
next
  case False
  have G: "G = {vb. page vb = page a \<and> present (pte s d a)}" unfolding G_def gone_one [symmetric] using False dealloc_next_page(3) [OF a, of False] by simp
  have pr: "present (pde s d (dir_ix a))" using False by (simp add: skip_def)
  show ?thesis
  proof (cases "present (pte s d a)")
    case True
    then have m: "umapped s d a" using a by (simp add: umapped_def)
    obtain t where t: "dealloc_page (slot (ptab s d (dir_ix a)) (tab_ix a)) s = Ok () t" "um_inv t d (uframe s d a # fs)"
      "pt_pages t d = pt_pages s d" "\<And>vb. pte t d vb = (if page vb = page a then 0 else pte s d vb)"
      "touches (insert (uframe s d a) (pt_pages s d)) s t" by (rule dealloc_page_spec [OF inv m pr]) blast
    have "a \<in> G" "\<And>vb. vb \<in> G \<Longrightarrow> uframe s d vb = uframe s d a" using True uframe_page by (auto simp: G)
    then have "uframe s d ` G = {uframe s d a}" by blast
    then show ?thesis using t True False G by (intro exI [of _ t] exI [of _ "[uframe s d a]"]) simp
  next
    case F: False
    then have "G = {}" by (simp add: G)
    moreover have "dealloc_page (slot (ptab s d (dir_ix a)) (tab_ix a)) s = Ok () s"
      using F load_pte [OF pr] by (simp add: dealloc_page_def present_def)
    ultimately show ?thesis using inv False by (intro exI [of _ s] exI [of _ "[]"]) simp
  qed
qed

lemma deallocuvm_loop_spec:
  assumes "um_inv s d fs" "aligned a" "oldsz \<le> KERNBASE"
  shows "\<exists>t fs'. deallocuvm_loop d a oldsz s = Ok () t \<and> um_inv t d (fs' @ fs) \<and> pt_pages t d = pt_pages s d \<and>
    (\<forall>vb. pte t d vb = (if vb \<in> gone s d (page a) (npages oldsz) then 0 else pte s d vb)) \<and>
    set fs' = uframe s d ` gone s d (page a) (npages oldsz) \<and> touches (set fs' \<union> pt_pages s d) s t"
  using assms
proof (induction "npages oldsz - page a" arbitrary: a s fs rule: less_induct)
  case less
  show ?case
  proof (cases "a < oldsz")
    case False
    then have "npages oldsz \<le> page a" using less_npages [OF less.prems(2)] by simp
    then have "gone s d (page a) (npages oldsz) = {}" by (auto simp: gone_def)
    with False less.prems(1) show ?thesis by (intro exI [of _ s] exI [of _ "[]"]) (simp add: deallocuvm_loop.simps [of d a])
  next
    case True
    have ak: "a < KERNBASE" using True less.prems(3) by simp
    have pn: "page a < npages oldsz" using True less_npages [OF less.prems(2)] by simp
    define skip where "skip = (\<not> present (pde s d (dir_ix a)))"
    note N = dealloc_next_page [OF less.prems(2) ak, of skip]
    have N4: "page a < page (dealloc_next a skip)" using N(3) dividend_less_div_times [of 1024 "page a"] by simp
    have pt: "fst (walkpgdir d a False s) = (if skip then 0 else slot (ptab s d (dir_ix a)) (tab_ix a))"
      by (simp add: walk_find skip_def)
    have sz: "skip \<longleftrightarrow> fst (walkpgdir d a False s) = 0"
    proof (cases skip)
      case False
      then have "kpage s (ptab s d (dir_ix a))" using pt_wfD(1) [OF um_invD(3) [OF less.prems(1)]] by (simp add: skip_def)
      then show ?thesis using False pt slot_nonzero [of s _ "tab_ix a"] by simp
    qed (simp add: pt)
    note D = dealloc_step [OF less.prems(1,2) ak, folded skip_def]
    obtain u fs1 where U: "(if skip then Ok () s else dealloc_page (slot (ptab s d (dir_ix a)) (tab_ix a)) s) = Ok () u" "um_inv u d (fs1 @ fs)"
        "pt_pages u d = pt_pages s d" "\<forall>vb. pte u d vb = (if vb \<in> gone s d (page a) (page (dealloc_next a skip)) then 0 else pte s d vb)"
        "set fs1 = uframe s d ` gone s d (page a) (page (dealloc_next a skip))" "touches (set fs1 \<union> pt_pages s d) s u"
        "gone s d (page a) (page (dealloc_next a skip)) = {} \<or> \<not> skip" using D by blast
    have lt: "npages oldsz - page (dealloc_next a skip) < npages oldsz - page a" using N4 pn by linarith
    obtain t fs2 where T: "deallocuvm_loop d (dealloc_next a skip) oldsz u = Ok () t" "um_inv t d (fs2 @ fs1 @ fs)" "pt_pages t d = pt_pages u d"
      "\<forall>vb. pte t d vb = (if vb \<in> gone u d (page (dealloc_next a skip)) (npages oldsz) then 0 else pte u d vb)"
      "set fs2 = uframe u d ` gone u d (page (dealloc_next a skip)) (npages oldsz)" "touches (set fs2 \<union> pt_pages u d) u t"
      using less.hyps [OF lt U(2) N(1) less.prems(3)] by blast
    have m: "(if fst (walkpgdir d a False s) = 0 then Ok () s else dealloc_page (fst (walkpgdir d a False s)) s) = Ok () u"
    proof (cases skip)
      case True
      then show ?thesis using U(1) unfolding pt by simp
    next
      case False
      then have "fst (walkpgdir d a False s) \<noteq> 0" using sz by simp
      then show ?thesis using U(1) False unfolding pt by simp
    qed
    have l: "deallocuvm_loop d a oldsz s = Ok () t"
      by (subst deallocuvm_loop.simps) (simp only: True if_True Let_def m on_simps, simp only: sz [symmetric] N(2) if_False T(1))
    have nx: "gone s d (page a) (npages oldsz) =
        gone s d (page a) (page (dealloc_next a skip)) \<union> gone s d (page (dealloc_next a skip)) (npages oldsz)"
      using U(7) N(3) N4 pn by (auto simp: gone_def not_less)
    have pu: "pte u d vb = pte s d vb" if "page (dealloc_next a skip) \<le> page vb" for vb
      using U(4) that by (simp add: gone_def)
    have gu: "gone u d (page (dealloc_next a skip)) (npages oldsz) = gone s d (page (dealloc_next a skip)) (npages oldsz)"
      using pu by (auto simp: gone_def)
    have "uframe u d ` gone s d (page (dealloc_next a skip)) (npages oldsz) = uframe s d ` gone s d (page (dealloc_next a skip)) (npages oldsz)"
      using pu by (intro image_cong) (auto simp: uframe_def gone_def)
    then have set: "set (fs2 @ fs1) = uframe s d ` gone s d (page a) (npages oldsz)" using T(5) U(5) unfolding nx gu image_Un by auto
    have "touches (set (fs2 @ fs1) \<union> pt_pages s d) s t"
      using touches_trans [OF touches_mono [OF U(6)] touches_mono [OF T(6)], of "set (fs2 @ fs1) \<union> pt_pages s d"] U(3) by auto
    moreover have "\<forall>vb. pte t d vb = (if vb \<in> gone s d (page a) (npages oldsz) then 0 else pte s d vb)"
      using T(4) U(4) unfolding gu nx by auto
    ultimately show ?thesis using l T(2,3) U(3) set by (intro exI [of _ t] exI [of _ "fs2 @ fs1"]) simp
  qed
qed

section \<open>Giving a whole address space back\<close>

lemma dir_not_table:
  assumes "pt_wf s d" "n \<le> 1024"
  shows "d \<notin> {ptab s d i | i. i < n \<and> present (pde s d i)}"
proof
  assume "d \<in> {ptab s d i | i. i < n \<and> present (pde s d i)}"
  then obtain i where i: "i < n" "present (pde s d i)" "ptab s d i = d" by auto
  then show False using pt_wfD(3) [OF assms(1) _ i(2)] assms(2) by simp
qed

lemma freevm_tables:
  assumes inv: "vm_inv s d fs" and n: "n \<le> 1024"
  shows "\<exists>t gs. loop (freevm_entry d) [0..<n] s = Ok () t \<and> kmem_inv t (gs @ fs) \<and>
    set gs = {ptab s d i | i. i < n \<and> present (pde s d i)} \<and> touches (set gs) s t"
  using n
proof (induction n)
  case 0
  then show ?case using inv by (intro exI [of _ s] exI [of _ "[]"]) (simp add: vm_inv_def)
next
  case (Suc n)
  have w: "pt_wf s d" "pt_pages s d \<inter> set fs = {}" using inv by (simp_all add: vm_inv_def)
  obtain t gs where t: "loop (freevm_entry d) [0..<n] s = Ok () t" "kmem_inv t (gs @ fs)"
    "set gs = {ptab s d i | i. i < n \<and> present (pde s d i)}" "touches (set gs) s t" using Suc by auto
  have g: "d \<notin> set gs" unfolding t(3) using w(1) Suc.prems by (intro dir_not_table) simp_all
  have al: "\<forall>p \<in> set gs. aligned p" unfolding t(3) using pt_wfD(2) [OF w(1)] Suc.prems by auto
  have e: "pde t d n = pde s d n"
    unfolding pde_def by (rule touches_slot [OF t(4) pt_wf_dir(1) [OF w(1)] g al]) (use Suc.prems in simp)
  have s4: "slot d n = d + of_nat (4 * n)" by (simp add: slot_def)
  show ?case
  proof (cases "present (pde s d n)")
    case False
    then have "freevm_entry d n t = Ok () t" using e by (simp add: freevm_entry_def pde_def present_def s4)
    moreover have "{ptab s d i | i. i < Suc n \<and> present (pde s d i)} = set gs" unfolding t(3) using False less_Suc_eq by auto
    ultimately show ?thesis using t by (intro exI [of _ t] exI [of _ gs]) (simp add: loop_Suc del: upt_Suc)
  next
    case True
    let ?p = "ptab s d n"
    note P = pt_wfD [OF w(1) _ True]
    have "?p \<notin> set gs"
    proof
      assume "?p \<in> set gs"
      then obtain i where i: "i < n" "present (pde s d i)" "ptab s d i = ?p" unfolding t(3) by auto
      then have "i = n" using Suc.prems by (intro pt_wf_inj [OF w(1) _ _ i(2) True]) simp_all
      then show False using i(1) by simp
    qed
    then have nf: "?p \<notin> set (gs @ fs)" using P(4) w(2) Suc.prems by auto
    have kp: "kpage t ?p" using P(1) touchesD(2) [OF t(4)] Suc.prems by simp
    obtain u where u: "kfree ?p t = Ok () u" "kmem_inv u (?p # gs @ fs)" "touches {?p} t u"
      by (rule kfree_touches [OF t(2) kp nf])
    have "freevm_entry d n t = Ok () u" using e True u(1) by (simp add: freevm_entry_def pde_def present_def s4 ptab_def)
    moreover have "{ptab s d i | i. i < Suc n \<and> present (pde s d i)} = set (?p # gs)"
      unfolding list.set t(3) using True less_Suc_eq by auto
    moreover have "touches (set (?p # gs)) s u" by (rule touches_trans [OF touches_mono [OF t(4)] touches_mono [OF u(3)]]) auto
    ultimately show ?thesis using t(1) u(2) by (intro exI [of _ u] exI [of _ "?p # gs"]) (simp add: loop_Suc del: upt_Suc)
  qed
qed

lemma gone_all: "um_inv s d fs \<Longrightarrow> gone s d 0 (npages KERNBASE) = {va. umapped s d va}"
  by (auto simp: gone_def npages_def umapped_def below_kernbase)

lemma freevm_spec:
  assumes inv: "um_inv s d fs"
  obtains t fs' where "freevm d s = Ok () t" "kmem_inv t fs'" "set fs' = set fs \<union> pt_pages s d \<union> uframe s d ` {va. umapped s d va}"
    "touches (pt_pages s d \<union> uframe s d ` {va. umapped s d va}) s t"
proof -
  have al: "aligned 0" "page 0 = 0" by (simp_all add: aligned_def page_def)
  obtain t1 fs1 where t1: "deallocuvm_loop d 0 KERNBASE s = Ok () t1" "um_inv t1 d (fs1 @ fs)" "pt_pages t1 d = pt_pages s d"
    "set fs1 = uframe s d ` {va. umapped s d va}" "touches (set fs1 \<union> pt_pages s d) s t1"
    using deallocuvm_loop_spec [OF inv al(1), of KERNBASE] unfolding al(2) gone_all [OF inv] by auto
  have v1: "vm_inv t1 d (fs1 @ fs)" using um_invD(1) [OF t1(2)] .
  obtain t2 gs where t2: "loop (freevm_entry d) [0..<1024] t1 = Ok () t2" "kmem_inv t2 (gs @ fs1 @ fs)"
    "set gs = {ptab t1 d i | i. i < 1024 \<and> present (pde t1 d i)}" "touches (set gs) t1 t2"
    using freevm_tables [OF v1, of 1024] by auto
  have pp: "pt_pages s d = insert d (set gs)" unfolding t1(3) [symmetric] t2(3) by (simp add: pt_pages_def)
  have w: "pt_wf t1 d" using um_invD(3) [OF t1(2)] .
  have "d \<notin> set gs" unfolding t2(3) by (rule dir_not_table [OF w]) simp
  moreover have "d \<notin> set (fs1 @ fs)" using v1 pt_wf_dir(3) [of d t1] by (auto simp: vm_inv_def)
  moreover have kd: "kpage t2 d" using pt_wf_dir(2) [OF w] touchesD(2) [OF t2(4)] by simp
  ultimately obtain t3 where t3: "kfree d t2 = Ok () t3" "kmem_inv t3 (d # gs @ fs1 @ fs)" "touches {d} t2 t3"
    using kfree_touches [OF t2(2) kd] by auto
  have "PGROUNDUP 0 = 0" by (simp add: PGROUNDUP_def)
  then have "freevm d s = Ok () t3"
    using t1(1) t2(1) t3(1) kpage_nonzero(1) [OF kd] by (simp add: freevm_def deallocuvm_def del: upt_Suc)
  moreover have "touches (pt_pages s d \<union> set fs1) s t3"
    by (rule touches_trans [OF touches_trans [OF touches_mono [OF t1(5)] touches_mono [OF t2(4)]] touches_mono [OF t3(3)]]) (auto simp: pp)
  moreover have "set (d # gs @ fs1 @ fs) = set fs \<union> pt_pages s d \<union> uframe s d ` {va. umapped s d va}" using t1(4) pp by auto
  ultimately show thesis using that t3(2) t1(4) by metis
qed

end
