(* ===== verification/Process_Properties.thy ===== *)
theory Process_Properties
  imports Proc_Frame Kernel_Example Vm_User
begin

text \<open>
  What the routines of \<^verbatim>\<open>system/core/proc.c\<close> promise for the life of processes: exit and wait,
  the scheduler, pids, and kill.
\<close>

section \<open>Exit\<close>

definition sleeping_on :: "'a pst_scheme \<Rightarrow> chan \<Rightarrow> nat \<Rightarrow> bool" where
  "sleeping_on s c i \<longleftrightarrow> p_state (proc s i) = SLEEPING \<and> p_chan (proc s i) = Some c"

text \<open>As \<open>pkeep\<close>, but the running process may have lost its files and its directory.\<close>

definition xkeep :: "'a pst_scheme \<Rightarrow> 'a pst_scheme \<Rightarrow> bool" where
  "xkeep s t \<longleftrightarrow> cur t = cur s \<and> initproc t = initproc s \<and> length (ptable t) = length (ptable s) \<and>
     (\<forall>i < length (ptable s). i \<noteq> cur s \<longrightarrow> woken (proc s i) (proc t i)) \<and>
     p_parent (myproc t) = p_parent (myproc s) \<and> p_pid (myproc t) = p_pid (myproc s) \<and>
     length (p_ofile (myproc t)) = length (p_ofile (myproc s)) \<and>
     (\<forall>fd. p_ofile (myproc s) ! fd = None \<longrightarrow> p_ofile (myproc t) ! fd = None)"

lemma xkeep_refl [simp]: "xkeep s s"
  by (simp add: xkeep_def)

lemma xkeep_trans: "xkeep r s \<Longrightarrow> xkeep s t \<Longrightarrow> xkeep r t"
  by (auto simp: xkeep_def intro: woken_trans)

lemma wokenD: "woken p q \<Longrightarrow> p_parent q = p_parent p \<and> p_pid q = p_pid p \<and> p_ofile q = p_ofile p \<and> p_cwd q = p_cwd p \<and> p_chan q = p_chan p"
  by (auto simp: woken_def)

lemma pkeep_xkeep: "pkeep s t \<Longrightarrow> cur s < length (ptable s) \<Longrightarrow> xkeep s t"
  using wokenD [of "myproc s" "myproc t"] by (auto simp: pkeep_def xkeep_def myproc_def)

lemma list_update_None: "xs ! j = None \<Longrightarrow> xs[i := None] ! j = None"
  by (cases "i < length xs") (auto simp: nth_list_update list_update_beyond)

lemma exit_fd_spec:
  assumes "exit_fd fd s = Ok u t" "cur s < length (ptable s)"
  shows "xkeep s t \<and> (fd < length (p_ofile (myproc s)) \<longrightarrow> p_ofile (myproc t) ! fd = None)"
proof (cases "p_ofile (myproc s) ! fd")
  case None
  then show ?thesis using assms by (simp add: exit_fd_def)
next
  case (Some f)
  obtain v s1 where c: "fileclose f s = Ok v s1" "t = upd_proc (cur s1) (\<lambda>p. p\<lparr>p_ofile := (p_ofile p)[fd := None]\<rparr>) s1"
    using assms(1) by (auto simp: exit_fd_def Some on_eq_Ok)
  have "xkeep s s1" using keeps_fileclose [THEN keepsD, OF pkeep_refl c(1)] assms(2) by (rule pkeep_xkeep)
  then show ?thesis
    using assms(2) unfolding c(2) by (auto simp: xkeep_def upd_proc_def myproc_def nth_list_update list_update_None)
qed

lemma exit_files:
  assumes "loop exit_fd [0..<n] s = Ok u t" "cur s < length (ptable s)" "n \<le> length (p_ofile (myproc s))"
  shows "xkeep s t \<and> (\<forall>fd < n. p_ofile (myproc t) ! fd = None)"
  using assms(1,3)
proof (induction n arbitrary: t u)
  case (Suc n)
  obtain v s1 where l: "loop exit_fd [0..<n] s = Ok v s1" "exit_fd n s1 = Ok u t"
    using Suc.prems(1) by (auto simp: loop_Suc on_eq_Ok simp del: upt_Suc)
  have I: "xkeep s s1" "\<forall>fd < n. p_ofile (myproc s1) ! fd = None" using Suc.IH [OF l(1)] Suc.prems(2) by auto
  then have "cur s1 < length (ptable s1)" using assms(2) by (simp add: xkeep_def)
  note E = exit_fd_spec [OF l(2) this]
  have "n < length (p_ofile (myproc s1))" using I(1) Suc.prems(2) by (simp add: xkeep_def)
  then show ?case using I E xkeep_trans [of s s1 t] by (auto simp: xkeep_def less_Suc_eq)
qed simp

lemma abandon_spec:
  fixes s :: "'a pst_scheme"
  assumes "n \<le> length (ptable s)"
  defines "t \<equiv> fold abandon [0..<n] s"
  shows "cur t = cur s \<and> initproc t = initproc s \<and> length (ptable t) = length (ptable s) \<and>
    (\<forall>i < length (ptable s). \<exists>p. woken (proc s i) p \<and> proc t i =
       p\<lparr>p_parent := if i < n \<and> p_parent (proc s i) = Some (cur s) then Some (initproc s) else p_parent (proc s i)\<rparr>) \<and>
    ((\<exists>i < n. p_parent (proc s i) = Some (cur s) \<and> p_state (proc s i) = ZOMBIE) \<longrightarrow>
      (\<forall>j < length (ptable s). \<not> sleeping_on t (ChanProc (initproc s)) j))"
  using assms(1) unfolding t_def
proof (induction n)
  case 0
  have "proc s i = (proc s i)\<lparr>p_parent := p_parent (proc s i)\<rparr>" for i by simp
  then show ?case by (auto simp: woken_def)
next
  case (Suc n)
  define r where "r = fold abandon [0..<n] s"
  have R: "cur r = cur s" "initproc r = initproc s" "length (ptable r) = length (ptable s)"
    and p: "\<forall>i < length (ptable s). \<exists>p. woken (proc s i) p \<and> proc r i =
       p\<lparr>p_parent := if i < n \<and> p_parent (proc s i) = Some (cur s) then Some (initproc s) else p_parent (proc s i)\<rparr>"
    and z: "(\<exists>i < n. p_parent (proc s i) = Some (cur s) \<and> p_state (proc s i) = ZOMBIE) \<longrightarrow>
      (\<forall>j < length (ptable s). \<not> sleeping_on r (ChanProc (initproc s)) j)"
    using Suc unfolding r_def by auto
  have f: "fold abandon [0..<Suc n] s = abandon n r" by (simp add: r_def)
  have n: "n < length (ptable r)" using Suc.prems R(3) by simp
  obtain q where q: "woken (proc s n) q" "proc r n = q\<lparr>p_parent := p_parent (proc s n)\<rparr>" using p n R(3) by auto
  have zq: "p_state (proc r n) = ZOMBIE \<longleftrightarrow> p_state (proc s n) = ZOMBIE" using q by (auto simp: woken_def)
  show ?case
  proof (cases "p_parent (proc s n) = Some (cur s)")
    case False
    then have "abandon n r = r" using q R by (simp add: abandon_def)
    moreover have "(if i < Suc n \<and> p_parent (proc s i) = Some (cur s) then Some (initproc s) else p_parent (proc s i)) =
        (if i < n \<and> p_parent (proc s i) = Some (cur s) then Some (initproc s) else p_parent (proc s i))" for i
      using False by (auto simp: less_Suc_eq)
    ultimately show ?thesis unfolding f using R p z False by (simp add: less_Suc_eq) blast
  next
    case True
    let ?r = "upd_proc n (\<lambda>p. p\<lparr>p_parent := Some (initproc r)\<rparr>) r"
    have ab: "abandon n r = (if p_state (proc s n) = ZOMBIE then wakeup (ChanProc (initproc s)) ?r else ?r)"
      using True q R n zq by (simp add: abandon_def Let_def upd_proc_def)
    have pr: "\<exists>p. woken (proc s i) p \<and> proc ?r i =
        p\<lparr>p_parent := if i < Suc n \<and> p_parent (proc s i) = Some (cur s) then Some (initproc s) else p_parent (proc s i)\<rparr>"
      if "i < length (ptable s)" for i
      using p that True R n q by (cases "i = n") (auto simp: upd_proc_def less_Suc_eq)
    have wk: "woken a b \<Longrightarrow> woken a (if p_state b = SLEEPING \<and> p_chan b = Some c then b\<lparr>p_state := RUNNABLE\<rparr> else b)" for a b c
      by (auto simp: woken_def)
    show ?thesis
    proof (cases "p_state (proc s n) = ZOMBIE")
      case F: False
      have "sleeping_on ?r (ChanProc (initproc s)) j = sleeping_on r (ChanProc (initproc s)) j" for j
        using n by (cases "n = j") (simp_all add: sleeping_on_def upd_proc_def)
      then show ?thesis unfolding f ab using F R pr z by (auto simp: less_Suc_eq)
    next
      case T: True
      have "\<exists>p. woken (proc s i) p \<and> proc (wakeup (ChanProc (initproc s)) ?r) i =
          p\<lparr>p_parent := if i < Suc n \<and> p_parent (proc s i) = Some (cur s) then Some (initproc s) else p_parent (proc s i)\<rparr>"
        if i: "i < length (ptable s)" for i
      proof -
        obtain b where b: "woken (proc s i) b" "proc ?r i = b\<lparr>p_parent :=
            if i < Suc n \<and> p_parent (proc s i) = Some (cur s) then Some (initproc s) else p_parent (proc s i)\<rparr>" using pr [OF i] by blast
        show ?thesis using wk [OF b(1), of "ChanProc (initproc s)"] b(2) i R
          by (intro exI conjI) (auto simp: wakeup_def nth_wakeup1)
      qed
      moreover have "\<not> sleeping_on (wakeup (ChanProc (initproc s)) ?r) (ChanProc (initproc s)) j" if "j < length (ptable s)" for j
        using that R by (auto simp: sleeping_on_def wakeup_def nth_wakeup1)
      ultimately show ?thesis unfolding f ab using T R by simp
    qed
  qed
qed


lemma exit_phases:
  assumes "length (ptable s) = NPROC" "cur s < NPROC" "length (p_ofile (myproc s)) = NOFILE" "exit s = Ok () s'"
  obtains t where "xkeep s t" "p_cwd (myproc t) = None" "\<forall>fd < NOFILE. p_ofile (myproc t) ! fd = None"
    "\<forall>q. p_parent (myproc s) = Some q \<longrightarrow> (\<forall>j < NPROC. \<not> sleeping_on t (ChanProc q) j)"
    "s' = upd_proc (cur s) (\<lambda>p. p\<lparr>p_state := ZOMBIE\<rparr>) (fold abandon [0..<NPROC] t)"
proof -
  obtain u s1 v s2 d w s3 x s4 where x: "loop exit_fd [0..<NOFILE] s = Ok u s1" "begin_op s1 = Ok v s2"
      "p_cwd (myproc s2) = Some d" "iput d s2 = Ok w s3" "end_op s3 = Ok x s4"
    and s': "s' = (let s = upd_proc (cur s4) (\<lambda>p. p\<lparr>p_cwd := None\<rparr>) s4;
                s = (case p_parent (myproc s) of Some q \<Rightarrow> wakeup (ChanProc q) s | None \<Rightarrow> s);
                s = fold abandon [0..<NPROC] s
            in upd_proc (cur s) (\<lambda>p. p\<lparr>p_state := ZOMBIE\<rparr>) s)"
    using assms(4) unfolding exit_def by (auto simp: on_eq_Ok Let_def simp del: upt_Suc split: if_splits option.splits)
  define s5 where "s5 = upd_proc (cur s4) (\<lambda>p. p\<lparr>p_cwd := None\<rparr>) s4"
  define s6 where "s6 = (case p_parent (myproc s5) of Some q \<Rightarrow> wakeup (ChanProc q) s5 | None \<Rightarrow> s5)"
  define s7 where "s7 = fold abandon [0..<NPROC] s6"
  have s': "s' = upd_proc (cur s7) (\<lambda>p. p\<lparr>p_state := ZOMBIE\<rparr>) s7"
    unfolding s7_def s6_def s5_def s' Let_def ..
  have len: "cur s < length (ptable s)" using assms by simp
  have files: "xkeep s s1" "\<forall>fd < NOFILE. p_ofile (myproc s1) ! fd = None" using exit_files [OF x(1) len] assms(3) by auto
  have l1: "cur s1 < length (ptable s1)" using files(1) len by (simp add: xkeep_def)
  have "pkeep s1 s2" using keepsD [OF _ x(2)] by (simp add: keep)
  then have "pkeep s1 s3" using keepsD [OF _ x(4)] by (simp add: keep)
  then have "pkeep s1 s4" using keepsD [OF _ x(5)] by (simp add: keep)
  then have x4: "xkeep s1 s4" using l1 by (rule pkeep_xkeep)
  then have x5: "xkeep s1 s5" and c5: "p_cwd (myproc s5) = None"
    using l1 by (auto simp: s5_def xkeep_def upd_proc_def myproc_def)
  have l5: "cur s5 < length (ptable s5)" using x5 l1 by (simp add: xkeep_def)
  have "pkeep s5 s6" by (auto simp: s6_def keep split: option.split)
  then have x6: "xkeep s5 s6" and c6: "p_cwd (myproc s6) = None"
    using l5 pkeep_xkeep wokenD [of "myproc s5" "myproc s6"] c5 by (auto simp: pkeep_def myproc_def)
  have xs: "xkeep s s6" using xkeep_trans files(1) x5 x6 by blast
  have par: "p_parent (myproc s5) = p_parent (myproc s)" using xkeep_trans [OF files(1) x5] by (simp add: xkeep_def)
  have fd6: "\<forall>fd < NOFILE. p_ofile (myproc s6) ! fd = None" using files(2) xkeep_trans [OF x5 x6] by (simp add: xkeep_def)
  have len6: "length (ptable s6) = NPROC" "cur s6 = cur s" using xs assms by (simp_all add: xkeep_def)
  have "cur s7 = cur s" using abandon_spec [of NPROC s6] len6 by (simp add: s7_def)
  moreover have "\<not> sleeping_on s6 (ChanProc q) j" if "p_parent (myproc s) = Some q" "j < NPROC" for q j
    using that par len6 by (auto simp: s6_def sleeping_on_def wakeup_def nth_wakeup1)
  ultimately show thesis using that [OF xs c6 fd6] s' by (simp add: s7_def)
qed

text \<open>
  C14. \<^verbatim>\<open>exit\<close> leaves the process a zombie with its pid, without open files and without a working directory. Its
  children, living or dead, become children of the initial process and no other process changes its parent. Nobody is left
  sleeping in \<^verbatim>\<open>wait\<close> on the parent's channel, nor on that of the initial process if it inherited a zombie; the other
  processes are only ever woken up.
\<close>

theorem exit_correct:
  assumes "length (ptable s) = NPROC" "cur s < NPROC" "length (p_ofile (myproc s)) = NOFILE" "exit s = Ok () s'"
  shows "cur s' = cur s \<and> p_state (proc s' (cur s)) = ZOMBIE \<and> p_pid (proc s' (cur s)) = p_pid (myproc s) \<and>
    (\<forall>fd < NOFILE. p_ofile (proc s' (cur s)) ! fd = None) \<and> p_cwd (proc s' (cur s)) = None \<and>
    (\<forall>i < NPROC. p_parent (proc s' i) = (if p_parent (proc s i) = Some (cur s) then Some (initproc s) else p_parent (proc s i))) \<and>
    (\<forall>i < NPROC. i \<noteq> cur s \<longrightarrow> (\<exists>p. woken (proc s i) p \<and> proc s' i = p\<lparr>p_parent := p_parent (proc s' i)\<rparr>)) \<and>
    (\<forall>q. p_parent (myproc s) = Some q \<longrightarrow> (\<forall>j < NPROC. \<not> sleeping_on s' (ChanProc q) j)) \<and>
    ((\<exists>i < NPROC. i \<noteq> cur s \<and> p_parent (proc s i) = Some (cur s) \<and> p_state (proc s i) = ZOMBIE) \<longrightarrow>
      (\<forall>j < NPROC. \<not> sleeping_on s' (ChanProc (initproc s)) j))"
proof -
  obtain t where t: "xkeep s t" "p_cwd (myproc t) = None" "\<forall>fd < NOFILE. p_ofile (myproc t) ! fd = None"
    "\<forall>q. p_parent (myproc s) = Some q \<longrightarrow> (\<forall>j < NPROC. \<not> sleeping_on t (ChanProc q) j)"
    and s': "s' = upd_proc (cur s) (\<lambda>p. p\<lparr>p_state := ZOMBIE\<rparr>) (fold abandon [0..<NPROC] t)"
    by (rule exit_phases [OF assms])
  let ?a = "fold abandon [0..<NPROC] t"
  have T: "cur t = cur s" "initproc t = initproc s" "length (ptable t) = NPROC" using t(1) assms by (simp_all add: xkeep_def)
  have pa: "p_parent (proc t i) = p_parent (proc s i)" if "i < NPROC" for i
    using that t(1) wokenD assms T by (cases "i = cur s") (auto simp: xkeep_def myproc_def)
  note A = abandon_spec [of NPROC t, unfolded T, simplified]
  have ap: "\<exists>p. woken (proc t i) p \<and> proc ?a i =
       p\<lparr>p_parent := if p_parent (proc s i) = Some (cur s) then Some (initproc s) else p_parent (proc s i)\<rparr>" if "i < NPROC" for i
    using A that unfolding pa [OF that, symmetric] by auto
  have az: "\<not> sleeping_on ?a (ChanProc (initproc s)) j"
    if "i < NPROC" "p_parent (proc s i) = Some (cur s)" "p_state (proc t i) = ZOMBIE" "j < NPROC" for i j
    using A that unfolding pa [OF that(1), symmetric] by blast
  have P: "proc s' i = (if i = cur s then (proc ?a i)\<lparr>p_state := ZOMBIE\<rparr> else proc ?a i)" if "i < NPROC" for i
    using that assms(2) A by (simp add: s' upd_proc_def)
  have sl: "sleeping_on s' c j \<Longrightarrow> sleeping_on ?a c j" "sleeping_on ?a c j \<Longrightarrow> sleeping_on t c j" if "j < NPROC" for c j
    using P [OF that] ap [OF that] by (auto simp: sleeping_on_def woken_def split: if_splits)
  obtain p where "woken (myproc t) p" "proc ?a (cur s) =
       p\<lparr>p_parent := if p_parent (proc s (cur s)) = Some (cur s) then Some (initproc s) else p_parent (proc s (cur s))\<rparr>"
    using ap [OF assms(2)] T by (auto simp: myproc_def)
  then have c: "p_state (proc s' (cur s)) = ZOMBIE" "p_pid (proc s' (cur s)) = p_pid (myproc t)"
    "p_ofile (proc s' (cur s)) = p_ofile (myproc t)" "p_cwd (proc s' (cur s)) = None"
    using P [OF assms(2)] wokenD t(2) by auto
  have o: "\<exists>p. woken (proc s i) p \<and> proc s' i = p\<lparr>p_parent := p_parent (proc s' i)\<rparr>" if "i < NPROC" "i \<noteq> cur s" for i
  proof -
    have "woken (proc s i) (proc t i)" using that t(1) assms(1) by (simp add: xkeep_def)
    then show ?thesis using P [OF that(1)] ap [OF that(1)] that(2) woken_trans by fastforce
  qed
  have z: "p_state (proc t i) = ZOMBIE" if "i < NPROC" "i \<noteq> cur s" "p_state (proc s i) = ZOMBIE" for i
    using that t(1) assms(1) by (auto simp: xkeep_def woken_def)
  have pp: "p_parent (proc s' i) = (if p_parent (proc s i) = Some (cur s) then Some (initproc s) else p_parent (proc s i))" if "i < NPROC" for i
    using P [OF that] ap [OF that] by auto
  have pid: "p_pid (myproc t) = p_pid (myproc s)" using t(1) by (simp add: xkeep_def)
  have "cur s' = cur s" using A by (simp add: s')
  moreover have "p_pid (proc s' (cur s)) = p_pid (myproc s)" using c(2) pid by simp
  moreover have "\<forall>fd < NOFILE. p_ofile (proc s' (cur s)) ! fd = None" using c(3) t(3) by simp
  moreover have "\<forall>q. p_parent (myproc s) = Some q \<longrightarrow> (\<forall>j < NPROC. \<not> sleeping_on s' (ChanProc q) j)"
    using t(4) sl by blast
  ultimately show ?thesis using c(1,4) pp o az z sl(1) by blast
qed


lemma ex_k_myproc: "myproc ex_k = (ex_proc 2 RUNNING)\<lparr>p_parent := Some 0, p_kstack := 0x80700000, p_pgdir := 0x80701000, p_sz := 4096, p_cwd := Some 1\<rparr>"
  by (simp add: myproc_def) (simp add: ex_k_def)

lemma ex_k_exit: "\<exists>s'. exit ex_k = Ok () s'"
proof -
  have l: "loop exit_fd [0..<NOFILE] ex_k = Ok () ex_k"
    by (rule loop_skip) (simp add: exit_fd_def ex_k_myproc ex_proc_def)
  have b: "begin_op ex_k = Ok () (ex_k\<lparr>lg_outstanding := 2\<rparr>)" by (simp add: begin_op_def)
  let ?s = "ex_k\<lparr>lg_outstanding := 2\<rparr>"
  have m: "p_cwd (myproc ?s) = Some 1" using ex_k_myproc by (simp add: myproc_def)
  have "inode ex_k 1 = ex_dir" by (simp add: ex_k_def)
  then obtain t where i: "iput 1 ?s = Ok () t" "lg_outstanding t = 2" "\<not> lg_committing t"
    by (auto simp: iput_def acquiresleep_def releasesleep_def unlock_inode_def upd_inode_def wakeup_def ex_dir_def
        initsleeplock_def ex_inode_def Let_def)
  have "end_op t = Ok () (wakeup ChanLog (t\<lparr>lg_outstanding := 1\<rparr>))" using i(2,3) by (simp add: end_op_def)
  moreover have "initproc ex_k = 0" by (simp add: ex_k_def)
  ultimately show ?thesis using l b m i(1) by (simp add: exit_def Let_def del: upt_Suc)
qed


theorem exit_correct_witness:
  "\<exists>s'. exit ex_k = Ok () s' \<and> p_state (proc s' 1) = ZOMBIE \<and> p_parent (proc s' 2) = Some 0 \<and> p_parent (proc s' 3) = Some 0 \<and>
    \<not> sleeping_on s' (ChanProc 0) 0"
proof -
  obtain s' where e: "exit ex_k = Ok () s'" using ex_k_exit by blast
  have p: "initproc ex_k = 0" "p_parent (proc ex_k 2) = Some 1" "p_parent (proc ex_k 3) = Some 1" by (simp_all add: ex_k_def)
  have "length (p_ofile (myproc ex_k)) = NOFILE" by (simp add: ex_k_myproc ex_proc_def)
  from exit_correct [OF _ _ this e] e p show ?thesis by (auto simp: ex_k_myproc)
qed

section \<open>Wait\<close>

definition empty_dir :: "'a mst_scheme \<Rightarrow> u32 \<Rightarrow> bool" where
  "empty_dir s pgdir \<longleftrightarrow> (\<forall>i < 1024. load32 s (pgdir + of_nat (4 * i)) AND PTE_P = 0)"

lemma walk_empty: "empty_dir s pgdir \<Longrightarrow> fst (walkpgdir pgdir a False s) = 0"
  using PDX_less [of a] by (auto simp: empty_dir_def walkpgdir_def Let_def dest!: spec [of _ "unat (PDX a)"])

lemma dealloc_empty: "empty_dir s pgdir \<Longrightarrow> deallocuvm_loop pgdir a KERNBASE s = Ok () s"
proof (induction "0x80000000 - unat a" arbitrary: a rule: less_induct)
  case less
  show ?case
  proof (cases "a < KERNBASE")
    case True
    have n: "unat a < unat (dealloc_next a True)"
      unfolding unat_dealloc_skip [OF True] using dividend_less_div_times [of "2 ^ 22" "unat a"] by (simp add: add_mult_distrib)
    have "deallocuvm_loop pgdir (dealloc_next a True) KERNBASE s = Ok () s"
      using n True by (intro less(1) [OF _ less(2)]) (simp add: word_less_nat_alt)
    then show ?thesis
      using n True walk_empty [OF less(2)] by (simp add: deallocuvm_loop.simps [of pgdir a] word_le_nat_alt)
  qed (simp add: deallocuvm_loop.simps [of pgdir a])
qed

lemma freevm_empty: "empty_dir s pgdir \<Longrightarrow> pgdir \<noteq> 0 \<Longrightarrow> freevm pgdir s = kfree pgdir s"
proof -
  assume e: "empty_dir s pgdir" and p: "pgdir \<noteq> 0"
  have "loop (freevm_entry pgdir) [0..<1024] s = Ok () s"
    using e by (intro loop_skip) (simp add: freevm_entry_def empty_dir_def)
  moreover have "PGROUNDUP 0 = 0" by (simp add: PGROUNDUP_def)
  ultimately show ?thesis using dealloc_empty [OF e, of 0] p by (simp add: freevm_def deallocuvm_def del: upt_Suc)
qed


text \<open>
  C15. \<^verbatim>\<open>wait\<close> returns -1 at once without children, or if none is a zombie and the caller has been killed; with living
  children only it sleeps on the caller's channel, changing nothing else. When it returns with a zombie child, the result
  is the pid of that child, whose slot is then free, with its pid, parent, kernel stack and killed flag cleared; the other
  processes are only ever woken up.
\<close>

theorem wait_correct:
  assumes "length (ptable s) = NPROC"
  defines "children \<equiv> {i. i < NPROC \<and> p_parent (proc s i) = Some (cur s)}"
  defines "zombies \<equiv> {i \<in> children. p_state (proc s i) = ZOMBIE}"
  shows "(children = {} \<longrightarrow> wait s = Ok (-1) s) \<and>
    (zombies = {} \<and> p_killed (myproc s) \<longrightarrow> wait s = Ok (-1) s) \<and>
    (zombies = {} \<and> children \<noteq> {} \<and> \<not> p_killed (myproc s) \<longrightarrow>
      wait s = Sleep (ChanProc (cur s)) (upd_proc (cur s) (\<lambda>p. p\<lparr>p_chan := Some (ChanProc (cur s)), p_state := SLEEPING\<rparr>) s)) \<and>
    (\<forall>pid s'. zombies \<noteq> {} \<and> wait s = Ok pid s' \<longrightarrow> (\<exists>i \<in> zombies. pid = p_pid (proc s i) \<and> cur s' = cur s \<and>
       p_state (proc s' i) = UNUSED \<and> p_parent (proc s' i) = None \<and> p_pid (proc s' i) = 0 \<and> p_kstack (proc s' i) = 0 \<and>
       \<not> p_killed (proc s' i) \<and> (\<forall>j < NPROC. j \<noteq> i \<longrightarrow> woken (proc s j) (proc s' j))))"
proof (cases "zombies = {}")
  case True
  then have "first_index (\<lambda>i. p_parent (proc s i) = Some (cur s) \<and> p_state (proc s i) = ZOMBIE) NPROC = None"
    by (auto simp: first_index_None zombies_def children_def)
  with True show ?thesis by (auto simp: wait_def sleep_def children_def)
next
  case False
  then obtain i where i: "first_index (\<lambda>i. p_parent (proc s i) = Some (cur s) \<and> p_state (proc s i) = ZOMBIE) NPROC = Some i"
    by (cases "first_index (\<lambda>i. p_parent (proc s i) = Some (cur s) \<and> p_state (proc s i) = ZOMBIE) NPROC")
      (auto simp: first_index_None zombies_def children_def)
  then have z: "i \<in> zombies" "i < NPROC" by (auto simp: first_index_Some zombies_def children_def)
  have "\<exists>i \<in> zombies. pid = p_pid (proc s i) \<and> cur s' = cur s \<and>
       p_state (proc s' i) = UNUSED \<and> p_parent (proc s' i) = None \<and> p_pid (proc s' i) = 0 \<and> p_kstack (proc s' i) = 0 \<and>
       \<not> p_killed (proc s' i) \<and> (\<forall>j < NPROC. j \<noteq> i \<longrightarrow> woken (proc s j) (proc s' j))"
    if w: "wait s = Ok pid s'" for pid s'
  proof -
    obtain u s1 v s2 where s: "kfree (p_kstack (proc s i)) s = Ok u s1" "pid = p_pid (proc s i)"
        "freevm (p_pgdir (proc s1 i)) (upd_proc i (\<lambda>p. p\<lparr>p_kstack := 0\<rparr>) s1) = Ok v s2"
        "s' = upd_proc i (\<lambda>p. p\<lparr>p_pid := 0, p_parent := None, p_name := (p_name p)[0 := 0], p_killed := False, p_state := UNUSED\<rparr>) s2"
      using w i by (auto simp: wait_def on_eq_Ok Let_def)
    let ?s1 = "upd_proc i (\<lambda>p. p\<lparr>p_kstack := 0\<rparr>) s1"
    have k: "pkeep s s1" "pkeep ?s1 s2" using keepsD [OF _ s(1)] keepsD [OF _ s(3)] by (simp_all add: keep)
    have e: "length (ptable s1) = NPROC" "length (ptable s2) = NPROC" "cur s2 = cur s"
      using k assms(1) by (simp_all add: pkeep_def)
    have "p_kstack (proc s2 i) = 0" using k(2) e z(2) by (auto simp: pkeep_def woken_def upd_proc_def)
    moreover have "woken (proc s j) (proc s2 j)" if "j < NPROC" "j \<noteq> i" for j
    proof -
      have "woken (proc s j) (proc s1 j)" using k(1) that assms(1) by (simp add: pkeep_def)
      moreover have "woken (proc ?s1 j) (proc s2 j)" using k(2) that e by (simp add: pkeep_def)
      moreover have "proc ?s1 j = proc s1 j" using that by (simp add: upd_proc_def)
      ultimately show ?thesis by (auto intro: woken_trans)
    qed
    ultimately show ?thesis using z e s(2) unfolding s(4) by (intro bexI [of _ i]) (auto simp: upd_proc_def)
  qed
  then show ?thesis using False by (auto simp: zombies_def)
qed

lemma ex_k_wait: "\<exists>s'. wait ex_k = Ok 4 s'"
proof -
  have f: "first_index (\<lambda>i. p_parent (proc ex_k i) = Some (cur ex_k) \<and> p_state (proc ex_k i) = ZOMBIE) NPROC = Some 3"
    unfolding first_index_Some by (auto simp: ex_k_def less_Suc_eq numeral_eq_Suc ex_proc_def)
  have p: "proc ex_k 3 = (ex_proc 4 ZOMBIE)\<lparr>p_parent := Some 1, p_kstack := 0x80706000, p_pgdir := 0x80707000\<rparr>" by (simp add: ex_k_def)
  define m where "m = write32 0x80706000 0 (memset 0x80706000 1 PGSIZE (\<lambda>_. 0))"
  have k: "kfree 0x80706000 ex_k = Ok () (ex_k\<lparr>memory := m, freelist := 0x80706000\<rparr>)"
    by (simp add: kfree_def V2P_def m_def) (simp add: ex_k_def)
  let ?s = "upd_proc 3 (\<lambda>p. p\<lparr>p_kstack := 0\<rparr>) (ex_k\<lparr>memory := m, freelist := 0x80706000\<rparr>)"
  have m0: "m (0x80707000 + of_nat i) = 0" if "i < 4096" for i
  proof -
    have "unat ((0x80707000 :: u32) + of_nat i - 0x80706000) = 4096 + i"
      using that unat_of_nat32 [of i] by (simp add: unat_word_ariths)
    then have "\<not> within 0x80706000 PGSIZE (0x80707000 + of_nat i)" "\<not> within 0x80706000 4 (0x80707000 + of_nat i)"
      by (simp_all add: within_def)
    then show ?thesis by (simp add: m_def write32_frame memset_frame)
  qed
  have "read32 m (0x80707000 + of_nat (4 * i)) = 0" if "i < 1024" for i
    using m0 [of "4 * i"] m0 [of "4 * i + 1"] m0 [of "4 * i + 2"] m0 [of "4 * i + 3"] that
    by (simp add: read32_def add.commute add.left_commute le32_def)
  then have "empty_dir ?s 0x80707000" by (simp add: empty_dir_def load32_def upd_proc_def)
  then have "freevm 0x80707000 ?s = kfree 0x80707000 ?s" by (rule freevm_empty) simp
  also have "\<exists>t. kfree 0x80707000 ?s = Ok () t" by (simp add: kfree_def V2P_def upd_proc_def) (simp add: ex_k_def)
  finally obtain t where "freevm 0x80707000 ?s = Ok () t" by blast
  moreover have "p_pgdir (proc (ex_k\<lparr>memory := m, freelist := 0x80706000\<rparr>) 3) = 0x80707000" using p by simp
  ultimately show ?thesis using f k p by (simp add: wait_def ex_proc_def)
qed


theorem wait_correct_witness: "\<exists>i s'. wait ex_k = Ok 4 s' \<and> p_pid (proc ex_k i) = 4 \<and> p_state (proc s' i) = UNUSED"
proof -
  obtain s' where w: "wait ex_k = Ok 4 s'" using ex_k_wait by blast
  have "3 \<in> {i \<in> {i. i < NPROC \<and> p_parent (proc ex_k i) = Some (cur ex_k)}. p_state (proc ex_k i) = ZOMBIE}"
    by (simp add: ex_k_def ex_proc_def)
  then show ?thesis using wait_correct [of ex_k] w by fastforce
qed

section \<open>The scheduler\<close>

text \<open>How many slots the scheduler, standing at slot \<open>k\<close>, looks at before slot \<open>j\<close>.\<close>

definition ahead :: "nat \<Rightarrow> nat \<Rightarrow> nat" where
  "ahead k j = (if k \<le> j then j - k else j + NPROC - k)"

lemma ahead_less: "k \<le> NPROC \<Longrightarrow> j < NPROC \<Longrightarrow> ahead k j < NPROC"
  by (auto simp: ahead_def)

lemma rotation_nth: "k \<le> NPROC \<Longrightarrow> j < NPROC \<Longrightarrow> ([k..<NPROC] @ [0..<k]) ! ahead k j = j"
  by (auto simp: ahead_def nth_append)

lemma ahead_rotation: "k \<le> NPROC \<Longrightarrow> n < NPROC \<Longrightarrow> ahead k (([k..<NPROC] @ [0..<k]) ! n) = n"
  by (auto simp: ahead_def nth_append)

lemma next_runnable_spec:
  assumes "k \<le> NPROC"
  shows "next_runnable k ps = Some i \<longleftrightarrow> i < NPROC \<and> p_state (ps ! i) = RUNNABLE \<and>
    (\<forall>j < NPROC. p_state (ps ! j) = RUNNABLE \<longrightarrow> ahead k i \<le> ahead k j)"
    "next_runnable k ps = None \<longleftrightarrow> (\<forall>i < NPROC. p_state (ps ! i) \<noteq> RUNNABLE)"
proof -
  let ?r = "[k..<NPROC] @ [0..<k]"
  have len: "length ?r = NPROC" and set: "set ?r = {..<NPROC}" using assms by auto
  show "next_runnable k ps = None \<longleftrightarrow> (\<forall>i < NPROC. p_state (ps ! i) \<noteq> RUNNABLE)"
    unfolding next_runnable_def find_None_iff set by auto
  have "next_runnable k ps = Some i \<longleftrightarrow> (\<exists>n < NPROC. p_state (ps ! (?r ! n)) = RUNNABLE \<and> i = ?r ! n \<and> (\<forall>m < n. p_state (ps ! (?r ! m)) \<noteq> RUNNABLE))"
    unfolding next_runnable_def find_Some_iff len by simp
  also have "\<dots> \<longleftrightarrow> i < NPROC \<and> p_state (ps ! i) = RUNNABLE \<and> (\<forall>j < NPROC. p_state (ps ! j) = RUNNABLE \<longrightarrow> ahead k i \<le> ahead k j)" (is "?L \<longleftrightarrow> ?R")
  proof
    assume ?L
    then obtain n where n: "n < NPROC" "p_state (ps ! (?r ! n)) = RUNNABLE" "i = ?r ! n" "\<forall>m < n. p_state (ps ! (?r ! m)) \<noteq> RUNNABLE" by blast
    have "i \<in> set ?r" unfolding n(3) using n(1) len by (intro nth_mem) simp
    then have i: "i < NPROC" unfolding set by simp
    have an: "ahead k i = n" unfolding n(3) by (rule ahead_rotation [OF assms n(1)])
    have "ahead k i \<le> ahead k j" if "j < NPROC" "p_state (ps ! j) = RUNNABLE" for j
      using n(4) rotation_nth [OF assms that(1)] that(2) an by (metis not_le)
    then show ?R using i n by auto
  next
    assume R: ?R
    then have e: "?r ! ahead k i = i" using rotation_nth [OF assms] by blast
    have "p_state (ps ! (?r ! m)) \<noteq> RUNNABLE" if m: "m < ahead k i" for m
    proof
      assume run: "p_state (ps ! (?r ! m)) = RUNNABLE"
      have mn: "m < NPROC" using m ahead_less [OF assms] R by fastforce
      have "?r ! m \<in> set ?r" using mn len by (intro nth_mem) simp
      then have "?r ! m < NPROC" unfolding set by simp
      then have "ahead k i \<le> ahead k (?r ! m)" using R run by blast
      then show False using m ahead_rotation [OF assms mn] by simp
    qed
    then show ?L using R e ahead_less [OF assms] by (intro exI [of _ "ahead k i"]) auto
  qed
  finally show "next_runnable k ps = Some i \<longleftrightarrow> i < NPROC \<and> p_state (ps ! i) = RUNNABLE \<and>
    (\<forall>j < NPROC. p_state (ps ! j) = RUNNABLE \<longrightarrow> ahead k i \<le> ahead k j)" .
qed

lemma ahead_passed:
  assumes "k \<le> NPROC" "i < NPROC" "j < NPROC" "ahead k i \<le> ahead k j" "i \<noteq> j"
  shows "ahead (i + 1) j < ahead k j"
  using assms by (auto simp: ahead_def split: if_splits)

lemma scheduler_Ok:
  assumes "scheduler s = Ok u s'"
  shows "case next_runnable (sched_at s) (ptable s) of
      None \<Rightarrow> s' = s\<lparr>sched_at := 0\<rparr>
    | Some i \<Rightarrow> cur s' = i \<and> sched_at s' = i + 1 \<and> ptable s' = (ptable s)[i := (proc s i)\<lparr>p_state := RUNNING\<rparr>]"
  using assms by (auto simp: scheduler_def switchuvm_def upd_proc_def split: option.splits if_splits)

text \<open>Runs of the scheduler that pass over slot \<open>j\<close> although it is runnable every time: a step is a
  decision of the scheduler followed by anything else that does not move the scheduler.\<close>

inductive passes :: "nat \<Rightarrow> 'a kst_scheme \<Rightarrow> nat \<Rightarrow> 'a kst_scheme \<Rightarrow> bool" for j where
  start: "passes j s 0 s"
| pass: "passes j s n t \<Longrightarrow> p_state (proc t j) = RUNNABLE \<Longrightarrow> scheduler t = Ok () t' \<Longrightarrow> cur t' \<noteq> j \<Longrightarrow>
    sched_at u = sched_at t' \<Longrightarrow> passes j s (Suc n) u"

lemma passes_bound:
  assumes "passes j s n t" "sched_at s \<le> NPROC" "j < NPROC"
  shows "sched_at t \<le> NPROC \<and> n + ahead (sched_at t) j \<le> ahead (sched_at s) j"
  using assms
proof (induction rule: passes.induct)
  case (pass s n t t' u)
  then have k: "sched_at t \<le> NPROC" and n: "n + ahead (sched_at t) j \<le> ahead (sched_at s) j" by simp_all
  obtain i where i: "next_runnable (sched_at t) (ptable t) = Some i"
    using next_runnable_spec(2) [OF k, of "ptable t"] pass.hyps(2) pass.prems(2) by fastforce
  note N = next_runnable_spec(1) [OF k, THEN iffD1, OF i]
  have S: "cur t' = i" "sched_at t' = i + 1" using scheduler_Ok [OF pass.hyps(3)] i by simp_all
  then have "i \<noteq> j" using pass.hyps(4) by simp
  then have "ahead (i + 1) j < ahead (sched_at t) j"
    using N pass.hyps(2) pass.prems(2) by (intro ahead_passed [OF k]) auto
  then show ?case using pass.hyps(5) S n N by simp
qed simp

text \<open>
  C16. The scheduler is fair: a process that stays runnable is passed over at most 63 times before it runs, whatever
  happens to the other processes between two decisions.
\<close>

theorem scheduler_fair:
  assumes "sched_at s \<le> NPROC" "j < NPROC" "passes j s n t"
  shows "n < NPROC"
  using passes_bound [OF assms(3,1,2)] ahead_less [OF assms(1,2)] by linarith

lemma ex_k_states: "i < NPROC \<Longrightarrow> p_state (proc ex_k i) = RUNNABLE \<longleftrightarrow> i = 2 \<or> i = 4"
  by (simp add: ex_k_def nth_list_update ex_proc_def)

lemma ex_k_pages: "p_kstack (proc ex_k 2) = 0x80702000" "p_pgdir (proc ex_k 2) = 0x80703000"
  by (simp_all add: ex_k_def)

lemma ex_k_next: "next_runnable 0 (ptable ex_k) = Some 2"
  unfolding next_runnable_spec(1) [OF le0] by (auto simp: ex_k_states ahead_def)

theorem scheduler_fair_witness: "\<exists>t. passes 4 ex_k 1 t"
proof -
  obtain t where t: "scheduler ex_k = Ok () t" "cur t = 2"
    using ex_k_next ex_k_pages by (simp add: scheduler_def switchuvm_def)
  have "passes 4 ex_k (Suc 0) t"
    using passes.pass [OF passes.start _ t(1), of 4 t] t(2) by (simp add: ex_k_states)
  with scheduler_fair [OF _ _ this] show ?thesis by auto
qed

text \<open>
  C17. If some process is runnable the scheduler returns having chosen a runnable one: exactly this process is marked
  running, and its page directory and kernel stack are loaded. If none is, nothing changes and the scan starts over.
\<close>

theorem scheduler_runs:
  assumes "sched_at s \<le> NPROC" "length (ptable s) = NPROC"
    "\<forall>i < NPROC. p_state (proc s i) = RUNNABLE \<longrightarrow> p_kstack (proc s i) \<noteq> 0 \<and> p_pgdir (proc s i) \<noteq> 0"
  shows "if \<exists>i < NPROC. p_state (proc s i) = RUNNABLE
    then \<exists>s'. scheduler s = Ok () s' \<and> cur s' < NPROC \<and> p_state (proc s (cur s')) = RUNNABLE \<and>
      ptable s' = (ptable s)[cur s' := (proc s (cur s'))\<lparr>p_state := RUNNING\<rparr>] \<and> cr3 s' = V2P (p_pgdir (proc s (cur s'))) \<and>
      ts_esp0 s' = p_kstack (proc s (cur s')) + 4096
    else scheduler s = Ok () (s\<lparr>sched_at := 0\<rparr>)"
proof (cases "next_runnable (sched_at s) (ptable s)")
  case None
  then show ?thesis using next_runnable_spec(2) [OF assms(1), THEN iffD1, OF None] by (auto simp: scheduler_def)
next
  case (Some i)
  note i = next_runnable_spec(1) [OF assms(1), THEN iffD1, OF Some]
  then have "p_kstack (proc s i) \<noteq> 0" "p_pgdir (proc s i) \<noteq> 0" using assms(3) by auto
  then show ?thesis using i Some assms(2) by (auto simp: scheduler_def switchuvm_def upd_proc_def)
qed

theorem scheduler_runs_witness: "\<exists>s'. scheduler ex_k = Ok () s' \<and> p_state (proc s' (cur s')) = RUNNING"
proof -
  have "\<forall>i < NPROC. p_state (proc ex_k i) = RUNNABLE \<longrightarrow> p_kstack (proc ex_k i) \<noteq> 0 \<and> p_pgdir (proc ex_k i) \<noteq> 0"
    by (auto simp: ex_k_states) (simp_all add: ex_k_def)
  moreover have "\<exists>i < NPROC. p_state (proc ex_k i) = RUNNABLE" using ex_k_states [of 2] by (intro exI [of _ 2]) simp
  ultimately show ?thesis using scheduler_runs [of ex_k] by auto
qed

section \<open>Pids\<close>

definition pids_ok :: "'a pst_scheme \<Rightarrow> bool" where
  "pids_ok s \<longleftrightarrow> length (ptable s) = NPROC \<and>
     (\<forall>i < NPROC. p_state (proc s i) \<noteq> UNUSED \<longrightarrow> 0 < p_pid (proc s i) \<and> p_pid (proc s i) < nextpid s) \<and>
     (\<forall>i < NPROC. \<forall>j < NPROC. p_state (proc s i) \<noteq> UNUSED \<and> p_state (proc s j) \<noteq> UNUSED \<and> p_pid (proc s i) = p_pid (proc s j) \<longrightarrow> i = j)"

lemma pids_ok_cong:
  assumes "pids_ok s" "length (ptable t) = length (ptable s)" "nextpid t = nextpid s"
    and "\<And>i. i < NPROC \<Longrightarrow> p_pid (proc t i) = p_pid (proc s i) \<and> (p_state (proc t i) = UNUSED \<longleftrightarrow> p_state (proc s i) = UNUSED)"
  shows "pids_ok t"
  using assms unfolding pids_ok_def by auto

text \<open>
  C18. \<^verbatim>\<open>allocproc\<close>, as long as \<^verbatim>\<open>nextpid\<close> has not reached the largest \<^verbatim>\<open>int\<close>. It takes an unused slot and gives it a pid that no live
  process has, a kernel stack from the free list, and a context that starts in \<^verbatim>\<open>forkret\<close> and returns to \<^verbatim>\<open>trapret\<close>; no
  other slot changes. If there is no unused slot it fails and changes nothing. If there is no page it fails, and the slot stays unused: only
  the pid and the stack pointer that were written into it, and the pid that was used up, remain. Pids of live processes stay unique.
\<close>

theorem allocproc_correct:
  assumes "pids_ok s" "0 < nextpid s" "nextpid s < 2 ^ 31 - 1"
  shows "case allocproc s of
      (None, s') \<Rightarrow> pids_ok s' \<and>
        ((\<forall>i < NPROC. p_state (proc s i) \<noteq> UNUSED) \<and> s' = s \<or>
         freelist s = 0 \<and> (\<exists>i < NPROC. p_state (proc s i) = UNUSED \<and>
           s' = upd_proc i (\<lambda>p. p\<lparr>p_pid := nextpid s, p_kstack := 0\<rparr>) (s\<lparr>nextpid := nextpid s + 1\<rparr>)))
    | (Some i, s') \<Rightarrow> i < NPROC \<and> p_state (proc s i) = UNUSED \<and> pids_ok s' \<and> freelist s \<noteq> 0 \<and>
        p_state (proc s' i) = EMBRYO \<and> p_pid (proc s' i) = nextpid s \<and> nextpid s' = nextpid s + 1 \<and>
        (\<forall>j < NPROC. p_state (proc s j) \<noteq> UNUSED \<longrightarrow> p_pid (proc s j) \<noteq> p_pid (proc s' i)) \<and>
        p_kstack (proc s' i) = freelist s \<and> cx_eip (p_context (proc s' i)) = sym_forkret s \<and>
        load32 s' (freelist s + KSTACKSIZE - 80) = sym_trapret s \<and>
        (\<forall>j < NPROC. j \<noteq> i \<longrightarrow> proc s' j = proc s j)"
proof (cases "first_index (\<lambda>i. p_state (proc s i) = UNUSED) NPROC")
  case None
  then have "\<forall>i < NPROC. p_state (proc s i) \<noteq> UNUSED" by (simp add: first_index_None)
  then show ?thesis using assms by (simp add: allocproc_def None)
next
  case (Some i)
  then have i: "i < NPROC" "p_state (proc s i) = UNUSED" by (auto simp: first_index_Some)
  have len: "length (ptable s) = NPROC" using assms(1) by (simp add: pids_ok_def)
  have n: "wrap32 (nextpid s + 1) = nextpid s + 1" using assms(2,3) by (intro wrap32_id) simp_all
  show ?thesis
  proof (cases "freelist s = 0")
    case True
    define s1 where "s1 = upd_proc i (\<lambda>p. p\<lparr>p_pid := nextpid s, p_kstack := 0\<rparr>) (s\<lparr>nextpid := nextpid s + 1\<rparr>)"
    have r: "(proc s i)\<lparr>p_pid := nextpid s, p_kstack := 0, p_state := UNUSED\<rparr> = (proc s i)\<lparr>p_pid := nextpid s, p_kstack := 0\<rparr>"
      using i(2) by (cases "proc s i") simp
    have a: "allocproc s = (None, s1)"
      using True i len by (simp add: allocproc_def Some kalloc_def Let_def upd_proc_def s1_def n) (simp only: r)
    have "pids_ok s1" using assms i len by (auto simp: s1_def upd_proc_def pids_ok_def nth_list_update split: if_splits)
    then show ?thesis using True i unfolding a by (auto simp: s1_def)
  next
    case False
    define s1 where "s1 = upd_proc i (\<lambda>p. p\<lparr>p_state := EMBRYO, p_pid := nextpid s, p_kstack := freelist s,
       p_context := \<lparr>cx_edi = 0, cx_esi = 0, cx_ebx = 0, cx_ebp = 0, cx_eip = sym_forkret s\<rparr>\<rparr>)
       (s\<lparr>nextpid := nextpid s + 1, memory := write32 (freelist s + KSTACKSIZE - 80) (sym_trapret s) (memory s),
         freelist := read32 (memory s) (freelist s)\<rparr>)"
    have a: "allocproc s = (Some i, s1)"
      using False i len by (simp add: allocproc_def Some kalloc_def Let_def upd_proc_def store32_def s1_def n)
    have "pids_ok s1"
      using assms i by (auto simp: s1_def upd_proc_def pids_ok_def nth_list_update)
    moreover have "p_pid (proc s j) \<noteq> nextpid s" if "j < NPROC" "p_state (proc s j) \<noteq> UNUSED" for j
      using assms(1) that by (fastforce simp: pids_ok_def)
    ultimately show ?thesis using False i len unfolding a by (simp add: s1_def upd_proc_def load32_def)
  qed
qed

lemma ex_k_slots:
  assumes "i < NPROC"
  shows "p_state (proc ex_k i) = UNUSED \<longleftrightarrow> 4 < i" "p_pid (proc ex_k i) = (if 4 < i then 0 else int i + 1)"
proof -
  have "proc ex_k i = ex_proc 0 UNUSED" if "4 < i" using that assms by (simp add: ex_k_def)
  moreover have "p_state (proc ex_k i) \<noteq> UNUSED \<and> p_pid (proc ex_k i) = int i + 1" if "\<not> 4 < i"
  proof -
    have "i = 0 \<or> i = 1 \<or> i = 2 \<or> i = 3 \<or> i = 4" using that by linarith
    then show ?thesis by (elim disjE) (simp_all add: ex_k_def ex_proc_def)
  qed
  ultimately show "p_state (proc ex_k i) = UNUSED \<longleftrightarrow> 4 < i" "p_pid (proc ex_k i) = (if 4 < i then 0 else int i + 1)"
    by (auto simp: ex_proc_def)
qed

lemma ex_k_pids: "pids_ok ex_k" "nextpid ex_k = 6"
proof -
  show n: "nextpid ex_k = 6" by (simp add: ex_k_def)
  then show "pids_ok ex_k" by (simp add: pids_ok_def ex_k_slots)
qed

theorem allocproc_correct_witness:
  "\<exists>i s'. allocproc (ex_k\<lparr>freelist := 0x80706000\<rparr>) = (Some i, s') \<and> p_pid (proc s' i) = 6 \<and> p_state (proc ex_k i) = UNUSED"
proof -
  have "pids_ok (ex_k\<lparr>freelist := 0x80706000\<rparr>)" using ex_k_pids by (simp add: pids_ok_def)
  moreover have "p_state (proc ex_k 5) = UNUSED" by (simp add: ex_k_def ex_proc_def)
  ultimately show ?thesis using allocproc_correct [of "ex_k\<lparr>freelist := 0x80706000\<rparr>"] ex_k_pids(2)
    by (fastforce split: prod.splits option.splits)
qed

section \<open>Kill\<close>

text \<open>
  \<^verbatim>\<open>kill\<close> of a pid that exactly one slot has marks that process, and wakes it if it sleeps; of a pid that no slot has it
  returns -1 and changes nothing. Pids stay unique.
\<close>

lemma kill_correct:
  assumes "pids_ok s"
  shows "(\<forall>i < NPROC. p_state (proc s i) \<noteq> UNUSED \<and> (\<forall>j < NPROC. p_pid (proc s j) = p_pid (proc s i) \<longrightarrow> j = i) \<longrightarrow>
      kill (p_pid (proc s i)) s = (0, upd_proc i (\<lambda>p. p\<lparr>p_killed := True, p_state := if p_state p = SLEEPING then RUNNABLE else p_state p\<rparr>) s)) \<and>
    (\<forall>pid. (\<forall>i < NPROC. p_pid (proc s i) \<noteq> pid) \<longrightarrow> kill pid s = (-1, s)) \<and>
    (\<forall>pid. pids_ok (snd (kill pid s)))"
proof (intro conjI allI impI)
  fix i assume i: "i < NPROC" "p_state (proc s i) \<noteq> UNUSED \<and> (\<forall>j < NPROC. p_pid (proc s j) = p_pid (proc s i) \<longrightarrow> j = i)"
  then have "first_index (\<lambda>j. p_pid (proc s j) = p_pid (proc s i)) NPROC = Some i"
    unfolding first_index_Some by (metis less_irrefl less_trans)
  then show "kill (p_pid (proc s i)) s = (0, upd_proc i (\<lambda>p. p\<lparr>p_killed := True, p_state := if p_state p = SLEEPING then RUNNABLE else p_state p\<rparr>) s)"
    by (simp add: kill_def)
next
  fix pid assume "\<forall>i < NPROC. p_pid (proc s i) \<noteq> pid"
  then have "first_index (\<lambda>j. p_pid (proc s j) = pid) NPROC = None" by (simp add: first_index_None)
  then show "kill pid s = (-1, s)" by (simp add: kill_def)
next
  fix pid
  show "pids_ok (snd (kill pid s))"
    by (rule pids_ok_cong [OF assms]) (auto simp: kill_def upd_proc_def nth_list_update_if split: option.split)
qed

text \<open>
  C19. \<^verbatim>\<open>kill(0)\<close> succeeds although no process has pid 0: it marks an unused slot, and the mark is not
  cleared when the slot is taken, so the next process created there starts killed.
\<close>

theorem kill_zero_marks_next:
  assumes "length (ptable s) = NPROC" "first_index (\<lambda>i. p_state (proc s i) = UNUSED) NPROC = Some i"
    and "first_index (\<lambda>i. p_pid (proc s i) = 0) NPROC = Some i" "freelist s \<noteq> 0"
  shows "fst (kill 0 s) = 0 \<and> (\<exists>t. allocproc (snd (kill 0 s)) = (Some i, t) \<and> p_killed (proc t i))"
proof -
  define s1 where "s1 = upd_proc i (\<lambda>p. p\<lparr>p_killed := True, p_state := if p_state p = SLEEPING then RUNNABLE else p_state p\<rparr>) s"
  have k: "kill 0 s = (0, s1)" by (simp add: kill_def assms(3) s1_def)
  have i: "i < NPROC" "p_state (proc s i) = UNUSED" "\<forall>j < i. p_state (proc s j) \<noteq> UNUSED"
    using assms(2) by (auto simp: first_index_Some)
  have "first_index (\<lambda>j. p_state (proc s1 j) = UNUSED) NPROC = Some i"
    unfolding first_index_Some using i assms(1) by (auto simp: s1_def upd_proc_def nth_list_update)
  moreover have "freelist s1 \<noteq> 0" using assms(4) by (simp add: s1_def upd_proc_def)
  moreover have "p_killed (proc s1 i)" "length (ptable s1) = NPROC" using i assms(1) by (simp_all add: s1_def upd_proc_def)
  ultimately show ?thesis using i(1) unfolding k
    by (simp add: allocproc_def kalloc_def Let_def upd_proc_def store32_def)
qed


lemma kill_correct_example: "kill 4 ex_k = (0, upd_proc 3 (\<lambda>p. p\<lparr>p_killed := True, p_state := if p_state p = SLEEPING then RUNNABLE else p_state p\<rparr>) ex_k)"
proof -
  have "kill (p_pid (proc ex_k 3)) ex_k =
      (0, upd_proc 3 (\<lambda>p. p\<lparr>p_killed := True, p_state := if p_state p = SLEEPING then RUNNABLE else p_state p\<rparr>) ex_k)"
    using kill_correct [OF ex_k_pids(1), THEN conjunct1, rule_format, of 3] by (simp add: ex_k_slots split: if_splits)
  then show ?thesis by (simp add: ex_k_slots)
qed

theorem kill_zero_marks_next_witness: "\<exists>t. allocproc (snd (kill 0 (ex_k\<lparr>freelist := 0x80706000\<rparr>))) = (Some 5, t) \<and> p_killed (proc t 5)"
proof -
  let ?s = "ex_k\<lparr>freelist := 0x80706000\<rparr>"
  have "first_index (\<lambda>i. p_state (proc ?s i) = UNUSED) NPROC = Some 5" "first_index (\<lambda>i. p_pid (proc ?s i) = 0) NPROC = Some 5"
    unfolding first_index_Some by (simp_all add: ex_k_slots)
  then show ?thesis using kill_zero_marks_next [of ?s 5] by simp
qed

end
