(* ===== verification/Pipe_Properties.thy ===== *)
theory Pipe_Properties
  imports Process_Properties
begin

text \<open>
  What pipes promise: bytes come out in the order in which they went in, none lost and none
  invented, and the two sides wait for each other and wake each other up.
\<close>

text \<open>
  C20. Under any interleaving of writers, readers and other activity of the kernel on a pipe that starts empty, what
  has been read is a prefix of what has been written, and the rest, at most 512 bytes, is what the
  pipe holds.
\<close>

theorem pipe_stream:
  assumes "pipe_inv (pipes s p)" "pipe_empty (pipes s p)" "(pipe_step p)\<^sup>*\<^sup>* (s, [], []) (t, w, r)"
  shows "w = r @ pipe_elems (pipes t p) \<and> length w \<le> length r + PIPESIZE"
proof -
  have "stream_inv p (s, [], [])" using assms(1,2) pipe_q.empty_iff [OF assms(1)] by (simp add: stream_inv_def)
  then have "stream_inv p (t, w, r)" using assms(3) pipe_steps_inv by blast
  then show ?thesis using pipe_q.bounded [of "pipes t p"] by (simp add: stream_inv_def)
qed

theorem pipe_stream_witness: "\<exists>u. (pipe_step 0)\<^sup>*\<^sup>* (ex_k, [], []) (u, [7, 8, 9], [7, 8]) \<and> pipe_elems (pipes u 0) = [9]"
proof -
  have e: "pipes ex_k 0 = \<lparr>pi_data = replicate 512 0, pi_nread = 0, pi_nwrite = 0, pi_readopen = True, pi_writeopen = True\<rparr>"
    by (simp add: ex_k_def)
  obtain t where t: "pipewrite_loop 0 [7, 8, 9] 3 ex_k = ([], Ok 3 t)" and
    p: "pipes t 0 = \<lparr>pi_data = (replicate 512 0)[0 := 7, 1 := 8, 2 := 9], pi_nread = 0, pi_nwrite = 3, pi_readopen = True, pi_writeopen = True\<rparr>"
    by (simp add: e pipe_full_def pipe_put_def)
  obtain u where u: "piperead 0 2 t = Ok (2, [7, 8]) u"
  proof -
    have n: "nat 2 = Suc (Suc 0)" by simp
    have t: "pipe_take (nat 2) (pipes t 0) = ([7, 8], pipe_pop (pipe_pop (pipes t 0)))"
      unfolding n by (simp add: p pipe_empty_def pipe_pop_def pipe_front_def)
    have "\<not> pipe_empty (pipes t 0)" by (simp add: p pipe_empty_def)
    then show ?thesis using that t by (simp add: piperead_def del: nat_numeral)
  qed
  have "pipe_step 0 (ex_k, [], []) (t, [7, 8, 9], [])" using pipe_step.writes [OF t, of t "[]" "[]"] by simp
  moreover have "pipe_step 0 (t, [7, 8, 9], []) (u, [7, 8, 9], [7, 8])" using pipe_step.reads [OF u, of "[7, 8, 9]" "[]"] by simp
  ultimately have r: "(pipe_step 0)\<^sup>*\<^sup>* (ex_k, [], []) (u, [7, 8, 9], [7, 8])" by auto
  then show ?thesis using pipe_stream [OF _ _ r] e by (auto simp: pipe_inv_def pipe_empty_def)
qed

lemma wakeup_none_sleeping: "j < length (ptable s) \<Longrightarrow> \<not> sleeping_on (wakeup c s) c j"
  by (simp add: sleeping_on_def wakeup_def nth_wakeup1)

lemma pipewrite_loop_wakes:
  assumes "pipewrite_loop p src n s = (rest, out)" "left_state out = Some s'" "\<not> (\<exists>t. out = Ok (-1) t)" "j < length (ptable s)"
  shows "\<not> sleeping_on s' (ChanPipeRead p) j"
  using assms
proof (induction p src n s arbitrary: rest out rule: pipewrite_loop.induct)
  case (1 p n s)
  then show ?case by (auto simp: wakeup_none_sleeping)
next
  case (2 p c src n s)
  show ?case
  proof (cases "pipe_full (pipes s p)")
    case True
    with 2 have "s' = upd_proc (cur s) (\<lambda>q. q\<lparr>p_chan := Some (ChanPipeWrite p), p_state := SLEEPING\<rparr>) (wakeup (ChanPipeRead p) s)"
      by (auto split: if_splits)
    then show ?thesis using wakeup_none_sleeping [OF 2(5), of "ChanPipeRead p"]
      by (auto simp: sleeping_on_def upd_proc_def nth_list_update_if)
  next
    case False
    then show ?thesis using 2 by (simp add: upd_pipe_def)
  qed
qed

text \<open>
  C21. The two ends of a pipe. \<^verbatim>\<open>pipewrite\<close> stores everything and returns the count if it fits; otherwise it
  fills the pipe and fails with -1 if the reading end is closed or the writer killed, and else sleeps. \<^verbatim>\<open>piperead\<close> sleeps on an empty
  pipe with an open writing end, unless the reader has been killed; otherwise it takes the first
  bytes, as many as there are, none (end of file) if the pipe is empty and closed. Whoever sleeps
  on the other side is woken.
\<close>

theorem pipe_ends:
  assumes "pipe_inv (pipes s p)"
  defines "inside \<equiv> pipe_elems (pipes s p)"
  shows "(if length inside + length src \<le> PIPESIZE
      then \<exists>s'. pipewrite p src s = Ok (int (length src)) s' \<and> pipe_elems (pipes s' p) = inside @ src \<and>
        (\<forall>j < length (ptable s). \<not> sleeping_on s' (ChanPipeRead p) j)
      else if \<not> pi_readopen (pipes s p) \<or> p_killed (myproc s)
      then \<exists>s'. pipewrite p src s = Ok (-1) s' \<and> pipe_elems (pipes s' p) = inside @ take (PIPESIZE - length inside) src
      else \<exists>s'. pipewrite p src s = Sleep (ChanPipeWrite p) s' \<and> pipe_elems (pipes s' p) = inside @ take (PIPESIZE - length inside) src \<and>
        (\<forall>j < length (ptable s). \<not> sleeping_on s' (ChanPipeRead p) j)) \<and>
    (if inside = [] \<and> pi_writeopen (pipes s p)
      then if p_killed (myproc s) then piperead p n s = Ok (-1, []) s else piperead p n s = sleep (ChanPipeRead p) s
      else \<exists>s'. piperead p n s = Ok (int (length (take (nat n) inside)), take (nat n) inside) s' \<and>
        pipe_elems (pipes s' p) = drop (nat n) inside \<and> (\<forall>j < length (ptable s). \<not> sleeping_on s' (ChanPipeWrite p) j))"
    (is "?W \<and> ?R")
proof
  obtain rest out where l: "pipewrite_loop p src (int (length src)) s = (rest, out)"
    by (cases "pipewrite_loop p src (int (length src)) s")
  from pipewrite_loop_spec [OF assms(1) l] obtain s' stored where S: "left_state out = Some s'" "src = stored @ rest" "pipe_inv (pipes s' p)"
    "pipe_elems (pipes s' p) = inside @ stored" "rest = [] \<longrightarrow> (\<exists>t. out = Ok (int (length src)) t)"
    "rest \<noteq> [] \<longrightarrow> length (pipe_elems (pipes s' p)) = PIPESIZE \<and>
       (if \<not> pi_readopen (pipes s p) \<or> p_killed (myproc s) then \<exists>t. out = Ok (-1) t else \<exists>t. out = Sleep (ChanPipeWrite p) t)"
    unfolding inside_def by blast
  have o: "pipewrite p src s = out" by (simp add: pipewrite_def l)
  have b: "length inside + length stored \<le> PIPESIZE" using pipe_q.bounded [OF S(3)] S(4) by simp
  have "rest = [] \<longleftrightarrow> length inside + length src \<le> PIPESIZE"
  proof (cases "rest = []")
    case False
    then have "length inside + length stored = PIPESIZE" using S(4,6) by auto
    moreover have "1 \<le> length rest" using False by (cases rest) auto
    ultimately have "PIPESIZE < length inside + length src" using S(2) by simp
    then show ?thesis using False by simp
  qed (use b S(2) in simp)
  moreover have "rest \<noteq> [] \<Longrightarrow> stored = take (PIPESIZE - length inside) src" using S(2,4,6) by auto
  ultimately show ?W using S o pipewrite_loop_wakes [OF l S(1)] by auto
next
  obtain bs q where t: "pipe_take (nat n) (pipes s p) = (bs, q)" by (cases "pipe_take (nat n) (pipes s p)")
  note T = pipe_take_spec [OF assms(1) t]
  show ?R using T t pipe_q.empty_iff [OF assms(1)] wakeup_none_sleeping [of _ "upd_pipe p (\<lambda>_. q) s" "ChanPipeWrite p"]
    by (auto simp: piperead_def inside_def upd_pipe_def)
qed

theorem pipe_ends_witness: "\<exists>s'. pipewrite 0 [1, 2] ex_k = Ok 2 s' \<and> pipe_elems (pipes s' 0) = [1, 2]"
proof -
  have "pipe_inv (pipes ex_k 0)" "pipe_elems (pipes ex_k 0) = []"
    by (simp_all add: ex_k_def pipe_inv_def pipe_elems_def)
  then show ?thesis using pipe_ends [of ex_k 0 "[1, 2]"] by auto
qed

end
