(* ===== verification/Vm_Copy.thy ===== *)
theory Vm_Copy
  imports Vm_User
begin

text \<open>
  Building address spaces (\<^verbatim>\<open>system/memory/vm.c\<close>): the kernel's part by \<^verbatim>\<open>setupkvm\<close>, the
  copy that \<^verbatim>\<open>fork\<close> makes by \<^verbatim>\<open>copyuvm\<close>, and writing into one with \<^verbatim>\<open>copyout\<close>.
\<close>

section \<open>The kernel's part of an address space\<close>

lemma page_PGROUNDDOWN: "page (PGROUNDDOWN va) = page va" "aligned (PGROUNDDOWN va)"
  by (simp_all add: page_def unat_PGROUNDDOWN aligned_def)

lemma page_less: "page va < 2 ^ 20"
  using unat_lt32 [of va] by (simp add: page_def less_mult_imp_div_less)

lemma mappages_pages:
  assumes "page va \<le> page (va + sz - 1)"
  shows "mappages d va sz pa perm s = mappages_loop d (PGROUNDDOWN va) pa perm (page (va + sz - 1) - page va) s"
proof -
  have "PGROUNDDOWN va \<le> PGROUNDDOWN (va + sz - 1)"
    unfolding word_le_nat_alt unat_PGROUNDDOWN using assms by (simp add: page_def)
  then have "unat (PGROUNDDOWN (va + sz - 1) - PGROUNDDOWN va) = page (va + sz - 1) * PGSIZE - page va * PGSIZE"
    by (simp add: unat_sub unat_PGROUNDDOWN page_def)
  also have "\<dots> = (page (va + sz - 1) - page va) * PGSIZE" by (simp add: diff_mult_distrib)
  finally show ?thesis by (simp add: mappages_def Let_def)
qed

definition kfirst :: "u32 \<times> u32 \<times> u32 \<times> u32 \<Rightarrow> nat" where
  "kfirst k = (case k of (virt, ps, pe, perm) \<Rightarrow> page virt)"

definition klast :: "u32 \<times> u32 \<times> u32 \<times> u32 \<Rightarrow> nat" where
  "klast k = (case k of (virt, ps, pe, perm) \<Rightarrow> page (virt + (pe - ps) - 1))"

text \<open>The entry that the row \<open>k\<close> of \<^verbatim>\<open>kmap\<close> demands for \<open>va\<close>.\<close>

definition kentry :: "u32 \<times> u32 \<times> u32 \<times> u32 \<Rightarrow> u32 \<Rightarrow> u32" where
  "kentry k va = (case k of (virt, ps, pe, perm) \<Rightarrow> (ps + of_nat (page va - page virt) * 4096) OR perm OR PTE_P)"

definition in_row :: "u32 \<times> u32 \<times> u32 \<times> u32 \<Rightarrow> u32 \<Rightarrow> bool" where
  "in_row k va \<longleftrightarrow> kfirst k \<le> page va \<and> page va \<le> klast k"

lemma mappages_row:
  assumes "vm_inv s d fs" "kfirst k \<le> klast k" "\<And>va. in_row k va \<Longrightarrow> \<not> present (pte s d va)" "k = (virt, ps, pe, perm)"
  shows "\<exists>r t new fs'. mappages d virt (pe - ps) ps perm s = Ok r t \<and> vm_inv t d fs' \<and> fs = new @ fs' \<and>
    pt_pages t d = pt_pages s d \<union> set new \<and> touches (pt_pages t d) s t \<and> (r = 0 \<or> r = -1 \<and> fs' = []) \<and>
    (\<forall>va. \<not> in_row k va \<longrightarrow> pte t d va = pte s d va) \<and> (r = 0 \<longrightarrow> (\<forall>va. in_row k va \<longrightarrow> pte t d va = kentry k va))"
proof -
  let ?n = "page (virt + (pe - ps) - 1) - page virt"
  have le: "page virt \<le> page (virt + (pe - ps) - 1)" using assms(2,4) by (simp add: kfirst_def klast_def)
  have r: "va_range (PGROUNDDOWN virt) ?n va = in_row k va" for va
    using le by (auto simp: va_range_def in_row_def kfirst_def klast_def page_PGROUNDDOWN assms(4))
  have b: "page (PGROUNDDOWN virt) + ?n < 2 ^ 20" using le page_less [of "virt + (pe - ps) - 1"] by (simp add: page_PGROUNDDOWN)
  have np: "\<And>va. va_range (PGROUNDDOWN virt) ?n va \<Longrightarrow> \<not> present (pte s d va)" using assms(3) r by blast
  note M = mappages_loop_spec [OF assms(1) b np, of ps perm, unfolded r page_PGROUNDDOWN(1)]
  show ?thesis unfolding mappages_pages [OF le] using M by (simp add: kentry_def assms(4))
qed

definition rows_ok :: "(u32 \<times> u32 \<times> u32 \<times> u32) list \<Rightarrow> bool" where
  "rows_ok ks \<longleftrightarrow> (\<forall>k \<in> set ks. kfirst k \<le> klast k) \<and> sorted_wrt (\<lambda>j k. \<forall>va. \<not> (in_row j va \<and> in_row k va)) ks"

lemma setupkvm_loop_spec:
  assumes "vm_inv s d fs" "rows_ok ks" "\<And>k va. k \<in> set ks \<Longrightarrow> in_row k va \<Longrightarrow> \<not> present (pte s d va)"
  shows "\<exists>r t new fs'. setupkvm_loop d ks s = Ok r t \<and> vm_inv t d fs' \<and> fs = new @ fs' \<and> pt_pages t d = pt_pages s d \<union> set new \<and>
    touches (pt_pages t d) s t \<and> (\<forall>va. (\<forall>k \<in> set ks. \<not> in_row k va) \<longrightarrow> pte t d va = pte s d va) \<and>
    (r \<longrightarrow> (\<forall>k \<in> set ks. \<forall>va. in_row k va \<longrightarrow> pte t d va = kentry k va)) \<and> (\<not> r \<longrightarrow> fs' = [])"
  using assms
proof (induction ks arbitrary: s fs)
  case Nil
  then show ?case by (intro exI [of _ True] exI [of _ s] exI [of _ "[]"] exI [of _ fs]) simp
next
  case (Cons k ks)
  obtain virt ps pe perm where k: "k = (virt, ps, pe, perm)" by (cases k)
  have ok: "kfirst k \<le> klast k" "rows_ok ks" "\<And>j va. j \<in> set ks \<Longrightarrow> in_row k va \<Longrightarrow> \<not> in_row j va"
    using Cons.prems(2) by (auto simp: rows_ok_def)
  have np: "\<And>va. in_row k va \<Longrightarrow> \<not> present (pte s d va)" using Cons.prems(3) [of k] by simp
  obtain r t new fs' where R: "mappages d virt (pe - ps) ps perm s = Ok r t" "vm_inv t d fs'" "fs = new @ fs'"
    "pt_pages t d = pt_pages s d \<union> set new" "touches (pt_pages t d) s t" "r = 0 \<or> r = -1 \<and> fs' = []"
    "\<forall>va. \<not> in_row k va \<longrightarrow> pte t d va = pte s d va" "r = 0 \<longrightarrow> (\<forall>va. in_row k va \<longrightarrow> pte t d va = kentry k va)"
    using mappages_row [OF Cons.prems(1) ok(1) np k] by blast
  show ?case
  proof (cases "r = 0")
    case False
    then have "setupkvm_loop d (k # ks) s = Ok False t" using R(1,6) by (simp add: k)
    then show ?thesis using False R(2-7) by (intro exI [of _ False] exI [of _ t] exI [of _ new] exI [of _ fs']) simp
  next
    case True
    have "\<not> present (pte t d va)" if "j \<in> set ks" "in_row j va" for j va
    proof -
      have "\<not> in_row k va" using that ok(3) by blast
      then show ?thesis using Cons.prems(3) [of j va] that R(7) by simp
    qed
    then obtain q u new' fs'' where U: "setupkvm_loop d ks t = Ok q u" "vm_inv u d fs''" "fs' = new' @ fs''"
      "pt_pages u d = pt_pages t d \<union> set new'" "touches (pt_pages u d) t u"
      "\<forall>va. (\<forall>k \<in> set ks. \<not> in_row k va) \<longrightarrow> pte u d va = pte t d va"
      "q \<longrightarrow> (\<forall>k \<in> set ks. \<forall>va. in_row k va \<longrightarrow> pte u d va = kentry k va)" "\<not> q \<longrightarrow> fs'' = []"
      using Cons.IH [OF R(2) ok(2)] by blast
    have "setupkvm_loop d (k # ks) s = Ok q u" using R(1) True U(1) by (simp add: k)
    moreover have "touches (pt_pages u d) s u" using touches_trans [OF touches_mono [OF R(5)] U(5)] U(4) by blast
    moreover have "pte u d va = kentry k va" if "in_row k va" for va using that U(6) R(8) True ok(3) by simp
    ultimately show ?thesis using R(3,4,7) U(2-4,6,7,8)
      by (intro exI [of _ q] exI [of _ u] exI [of _ "new @ new'"] exI [of _ fs'']) auto
  qed
qed


text \<open>The linker puts \<^verbatim>\<open>data\<close> on a page boundary behind the text of the kernel.\<close>

definition data_ok :: "u32 \<Rightarrow> bool" where
  "data_ok data \<longleftrightarrow> aligned data \<and> 0x80100 < page data \<and> page data < 0x8E000"

lemma page_before: "aligned a \<Longrightarrow> 0 < page a \<Longrightarrow> page (a - 1) = page a - 1"
proof -
  assume a: "aligned a" "0 < page a"
  then have u: "unat a = page a * PGSIZE" by (intro page_unat)
  then have "1 \<le> a" using a(2) by (simp add: word_le_nat_alt)
  then have "unat (a - 1) = page a * PGSIZE - 1" using u by (simp add: unat_sub)
  also have "\<dots> = (page a - 1) * PGSIZE + 4095" using a(2) by (cases "page a") auto
  finally show ?thesis by (simp add: page_def)
qed

lemma kmap_rows:
  assumes "data_ok data"
  shows "map (\<lambda>k. (kfirst k, klast k)) (kmap data) =
    [(0x80000, 0x800FF), (0x80100, page data - 1), (page data, 0x8DFFF), (0xFE000, 0xFFFFF)]"
proof -
  have "KERNLINK + (V2P data - V2P KERNLINK) - 1 = data - 1" by (simp add: V2P_def)
  moreover have "page (data - 1) = page data - 1" using assms by (intro page_before) (simp_all add: data_ok_def)
  ultimately have "klast (KERNLINK, V2P KERNLINK, V2P data, 0) = page data - 1" by (simp only: klast_def prod.case)
  moreover have "data + (PHYSTOP - V2P data) - 1 = 0x8DFFFFFF" by (simp add: V2P_def)
  then have "klast (data, V2P data, PHYSTOP, PTE_W) = page 0x8DFFFFFF" by (simp only: klast_def prod.case)
  moreover have "DEVSPACE + (0 - DEVSPACE) - 1 = 0xFFFFFFFF" by simp
  then have "klast (DEVSPACE, DEVSPACE, 0, PTE_W) = page 0xFFFFFFFF" by (simp only: klast_def prod.case)
  moreover have "klast (KERNBASE, 0, EXTMEM, PTE_W) = page 0x800FFFFF" by (simp add: klast_def)
  ultimately show ?thesis by (simp add: kmap_def kfirst_def del: One_nat_def) (simp add: page_def)
qed

lemma rows_kmap: "data_ok data \<Longrightarrow> rows_ok (kmap data)" "data_ok data \<Longrightarrow> k \<in> set (kmap data) \<Longrightarrow> in_row k va \<Longrightarrow> KERNBASE \<le> va"
proof -
  assume d: "data_ok data"
  obtain k1 k2 k3 k4 where k: "kmap data = [k1, k2, k3, k4]" by (simp add: kmap_def)
  have r: "kfirst k1 = 0x80000" "klast k1 = 0x800FF" "kfirst k2 = 0x80100" "klast k2 = page data - 1" "kfirst k3 = page data" "klast k3 = 0x8DFFF"
    "kfirst k4 = 0xFE000" "klast k4 = 0xFFFFF" using kmap_rows [OF d] unfolding k by simp_all
  show "rows_ok (kmap data)" unfolding rows_ok_def k using d by (auto simp: r in_row_def data_ok_def)
  assume "k \<in> set (kmap data)" "in_row k va"
  then have "0x80000 \<le> page va" using d unfolding k by (auto simp: r in_row_def data_ok_def)
  then show "KERNBASE \<le> va" using below_kernbase [of va] by (simp add: not_less)
qed

text \<open>Between the memory and the devices there is no row.\<close>

lemma kmap_gap:
  assumes "data_ok data" "k \<in> set (kmap data)" "0x8E000 \<le> page va" "page va < 0xFE000"
  shows "\<not> in_row k va"
proof -
  have "(kfirst k, klast k) \<in> set (map (\<lambda>k. (kfirst k, klast k)) (kmap data))" using assms(2) by simp
  then show ?thesis unfolding kmap_rows [OF assms(1)] using assms(1,3,4) by (auto simp: in_row_def data_ok_def)
qed

definition kmapped :: "'a vst_scheme \<Rightarrow> u32 \<Rightarrow> bool" where
  "kmapped s d \<longleftrightarrow> (\<forall>k \<in> set (kmap (kdata s)). \<forall>va. in_row k va \<longrightarrow> pte s d va = kentry k va)"

lemma touches_kdata: "touches P s t \<Longrightarrow> kdata t = kdata s" for s t :: "'a vst_scheme"
  by (auto simp: touches_def)

lemma um_inv_kernel:
  assumes "vm_inv s d fs" "KERNBASE < kend s" "\<And>va. va < KERNBASE \<Longrightarrow> pte s d va = 0"
  shows "um_inv s d fs" "\<not> umapped s d va"
proof -
  have n: "\<not> umapped s d va" for va using assms(3) by (auto simp: umapped_def present_def)
  then show "\<not> umapped s d va" .
  show "um_inv s d fs" by (rule um_invI [OF assms(1,2)]) (use n in blast)+
qed

lemma fresh_dir:
  assumes "kmem_inv s (d # fs)"
  defines "t \<equiv> zero_page d (s\<lparr>freelist := read32 (memory s) d\<rparr>)"
  shows "vm_inv t d fs" "pt_pages t d = {d}" "pte t d va = 0" "touches {d} s t"
proof -
  have k: "kmem_inv (s\<lparr>freelist := read32 (memory s) d\<rparr>) fs" "kpage s d" "d \<notin> set fs" using kalloc_spec(2) [OF assms(1) refl] by blast+
  have a: "aligned d" using kpage_nonzero(4) [OF k(2)] .
  have tz: "touches {d} (s\<lparr>freelist := read32 (memory s) d\<rparr>) t" unfolding t_def by (rule touches_zero)
  moreover have "touches {d} s (s\<lparr>freelist := read32 (memory s) d\<rparr>)" unfolding touches_def by (intro exI [of _ "memory s"]) auto
  ultimately show tt: "touches {d} s t" using touches_trans by blast
  have e: "\<not> present (pde t d i)" if "i < 1024" for i
    unfolding pde_def t_def load_zero_page [OF a that] by (simp add: present_def)
  then show p: "pt_pages t d = {d}" by (auto simp: pt_pages_def)
  have "kmem_inv t fs" by (rule kmem_frame [OF k(1) tz]) (use a k(3) in \<open>auto simp: t_def\<close>)
  moreover have "pt_wf t d" using e k(2) touchesD(2) [OF tt] by (simp add: pt_wf_def)
  ultimately show "vm_inv t d fs" using p k(3) by (simp add: vm_inv_def)
  show "pte t d va = 0" using e [of "dir_ix va"] by (simp add: pte_def)
qed

lemma card_pt_pages: "card (pt_pages s d) \<le> 1025" "finite (pt_pages s d)"
proof -
  have e: "{ptab s d i | i. i < 1024 \<and> present (pde s d i)} = ptab s d ` {i. i < 1024 \<and> present (pde s d i)}" by auto
  have f: "finite {i :: nat. i < 1024 \<and> present (pde s d i)}" by simp
  have "card {i :: nat. i < 1024 \<and> present (pde s d i)} \<le> card {..<1024 :: nat}" by (rule card_mono) auto
  then have "card (ptab s d ` {i. i < 1024 \<and> present (pde s d i)}) \<le> 1024" using card_image_le [OF f, of "ptab s d"] by simp
  then show "card (pt_pages s d) \<le> 1025" "finite (pt_pages s d)" using f unfolding pt_pages_def e by (simp_all add: card_insert_if)
qed

lemma setupkvm_spec:
  fixes s :: "'a vst_scheme"
  assumes "kmem_inv s fs" "KERNBASE < kend s" "data_ok (kdata s)"
  shows "\<exists>d t fs'. setupkvm s = Ok d t \<and> touches (set fs) s t \<and>
    (d = 0 \<longrightarrow> kmem_inv t fs' \<and> set fs' = set fs \<and> length fs \<le> 1025) \<and>
    (d \<noteq> 0 \<longrightarrow> um_inv t d fs' \<and> (\<exists>new. fs = new @ fs' \<and> pt_pages t d = set new) \<and>
      (\<forall>va < KERNBASE. pte t d va = 0) \<and> kmapped t d \<and> (\<forall>va. (\<forall>k \<in> set (kmap (kdata s)). \<not> in_row k va) \<longrightarrow> pte t d va = 0))"
proof (cases fs)
  case Nil
  then show ?thesis using kalloc_spec(1) [OF assms(1)] assms(1)
    by (intro exI [of _ 0] exI [of _ s] exI [of _ "[]"]) (simp add: setupkvm_def)
next
  case (Cons d fs1)
  define s1 where "s1 = zero_page d (s\<lparr>freelist := read32 (memory s) d\<rparr>)"
  note F = fresh_dir [OF assms(1) [unfolded Cons], folded s1_def]
  have d0: "d \<noteq> 0" using assms(1) Cons kpage_nonzero(1) by (simp add: kmem_inv_def)
  have kd: "kdata s1 = kdata s" using touches_kdata [OF F(4)] .
  have np: "\<not> present (pte s1 d va)" for va unfolding F(3) by (simp add: present_def)
  obtain ok t new fs2 where T: "setupkvm_loop d (kmap (kdata s)) s1 = Ok ok t" "vm_inv t d fs2" "fs1 = new @ fs2"
    "pt_pages t d = pt_pages s1 d \<union> set new" "touches (pt_pages t d) s1 t"
    "\<forall>va. (\<forall>k \<in> set (kmap (kdata s)). \<not> in_row k va) \<longrightarrow> pte t d va = pte s1 d va"
    "ok \<longrightarrow> (\<forall>k \<in> set (kmap (kdata s)). \<forall>va. in_row k va \<longrightarrow> pte t d va = kentry k va)" "\<not> ok \<longrightarrow> fs2 = []"
    using setupkvm_loop_spec [OF F(1) rows_kmap(1) [OF assms(3)]] np by blast
  have pp: "pt_pages t d = set (d # new)" "fs = (d # new) @ fs2" using T(3,4) F(2) Cons by simp_all
  have tt: "touches (set fs) s t"
    using touches_trans [OF touches_mono [OF F(4)] touches_mono [OF T(5)]] pp by auto
  have low: "pte t d va = 0" if "va < KERNBASE" for va
    using that T(6) F(3) rows_kmap(2) [OF assms(3)] by (metis leD)
  have ke: "KERNBASE < kend t" using assms(2) touchesD(1) [OF tt] by simp
  note U = um_inv_kernel [OF T(2) ke low]
  have sk: "setupkvm s = on (Ok ok t) (\<lambda>ok s. if ok then Ok d s else on (freevm d s) (\<lambda>_ s. Ok 0 s))"
    using kalloc_spec(1) [OF assms(1)] Cons d0 T(1) kd by (simp add: setupkvm_def s1_def P2V_def)
  show ?thesis
  proof (cases ok)
    case True
    have "kmapped t d" using T(7) True touches_kdata [OF tt] by (simp add: kmapped_def)
    moreover have "pte t d va = 0" if "\<forall>k \<in> set (kmap (kdata s)). \<not> in_row k va" for va using T(6) F(3) that by simp
    ultimately show ?thesis using True sk U(1) low tt pp d0 by (intro exI [of _ d] exI [of _ t] exI [of _ fs2]) auto
  next
    case False
    obtain u fs' where u: "freevm d t = Ok () u" "kmem_inv u fs'" "set fs' = set fs2 \<union> pt_pages t d \<union> uframe t d ` {va. umapped t d va}"
      "touches (pt_pages t d \<union> uframe t d ` {va. umapped t d va}) t u" by (rule freevm_spec [OF U(1)])
    have "{va. umapped t d va} = {}" using U(2) by blast
    then have "set fs' = set fs" "touches (set fs) t u" using u(3,4) pp touches_mono [of "pt_pages t d" t u "set fs"] by auto
    moreover have "length fs \<le> 1025"
      using False T(8) pp card_pt_pages [of t d] distinct_card [of fs] assms(1) by (simp add: kmem_inv_def)
    ultimately show ?thesis using False sk u(1,2) touches_trans [OF tt] by (intro exI [of _ 0] exI [of _ u] exI [of _ fs']) simp
  qed
qed

section \<open>Adding a page\<close>

definition uframes :: "'a mst_scheme \<Rightarrow> u32 \<Rightarrow> u32 set" where
  "uframes s d = uframe s d ` {va. umapped s d va}"

lemma uframes_aligned: "um_inv s d fs \<Longrightarrow> p \<in> uframes s d \<Longrightarrow> aligned p"
  using um_invD(6) kpage_nonzero(4) by (fastforce simp: uframes_def)

lemma um_frame:
  assumes "um_inv s d fs" "touches P s t" "\<forall>p \<in> P. aligned p" "P \<inter> pt_pages s d = {}" "kmem_inv t fs'"
    "set fs' \<inter> (pt_pages s d \<union> uframes s d) = {}"
  shows "um_inv t d fs'" "pt_pages t d = pt_pages s d" "pte t d va = pte s d va" "umapped t d va = umapped s d va"
    "uframe t d va = uframe s d va" "uframes t d = uframes s d"
proof -
  note I = um_invD [OF assms(1)] and F = pt_frame [OF um_invD(3) [OF assms(1)] assms(2-4)]
  show "pt_pages t d = pt_pages s d" "pte t d va = pte s d va" using F(2,3) by auto
  have um: "umapped t d va = umapped s d va" and uf: "uframe t d va = uframe s d va" for va
    by (simp_all add: umapped_def uframe_def F(3))
  then show "umapped t d va = umapped s d va" "uframe t d va = uframe s d va" "uframes t d = uframes s d" by (simp_all add: uframes_def)
  have v: "vm_inv t d fs'" using F(1,2) assms(5,6) by (auto simp: vm_inv_def)
  show "um_inv t d fs'"
  proof (rule um_invI [OF v])
    show "KERNBASE < kend t" using I(5) touchesD(1) [OF assms(2)] by simp
    fix va assume "umapped t d va"
    then have m: "umapped s d va" using um by simp
    then have "uframe s d va \<in> uframes s d" by (simp add: uframes_def)
    then show "kpage t (uframe t d va) \<and> uframe t d va \<notin> pt_pages t d \<and> uframe t d va \<notin> set fs'"
      using I(6,7) [OF m] uf F(2) touchesD(2) [OF assms(2)] assms(6) by auto
  next
    fix va vb assume "umapped t d va" "umapped t d vb" "uframe t d va = uframe t d vb"
    then show "page va = page vb" using I(9) [of va vb] um uf by simp
  qed
qed

lemma or_below: "a < 4096 \<Longrightarrow> b < 4096 \<Longrightarrow> a OR b < 4096" for a b :: u32
proof -
  assume "a < 4096" "b < 4096"
  then have "take_bit 12 a = a" "take_bit 12 b = b"
    by (simp_all add: take_bit_eq_mod word_unat_eq_iff unat_mod word_less_nat_alt)
  then have "take_bit 12 (a OR b) = a OR b" by (simp add: take_bit_or)
  moreover have "unat (take_bit 12 (a OR b)) < 4096" by (simp add: unsigned_take_bit_eq take_bit_eq_mod unat_mod)
  ultimately show ?thesis by (simp add: word_less_nat_alt)
qed

lemma mappages_one:
  assumes "aligned i"
  shows "mappages d i 4096 pa perm s = mappages_loop d i pa perm 0 s"
proof -
  have c: "unat (4095 :: u32) = 4095" by simp
  have "unat (i + 4095) = unat i + unat (4095 :: u32)" by (rule unat_add_no_overflow) (use aligned_bound [OF assms] c in linarith)
  moreover have "i + 4096 - 1 = i + 4095" by (simp add: algebra_simps)
  ultimately have "unat (i + 4096 - 1) = unat i + 4095" using c by (simp only:)
  then have "page (i + 4096 - 1) = page i" using assms by (auto simp: page_def aligned_def)
  moreover have "PGROUNDDOWN i = i" using page_inj [OF page_PGROUNDDOWN(2) assms] page_PGROUNDDOWN(1) by simp
  ultimately show ?thesis using mappages_pages [of i 4096 d pa perm s] by simp
qed

lemma map_page:
  assumes inv: "um_inv s d fs" and i: "aligned i" "i < KERNBASE" "\<not> present (pte s d i)"
    and mem: "kpage s mem" "mem \<notin> set fs" "mem \<notin> pt_pages s d" "mem \<notin> uframes s d" and flags: "flags < 4096"
  obtains (mapped) t new fs' where "mappages d i 4096 (V2P mem) flags s = Ok 0 t" "um_inv t d fs'" "fs = new @ fs'"
      "pt_pages t d = pt_pages s d \<union> set new" "touches (pt_pages t d) s t"
      "\<And>vb. pte t d vb = (if page vb = page i then V2P mem OR flags OR PTE_P else pte s d vb)"
      "\<And>vb. umapped t d vb \<longleftrightarrow> page vb = page i \<or> umapped s d vb"
      "\<And>vb. uframe t d vb = (if page vb = page i then mem else uframe s d vb)"
  | (full) "mappages d i 4096 (V2P mem) flags s = Ok (-1) s" "fs = []"
proof -
  note I = um_invD [OF inv]
  from I(1) show thesis
  proof (cases rule: walk_alloc [where va = i])
    case full
    then show thesis using that(2) i(1) by (simp add: mappages_one mappages_loop.simps [of d i])
  next
    case (found t new fs')
    let ?e = "V2P mem OR flags OR PTE_P"
    define u where "u = store32 (slot (ptab t d (dir_ix i)) (tab_ix i)) ?e t"
    note S = store_pte [OF found(4,3), of ?e, folded u_def]
    have "mappages d i 4096 (V2P mem) flags s = Ok 0 u"
      using found(1,2) load_pte [OF found(3)] found(7) i by (simp add: mappages_one mappages_loop.simps [of d i] present_def u_def)
    moreover have pte: "pte u d vb = (if page vb = page i then ?e else pte s d vb)" for vb using S(3) found(7) by simp
    moreover have pp: "pt_pages u d = pt_pages s d \<union> set new" using S(2) found(6) by simp
    moreover have tt: "touches (pt_pages u d) s u" using touches_trans [OF found(8) S(4)] S(2) by simp
    moreover have um: "umapped u d vb \<longleftrightarrow> page vb = page i \<or> umapped s d vb" for vb
    proof (cases "page vb = page i")
      case True
      have "present ?e" unfolding present_or by (simp add: present_def)
      then show ?thesis using True i(2) pte [of vb] by (simp add: umapped_def below_kernbase)
    qed (simp add: umapped_def pte)
    moreover have uf: "uframe u d vb = (if page vb = page i then mem else uframe s d vb)" for vb
    proof -
      have "flags OR PTE_P < 4096"
        using flags by (intro or_below) simp_all
      then have "PTE_ADDR (V2P mem OR (flags OR PTE_P)) = V2P mem"
        using PTE_ADDR_make [OF aligned_V2P [OF kpage_nonzero(4) [OF mem(1)]]] by blast
      then show ?thesis by (simp add: uframe_def pte or.assoc)
    qed
    moreover have "um_inv u d fs'"
    proof (rule um_invI [OF S(1)])
      show "KERNBASE < kend u" using I(5) touchesD(1) [OF tt] by simp
      have nd: "mem \<notin> pt_pages u d" "mem \<notin> set fs'" using mem(2,3) found(5) pp by auto
      fix vb assume m: "umapped u d vb"
      show "kpage u (uframe u d vb) \<and> uframe u d vb \<notin> pt_pages u d \<and> uframe u d vb \<notin> set fs'"
      proof (cases "page vb = page i")
        case True
        then show ?thesis using uf nd mem(1) touchesD(2) [OF tt] by simp
      next
        case False
        then have m': "umapped s d vb" using um m by blast
        then show ?thesis using False uf I(6-8) [OF m'] pp found(5) touchesD(2) [OF tt] by auto
      qed
    next
      fix vb vc assume h: "umapped u d vb" "umapped u d vc" "uframe u d vb = uframe u d vc"
      have ne: "uframe s d va \<noteq> mem" if "umapped s d va" for va using that mem(4) by (auto simp: uframes_def)
      show "page vb = page vc" using h um uf ne I(9) [of vb vc] by (metis (full_types))
    qed
    ultimately show thesis using that(1) found(5) by blast
  qed
qed


section \<open>Copying an address space\<close>

text \<open>The byte that a process with directory \<open>d\<close> finds at address \<open>va\<close>.\<close>

definition ubyte :: "'a mst_scheme \<Rightarrow> u32 \<Rightarrow> u32 \<Rightarrow> byte" where
  "ubyte s d va = memory s (uframe s d va + (va - PGROUNDDOWN va))"

lemma within_frame: "within f PGSIZE (f + (va - PGROUNDDOWN va))"
  using unat_page_off [of va] by (simp add: within_def)

lemma frame_byte:
  assumes "touches Q s t" "\<forall>p \<in> Q. aligned p" "aligned f" "f \<notin> Q"
  shows "memory t (f + (va - PGROUNDDOWN va)) = memory s (f + (va - PGROUNDDOWN va))"
  by (rule touches_page [OF assms(1,3,4,2) within_frame])

text \<open>What is left of the free pages \<open>F\<close> together with everything that \<open>d\<close> has taken from them is \<open>F\<close> again.\<close>

definition built :: "'a mst_scheme \<Rightarrow> u32 set \<Rightarrow> 'a mst_scheme \<Rightarrow> u32 \<Rightarrow> u32 list \<Rightarrow> bool" where
  "built s F t d fs \<longleftrightarrow> touches F s t \<and> um_inv t d fs \<and> set fs \<union> pt_pages t d \<union> uframes t d = F"

definition copied :: "'a mst_scheme \<Rightarrow> u32 \<Rightarrow> 'a mst_scheme \<Rightarrow> u32 \<Rightarrow> nat \<Rightarrow> bool" where
  "copied s pgdir t d k \<longleftrightarrow> (\<forall>va. umapped t d va \<longleftrightarrow> page va < k) \<and>
     (\<forall>va. page va < k \<longrightarrow> PTE_FLAGS (pte t d va) = PTE_FLAGS (pte s pgdir va) \<and> ubyte t d va = ubyte s pgdir va)"

lemma walk_present:
  assumes "pt_wf s d" "present (pte s d va)"
  shows "fst (walkpgdir d va False s) \<noteq> 0" "load32 s (fst (walkpgdir d va False s)) = pte s d va"
proof -
  have p: "present (pde s d (dir_ix va))" using assms(2) by (auto simp: pte_def present_def split: if_splits)
  then show "fst (walkpgdir d va False s) \<noteq> 0" using slot_nonzero [OF pt_wfD(1) [OF assms(1) _ p]] by (simp add: walk_find)
  show "load32 s (fst (walkpgdir d va False s)) = pte s d va" using p by (simp add: walk_find load_pte)
qed

lemma PTE_FLAGS_less: "PTE_FLAGS e < 4096"
proof -
  have "unat (PTE_FLAGS e) < 4096" by (simp add: PTE_FLAGS_def unat_mask_low)
  then show ?thesis by (simp add: word_less_nat_alt)
qed

lemma present_flags: "present e \<Longrightarrow> PTE_FLAGS e OR PTE_P = PTE_FLAGS e"
  by (rule bit_word_eqI) (auto simp: present_bit PTE_FLAGS_def mask12 bit_simps)

lemma copy_page_mem:
  assumes "um_inv t d (mem # fs)" "aligned f" "f \<noteq> mem" "kpage t f"
  defines "u \<equiv> t\<lparr>freelist := read32 (memory t) mem, memory := memmove mem f PGSIZE (memory t)\<rparr>"
  shows "um_inv u d fs" "pt_pages u d = pt_pages t d" "pte u d va = pte t d va" "uframes u d = uframes t d" "touches {mem} t u"
    "memory u (mem + (va - PGROUNDDOWN va)) = memory t (f + (va - PGROUNDDOWN va))"
proof -
  note I = um_invD [OF assms(1)]
  have k: "kmem_inv (t\<lparr>freelist := read32 (memory t) mem\<rparr>) fs" "kpage t mem" "mem \<notin> set fs" using kalloc_spec(2) [OF I(2) refl] by blast+
  have am: "aligned mem" using kpage_nonzero(4) [OF k(2)] .
  have b: "unat f + PGSIZE < 2 ^ 32" "unat mem + PGSIZE < 2 ^ 32" using kpage_nonzero(3) [OF k(2)] kpage_nonzero(3) [OF assms(4)] by simp_all
  have mm: "memory u x = (if within mem PGSIZE x then memory t (f + (x - mem)) else memory t x)" for x
    unfolding u_def within_def using memmove_spec [OF b] by simp
  show tt: "touches {mem} t u" unfolding touches_def using mm by (intro exI [of _ "memory u"] exI [of _ "freelist u"]) (simp add: u_def)
  have "touches {mem} (t\<lparr>freelist := read32 (memory t) mem\<rparr>) u"
    unfolding touches_def using mm by (intro exI [of _ "memory u"] exI [of _ "freelist u"]) (simp add: u_def)
  then have ku: "kmem_inv u fs" by (rule kmem_frame [OF k(1)]) (use am k(3) in \<open>auto simp: u_def\<close>)
  have m: "mem \<notin> pt_pages t d" "set fs \<inter> (pt_pages t d \<union> uframes t d) = {}" using I(4,8) by (auto simp: uframes_def)
  note U = um_frame [OF assms(1) tt _ _ ku m(2)]
  show "um_inv u d fs" "pt_pages u d = pt_pages t d" "pte u d va = pte t d va" "uframes u d = uframes t d" using U am m(1) by auto
  show "memory u (mem + (va - PGROUNDDOWN va)) = memory t (f + (va - PGROUNDDOWN va))"
    unfolding mm using within_frame [of mem va] by simp
qed


text \<open>The parent sees none of what is built from free pages.\<close>

lemma parent_kept:
  assumes "um_inv s pgdir fs" "touches (set fs) s t"
  shows "pt_wf t pgdir" "pte t pgdir va = pte s pgdir va" "umapped s pgdir va \<Longrightarrow> ubyte t pgdir va = ubyte s pgdir va"
    "umapped s pgdir va \<Longrightarrow> f = uframe s pgdir va \<Longrightarrow> memory t (f + (vb - PGROUNDDOWN vb)) = memory s (f + (vb - PGROUNDDOWN vb))"
proof -
  note I = um_invD [OF assms(1)]
  have al: "\<forall>p \<in> set fs. aligned p" using I(2) by (auto simp: kmem_inv_def kpage_def)
  have dj: "set fs \<inter> pt_pages s pgdir = {}" using I(4) by blast
  note F = pt_frame [OF I(3) assms(2) al dj]
  show "pt_wf t pgdir" "pte t pgdir va = pte s pgdir va" using F by auto
  show b: "memory t (f + (vb - PGROUNDDOWN vb)) = memory s (f + (vb - PGROUNDDOWN vb))"
    if "umapped s pgdir va" "f = uframe s pgdir va" for f va vb
    unfolding that(2) by (rule frame_byte [OF assms(2) al]) (use kpage_nonzero(4) [OF I(6) [OF that(1)]] I(8) [OF that(1)] in auto)
  show "ubyte t pgdir va = ubyte s pgdir va" if "umapped s pgdir va"
    unfolding ubyte_def using b [OF that refl] F(3) by (simp add: uframe_def)
qed

lemma uframes_add:
  assumes "\<And>vb. umapped v d vb \<longleftrightarrow> page vb = page i \<or> umapped u d vb" "\<And>vb. uframe v d vb = (if page vb = page i then mem else uframe u d vb)"
    and "\<not> present (pte u d i)"
  shows "uframes v d = insert mem (uframes u d)"
proof -
  have n: "page vb \<noteq> page i" if "umapped u d vb" for vb using that assms(3) pte_page [of vb i u d] by (auto simp: umapped_def)
  have "{vb. umapped v d vb} = {vb. page vb = page i} \<union> {vb. umapped u d vb}" using assms(1) by blast
  then have "uframes v d = uframe v d ` {vb. page vb = page i} \<union> uframe v d ` {vb. umapped u d vb}" by (simp only: uframes_def image_Un)
  also have "uframe v d ` {vb. page vb = page i} = {mem}" using assms(2) by auto
  also have "uframe v d ` {vb. umapped u d vb} = uframes u d" unfolding uframes_def using n assms(2) by (intro image_cong) auto
  finally show ?thesis by simp
qed

lemma copy_step:
  assumes par: "um_inv s pgdir fs0" and b: "built s (set fs0) t d fs" and c: "copied s pgdir t d k"
    and k: "aligned i" "page i = k" "umapped s pgdir i"
  shows "(\<exists>t' fs'. copyuvm_loop pgdir d (i # is) t = copyuvm_loop pgdir d is t' \<and> built s (set fs0) t' d fs' \<and> copied s pgdir t' d (k + 1)) \<or>
    (\<exists>t' fs'. copyuvm_loop pgdir d (i # is) t = Ok False t' \<and> built s (set fs0) t' d fs' \<and> length fs' \<le> 1 \<and>
      (\<forall>va. umapped t' d va \<longleftrightarrow> page va < k))"
proof -
  have B: "touches (set fs0) s t" "um_inv t d fs" "set fs \<union> pt_pages t d \<union> uframes t d = set fs0" using b by (auto simp: built_def)
  note I = um_invD [OF B(2)] and K = parent_kept [OF par B(1)]
  have C: "\<And>va. umapped t d va \<longleftrightarrow> page va < k" "\<And>va. page va < k \<Longrightarrow> PTE_FLAGS (pte t d va) = PTE_FLAGS (pte s pgdir va)"
    "\<And>va. page va < k \<Longrightarrow> ubyte t d va = ubyte s pgdir va" using c by (auto simp: copied_def)
  have pr: "present (pte t pgdir i)" using k(3) K(2) by (simp add: umapped_def)
  note W = walk_present [OF K(1) pr, unfolded K(2)]
  let ?f = "uframe s pgdir i" and ?fl = "PTE_FLAGS (pte s pgdir i)"
  have kf: "kpage t ?f" "aligned ?f" "?f \<notin> set fs0"
    using um_invD(6,8) [OF par k(3)] touchesD(2) [OF B(1)] kpage_nonzero(4) by auto
  have step: "copyuvm_loop pgdir d (i # is) t =
      (let (mem, s) = kalloc t in if mem = 0 then Ok False s
       else on (mappages d i 4096 (V2P mem) ?fl (s\<lparr>memory := memmove mem ?f PGSIZE (memory s)\<rparr>)) (\<lambda>r s.
            if r < 0 then on (kfree mem s) (\<lambda>_ s. Ok False s) else copyuvm_loop pgdir d is s))"
    using W pr by (simp add: Let_def K(2) present_def uframe_def split: prod.split)
  show ?thesis
  proof (cases fs)
    case Nil
    then have "copyuvm_loop pgdir d (i # is) t = Ok False t" unfolding step using kalloc_spec(1) [OF I(2)] by simp
    then show ?thesis using b C(1) Nil by (intro disjI2 exI [of _ t] exI [of _ fs]) simp
  next
    case (Cons mem fs1)
    have m0: "mem \<in> set fs0" "mem \<noteq> 0" "?f \<noteq> mem" "kpage t mem" "mem \<notin> set fs1"
      using Cons B(3) kf(3) I(2) kpage_nonzero(1) [of t mem] by (auto simp: kmem_inv_def)
    define u where "u = t\<lparr>freelist := read32 (memory t) mem, memory := memmove mem ?f PGSIZE (memory t)\<rparr>"
    note U = copy_page_mem [OF B(2) [unfolded Cons] kf(2) m0(3) kf(1), folded u_def]
    have loop: "copyuvm_loop pgdir d (i # is) t = on (mappages d i 4096 (V2P mem) ?fl u) (\<lambda>r s.
            if r < 0 then on (kfree mem s) (\<lambda>_ s. Ok False s) else copyuvm_loop pgdir d is s)"
      unfolding step using kalloc_spec(1) [OF I(2)] Cons m0(2) by (simp add: u_def)
    have tu: "touches (set fs0) s u" by (rule touches_trans [OF B(1) touches_mono [OF U(5)]]) (use m0(1) in simp)
    have mn: "mem \<notin> pt_pages u d" "mem \<notin> uframes u d" using I(4,8) Cons U(2,4) by (auto simp: uframes_def)
    have ik: "i < KERNBASE" using k(3) by (simp add: umapped_def)
    have np: "\<not> present (pte u d i)" using C(1) [of i] k(2) ik U(3) by (simp add: umapped_def)
    have ku: "kpage u mem" using m0(4) touchesD(2) [OF U(5)] by simp
    show ?thesis
    proof (cases rule: map_page [OF U(1) k(1) ik np ku m0(5) mn PTE_FLAGS_less [of "pte s pgdir i"], case_names mapped full])
      case full
      obtain v where v: "kfree mem u = Ok () v" "kmem_inv v (mem # fs1)" "touches {mem} u v"
        by (rule kfree_touches [OF um_invD(2) [OF U(1)] ku m0(5)])
      have "set (mem # fs1) \<inter> (pt_pages u d \<union> uframes u d) = {}" using mn full(2) by simp
      note V = um_frame [OF U(1) v(3) _ _ v(2) this]
      have "built s (set fs0) v d (mem # fs1)"
        using V mn(1) kpage_nonzero(4) [OF ku] touches_trans [OF tu touches_mono [OF v(3)]] m0(1) B(3) Cons U(2,4)
        by (simp add: built_def)
      moreover have "copyuvm_loop pgdir d (i # is) t = Ok False v" unfolding loop full(1) using v(1) by simp
      moreover have "umapped v d va \<longleftrightarrow> page va < k" for va
        using V(4) [of va] mn(1) kpage_nonzero(4) [OF ku] C(1) [of va] U(3) by (simp add: umapped_def)
      ultimately show ?thesis using full(2) by (intro disjI2 exI [of _ v] exI [of _ "mem # fs1"]) simp
    next
      case (mapped v new fs')
      have "copyuvm_loop pgdir d (i # is) t = copyuvm_loop pgdir d is v" unfolding loop mapped(1) by simp
      moreover have "uframes v d = insert mem (uframes u d)"
        by (rule uframes_add [OF mapped(7,8) np])
      then have "built s (set fs0) v d fs'"
        using touches_trans [OF tu touches_mono [OF mapped(5)]] mapped(2-4) B(3) Cons U(2,4) by (auto simp: built_def)
      moreover have "copied s pgdir v d (k + 1)"
      proof -
        have mv: "mem \<notin> pt_pages v d" using mn(1) mapped(3,4) m0(5) by auto
        have av: "\<forall>p \<in> pt_pages v d. aligned p" using aligned_pt_pages [OF um_invD(3) [OF mapped(2)]] by blast
        have old: "ubyte v d va = ubyte s pgdir va" "pte v d va = pte t d va" if "page va < k" for va
        proof -
          have g: "umapped t d va" using C(1) that by simp
          have n: "page va \<noteq> page i" using that k(2) by simp
          have e: "uframe v d va = uframe t d va" using n mapped(8) U(3) by (simp add: uframe_def)
          have f: "aligned (uframe t d va)" "uframe t d va \<notin> pt_pages v d" "uframe t d va \<noteq> mem"
            using um_invD(6-8) [OF B(2) g] kpage_nonzero(4) mapped(3,4) U(2) Cons by auto
          have "ubyte v d va = ubyte t d va"
            unfolding ubyte_def e using frame_byte [OF mapped(5) av f(1,2)] frame_byte [OF U(5) _ f(1)] f(3) kpage_nonzero(4) [OF ku] by simp
          then show "ubyte v d va = ubyte s pgdir va" "pte v d va = pte t d va" using C(3) that n mapped(6) U(3) by simp_all
        qed
        have new: "ubyte v d va = ubyte s pgdir va" "PTE_FLAGS (pte v d va) = PTE_FLAGS (pte s pgdir va)" if "page va = k" for va
        proof -
          have n: "page va = page i" using that k(2) by simp
          have "ubyte v d va = memory u (mem + (va - PGROUNDDOWN va))"
            unfolding ubyte_def using mapped(8) n frame_byte [OF mapped(5) av kpage_nonzero(4) [OF ku] mv] by simp
          also have "\<dots> = ubyte s pgdir va" using U(6) K(4) [OF k(3) refl] uframe_page [OF n, of s pgdir] by (simp add: ubyte_def)
          finally show "ubyte v d va = ubyte s pgdir va" .
          have "pte v d va = V2P mem OR ?fl" using mapped(6) n present_flags k(3) by (simp add: or.assoc umapped_def)
          then show "PTE_FLAGS (pte v d va) = PTE_FLAGS (pte s pgdir va)"
            using PTE_FLAGS_make [OF aligned_V2P [OF kpage_nonzero(4) [OF ku]] PTE_FLAGS_less] pte_page [OF n, of s pgdir] by simp
        qed
        have "umapped v d va \<longleftrightarrow> page va < k + 1" for va
          using mapped(7) C(1) [of va] U(3) k(2) by (auto simp: umapped_def less_Suc_eq)
        then show ?thesis unfolding copied_def using old new C(2) by (simp add: less_Suc_eq)
      qed
      ultimately show ?thesis by blast
    qed
  qed
qed


lemma page_of_index:
  assumes "k < 2 ^ 20"
  shows "page (of_nat (k * PGSIZE) :: u32) = k" "aligned (of_nat (k * PGSIZE) :: u32)"
proof -
  have "unat (of_nat (k * PGSIZE) :: u32) = k * PGSIZE" using assms by (intro unat_of_nat32) simp
  then show "page (of_nat (k * PGSIZE) :: u32) = k" "aligned (of_nat (k * PGSIZE) :: u32)" by (simp_all add: page_def aligned_def)
qed

lemma copyuvm_loop_spec:
  assumes par: "um_inv s pgdir fs0" and n: "n \<le> 0x80000" "\<And>va. page va < n \<Longrightarrow> umapped s pgdir va"
    and b: "built s (set fs0) t d fs" and c: "copied s pgdir t d k" and k: "k \<le> n"
  shows "\<exists>r t' fs'. copyuvm_loop pgdir d (map (\<lambda>k. of_nat (k * PGSIZE)) [k..<n]) t = Ok r t' \<and> built s (set fs0) t' d fs' \<and>
    (r \<longrightarrow> copied s pgdir t' d n) \<and> (\<not> r \<longrightarrow> length fs' \<le> 1 \<and> (\<forall>va. umapped t' d va \<longrightarrow> page va < n))"
  using b c k
proof (induction "n - k" arbitrary: k t fs)
  case 0
  then show ?case by (intro exI [of _ True] exI [of _ t] exI [of _ fs]) simp
next
  case (Suc m)
  then have k: "k < n" "m = n - Suc k" by simp_all
  let ?i = "of_nat (k * PGSIZE) :: u32"
  have i: "aligned ?i" "page ?i = k" using page_of_index [of k] k(1) n(1) by simp_all
  have "map (\<lambda>k. of_nat (k * PGSIZE)) [k..<n] = ?i # map (\<lambda>k. of_nat (k * PGSIZE) :: u32) [Suc k..<n]"
    using k(1) by (simp only: upt_conv_Cons list.map)
  then have l: "copyuvm_loop pgdir d (map (\<lambda>k. of_nat (k * PGSIZE)) [k..<n]) t =
      copyuvm_loop pgdir d (?i # map (\<lambda>k. of_nat (k * PGSIZE)) [Suc k..<n]) t" by (simp only:)
  have um: "umapped s pgdir ?i" using n(2) [of ?i] i(2) k(1) by simp
  from copy_step [OF par Suc.prems(1,2) i um, of "map (\<lambda>k. of_nat (k * PGSIZE)) [Suc k..<n]"] show ?case
  proof (elim disjE exE conjE)
    fix t' fs' assume h: "copyuvm_loop pgdir d (?i # map (\<lambda>k. of_nat (k * PGSIZE)) [Suc k..<n]) t =
        copyuvm_loop pgdir d (map (\<lambda>k. of_nat (k * PGSIZE)) [Suc k..<n]) t'" "built s (set fs0) t' d fs'" "copied s pgdir t' d (k + 1)"
    show ?case unfolding l h(1) using Suc.hyps(1) [OF k(2) h(2)] h(3) k(1) by simp
  next
    fix t' fs' assume h: "copyuvm_loop pgdir d (?i # map (\<lambda>k. of_nat (k * PGSIZE)) [Suc k..<n]) t = Ok False t'"
      "built s (set fs0) t' d fs'" "length fs' \<le> 1" "\<forall>va. umapped t' d va \<longleftrightarrow> page va < k"
    show ?case unfolding l h(1) using h(2-4) k(1) by (intro exI [of _ False] exI [of _ t'] exI [of _ fs']) simp
  qed
qed

lemma page_addrs_map: "page_addrs 0 sz = map (\<lambda>k. of_nat (k * PGSIZE)) [0..<npages sz]"
  by (simp add: page_addrs_def npages_def)

lemma card_uframes:
  assumes "\<forall>va. umapped s d va \<longrightarrow> page va < n" "n \<le> 0x80000"
  shows "card (uframes s d) \<le> n"
proof -
  have "uframe s d va \<in> (\<lambda>k. uframe s d (of_nat (k * PGSIZE))) ` {..<n}" if "umapped s d va" for va
  proof -
    have "page va < n" using that assms(1) by blast
    moreover from this have "page va = page (of_nat (page va * PGSIZE) :: u32)" using assms(2) page_of_index(1) [of "page va"] by simp
    ultimately show ?thesis using uframe_page by blast
  qed
  then have "uframes s d \<subseteq> (\<lambda>k. uframe s d (of_nat (k * PGSIZE))) ` {..<n}" by (auto simp: uframes_def)
  then have "card (uframes s d) \<le> card ((\<lambda>k. uframe s d (of_nat (k * PGSIZE))) ` {..<n})" by (intro card_mono) auto
  also have "\<dots> \<le> n" using card_image_le [of "{..<n}" "\<lambda>k. uframe s d (of_nat (k * PGSIZE))"] by simp
  finally show ?thesis .
qed

lemma copyuvm_spec:
  fixes s :: "'a vst_scheme"
  assumes par: "um_inv s pgdir fs" and "data_ok (kdata s)" "sz \<le> KERNBASE" "\<And>va. page va < npages sz \<Longrightarrow> umapped s pgdir va"
  shows "\<exists>d t fs'. copyuvm pgdir sz s = Ok d t \<and> touches (set fs) s t \<and>
    (d = 0 \<longrightarrow> kmem_inv t fs' \<and> set fs' = set fs \<and> length fs \<le> npages sz + 1026) \<and>
    (d \<noteq> 0 \<longrightarrow> um_inv t d fs' \<and> set fs' \<union> pt_pages t d \<union> uframes t d = set fs \<and> copied s pgdir t d (npages sz))"
proof -
  note I = um_invD [OF par]
  obtain d s1 fs1 where S: "setupkvm s = Ok d s1" "touches (set fs) s s1" "d = 0 \<longrightarrow> kmem_inv s1 fs1 \<and> set fs1 = set fs \<and> length fs \<le> 1025"
    "d \<noteq> 0 \<longrightarrow> um_inv s1 d fs1 \<and> (\<exists>new. fs = new @ fs1 \<and> pt_pages s1 d = set new) \<and> (\<forall>va < KERNBASE. pte s1 d va = 0) \<and> kmapped s1 d"
    using setupkvm_spec [OF I(2,5) assms(2)] by blast
  show ?thesis
  proof (cases "d = 0")
    case True
    then show ?thesis using S by (intro exI [of _ 0] exI [of _ s1] exI [of _ fs1]) (simp add: copyuvm_def)
  next
    case False
    have nu: "\<not> umapped s1 d va" for va using S(4) False by (auto simp: umapped_def present_def)
    then have "uframes s1 d = {}" by (simp add: uframes_def)
    then have b: "built s (set fs) s1 d fs1" using S(2,4) False by (auto simp: built_def)
    have c: "copied s pgdir s1 d 0" using nu by (simp add: copied_def)
    obtain r t fs' where T: "copyuvm_loop pgdir d (page_addrs 0 sz) s1 = Ok r t" "built s (set fs) t d fs'" "r \<longrightarrow> copied s pgdir t d (npages sz)" "\<not> r \<longrightarrow> length fs' \<le> 1 \<and> (\<forall>va. umapped t d va \<longrightarrow> page va < npages sz)"
      using copyuvm_loop_spec [OF par npages_kernbase [OF assms(3)] assms(4) b c] unfolding page_addrs_map by blast
    have B: "touches (set fs) s t" "um_inv t d fs'" "set fs' \<union> pt_pages t d \<union> uframes t d = set fs" using T(2) by (auto simp: built_def)
    show ?thesis
    proof (cases r)
      case True
      then have "copyuvm pgdir sz s = Ok d t" using S(1) False T(1) by (simp add: copyuvm_def)
      then show ?thesis using B T(3) True False by blast
    next
      case F: False
      obtain u fs'' where u: "freevm d t = Ok () u" "kmem_inv u fs''" "set fs'' = set fs' \<union> pt_pages t d \<union> uframe t d ` {va. umapped t d va}"
        "touches (pt_pages t d \<union> uframe t d ` {va. umapped t d va}) t u" by (rule freevm_spec [OF B(2)])
      have "copyuvm pgdir sz s = Ok 0 u" using S(1) False F T(1) u(1) by (simp add: copyuvm_def)
      moreover have "touches (set fs) s u" using touches_trans [OF B(1) touches_mono [OF u(4)]] B(3) by (auto simp: uframes_def)
      moreover have "length fs \<le> npages sz + 1026"
      proof -
        have "length fs = card (set fs' \<union> pt_pages t d \<union> uframes t d)"
          unfolding B(3) using I(2) by (simp add: kmem_inv_def distinct_card)
        also have "\<dots> \<le> card (set fs') + card (pt_pages t d) + card (uframes t d)"
          by (meson add_mono card_Un_le le_refl order_trans)
        finally show ?thesis using card_length [of fs'] card_pt_pages(1) [of t d] card_uframes [of t d "npages sz"] T(4) F
            npages_kernbase [OF assms(3)] by simp
      qed
      ultimately show ?thesis using u(2,3) B(3) by (intro exI [of _ 0] exI [of _ u] exI [of _ fs'']) (simp add: uframes_def)
    qed
  qed
qed

section \<open>Copying to a process\<close>

lemma store_bytes_spec:
  "length bs \<le> 2 ^ 32 \<Longrightarrow> store_bytes a bs m x = (if unat (x - a) < length bs then bs ! unat (x - a) else m x)"
proof (induction a bs m rule: store_bytes.induct)
  case (2 a b bs m)
  have "length bs \<le> 2 ^ 32" using 2(2) by simp
  note IH = 2(1) [OF this]
  have lb: "length bs \<le> 2 ^ 32 - 1" using 2(2) by simp
  show ?case
  proof (cases "x = a")
    case True
    have "x - (a + 1) = - 1" using True by simp
    then have "unat (x - (a + 1)) = 2 ^ 32 - 1" by (simp only: unsigned_minus_1_eq_mask) (simp add: mask_eq_exp_minus_1)
    then show ?thesis using True lb unfolding store_bytes.simps IH by simp
  next
    case False
    then have "x - a \<noteq> 0" by simp
    then have "unat (x - a) = Suc (unat (x - (a + 1)))"
      using unat_sub [of 1 "x - a"] unat_gt_0 [of "x - a"] by (simp add: word_le_nat_alt algebra_simps)
    then show ?thesis using False unfolding store_bytes.simps IH by simp
  qed
qed simp

lemma unat_page: "unat x = page x * PGSIZE + unat x mod PGSIZE"
  unfolding page_def by (rule div_mult_mod_eq [symmetric])

definition user_ok :: "'a mst_scheme \<Rightarrow> u32 \<Rightarrow> u32 \<Rightarrow> bool" where
  "user_ok s d va \<longleftrightarrow> umapped s d va \<and> pte s d va AND PTE_U \<noteq> 0"

lemma uva2ka_ok: "pt_wf s d \<Longrightarrow> user_ok s d va \<Longrightarrow> uva2ka d va s = Ok (uframe s d va) s"
  using walk_present [of s d va] by (simp add: uva2ka_def user_ok_def umapped_def uframe_def present_def)

lemma store_frame_spec:
  assumes inv: "um_inv s d fs" and m: "umapped s d va" and n: "unat va mod PGSIZE + length bs \<le> PGSIZE"
  defines "t \<equiv> s\<lparr>memory := store_bytes (uframe s d va + (va - PGROUNDDOWN va)) bs (memory s)\<rparr>"
  shows "um_inv t d fs" "pte t d x = pte s d x" "touches {uframe s d va} s t"
    "umapped s d x \<Longrightarrow> ubyte t d x = (if unat va \<le> unat x \<and> unat x < unat va + length bs then bs ! (unat x - unat va) else ubyte s d x)"
proof -
  let ?f = "uframe s d va"
  note I = um_invD [OF inv] and F = um_invD(6-8) [OF inv m]
  have af: "aligned ?f" using kpage_nonzero(4) [OF F(1)] .
  have mem: "memory t y = (if unat (y - (?f + (va - PGROUNDDOWN va))) < length bs then bs ! unat (y - (?f + (va - PGROUNDDOWN va))) else memory s y)" for y
    unfolding t_def using n by (simp add: store_bytes_spec)
  have off: "unat (va - PGROUNDDOWN va) = unat va mod PGSIZE" by (rule unat_page_off)
  have inside: "within ?f PGSIZE y" if "unat (y - (?f + (va - PGROUNDDOWN va))) < length bs" for y
  proof -
    let ?z = "y - (?f + (va - PGROUNDDOWN va))"
    have "y - ?f = ?z + (va - PGROUNDDOWN va)" by simp
    moreover have "unat (?z + (va - PGROUNDDOWN va)) = unat ?z + unat va mod PGSIZE"
      using that n off by (subst unat_add_no_overflow) simp_all
    ultimately show ?thesis using that n by (simp add: within_def)
  qed
  show tt: "touches {?f} s t" unfolding touches_def using mem inside
    by (intro exI [of _ "memory t"] exI [of _ "freelist s"]) (auto simp: t_def)
  have kt: "kmem_inv t fs" by (rule kmem_frame [OF I(2) tt]) (use af F(3) in \<open>auto simp: t_def\<close>)
  have dj: "set fs \<inter> (pt_pages s d \<union> uframes s d) = {}" using I(4,8) by (auto simp: uframes_def)
  have pf: "\<forall>p \<in> {?f}. aligned p" "{?f} \<inter> pt_pages s d = {}" using af F(2) by auto
  note U = um_frame [OF inv tt pf kt dj]
  show "um_inv t d fs" "pte t d x = pte s d x" using U by auto
  assume mx: "umapped s d x"
  show "ubyte t d x = (if unat va \<le> unat x \<and> unat x < unat va + length bs then bs ! (unat x - unat va) else ubyte s d x)"
  proof (cases "page x = page va")
    case True
    have e: "uframe s d x = ?f" using uframe_page [OF True] .
    note ux = unat_page [of x, unfolded True] unat_page [of va]
    have "PGROUNDDOWN x = PGROUNDDOWN va" by (rule page_inj) (simp_all add: page_PGROUNDDOWN True)
    then have z: "?f + (x - PGROUNDDOWN x) - (?f + (va - PGROUNDDOWN va)) = x - va" by simp
    have "unat (x - va) < length bs \<longleftrightarrow> unat va \<le> unat x \<and> unat x < unat va + length bs"
    proof (cases "va \<le> x")
      case True
      then show ?thesis by (auto simp: unat_sub word_le_nat_alt)
    next
      case False
      then have "unat (x - va) = 2 ^ 32 + unat x - unat va" "unat x < unat va"
        by (auto simp: unat_sub_if_size word_size word_le_nat_alt)
      moreover have "length bs \<le> 4096" "unat va < unat x + 4096" using n ux mod_less_divisor [of PGSIZE "unat va"] by linarith+
      ultimately show ?thesis by auto
    qed
    then show ?thesis unfolding ubyte_def U(5) e mem z by (auto simp: unat_sub word_le_nat_alt)
  next
    case False
    have "uframe s d x \<noteq> ?f" using I(9) [OF mx m] False by blast
    then have "ubyte t d x = ubyte s d x"
      unfolding ubyte_def U(5) using kpage_nonzero(4) [OF um_invD(6) [OF inv mx]] pf(1) by (intro frame_byte [OF tt]) auto
    moreover have "\<not> (unat va \<le> unat x \<and> unat x < unat va + length bs)"
    proof
      assume h: "unat va \<le> unat x \<and> unat x < unat va + length bs"
      have "unat x < page va * PGSIZE + PGSIZE" "page va * PGSIZE \<le> unat x" using unat_page [of va] h n by linarith+
      then have "page x = page va" unfolding page_def [of x] by (intro div_nat_eqI) (simp_all add: mult.commute)
      then show False using False by simp
    qed
    ultimately show ?thesis by auto
  qed
qed


lemma copyout_spec:
  assumes "um_inv s d fs" "unat va + length src \<le> 0x80000000"
    and "\<And>x. unat va \<le> unat x \<Longrightarrow> unat x < unat va + length src \<Longrightarrow> user_ok s d x"
  shows "\<exists>t. copyout d va src s = Ok 0 t \<and> um_inv t d fs \<and> (\<forall>x. pte t d x = pte s d x) \<and> touches (uframes s d) s t \<and>
    (\<forall>x. umapped s d x \<longrightarrow> ubyte t d x = (if unat va \<le> unat x \<and> unat x < unat va + length src then src ! (unat x - unat va) else ubyte s d x))"
  using assms
proof (induction d va src s rule: copyout.induct)
  case (1 d va src s)
  show ?case
  proof (cases "src = []")
    case True
    then show ?thesis using 1(2) by (intro exI [of _ s]) (auto simp: copyout.simps [of d va])
  next
    case False
    define n where "n = min (PGSIZE - unat (va - PGROUNDDOWN va)) (length src)"
    have off: "unat (va - PGROUNDDOWN va) = unat va mod PGSIZE" by (rule unat_page_off)
    have n: "0 < n" "n \<le> length src" "unat va mod PGSIZE + length (take n src) \<le> PGSIZE"
      using False mod_less_divisor [of PGSIZE "unat va"] unfolding n_def off by auto
    have uv: "user_ok s d va" using 1(4) [of va] False by simp
    then have m: "umapped s d va" by (simp add: user_ok_def)
    have pv: "page (PGROUNDDOWN va) = page va" by (rule page_PGROUNDDOWN)
    have k: "uva2ka d (PGROUNDDOWN va) s = Ok (uframe s d va) s"
      using uva2ka_ok [OF um_invD(3) [OF 1(2)], of "PGROUNDDOWN va"] uv umapped_page [OF pv, of s d] pte_page [OF pv, of s d] uframe_page [OF pv, of s d] by (simp add: user_ok_def)
    define u where "u = s\<lparr>memory := store_bytes (uframe s d va + (va - PGROUNDDOWN va)) (take n src) (memory s)\<rparr>"
    note U = store_frame_spec [OF 1(2) m n(3), folded u_def]
    have f0: "uframe s d va \<noteq> 0" using kpage_nonzero(1) [OF um_invD(6) [OF 1(2) m]] .
    have step: "copyout d va src s = copyout d (PGROUNDDOWN va + 4096) (drop n src) u"
      using False f0 k by (simp add: copyout.simps [of d va] Let_def n_def u_def)
    have nx: "unat (PGROUNDDOWN va + 4096) = unat va + n" if "n < length src"
    proof -
      have nn: "n = PGSIZE - unat va mod PGSIZE" using that unfolding n_def off by simp
      have b: "unat (PGROUNDDOWN va) = page va * PGSIZE" by (simp add: unat_PGROUNDDOWN page_def)
      have c: "unat (4096 :: u32) = 4096" by simp
      have lt: "unat va mod PGSIZE < PGSIZE" by simp
      have "page va * PGSIZE + 4096 \<le> 0x80000000" using unat_page [of va] nn that 1(3) lt by linarith
      then have "unat (PGROUNDDOWN va) + unat (4096 :: u32) < 2 ^ 32" unfolding b c by simp
      then have "unat (PGROUNDDOWN va + 4096) = page va * PGSIZE + 4096" using unat_add_no_overflow [of "PGROUNDDOWN va" 4096] b c by (simp only:)
      then show ?thesis using unat_page [of va] nn lt by linarith
    qed
    have tf: "touches (uframes s d) s u" by (rule touches_mono [OF U(3)]) (use m in \<open>simp add: uframes_def\<close>)
    show ?thesis
    proof (cases "n < length src")
      case F: False
      then have "drop n src = []" "take n src = src" using n(2) by simp_all
      then show ?thesis using U tf step by (intro exI [of _ u]) (simp add: copyout.simps [of d _ "[]"])
    next
      case True
      note IH = 1(1) [OF False refl k f0 refl, folded n_def u_def]
      have uo: "user_ok u d x = user_ok s d x" "umapped u d x = umapped s d x" "uframe u d x = uframe s d x" for x
        using U(2) by (simp_all add: user_ok_def umapped_def uframe_def)
      then have fu: "uframes u d = uframes s d" by (simp add: uframes_def)
      have len: "unat va + n + length (drop n src) = unat va + length src" using n(2) by simp
      obtain t where T: "copyout d (PGROUNDDOWN va + 4096) (drop n src) u = Ok 0 t" "um_inv t d fs" "\<forall>x. pte t d x = pte u d x" "touches (uframes u d) u t"
        "\<forall>x. umapped u d x \<longrightarrow> ubyte t d x = (if unat va + n \<le> unat x \<and> unat x < unat va + length src then drop n src ! (unat x - (unat va + n)) else ubyte u d x)"
        using IH [OF U(1)] 1(3,4) uo(1) unfolding nx [OF True] len by auto
      have "ubyte t d x = (if unat va \<le> unat x \<and> unat x < unat va + length src then src ! (unat x - unat va) else ubyte s d x)" if "umapped s d x" for x
        using T(5) U(4) [OF that] uo(2) that n(2) by auto
      then show ?thesis using T(1-4) U(2) touches_trans [OF tf T(4) [unfolded fu]] step by (intro exI [of _ t]) simp
    qed
  qed
qed

end
