(* ===== verification/Memory_Properties.thy ===== *)
theory Memory_Properties
  imports Vm_Copy Kernel_Example
begin

text \<open>
  What the page allocator and the page tables promise: boot frees every page once, allocation and
  freeing are inverse, mappings change exactly the entries asked for, and address spaces are
  copied, written and given back without touching any other.
\<close>

section \<open>The page allocator\<close>

lemma unat_PGROUNDUP: "unat a + 4095 < 2 ^ 32 \<Longrightarrow> unat (PGROUNDUP a) = (unat a + 4095) div PGSIZE * PGSIZE"
proof -
  assume h: "unat a + 4095 < 2 ^ 32"
  have c: "unat (4095 :: u32) = 4095" by simp
  have "PGROUNDUP a = PGROUNDDOWN (a + 4095)" by (simp add: PGROUNDUP_def PGROUNDDOWN_def algebra_simps)
  moreover have "unat (a + 4095) = unat a + 4095" using unat_add_no_overflow [of a 4095] h c by (simp only:)
  ultimately show ?thesis by (simp add: unat_PGROUNDDOWN)
qed

lemma pages_from:
  assumes "aligned p" "unat p + n * PGSIZE \<le> 2 ^ 32"
  shows "set (map (\<lambda>k. p + of_nat k * 4096) [0..<n]) = {q. aligned q \<and> page p \<le> page q \<and> page q < page p + n}"
proof -
  have e: "unat (p + of_nat k * 4096) = (page p + k) * PGSIZE" if "k < n" for k
  proof -
    have "unat (of_nat (k * 4096) :: u32) = k * 4096" using that assms(2) by (intro unat_of_nat32) simp
    moreover have "unat p + k * 4096 < 2 ^ 32" using that assms(2) by simp
    ultimately show ?thesis using unat_add_no_overflow [of p "of_nat (k * 4096)"] page_unat [OF assms(1)] by (simp add: algebra_simps)
  qed
  have "q \<in> set (map (\<lambda>k. p + of_nat k * 4096) [0..<n])" if "aligned q" "page p \<le> page q" "page q < page p + n" for q
  proof -
    let ?k = "page q - page p"
    have "?k < n" "page p + ?k = page q" using that by simp_all
    then have "unat (p + of_nat ?k * 4096) = unat q" using e [of ?k] page_unat [OF that(1)] by simp
    then have "q = p + of_nat ?k * 4096" by (simp add: word_unat_eq_iff)
    then show ?thesis using \<open>?k < n\<close> by auto
  qed
  moreover have "aligned (p + of_nat k * 4096) \<and> page (p + of_nat k * 4096) = page p + k" if "k < n" for k
    using e [OF that] by (simp add: aligned_def page_def)
  ultimately show ?thesis by auto
qed

lemma kpage_pages: "kpage s q \<longleftrightarrow> aligned q \<and> kend s \<le> q \<and> 0x80000 \<le> page q \<and> page q < 0x8E000"
proof (cases "aligned q")
  case True
  have u: "unat q = page q * PGSIZE" by (rule page_unat [OF True])
  have "V2P q < PHYSTOP \<longleftrightarrow> 0x80000 \<le> page q \<and> page q < 0x8E000"
  proof (cases "KERNBASE \<le> q")
    case T: True
    then have "unat (V2P q) = unat q - 0x80000000" "0x80000000 \<le> unat q" by (simp_all add: V2P_def unat_sub word_le_nat_alt)
    then show ?thesis unfolding word_less_nat_alt u by auto
  next
    case False
    then have "unat (V2P q) = 0x80000000 + unat q" "unat q < 0x80000000"
      using unat_lt32 [of q] by (simp_all add: V2P_def unat_sub_if_size word_size word_le_nat_alt)
    then show ?thesis unfolding word_less_nat_alt u by auto
  qed
  then show ?thesis by (auto simp: kpage_def)
qed (simp add: kpage_def)

lemma freerange_frame: "freerange_loop p vend s = Ok () t \<Longrightarrow>
  t = s\<lparr>memory := memory t, freelist := freelist t\<rparr> \<and> (\<forall>x. unat x < unat p \<longrightarrow> memory t x = memory s x)"
proof (induction p vend s rule: freerange_loop.induct)
  case (1 p vend s)
  show ?case
  proof (cases "p + 4096 \<le> vend")
    case True
    then obtain s1 where f: "kfree p s = Ok () s1" "freerange_loop (p + 4096) vend s1 = Ok () t"
      using "1.prems" by (subst (asm) freerange_loop.simps) (auto elim: onE)
    have u: "unat (p + 4096) = unat p + 4096" using kfree_range [OF f(1)] by (simp add: unat_plus_if_size word_size)
    have s1: "s1 = s\<lparr>memory := write32 p (freelist s) (memset p 1 PGSIZE (memory s)), freelist := p\<rparr>"
      using f(1) by (auto simp: kfree_def Let_def split: if_splits)
    have out: "\<not> within p PGSIZE x" if "unat x < unat p" for x
      using that unat_lt32 [of x] kfree_range [OF f(1)] by (simp add: within_def unat_sub_if_size word_size)
    have m: "memory s1 x = memory s x" if "unat x < unat p" for x
    proof -
      have "\<not> within p 4 x" using out [OF that] within_mono [of p 4 x PGSIZE] by auto
      then show ?thesis using out [OF that] by (simp add: s1 write32_frame memset_frame)
    qed
    have I: "t = s1\<lparr>memory := memory t, freelist := freelist t\<rparr>" "\<forall>x. unat x < unat p \<longrightarrow> memory t x = memory s1 x"
      using "1.IH" [OF True f] u by auto
    have "t = s\<lparr>memory := memory t, freelist := freelist t\<rparr>" by (subst I(1)) (simp add: s1)
    then show ?thesis using I(2) m by auto
  next
    case False
    then show ?thesis using "1.prems" by (subst (asm) freerange_loop.simps) simp
  qed
qed

lemma freerange_all:
  fixes s :: "'a mst_scheme"
  assumes inv: "kmem_inv s ps" and k: "KERNBASE \<le> kend s" and a: "kend s \<le> vstart" "unat vstart + 4095 < 2 ^ 32"
    and e: "aligned vend" "page vend \<le> 0x8E000" "vstart \<le> vend"
    and new: "\<And>q. kpage s q \<Longrightarrow> vstart \<le> q \<Longrightarrow> q < vend \<Longrightarrow> q \<notin> set ps"
  shows "\<exists>t qs. freerange vstart vend s = Ok () t \<and> kmem_inv t qs \<and> set qs = set ps \<union> {q. kpage s q \<and> vstart \<le> q \<and> q < vend} \<and>
    t = s\<lparr>memory := memory t, freelist := freelist t\<rparr> \<and> (\<forall>x. unat x < unat (PGROUNDUP vstart) \<longrightarrow> memory t x = memory s x)"
proof -
  let ?p = "PGROUNDUP vstart"
  have up: "unat ?p = (unat vstart + 4095) div PGSIZE * PGSIZE" by (rule unat_PGROUNDUP [OF a(2)])
  then have p: "aligned ?p" "page ?p = (unat vstart + 4095) div PGSIZE" by (simp_all add: aligned_def page_def)
  have ue: "unat vend = page vend * PGSIZE" by (rule page_unat [OF e(1)])
  have "unat vstart \<le> unat vend" using e(3) by (simp add: word_le_nat_alt)
  then have le: "page ?p \<le> page vend" unfolding p(2) using ue by simp
  define n where "n = page vend - page ?p"
  have n: "unat ?p + n * PGSIZE = unat vend" using le unfolding ue page_unat [OF p(1)] n_def by (simp add: algebra_simps diff_mult_distrib)
  have ge: "aligned q \<Longrightarrow> vstart \<le> q \<longleftrightarrow> page ?p \<le> page q" "aligned q \<Longrightarrow> q < vend \<longleftrightarrow> page q < page vend" for q
    unfolding word_le_nat_alt word_less_nat_alt p(2) ue by (auto simp: page_unat)
  have S: "set (map (\<lambda>k. ?p + of_nat k * 4096) [0..<n]) = {q. aligned q \<and> page ?p \<le> page q \<and> page q < page ?p + n}"
    by (rule pages_from [OF p(1)]) (use n unat_lt32 [of vend] in simp)
  also have "\<dots> = {q. kpage s q \<and> vstart \<le> q \<and> q < vend}"
  proof -
    have "page ?p + n = page vend" using le by (simp add: n_def)
    moreover have "kpage s q" if "aligned q" "vstart \<le> q" "q < vend" for q
    proof -
      have "kend s \<le> q" "KERNBASE \<le> q" using that a(1) k by auto
      moreover have "page q < 0x8E000" using ge(2) [OF that(1)] that(3) e(2) by simp
      moreover have "0x80000 \<le> page q" using \<open>KERNBASE \<le> q\<close> below_kernbase [of q] by (metis not_less)
      ultimately show ?thesis using that(1) by (simp add: kpage_pages)
    qed
    ultimately show ?thesis using ge by (auto simp: kpage_def)
  qed
  finally have set: "set (map (\<lambda>k. ?p + of_nat k * 4096) [0..<n]) = {q. kpage s q \<and> vstart \<le> q \<and> q < vend}" .
  have "unat vend < 2 ^ 32 - PGSIZE" using ue e(2) by simp
  moreover have "kpage s (?p + of_nat k * 4096) \<and> ?p + of_nat k * 4096 \<notin> set ps" if "k < n" for k
    using set new that by fastforce
  ultimately obtain t where t: "freerange_loop ?p vend s = Ok () t" "kmem_inv t (rev (map (\<lambda>k. ?p + of_nat k * 4096) [0..<n]) @ ps)"
    using freerange_loop_spec [OF inv p(1), of n vend] n by auto
  then show ?thesis using set freerange_frame [OF t(1)] by (intro exI [of _ t] exI [of _ "rev (map (\<lambda>k. ?p + of_nat k * 4096) [0..<n]) @ ps"]) (auto simp: freerange_def)
qed

lemma aligned_ends: "aligned 0x80400000" "page 0x80400000 = 0x80400" "aligned 0x8E000000" "page 0x8E000000 = 0x8E000"
  by (simp_all add: aligned_def page_def)

text \<open>C27. Boot. From an empty list, the two ranges that \<^verbatim>\<open>main\<close> passes to \<^verbatim>\<open>kinit1\<close> and \<^verbatim>\<open>kinit2\<close>, everything from
  the end of the kernel to the first 4 megabytes and from there to \<^verbatim>\<open>PHYSTOP\<close>, are freed without a
  panic, and afterwards the free list holds every page that the allocator may own, each once.\<close>

theorem kinit_correct:
  fixes s :: "'a mst_scheme"
  assumes "freelist s = 0" "KERNBASE \<le> kend s" "kend s \<le> 0x80400000"
  shows "\<exists>t ps. on (kinit1 (kend s) 0x80400000 s) (\<lambda>_. kinit2 0x80400000 0x8E000000) = Ok () t \<and>
    kmem_inv t ps \<and> set ps = {p. kpage s p} \<and> use_lock t"
proof -
  let ?s = "s\<lparr>use_lock := False\<rparr>"
  have ub: "unat (kend s) + 4095 < 2 ^ 32" using assms(3) by (simp add: word_le_nat_alt)
  have k: "kpage ?s = kpage s" by (simp add: kpage_def fun_eq_iff)
  have "kmem_inv ?s []" using assms(1) by (simp add: kmem_inv_def)
  from freerange_all [OF this, where vstart = "kend s" and vend = "0x80400000"] obtain t ps where t: "freerange (kend s) 0x80400000 ?s = Ok () t" "kmem_inv t ps"
      "set ps = {q. kpage s q \<and> q < 0x80400000}" "t = ?s\<lparr>memory := memory t, freelist := freelist t\<rparr>"
    using assms ub unfolding k by (auto simp: aligned_ends kpage_def)
  have e: "kend t = kend s" by (subst t(4)) simp
  have kt: "kpage t = kpage s" by (simp add: kpage_def e fun_eq_iff)
  have new: "q \<notin> set ps" if "0x80400000 \<le> q" for q using that t(3) by (simp add: leD)
  have "KERNBASE \<le> kend t" "kend t \<le> 0x80400000" "unat (0x80400000 :: u32) + 4095 < 2 ^ 32" "page 0x8E000000 \<le> 0x8E000"
      "(0x80400000 :: u32) \<le> 0x8E000000" using assms(2,3) by (simp_all add: e aligned_ends)
  from freerange_all [OF t(2) this(1-3) aligned_ends(3) this(4,5) new] obtain u qs where u: "freerange 0x80400000 0x8E000000 t = Ok () u" "kmem_inv u qs"
      "set qs = set ps \<union> {q. kpage s q \<and> 0x80400000 \<le> q \<and> q < 0x8E000000}"
    unfolding kt by blast
  have "q < 0x8E000000" if "kpage s q" for q using kpage_nonzero(3) [OF that] by (simp add: word_less_nat_alt)
  then have "set qs = {p. kpage s p}" using u(3) t(3) by auto
  moreover have "kmem_inv (u\<lparr>use_lock := True\<rparr>) qs" using u(2) by (simp add: kmem_inv_def kpage_def)
  ultimately show ?thesis using t(1) u(1) by (auto simp: kinit1_def kinit2_def)
qed

theorem kinit_correct_witness:
  "\<exists>t ps. on (kinit1 0x80115000 0x80400000 ex_k) (\<lambda>_. kinit2 0x80400000 0x8E000000) = Ok () t \<and>
    kmem_inv t ps \<and> set ps = {p. kpage ex_k p} \<and> use_lock t"
  using kinit_correct [of ex_k] by (simp add: ex_k_def)

text \<open>C28. The allocator. \<^verbatim>\<open>kalloc\<close> fails only when no page is free; otherwise it hands out a page of the list, once,
  and giving it back restores the list. \<^verbatim>\<open>kfree\<close> of any page in use puts it where the next \<^verbatim>\<open>kalloc\<close> finds it and
  writes to no other page; an address that is not a page of the allocator's is a panic.\<close>

theorem kalloc_correct:
  fixes s :: "'a mst_scheme"
  assumes "kmem_inv s ps"
  shows "(fst (kalloc s) = 0 \<longleftrightarrow> ps = []) \<and>
    (\<forall>p s1. kalloc s = (p, s1) \<and> p \<noteq> 0 \<longrightarrow> kpage s p \<and> p \<in> set ps \<and> p \<notin> set (tl ps) \<and> kmem_inv s1 (tl ps) \<and>
      (\<exists>s2. kfree p s1 = Ok () s2 \<and> kmem_inv s2 ps)) \<and>
    (\<forall>v. kpage s v \<and> v \<notin> set ps \<longrightarrow> (\<exists>s1 s2. kfree v s = Ok () s1 \<and> kalloc s1 = (v, s2) \<and> kmem_inv s2 ps \<and>
      (\<forall>x. \<not> within v PGSIZE x \<longrightarrow> memory s2 x = memory s x))) \<and>
    (\<forall>v. \<not> kpage s v \<longrightarrow> kfree v s = Panic ''kfree'')"
proof (intro conjI allI impI)
  show "fst (kalloc s) = 0 \<longleftrightarrow> ps = []" by (rule kmem.alloc_null_iff [OF assms])
  fix p s1 assume a: "kalloc s = (p, s1) \<and> p \<noteq> 0"
  then obtain qs where ps: "ps = p # qs" "s1 = s\<lparr>freelist := read32 (memory s) p\<rparr>"
    using kalloc_spec(1) [OF assms] by (cases ps) auto
  then show "kpage s p" "p \<in> set ps" "p \<notin> set (tl ps)" "kmem_inv s1 (tl ps)" using kalloc_spec(2) [OF assms ps(1)] by simp_all
  show "\<exists>s2. kfree p s1 = Ok () s2 \<and> kmem_inv s2 ps" using kmem.alloc_free [OF assms] a by blast
next
  fix v assume v: "kpage s v \<and> v \<notin> set ps"
  obtain s1 where s1: "kfree v s = Ok () s1" "kmem_inv s1 (v # ps)" "\<And>x. \<not> within v PGSIZE x \<Longrightarrow> memory s1 x = memory s x"
    by (rule kfree_spec [OF assms, of v]) (use v in auto)
  then show "\<exists>s1 s2. kfree v s = Ok () s1 \<and> kalloc s1 = (v, s2) \<and> kmem_inv s2 ps \<and> (\<forall>x. \<not> within v PGSIZE x \<longrightarrow> memory s2 x = memory s x)"
    using kalloc_spec [OF s1(2)] by auto
qed (rule kfree_panics)


theorem kalloc_correct_witness:
  "kmem_inv ex_k [] \<and> fst (kalloc ex_k) = 0 \<and> kfree 0x80700004 ex_k = Panic ''kfree'' \<and>
    (\<exists>s1 s2. kfree 0x80700000 ex_k = Ok () s1 \<and> kalloc s1 = (0x80700000, s2) \<and> kmem_inv s2 [])"
proof -
  have e: "kmem_inv ex_k []" by (simp add: kmem_inv_def ex_k_def)
  have "kpage ex_k 0x80700000" "\<not> kpage ex_k 0x80700004" by (simp_all add: kpage_def aligned_def V2P_def ex_k_def)
  then show ?thesis using kalloc_correct [OF e] e by auto
qed

section \<open>An address space\<close>

text \<open>The kernel of the example with 1536 free pages, and with the first page of the running process mapped.\<close>

definition ex_free :: kst where
  "ex_free = (case freerange 0x80800000 0x80E00000 ex_k of Ok u t \<Rightarrow> t | _ \<Rightarrow> ex_k)"

definition ex_vm :: kst where
  "ex_vm = store32 (slot 0x80720000 0) 0x721007 (store32 (slot 0x80701000 0) 0x720007 ex_free)"

lemma ex_free_spec:
  obtains ps where "kmem_inv ex_free ps" "set ps = {q. kpage ex_k q \<and> 0x80800000 \<le> q \<and> q < 0x80E00000}" "length ps = 1536"
    "kend ex_free = kend ex_k" "kdata ex_free = kdata ex_k" "\<And>x. unat x < 0x80800000 \<Longrightarrow> memory ex_free x = 0"
proof -
  have al: "aligned 0x80E00000" "page 0x80E00000 = 0x80E00" "aligned 0x80800000" "page 0x80800000 = 0x80800"
    and up: "PGROUNDUP 0x80800000 = 0x80800000" by (simp_all add: aligned_def page_def PGROUNDUP_def)
  have "kmem_inv ex_k []" by (simp add: kmem_inv_def ex_k_def)
  from freerange_all [OF this, where vstart = "0x80800000" and vend = "0x80E00000"] obtain t ps where
    t: "freerange 0x80800000 0x80E00000 ex_k = Ok () t" "kmem_inv t ps" "set ps = {q. kpage ex_k q \<and> 0x80800000 \<le> q \<and> q < 0x80E00000}"
      "t = ex_k\<lparr>memory := memory t, freelist := freelist t\<rparr>" "\<forall>x. unat x < unat (PGROUNDUP 0x80800000) \<longrightarrow> memory t x = memory ex_k x"
    by (auto simp: al ex_k_def)
  have e: "ex_free = t" using t(1) by (simp add: ex_free_def)
  have "set (map (\<lambda>k. 0x80800000 + of_nat k * 4096) [0..<1536]) = {q. aligned q \<and> page 0x80800000 \<le> page q \<and> page q < page 0x80800000 + 1536}"
    by (rule pages_from) (simp_all add: aligned_def)
  moreover have "0x80800000 \<le> q \<longleftrightarrow> 0x80800 \<le> page q" "q < 0x80E00000 \<longleftrightarrow> page q < 0x80E00" "kend ex_k \<le> q \<longleftrightarrow> 0x80115 \<le> page q"
    if "aligned q" for q
    using page_unat [OF that] by (auto simp: word_le_nat_alt word_less_nat_alt ex_k_def)
  ultimately have "set ps = set (map (\<lambda>k. 0x80800000 + of_nat k * 4096) [0..<1536])"
    unfolding t(3) by (auto simp: al kpage_pages)
  moreover have "inj_on (\<lambda>k. 0x80800000 + of_nat k * 4096 :: u32) {0..<1536}"
  proof (rule inj_onI)
    fix j k :: nat assume jk: "j \<in> {0..<1536}" "k \<in> {0..<1536}" "0x80800000 + of_nat j * 4096 = (0x80800000 + of_nat k * 4096 :: u32)"
    then have "(of_nat (j * 4096) :: u32) = of_nat (k * 4096)" by simp
    then have "unat (of_nat (j * 4096) :: u32) = unat (of_nat (k * 4096) :: u32)" by (simp only:)
    moreover have "unat (of_nat (j * 4096) :: u32) = j * 4096" "unat (of_nat (k * 4096) :: u32) = k * 4096"
      by (intro unat_of_nat32, use jk(1,2) in simp)+
    ultimately show "j = k" by simp
  qed
  then have "card (set (map (\<lambda>k. 0x80800000 + of_nat k * 4096 :: u32) [0..<1536])) = 1536"
    by (simp add: card_image del: upt_Suc)
  ultimately have "length ps = 1536" using t(2) distinct_card [of ps] by (simp add: kmem_inv_def)
  moreover have "memory ex_k x = 0" for x by (simp add: ex_k_def)
  moreover have "kend t = kend ex_k" "kdata t = kdata ex_k" by (subst t(4), simp)+
  ultimately show thesis using that [of ps] t(2,3,5) e up by simp
qed

lemma ex_vm_spec:
  obtains ps where "um_inv ex_vm 0x80701000 ps" "length ps = 1536" "data_ok (kdata ex_vm)"
    "\<And>va. pte ex_vm 0x80701000 va = (if page va = 0 then 0x721007 else 0)"
proof -
  obtain ps where F: "kmem_inv ex_free ps" "set ps = {q. kpage ex_k q \<and> 0x80800000 \<le> q \<and> q < 0x80E00000}" "length ps = 1536"
    "kend ex_free = kend ex_k" "kdata ex_free = kdata ex_k" "\<And>x. unat x < 0x80800000 \<Longrightarrow> memory ex_free x = 0" by (rule ex_free_spec) blast
  have al: "aligned 0x80701000" "aligned 0x80720000" "aligned 0x80721000" by (simp_all add: aligned_def)
  have z: "load32 ex_free (slot p i) = 0" if "aligned p" "unat p < 0x80800000" "i < 1024" for p i
  proof -
    have "memory ex_free x = 0" if "within (slot p i) 4 x" for x
    proof -
      have "page x = page p" using slot_in_page [OF \<open>aligned p\<close> \<open>i < 1024\<close> that] within_page [OF \<open>aligned p\<close>] by simp
      moreover have "page p < 0x80800" using page_unat [OF \<open>aligned p\<close>] \<open>unat p < 0x80800000\<close> by linarith
      ultimately have "unat x div PGSIZE < 0x80800" by (simp add: page_def)
      then have "unat x < 0x80800000" by linarith
      then show ?thesis by (rule F(6))
    qed
    then show ?thesis by (simp add: load32_def read32_def word_offs le32_def)
  qed
  have kp: "kpage ex_vm 0x80701000" "kpage ex_vm 0x80720000" "kpage ex_vm 0x80721000"
    by (simp_all add: kpage_def al ex_vm_def F(4)) (simp_all add: ex_k_def V2P_def)
  have pd: "pde ex_vm 0x80701000 i = (if i = 0 then 0x720007 else 0)" if "i < 1024" for i
    using that by (simp add: pde_def ex_vm_def load_store_slot al z)
  have pr: "present (pde ex_vm 0x80701000 i) \<longleftrightarrow> i = 0" if "i < 1024" for i using that by (simp add: pd present_def)
  have tb: "ptab ex_vm 0x80701000 0 = 0x80720000" by (simp add: ptab_def pd PTE_ADDR_def P2V_def)
  have pp: "pt_pages ex_vm 0x80701000 = {0x80701000, 0x80720000}"
    using tb pr by (auto simp: pt_pages_def)
  have wf: "pt_wf ex_vm 0x80701000" using tb kp pr by (auto simp: pt_wf_def)
  have t0: "load32 ex_vm (slot 0x80720000 i) = (if i = 0 then 0x721007 else 0)" if "i < 1024" for i
    using that by (simp add: ex_vm_def load_store_slot al z)
  have pt: "pte ex_vm 0x80701000 va = (if page va = 0 then 0x721007 else 0)" for va
  proof -
    have "dir_ix 0 = 0 \<and> tab_ix 0 = 0" "page 0 = 0" by (simp_all add: dir_ix_def tab_ix_def unat_PDX unat_PTX page_def)
    then have "dir_ix va = 0 \<and> tab_ix va = 0 \<longleftrightarrow> page va = 0" using ix_page [of va 0] by simp
    then show ?thesis using tb pr [of "dir_ix va"] t0 [of "tab_ix va"] by (auto simp: pte_def)
  qed
  have fr: "p \<notin> set ps" if "p < 0x80800000" for p using that unfolding F(2) by (simp add: leD not_le)
  have tt: "touches {0x80701000, 0x80720000} ex_free ex_vm"
    unfolding ex_vm_def by (rule touches_trans; rule touches_mono [OF touches_store]) (auto simp: al)
  have "kmem_inv ex_vm ps" by (rule kmem_frame [OF F(1) tt]) (auto simp: al fr ex_vm_def)
  then have vm: "vm_inv ex_vm 0x80701000 ps" using wf pp fr by (simp add: vm_inv_def)
  have u: "umapped ex_vm 0x80701000 va \<longleftrightarrow> page va = 0" for va using below_kernbase [of va] by (auto simp: umapped_def pt present_def)
  have uf: "uframe ex_vm 0x80701000 va = 0x80721000" if "page va = 0" for va using that by (simp add: uframe_def pt PTE_ADDR_def P2V_def)
  have "um_inv ex_vm 0x80701000 ps"
  proof (rule um_invI [OF vm])
    show "KERNBASE < kend ex_vm" by (simp add: ex_vm_def F(4)) (simp add: ex_k_def)
  qed (auto simp: u uf kp pp fr)
  moreover have "data_ok (kdata ex_vm)" by (simp add: ex_vm_def F(5) store32_def) (simp add: ex_k_def data_ok_def aligned_def page_def)
  ultimately show thesis using that F(3) pt by blast
qed

text \<open>C25. Mapping. On a directory without entries in the range, \<^verbatim>\<open>mappages\<close> with one row of the table of mappings
  either installs exactly the entries the row asks for, each present and with the row's flags, or returns -1 and has
  used up every free page. In both cases every other entry of the directory is what it was, the tables
  have grown by pages off the head of the free list only, and no other page of memory has changed.\<close>

theorem mappages_correct:
  fixes s :: "'a mst_scheme"
  assumes "vm_inv s d fs" "kfirst (virt, ps, pe, perm) \<le> klast (virt, ps, pe, perm)"
    and "\<forall>va. in_row (virt, ps, pe, perm) va \<longrightarrow> \<not> present (pte s d va)"
  shows "\<exists>r t new fs'. mappages d virt (pe - ps) ps perm s = Ok r t \<and> vm_inv t d fs' \<and> fs = new @ fs' \<and>
    pt_pages t d = pt_pages s d \<union> set new \<and> touches (pt_pages t d) s t \<and> (r = 0 \<or> r = -1 \<and> fs' = []) \<and>
    (\<forall>va. \<not> in_row (virt, ps, pe, perm) va \<longrightarrow> pte t d va = pte s d va) \<and>
    (r = 0 \<longrightarrow> (\<forall>va. in_row (virt, ps, pe, perm) va \<longrightarrow> pte t d va = kentry (virt, ps, pe, perm) va))"
  by (rule mappages_row [OF assms(1,2) _ refl]) (use assms(3) in blast)

lemma ex_row: "kfirst (0x1000, 0x722000, 0x724000, 6) = 1" "klast (0x1000, 0x722000, 0x724000, 6) = 2"
  "in_row (0x1000, 0x722000, 0x724000, 6) va \<longleftrightarrow> 1 \<le> page va \<and> page va \<le> 2"
  by (simp_all add: kfirst_def klast_def in_row_def page_def)

theorem mappages_correct_witness:
  "\<exists>t. mappages 0x80701000 0x1000 (0x724000 - 0x722000) 0x722000 6 ex_vm = Ok 0 t \<and>
    pte t 0x80701000 0x2345 = 0x723007 \<and> pte t 0x80701000 0 = 0x721007"
proof -
  obtain ps where E: "um_inv ex_vm 0x80701000 ps" "length ps = 1536" "\<And>va. pte ex_vm 0x80701000 va = (if page va = 0 then 0x721007 else 0)"
    by (rule ex_vm_spec) blast
  let ?k = "(0x1000, 0x722000, 0x724000, 6)"
  have "\<forall>va. in_row ?k va \<longrightarrow> \<not> present (pte ex_vm 0x80701000 va)" by (simp add: ex_row E(3) present_def)
  from mappages_correct [OF um_invD(1) [OF E(1)] _ this] obtain r t new fs' where
    t: "mappages 0x80701000 0x1000 (0x724000 - 0x722000) 0x722000 6 ex_vm = Ok r t" "ps = new @ fs'" "r = 0 \<or> r = -1 \<and> fs' = []"
      "pt_pages t 0x80701000 = pt_pages ex_vm 0x80701000 \<union> set new" "vm_inv t 0x80701000 fs'"
      "\<forall>va. \<not> in_row ?k va \<longrightarrow> pte t 0x80701000 va = pte ex_vm 0x80701000 va"
      "r = 0 \<longrightarrow> (\<forall>va. in_row ?k va \<longrightarrow> pte t 0x80701000 va = kentry ?k va)" unfolding ex_row by auto
  have "card (set new) \<le> 1025" using t(4) card_pt_pages [of t "0x80701000"] card_mono [of "pt_pages t 0x80701000" "set new"] by auto
  moreover have "distinct ps" using um_invD(2) [OF E(1)] by (simp add: kmem_inv_def)
  ultimately have "fs' \<noteq> []" using E(2) t(2) distinct_card [of new] by auto
  then have "r = 0" using t(3) by blast
  have p: "page 0x2345 = 2" "page 0 = 0" "page 0x1000 = 1" by (simp_all add: page_def)
  have "pte t 0x80701000 0x2345 = kentry ?k 0x2345" using t(7) \<open>r = 0\<close> by (simp add: ex_row p)
  also have "\<dots> = 0x723007" by (simp add: kentry_def p)
  finally show ?thesis using t(1,6) \<open>r = 0\<close> E(3) [of 0] by (simp add: ex_row p)
qed

text \<open>C24. A fresh kernel mapping. \<^verbatim>\<open>setupkvm\<close> never panics. If it returns a directory, it has built the tables from free pages
  only, every page of every row of \<^verbatim>\<open>kmap\<close> is mapped to where the row says with the row's permission, and no other page of the
  address space is mapped, in particular nothing below \<^verbatim>\<open>KERNBASE\<close>. If it returns 0, memory was short and every page it had taken is free again.\<close>

theorem setupkvm_correct:
  fixes s :: "'a vst_scheme"
  assumes "kmem_inv s fs" "KERNBASE < kend s" "data_ok (kdata s)"
  shows "\<exists>d t fs'. setupkvm s = Ok d t \<and> touches (set fs) s t \<and>
    (d = 0 \<longrightarrow> kmem_inv t fs' \<and> set fs' = set fs \<and> length fs \<le> 1025) \<and>
    (d \<noteq> 0 \<longrightarrow> um_inv t d fs' \<and> set fs' \<union> pt_pages t d = set fs \<and> (\<forall>va < KERNBASE. pte t d va = 0) \<and>
      (\<forall>k \<in> set (kmap (kdata s)). \<forall>va. in_row k va \<longrightarrow> pte t d va = kentry k va) \<and>
      (\<forall>va. (\<forall>k \<in> set (kmap (kdata s)). \<not> in_row k va) \<longrightarrow> pte t d va = 0))"
proof -
  obtain d t fs' where d: "setupkvm s = Ok d t" "touches (set fs) s t" "d = 0 \<longrightarrow> kmem_inv t fs' \<and> set fs' = set fs \<and> length fs \<le> 1025"
    "d \<noteq> 0 \<longrightarrow> um_inv t d fs' \<and> (\<exists>new. fs = new @ fs' \<and> pt_pages t d = set new) \<and> (\<forall>va < KERNBASE. pte t d va = 0) \<and> kmapped t d \<and>
      (\<forall>va. (\<forall>k \<in> set (kmap (kdata s)). \<not> in_row k va) \<longrightarrow> pte t d va = 0)"
    using setupkvm_spec [OF assms] by blast
  have "set fs' \<union> pt_pages t d = set fs \<and> kmapped t d" if "d \<noteq> 0" using d(4) that by (metis set_append sup_commute)
  then show ?thesis using d touches_kdata [OF d(2)] unfolding kmapped_def
    by (intro exI [of _ d] exI [of _ t] exI [of _ fs']) simp
qed

theorem setupkvm_correct_witness:
  "\<exists>d t. setupkvm ex_vm = Ok d t \<and> d \<noteq> 0 \<and> pte t d 0 = 0 \<and> pte t d 0x80000000 = 3 \<and> pte t d 0x8E000000 = 0"
proof -
  obtain ps where E: "um_inv ex_vm 0x80701000 ps" "length ps = 1536" "data_ok (kdata ex_vm)" by (rule ex_vm_spec) blast
  let ?k = "(0x80000000, 0, 0x100000, 2)"
  have k: "?k \<in> set (kmap (kdata ex_vm))" "in_row ?k 0x80000000" "kentry ?k 0x80000000 = 3"
    by (simp_all add: kmap_def in_row_def kfirst_def klast_def kentry_def page_def)
  obtain d t where t: "setupkvm ex_vm = Ok d t" "d = 0 \<longrightarrow> length ps \<le> 1025" "d \<noteq> 0 \<longrightarrow> (\<forall>va < KERNBASE. pte t d va = 0) \<and>
      (\<forall>k \<in> set (kmap (kdata ex_vm)). \<forall>va. in_row k va \<longrightarrow> pte t d va = kentry k va) \<and>
      (\<forall>va. (\<forall>k \<in> set (kmap (kdata ex_vm)). \<not> in_row k va) \<longrightarrow> pte t d va = 0)"
    using setupkvm_correct [OF um_invD(2) [OF E(1)] um_invD(5) [OF E(1)] E(3)] by blast
  have "d \<noteq> 0" using t(2) E(2) by auto
  moreover have "\<forall>k \<in> set (kmap (kdata ex_vm)). \<not> in_row k 0x8E000000" using kmap_gap [OF E(3)] by (simp add: page_def)
  ultimately show ?thesis using t(1,3) k by (intro exI [of _ d] exI [of _ t]) (auto simp: Ball_def)
qed

text \<open>C22. The copy that \<^verbatim>\<open>fork\<close> makes. For a process whose pages below its size are all mapped, \<^verbatim>\<open>copyuvm\<close> never panics. If it
  returns a directory, the child has exactly the pages below the size, every byte and every flag as the parent
  has it, in pages of memory that were free and that no two addresses share. If it returns 0, memory was
  short and every page it had taken is free again. Either way the parent's mapping and its memory are as they
  were.\<close>

theorem copyuvm_correct:
  fixes s :: "'a vst_scheme"
  assumes "um_inv s pgdir fs" "data_ok (kdata s)" "sz \<le> KERNBASE" "\<forall>va. page va < npages sz \<longrightarrow> umapped s pgdir va"
  shows "\<exists>d t fs'. copyuvm pgdir sz s = Ok d t \<and>
    (\<forall>va. pte t pgdir va = pte s pgdir va \<and> (umapped s pgdir va \<longrightarrow> ubyte t pgdir va = ubyte s pgdir va)) \<and>
    (d = 0 \<longrightarrow> kmem_inv t fs' \<and> set fs' = set fs \<and> length fs \<le> npages sz + 1026) \<and>
    (d \<noteq> 0 \<longrightarrow> um_inv t d fs' \<and> set fs' \<union> pt_pages t d \<union> uframes t d = set fs \<and> uframes t d \<inter> uframes s pgdir = {} \<and>
      (\<forall>va. umapped t d va \<longleftrightarrow> page va < npages sz) \<and>
      (\<forall>va. page va < npages sz \<longrightarrow> PTE_FLAGS (pte t d va) = PTE_FLAGS (pte s pgdir va) \<and> ubyte t d va = ubyte s pgdir va))"
proof -
  obtain d t fs' where d: "copyuvm pgdir sz s = Ok d t" "touches (set fs) s t"
    "d = 0 \<longrightarrow> kmem_inv t fs' \<and> set fs' = set fs \<and> length fs \<le> npages sz + 1026"
    "d \<noteq> 0 \<longrightarrow> um_inv t d fs' \<and> set fs' \<union> pt_pages t d \<union> uframes t d = set fs \<and> copied s pgdir t d (npages sz)"
    using copyuvm_spec [OF assms(1-3)] assms(4) by blast
  have "uframes s pgdir \<inter> set fs = {}" using um_invD(8) [OF assms(1)] by (auto simp: uframes_def)
  then show ?thesis using d parent_kept [OF assms(1) d(2)] by (intro exI [of _ d] exI [of _ t] exI [of _ fs']) (auto simp: copied_def)
qed

lemma npages_4096: "npages 4096 = 1"
  by (simp add: npages_def)

theorem copyuvm_correct_witness:
  "\<exists>d t. copyuvm 0x80701000 4096 ex_vm = Ok d t \<and> d \<noteq> 0 \<and> umapped t d 0 \<and> \<not> umapped t d 4096 \<and>
    ubyte t d 17 = ubyte ex_vm 0x80701000 17"
proof -
  obtain ps where E: "um_inv ex_vm 0x80701000 ps" "length ps = 1536" "data_ok (kdata ex_vm)"
    "\<And>va. pte ex_vm 0x80701000 va = (if page va = 0 then 0x721007 else 0)" by (rule ex_vm_spec) blast
  have m: "\<forall>va. page va < npages 4096 \<longrightarrow> umapped ex_vm 0x80701000 va" by (simp add: npages_4096 umapped_def E(4) present_def below_kernbase)
  have le: "(4096 :: u32) \<le> KERNBASE" by simp
  from copyuvm_correct [OF E(1,3) le m] obtain d t where
    t: "copyuvm 0x80701000 4096 ex_vm = Ok d t" "d = 0 \<longrightarrow> length ps \<le> npages 4096 + 1026"
      "d \<noteq> 0 \<longrightarrow> (\<forall>va. umapped t d va \<longleftrightarrow> page va < npages 4096) \<and> (\<forall>va. page va < npages 4096 \<longrightarrow> ubyte t d va = ubyte ex_vm 0x80701000 va)"
    by blast
  have "d \<noteq> 0" using t(2) E(2) by (auto simp: npages_4096)
  moreover have "page 0 = 0" "page 4096 = 1" "page 17 = 0" by (simp_all add: page_def)
  ultimately show ?thesis using t by (intro exI [of _ d] exI [of _ t]) (simp add: npages_4096)
qed

text \<open>C23. Nothing leaks. \<^verbatim>\<open>freevm\<close> never panics on a well-formed address space, and afterwards the free pages are those
  that were free before, the pages of the tables and the page behind every user address, each once; no
  other page of memory has changed.\<close>

theorem freevm_correct:
  assumes "um_inv s d fs"
  shows "\<exists>t fs'. freevm d s = Ok () t \<and> kmem_inv t fs' \<and> set fs' = set fs \<union> pt_pages s d \<union> uframes s d \<and>
    touches (pt_pages s d \<union> uframes s d) s t"
  by (rule freevm_spec [OF assms]) (auto simp: uframes_def)

theorem freevm_correct_witness:
  "\<exists>t fs. freevm 0x80701000 ex_vm = Ok () t \<and> kmem_inv t fs \<and> 0x80721000 \<in> set fs \<and> 0x80701000 \<in> set fs"
proof -
  obtain ps where E: "um_inv ex_vm 0x80701000 ps" "\<And>va. pte ex_vm 0x80701000 va = (if page va = 0 then 0x721007 else 0)"
    by (rule ex_vm_spec) blast
  have "page 0 = 0" by (simp add: page_def)
  then have "umapped ex_vm 0x80701000 0" "uframe ex_vm 0x80701000 0 = 0x80721000"
    by (simp_all add: umapped_def uframe_def E(2) present_def PTE_ADDR_def P2V_def)
  then have "0x80721000 \<in> uframes ex_vm 0x80701000" unfolding uframes_def by force
  then show ?thesis using freevm_correct [OF E(1)] pt_wf_dir(3) [of "0x80701000" ex_vm] by auto
qed

text \<open>C26. Writing to user memory. When every page of the target is mapped for the user, \<^verbatim>\<open>copyout\<close> returns 0 and
  the bytes of the user's memory are the given ones in the target and the old ones elsewhere, across page
  boundaries; no entry and no page outside the process changes.\<close>

theorem copyout_correct:
  assumes "um_inv s d fs" "unat va + length src \<le> 0x80000000"
    and "\<forall>x. unat va \<le> unat x \<and> unat x < unat va + length src \<longrightarrow> user_ok s d x"
  shows "\<exists>t. copyout d va src s = Ok 0 t \<and> um_inv t d fs \<and> (\<forall>x. pte t d x = pte s d x) \<and> touches (uframes s d) s t \<and>
    (\<forall>x. umapped s d x \<longrightarrow> ubyte t d x = (if unat va \<le> unat x \<and> unat x < unat va + length src then src ! (unat x - unat va) else ubyte s d x))"
  by (rule copyout_spec [OF assms(1,2)]) (use assms(3) in blast)

theorem copyout_correct_witness:
  "\<exists>t. copyout 0x80701000 100 [72, 105] ex_vm = Ok 0 t \<and> ubyte t 0x80701000 101 = 105 \<and>
    ubyte t 0x80701000 102 = ubyte ex_vm 0x80701000 102"
proof -
  obtain ps where E: "um_inv ex_vm 0x80701000 ps" "\<And>va. pte ex_vm 0x80701000 va = (if page va = 0 then 0x721007 else 0)"
    by (rule ex_vm_spec) blast
  have u: "user_ok ex_vm 0x80701000 x" if "unat x < 200" for x
  proof -
    have "page x = 0" using that by (simp add: page_def)
    then show ?thesis by (simp add: user_ok_def umapped_def E(2) present_def below_kernbase)
  qed
  then have v: "umapped ex_vm 0x80701000 x" if "unat x < 200" for x using that user_ok_def by blast
  have m: "\<forall>x. unat (100 :: u32) \<le> unat x \<and> unat x < unat (100 :: u32) + length [72, 105 :: byte] \<longrightarrow> user_ok ex_vm 0x80701000 x"
    using u by simp
  have le: "unat (100 :: u32) + length [72, 105 :: byte] \<le> 0x80000000" by simp
  from copyout_correct [OF E(1) le m] obtain t where "copyout 0x80701000 100 [72, 105] ex_vm = Ok 0 t" "\<forall>x. umapped ex_vm 0x80701000 x \<longrightarrow> ubyte t 0x80701000 x =
      (if unat (100 :: u32) \<le> unat x \<and> unat x < unat (100 :: u32) + length [72, 105 :: byte] then [72, 105] ! (unat x - unat (100 :: u32)) else ubyte ex_vm 0x80701000 x)"
    by blast
  then show ?thesis using v [of 101] v [of 102] by simp
qed

end
