(* ===== verification/Trap_Properties.thy ===== *)
theory Trap_Properties
  imports Memory_Properties Process_Properties
begin

text \<open>
  The boundary between user programs and the kernel: which user memory a system call may reach through
  its arguments (\<^verbatim>\<open>system/core/syscall.c\<close>), and what a trap may return to (\<^verbatim>\<open>system/platform/x86/trap.c\<close>).
\<close>

section \<open>Arguments of system calls\<close>

text \<open>The memory of the running process: well-formed tables, and a page for every address below its size.\<close>

definition user_space :: "'a kst_scheme \<Rightarrow> u32 list \<Rightarrow> bool" where
  "user_space s fs \<longleftrightarrow> um_inv s (p_pgdir (myproc s)) fs \<and> p_sz (myproc s) \<le> KERNBASE \<and>
     (\<forall>va. va < p_sz (myproc s) \<longrightarrow> umapped s (p_pgdir (myproc s)) va)"

text \<open>What the running process has in its memory from \<open>a\<close> on.\<close>

definition user_mem :: "'a kst_scheme \<Rightarrow> u32 \<Rightarrow> nat \<Rightarrow> byte list" where
  "user_mem s a n = map (\<lambda>k. ubyte s (p_pgdir (myproc s)) (a + of_nat k)) [0..<n]"

lemma user_mem_Suc: "user_mem s a (Suc n) = ubyte s (p_pgdir (myproc s)) a # user_mem s (a + 1) n"
  by (simp add: user_mem_def upt_conv_Cons map_Suc_upt [symmetric] algebra_simps del: upt_Suc)

lemma and_page_off: "va AND 0xFFF = va - PGROUNDDOWN va"
  by (simp add: word_unat_eq_iff unat_page_off unat_mask_low)

lemma uload8_spec: "user_space s fs \<Longrightarrow> va < p_sz (myproc s) \<Longrightarrow> uload8 va s = Ok (ubyte s (p_pgdir (myproc s)) va) s"
proof -
  assume a: "user_space s fs" "va < p_sz (myproc s)"
  then have m: "pt_wf s (p_pgdir (myproc s))" "present (pte s (p_pgdir (myproc s)) va)"
    using um_invD(3) by (auto simp: user_space_def umapped_def)
  have "e AND PTE_P \<noteq> 0 \<longleftrightarrow> e AND PTE_P = PTE_P" for e :: u32
    using present_bit [of e] by (auto simp: present_def and_one_eq odd_iff_mod_2_eq_one bit_0)
  then show ?thesis using walk_present [OF m] m(2)
    by (simp add: uload8_def uaddr_def Let_def ubyte_def uframe_def and_page_off present_def)
qed

lemma uload_spec: "user_space s fs \<Longrightarrow> unat va + n \<le> unat (p_sz (myproc s)) \<Longrightarrow> uload va n s = Ok (user_mem s va n) s"
proof (induction n arbitrary: va)
  case 0
  then show ?case by (simp add: user_mem_def)
next
  case (Suc n)
  have "va < p_sz (myproc s)" using Suc.prems(2) by (simp add: word_less_nat_alt)
  moreover have "unat (va + 1) + n \<le> unat (p_sz (myproc s))"
    using Suc.prems(2) unat_lt32 [of "p_sz (myproc s)"] by (simp add: unat_plus_if_size word_size)
  ultimately show ?case using Suc by (simp add: uload8_spec user_mem_Suc)
qed

lemma fetchstr_loop_spec:
  "user_space s fs \<Longrightarrow> unat a + n \<le> unat (p_sz (myproc s)) \<Longrightarrow>
    fetchstr_loop a n acc s = Ok (if 0 \<in> set (user_mem s a n) then Some (acc @ takeWhile (\<lambda>b. b \<noteq> 0) (user_mem s a n)) else None) s"
proof (induction n arbitrary: a acc)
  case 0
  then show ?case by (simp add: user_mem_def)
next
  case (Suc n)
  have "a < p_sz (myproc s)" using Suc.prems(2) by (simp add: word_less_nat_alt)
  moreover have "unat (a + 1) + n \<le> unat (p_sz (myproc s))"
    using Suc.prems(2) unat_lt32 [of "p_sz (myproc s)"] by (simp add: unat_plus_if_size word_size)
  ultimately show ?case using Suc by (simp add: uload8_spec user_mem_Suc)
qed

lemma fetchint_spec:
  assumes "user_space s fs"
  shows "fetchint a s = Ok (if unat a + 4 \<le> unat (p_sz (myproc s)) then Some (get32 (user_mem s a 4) 0) else None) s"
proof -
  have sz: "unat (p_sz (myproc s)) \<le> 0x80000000" using assms by (simp add: user_space_def word_le_nat_alt)
  have "unat (a + 4) = unat a + 4" if "a < p_sz (myproc s)"
    using that sz by (simp add: word_less_nat_alt unat_plus_if_size word_size)
  then have "(a \<ge> p_sz (myproc s) \<or> a + 4 > p_sz (myproc s)) \<longleftrightarrow> \<not> unat a + 4 \<le> unat (p_sz (myproc s))"
    by (cases "a < p_sz (myproc s)") (auto simp: word_le_nat_alt word_less_nat_alt not_le)
  then show ?thesis using uload_spec [OF assms, of a 4] by (auto simp: fetchint_def)
qed

text \<open>C29. No system call argument reaches outside the memory of the process. \<^verbatim>\<open>fetchint\<close>, \<^verbatim>\<open>fetchstr\<close>, \<^verbatim>\<open>argptr\<close> never trap
  and never change the state. An integer is delivered exactly if all four of its bytes lie below the size; a string
  exactly if its terminating zero does, and then it is the user's bytes up to the zero; a pointer to \<open>len\<close> bytes exactly if
  \<open>len\<close> is not negative and the bytes from the pointer on all lie below the size, with no wrap-around at the end of
  the address space.\<close>

theorem arguments_in_bounds:
  fixes s :: "'a kst_scheme"
  assumes "user_space s fs" "len < 2 ^ 31"
  shows "fetchint a s = Ok (if unat a + 4 \<le> unat (p_sz (myproc s)) then Some (get32 (user_mem s a 4) 0) else None) s \<and>
    fetchstr a s = Ok (let bs = user_mem s a (unat (p_sz (myproc s)) - unat a) in if 0 \<in> set bs then Some (takeWhile (\<lambda>b. b \<noteq> 0) bs) else None) s \<and>
    (\<exists>r. argptr n len s = Ok r s \<and> (\<forall>p. r = Some p \<longleftrightarrow>
      argint n s = Ok (Some p) s \<and> 0 \<le> len \<and> p < p_sz (myproc s) \<and> unat p + nat len \<le> unat (p_sz (myproc s))))"
proof (intro conjI)
  have sz: "unat (p_sz (myproc s)) \<le> 0x80000000" using assms(1) by (simp add: user_space_def word_le_nat_alt)
  show "fetchint a s = Ok (if unat a + 4 \<le> unat (p_sz (myproc s)) then Some (get32 (user_mem s a 4) 0) else None) s"
    by (rule fetchint_spec [OF assms(1)])
  show "fetchstr a s = Ok (let bs = user_mem s a (unat (p_sz (myproc s)) - unat a) in if 0 \<in> set bs then Some (takeWhile (\<lambda>b. b \<noteq> 0) bs) else None) s"
    by (cases "a \<ge> p_sz (myproc s)")
      (simp_all add: fetchstr_def fetchstr_loop_spec [OF assms(1)] Let_def user_mem_def word_le_nat_alt)
  have ov: "unat (p + of_int len) = unat p + nat len" if "p < p_sz (myproc s)" "0 \<le> len" for p
  proof -
    have "of_int len = (of_nat (nat len) :: u32)" using that(2) by simp
    moreover have "unat (of_nat (nat len) :: u32) = nat len" using assms(2) by (intro unat_of_nat32) simp
    moreover have "unat p < 0x80000000" "nat len < 0x80000000" using that(1) sz assms(2) by (simp_all add: word_less_nat_alt)
    ultimately show ?thesis using unat_add_no_overflow [of p "of_nat (nat len)"] by simp
  qed
  obtain i where i: "argint n s = Ok i s" using fetchint_spec [OF assms(1)] by (simp add: argint_def)
  have g: "(len < 0 \<or> q \<ge> p_sz (myproc s) \<or> q + of_int len > p_sz (myproc s)) \<longleftrightarrow>
      \<not> (0 \<le> len \<and> q < p_sz (myproc s) \<and> unat q + nat len \<le> unat (p_sz (myproc s)))" for q
    using ov [of q] by (cases "q < p_sz (myproc s) \<and> 0 \<le> len") (auto simp: not_less not_le word_less_nat_alt word_le_nat_alt)
  show "\<exists>r. argptr n len s = Ok r s \<and> (\<forall>p. r = Some p \<longleftrightarrow>
      argint n s = Ok (Some p) s \<and> 0 \<le> len \<and> p < p_sz (myproc s) \<and> unat p + nat len \<le> unat (p_sz (myproc s)))"
    unfolding argptr_def i on_simps g by (auto split: option.split)
qed

lemma ex_vm_fields [simp]: "ptable ex_vm = ptable ex_k" "cur ex_vm = 1"
proof -
  have f: "cur t = cur ex_k" "ptable t = ptable ex_k" if "freerange 0x80800000 0x80E00000 ex_k = Ok () t" for t
  proof -
    have e: "t = ex_k\<lparr>memory := memory t, freelist := freelist t\<rparr>" using freerange_frame that unfolding freerange_def by blast
    show "cur t = cur ex_k" by (subst e) simp
    show "ptable t = ptable ex_k" by (subst e) simp
  qed
  have "cur ex_free = cur ex_k \<and> ptable ex_free = ptable ex_k"
  proof (cases "freerange 0x80800000 0x80E00000 ex_k")
    case (Ok u t)
    then show ?thesis using f [of t] by (simp add: ex_free_def)
  qed (simp_all add: ex_free_def)
  then show "ptable ex_vm = ptable ex_k" "cur ex_vm = 1" by (simp_all add: ex_vm_def store32_def)
qed

lemma ex_vm_user: obtains fs where "user_space ex_vm fs" "p_sz (myproc ex_vm) = 4096"
proof -
  obtain ps where E: "um_inv ex_vm 0x80701000 ps" "\<And>va. pte ex_vm 0x80701000 va = (if page va = 0 then 0x721007 else 0)"
    by (rule ex_vm_spec) blast
  have p: "p_pgdir (myproc ex_vm) = 0x80701000" "p_sz (myproc ex_vm) = 4096" by (simp_all add: myproc_def) (simp_all add: ex_k_def)
  have "umapped ex_vm 0x80701000 va" if "va < 4096" for va
  proof -
    have "page va = 0" using that by (simp add: page_def word_less_nat_alt)
    then show ?thesis by (simp add: umapped_def E(2) present_def below_kernbase)
  qed
  then show thesis using that E(1) p by (auto simp: user_space_def)
qed

theorem arguments_in_bounds_witness:
  "fetchint 4093 ex_vm = Ok None ex_vm \<and> (\<exists>w. fetchint 4092 ex_vm = Ok (Some w) ex_vm) \<and> fetchint 0xFFFFFFFE ex_vm = Ok None ex_vm"
proof -
  obtain fs where u: "user_space ex_vm fs" "p_sz (myproc ex_vm) = 4096" by (rule ex_vm_user)
  have "fetchint a ex_vm = Ok (if unat a + 4 \<le> 4096 then Some (get32 (user_mem ex_vm a 4) 0) else None) ex_vm" for a
    using arguments_in_bounds [OF u(1), of 0 a 0] u(2) by simp
  then show ?thesis by simp
qed

section \<open>Traps\<close>

text \<open>Printing on the console changes the screen and the serial line only, and cannot panic while the cursor is on the first 24
  lines, where it stays.\<close>

definition printed :: "'a cst_scheme \<Rightarrow> 'a cst_scheme \<Rightarrow> bool" where
  "printed s t \<longleftrightarrow> t = s\<lparr>crt := crt t, crt_pos := crt_pos t, uart_out := uart_out t\<rparr> \<and> crt_pos t < 1920"

lemma printed_trans: "printed s t \<Longrightarrow> printed t u \<Longrightarrow> printed s u"
proof -
  assume "printed s t" "printed t u"
  then have t: "t = s\<lparr>crt := crt t, crt_pos := crt_pos t, uart_out := uart_out t\<rparr>"
    and u: "u = t\<lparr>crt := crt u, crt_pos := crt_pos u, uart_out := uart_out u\<rparr>" "crt_pos u < 1920" by (simp_all add: printed_def)
  have "u = s\<lparr>crt := crt u, crt_pos := crt_pos u, uart_out := uart_out u\<rparr>" by (subst u(1), subst t) simp
  with u(2) show ?thesis by (simp add: printed_def)
qed

lemma consputc_printed:
  assumes "crt_pos s < 1920"
  shows "\<exists>t. consputc c s = Ok () t \<and> printed s t"
proof -
  have "\<exists>out. (if c = BACKSPACE then uartputc 8 (uartputc 32 (uartputc 8 s)) else uartputc (of_nat c) s) = s\<lparr>uart_out := out\<rparr>"
    by (cases "uart_on s") (auto simp: uartputc_def intro: exI [of _ "uart_out s"])
  then obtain out where out: "(if c = BACKSPACE then uartputc 8 (uartputc 32 (uartputc 8 s)) else uartputc (of_nat c) s) = s\<lparr>uart_out := out\<rparr>" by blast
  obtain p m where pm: "cga_move c (crt_pos s) (crt s) = (p, m)" by force
  have "crt_pos s div 80 \<le> 23" using assms by simp
  moreover have "crt_pos s + (80 - crt_pos s mod 80) = (crt_pos s div 80 + 1) * 80"
  proof -
    have "a < 80 \<Longrightarrow> q * 80 + a = n \<Longrightarrow> n + (80 - a) = (q + 1) * 80" for a q n :: nat by simp
    from this [of "crt_pos s mod 80" "crt_pos s div 80"] show ?thesis by simp
  qed
  ultimately have p: "p \<le> 1920" using pm assms by (auto simp: cga_move_def split: if_splits)
  obtain q n where qn: "cga_wrap p m = (q, n)" by force
  have "q < 1920" using qn p by (auto simp: cga_wrap_def split: if_splits)
  then show ?thesis unfolding consputc_def out using p by (auto simp: cgaputc_def pm qn printed_def)
qed

lemma loop_printed: "crt_pos s < 1920 \<Longrightarrow> \<exists>t. loop (\<lambda>c. consputc (unat c)) cs s = Ok () t \<and> printed s t"
proof (induction cs arbitrary: s)
  case Nil
  then show ?case by (simp add: printed_def)
next
  case (Cons c cs)
  obtain t where t: "consputc (unat c) s = Ok () t" "printed s t" using consputc_printed [OF Cons.prems] by blast
  then have "crt_pos t < 1920" by (simp add: printed_def)
  then show ?case using Cons.IH [of t] t printed_trans [OF t(2)] by auto
qed

lemma on_cprintf: "crt_pos s < 1920 \<Longrightarrow> \<exists>t. on (cprintf str args fmt s) (\<lambda>_ s. Ok b (f s)) = Ok b (f t) \<and> printed s t"
  using loop_printed [of s "cprintf_chars str args 0 fmt"] by (auto simp: cprintf_def)

lemma trap_timer_frame:
  "proc_ok s \<Longrightarrow> proc_ok (trap_timer env s) \<and> myproc (trap_timer env s) = myproc s" "cur (trap_timer env s) = cur s"
  "ticks (trap_timer env s) = (if te_cpu env = 0 then ticks s + 1 else ticks s)"
proof -
  have [simp]: "ticks (wakeup c t) = ticks t" for c and t :: "'a kst_scheme" by (simp add: wakeup_def)
  have e: "proc_ok (s\<lparr>ticks := n\<rparr>) = proc_ok s" "myproc (s\<lparr>ticks := n\<rparr>) = myproc s" for n by (simp_all add: proc_ok_def myproc_def)
  show "proc_ok s \<Longrightarrow> proc_ok (trap_timer env s) \<and> myproc (trap_timer env s) = myproc s"
    using myproc_wakeup [of "s\<lparr>ticks := ticks s + 1\<rparr>"] proc_ok_wakeup [of "s\<lparr>ticks := ticks s + 1\<rparr>"] e by (simp add: trap_timer_def)
  show "cur (trap_timer env s) = cur s" "ticks (trap_timer env s) = (if te_cpu env = 0 then ticks s + 1 else ticks s)"
    by (simp_all add: trap_timer_def)
qed

text \<open>How the handler comes back to the interrupted code: at once, or after it has given up the processor and the process runs again, in
  whatever state the other processes have left the kernel by then.\<close>

inductive trap_returns :: "trap_env \<Rightarrow> trapframe \<Rightarrow> 'a kst_scheme \<Rightarrow> 'a kst_scheme \<Rightarrow> bool" where
  at_once: "trap env tf s = Ok Resume t \<Longrightarrow> trap_returns env tf s t"
| after_yield: "trap env tf s = Ok Yielded s1 \<Longrightarrow> trap_resume env tf u = Ok Resume t \<Longrightarrow> trap_returns env tf s t"

text \<open>C30. What a trap may return to. Whatever the trap, and whatever the process did in the kernel, a process that has been killed never
  returns from the handler to user mode, also when it was killed
  while the handler had given up the processor: it exits when it runs again. A timer interrupt always takes the processor away from a live process, which
  stays runnable, and on processor 0 it advances the clock. A system call with a number that is not in
  the table returns -1 and changes nothing else but the screen and the serial line.\<close>

theorem trap_correct:
  fixes s :: "'a kst_scheme"
  assumes "proc_ok s" "crt_pos s < 1920" "\<not> te_idle env"
  shows "(\<forall>t. trap_returns env tf s t \<and> tf_cs tf AND 3 = 3 \<longrightarrow> \<not> p_killed (myproc t)) \<and>
    (\<forall>u :: 'a kst_scheme. p_killed (myproc u) \<and> tf_cs tf AND 3 = 3 \<longrightarrow> trap_resume env tf u = on (exit u) (\<lambda>_ s. Ok Gone s)) \<and>
    (tf_trapno tf = 32 \<and> \<not> p_killed (myproc s) \<longrightarrow>
      (\<exists>t. trap env tf s = Ok Yielded t \<and> p_state (myproc t) = RUNNABLE \<and> cur t = cur s \<and>
        ticks t = (if te_cpu env = 0 then ticks s + 1 else ticks s))) \<and>
    (sint (tf_eax (p_tf (myproc s))) \<notin> {1..21} \<longrightarrow> (\<exists>t. syscall s = Ok True (set_eax (-1) t) \<and> printed s t))"
proof (intro conjI allI impI)
  fix t assume "trap_returns env tf s t \<and> tf_cs tf AND 3 = 3"
  then show "\<not> p_killed (myproc t)" using assms(3)
    by (auto elim!: trap_returns.cases simp: trap_def trap_syscall_def trap_exit_def trap_resume_def on_eq_Ok split: if_splits)
next
  fix u :: "'a kst_scheme" assume "p_killed (myproc u) \<and> tf_cs tf AND 3 = 3"
  then show "trap_resume env tf u = on (exit u) (\<lambda>_ s. Ok Gone s)" using assms(3) by (simp add: trap_resume_def trap_exit_def)
next
  assume a: "tf_trapno tf = 32 \<and> \<not> p_killed (myproc s)"
  let ?s = "trap_timer env s"
  note T = trap_timer_frame(1) [OF assms(1), of env] trap_timer_frame(2,3) [of env s]
  have "p_state (myproc ?s) = RUNNING" "cur ?s < length (ptable ?s)" using T(1) by (auto simp: proc_ok_def)
  then show "\<exists>t. trap env tf s = Ok Yielded t \<and> p_state (myproc t) = RUNNABLE \<and> cur t = cur s \<and>
        ticks t = (if te_cpu env = 0 then ticks s + 1 else ticks s)"
    using a assms(3) T by (simp add: trap_def trap_switch_def yield_def sched_def) (simp add: myproc_def upd_proc_def)
next
  assume "sint (tf_eax (p_tf (myproc s))) \<notin> {1..21}"
  then have n: "\<not> (sint (tf_eax (p_tf (myproc s))) > 0 \<and> sint (tf_eax (p_tf (myproc s))) < 22)" by auto
  show "\<exists>t. syscall s = Ok True (set_eax (-1) t) \<and> printed s t"
    unfolding syscall_def Let_def if_not_P [OF n] by (rule on_cprintf [OF assms(2)])
qed

definition ex_env :: trap_env where
  "ex_env = \<lparr>te_cpu = 0, te_idle = False, te_cr2 = 0, te_kbd = [], te_uart = []\<rparr>"

theorem trap_correct_witness:
  "\<exists>t. trap ex_env ((p_tf (myproc ex_k))\<lparr>tf_trapno := 32, tf_cs := 0x1B\<rparr>) ex_k = Ok Yielded t \<and> ticks t = 101 \<and> p_state (myproc t) = RUNNABLE"
proof -
  have "crt_pos ex_k < 1920" "\<not> te_idle ex_env" "te_cpu ex_env = 0" "\<not> p_killed (myproc ex_k)"
    by (simp_all add: ex_env_def myproc_def) (simp_all add: ex_k_def ex_proc_def)
  then show ?thesis using trap_correct [OF ex_k_proc_ok, of ex_env "(p_tf (myproc ex_k))\<lparr>tf_trapno := 32, tf_cs := 0x1B\<rparr>"] by auto
qed

end
