(* ===== verification/Ide.thy ===== *)
theory Ide
  imports Bio
begin

text \<open>
  The IDE disk driver (\<^verbatim>\<open>system/storage/ide.c\<close>), which takes the place of the memory disk on real
  hardware. Requests queue up; the first is the one the controller works on, and the interrupt
  that ends it starts the next. The controller is not modelled: what the driver writes to its
  ports is recorded, what it reads (the status and the data of a sector) is an argument.
\<close>

section \<open>State\<close>

datatype port_write = Outb nat u32 | Outsl nat "byte list"

record ist = bst +
  idequeue :: "nat list"
  havedisk1 :: bool
  ports :: "port_write list"

text \<open>Status bits: \<^verbatim>\<open>IDE_BSY\<close> 0x80, \<^verbatim>\<open>IDE_DRDY\<close> 0x40, \<^verbatim>\<open>IDE_DF\<close> 0x20, \<^verbatim>\<open>IDE_ERR\<close> 0x01. The loop of
  \<^verbatim>\<open>idewait\<close> ends with a status that is ready; \<open>r\<close> is that status.\<close>

definition ide_ready :: "byte \<Rightarrow> bool" where
  "ide_ready r \<longleftrightarrow> r AND 0xC0 = 0x40"

definition idewait :: "bool \<Rightarrow> byte \<Rightarrow> int" where
  "idewait checkerr r = (if checkerr \<and> r AND 0x21 \<noteq> 0 then -1 else 0)"

section \<open>Operations\<close>

text \<open>\<open>sts\<close> are the values that the status port gives after disk 1 has been selected.\<close>

definition ideinit :: "byte list \<Rightarrow> 'a ist_scheme \<Rightarrow> 'a ist_scheme" where
  "ideinit sts s =
     s\<lparr>havedisk1 := (havedisk1 s \<or> (\<exists>r \<in> set (take 1000 sts). r \<noteq> 0)),
       ports := ports s @ [Outb 0x1f6 0xf0, Outb 0x1f6 0xe0]\<rparr>"

text \<open>The port writes of \<^verbatim>\<open>idestart\<close>; a block is one sector.\<close>

definition ide_command :: "buf \<Rightarrow> port_write list" where
  "ide_command b =
     (let sector = of_nat (b_blockno b) :: u32 in
      [Outb 0x3f6 0, Outb 0x1f2 1,
       Outb 0x1f3 (sector AND 0xff), Outb 0x1f4 (drop_bit 8 sector AND 0xff), Outb 0x1f5 (drop_bit 16 sector AND 0xff),
       Outb 0x1f6 (0xe0 OR push_bit 4 (of_nat (b_dev b) AND 1) OR (drop_bit 24 sector AND 0x0f))] @
      (if b_dirty b then [Outb 0x1f7 0x30, Outsl 0x1f0 (b_data b)] else [Outb 0x1f7 0x20]))"

definition idestart :: "nat \<Rightarrow> 'a ist_scheme \<Rightarrow> ('a ist_scheme, unit) outcome" where
  "idestart i s =
     (if b_blockno (buf s i) \<ge> FSSIZE then Panic ''incorrect blockno''
      else Ok () (s\<lparr>ports := ports s @ ide_command (buf s i)\<rparr>))"

text \<open>\<open>r\<close> is the status and \<open>data\<close> the sector that the controller delivers.\<close>

definition ideintr :: "byte \<Rightarrow> byte list \<Rightarrow> 'a ist_scheme \<Rightarrow> ('a ist_scheme, unit) outcome" where
  "ideintr r data s =
     (case idequeue s of
        [] \<Rightarrow> Ok () s
      | i # q \<Rightarrow>
          (let s = s\<lparr>idequeue := q\<rparr>;
               s = (if \<not> b_dirty (buf s i) \<and> idewait True r \<ge> 0 then upd_data i (\<lambda>_. data) s else s);
               s = wakeup (ChanBuf i) (upd_buf i (\<lambda>b. b\<lparr>b_valid := True, b_dirty := False\<rparr>) s)
           in case q of [] \<Rightarrow> Ok () s | j # _ \<Rightarrow> idestart j s))"

text \<open>The wait at the end of \<^verbatim>\<open>iderw\<close>, where the process continues when it is woken.\<close>

definition ide_wait :: "nat \<Rightarrow> 'a ist_scheme \<Rightarrow> ('a ist_scheme, unit) outcome" where
  "ide_wait i s = (if b_valid (buf s i) \<and> \<not> b_dirty (buf s i) then Ok () s else sleep (ChanBuf i) s)"

definition ide_rw :: "nat \<Rightarrow> 'a ist_scheme \<Rightarrow> ('a ist_scheme, unit) outcome" where
  "ide_rw i s =
     (let b = buf s i in
      if \<not> holdingsleep (b_lock b) s then Panic ''iderw: buf not locked''
      else if b_valid b \<and> \<not> b_dirty b then Panic ''iderw: nothing to do''
      else if b_dev b \<noteq> 0 \<and> \<not> havedisk1 s then Panic ''iderw: ide disk 1 not present''
      else
        (let s = s\<lparr>idequeue := idequeue s @ [i]\<rparr>
         in on (if hd (idequeue s) = i then idestart i s else Ok () s) (\<lambda>_ s.
            ide_wait i s)))"

section \<open>The sector number\<close>

text \<open>The controller puts the sector number together from four registers: what it gets is the block
  number, for every block number of a disk with 28-bit addresses.\<close>

definition sector_of :: "port_write list \<Rightarrow> u32" where
  "sector_of ws =
     (case ws of
        (_ # _ # Outb _ a # Outb _ b # Outb _ c # Outb _ d # _) \<Rightarrow>
          a OR push_bit 8 b OR push_bit 16 c OR push_bit 24 (d AND 0x0f)
      | _ \<Rightarrow> 0)"

lemma sector_split:
  fixes w :: u32
  assumes "unat w < 2 ^ 28"
  shows "(w AND 0xff) OR push_bit 8 (drop_bit 8 w AND 0xff) OR push_bit 16 (drop_bit 16 w AND 0xff) OR
    push_bit 24 ((0xe0 OR push_bit 4 (x AND 1) OR (drop_bit 24 w AND 0x0f)) AND 0x0f) = w"
proof -
  have m: "(0xff :: u32) = mask 8" "(0x0f :: u32) = mask 4" "(0xe0 :: u32) = push_bit 5 (mask 3)"
    by (simp_all add: mask_eq_exp_minus_1 push_bit_eq_mult)
  have hi: "\<not> bit w n" if "28 \<le> n" for n
  proof
    assume "bit w n"
    then have "bit (unat w) n" by (simp add: bit_unsigned_iff)
    then have "2 ^ n \<le> unat w" by (metis bit_iff_odd div_less even_zero not_less)
    then show False using assms that power_increasing [of 28 n "2 :: nat"] by simp
  qed
  show ?thesis unfolding m
  proof (rule bit_word_eqI)
    fix n assume "n < LENGTH(32)"
    then consider "n < 8" | "8 \<le> n" "n < 16" | "16 \<le> n" "n < 24" | "24 \<le> n" "n < 28" | "28 \<le> n" "n < 32" by fastforce
    then show "bit ((w AND mask 8) OR push_bit 8 (drop_bit 8 w AND mask 8) OR push_bit 16 (drop_bit 16 w AND mask 8) OR
      push_bit 24 ((push_bit 5 (mask 3) OR push_bit 4 (x AND 1) OR (drop_bit 24 w AND mask 4)) AND mask 4)) n = bit w n"
      using hi [of n] by cases (auto simp add: bit_or_iff bit_and_iff bit_push_bit_iff bit_drop_bit_eq bit_mask_iff)
  qed
qed

lemma sector_of_command: "b_blockno b < 2 ^ 28 \<Longrightarrow> sector_of (ide_command b) = of_nat (b_blockno b)"
  using sector_split [of "of_nat (b_blockno b)" "of_nat (b_dev b)"] unat_of_nat32 [of "b_blockno b"]
  by (simp add: ide_command_def sector_of_def Let_def)

end
