(* ===== verification/User_Env.thy ===== *)
theory User_Env
  imports Printing
begin

text \<open>
  What a user program sees of the kernel: its open files and the system calls on them
  (\<^verbatim>\<open>user/lib/usys.S\<close>). A descriptor is a stream (the console or a pipe) or a file with an offset. A
  stream delivers what \<^verbatim>\<open>read\<close> will return: pieces of input, \<open>None\<close> for a failure, and the end
  of file for ever after the last piece. What goes to streams is kept in \<open>uout\<close>.
\<close>

section \<open>The state of a program\<close>

datatype ufile =
    Stream "byte list option list"
  | Reg "byte list" nat

record ust =
  ufd :: "ufile option list"
  ufiles :: "byte list \<rightharpoonup> byte list"
  uout :: "(int \<times> byte) list"

text \<open>What has been written to the stream \<open>fd\<close>.\<close>

definition written :: "int \<Rightarrow> ust \<Rightarrow> byte list" where
  "written fd s = map snd (filter (\<lambda>(f, b). f = fd) (uout s))"

definition str :: "string \<Rightarrow> byte list" where
  "str = map of_char"

text \<open>The string that a character array holds.\<close>

definition cstring :: "byte list \<Rightarrow> byte list" where
  "cstring = takeWhile (\<lambda>b. b \<noteq> 0)"

text \<open>\<^verbatim>\<open>s[i]\<close> for a string; the character after the last is the terminating zero.\<close>

definition at :: "byte list \<Rightarrow> nat \<Rightarrow> byte" where
  "at s i = (if i < length s then s ! i else 0)"

lemma at_simps [simp]: "at [] i = 0" "at (c # s) 0 = c" "at (c # s) (Suc i) = at s i"
  by (simp_all add: at_def)

section \<open>System calls\<close>

definition ufile_of :: "int \<Rightarrow> ust \<Rightarrow> ufile option" where
  "ufile_of fd s = (if 0 \<le> fd \<and> nat fd < length (ufd s) then ufd s ! nat fd else None)"

definition set_ufd :: "int \<Rightarrow> ufile option \<Rightarrow> ust \<Rightarrow> ust" where
  "set_ufd fd f s = s\<lparr>ufd := (ufd s)[nat fd := f]\<rparr>"

definition ucontent :: "byte list \<Rightarrow> ust \<Rightarrow> byte list" where
  "ucontent f s = (case ufiles s f of None \<Rightarrow> [] | Some bs \<Rightarrow> bs)"

text \<open>The result, the bytes delivered, and the state afterwards.\<close>

definition uread :: "int \<Rightarrow> nat \<Rightarrow> ust \<Rightarrow> int \<times> byte list \<times> ust" where
  "uread fd n s =
     (case ufile_of fd s of
        None \<Rightarrow> (-1, [], s)
      | Some (Stream []) \<Rightarrow> (0, [], s)
      | Some (Stream (None # cs)) \<Rightarrow> (-1, [], set_ufd fd (Some (Stream cs)) s)
      | Some (Stream (Some c # cs)) \<Rightarrow>
          (int (length (take n c)), take n c,
           set_ufd fd (Some (Stream (if length c \<le> n then cs else Some (drop n c) # cs))) s)
      | Some (Reg f off) \<Rightarrow>
          (let bs = take n (drop off (ucontent f s))
           in (int (length bs), bs, set_ufd fd (Some (Reg f (off + length bs))) s)))"

text \<open>A file grows when it is written past its end; what is written over is replaced.\<close>

definition overwrite :: "nat \<Rightarrow> byte list \<Rightarrow> byte list \<Rightarrow> byte list" where
  "overwrite off bs old = take off old @ bs @ drop (off + length bs) old"

text \<open>What \<^verbatim>\<open>filewrite\<close> does with a file: it hands the bytes to \<^verbatim>\<open>writei\<close> in pieces of at most 1536, and stops at the first piece that \<^verbatim>\<open>writei\<close>
  refuses because it would begin behind the end of the file or end behind the largest size, \<^verbatim>\<open>MAXFILE*BSIZE\<close>. The result is the number of bytes written
  and the new content.\<close>

abbreviation (input) MAXFILESIZE :: nat where "MAXFILESIZE \<equiv> 71680"

function write_pieces :: "nat \<Rightarrow> byte list \<Rightarrow> byte list \<Rightarrow> nat \<times> byte list" where
  "write_pieces off bs old =
     (if bs = [] then (0, old)
      else
        (let p = take 1536 bs
         in if off > length old \<or> off + length p > MAXFILESIZE then (0, old)
            else (let (k, new) = write_pieces (off + length p) (drop 1536 bs) (overwrite off p old) in (length p + k, new))))"
  by pat_completeness auto
termination by (relation "measure (\<lambda>(off, bs, old). length bs)") auto

declare write_pieces.simps [simp del]

text \<open>A stream takes everything. Left out: a descriptor that is open for reading only, a pipe without readers, and a full disk, at which the kernel panics.\<close>

definition uwrite :: "int \<Rightarrow> byte list \<Rightarrow> ust \<Rightarrow> int \<times> ust" where
  "uwrite fd bs s =
     (case ufile_of fd s of
        None \<Rightarrow> (-1, s)
      | Some (Stream _) \<Rightarrow> (int (length bs), s\<lparr>uout := uout s @ map (Pair fd) bs\<rparr>)
      | Some (Reg f off) \<Rightarrow>
          (let (k, new) = write_pieces off bs (ucontent f s)
           in (if k = length bs then int (length bs) else -1, set_ufd fd (Some (Reg f (off + k))) (s\<lparr>ufiles := (ufiles s)(f \<mapsto> new)\<rparr>))))"

definition free_fd :: "ust \<Rightarrow> nat option" where
  "free_fd s = (case filter (\<lambda>i. ufd s ! i = None) [0..<length (ufd s)] of [] \<Rightarrow> None | i # _ \<Rightarrow> Some i)"

text \<open>\<^verbatim>\<open>open\<close> with or without \<^verbatim>\<open>O_CREATE\<close>; it never shortens a file.\<close>

definition uopen :: "byte list \<Rightarrow> bool \<Rightarrow> ust \<Rightarrow> int \<times> ust" where
  "uopen name create s =
     (case free_fd s of
        None \<Rightarrow> (-1, s)
      | Some i \<Rightarrow>
          if ufiles s name = None \<and> \<not> create then (-1, s)
          else (int i, set_ufd (int i) (Some (Reg name 0)) (s\<lparr>ufiles := (ufiles s)(name \<mapsto> ucontent name s)\<rparr>)))"

definition uclose :: "int \<Rightarrow> ust \<Rightarrow> ust" where
  "uclose fd s = set_ufd fd None s"

section \<open>Facts about the system calls\<close>

lemma overwrite_overwrite: "off \<le> length old \<Longrightarrow> overwrite (off + length a) b (overwrite off a old) = overwrite off (a @ b) old"
  by (simp add: overwrite_def ac_simps)

text \<open>What fits is written.\<close>

lemma write_pieces_fit:
  "off \<le> length old \<Longrightarrow> off + length bs \<le> MAXFILESIZE \<Longrightarrow> write_pieces off bs old = (length bs, overwrite off bs old)"
proof (induction off bs old rule: write_pieces.induct)
  case (1 off bs old)
  show ?case
  proof (cases "bs = []")
    case True
    then show ?thesis by (subst write_pieces.simps) (simp add: overwrite_def)
  next
    case False
    let ?p = "take 1536 bs"
    have ok: "\<not> (off > length old \<or> off + length ?p > MAXFILESIZE)" using "1.prems" by simp
    have "off + length ?p \<le> length (overwrite off ?p old)" using "1.prems"(1) by (simp add: overwrite_def)
    moreover have "off + length ?p + length (drop 1536 bs) \<le> MAXFILESIZE" using "1.prems"(2) by simp
    ultimately have "write_pieces (off + length ?p) (drop 1536 bs) (overwrite off ?p old) =
        (length (drop 1536 bs), overwrite (off + length ?p) (drop 1536 bs) (overwrite off ?p old))"
      using "1.IH" [OF False refl ok] by blast
    also have "overwrite (off + length ?p) (drop 1536 bs) (overwrite off ?p old) = overwrite off bs old"
      using overwrite_overwrite [OF "1.prems"(1), of ?p "drop 1536 bs"] by simp
    finally show ?thesis using False ok by (subst write_pieces.simps) (simp add: Let_def)
  qed
qed

lemma written_simps [simp]:
  "written fd (s\<lparr>uout := uout s @ map (Pair g) bs\<rparr>) = written fd s @ (if g = fd then bs else [])"
  "written fd (set_ufd g f s) = written fd s" "written fd (s\<lparr>ufiles := fs\<rparr>) = written fd s"
  by (auto simp: written_def set_ufd_def filter_map o_def)

lemma set_ufd_frame [simp]:
  "ufiles (set_ufd fd f s) = ufiles s" "uout (set_ufd fd f s) = uout s" "length (ufd (set_ufd fd f s)) = length (ufd s)"
  "ucontent g (set_ufd fd f s) = ucontent g s"
  by (simp_all add: set_ufd_def ucontent_def)

lemma ufile_of_set [simp]:
  "ufile_of fd s \<noteq> None \<Longrightarrow> 0 \<le> g \<Longrightarrow> ufile_of g (set_ufd fd f s) = (if g = fd then f else ufile_of g s)"
  by (auto simp: ufile_of_def set_ufd_def split: if_splits)

lemma set_ufd_twice [simp]: "set_ufd fd f (set_ufd fd g s) = set_ufd fd f s"
  by (simp add: set_ufd_def)

end
