(* ===== verification/User_Lib.thy ===== *)
theory User_Lib
  imports User_Env Strings
begin

text \<open>
  The user library: strings (\<^verbatim>\<open>user/lib/ulib.c\<close>), formatted output (\<^verbatim>\<open>user/lib/printf.c\<close>), structured output
  (\<^verbatim>\<open>user/lib/structio.c\<close>) and the common options of the programs (\<^verbatim>\<open>user/lib/modern.c\<close>). Strings are byte lists without
  the terminating zero; a pointer into a string is the rest of the string from there.
\<close>

section \<open>Strings\<close>

text \<open>\<^verbatim>\<open>strcpy\<close> in memory; it does not return if there is no zero in the whole address space.\<close>

partial_function (option) ustrcpy :: "u32 \<Rightarrow> u32 \<Rightarrow> mem \<Rightarrow> mem option" where
  "ustrcpy s t m = (let m' = m(s := m t) in if m t \<noteq> 0 then ustrcpy (s + 1) (t + 1) m' else Some m')"

fun ustrcmp :: "byte list \<Rightarrow> byte list \<Rightarrow> int" where
  "ustrcmp [] q = 0 - int (unat (at q 0))"
| "ustrcmp (c # p) q = (if c = at q 0 then ustrcmp p (tl q) else int (unat c) - int (unat (at q 0)))"

fun ustrlen :: "byte list \<Rightarrow> nat" where
  "ustrlen [] = 0"
| "ustrlen (c # s) = ustrlen s + 1"

definition umemset :: "u32 \<Rightarrow> byte \<Rightarrow> nat \<Rightarrow> mem \<Rightarrow> mem" where
  "umemset dst c n m = fold (\<lambda>i m. m(dst + of_nat i := c)) [0..<n] m"

fun ustrchr :: "byte list \<Rightarrow> byte \<Rightarrow> byte list option" where
  "ustrchr [] c = None"
| "ustrchr (x # s) c = (if x = c then Some (x # s) else ustrchr s c)"

text \<open>\<^verbatim>\<open>gets\<close> with room for \<open>k\<close> more characters.\<close>

fun gets_loop :: "nat \<Rightarrow> ust \<Rightarrow> byte list \<times> ust" where
  "gets_loop 0 s = ([], s)"
| "gets_loop (Suc k) s =
     (case uread 0 1 s of (cc, bs, s) \<Rightarrow>
        if cc < 1 then ([], s)
        else if hd bs = 10 \<or> hd bs = 13 then ([hd bs], s)
        else (let (rest, s) = gets_loop k s in (hd bs # rest, s)))"

definition gets :: "nat \<Rightarrow> ust \<Rightarrow> byte list \<times> ust" where
  "gets n s = gets_loop (n - 1) s"

definition is_digit :: "byte \<Rightarrow> bool" where
  "is_digit c \<longleftrightarrow> 48 \<le> c \<and> c \<le> 57"

text \<open>\<^verbatim>\<open>n*10 + *s++ - '0'\<close> on 32-bit numbers.\<close>

fun atoi_loop :: "u32 \<Rightarrow> byte list \<Rightarrow> u32" where
  "atoi_loop n [] = n"
| "atoi_loop n (c # s) = (if is_digit c then atoi_loop (n * 10 + ucast c - 48) s else n)"

definition atoi :: "byte list \<Rightarrow> u32" where
  "atoi s = atoi_loop 0 s"

text \<open>The user's \<^verbatim>\<open>memmove\<close> always copies upwards.\<close>

fun umemmove :: "u32 \<Rightarrow> u32 \<Rightarrow> nat \<Rightarrow> mem \<Rightarrow> mem" where
  "umemmove dst src 0 m = m"
| "umemmove dst src (Suc n) m = umemmove (dst + 1) (src + 1) n (m(dst := m src))"

section \<open>Formatted output\<close>

definition putb :: "int \<Rightarrow> byte list \<Rightarrow> ust \<Rightarrow> ust" where
  "putb fd bs s = snd (uwrite fd bs s)"

definition putc :: "int \<Rightarrow> byte \<Rightarrow> ust \<Rightarrow> ust" where
  "putc fd c s = putb fd [c] s"

text \<open>The arguments are words; a word that \<^verbatim>\<open>%s\<close> reads is the number, from 1 on, of a string in \<open>strs\<close>, or 0 for the null pointer.\<close>

definition printf :: "int \<Rightarrow> byte list \<Rightarrow> byte list list \<Rightarrow> u32 list \<Rightarrow> ust \<Rightarrow> ust" where
  "printf fd fmt strs args s =
     fold (putc fd) (printf_chars (\<lambda>p. strs ! (unat p - 1)) (\<lambda>k. args ! k) False 0 fmt) s"

section \<open>Structured output\<close>

record struct_writer =
  sw_fd :: int
  sw_need_comma :: bool

definition write_str :: "int \<Rightarrow> byte list \<Rightarrow> ust \<Rightarrow> ust" where
  "write_str fd k s = putb fd k s"

definition hex_digit :: "byte \<Rightarrow> byte" where
  "hex_digit d = str ''0123456789abcdef'' ! unat d"

text \<open>What one character becomes: 34 is the quote, 92 the backslash.\<close>

definition escape :: "byte \<Rightarrow> byte list" where
  "escape c =
     (if c = 34 then [92, 34]
      else if c = 92 then [92, 92]
      else if c = 10 then [92, 110]
      else if c = 13 then [92, 114]
      else if c = 9 then [92, 116]
      else if c < 0x20 then [92, 117, 48, 48, hex_digit (drop_bit 4 c AND 15), hex_digit (c AND 15)]
      else [c])"

definition write_escaped :: "int \<Rightarrow> byte list \<Rightarrow> ust \<Rightarrow> ust" where
  "write_escaped fd v s = fold (\<lambda>c. putb fd (escape c)) v s"

definition begin_field :: "struct_writer \<Rightarrow> ust \<Rightarrow> struct_writer \<times> ust" where
  "begin_field w s =
     (if sw_need_comma w then (w, putb (sw_fd w) [44] s) else (w\<lparr>sw_need_comma := True\<rparr>, s))"

definition struct_begin :: "int \<Rightarrow> ust \<Rightarrow> struct_writer \<times> ust" where
  "struct_begin fd s = (\<lparr>sw_fd = fd, sw_need_comma = False\<rparr>, putb fd [123] s)"

text \<open>A null pointer for the key or the value counts as the empty string.\<close>

definition struct_field_str :: "byte list \<Rightarrow> byte list \<Rightarrow> struct_writer \<times> ust \<Rightarrow> struct_writer \<times> ust" where
  "struct_field_str k v ws =
     (let (w, s) = begin_field (fst ws) (snd ws);
          s = putb (sw_fd w) [34] s;
          s = write_str (sw_fd w) k s;
          s = putb (sw_fd w) [34, 58, 34] s;
          s = write_escaped (sw_fd w) v s;
          s = putb (sw_fd w) [34] s
      in (w, s))"

definition struct_field_int :: "byte list \<Rightarrow> u32 \<Rightarrow> struct_writer \<times> ust \<Rightarrow> struct_writer \<times> ust" where
  "struct_field_int k v ws =
     (let (w, s) = begin_field (fst ws) (snd ws);
          s = putb (sw_fd w) [34] s;
          s = write_str (sw_fd w) k s;
          s = putb (sw_fd w) [34, 58] s;
          s = printf (sw_fd w) (str ''%d'') [] [v] s
      in (w, s))"

definition struct_end :: "struct_writer \<times> ust \<Rightarrow> ust" where
  "struct_end ws = putb (sw_fd (fst ws)) [125, 10] (snd ws)"

section \<open>Common options\<close>

text \<open>A program goes on with a value, or it has exited.\<close>

datatype 'a flow = Go 'a ust | Exited ust

definition MODERN_VENDOR :: "byte list" where
  "MODERN_VENDOR = str ''diam Systems Ltd''"

definition modern_plain_version :: "byte list \<Rightarrow> ust \<Rightarrow> ust" where
  "modern_plain_version cmd s = printf 1 (str ''%s (c) %s %d\<newline>'') [cmd, MODERN_VENDOR] [1, 2, 2026] s"

definition modern_print_version :: "byte list \<Rightarrow> bool \<Rightarrow> ust \<Rightarrow> ust" where
  "modern_print_version cmd json s =
     (if \<not> json then modern_plain_version cmd s
      else struct_end (struct_field_int (str ''year'') 2026
             (struct_field_str (str ''vendor'') MODERN_VENDOR
             (struct_field_str (str ''command'') cmd (struct_begin 1 s)))))"

text \<open>The loop of \<^verbatim>\<open>modern_consume_flags\<close> at argument \<open>i\<close>, for the arguments from there on.\<close>

fun consume_loop :: "byte list \<Rightarrow> bool \<Rightarrow> nat \<Rightarrow> byte list list \<Rightarrow> bool \<Rightarrow> ust \<Rightarrow> (nat \<times> bool) flow" where
  "consume_loop cmd jok i [] json s = Go (i, json) s"
| "consume_loop cmd jok i (arg # args) json s =
     (if ustrcmp arg (str ''--version'') = 0 then Exited (modern_print_version cmd json s)
      else if jok \<and> (ustrcmp arg (str ''-J'') = 0 \<or> ustrcmp arg (str ''--json'') = 0) then consume_loop cmd jok (i + 1) args True s
      else Go (i, json) s)"

definition modern_consume_flags :: "byte list \<Rightarrow> byte list list \<Rightarrow> bool \<Rightarrow> ust \<Rightarrow> (nat \<times> bool) flow" where
  "modern_consume_flags cmd argv jok s = consume_loop cmd jok 1 (tl argv) False s"

definition modern_emit_status :: "byte list \<Rightarrow> byte list option \<Rightarrow> byte list option \<Rightarrow> bool \<Rightarrow> byte list option \<Rightarrow> ust \<Rightarrow> ust" where
  "modern_emit_status cmd event target json status s =
     (if \<not> json then
        printf 1 (str ''%s: %s %s %s\<newline>'')
          [cmd, case event of None \<Rightarrow> str ''event'' | Some e \<Rightarrow> e, case target of None \<Rightarrow> [] | Some t \<Rightarrow> t,
           case status of None \<Rightarrow> str ''done'' | Some t \<Rightarrow> t] [1, 2, 3, 4] s
      else
        (let ws = struct_field_str (str ''command'') cmd (struct_begin 1 s);
             ws = struct_field_str (str ''event'') (case event of None \<Rightarrow> str ''event'' | Some e \<Rightarrow> e) ws;
             ws = (case target of None \<Rightarrow> ws | Some t \<Rightarrow> struct_field_str (str ''target'') t ws);
             ws = (case status of None \<Rightarrow> ws | Some t \<Rightarrow> struct_field_str (str ''status'') t ws)
         in struct_end ws))"

section \<open>Reading a file to its end\<close>

text \<open>The loop \<^verbatim>\<open>while((n = read(fd, buf, k)) > 0)\<close> of the programs; \<open>body\<close> works on the bytes read, and the program may exit there.
  The number delivered is the last result of \<^verbatim>\<open>read\<close>.\<close>

partial_function (option) read_loop :: "int \<Rightarrow> ('a \<Rightarrow> nat) \<Rightarrow> (byte list \<Rightarrow> 'a \<Rightarrow> ust \<Rightarrow> 'a flow) \<Rightarrow> 'a \<Rightarrow> ust \<Rightarrow> (int \<times> 'a) flow option" where
  "read_loop fd k body a s =
     (case uread fd (k a) s of (n, bs, s) \<Rightarrow>
        if n > 0 then
          (case body bs a s of
             Go a s \<Rightarrow> read_loop fd k body a s
           | Exited s \<Rightarrow> Some (Exited s))
        else Some (Go (n, a) s))"

end
