(* ===== verification/Text_Tools.thy ===== *)
theory Text_Tools
  imports User_Lib
begin

text \<open>
  The programs that read text: \<^verbatim>\<open>grep\<close>, \<^verbatim>\<open>wc\<close>, \<^verbatim>\<open>cat\<close> and the small \<^verbatim>\<open>echo\<close> (\<^verbatim>\<open>user/bin\<close>). Characters: 10 is the newline, 36 is \<^verbatim>\<open>$\<close>, 42 is
  \<^verbatim>\<open>*\<close>, 46 is the dot, 94 is \<^verbatim>\<open>^\<close>.
\<close>

section \<open>grep: patterns\<close>

function matchhere :: "byte list \<Rightarrow> byte list \<Rightarrow> bool" and matchstar :: "byte \<Rightarrow> byte list \<Rightarrow> byte list \<Rightarrow> bool" where
  "matchhere re text =
     (if re = [] then True
      else if at re 1 = 42 then matchstar (hd re) (drop 2 re) text
      else if hd re = 36 \<and> at re 1 = 0 then text = []
      else if text \<noteq> [] \<and> (hd re = 46 \<or> hd re = hd text) then matchhere (tl re) (tl text)
      else False)"
| "matchstar c re text =
     (if matchhere re text then True
      else if text \<noteq> [] \<and> (hd text = c \<or> c = 46) then matchstar c re (tl text)
      else False)"
  by pat_completeness auto
termination
  by (relation "measure (case_sum (\<lambda>(re, text). 2 * (length re + length text)) (\<lambda>(c, re, text). 2 * (length re + length text) + 1))")
    (auto simp: neq_Nil_conv at_def split: if_splits)

declare matchhere.simps [simp del] matchstar.simps [simp del]

text \<open>The \<^verbatim>\<open>do\<close> loop of \<^verbatim>\<open>match\<close>.\<close>

fun match_loop :: "byte list \<Rightarrow> byte list \<Rightarrow> bool" where
  "match_loop re [] = matchhere re []"
| "match_loop re (c # text) = (if matchhere re (c # text) then True else match_loop re text)"

definition match :: "byte list \<Rightarrow> byte list \<Rightarrow> bool" where
  "match re text = (if at re 0 = 94 then matchhere (tl re) text else match_loop re text)"

section \<open>grep: lines\<close>

text \<open>The inner loop over the lines in the buffer from \<^verbatim>\<open>p\<close> on; it ends at the first place where \<^verbatim>\<open>strchr\<close> finds no newline
  before the terminating zero. The result is the final \<^verbatim>\<open>p\<close>.\<close>

function grep_lines :: "byte list \<Rightarrow> byte list \<Rightarrow> ust \<Rightarrow> byte list \<times> ust" where
  "grep_lines pattern p s =
     (case ustrchr (cstring p) 10 of
        None \<Rightarrow> (p, s)
      | Some q \<Rightarrow>
          (let line = take (length (cstring p) - length q) p
           in grep_lines pattern (drop (length line + 1) p)
                (if match pattern line then putb 1 (line @ [10]) s else s)))"
  by pat_completeness auto
termination
proof (relation "measure (\<lambda>(pattern, p, s). length p)")
  fix p :: "byte list" and q line pattern and s :: ust
  assume a: "ustrchr (cstring p) 10 = Some q" "line = take (length (cstring p) - length q) p"
  then have "p \<noteq> []" by (auto simp: cstring_def)
  then show "((pattern, drop (length line + 1) p, if match pattern line then putb 1 (line @ [10]) s else s), pattern, p, s) \<in> measure (\<lambda>(pattern, p, s). length p)"
    by simp
qed simp

declare grep_lines.simps [simp del]

text \<open>The body of the outer loop, where \<open>kept\<close> is what the first \<^verbatim>\<open>m\<close> bytes of the buffer hold.\<close>

definition grep_body :: "byte list \<Rightarrow> byte list \<Rightarrow> byte list \<Rightarrow> ust \<Rightarrow> byte list flow" where
  "grep_body pattern bs kept s =
     (case grep_lines pattern (kept @ bs) s of (p, s) \<Rightarrow> Go (if length p = length (kept @ bs) then [] else p) s)"

definition grep :: "byte list \<Rightarrow> int \<Rightarrow> ust \<Rightarrow> (int \<times> byte list) flow option" where
  "grep pattern fd s = read_loop fd (\<lambda>kept. 1024 - length kept - 1) (grep_body pattern) [] s"

text \<open>\<^verbatim>\<open>main\<close> of \<^verbatim>\<open>grep\<close>; \<open>None\<close> is a program that does not end.\<close>

fun grep_files :: "byte list \<Rightarrow> byte list list \<Rightarrow> ust \<Rightarrow> ust option" where
  "grep_files pattern [] s = Some s"
| "grep_files pattern (f # fs) s =
     (case uopen f False s of (fd, s) \<Rightarrow>
        if fd < 0 then Some (printf 1 (str ''grep: cannot open %s\<newline>'') [f] [1] s)
        else (case grep pattern fd s of
                None \<Rightarrow> None
              | Some (Go r s) \<Rightarrow> grep_files pattern fs (uclose fd s)
              | Some (Exited s) \<Rightarrow> Some s))"

definition grep_main :: "byte list list \<Rightarrow> ust \<Rightarrow> ust option" where
  "grep_main argv s =
     (if length argv \<le> 1 then Some (printf 2 (str ''usage: grep pattern [file ...]\<newline>'') [] [] s)
      else if length argv \<le> 2 then
        (case grep (argv ! 1) 0 s of None \<Rightarrow> None | Some (Go r s) \<Rightarrow> Some s | Some (Exited s) \<Rightarrow> Some s)
      else grep_files (argv ! 1) (drop 2 argv) s)"

section \<open>wc\<close>

text \<open>Lines, words, characters, and whether the last character was part of a word. The counters are 32-bit.\<close>

type_synonym counts = "u32 \<times> u32 \<times> u32 \<times> bool"

definition wc_char :: "byte \<Rightarrow> counts \<Rightarrow> counts" where
  "wc_char b cnt =
     (case cnt of (l, w, c, inword) \<Rightarrow>
        (let c = c + 1; l = (if b = 10 then l + 1 else l)
         in if ustrchr [32, 13, 9, 10, 11] b \<noteq> None then (l, w, c, False)
            else if \<not> inword then (l, w + 1, c, True)
            else (l, w, c, inword)))"

definition wc :: "int \<Rightarrow> byte list \<Rightarrow> ust \<Rightarrow> unit flow option" where
  "wc fd name s =
     (case read_loop fd (\<lambda>_. 512) (\<lambda>bs cnt s. Go (fold wc_char bs cnt) s) (0, 0, 0, False) s of
        None \<Rightarrow> None
      | Some (Exited s) \<Rightarrow> Some (Exited s)
      | Some (Go (n, (l, w, c, inword)) s) \<Rightarrow>
          if n < 0 then Some (Exited (printf 1 (str ''wc: read error\<newline>'') [] [] s))
          else Some (Go () (printf 1 (str ''%d %d %d %s\<newline>'') [name] [l, w, c, 1] s)))"

fun wc_files :: "byte list list \<Rightarrow> ust \<Rightarrow> ust option" where
  "wc_files [] s = Some s"
| "wc_files (f # fs) s =
     (case uopen f False s of (fd, s) \<Rightarrow>
        if fd < 0 then Some (printf 1 (str ''wc: cannot open %s\<newline>'') [f] [1] s)
        else (case wc fd f s of
                None \<Rightarrow> None
              | Some (Go r s) \<Rightarrow> wc_files fs (uclose fd s)
              | Some (Exited s) \<Rightarrow> Some s))"

definition wc_main :: "byte list list \<Rightarrow> ust \<Rightarrow> ust option" where
  "wc_main argv s =
     (if length argv \<le> 1 then
        (case wc 0 [] s of None \<Rightarrow> None | Some (Go r s) \<Rightarrow> Some s | Some (Exited s) \<Rightarrow> Some s)
      else wc_files (tl argv) s)"

section \<open>cat\<close>

definition emit_line :: "byte list option \<Rightarrow> byte list \<Rightarrow> ust \<Rightarrow> ust" where
  "emit_line source line s =
     (let ws = struct_begin 1 s;
          ws = (case source of None \<Rightarrow> ws | Some src \<Rightarrow> struct_field_str (str ''source'') src ws)
      in struct_end (struct_field_str (str ''data'') line ws))"

text \<open>One character of \<^verbatim>\<open>cat_json\<close>, with what is in \<^verbatim>\<open>linebuf\<close>; the line that is printed ends at its first zero.\<close>

definition cat_json_char :: "byte list option \<Rightarrow> byte \<Rightarrow> byte list \<times> ust \<Rightarrow> byte list \<times> ust" where
  "cat_json_char source c ls =
     (case ls of (line, s) \<Rightarrow>
        if c = 10 then ([], emit_line source (cstring line) s)
        else if length line < 1024 - 1 then (line @ [c], s)
        else ([], emit_line source (cstring line) s))"

definition cat_json :: "int \<Rightarrow> byte list option \<Rightarrow> ust \<Rightarrow> unit flow option" where
  "cat_json fd source s =
     (case read_loop fd (\<lambda>_. 512) (\<lambda>bs line s. case fold (cat_json_char source) bs (line, s) of (line, s) \<Rightarrow> Go line s) [] s of
        None \<Rightarrow> None
      | Some (Exited s) \<Rightarrow> Some (Exited s)
      | Some (Go (n, line) s) \<Rightarrow>
          (let s = (if line \<noteq> [] then emit_line source (cstring line) s else s)
           in if n < 0 then Some (Exited (printf 1 (str ''cat: read error\<newline>'') [] [] s)) else Some (Go () s)))"

definition cat_body :: "byte list \<Rightarrow> unit \<Rightarrow> ust \<Rightarrow> unit flow" where
  "cat_body bs u s =
     (case uwrite 1 bs s of (n, s) \<Rightarrow>
        if n \<noteq> int (length bs) then Exited (printf 1 (str ''cat: write error\<newline>'') [] [] s) else Go () s)"

definition cat_plain :: "int \<Rightarrow> ust \<Rightarrow> unit flow option" where
  "cat_plain fd s =
     (case read_loop fd (\<lambda>_. 512) cat_body () s of
        None \<Rightarrow> None
      | Some (Exited s) \<Rightarrow> Some (Exited s)
      | Some (Go (n, _) s) \<Rightarrow>
          if n < 0 then Some (Exited (printf 1 (str ''cat: read error\<newline>'') [] [] s)) else Some (Go () s))"

definition cat_stream :: "bool \<Rightarrow> int \<Rightarrow> byte list \<Rightarrow> ust \<Rightarrow> unit flow option" where
  "cat_stream json fd source s = (if json then cat_json fd (Some source) s else cat_plain fd s)"

fun cat_files :: "bool \<Rightarrow> byte list list \<Rightarrow> ust \<Rightarrow> ust option" where
  "cat_files json [] s = Some s"
| "cat_files json (f # fs) s =
     (case uopen f False s of (fd, s) \<Rightarrow>
        if fd < 0 then Some (printf 1 (str ''cat: cannot open %s\<newline>'') [f] [1] s)
        else (case cat_stream json fd f s of
                None \<Rightarrow> None
              | Some (Go r s) \<Rightarrow> cat_files json fs (uclose fd s)
              | Some (Exited s) \<Rightarrow> Some s))"

definition cat_main :: "byte list list \<Rightarrow> ust \<Rightarrow> ust option" where
  "cat_main argv s =
     (case modern_consume_flags (str ''cat'') argv True s of
        Exited s \<Rightarrow> Some s
      | Go (idx, json) s \<Rightarrow>
          if length argv \<le> idx then
            (case cat_stream json 0 (str ''stdin'') s of None \<Rightarrow> None | Some (Go r s) \<Rightarrow> Some s | Some (Exited s) \<Rightarrow> Some s)
          else cat_files json (drop idx argv) s)"

section \<open>echo\<close>

fun echo_loop :: "byte list list \<Rightarrow> ust \<Rightarrow> ust" where
  "echo_loop [] s = s"
| "echo_loop (a # args) s = echo_loop args (printf 1 (str ''%s%s'') [a, if args \<noteq> [] then [32] else [10]] [1, 2] s)"

definition echo_main :: "byte list list \<Rightarrow> ust \<Rightarrow> ust" where
  "echo_main argv s = echo_loop (tl argv) s"

end
