(* ===== verification/User_Properties.thy ===== *)
theory User_Properties
  imports User_Lib
begin

text \<open>
  What the user library promises: numbers are printed so that they can be read back, in a buffer that is
  large enough, and structured output is an object from which every field can be recovered.
\<close>

section \<open>Numbers\<close>

definition dec_value :: "byte list \<Rightarrow> nat" where
  "dec_value ds = foldl (\<lambda>n c. 10 * n + (unat c - 48)) 0 ds"

lemma dec_value_snoc [simp]: "dec_value (ds @ [c]) = 10 * dec_value ds + (unat c - 48)" "dec_value [] = 0"
  by (simp_all add: dec_value_def)

lemma unat_digit: "d < 10 \<Longrightarrow> unat (digit u d) = 48 + d" "d < 10 \<Longrightarrow> is_digit (digit u d)"
proof -
  assume d: "d < 10"
  then show "unat (digit u d) = 48 + d" by (simp add: digit_def unat_of_nat take_bit_eq_mod unat_word_ariths)
  then show "is_digit (digit u d)" using d by (simp add: is_digit_def word_le_nat_alt)
qed

lemma digits_rev_value:
  "dec_value (rev (digits_rev u 10 x)) = x \<and> (\<forall>c \<in> set (digits_rev u 10 x). is_digit c) \<and> digits_rev u 10 x \<noteq> []"
proof (induction x rule: less_induct)
  case (less x)
  show ?case
  proof (cases "x div 10 = 0")
    case True
    then have "x mod 10 = x" "x < 10" by (simp_all add: div_eq_0_iff)
    then show ?thesis using True unat_digit [of x u] by (subst (1 2 3) digits_rev.simps) (simp add: dec_value_def)
  next
    case False
    then have "x div 10 < x" by (simp add: div_eq_0_iff)
    from less.IH [OF this] show ?thesis using False unat_digit [of "x mod 10" u] by (subst (1 2 3) digits_rev.simps) simp
  qed
qed

lemma digits_rev_length:
  assumes "2 \<le> b" "0 < n" "x < b ^ n"
  shows "length (digits_rev u b x) \<le> n"
  using assms(2,3)
proof (induction n arbitrary: x)
  case (Suc n)
  show ?case
  proof (cases "x div b = 0")
    case True
    then show ?thesis by (subst digits_rev.simps) simp
  next
    case False
    then have "n \<noteq> 0" using Suc.prems(2) by (cases n) (auto simp: div_eq_0_iff)
    moreover have "x div b < b ^ n" using Suc.prems(2) assms(1) by (simp add: less_mult_imp_div_less mult.commute)
    ultimately have "length (digits_rev u b (x div b)) \<le> n" using Suc.IH by simp
    then show ?thesis by (subst digits_rev.simps) simp
  qed
qed simp

lemma sint_u32: "sint x = uint x - (if bit x 31 then 2 ^ 32 else 0)" for x :: u32
proof -
  have "sint x = signed_take_bit 31 (uint x)" by (simp add: sint_uint)
  also have "\<dots> = take_bit 32 (uint x) - 2 ^ 32 * of_bool (bit (uint x) 31)"
    using signed_take_bit_eq_take_bit_minus [of 31 "uint x"] by simp
  also have "take_bit 32 (uint x) = uint x" using uint_lt2p [of x] by (simp add: take_bit_int_eq_self)
  finally show ?thesis by (simp add: bit_uint_iff)
qed

lemma unat_neg: "sint x < 0 \<Longrightarrow> int (unat (- x)) = - sint x" for x :: u32
proof -
  assume n: "sint x < 0"
  then have e: "uint x = sint x + 2 ^ 32" using sint_u32 [of x] uint_ge_0 [of x] by (auto split: if_splits)
  have r: "- sint x \<le> 2 ^ 31" using sint_ge [of x] by simp
  have "int (unat (- x)) = uint (- x)" by simp
  also have "\<dots> = (- uint x) mod 2 ^ 32" by (simp add: uint_word_ariths)
  also have "\<dots> = (- sint x) mod 2 ^ 32" unfolding e by (simp add: mod_diff_right_eq [symmetric])
  also have "\<dots> = - sint x" using n r by (intro mod_pos_pos_trivial) simp_all
  finally show ?thesis .
qed

lemma unat_pos: "0 \<le> sint x \<Longrightarrow> int (unat x) = sint x" for x :: u32
  using sint_u32 [of x] uint_lt2p [of x] by (auto split: if_splits)

lemma printint_dec:
  "printint u x 10 True = (if sint x < 0 then 45 # rev (digits_rev u 10 (unat (- x))) else rev (digits_rev u 10 (unat x)))"
  by (simp add: printint_def Let_def)

lemma atoi_loop_digits:
  assumes "\<forall>c \<in> set ds. is_digit c" "rest = [] \<or> \<not> is_digit (hd rest)"
  shows "atoi_loop (of_nat (dec_value pre)) (ds @ rest) = of_nat (dec_value (pre @ ds))"
  using assms(1)
proof (induction ds arbitrary: pre)
  case Nil
  then show ?case using assms(2) by (cases rest) auto
next
  case (Cons c ds)
  have "48 \<le> unat c" using Cons.prems by (simp add: is_digit_def word_le_nat_alt)
  then have e: "of_nat (dec_value pre) * 10 + ucast c - 48 = (of_nat (dec_value (pre @ [c])) :: u32)"
    by (simp add: of_nat_diff algebra_simps)
  show ?case unfolding append_Cons atoi_loop.simps(2) e using Cons.IH [of "pre @ [c]"] Cons.prems by (simp del: dec_value_snoc)
qed

text \<open>C32. Numbers in decimal. \<^verbatim>\<open>printint\<close>, in the kernel and in the user library, prints a number that is not negative so that \<^verbatim>\<open>atoi\<close> reads
  it back, whatever follows it but a digit. A negative number is a minus sign and the digits of its absolute value; \<^verbatim>\<open>atoi\<close> does not know the sign and
  reads 0. The characters fit into the 16 of the buffer, for base 10 and for base 16. The smallest number is left out: C gives
  its negation no meaning.\<close>

theorem printint_correct:
  fixes x :: u32
  assumes "rest = [] \<or> \<not> is_digit (hd rest)" "x \<noteq> 0x80000000"
  shows "(0 \<le> sint x \<longrightarrow> atoi (printint u x 10 True @ rest) = x) \<and>
    (sint x < 0 \<longrightarrow> atoi (printint u x 10 True @ rest) = 0) \<and>
    (sint x < 0 \<longrightarrow> (\<exists>ds. printint u x 10 True = 45 # ds \<and> (\<forall>c \<in> set ds. is_digit c) \<and> int (dec_value ds) = - sint x)) \<and>
    length (printint u x 10 True) \<le> 16 \<and> length (printint u x 16 False) \<le> 16"
proof (intro conjI impI)
  assume "0 \<le> sint x"
  then show "atoi (printint u x 10 True @ rest) = x"
    using atoi_loop_digits [OF _ assms(1), of "rev (digits_rev u 10 (unat x))" "[]"] digits_rev_value [of u "unat x"]
    by (simp add: printint_dec atoi_def)
next
  assume "sint x < 0"
  then show "atoi (printint u x 10 True @ rest) = 0" by (simp add: printint_dec atoi_def is_digit_def)
next
  assume "sint x < 0"
  then show "\<exists>ds. printint u x 10 True = 45 # ds \<and> (\<forall>c \<in> set ds. is_digit c) \<and> int (dec_value ds) = - sint x"
    using digits_rev_value [of u "unat (- x)"] unat_neg [of x] by (simp add: printint_dec)
next
  have b: "unat y < 10 ^ 10" "unat y < 16 ^ 8" for y :: u32 using unat_lt32 [of y] by simp_all
  show "length (printint u x 10 True) \<le> 16"
    using digits_rev_length [of 10 10 "unat x" u] digits_rev_length [of 10 10 "unat (- x)" u] b by (simp add: printint_dec)
  show "length (printint u x 16 False) \<le> 16"
    using digits_rev_length [of 16 8 "unat x" u] b by (simp add: printint_def Let_def)
qed

theorem printint_correct_witness:
  "atoi (printint True 4711 10 True @ [32]) = 4711 \<and> atoi (printint True (-4711) 10 True @ [32]) = 0 \<and> length (printint True 0x80000001 10 True) \<le> 16"
  using printint_correct [of "[32]" 4711 True] printint_correct [of "[32]" "-4711" True] printint_correct [of "[32]" "0x80000001" True] by (simp add: is_digit_def)

section \<open>Output on a stream\<close>

definition is_stream :: "int \<Rightarrow> ust \<Rightarrow> bool" where
  "is_stream fd s \<longleftrightarrow> (\<exists>cs. ufile_of fd s = Some (Stream cs))"

definition emit :: "int \<Rightarrow> byte list \<Rightarrow> ust \<Rightarrow> ust" where
  "emit fd bs s = s\<lparr>uout := uout s @ map (Pair fd) bs\<rparr>"

lemma emit_simps [simp]:
  "is_stream g (emit fd bs s) = is_stream g s" "emit fd cs (emit fd bs s) = emit fd (bs @ cs) s" "emit fd [] s = s"
  "ufd (emit fd bs s) = ufd s" "ufiles (emit fd bs s) = ufiles s" "ufile_of g (emit fd bs s) = ufile_of g s"
  by (simp_all add: emit_def is_stream_def ufile_of_def)

lemma putb_stream [simp]: "is_stream fd s \<Longrightarrow> putb fd bs s = emit fd bs s"
  by (auto simp: is_stream_def putb_def uwrite_def emit_def)

lemma fold_emit: "is_stream fd s \<Longrightarrow> fold (\<lambda>c. putb fd (f c)) cs s = emit fd (concat (map f cs)) s"
  by (induction cs arbitrary: s) simp_all

lemma printf_stream [simp]:
  "is_stream fd s \<Longrightarrow> printf fd fmt strs args s = emit fd (printf_chars (\<lambda>p. strs ! (unat p - 1)) (\<lambda>k. args ! k) False 0 fmt) s"
  using fold_emit [of fd s "\<lambda>c. [c]"] by (simp add: printf_def putc_def [abs_def])

section \<open>Structured output\<close>

text \<open>A reader for one line of structured output: an object whose values are strings and integers.\<close>

datatype jval = JStr "byte list" | JInt int

definition unhex :: "byte \<Rightarrow> byte" where
  "unhex c = (if c \<le> 57 then c - 48 else c - 87)"

text \<open>The characters up to the closing quote, and what follows it.\<close>

fun unescape :: "byte list \<Rightarrow> (byte list \<times> byte list) option" where
  "unescape [] = None"
| "unescape (c # s) =
     (if c = 34 then Some ([], s)
      else if c = 92 then
        (case s of
           [] \<Rightarrow> None
         | d # s' \<Rightarrow>
             if d = 117 then
               (case s' of
                  _ # _ # h # l # s'' \<Rightarrow> map_option (apfst ((#) (push_bit 4 (unhex h) OR unhex l))) (unescape s'')
                | _ \<Rightarrow> None)
             else map_option (apfst ((#) (if d = 110 then 10 else if d = 114 then 13 else if d = 116 then 9 else d))) (unescape s'))
      else if c < 0x20 then None
      else map_option (apfst ((#) c)) (unescape s))"

definition json_nat :: "byte list \<Rightarrow> (nat \<times> byte list) option" where
  "json_nat s = (let ds = takeWhile is_digit s in if ds = [] then None else Some (dec_value ds, dropWhile is_digit s))"

definition json_value :: "byte list \<Rightarrow> (jval \<times> byte list) option" where
  "json_value s =
     (case s of
        [] \<Rightarrow> None
      | c # s' \<Rightarrow>
          if c = 34 then map_option (apfst JStr) (unescape s')
          else if c = 45 then map_option (apfst (\<lambda>n. JInt (- int n))) (json_nat s')
          else map_option (apfst (\<lambda>n. JInt (int n))) (json_nat s))"

definition json_field :: "byte list \<Rightarrow> ((byte list \<times> jval) \<times> byte list) option" where
  "json_field s =
     (case s of
        [] \<Rightarrow> None
      | c # s \<Rightarrow>
          if c \<noteq> 34 then None
          else (case unescape s of
                  Some (k, d # s) \<Rightarrow> if d = 58 then map_option (apfst (Pair k)) (json_value s) else None
                | _ \<Rightarrow> None))"

text \<open>The fields of an object after the brace or a comma; every field takes at least one character, so the length of the
  text is fuel enough.\<close>

fun json_fields :: "nat \<Rightarrow> byte list \<Rightarrow> (byte list \<times> jval) list option" where
  "json_fields 0 s = None"
| "json_fields (Suc n) s =
     (case json_field s of
        None \<Rightarrow> None
      | Some (f, s) \<Rightarrow>
          if s = [125, 10] then Some [f]
          else if s \<noteq> [] \<and> hd s = 44 then map_option ((#) f) (json_fields n (tl s))
          else None)"

definition json_parse :: "byte list \<Rightarrow> (byte list \<times> jval) list option" where
  "json_parse s =
     (if s = [123, 125, 10] then Some []
      else if s \<noteq> [] \<and> hd s = 123 then json_fields (length s) (tl s)
      else None)"

lemma hex_control: "c < 0x20 \<Longrightarrow> push_bit 4 (unhex (hex_digit (drop_bit 4 c AND 15))) OR unhex (hex_digit (c AND 15)) = c"
proof -
  assume "c < 0x20"
  then have n: "unat c < 32" by (simp add: word_less_nat_alt)
  have "list_all (\<lambda>n. let c = of_nat n :: byte in push_bit 4 (unhex (hex_digit (drop_bit 4 c AND 15))) OR unhex (hex_digit (c AND 15)) = c) [0..<32]"
    by code_simp
  then have "let c = of_nat (unat c) :: byte in push_bit 4 (unhex (hex_digit (drop_bit 4 c AND 15))) OR unhex (hex_digit (c AND 15)) = c"
    using n unfolding list_all_iff by fastforce
  then show ?thesis by simp
qed

lemma unescape_escape: "unescape (escape c @ s) = map_option (apfst ((#) c)) (unescape s)"
  using hex_control [of c] by (simp add: escape_def)

lemma unescape_escaped: "unescape (concat (map escape v) @ 34 # rest) = Some (v, rest)"
  by (induction v) (simp_all add: unescape_escape)

text \<open>A key is written as it is; it may not hold quotes, backslashes or control characters.\<close>

definition key_ok :: "byte list \<Rightarrow> bool" where
  "key_ok k \<longleftrightarrow> (\<forall>c \<in> set k. 0x20 \<le> c \<and> c \<noteq> 34 \<and> c \<noteq> 92)"

lemma unescape_key: "key_ok k \<Longrightarrow> unescape (k @ 34 # rest) = Some (k, rest)"
  by (induction k) (auto simp: key_ok_def not_less)

fun field_ok :: "byte list \<times> jval \<Rightarrow> bool" where
  "field_ok (k, JStr v) \<longleftrightarrow> key_ok k"
| "field_ok (k, JInt n) \<longleftrightarrow> key_ok k \<and> - (2 ^ 31) < n \<and> n < 2 ^ 31"

fun field_text :: "byte list \<times> jval \<Rightarrow> byte list" where
  "field_text (k, JStr v) = [34] @ k @ [34, 58, 34] @ concat (map escape v) @ [34]"
| "field_text (k, JInt n) = [34] @ k @ [34, 58] @ printint True (of_int n) 10 True"

lemma sint_of_int: "- (2 ^ 31) \<le> n \<Longrightarrow> n < 2 ^ 31 \<Longrightarrow> sint (of_int n :: u32) = n"
  by (simp add: signed_of_int signed_take_bit_int_eq_self)

lemma json_nat_digits:
  assumes "\<forall>c \<in> set ds. is_digit c" "ds \<noteq> []" "\<not> is_digit (hd rest)" "rest \<noteq> []"
  shows "json_nat (ds @ rest) = Some (dec_value ds, rest)"
proof -
  have "takeWhile is_digit (ds @ rest) = ds" "dropWhile is_digit (ds @ rest) = rest" using assms by (cases rest; simp)+
  then show ?thesis using assms(2) by (simp add: json_nat_def)
qed

lemma json_value_int:
  assumes "- (2 ^ 31) \<le> n" "n < 2 ^ 31" "\<not> is_digit (hd rest)" "rest \<noteq> []"
  shows "json_value (printint True (of_int n) 10 True @ rest) = Some (JInt n, rest)"
proof -
  let ?x = "of_int n :: u32"
  note s = sint_of_int [OF assms(1,2)]
  have d: "json_nat (rev (digits_rev True 10 m) @ rest) = Some (m, rest)" for m
    using json_nat_digits [of "rev (digits_rev True 10 m)" rest] digits_rev_value [of True m] assms(3,4) by simp
  show ?thesis
  proof (cases "n < 0")
    case True
    then show ?thesis using s d unat_neg [of ?x] by (simp add: printint_dec json_value_def)
  next
    case False
    let ?ds = "rev (digits_rev True 10 (unat ?x))"
    have "?ds \<noteq> [] \<and> is_digit (hd ?ds)" using digits_rev_value [of True "unat ?x"] hd_in_set [of ?ds] by auto
    then obtain c cs where c: "?ds = c # cs" "is_digit c" by (cases ?ds) auto
    then have "c \<noteq> 34" "c \<noteq> 45" by (auto simp: is_digit_def)
    then show ?thesis using False s d [of "unat ?x"] unat_pos [of ?x] c(1) by (simp add: printint_dec json_value_def)
  qed
qed

lemma json_field_text:
  assumes "field_ok f" "rest \<noteq> []" "\<not> is_digit (hd rest)"
  shows "json_field (field_text f @ rest) = Some (f, rest)"
  using assms
proof (cases f rule: field_ok.cases)
  case (1 k v)
  have "unescape (k @ [34, 58, 34] @ concat (map escape v) @ [34] @ rest) = Some (k, [58, 34] @ concat (map escape v) @ [34] @ rest)"
    using unescape_key [of k "[58, 34] @ concat (map escape v) @ [34] @ rest"] assms(1) 1 by simp
  then show ?thesis using 1 unescape_escaped [of v rest] by (simp add: json_field_def json_value_def)
next
  case (2 k n)
  have "unescape (k @ [34, 58] @ printint True (of_int n) 10 True @ rest) = Some (k, 58 # printint True (of_int n) 10 True @ rest)"
    using unescape_key [of k "[58] @ printint True (of_int n) 10 True @ rest"] assms(1) 2 by simp
  then show ?thesis using 2 assms json_value_int [of n rest] by (simp add: json_field_def)
qed

fun fields_text :: "(byte list \<times> jval) list \<Rightarrow> byte list" where
  "fields_text [] = []"
| "fields_text [f] = field_text f"
| "fields_text (f # g # fs) = field_text f @ [44] @ fields_text (g # fs)"

lemma json_fields_text:
  assumes "\<forall>f \<in> set fs. field_ok f" "fs \<noteq> []" "length fs \<le> n"
  shows "json_fields n (fields_text fs @ [125, 10]) = Some fs"
  using assms
proof (induction fs arbitrary: n rule: fields_text.induct)
  case (2 f)
  then show ?case using json_field_text [of f "[125, 10]"] by (cases n) (simp_all add: is_digit_def)
next
  case (3 f g fs)
  then show ?case using json_field_text [of f "44 # fields_text (g # fs) @ [125, 10]"] by (cases n) (simp_all add: is_digit_def)
qed simp

lemma length_fields_text: "length fs \<le> length (fields_text fs)"
proof (induction fs rule: fields_text.induct)
  case (2 f)
  then show ?case by (cases f rule: field_text.cases) simp_all
next
  case (3 f g fs)
  then show ?case by simp
qed simp

lemma json_parse_text: "\<forall>f \<in> set fs. field_ok f \<Longrightarrow> json_parse ([123] @ fields_text fs @ [125, 10]) = Some fs"
proof -
  assume ok: "\<forall>f \<in> set fs. field_ok f"
  show ?thesis
  proof (cases "fs = []")
    case False
    have "hd (fields_text fs) = 34" "fields_text fs \<noteq> []" using False
      by (induction fs rule: fields_text.induct) (auto, (metis append_Cons field_text.elims list.sel(1) list.distinct(1) append_is_Nil_conv hd_append2)+)
    then have "[123] @ fields_text fs @ [125, 10] \<noteq> [123, 125, 10]" by (cases "fields_text fs") auto
    then show ?thesis using json_fields_text [OF ok False, of "Suc (Suc (Suc (length (fields_text fs))))"] length_fields_text [of fs]
      by (simp add: json_parse_def)
  qed (simp add: json_parse_def)
qed

fun write_field :: "byte list \<times> jval \<Rightarrow> struct_writer \<times> ust \<Rightarrow> struct_writer \<times> ust" where
  "write_field (k, JStr v) ws = struct_field_str k v ws"
| "write_field (k, JInt n) ws = struct_field_int k (of_int n) ws"

definition write_object :: "int \<Rightarrow> (byte list \<times> jval) list \<Rightarrow> ust \<Rightarrow> ust" where
  "write_object fd fs s = struct_end (fold write_field fs (struct_begin fd s))"

lemma write_field_text:
  assumes "is_stream (sw_fd w) s"
  shows "write_field f (w, s) = (w\<lparr>sw_need_comma := True\<rparr>, emit (sw_fd w) ((if sw_need_comma w then [44] else []) @ field_text f) s)"
proof (cases f rule: field_text.cases)
  case (1 k v)
  then show ?thesis using assms
    by (cases "sw_need_comma w") (simp_all add: struct_field_str_def begin_field_def write_str_def write_escaped_def fold_emit Let_def)
next
  case (2 k n)
  then show ?thesis using assms
    by (cases "sw_need_comma w") (simp_all add: struct_field_int_def begin_field_def write_str_def Let_def str_def)
qed

lemma write_fields_text:
  assumes "is_stream fd s"
  shows "fold write_field fs (\<lparr>sw_fd = fd, sw_need_comma = True\<rparr>, s) =
    (\<lparr>sw_fd = fd, sw_need_comma = True\<rparr>, emit fd (concat (map (\<lambda>f. [44] @ field_text f) fs)) s)"
  using assms by (induction fs arbitrary: s) (simp_all add: write_field_text)

lemma fields_text_Cons: "fields_text (f # fs) = field_text f @ concat (map (\<lambda>f. [44] @ field_text f) fs)"
  by (induction fs arbitrary: f) simp_all

lemma write_object_text: "is_stream fd s \<Longrightarrow> write_object fd fs s = emit fd ([123] @ fields_text fs @ [125, 10]) s"
proof (cases fs)
  case Nil
  then show "is_stream fd s \<Longrightarrow> ?thesis" by (simp add: write_object_def struct_begin_def struct_end_def)
next
  case (Cons f gs)
  then show "is_stream fd s \<Longrightarrow> ?thesis"
    by (simp add: write_object_def struct_begin_def struct_end_def write_field_text write_fields_text fields_text_Cons)
qed

lemma emit_status_object:
  "modern_emit_status cmd event target True status s =
     write_object 1 ([(str ''command'', JStr cmd), (str ''event'', JStr (case event of None \<Rightarrow> str ''event'' | Some e \<Rightarrow> e))] @
       (case target of None \<Rightarrow> [] | Some t \<Rightarrow> [(str ''target'', JStr t)]) @ (case status of None \<Rightarrow> [] | Some t \<Rightarrow> [(str ''status'', JStr t)])) s"
  by (simp add: modern_emit_status_def write_object_def Let_def split: option.split)

lemma key_ok_str: "key_ok (str ''command'')" "key_ok (str ''event'')" "key_ok (str ''target'')" "key_ok (str ''status'')"
  by (simp_all add: key_ok_def str_def)

text \<open>C31. Structured output. Whatever strings and integers a program writes with \<^verbatim>\<open>struct_begin\<close>, the field functions and \<^verbatim>\<open>struct_end\<close>, the
  bytes that arrive on the stream are one object from which exactly these fields can be read back: quotes,
  backslashes, control characters and negative numbers included. The keys must not need an escape, since they are written as they are, and the integers must not be the smallest one,
  which C does not print. The status lines of the programs are such objects.\<close>

theorem structured_output_roundtrip:
  assumes "is_stream fd s" "\<forall>f \<in> set fs. field_ok f"
  shows "(\<exists>text. write_object fd fs s = emit fd text s \<and> json_parse text = Some fs) \<and>
    (fd = 1 \<longrightarrow> (\<exists>text. modern_emit_status cmd (Some event) (Some target) True (Some status) s = emit 1 text s \<and>
      json_parse text = Some [(str ''command'', JStr cmd), (str ''event'', JStr event), (str ''target'', JStr target), (str ''status'', JStr status)]))"
proof (intro conjI impI)
  show "\<exists>text. write_object fd fs s = emit fd text s \<and> json_parse text = Some fs"
    using write_object_text [OF assms(1)] json_parse_text [OF assms(2)] by blast
  let ?fs = "[(str ''command'', JStr cmd), (str ''event'', JStr event), (str ''target'', JStr target), (str ''status'', JStr status)]"
  assume "fd = 1"
  then have "is_stream 1 s" using assms(1) by simp
  moreover have "\<forall>f \<in> set ?fs. field_ok f" using key_ok_str by simp
  ultimately show "\<exists>text. modern_emit_status cmd (Some event) (Some target) True (Some status) s = emit 1 text s \<and> json_parse text = Some ?fs"
    using write_object_text [of 1 s ?fs] json_parse_text [of ?fs] unfolding emit_status_object by auto
qed

text \<open>A program with the three standard streams open.\<close>

definition ex_user :: ust where
  "ex_user = \<lparr>ufd = replicate 3 (Some (Stream [])) @ replicate 13 None, ufiles = Map.empty, uout = []\<rparr>"

lemma ex_user_streams: "is_stream 0 ex_user" "is_stream 1 ex_user" "is_stream 2 ex_user"
  by (simp_all add: is_stream_def ufile_of_def ex_user_def nth_append nth_Cons')

theorem structured_output_roundtrip_witness:
  "\<exists>text. write_object 1 [(str ''k'', JStr (str ''ab'' @ [92, 34, 10, 1])), (str ''n'', JInt (-42))] ex_user = emit 1 text ex_user \<and>
    json_parse text = Some [(str ''k'', JStr (str ''ab'' @ [92, 34, 10, 1])), (str ''n'', JInt (-42))]"
  using structured_output_roundtrip [OF ex_user_streams(2), of "[(str ''k'', JStr (str ''ab'' @ [92, 34, 10, 1])), (str ''n'', JInt (-42))]"]
  by (simp add: key_ok_def str_def)

end
