(* ===== verification/Text_Properties.thy ===== *)
theory Text_Properties
  imports Text_Tools User_Properties
begin

text \<open>
  What \<^verbatim>\<open>grep\<close> and \<^verbatim>\<open>wc\<close> compute: the matcher against the meaning of patterns, the lines that are printed, and the
  counts, however the input is cut into pieces by \<^verbatim>\<open>read\<close>.
\<close>

section \<open>Patterns\<close>

text \<open>A pattern is a sequence of items, possibly tied to the end of the line.\<close>

datatype item = Star byte | One byte

function items :: "byte list \<Rightarrow> item list \<times> bool" where
  "items [] = ([], False)"
| "items (c # re) =
     (if re \<noteq> [] \<and> hd re = 42 then apfst ((#) (Star c)) (items (tl re))
      else if c = 36 \<and> re = [] then ([], True)
      else apfst ((#) (One c)) (items re))"
  by pat_completeness auto
termination
  by (relation "measure length") (auto simp: neq_Nil_conv)

definition fits :: "byte \<Rightarrow> byte \<Rightarrow> bool" where
  "fits c x \<longleftrightarrow> c = 46 \<or> x = c"

fun item_matches :: "item \<Rightarrow> byte list \<Rightarrow> bool" where
  "item_matches (Star c) u \<longleftrightarrow> (\<forall>x \<in> set u. fits c x)"
| "item_matches (One c) u \<longleftrightarrow> (\<exists>x. u = [x] \<and> fits c x)"

text \<open>The text starts with pieces that match the items one by one.\<close>

definition starts_with :: "item list \<times> bool \<Rightarrow> byte list \<Rightarrow> bool" where
  "starts_with p text \<longleftrightarrow> (\<exists>us rest. text = concat us @ rest \<and> list_all2 item_matches (fst p) us \<and> (snd p \<longrightarrow> rest = []))"

text \<open>The meaning of a pattern: some part of the text matches; a leading \<^verbatim>\<open>^\<close> ties the match to the beginning.\<close>

definition matches :: "byte list \<Rightarrow> byte list \<Rightarrow> bool" where
  "matches re text \<longleftrightarrow>
     (if re \<noteq> [] \<and> hd re = 94 then starts_with (items (tl re)) text
      else \<exists>pre post. text = pre @ post \<and> starts_with (items re) post)"

lemma starts_with_Nil: "starts_with ([], e) t \<longleftrightarrow> (e \<longrightarrow> t = [])"
  by (auto simp: starts_with_def)

lemma starts_with_Cons: "starts_with (apfst ((#) i) p) t \<longleftrightarrow> (\<exists>u t'. t = u @ t' \<and> item_matches i u \<and> starts_with p t')"
proof
  assume "starts_with (apfst ((#) i) p) t"
  then obtain u us rest where "t = u @ concat us @ rest" "item_matches i u" "list_all2 item_matches (fst p) us" "snd p \<longrightarrow> rest = []"
    by (fastforce simp: starts_with_def list_all2_Cons1)
  then show "\<exists>u t'. t = u @ t' \<and> item_matches i u \<and> starts_with p t'" unfolding starts_with_def by blast
next
  assume "\<exists>u t'. t = u @ t' \<and> item_matches i u \<and> starts_with p t'"
  then obtain u us rest where "t = u @ concat us @ rest" "item_matches i u" "list_all2 item_matches (fst p) us" "snd p \<longrightarrow> rest = []"
    unfolding starts_with_def by blast
  then have "t = concat (u # us) @ rest \<and> list_all2 item_matches (i # fst p) (u # us) \<and> (snd p \<longrightarrow> rest = [])" by simp
  then show "starts_with (apfst ((#) i) p) t" unfolding starts_with_def fst_apfst snd_apfst by blast
qed

lemma starts_with_One: "starts_with (apfst ((#) (One c)) p) t \<longleftrightarrow> (\<exists>x t'. t = x # t' \<and> fits c x \<and> starts_with p t')"
proof -
  have "(\<exists>u t'. t = u @ t' \<and> (\<exists>x. u = [x] \<and> fits c x) \<and> starts_with p t') \<longleftrightarrow> (\<exists>x t'. t = [x] @ t' \<and> fits c x \<and> starts_with p t')"
    by blast
  then show ?thesis by (simp add: starts_with_Cons)
qed

lemma at_1: "0 \<notin> set re \<Longrightarrow> re \<noteq> [] \<Longrightarrow> (at re 1 = 0 \<longleftrightarrow> tl re = []) \<and> (at re 1 = 42 \<longleftrightarrow> tl re \<noteq> [] \<and> hd (tl re) = 42)"
  by (cases re; cases "tl re") auto

lemma matcher_spec:
  "0 \<notin> set re \<Longrightarrow> matchhere re t = starts_with (items re) t"
  "0 \<notin> set re' \<Longrightarrow> matchstar c re' t' = (\<exists>u v. t' = u @ v \<and> (\<forall>x \<in> set u. fits c x) \<and> starts_with (items re') v)"
proof (induction re t and c re' t' rule: matchhere_matchstar.induct)
  case (1 re line)
  show ?case
  proof (cases re)
    case Nil
    then show ?thesis by (simp add: matchhere.simps starts_with_Nil)
  next
    case (Cons c rs)
    note a = at_1 [OF 1(3)]
    have z: "0 \<notin> set (drop 2 re)" "0 \<notin> set (tl re)" using 1(3) by (auto dest: in_set_dropD simp: Cons)
    show ?thesis
    proof (cases "rs \<noteq> [] \<and> hd rs = 42")
      case True
      then have "at re 1 = 42" using a Cons by simp
      then show ?thesis using 1(1) z True Cons by (simp add: matchhere.simps [of "c # rs"] starts_with_Cons drop_Suc numeral_2_eq_2)
    next
      case star: False
      then have n42: "at re 1 \<noteq> 42" using a Cons by auto
      show ?thesis
      proof (cases "c = 36 \<and> rs = []")
        case True
        then show ?thesis using star n42 a Cons by (simp add: matchhere.simps [of "[36]"] starts_with_Nil)
      next
        case False
        then have n: "\<not> (hd re = 36 \<and> at re 1 = 0)" using a Cons by auto
        have "matchhere re line \<longleftrightarrow> (\<exists>x t. line = x # t \<and> fits c x \<and> matchhere rs t)"
          using n n42 Cons by (cases line) (auto simp: matchhere.simps [of "c # rs"] fits_def)
        also have "\<dots> \<longleftrightarrow> (\<exists>x t. line = x # t \<and> fits c x \<and> starts_with (items rs) t)"
        proof -
          have "matchhere rs t = starts_with (items rs) t" if "line = x # t" "fits c x" for x t
            using 1(2) n n42 Cons that z by (auto simp: fits_def)
          then show ?thesis by blast
        qed
        also have "\<dots> \<longleftrightarrow> starts_with (items re) line" using star False Cons by (auto simp: starts_with_One)
        finally show ?thesis .
      qed
    qed
  qed
next
  case (2 c re line)
  show ?case
  proof (cases "matchhere re line")
    case True
    then have "starts_with (items re) line" using 2(1,3) by simp
    then have "\<exists>u v. line = u @ v \<and> (\<forall>x \<in> set u. fits c x) \<and> starts_with (items re) v" by (intro exI [of _ "[]"] exI [of _ line]) simp
    moreover have "matchstar c re line" using True by (subst matchstar.simps) simp
    ultimately show ?thesis by blast
  next
    case False
    then have no: "\<not> starts_with (items re) line" using 2(1,3) by simp
    show ?thesis
    proof (cases "line \<noteq> [] \<and> (hd line = c \<or> c = 46)")
      case True
      then obtain x t where t: "line = x # t" "fits c x" by (cases line) (auto simp: fits_def)
      have "(\<exists>u v. line = u @ v \<and> (\<forall>x \<in> set u. fits c x) \<and> starts_with (items re) v) \<longleftrightarrow>
          (\<exists>u v. t = u @ v \<and> (\<forall>x \<in> set u. fits c x) \<and> starts_with (items re) v)" (is "?l \<longleftrightarrow> ?r")
      proof
        assume ?l
        then obtain u v where u: "line = u @ v" "\<forall>x \<in> set u. fits c x" "starts_with (items re) v" by blast
        then have "u \<noteq> []" using no by auto
        then show ?r using u t(1) by (cases u) auto
      next
        assume ?r
        then obtain u v where "t = u @ v" "\<forall>x \<in> set u. fits c x" "starts_with (items re) v" by blast
        then have "line = (x # u) @ v" "\<forall>y \<in> set (x # u). fits c y" "starts_with (items re) v" using t by auto
        then show ?l by blast
      qed
      then show ?thesis using 2(2,3) False True t by (subst matchstar.simps) simp
    next
      case stop: False
      have "\<not> starts_with (items re) v" if "line = u @ v" "\<forall>x \<in> set u. fits c x" for u v
        using that stop no by (cases u) (auto simp: fits_def)
      then have "\<not> (\<exists>u v. line = u @ v \<and> (\<forall>x \<in> set u. fits c x) \<and> starts_with (items re) v)" by blast
      moreover have "\<not> matchstar c re line" using False stop by (subst matchstar.simps) auto
      ultimately show ?thesis by blast
    qed
  qed
qed

lemma match_loop_spec: "match_loop re t \<longleftrightarrow> (\<exists>pre post. t = pre @ post \<and> matchhere re post)"
proof (induction t)
  case (Cons c t)
  have "(\<exists>pre post. c # t = pre @ post \<and> matchhere re post) \<longleftrightarrow> matchhere re (c # t) \<or> (\<exists>pre post. t = pre @ post \<and> matchhere re post)"
    by (auto simp: Cons_eq_append_conv)
  then show ?case using Cons by simp
qed simp

lemma match_spec: "0 \<notin> set re \<Longrightarrow> match re t = matches re t"
proof -
  assume z: "0 \<notin> set re"
  then have "0 \<notin> set (tl re)" by (cases re) auto
  moreover have "at re 0 = 94 \<longleftrightarrow> re \<noteq> [] \<and> hd re = 94" by (cases re) auto
  ultimately show ?thesis using z by (simp add: match_def matches_def matcher_spec match_loop_spec)
qed

text \<open>C33. The matcher. \<^verbatim>\<open>match\<close>, with its back-tracking over the star, says yes exactly to the texts of the pattern's meaning: some part of the text is a
  sequence of pieces that match the items of the pattern one by one, where an item is a character or the dot, or either with a
  star for any number of them; \<^verbatim>\<open>^\<close> and \<^verbatim>\<open>$\<close> tie the match to the beginning and the end.\<close>

theorem match_correct:
  assumes "0 \<notin> set re"
  shows "match re text \<longleftrightarrow> matches re text"
  by (rule match_spec [OF assms])

theorem match_correct_witness:
  "match (str ''^a.*c$'') (str ''abbc'') = matches (str ''^a.*c$'') (str ''abbc'') \<and> match (str ''^a.*c$'') (str ''abbc'') \<and>
    \<not> match (str ''^a.*c$'') (str ''xabbc'')"
  using match_correct [of "str ''^a.*c$''" "str ''abbc''"]
  by (simp add: str_def match_def matchhere.simps matchstar.simps)

section \<open>Reading in pieces\<close>

text \<open>Where a file stands: everything that is still to be read.\<close>

lemma uread_Reg:
  assumes "ufile_of fd s = Some (Reg f off)"
  shows "uread fd n s = (let bs = take n (drop off (ucontent f s)) in (int (length bs), bs, set_ufd fd (Some (Reg f (off + length bs))) s))"
  using assms by (simp add: uread_def)

lemma piece_split:
  "drop off t = take n (drop off t) @ drop (off + length (take n (drop off t))) t"
  "take (off + length (take n (drop off t))) t = take off t @ take n (drop off t)"
proof -
  have e: "take (length (take n (drop off t))) (drop off t) = take n (drop off t)" by (simp add: min_def)
  show "drop off t = take n (drop off t) @ drop (off + length (take n (drop off t))) t"
    using append_take_drop_id [of "length (take n (drop off t))" "drop off t"] unfolding e by (simp add: add.commute)
  show "take (off + length (take n (drop off t))) t = take off t @ take n (drop off t)" unfolding take_add e ..
qed

lemma set_ufd_emit: "set_ufd fd f (emit g bs s) = emit g bs (set_ufd fd f s)"
  by (simp add: set_ufd_def emit_def)

lemma ucontent_emit [simp]: "ucontent f (emit g bs s) = ucontent f s"
  by (simp add: ucontent_def)

lemma set_ufd_same: "ufile_of fd s = Some f \<Longrightarrow> set_ufd fd (Some f) s = s"
  by (auto simp: ufile_of_def set_ufd_def list_update_same_conv split: if_splits)

text \<open>A loop whose body folds over the bytes does not see how the input is cut into pieces.\<close>

lemma read_loop_Reg_fold:
  assumes "ufile_of fd s = Some (Reg f off)" "0 \<le> fd" "0 < k" "off \<le> length (ucontent f s)"
  shows "read_loop fd (\<lambda>_. k) (\<lambda>bs a s. Go (fold g bs a) s) a s =
    Some (Go (0, fold g (drop off (ucontent f s)) a) (set_ufd fd (Some (Reg f (length (ucontent f s)))) s))"
  using assms
proof (induction "length (ucontent f s) - off" arbitrary: off a s rule: less_induct)
  case less
  let ?bs = "take k (drop off (ucontent f s))"
  let ?s = "set_ufd fd (Some (Reg f (off + length ?bs))) s"
  show ?case
  proof (cases "off = length (ucontent f s)")
    case True
    then show ?thesis using less.prems by (subst read_loop.simps) (simp add: uread_Reg set_ufd_same)
  next
    case False
    then have "0 < length ?bs" "off < length (ucontent f s)" using less.prems by auto
    moreover have "ufile_of fd ?s = Some (Reg f (off + length ?bs))" using less.prems by simp
    ultimately have "read_loop fd (\<lambda>_. k) (\<lambda>bs a s. Go (fold g bs a) s) (fold g ?bs a) ?s =
        Some (Go (0, fold g (drop (off + length ?bs) (ucontent f s)) (fold g ?bs a)) (set_ufd fd (Some (Reg f (length (ucontent f s)))) s))"
      using less.hyps [of ?s "off + length ?bs" "fold g ?bs a"] less.prems by (simp add: less_diff_conv2)
    moreover have "drop off (ucontent f s) = ?bs @ drop (off + length ?bs) (ucontent f s)" by (rule piece_split)
    then have "fold g (drop (off + length ?bs) (ucontent f s)) (fold g ?bs a) = fold g (drop off (ucontent f s)) a"
      by (metis fold_append comp_apply)
    ultimately show ?thesis using \<open>0 < length ?bs\<close> less.prems by (subst read_loop.simps) (simp add: uread_Reg Let_def)
  qed
qed

lemma read_loop_Stream_fold:
  assumes "ufile_of fd s = Some (Stream (map Some cs))" "0 \<le> fd" "0 < k" "[] \<notin> set cs"
  shows "read_loop fd (\<lambda>_. k) (\<lambda>bs a s. Go (fold g bs a) s) a s =
    Some (Go (0, fold g (concat cs) a) (set_ufd fd (Some (Stream [])) s))"
  using assms
proof (induction "length (concat cs)" arbitrary: cs a s rule: less_induct)
  case less
  show ?case
  proof (cases cs)
    case Nil
    then show ?thesis using less.prems by (subst read_loop.simps) (simp add: uread_def set_ufd_same)
  next
    case (Cons c ds)
    then have c: "c \<noteq> []" using less.prems(4) by auto
    let ?cs = "if length c \<le> k then ds else drop k c # ds"
    let ?s = "set_ufd fd (Some (Stream (map Some ?cs))) s"
    have "read_loop fd (\<lambda>_. k) (\<lambda>bs a s. Go (fold g bs a) s) (fold g (take k c) a) ?s =
        Some (Go (0, fold g (concat ?cs) (fold g (take k c) a)) (set_ufd fd (Some (Stream [])) s))"
      using less.hyps [of ?cs ?s "fold g (take k c) a"] less.prems c Cons by (auto split: if_splits)
    moreover have "fold g (drop k c) (fold g (take k c) a) = fold g c a" by (metis append_take_drop_id fold_append comp_apply)
    then have "fold g (concat ?cs) (fold g (take k c) a) = fold g (concat cs) a" using Cons by simp
    ultimately show ?thesis using less.prems c Cons by (cases "length c \<le> k"; subst read_loop.simps) (simp_all add: uread_def)
  qed
qed

section \<open>Counting\<close>

definition is_space :: "byte \<Rightarrow> bool" where
  "is_space b \<longleftrightarrow> b \<in> {32, 13, 9, 10, 11}"

text \<open>The places where a word begins.\<close>

definition word_starts :: "byte list \<Rightarrow> nat list" where
  "word_starts bs = filter (\<lambda>i. \<not> is_space (bs ! i) \<and> (i = 0 \<or> is_space (bs ! (i - 1)))) [0..<length bs]"

lemma word_starts_snoc:
  "word_starts (bs @ [b]) = word_starts bs @ (if \<not> is_space b \<and> (bs = [] \<or> is_space (last bs)) then [length bs] else [])"
proof -
  have "filter (\<lambda>i. \<not> is_space ((bs @ [b]) ! i) \<and> (i = 0 \<or> is_space ((bs @ [b]) ! (i - 1)))) [0..<length bs] = word_starts bs"
    unfolding word_starts_def by (rule filter_cong) (auto simp: nth_append)
  moreover have "bs \<noteq> [] \<Longrightarrow> (bs @ [b]) ! (length bs - 1) = last bs" by (simp add: nth_append last_conv_nth)
  ultimately show ?thesis by (cases "bs = []") (simp_all add: word_starts_def [of "bs @ [b]"] word_starts_def [of "[b]"])
qed

lemma wc_char_step:
  "wc_char b (l, w, c, i) = (if b = 10 then l + 1 else l, if is_space b \<or> i then w else w + 1, c + 1, \<not> is_space b)"
  by (auto simp: wc_char_def is_space_def Let_def)

lemma wc_fold:
  "fold wc_char bs (0, 0, 0, False) =
    (of_nat (count_list bs 10), of_nat (length (word_starts bs)), of_nat (length bs), bs \<noteq> [] \<and> \<not> is_space (last bs))"
proof (induction bs rule: rev_induct)
  case Nil
  then show ?case by (simp add: word_starts_def)
next
  case (snoc b bs)
  then show ?case by (simp add: wc_char_step word_starts_snoc)
qed

text \<open>C35. Counting. Whether \<^verbatim>\<open>wc\<close> reads a file, or a pipe or the console in pieces of any sizes, it returns and prints the number of newlines, of words and of
  bytes of the whole text, where a word begins at each character that is not white space and has white space or nothing before it; words
  and lines that are cut by the ends of the buffer are counted once.\<close>

theorem wc_correct:
  assumes "ufile_of fd s = Some (Stream (map Some cs)) \<and> [] \<notin> set cs \<and> text = concat cs \<or> ufile_of fd s = Some (Reg f 0) \<and> text = ucontent f s"
    and "is_stream 1 s" "0 \<le> fd"
  shows "\<exists>g. wc fd name s = Some (Go () (emit 1 (printf_chars (\<lambda>p. name)
    (\<lambda>k. [of_nat (count_list text 10), of_nat (length (word_starts text)), of_nat (length text), 1] ! k) False 0 (str ''%d %d %d %s\<newline>''))
    (set_ufd fd (Some g) s)))"
proof -
  have "\<exists>g. read_loop fd (\<lambda>_. 512) (\<lambda>bs cnt s. Go (fold wc_char bs cnt) s) (0, 0, 0, False) s =
      Some (Go (0, fold wc_char text (0, 0, 0, False)) (set_ufd fd (Some g) s)) \<and> (fd = 1 \<longrightarrow> g = Stream [])"
    using assms read_loop_Stream_fold [of fd s cs 512 wc_char "(0, 0, 0, False)"] read_loop_Reg_fold [of fd s f 0 512 wc_char "(0, 0, 0, False)"]
    by (auto simp: is_stream_def)
  then obtain g where g: "read_loop fd (\<lambda>_. 512) (\<lambda>bs cnt s. Go (fold wc_char bs cnt) s) (0, 0, 0, False) s =
      Some (Go (0, fold wc_char text (0, 0, 0, False)) (set_ufd fd (Some g) s))" "fd = 1 \<longrightarrow> g = Stream []" by blast
  have "ufile_of fd s \<noteq> None" using assms(1) by auto
  then have "is_stream 1 (set_ufd fd (Some g) s)" using assms(2) g(2) by (auto simp: is_stream_def)
  then have "wc fd name s = Some (Go () (emit 1 (printf_chars (\<lambda>p. [name] ! (unat p - 1))
    (\<lambda>k. [of_nat (count_list text 10), of_nat (length (word_starts text)), of_nat (length text), 1] ! k) False 0 (str ''%d %d %d %s\<newline>''))
    (set_ufd fd (Some g) s)))" using g(1) by (simp add: wc_def wc_fold)
  then show ?thesis by (intro exI [of _ g]) (simp add: str_def)
qed

theorem wc_correct_witness:
  "\<exists>g. wc 0 [] (set_ufd 0 (Some (Stream [Some (str ''one t''), Some (str ''wo\<newline>'')])) ex_user) = Some (Go () (emit 1 (str ''1 2 8 \<newline>'') (set_ufd 0 (Some g) ex_user)))"
proof -
  let ?cs = "[str ''one t'', str ''wo\<newline>'']"
  let ?s = "set_ufd 0 (Some (Stream (map Some ?cs))) ex_user"
  have f: "ufile_of 0 ?s = Some (Stream (map Some ?cs))" "is_stream 1 ?s"
    using ex_user_streams by (auto simp: is_stream_def)
  have "[] \<notin> set ?cs" by (simp add: str_def)
  then obtain g where "wc 0 [] ?s = Some (Go () (emit 1 (printf_chars (\<lambda>p. [])
    (\<lambda>k. [of_nat (count_list (concat ?cs) 10), of_nat (length (word_starts (concat ?cs))), of_nat (length (concat ?cs)), 1] ! k) False 0 (str ''%d %d %d %s\<newline>''))
    (set_ufd 0 (Some g) ?s)))" using wc_correct [of 0 ?s ?cs "concat ?cs"] f by fastforce
  moreover have "printf_chars (\<lambda>p. [])
    (\<lambda>k. [of_nat (count_list (concat ?cs) 10), of_nat (length (word_starts (concat ?cs))), of_nat (length (concat ?cs)), 1] ! k) False 0 (str ''%d %d %d %s\<newline>'') = str ''1 2 8 \<newline>''"
    by code_simp
  ultimately show ?thesis by auto
qed

section \<open>Lines\<close>

text \<open>The lines of a text that end with a newline, and what follows the last newline.\<close>

function lines_of :: "byte list \<Rightarrow> byte list list" where
  "lines_of t = (if 10 \<in> set t then takeWhile (\<lambda>c. c \<noteq> 10) t # lines_of (tl (dropWhile (\<lambda>c. c \<noteq> 10) t)) else [])"
  by pat_completeness auto
termination
proof (relation "measure length")
  fix t :: "byte list" assume "10 \<in> set t"
  then have "dropWhile (\<lambda>c. c \<noteq> 10) t \<noteq> []" by (auto simp: dropWhile_eq_Nil_conv)
  then have "length (tl (dropWhile (\<lambda>c. c \<noteq> 10) t)) < length (dropWhile (\<lambda>c. c \<noteq> 10) t)" by simp
  then show "(tl (dropWhile (\<lambda>c. c \<noteq> 10) t), t) \<in> measure length"
    using length_dropWhile_le [of "\<lambda>c. c \<noteq> 10" t] by simp
qed simp

declare lines_of.simps [simp del]

definition rest_of :: "byte list \<Rightarrow> byte list" where
  "rest_of t = rev (takeWhile (\<lambda>c. c \<noteq> 10) (rev t))"

lemma lines_of_none [simp]: "10 \<notin> set t \<Longrightarrow> lines_of t = []"
  by (simp add: lines_of.simps)

lemma lines_of_line [simp]: "10 \<notin> set l \<Longrightarrow> lines_of (l @ 10 # t) = l # lines_of t"
proof -
  assume l: "10 \<notin> set l"
  then have "takeWhile (\<lambda>c. c \<noteq> 10) (l @ 10 # t) = l" "dropWhile (\<lambda>c. c \<noteq> 10) (l @ 10 # t) = 10 # t"
    by (induction l) auto
  then show ?thesis by (subst lines_of.simps) simp
qed

lemma rest_of_none [simp]: "10 \<notin> set t \<Longrightarrow> rest_of t = t"
proof -
  assume "10 \<notin> set t"
  then have "takeWhile (\<lambda>c. c \<noteq> 10) (rev t) = rev t" unfolding takeWhile_eq_all_conv by auto
  then show ?thesis by (simp only: rest_of_def rev_rev_ident)
qed

lemma rest_of_line [simp]: "rest_of (l @ 10 # t) = rest_of t"
proof -
  have "takeWhile (\<lambda>c. c \<noteq> 10) (rev t @ 10 # rev l) = takeWhile (\<lambda>c. c \<noteq> 10) (rev t)"
    by (rule takeWhile_tail) simp
  then show ?thesis by (simp add: rest_of_def)
qed

text \<open>Induction over the lines of a text.\<close>

lemma lines_induct [case_names rest line]:
  assumes "\<And>t. 10 \<notin> set t \<Longrightarrow> P t" "\<And>l t. 10 \<notin> set l \<Longrightarrow> P t \<Longrightarrow> P (l @ 10 # t)"
  shows "P t"
proof (induction t rule: measure_induct_rule [of length])
  case (less t)
  show ?case
  proof (cases "10 \<in> set t")
    case True
    then obtain l r where "t = l @ 10 # r" "10 \<notin> set l" by (meson split_list_first)
    then show ?thesis using assms(2) less by simp
  qed (rule assms(1))
qed

lemma lines_append: "lines_of (a @ b) = lines_of a @ lines_of (rest_of a @ b)"
proof (induction a rule: lines_induct)
  case (rest t)
  then show ?case by simp
next
  case (line l t)
  then show ?case using lines_of_line [of l "t @ b"] by simp
qed

lemma rest_append: "rest_of (a @ b) = rest_of (rest_of a @ b)"
proof (induction a rule: lines_induct)
  case (line l t)
  then show ?case using rest_of_line [of l "t @ b"] by simp
qed simp

lemma rest_suffix: "\<exists>p. t = p @ rest_of t"
proof (induction t rule: lines_induct)
  case (line l t)
  then obtain p where "t = p @ rest_of t" by blast
  then have "l @ 10 # t = (l @ 10 # p) @ rest_of (l @ 10 # t)" by simp
  then show ?case by blast
qed simp

lemma rest_shorter: "10 \<in> set t \<Longrightarrow> length (rest_of t) < length t"
proof (induction t rule: lines_induct)
  case (line l t)
  then show ?case by (cases "10 \<in> set t") (simp_all add: trans_less_add2 less_Suc_eq)
qed simp

lemma rest_no_newline: "10 \<notin> set (rest_of t)"
  by (induction t rule: lines_induct) simp_all

lemma kept_suffix: "\<exists>p. pre @ t = p @ (if 10 \<in> set t then rest_of t else [])"
proof -
  obtain q where "t = q @ rest_of t" using rest_suffix by blast
  then have "pre @ t = (pre @ q) @ rest_of t" by simp
  then have "\<exists>p. pre @ t = p @ rest_of t" by blast
  then show ?thesis by (cases "10 \<in> set t") simp_all
qed

text \<open>What \<^verbatim>\<open>grep\<close> should print of a text.\<close>

definition selected :: "byte list \<Rightarrow> byte list \<Rightarrow> byte list" where
  "selected re t = concat (map (\<lambda>l. l @ [10]) (filter (match re) (lines_of t)))"

lemma selected_append: "selected re (a @ b) = selected re a @ selected re (rest_of a @ b)"
  by (simp add: selected_def lines_append [of a b])

lemma strchr_line: "10 \<notin> set l \<Longrightarrow> ustrchr (l @ 10 # t) 10 = Some (10 # t)" "10 \<notin> set t \<Longrightarrow> ustrchr t 10 = None"
  by (induction l, auto) (induction t, auto)

lemma cstring_id: "0 \<notin> set t \<Longrightarrow> cstring t = t"
  unfolding cstring_def takeWhile_eq_all_conv by auto

lemma grep_lines_spec:
  "0 \<notin> set p \<Longrightarrow> is_stream 1 s \<Longrightarrow> grep_lines re p s = (rest_of p, emit 1 (selected re p) s)"
proof (induction p arbitrary: s rule: lines_induct)
  case (rest t)
  then show ?case by (subst grep_lines.simps) (simp add: cstring_id strchr_line selected_def)
next
  case (line l t)
  then show ?case by (subst grep_lines.simps) (simp add: cstring_id strchr_line selected_def)
qed

lemma grep_body_spec:
  assumes "0 \<notin> set (kept @ bs)" "is_stream 1 s"
  shows "grep_body re bs kept s = Go (if 10 \<in> set (kept @ bs) then rest_of (kept @ bs) else []) (emit 1 (selected re (kept @ bs)) s)"
proof -
  have "length (rest_of (kept @ bs)) = length (kept @ bs) \<longleftrightarrow> 10 \<notin> set (kept @ bs)"
    using rest_shorter [of "kept @ bs"] rest_of_none [of "kept @ bs"] by (metis less_irrefl)
  then show ?thesis unfolding grep_body_def grep_lines_spec [OF assms] by simp
qed

text \<open>No line, the last one included, is as long as the buffer.\<close>

definition short_lines :: "byte list \<Rightarrow> bool" where
  "short_lines t \<longleftrightarrow> (\<forall>pre mid post. t = pre @ mid @ post \<and> 10 \<notin> set mid \<longrightarrow> length mid < 1023)"

lemma grep_loop_spec:
  assumes "ufile_of fd s = Some (Reg f off)" "0 \<le> fd" "off \<le> length (ucontent f s)" "is_stream 1 s" "0 \<notin> set (ucontent f s)" "short_lines (ucontent f s)"
    and "take off (ucontent f s) = pre @ kept" "10 \<notin> set kept"
  shows "\<exists>r. read_loop fd (\<lambda>kept. 1024 - length kept - 1) (grep_body re) kept s =
    Some (Go (0, r) (emit 1 (selected re (kept @ drop off (ucontent f s))) (set_ufd fd (Some (Reg f (length (ucontent f s)))) s)))"
  using assms
proof (induction "length (ucontent f s) - off" arbitrary: off kept pre s rule: less_induct)
  case less
  let ?t = "ucontent f s"
  let ?bs = "take (1024 - length kept - 1) (drop off ?t)"
  have all: "?t = pre @ kept @ drop off ?t" using less.prems(7) append_take_drop_id [of off ?t] by simp
  have short: "length kept < 1023" using less.prems(6,8) all unfolding short_lines_def by blast
  show ?case
  proof (cases "off = length ?t")
    case True
    then show ?thesis using less.prems short
      by (subst read_loop.simps) (simp add: uread_Reg set_ufd_same selected_def)
  next
    case False
    then have ne: "?bs \<noteq> []" "0 < length ?bs" using less.prems(3) short by auto
    let ?s = "set_ufd fd (Some (Reg f (off + length ?bs))) s"
    let ?k = "if 10 \<in> set (kept @ ?bs) then rest_of (kept @ ?bs) else []"
    let ?u = "emit 1 (selected re (kept @ ?bs)) ?s"
    have split: "drop off ?t = ?bs @ drop (off + length ?bs) ?t" by (rule piece_split)
    have fd1: "fd \<noteq> 1" using less.prems(1,4) by (auto simp: is_stream_def)
    have str1: "is_stream 1 ?s" using less.prems(1,4) fd1 by (auto simp: is_stream_def)
    have z: "0 \<notin> set (kept @ ?bs)" using less.prems(5) all split by (metis Un_iff set_append)
    have tk: "take (off + length ?bs) ?t = pre @ kept @ ?bs" unfolding piece_split(2) less.prems(7) by simp
    have sel: "selected re (kept @ drop off ?t) = selected re (kept @ ?bs) @ selected re (?k @ drop (off + length ?bs) ?t)"
    proof (cases "10 \<in> set (kept @ ?bs)")
      case True
      then show ?thesis using selected_append [of re "kept @ ?bs" "drop (off + length ?bs) ?t"] split by simp
    next
      case False
      have "length (kept @ ?bs) < 1023" using less.prems(6) all split False unfolding short_lines_def by (metis append_assoc)
      then have "length ?bs < 1024 - length kept - 1" by simp
      then have "drop (off + length ?bs) ?t = []" by simp
      then show ?thesis using False split by (simp add: selected_def)
    qed
    obtain p where p: "take (off + length ?bs) ?t = p @ ?k" using kept_suffix [of pre "kept @ ?bs"] unfolding tk by blast
    have "\<exists>r. read_loop fd (\<lambda>kept. 1024 - length kept - 1) (grep_body re) ?k ?u =
        Some (Go (0, r) (emit 1 (selected re (?k @ drop (off + length ?bs) ?t)) (set_ufd fd (Some (Reg f (length ?t))) ?u)))"
      using less.hyps [of ?u "off + length ?bs" p ?k] less.prems ne str1 p False rest_no_newline [of "kept @ ?bs"]
      by (simp add: less_diff_conv2)
    then obtain r where r: "read_loop fd (\<lambda>kept. 1024 - length kept - 1) (grep_body re) ?k ?u =
        Some (Go (0, r) (emit 1 (selected re (?k @ drop (off + length ?bs) ?t)) (set_ufd fd (Some (Reg f (length ?t))) ?u)))" by blast
    have "read_loop fd (\<lambda>kept. 1024 - length kept - 1) (grep_body re) kept s = read_loop fd (\<lambda>kept. 1024 - length kept - 1) (grep_body re) ?k ?u"
      using less.prems(1) ne(2) grep_body_spec [OF z str1, of re] by (subst read_loop.simps) (simp add: uread_Reg Let_def)
    then show ?thesis using r sel by (simp add: set_ufd_emit)
  qed
qed

text \<open>C34. Searching a file. On a file without zero bytes whose lines all fit into the buffer, \<^verbatim>\<open>grep\<close> returns and prints exactly the
  lines that the pattern matches, each with its newline and in order; lines that are cut by the ends of the buffer are put together again. A
  last line without a newline is not looked at.\<close>

theorem grep_correct:
  assumes "ufile_of fd s = Some (Reg f 0)" "0 \<le> fd" "is_stream 1 s" "0 \<notin> set (ucontent f s)" "0 \<notin> set re" "short_lines (ucontent f s)"
  shows "\<exists>r. grep re fd s =
    Some (Go (0, r) (emit 1 (concat (map (\<lambda>l. l @ [10]) (filter (matches re) (lines_of (ucontent f s)))))
      (set_ufd fd (Some (Reg f (length (ucontent f s)))) s)))"
proof -
  have "match re = matches re" using match_spec [OF assms(5)] by (simp add: fun_eq_iff)
  then show ?thesis using grep_loop_spec [of fd s f 0 "[]" "[]" re] assms by (simp add: grep_def selected_def)
qed

lemma short_linesI: "length t < 1023 \<Longrightarrow> short_lines t"
  by (auto simp: short_lines_def)

definition ex_text :: ust where
  "ex_text = ex_user\<lparr>ufd := (ufd ex_user)[3 := Some (Reg (str ''f'') 0)], ufiles := [str ''f'' \<mapsto> str ''abc\<newline>xyz\<newline>ob'']\<rparr>"

lemma ex_text_facts: "ufile_of 3 ex_text = Some (Reg (str ''f'') 0)" "is_stream 1 ex_text" "ucontent (str ''f'') ex_text = str ''abc\<newline>xyz\<newline>ob''"
  by (simp_all add: ex_text_def ex_user_def ufile_of_def is_stream_def ucontent_def nth_append nth_Cons')

theorem grep_correct_witness: "\<exists>s. grep (str ''b'') 3 ex_text = Some s \<and> (\<exists>r u. s = Go (0, r) (emit 1 (str ''abc\<newline>'') u))"
proof -
  let ?t = "str ''abc\<newline>xyz\<newline>ob''" and ?re = "str ''b''"
  have h: "0 \<notin> set ?t" "0 \<notin> set ?re" "short_lines ?t" by (simp_all add: str_def short_linesI)
  have "lines_of ?t = [str ''abc'', str ''xyz'']" by code_simp
  moreover have "matches ?re (str ''abc'')" "\<not> matches ?re (str ''xyz'')"
    unfolding match_spec [OF h(2), symmetric] by (simp_all add: str_def match_def matchhere.simps)
  ultimately have "concat (map (\<lambda>l. l @ [10]) (filter (matches ?re) (lines_of ?t))) = str ''abc\<newline>''" by (simp add: str_def)
  then show ?thesis using grep_correct [OF ex_text_facts(1) _ ex_text_facts(2), of ?re] h unfolding ex_text_facts(3) by auto
qed

section \<open>Two defects\<close>

text \<open>A line that arrives in two pieces, as it may from a pipe, is lost: when a piece holds no newline, \<^verbatim>\<open>grep\<close> forgets it although there is room in
  the buffer.\<close>

lemma grep_loses_split_line:
  "\<exists>u. grep (str ''abc'') 0 (set_ufd 0 (Some (Stream [Some (str ''ab''), Some (str ''c\<newline>'')])) ex_user) = Some (Go (0, []) u) \<and> uout u = []"
  "lines_of (str ''ab'' @ str ''c\<newline>'') = [str ''abc'']" "match (str ''abc'') (str ''abc'')"
proof -
  show "lines_of (str ''ab'' @ str ''c\<newline>'') = [str ''abc'']" by code_simp
  show "match (str ''abc'') (str ''abc'')" by (simp add: str_def match_def matchhere.simps)
  let ?s = "set_ufd 0 (Some (Stream [Some (str ''ab''), Some (str ''c\<newline>'')])) ex_user"
  have f: "ufile_of 0 ex_user \<noteq> None" using ex_user_streams(1) by (auto simp: is_stream_def)
  have st: "is_stream 1 (set_ufd 0 g ex_user)" for g using ex_user_streams f by (auto simp: is_stream_def)
  have b: "grep_body (str ''abc'') (str ''ab'') [] (set_ufd 0 g ex_user) = Go [] (set_ufd 0 g ex_user)" for g
    using grep_body_spec [of "[]" "str ''ab''" "set_ufd 0 g ex_user"] st by (simp add: str_def selected_def)
  have "lines_of (str ''c\<newline>'') = [str ''c'']" "rest_of (str ''c\<newline>'') = []" by code_simp+
  then have c: "grep_body (str ''abc'') (str ''c\<newline>'') [] (set_ufd 0 g ex_user) = Go [] (set_ufd 0 g ex_user)" for g
    using grep_body_spec [of "[]" "str ''c\<newline>''" "set_ufd 0 g ex_user"] st
    by (simp add: selected_def) (simp add: str_def match_def matchhere.simps)
  show "\<exists>u. grep (str ''abc'') 0 ?s = Some (Go (0, []) u) \<and> uout u = []"
    unfolding grep_def using f b c
    by (subst read_loop.simps, simp add: uread_def str_def, subst read_loop.simps, simp add: uread_def str_def, subst read_loop.simps)
      (simp add: uread_def ex_user_def)
qed

text \<open>When \<^verbatim>\<open>linebuf\<close> is full, \<^verbatim>\<open>cat_json\<close> prints it and drops the character that did not fit.\<close>

lemma cat_json_drops:
  "length line = 1023 \<Longrightarrow> c \<noteq> 10 \<Longrightarrow> fold (cat_json_char source) [c, d] (line, s) = cat_json_char source d ([], emit_line source (cstring line) s)"
  by (simp add: cat_json_char_def)

end
