(* ===== verification/Ted.thy ===== *)
theory Ted
  imports User_Lib
begin

text \<open>
  The line editor (\<^verbatim>\<open>user/bin/ted.c\<close>, which calls itself \<^verbatim>\<open>hello-edit\<close>): an array of numbered lines kept in order, and the
  commands on it. Numbers are C integers, computed modulo \<open>2 ^ 32\<close> where the code adds and multiplies.
\<close>

section \<open>State\<close>

abbreviation (input) MAX_LINES :: nat where "MAX_LINES \<equiv> 512"
abbreviation (input) MAX_COLS :: nat where "MAX_COLS \<equiv> 160"
abbreviation (input) MAX_FILE :: nat where "MAX_FILE \<equiv> 128"

record tline =
  ln_number :: int
  ln_text :: "byte list"

record ted =
  t_buffer :: "tline list"
  t_count :: nat
  t_dirty :: bool
  t_file :: "byte list"
  t_json :: bool

section \<open>Strings\<close>

text \<open>\<^verbatim>\<open>editor_copy\<close> leaves at most \<^verbatim>\<open>max - 1\<close> characters in the destination.\<close>

definition editor_copy :: "byte list \<Rightarrow> nat \<Rightarrow> byte list" where
  "editor_copy src mx = take (mx - 1) src"

definition ted_skipws :: "byte list \<Rightarrow> byte list" where
  "ted_skipws s = dropWhile (\<lambda>c. c = 32 \<or> c = 9) s"

definition ted_trim :: "byte list \<Rightarrow> byte list" where
  "ted_trim s = rev (dropWhile (\<lambda>c. c = 10 \<or> c = 13 \<or> c = 32 \<or> c = 9) (rev s))"

definition begin_with_digit :: "byte list \<Rightarrow> bool" where
  "begin_with_digit s \<longleftrightarrow> is_digit (at s 0)"

text \<open>The number, whether there was a digit, and the rest of the string.\<close>

fun parse_int_loop :: "u32 \<Rightarrow> bool \<Rightarrow> byte list \<Rightarrow> u32 \<times> bool \<times> byte list" where
  "parse_int_loop n any [] = (n, any, [])"
| "parse_int_loop n any (c # s) =
     (if is_digit c then parse_int_loop (n * 10 + ucast c - 48) True s else (n, any, c # s))"

definition parse_int_token :: "byte list \<Rightarrow> int \<times> bool \<times> byte list" where
  "parse_int_token s = (case parse_int_loop 0 False s of (n, any, s) \<Rightarrow> (sint n, any, s))"

definition to_upper :: "byte list \<Rightarrow> nat \<Rightarrow> byte list" where
  "to_upper src mx =
     map (\<lambda>c. if 97 \<le> c \<and> c \<le> 122 then c - 32 else c) (take (mx - 1) (takeWhile (\<lambda>c. c \<noteq> 32 \<and> c \<noteq> 9) src))"

definition command_is :: "byte list \<Rightarrow> string \<Rightarrow> bool" where
  "command_is cmd word \<longleftrightarrow> ustrcmp cmd (str word) = 0"

section \<open>Messages\<close>

definition editor_prompt :: "ted \<Rightarrow> ust \<Rightarrow> ust" where
  "editor_prompt t s =
     (if t_json t then
        struct_end
          (struct_field_int (str ''dirty'') (if t_dirty t then 1 else 0)
          (struct_field_int (str ''lines'') (of_nat (t_count t))
          (struct_field_str (str ''file'') (t_file t)
          (struct_field_str (str ''prompt'') (str ''hello-edit'') (struct_begin 1 s)))))
      else
        printf 1 (str ''edit(%s%s) > '') [if t_file t \<noteq> [] then t_file t else str ''(new)'', if t_dirty t then [42] else []] [1, 2] s)"

definition emit_status :: "byte list \<Rightarrow> byte list \<Rightarrow> ted \<Rightarrow> ust \<Rightarrow> ust" where
  "emit_status event detail t s =
     modern_emit_status (str ''hello-edit'') (Some event) (Some detail) (t_json t) (Some (if t_dirty t then str ''dirty'' else str ''clean'')) s"

definition emit_error :: "byte list \<Rightarrow> ted \<Rightarrow> ust \<Rightarrow> ust" where
  "emit_error msg t s =
     (if t_json t then modern_emit_status (str ''hello-edit'') (Some (str ''error'')) (Some msg) True (Some (str ''error'')) s
      else printf 1 (str ''hello-edit: %s\<newline>'') [msg] [1] s)"

definition print_help :: "ust \<Rightarrow> ust" where
  "print_help s =
     fold (\<lambda>m. printf 1 m [] [])
       [str ''hello-edit BASIC-style usage:\<newline>'',
        str ''  <num> text   set a line (empty text deletes)\<newline>'',
        str ''  LIST [a [b]] list program lines\<newline>'',
        str ''  DELETE n     delete line n\<newline>'',
        str ''  NEW          clear buffer\<newline>'',
        str ''  OPEN file    load file (line numbers optional)\<newline>'',
        str ''  WRITE [file] save program\<newline>'',
        str ''  HELP         this text\<newline>'',
        str ''  Q or Q!      quit (Q! ignores unsaved edits)\<newline>''] s"

section \<open>The buffer\<close>

definition list_lines :: "int \<Rightarrow> int \<Rightarrow> ted \<Rightarrow> ust \<Rightarrow> ust" where
  "list_lines start stop t s =
     (if t_count t = 0 then printf 1 (str ''(empty)\<newline>'') [] [] s
      else
        fold (\<lambda>i s.
          let number = ln_number (t_buffer t ! i) in
          if start \<ge> 0 \<and> number < start then s
          else if stop \<ge> 0 \<and> number > stop then s
          else printf 1 (str ''%d %s\<newline>'') [ln_text (t_buffer t ! i)] [of_int number, 1] s) [0..<t_count t] s)"

text \<open>The loop of \<^verbatim>\<open>find_insert_index\<close> from \<open>i\<close> on, with \<open>k\<close> lines left.\<close>

fun find_index_loop :: "nat \<Rightarrow> nat \<Rightarrow> int \<Rightarrow> tline list \<Rightarrow> nat" where
  "find_index_loop 0 i number b = i"
| "find_index_loop (Suc k) i number b = (if ln_number (b ! i) < number then find_index_loop k (i + 1) number b else i)"

definition find_insert_index :: "int \<Rightarrow> ted \<Rightarrow> nat" where
  "find_insert_index number t = find_index_loop (t_count t) 0 number (t_buffer t)"

definition shift_up :: "nat \<Rightarrow> nat \<Rightarrow> tline list \<Rightarrow> tline list" where
  "shift_up idx n b = fold (\<lambda>i b. b[i := b ! (i - 1)]) (rev [idx + 1..<n + 1]) b"

definition shift_down :: "nat \<Rightarrow> nat \<Rightarrow> tline list \<Rightarrow> tline list" where
  "shift_down idx n b = fold (\<lambda>i b. b[i := b ! (i + 1)]) [idx..<n - 1] b"

definition upsert_line :: "int \<Rightarrow> byte list \<Rightarrow> bool \<Rightarrow> ted \<Rightarrow> ust \<Rightarrow> ted \<times> ust" where
  "upsert_line number txt mark_dirty t s =
     (if t_count t \<ge> MAX_LINES then (t, emit_error (str ''buffer full'') t s)
      else
        (let idx = find_insert_index number t;
             b = t_buffer t;
             t = (if idx < t_count t \<and> ln_number (b ! idx) = number
                  then t\<lparr>t_buffer := b[idx := (b ! idx)\<lparr>ln_text := editor_copy txt MAX_COLS\<rparr>]\<rparr>
                  else t\<lparr>t_buffer := (shift_up idx (t_count t) b)[idx := \<lparr>ln_number = number, ln_text = editor_copy txt MAX_COLS\<rparr>],
                         t_count := t_count t + 1\<rparr>)
         in (if mark_dirty then t\<lparr>t_dirty := True\<rparr> else t, s)))"

definition delete_line_number :: "int \<Rightarrow> bool \<Rightarrow> ted \<Rightarrow> ted" where
  "delete_line_number number mark_dirty t =
     (let idx = find_insert_index number t in
      if idx \<ge> t_count t \<or> ln_number (t_buffer t ! idx) \<noteq> number then t
      else
        (let t = t\<lparr>t_buffer := shift_down idx (t_count t) (t_buffer t), t_count := t_count t - 1\<rparr>
         in if mark_dirty then t\<lparr>t_dirty := True\<rparr> else t))"

definition set_filename :: "byte list \<Rightarrow> ted \<Rightarrow> ted" where
  "set_filename name t = t\<lparr>t_file := editor_copy name MAX_FILE\<rparr>"

definition clear_buffer :: "ted \<Rightarrow> ted" where
  "clear_buffer t = t\<lparr>t_count := 0, t_dirty := False\<rparr>"

section \<open>Files\<close>

text \<open>The digits that \<^verbatim>\<open>save_file\<close> collects in \<^verbatim>\<open>tmp\<close>, which has room for \<open>k\<close> more.\<close>

fun save_digits :: "nat \<Rightarrow> int \<Rightarrow> byte list" where
  "save_digits 0 n = []"
| "save_digits (Suc k) n = (if n > 0 then of_int (48 + n mod 10) # save_digits k (n div 10) else [])"

definition save_number :: "int \<Rightarrow> byte list" where
  "save_number n = rev (if n = 0 then [48] else save_digits 16 n) @ [32]"

definition save_line :: "int \<Rightarrow> tline \<Rightarrow> ust \<Rightarrow> ust" where
  "save_line fd l s = putb fd [10] (putb fd (ln_text l) (putb fd (save_number (ln_number l)) s))"

definition save_file :: "byte list \<Rightarrow> ted \<Rightarrow> ust \<Rightarrow> ted \<times> ust" where
  "save_file name t s =
     (case uopen name True s of (fd, s) \<Rightarrow>
        if fd < 0 then (t, emit_error (str ''cannot write file'') t s)
        else
          (let s = uclose fd (fold (\<lambda>i. save_line fd (t_buffer t ! i)) [0..<t_count t] s);
               t = set_filename name (t\<lparr>t_dirty := False\<rparr>)
           in (t, emit_status (str ''write'') name t s)))"

text \<open>A line of the file: \<open>cs\<close> is what \<^verbatim>\<open>linebuf\<close> holds. The new \<^verbatim>\<open>last\<close> is part of the result.\<close>

definition load_line :: "byte list \<Rightarrow> int \<Rightarrow> ted \<Rightarrow> ust \<Rightarrow> int \<times> ted \<times> ust" where
  "load_line cs prev t s =
     (case parse_int_token (cstring cs) of (number, ok, rest) \<Rightarrow>
        (let line = (if ok then ted_skipws rest else cstring cs);
             prev = (if ok then prev else wrap32 (prev + 10));
             number = (if ok then number else prev);
             prev = (if number > prev then number else prev)
         in (prev, upsert_line number line False t s)))"

definition load_char :: "byte \<Rightarrow> byte list \<times> int \<times> ted \<Rightarrow> ust \<Rightarrow> (byte list \<times> int \<times> ted) \<times> ust" where
  "load_char c st s =
     (case st of (cs, prev, t) \<Rightarrow>
        if c = 13 then (st, s)
        else if c = 10 then (case load_line cs prev t s of (prev, t, s) \<Rightarrow> (([], prev, t), s))
        else if length cs < MAX_COLS - 1 then ((cs @ [c], prev, t), s)
        else (st, s))"

definition load_body :: "byte list \<Rightarrow> byte list \<times> int \<times> ted \<Rightarrow> ust \<Rightarrow> (byte list \<times> int \<times> ted) flow" where
  "load_body bs st s = (case load_char (hd bs) st s of (st, s) \<Rightarrow> Go st s)"

text \<open>What follows the loop: a last line without a newline.\<close>

definition load_last :: "byte list \<Rightarrow> int \<Rightarrow> ted \<Rightarrow> ust \<Rightarrow> ted \<times> ust" where
  "load_last cs prev t s =
     (if cs = [] then (t, s)
      else
        (case parse_int_token (cstring cs) of (number, ok, rest) \<Rightarrow>
           upsert_line (if ok then number else wrap32 (prev + 10)) (if ok then ted_skipws rest else cstring cs) False t s))"

definition load_file :: "byte list \<Rightarrow> ted \<Rightarrow> ust \<Rightarrow> (ted \<times> ust) option" where
  "load_file name t s =
     (case uopen name False s of (fd, s) \<Rightarrow>
        let t = clear_buffer t in
        if fd < 0 then
          (let s = printf 1 (str ''hello-edit: new file %s\<newline>'') [name] [1] s; t = set_filename name t
           in Some (t, emit_status (str ''open'') name t s))
        else
          (case read_loop fd (\<lambda>_. 1) load_body ([], 0, t) s of
             None \<Rightarrow> None
           | Some (Exited s) \<Rightarrow> Some (t, s)
           | Some (Go (n, cs, prev, t) s) \<Rightarrow>
               (case load_last cs prev t s of (t, s) \<Rightarrow>
                  let s = uclose fd s; t = set_filename name (t\<lparr>t_dirty := False\<rparr>)
                  in Some (t, emit_status (str ''open'') name t s))))"

section \<open>Commands\<close>

definition handle_line_input :: "byte list \<Rightarrow> ted \<Rightarrow> ust \<Rightarrow> ted \<times> ust" where
  "handle_line_input l t s =
     (case parse_int_token l of (number, ok, rest) \<Rightarrow>
        if \<not> ok \<or> number \<le> 0 then (t, emit_error (str ''invalid line number'') t s)
        else
          (let txt = ted_skipws rest
           in if txt = [] then (delete_line_number number True t, s) else upsert_line number txt True t s))"

definition list_command :: "byte list \<Rightarrow> ted \<Rightarrow> ust \<Rightarrow> ust" where
  "list_command args t s =
     (if args = [] then list_lines (-1) (-1) t s
      else
        (case parse_int_token args of (start, ok, args) \<Rightarrow>
           if \<not> ok then emit_error (str ''invalid start line'') t s
           else
             (let args = ted_skipws args in
              if args = [] then list_lines start start t s
              else
                (case parse_int_token args of (stop, ok, args) \<Rightarrow>
                   if \<not> ok then emit_error (str ''invalid end line'') t s else list_lines start stop t s))))"

definition handle_command :: "byte list \<Rightarrow> ted \<Rightarrow> ust \<Rightarrow> (ted \<times> ust) option" where
  "handle_command l t s =
     (let cmd = to_upper l 16;
          args = ted_skipws (dropWhile (\<lambda>c. c \<noteq> 32 \<and> c \<noteq> 9) l)
      in if command_is cmd ''HELP'' \<or> command_is cmd ''H'' then Some (t, print_help s)
         else if command_is cmd ''LIST'' \<or> command_is cmd ''L'' then Some (t, list_command args t s)
         else if command_is cmd ''DELETE'' \<or> command_is cmd ''D'' then
           (case parse_int_token args of (number, ok, rest) \<Rightarrow>
              if \<not> ok then Some (t, emit_error (str ''usage: DELETE <line>'') t s)
              else Some (delete_line_number number True t, s))
         else if command_is cmd ''NEW'' then
           (let t = clear_buffer t in Some (t, emit_status (str ''new'') (str ''buffer'') t s))
         else if command_is cmd ''OPEN'' \<or> command_is cmd ''O'' then
           if args = [] then Some (t, emit_error (str ''usage: OPEN <file>'') t s) else load_file args t s
         else if command_is cmd ''WRITE'' \<or> command_is cmd ''W'' \<or> command_is cmd ''SAVE'' then
           (let name = (if args \<noteq> [] then args else t_file t) in
            if name = [] then Some (t, emit_error (str ''no filename'') t s) else Some (save_file name t s))
         else Some (t, emit_error (str ''unknown command (type HELP)'') t s))"

text \<open>The loop of \<^verbatim>\<open>main\<close>; \<^verbatim>\<open>gets\<close> never returns the null pointer, so only the quit commands leave it.\<close>

partial_function (option) ted_loop :: "ted \<Rightarrow> ust \<Rightarrow> (ted \<times> ust) option" where
  "ted_loop t s =
     (case gets 256 (editor_prompt t s) of (buf, s) \<Rightarrow>
        let line = ted_skipws (ted_trim (cstring buf)) in
        if line = [] then ted_loop t s
        else if begin_with_digit line then (case handle_line_input line t s of (t, s) \<Rightarrow> ted_loop t s)
        else if line = str ''q!'' then Some (t, emit_status (str ''quit'') (str ''forced'') t s)
        else if line = str ''q'' \<or> line = str ''Q'' then
          if t_dirty t then ted_loop t (emit_error (str ''buffer modified (use Q!)'') t s)
          else Some (t, emit_status (str ''quit'') (str ''clean'') t s)
        else (case handle_command line t s of None \<Rightarrow> None | Some (t, s) \<Rightarrow> ted_loop t s))"

definition ted_start :: ted where
  "ted_start = \<lparr>t_buffer = replicate MAX_LINES \<lparr>ln_number = 0, ln_text = []\<rparr>, t_count = 0, t_dirty = False, t_file = [], t_json = False\<rparr>"

definition ted_main :: "byte list list \<Rightarrow> ust \<Rightarrow> ust option" where
  "ted_main argv s =
     (case modern_consume_flags (str ''hello-edit'') argv True s of
        Exited s \<Rightarrow> Some s
      | Go (argi, json) s \<Rightarrow>
          (let t = ted_start\<lparr>t_json := json\<rparr>;
               t = (if argi < length argv then set_filename (argv ! argi) t else t)
           in case (if t_file t \<noteq> [] then load_file (t_file t) t s else Some (t, s)) of
                None \<Rightarrow> None
              | Some (t, s) \<Rightarrow> map_option snd (ted_loop t s)))"

end
