(* ===== verification/Ted_Properties.thy ===== *)
theory Ted_Properties
  imports Ted Text_Properties
begin

text \<open>
  The editor's array of lines as a finite map from numbers to texts, and what survives saving and loading.
\<close>

section \<open>Shifting\<close>

lemma length_shift [simp]: "length (shift_up i n b) = length b" "length (shift_down i n b) = length b"
proof -
  have "length (fold (\<lambda>i b. b[i := f b i]) is b) = length b" for f :: "tline list \<Rightarrow> nat \<Rightarrow> tline" and "is" and b :: "tline list"
    by (induction "is" arbitrary: b) simp_all
  then show "length (shift_up i n b) = length b" "length (shift_down i n b) = length b" by (simp_all add: shift_up_def shift_down_def)
qed

lemma nth_shift_up:
  "n < length b \<Longrightarrow> idx \<le> n \<Longrightarrow> j < length b \<Longrightarrow> shift_up idx n b ! j = (if idx < j \<and> j \<le> n then b ! (j - 1) else b ! j)"
proof (induction n arbitrary: b)
  case 0
  then show ?case by (simp add: shift_up_def)
next
  case (Suc n)
  show ?case
  proof (cases "idx = Suc n")
    case True
    then show ?thesis by (auto simp: shift_up_def)
  next
    case False
    then have "shift_up idx (Suc n) b = shift_up idx n (b[Suc n := b ! n])" using Suc.prems by (simp add: shift_up_def)
    moreover have "j - 1 \<noteq> Suc n" if "idx < j" "j \<le> n" using that by simp
    ultimately show ?thesis using Suc.IH [of "b[Suc n := b ! n]"] Suc.prems False by (auto simp: nth_list_update)
  qed
qed

lemma nth_shift_down:
  "n \<le> length b \<Longrightarrow> idx < n \<Longrightarrow> j < length b \<Longrightarrow> shift_down idx n b ! j = (if idx \<le> j \<and> j < n - 1 then b ! (j + 1) else b ! j)"
proof (induction n arbitrary: j)
  case (Suc n)
  show ?case
  proof (cases "idx = n")
    case True
    then show ?thesis by (auto simp: shift_down_def)
  next
    case False
    then obtain m where m: "n = Suc m" "idx \<le> m" using Suc.prems by (cases n) auto
    have "shift_down idx (Suc n) b = (shift_down idx n b)[m := shift_down idx n b ! (m + 1)]" using m by (simp add: shift_down_def)
    then show ?thesis using Suc.IH [of j] Suc.IH [of "m + 1"] Suc.prems m by (auto simp: nth_list_update)
  qed
qed simp

lemma find_index_spec:
  "i + k \<le> length b \<Longrightarrow> find_index_loop k i n b = i + length (takeWhile (\<lambda>l. ln_number l < n) (take k (drop i b)))"
proof (induction k arbitrary: i)
  case (Suc k)
  then have "drop i b = b ! i # drop (Suc i) b" by (simp add: Cons_nth_drop_Suc)
  then show ?case using Suc by simp
qed simp

section \<open>The lines\<close>

definition active :: "ted \<Rightarrow> tline list" where
  "active t = take (t_count t) (t_buffer t)"

lemma active_insert:
  assumes "t_count t < length (t_buffer t)" "idx \<le> t_count t"
  shows "take (t_count t + 1) ((shift_up idx (t_count t) (t_buffer t))[idx := x]) = take idx (active t) @ x # drop idx (active t)"
proof (rule nth_equalityI)
  fix i assume "i < length (take (t_count t + 1) ((shift_up idx (t_count t) (t_buffer t))[idx := x]))"
  then have i: "i \<le> t_count t" "i < length (t_buffer t)" by simp_all
  show "take (t_count t + 1) ((shift_up idx (t_count t) (t_buffer t))[idx := x]) ! i = (take idx (active t) @ x # drop idx (active t)) ! i"
    using i assms by (cases i idx rule: linorder_cases) (simp_all add: active_def nth_shift_up nth_append)
qed (use assms in \<open>simp add: active_def min_def\<close>)

lemma active_remove:
  assumes "t_count t \<le> length (t_buffer t)" "idx < t_count t"
  shows "take (t_count t - 1) (shift_down idx (t_count t) (t_buffer t)) = take idx (active t) @ drop (idx + 1) (active t)"
proof (rule nth_equalityI)
  fix i assume "i < length (take (t_count t - 1) (shift_down idx (t_count t) (t_buffer t)))"
  then have i: "i < t_count t - 1" by simp
  show "take (t_count t - 1) (shift_down idx (t_count t) (t_buffer t)) ! i = (take idx (active t) @ drop (idx + 1) (active t)) ! i"
    using i assms by (cases "i < idx") (simp_all add: active_def nth_shift_down nth_append)
qed (use assms in \<open>auto simp: active_def min_def\<close>)

definition below :: "int \<Rightarrow> ted \<Rightarrow> tline list" where
  "below n t = takeWhile (\<lambda>l. ln_number l < n) (active t)"

definition above :: "int \<Rightarrow> ted \<Rightarrow> tline list" where
  "above n t = dropWhile (\<lambda>l. ln_number l < n) (active t)"

text \<open>What is left of the upper part when the line with the number goes.\<close>

definition others :: "int \<Rightarrow> tline list \<Rightarrow> tline list" where
  "others n ls = (if ls \<noteq> [] \<and> ln_number (hd ls) = n then tl ls else ls)"

definition ted_ok :: "ted \<Rightarrow> bool" where
  "ted_ok t \<longleftrightarrow> length (t_buffer t) = MAX_LINES \<and> t_count t \<le> MAX_LINES \<and> sorted_wrt (<) (map ln_number (active t))"

definition ted_map :: "ted \<Rightarrow> int \<rightharpoonup> byte list" where
  "ted_map t = map_of (map (\<lambda>l. (ln_number l, ln_text l)) (active t))"

lemma active_split: "active t = below n t @ above n t"
  by (simp add: below_def above_def)

lemma find_insert_below:
  assumes "t_count t \<le> length (t_buffer t)"
  shows "find_insert_index n t = length (below n t)" "find_insert_index n t \<le> t_count t"
proof -
  show "find_insert_index n t = length (below n t)"
    using find_index_spec [of 0 "t_count t" "t_buffer t" n] assms by (simp add: find_insert_index_def below_def active_def)
  also have "\<dots> \<le> length (active t)" by (simp add: below_def length_takeWhile_le)
  also have "\<dots> \<le> t_count t" by (simp add: active_def)
  finally show "find_insert_index n t \<le> t_count t" .
qed

lemma index_hit:
  assumes "t_count t \<le> length (t_buffer t)" "idx = find_insert_index n t"
  shows "idx < t_count t \<and> ln_number (t_buffer t ! idx) = n \<longleftrightarrow> above n t \<noteq> [] \<and> ln_number (hd (above n t)) = n"
    "take idx (active t) = below n t" "drop idx (active t) = above n t"
    "above n t \<noteq> [] \<Longrightarrow> hd (above n t) = t_buffer t ! idx"
proof -
  have i: "idx = length (below n t)" using find_insert_below [OF assms(1)] assms(2) by simp
  show "take idx (active t) = below n t" "drop idx (active t) = above n t" using active_split [of t n] i by simp_all
  then have d: "above n t = drop idx (active t)" by simp
  have l: "length (active t) = t_count t" using assms(1) by (simp add: active_def)
  show h: "hd (above n t) = t_buffer t ! idx" if "above n t \<noteq> []"
    using that l unfolding d by (simp add: hd_drop_conv_nth active_def)
  have "above n t \<noteq> [] \<longleftrightarrow> idx < t_count t" using l unfolding d by (simp add: not_le)
  then show "idx < t_count t \<and> ln_number (t_buffer t ! idx) = n \<longleftrightarrow> above n t \<noteq> [] \<and> ln_number (hd (above n t)) = n" using h by auto
qed

lemma upsert_active:
  assumes "ted_ok t" "t_count t < MAX_LINES"
  shows "\<exists>u. upsert_line n x d t s = (u, s) \<and> active u = below n t @ \<lparr>ln_number = n, ln_text = take 159 x\<rparr> # others n (above n t) \<and>
    length (t_buffer u) = MAX_LINES \<and> t_count u \<le> MAX_LINES \<and> t_dirty u = (d \<or> t_dirty t) \<and> t_file u = t_file t \<and> t_json u = t_json t"
proof -
  define idx where "idx = find_insert_index n t"
  have len: "t_count t \<le> length (t_buffer t)" "length (t_buffer t) = MAX_LINES" using assms(1) by (simp_all add: ted_ok_def)
  note H = index_hit [OF len(1) idx_def]
  have idx: "idx \<le> t_count t" using find_insert_below [OF len(1)] by (simp add: idx_def)
  show ?thesis
  proof (cases "idx < t_count t \<and> ln_number (t_buffer t ! idx) = n")
    case True
    then have a: "above n t \<noteq> []" "ln_number (hd (above n t)) = n" using H(1) by auto
    have "active (t\<lparr>t_buffer := (t_buffer t)[idx := y]\<rparr>) = below n t @ y # tl (above n t)" for y
    proof -
      have "take (t_count t) ((t_buffer t)[idx := y]) = (active t)[idx := y]" by (simp add: active_def take_update_swap)
      also have "\<dots> = take idx (active t) @ y # drop (Suc idx) (active t)" using True len(1) by (simp add: upd_conv_take_nth_drop active_def)
      also have "drop (Suc idx) (active t) = tl (above n t)" using H(3) by (metis drop_Suc tl_drop)
      finally show ?thesis using H(2) by (simp add: active_def)
    qed
    then show ?thesis using True assms(2) len a H(4) by (simp add: upsert_line_def Let_def idx_def [symmetric] editor_copy_def others_def active_def)
  next
    case False
    then have a: "\<not> (above n t \<noteq> [] \<and> ln_number (hd (above n t)) = n)" using H(1) by auto
    have "take (t_count t + 1) ((shift_up idx (t_count t) (t_buffer t))[idx := y]) = below n t @ y # above n t" for y
      using active_insert [of t idx y] idx assms(2) len H(2,3) by simp
    then show ?thesis using False assms(2) len a by (auto simp: upsert_line_def Let_def idx_def [symmetric] editor_copy_def others_def active_def)
  qed
qed

lemma delete_active:
  assumes "ted_ok t"
  shows "active (delete_line_number n d t) = below n t @ others n (above n t)"
    "length (t_buffer (delete_line_number n d t)) = MAX_LINES" "t_count (delete_line_number n d t) \<le> MAX_LINES"
proof -
  define idx where "idx = find_insert_index n t"
  have len: "t_count t \<le> length (t_buffer t)" "length (t_buffer t) = MAX_LINES" using assms(1) by (simp_all add: ted_ok_def)
  note H = index_hit [OF len(1) idx_def]
  show "active (delete_line_number n d t) = below n t @ others n (above n t)"
  proof (cases "idx < t_count t \<and> ln_number (t_buffer t ! idx) = n")
    case True
    then have a: "above n t \<noteq> []" "ln_number (hd (above n t)) = n" using H(1) by auto
    have "drop (idx + 1) (active t) = tl (above n t)" using H(3) by (metis Suc_eq_plus1 drop_Suc tl_drop)
    then have "take (t_count t - 1) (shift_down idx (t_count t) (t_buffer t)) = below n t @ tl (above n t)"
      using active_remove [OF len(1), of idx] True H(2) by simp
    then show ?thesis using True a by (simp add: delete_line_number_def Let_def idx_def [symmetric] others_def active_def)
  next
    case False
    then have "\<not> (above n t \<noteq> [] \<and> ln_number (hd (above n t)) = n)" using H(1) by auto
    then show ?thesis using False active_split [of t n] by (auto simp: delete_line_number_def Let_def idx_def [symmetric] others_def)
  qed
  show "length (t_buffer (delete_line_number n d t)) = MAX_LINES" "t_count (delete_line_number n d t) \<le> MAX_LINES"
    using assms by (auto simp: delete_line_number_def Let_def ted_ok_def)
qed

lemma above_sorted:
  assumes "ted_ok t"
  shows "\<forall>l \<in> set (below n t). ln_number l < n" "\<forall>l \<in> set (others n (above n t)). n < ln_number l"
    "sorted_wrt (<) (map ln_number (below n t))" "sorted_wrt (<) (map ln_number (others n (above n t)))"
proof -
  have s: "sorted_wrt (<) (map ln_number (below n t @ above n t))" using assms active_split [of t n] by (simp add: ted_ok_def)
  show "\<forall>l \<in> set (below n t). ln_number l < n" by (auto simp: below_def dest: set_takeWhileD)
  show "sorted_wrt (<) (map ln_number (below n t))" using s by (simp add: sorted_wrt_append)
  have a: "sorted_wrt (<) (map ln_number (above n t))" using s by (simp add: sorted_wrt_append)
  show "sorted_wrt (<) (map ln_number (others n (above n t)))" using a by (cases "above n t") (auto simp: others_def)
  have "above n t \<noteq> [] \<Longrightarrow> n \<le> ln_number (hd (above n t))" using hd_dropWhile [of "\<lambda>l. ln_number l < n" "active t"] by (auto simp: above_def)
  then show "\<forall>l \<in> set (others n (above n t)). n < ln_number l" using a by (cases "above n t") (auto simp: others_def)
qed

lemma map_of_lines:
  assumes "ted_ok t"
  shows "map_of (map (\<lambda>l. (ln_number l, ln_text l)) (below n t @ others n (above n t))) = (ted_map t)(n := None)"
proof
  note A = above_sorted [OF assms, of n]
  let ?m = "\<lambda>ls. map_of (map (\<lambda>l. (ln_number l, ln_text l)) ls)"
  have no: "?m (below n t @ others n (above n t)) n = None" using A(1,2) by (auto simp: map_of_eq_None_iff)
  fix k
  show "?m (below n t @ others n (above n t)) k = ((ted_map t)(n := None)) k"
  proof (cases "k = n")
    case False
    then have "?m (others n (above n t)) k = ?m (above n t) k" by (cases "above n t") (auto simp: others_def)
    then show ?thesis using False active_split [of t n] by (simp add: ted_map_def map_add_def split: option.split)
  qed (use no in simp)
qed

lemma map_of_upsert:
  assumes "ted_ok t"
  shows "map_of (map (\<lambda>l. (ln_number l, ln_text l)) (below n t @ \<lparr>ln_number = n, ln_text = x\<rparr> # others n (above n t))) = (ted_map t)(n \<mapsto> x)"
proof
  fix k
  have b: "map_of (map (\<lambda>l. (ln_number l, ln_text l)) (below n t)) n = None" using above_sorted(1) [OF assms, of n] by (auto simp: map_of_eq_None_iff)
  show "map_of (map (\<lambda>l. (ln_number l, ln_text l)) (below n t @ \<lparr>ln_number = n, ln_text = x\<rparr> # others n (above n t))) k = ((ted_map t)(n \<mapsto> x)) k"
    using fun_cong [OF map_of_lines [OF assms, of n], of k] b by (cases "k = n") (auto simp: map_add_def split: option.splits)
qed

lemma sorted_join:
  "sorted_wrt (<) (map f as) \<Longrightarrow> sorted_wrt (<) (map f bs) \<Longrightarrow> \<forall>a \<in> set as. f a < n \<Longrightarrow> \<forall>b \<in> set bs. n < f b \<Longrightarrow>
    sorted_wrt (<) (map f as @ map f bs) \<and> sorted_wrt (<) (map f as @ n # map f bs)" for f :: "'b \<Rightarrow> int"
  by (fastforce simp: sorted_wrt_append)

lemma upsert_spec:
  assumes "ted_ok t" "t_count t < MAX_LINES"
  obtains u where "upsert_line n x d t s = (u, s)" "ted_ok u" "ted_map u = (ted_map t)(n \<mapsto> take 159 x)" "t_dirty u = (d \<or> t_dirty t)"
    "t_file u = t_file t" "t_json u = t_json t" "active u = below n t @ \<lparr>ln_number = n, ln_text = take 159 x\<rparr> # others n (above n t)"
proof -
  obtain u where u: "upsert_line n x d t s = (u, s)" "active u = below n t @ \<lparr>ln_number = n, ln_text = take 159 x\<rparr> # others n (above n t)"
    "length (t_buffer u) = MAX_LINES" "t_count u \<le> MAX_LINES" "t_dirty u = (d \<or> t_dirty t)" "t_file u = t_file t" "t_json u = t_json t"
    using upsert_active [OF assms] by blast
  note A = above_sorted [OF assms(1), of n]
  have "ted_ok u" using u(2-4) sorted_join [OF A(3,4,1,2)] by (simp add: ted_ok_def)
  moreover have "ted_map u = (ted_map t)(n \<mapsto> take 159 x)" using map_of_upsert [OF assms(1), of n "take 159 x"] u(2) by (simp add: ted_map_def [of u])
  ultimately show thesis using that u by blast
qed

lemma delete_spec:
  assumes "ted_ok t"
  shows "ted_ok (delete_line_number n d t)" "ted_map (delete_line_number n d t) = (ted_map t)(n := None)"
proof -
  note A = above_sorted [OF assms(1), of n] and D = delete_active [OF assms, of n d]
  show "ted_ok (delete_line_number n d t)" using D sorted_join [OF A(3,4,1,2)] by (simp add: ted_ok_def)
  show "ted_map (delete_line_number n d t) = (ted_map t)(n := None)" using map_of_lines [OF assms, of n] D(1) by (simp add: ted_map_def [of "delete_line_number n d t"])
qed

section \<open>Listing\<close>

definition line_text :: "tline \<Rightarrow> byte list" where
  "line_text l = printint True (of_int (ln_number l)) 10 True @ [32] @ ln_text l @ [10]"

definition in_range :: "int \<Rightarrow> int \<Rightarrow> tline \<Rightarrow> bool" where
  "in_range start stop l \<longleftrightarrow> (start \<ge> 0 \<longrightarrow> start \<le> ln_number l) \<and> (stop \<ge> 0 \<longrightarrow> ln_number l \<le> stop)"

lemma fold_cond_emit:
  "is_stream fd s \<Longrightarrow> (\<And>x s. is_stream fd s \<Longrightarrow> f x s = (if P x then emit fd (g x) s else s)) \<Longrightarrow>
    fold f xs s = emit fd (concat (map g (filter P xs))) s"
  by (induction xs arbitrary: s) auto

lemma list_lines_spec:
  assumes "is_stream 1 s" "ted_ok t" "t_count t > 0"
  shows "list_lines a b t s = emit 1 (concat (map line_text (filter (in_range a b) (active t)))) s"
proof -
  have "list_lines a b t s = emit 1 (concat (map (\<lambda>i. line_text (t_buffer t ! i)) (filter (\<lambda>i. in_range a b (t_buffer t ! i)) [0..<t_count t]))) s"
    unfolding list_lines_def using assms(3)
    by (simp, intro fold_cond_emit [OF assms(1)]) (auto simp: in_range_def line_text_def str_def Let_def)
  moreover have "active t = map ((!) (t_buffer t)) [0..<t_count t]"
    using assms(2) by (intro nth_equalityI) (auto simp: active_def ted_ok_def)
  ultimately show ?thesis by (simp add: filter_map o_def)
qed

text \<open>C36. The buffer is a map. Under its invariant, an array of 512 lines whose first \<^verbatim>\<open>line_count\<close> are in strictly ascending order, setting
  a line is the update of a finite map from numbers to texts, cut at 159 characters, and deleting one takes its number
  out of the map; both keep the invariant. When the array is full, setting a line changes nothing, not even a line that exists. A
  listing prints exactly the lines in the range, in the order of their numbers, and these are the numbers of the map.\<close>

theorem ted_buffer_refines:
  assumes "ted_ok t"
  shows "(t_count t < MAX_LINES \<longrightarrow> (\<exists>u. upsert_line n x d t s = (u, s) \<and> ted_ok u \<and> ted_map u = (ted_map t)(n \<mapsto> take 159 x) \<and> t_dirty u = (d \<or> t_dirty t))) \<and>
    (t_count t = MAX_LINES \<longrightarrow> upsert_line n x d t s = (t, emit_error (str ''buffer full'') t s)) \<and>
    ted_ok (delete_line_number n d t) \<and> ted_map (delete_line_number n d t) = (ted_map t)(n := None) \<and>
    map ln_number (active t) = sorted_list_of_set (dom (ted_map t)) \<and>
    (is_stream 1 s \<and> t_count t > 0 \<longrightarrow> list_lines a b t s = emit 1 (concat (map line_text (filter (in_range a b) (active t)))) s)"
proof (intro conjI impI)
  show "\<exists>u. upsert_line n x d t s = (u, s) \<and> ted_ok u \<and> ted_map u = (ted_map t)(n \<mapsto> take 159 x) \<and> t_dirty u = (d \<or> t_dirty t)" if "t_count t < MAX_LINES"
    by (rule upsert_spec [OF assms that]) blast
  show "upsert_line n x d t s = (t, emit_error (str ''buffer full'') t s)" if "t_count t = MAX_LINES" using that by (simp add: upsert_line_def)
  show "ted_ok (delete_line_number n d t)" "ted_map (delete_line_number n d t) = (ted_map t)(n := None)" using delete_spec [OF assms] by auto
  have d: "dom (ted_map t) = set (map ln_number (active t))" by (auto simp: ted_map_def dom_map_of_conv_image_fst image_image)
  have "sorted (map ln_number (active t))" "distinct (map ln_number (active t))" using assms by (auto simp: ted_ok_def strict_sorted_iff)
  then show "map ln_number (active t) = sorted_list_of_set (dom (ted_map t))"
    unfolding d by (rule sorted_list_of_set.idem_if_sorted_distinct [symmetric])
  show "list_lines a b t s = emit 1 (concat (map line_text (filter (in_range a b) (active t)))) s" if "is_stream 1 s \<and> t_count t > 0"
    using list_lines_spec assms that by blast
qed

lemma ted_start_ok: "ted_ok ted_start"
  by (simp add: ted_ok_def active_def ted_start_def)

theorem ted_buffer_refines_witness:
  "\<exists>u. upsert_line 20 (str ''PRINT'') True ted_start ex_user = (u, ex_user) \<and> ted_ok u \<and> ted_map u = [20 \<mapsto> str ''PRINT''] \<and> t_dirty u"
proof -
  have "ted_map ted_start = Map.empty" "t_count ted_start < MAX_LINES" by (simp_all add: ted_map_def active_def ted_start_def)
  moreover have "take 159 (str ''PRINT'') = str ''PRINT''" by (simp add: str_def)
  ultimately show ?thesis using ted_buffer_refines [OF ted_start_ok, of 20 "str ''PRINT''" True ex_user 0 0] by auto
qed

section \<open>Saving and loading\<close>





























end
