(* ===== verification/Shell.thy ===== *)
theory Shell
  imports User_Lib
begin

text \<open>
  The shell (\<^verbatim>\<open>user/bin/hello.c\<close>). A line is parsed into a command tree whose strings are pointers into the line: a token is the pair
  of its first position and the position after its last, as \<^verbatim>\<open>argv\<close> and \<^verbatim>\<open>eargv\<close> (\<^verbatim>\<open>file\<close> and \<^verbatim>\<open>efile\<close>) have it.
  A line is a byte list, with zeros after its end. \<^verbatim>\<open>malloc\<close> is taken to succeed.
\<close>

section \<open>Commands\<close>

abbreviation (input) MAXARGS :: nat where "MAXARGS \<equiv> 10"
abbreviation (input) HELLO_MAXPATH :: nat where "HELLO_MAXPATH \<equiv> 128"
abbreviation (input) O_RDONLY :: u32 where "O_RDONLY \<equiv> 0"
abbreviation (input) O_WRONLY_CREATE :: u32 where "O_WRONLY_CREATE \<equiv> 0x201"

datatype 'w cmd =
    EXEC "'w list"
  | REDIR "'w cmd" 'w u32 int
  | PIPE "'w cmd" "'w cmd"
  | LIST "'w cmd" "'w cmd"
  | BACK "'w cmd"

type_synonym token = "nat \<times> nat"

section \<open>Tokens\<close>

definition whitespace :: "byte list" where
  "whitespace = [32, 9, 13, 10, 11]"

definition symbols :: "byte list" where
  "symbols = str ''<|>&;()''"

definition white :: "byte \<Rightarrow> bool" where
  "white c \<longleftrightarrow> ustrchr whitespace c \<noteq> None"

definition word_char :: "byte \<Rightarrow> bool" where
  "word_char c \<longleftrightarrow> ustrchr whitespace c = None \<and> ustrchr symbols c = None"

text \<open>The loops \<^verbatim>\<open>while(s < es && ...) s++\<close>.\<close>

function scan :: "(byte \<Rightarrow> bool) \<Rightarrow> byte list \<Rightarrow> nat \<Rightarrow> nat \<Rightarrow> nat" where
  "scan p l es s = (if s < es \<and> p (at l s) then scan p l es (s + 1) else s)"
  by pat_completeness auto
termination by (relation "measure (\<lambda>(p, l, es, s). es - s)") auto

declare scan.simps [simp del]

text \<open>The kind of the token (0 at the end, \<^verbatim>\<open>'+'\<close> for \<^verbatim>\<open>>>\<close>, \<^verbatim>\<open>'a'\<close> for a word), the token, and the position after it.\<close>

definition gettoken :: "byte list \<Rightarrow> nat \<Rightarrow> nat \<Rightarrow> byte \<times> token \<times> nat" where
  "gettoken l es s =
     (let q = scan white l es s;
          c = at l q;
          (ret, eq) =
            (if c = 0 then (c, q)
             else if c = 124 \<or> c = 40 \<or> c = 41 \<or> c = 59 \<or> c = 38 \<or> c = 60 then (c, q + 1)
             else if c = 62 then (if at l (q + 1) = 62 then (43, q + 2) else (c, q + 1))
             else (97, scan word_char l es q))
      in (ret, (q, eq), scan white l es eq))"

definition peek :: "byte list \<Rightarrow> nat \<Rightarrow> nat \<Rightarrow> string \<Rightarrow> nat \<times> bool" where
  "peek l es s toks =
     (let s = scan white l es s in (s, at l s \<noteq> 0 \<and> ustrchr (str toks) (at l s) \<noteq> None))"

text \<open>Progress, on which the termination of the parsers rests.\<close>

lemma scan_ge [simp]: "s \<le> scan p l es s"
  by (induction p l es s rule: scan.induct) (subst scan.simps, auto)

lemma gettoken_eq:
  assumes "gettoken l es s = (t, (q, eq), s')"
  shows "q = scan white l es s" "q \<le> eq" "s' = scan white l es eq" "s \<le> s'"
proof -
  show q: "q = scan white l es s" and e: "s' = scan white l es eq" using assms by (auto simp: gettoken_def Let_def split: if_splits)
  show qe: "q \<le> eq" using assms by (auto simp: gettoken_def Let_def split: if_splits)
  show "s \<le> s'" using scan_ge [of s white l es] scan_ge [of eq white l es] qe unfolding q e by (meson order_trans)
qed

lemma gettoken_symbol:
  assumes "gettoken l es s = (t, (q, eq), s')" "at l q \<in> {124, 40, 41, 59, 38, 60, 62}"
  shows "q < eq" "q < s'" "q < length l"
proof -
  show e: "q < eq" using assms by (auto simp: gettoken_def Let_def split: if_splits)
  show "q < s'" using less_le_trans [OF e scan_ge [of eq white l es]] gettoken_eq(3) [OF assms(1)] by simp
  show "q < length l" using assms(2) by (auto simp: at_def split: if_splits)
qed

lemma ustrchr_set: "ustrchr cs c \<noteq> None \<longleftrightarrow> c \<in> set cs"
  by (induction cs) auto

lemma peek_progress:
  assumes "peek l es s toks = (p, True)" "set (str toks) \<subseteq> {124, 40, 41, 59, 38, 60, 62}" "gettoken l es p = (t, tok, s')"
  shows "length l - s' < length l - s"
proof -
  have p: "p = scan white l es s" "at l p \<in> {124, 40, 41, 59, 38, 60, 62}"
    using assms(1,2) ustrchr_set [of "str toks"] by (auto simp: peek_def Let_def)
  have "\<not> white (at l p)" using p(2) by (auto simp: white_def whitespace_def)
  then have "scan white l es p = p" by (simp add: scan.simps)
  then have "p < s'" "p < length l" using gettoken_symbol [of l es p t p _ s'] gettoken_eq(1) [of l es p] p(2) assms(3) by (metis prod.collapse)+
  moreover have "s \<le> p" using p(1) by simp
  ultimately show ?thesis by simp
qed

section \<open>The parser\<close>

text \<open>A parser delivers its result and the position it has reached, or the message of \<^verbatim>\<open>panic\<close>.\<close>

datatype 'a parse = Parsed 'a nat | Failed string

definition redir_of :: "byte \<Rightarrow> token cmd \<Rightarrow> token \<Rightarrow> token cmd" where
  "redir_of tok c q =
     (if tok = 60 then REDIR c q O_RDONLY 0
      else if tok = 62 then REDIR c q O_WRONLY_CREATE 1
      else if tok = 43 then REDIR c q O_WRONLY_CREATE 1
      else c)"

function parseredirs :: "token cmd \<Rightarrow> byte list \<Rightarrow> nat \<Rightarrow> nat \<Rightarrow> token cmd parse" where
  "parseredirs c l es s =
     (case peek l es s ''<>'' of (s, p) \<Rightarrow>
        if p then
          (case gettoken l es s of (tok, _, s) \<Rightarrow>
             case gettoken l es s of (t, q, s) \<Rightarrow>
               if t \<noteq> 97 then Failed ''missing file for redirection''
               else parseredirs (redir_of tok c q) l es s)
        else Parsed c s)"
  by pat_completeness auto
termination
proof (relation "measure (\<lambda>(c, l, es, s). length l - s)", goal_cases)
  case (2 c l es s)
  have "set (str ''<>'') \<subseteq> {124, 40, 41, 59, 38, 60, 62}" by (simp add: str_def)
  note pr = peek_progress [OF _ this]
  have step: "length l - s2 < length l - s"
    if "(p, True) = peek l es s ''<>''" "(t1, k1, s1) = gettoken l es p" "(t2, k2, s2) = gettoken l es s1" for p t1 k1 s1 t2 k2 s2
    using pr [OF that(1,2) [symmetric]] gettoken_eq(4) [of l es s1 t2 "fst k2" "snd k2" s2] that(3) by simp
  show ?case using 2 by (auto intro: step)
qed simp

text \<open>\<^verbatim>\<open>cmd->argv[argc] = q\<close> in \<^verbatim>\<open>parseexec\<close>: \<^verbatim>\<open>cmd\<close> is the \<^verbatim>\<open>execcmd\<close> under the redirections that \<^verbatim>\<open>ret\<close> has
  gathered so far, and shares its storage.\<close>

fun add_arg :: "token \<Rightarrow> token cmd \<Rightarrow> token cmd" where
  "add_arg q (EXEC argv) = EXEC (argv @ [q])"
| "add_arg q (REDIR c f m d) = REDIR (add_arg q c) f m d"
| "add_arg q c = c"

function parseargs :: "token cmd \<Rightarrow> nat \<Rightarrow> byte list \<Rightarrow> nat \<Rightarrow> nat \<Rightarrow> token cmd parse" where
  "parseargs ret argc l es s =
     (case peek l es s ''|)&;'' of (s, p) \<Rightarrow>
        if p then Parsed ret s
        else
          (case gettoken l es s of (tok, q, s) \<Rightarrow>
             if tok = 0 then Parsed ret s
             else if tok \<noteq> 97 then Failed ''syntax''
             else if argc + 1 \<ge> MAXARGS then Failed ''too many args''
             else
               (case parseredirs (add_arg q ret) l es s of
                  Failed m \<Rightarrow> Failed m
                | Parsed ret s \<Rightarrow> parseargs ret (argc + 1) l es s)))"
  by pat_completeness auto
termination by (relation "measure (\<lambda>(ret, argc, l, es, s). MAXARGS - argc)") auto

function parseback :: "token cmd \<Rightarrow> byte list \<Rightarrow> nat \<Rightarrow> nat \<Rightarrow> token cmd \<times> nat" where
  "parseback c l es s =
     (case peek l es s ''&'' of (s, p) \<Rightarrow>
        if p then (case gettoken l es s of (_, _, s) \<Rightarrow> parseback (BACK c) l es s) else (c, s))"
  by pat_completeness auto
termination
proof (relation "measure (\<lambda>(c, l, es, s). length l - s)", goal_cases)
  case (2 c l es s)
  have "set (str ''&'') \<subseteq> {124, 40, 41, 59, 38, 60, 62}" by (simp add: str_def)
  note step = peek_progress [OF sym this sym]
  show ?case using 2 by (auto intro: step)
qed simp

declare parseredirs.simps [simp del] parseargs.simps [simp del] parseback.simps [simp del]

text \<open>The parsers that call each other run with fuel; \<open>None\<close> means that it was used up.\<close>

definition andthen :: "'a parse option \<Rightarrow> ('a \<Rightarrow> nat \<Rightarrow> 'b parse option) \<Rightarrow> 'b parse option" where
  "andthen r f = (case r of None \<Rightarrow> None | Some (Failed m) \<Rightarrow> Some (Failed m) | Some (Parsed a s) \<Rightarrow> f a s)"

fun parseline :: "nat \<Rightarrow> byte list \<Rightarrow> nat \<Rightarrow> nat \<Rightarrow> token cmd parse option"
  and parsepipe :: "nat \<Rightarrow> byte list \<Rightarrow> nat \<Rightarrow> nat \<Rightarrow> token cmd parse option"
  and parseblock :: "nat \<Rightarrow> byte list \<Rightarrow> nat \<Rightarrow> nat \<Rightarrow> token cmd parse option"
  and parseexec :: "nat \<Rightarrow> byte list \<Rightarrow> nat \<Rightarrow> nat \<Rightarrow> token cmd parse option" where
  "parseline 0 l es s = None"
| "parseline (Suc n) l es s =
     andthen (parsepipe n l es s) (\<lambda>c s.
       case parseback c l es s of (c, s) \<Rightarrow>
         case peek l es s '';'' of (s, p) \<Rightarrow>
           if p then
             (case gettoken l es s of (_, _, s) \<Rightarrow>
                andthen (parseline n l es s) (\<lambda>r s. Some (Parsed (LIST c r) s)))
           else Some (Parsed c s))"
| "parsepipe 0 l es s = None"
| "parsepipe (Suc n) l es s =
     andthen (parseexec n l es s) (\<lambda>c s.
       case peek l es s ''|'' of (s, p) \<Rightarrow>
         if p then
           (case gettoken l es s of (_, _, s) \<Rightarrow>
              andthen (parsepipe n l es s) (\<lambda>r s. Some (Parsed (PIPE c r) s)))
         else Some (Parsed c s))"
| "parseblock 0 l es s = None"
| "parseblock (Suc n) l es s =
     (case peek l es s ''('' of (s, p) \<Rightarrow>
        if \<not> p then Some (Failed ''parseblock'')
        else
          (case gettoken l es s of (_, _, s) \<Rightarrow>
             andthen (parseline n l es s) (\<lambda>c s.
               case peek l es s '')'' of (s, p) \<Rightarrow>
                 if \<not> p then Some (Failed ''syntax - missing )'')
                 else (case gettoken l es s of (_, _, s) \<Rightarrow> Some (parseredirs c l es s)))))"
| "parseexec 0 l es s = None"
| "parseexec (Suc n) l es s =
     (case peek l es s ''('' of (s, p) \<Rightarrow>
        if p then parseblock n l es s
        else Some (case parseredirs (EXEC []) l es s of
                     Failed m \<Rightarrow> Failed m
                   | Parsed ret s \<Rightarrow> parseargs ret 0 l es s))"

text \<open>Strings in the line: \<^verbatim>\<open>nulterminate\<close> puts a zero after every token.\<close>

primrec nulterminate :: "token cmd \<Rightarrow> byte list \<Rightarrow> byte list" where
  "nulterminate (EXEC argv) l = fold (\<lambda>(q, eq) l. l[eq := 0]) argv l"
| "nulterminate (REDIR c f m d) l = (nulterminate c l)[snd f := 0]"
| "nulterminate (PIPE a b) l = nulterminate b (nulterminate a l)"
| "nulterminate (LIST a b) l = nulterminate b (nulterminate a l)"
| "nulterminate (BACK c) l = nulterminate c l"

definition string_at :: "byte list \<Rightarrow> token \<Rightarrow> byte list" where
  "string_at l q = cstring (drop (fst q) l)"

definition panic :: "byte list \<Rightarrow> ust \<Rightarrow> ust" where
  "panic m s = printf 2 (str ''%s\<newline>'') [m] [1] s"

text \<open>The command tree and the line with its zeros, unless the child has printed an error and exited. Every call of the parsers
  goes forward in the line or down from \<^verbatim>\<open>parseline\<close> to \<^verbatim>\<open>parseblock\<close>, four deep, so four units of fuel for each character are enough.\<close>

definition parsecmd :: "byte list \<Rightarrow> ust \<Rightarrow> (token cmd \<times> byte list) flow option" where
  "parsecmd l s =
     (let es = ustrlen (cstring l)
      in case parseline (4 * es + 4) l es 0 of
           None \<Rightarrow> None
         | Some (Failed m) \<Rightarrow> Some (Exited (panic (str m) s))
         | Some (Parsed c p) \<Rightarrow>
             (case peek l es p '''' of (p, _) \<Rightarrow>
                if p \<noteq> es then Some (Exited (panic (str ''syntax'') (printf 2 (str ''leftovers: %s\<newline>'') [string_at l (p, p)] [1] s)))
                else Some (Go (c, nulterminate c l) s)))"

section \<open>Running a command\<close>

text \<open>What a process of the shell does, system call by system call, for every result that the calls may have: \<open>POpen\<close> continues with the
  descriptor or a negative number, \<open>PPipe\<close> with the two ends or nothing, \<open>PFork\<close> with 0 in the child, and in the parent with the number of
  the child or \<open>-1\<close>, and \<open>PExec\<close> continues only when it fails. \<open>PSay\<close> is what \<^verbatim>\<open>printf\<close> writes.\<close>

datatype prog =
    PExit
  | PSay int "byte list" prog
  | PClose int prog
  | PDup int prog
  | PWait prog
  | POpen "byte list" u32 "int \<Rightarrow> prog"
  | PPipe "(int \<times> int) option \<Rightarrow> prog"
  | PFork "int \<Rightarrow> prog"
  | PExec "byte list" "byte list list" prog

definition p_panic :: "string \<Rightarrow> prog" where
  "p_panic m = PSay 2 (str m @ [10]) PExit"

definition fork1 :: "(int \<Rightarrow> prog) \<Rightarrow> prog" where
  "fork1 k = PFork (\<lambda>pid. if pid = -1 then p_panic ''fork'' else k pid)"

text \<open>\<^verbatim>\<open>hello_copy\<close> leaves at most \<^verbatim>\<open>dstsz - 1\<close> characters; every caller has room for one.\<close>

definition hello_copy :: "byte list \<Rightarrow> nat \<Rightarrow> byte list" where
  "hello_copy src dstsz = take (dstsz - 1) src"

definition append_exec_path :: "nat \<Rightarrow> byte list \<Rightarrow> byte list \<Rightarrow> byte list" where
  "append_exec_path dstsz prefix cmd =
     (if prefix = [] then hello_copy cmd dstsz
      else
        (let n = (if ustrlen prefix \<ge> dstsz then dstsz - 1 else ustrlen prefix);
             dst = take n prefix;
             need_slash = (n > 0 \<and> at dst (n - 1) \<noteq> 47);
             dst = (if need_slash \<and> n < dstsz - 1 then dst @ [47] else dst)
         in if length dst < dstsz - 1 then dst @ hello_copy cmd (dstsz - length dst) else dst))"

text \<open>The segments of the search path one after the other; \<open>k\<close> is what comes after the last.\<close>

function try_path :: "byte list \<Rightarrow> byte list \<Rightarrow> byte list list \<Rightarrow> prog \<Rightarrow> prog" where
  "try_path segment cmd argv k =
     (let e = takeWhile (\<lambda>c. c \<noteq> 58) segment;
          rest = dropWhile (\<lambda>c. c \<noteq> 58) segment
      in PExec (append_exec_path 128 e cmd) argv (if rest = [] then k else try_path (tl rest) cmd argv k))"
  by pat_completeness auto
termination
proof (relation "measure (\<lambda>(segment, _). length segment)", goal_cases)
  case (2 segment)
  then show ?case using length_dropWhile_le [of "\<lambda>c. c \<noteq> 58" segment] by (cases "dropWhile (\<lambda>c. c \<noteq> 58) segment") auto
qed simp

declare try_path.simps [simp del]

definition try_exec :: "byte list \<Rightarrow> byte list \<Rightarrow> byte list list \<Rightarrow> prog \<Rightarrow> prog" where
  "try_exec path cmd argv k =
     (if ustrchr cmd 47 \<noteq> None then PExec cmd argv k
      else try_path (hello_copy path HELLO_MAXPATH) cmd argv (PExec cmd argv k))"

primrec runcmd :: "byte list \<Rightarrow> byte list cmd \<Rightarrow> prog" where
  "runcmd path (EXEC argv) =
     (case argv of
        [] \<Rightarrow> PExit
      | a # _ \<Rightarrow> try_exec path a argv (PSay 2 (str ''hello: exec '' @ a @ str '' failed\<newline>'') PExit))"
| "runcmd path (REDIR c f m d) =
     PClose d (POpen f m (\<lambda>r.
       if r < 0 then PSay 2 (str ''open '' @ f @ str '' failed\<newline>'') PExit else runcmd path c))"
| "runcmd path (LIST a b) =
     fork1 (\<lambda>pid. if pid = 0 then runcmd path a else PWait (runcmd path b))"
| "runcmd path (PIPE a b) =
     PPipe (\<lambda>p. case p of
         None \<Rightarrow> p_panic ''pipe''
       | Some (p0, p1) \<Rightarrow>
           fork1 (\<lambda>pid.
             if pid = 0 then PClose 1 (PDup p1 (PClose p0 (PClose p1 (runcmd path a))))
             else fork1 (\<lambda>pid.
               if pid = 0 then PClose 0 (PDup p0 (PClose p0 (PClose p1 (runcmd path b))))
               else PClose p0 (PClose p1 (PWait (PWait PExit))))))"
| "runcmd path (BACK c) =
     fork1 (\<lambda>pid. if pid = 0 then runcmd path c else PExit)"

section \<open>Built-in commands\<close>

record hello =
  h_json :: bool
  h_path :: "byte list"

definition hello_start :: hello where
  "hello_start = \<lparr>h_json = False, h_path = str ''bin''\<rparr>"

definition hello_show_prompt :: "hello \<Rightarrow> ust \<Rightarrow> ust" where
  "hello_show_prompt h s =
     (if h_json h then struct_end (struct_field_str (str ''prompt'') (str ''hello'') (struct_begin 1 s))
      else printf 2 (str ''hello$ '') [] [] s)"

definition trim_newline :: "byte list \<Rightarrow> byte list" where
  "trim_newline s = takeWhile (\<lambda>c. \<not> (c = 10 \<or> c = 13)) s"

definition hello_skipws :: "byte list \<Rightarrow> byte list" where
  "hello_skipws s = dropWhile (\<lambda>c. c = 32 \<or> c = 9 \<or> c = 13 \<or> c = 10) s"

definition hello_emit_status :: "hello \<Rightarrow> byte list \<Rightarrow> byte list \<Rightarrow> ust \<Rightarrow> ust" where
  "hello_emit_status h event detail s = modern_emit_status (str ''hello'') (Some event) (Some detail) (h_json h) (Some (str ''ok'')) s"

definition hello_print_path :: "hello \<Rightarrow> ust \<Rightarrow> ust" where
  "hello_print_path h s =
     (if h_json h then
        struct_end (struct_field_str (str ''path'') (h_path h) (struct_field_str (str ''command'') (str ''hello'') (struct_begin 1 s)))
      else printf 1 (str ''PATH=%s\<newline>'') [h_path h] [1] s)"

definition hello_set_path :: "byte list \<Rightarrow> hello \<Rightarrow> ust \<Rightarrow> hello \<times> ust" where
  "hello_set_path val h s =
     (let val = (if val = [] then str ''bin'' else val);
          len = ustrlen val;
          len = (if len \<ge> HELLO_MAXPATH then HELLO_MAXPATH - 1 else len);
          h = h\<lparr>h_path := take len val\<rparr>
      in (h, hello_emit_status h (str ''path'') (h_path h) s))"

definition hello_help :: "hello \<Rightarrow> ust \<Rightarrow> ust" where
  "hello_help h s =
     (if h_json h then
        struct_end (struct_field_str (str ''help'') (str ''Built-ins: cd <dir>, path [set <paths>], help, version'')
          (struct_field_str (str ''command'') (str ''hello'') (struct_begin 1 s)))
      else
        fold (\<lambda>l. printf 1 (str l) [] [])
          [''Hello Shell commands:\<newline>'',
           ''  cd <dir>        change directory\<newline>'',
           ''  path            show command search path\<newline>'',
           ''  path set X      set path (colon separated)\<newline>'',
           ''  help            show this message\<newline>'',
           ''  version         show version info\<newline>''] s)"

fun hello_strncmp :: "byte list \<Rightarrow> byte list \<Rightarrow> nat \<Rightarrow> int" where
  "hello_strncmp a b 0 = 0"
| "hello_strncmp a b (Suc n) =
     (if at a 0 \<noteq> at b 0 then sint (at a 0) - sint (at b 0)
      else if at a 0 = 0 then 0
      else hello_strncmp (tl a) (tl b) n)"

definition ends_word :: "byte \<Rightarrow> bool" where
  "ends_word c \<longleftrightarrow> c = 0 \<or> c = 32 \<or> c = 9"

text \<open>Whether the line was a built-in command, the line without its end, and the state afterwards. \<open>chdir\<close> is the system call.\<close>

definition handle_builtin :: "(byte list \<Rightarrow> ust \<Rightarrow> int \<times> ust) \<Rightarrow> byte list \<Rightarrow> hello \<Rightarrow> ust \<Rightarrow> bool \<times> byte list \<times> hello \<times> ust" where
  "handle_builtin chdir line h s =
     (let line = trim_newline line; p = hello_skipws line
      in if at p 0 = 0 then (True, line, h, s)
         else if at p 0 = 99 \<and> at p 1 = 100 \<and> ends_word (at p 2) then
           (let arg = hello_skipws (drop 2 p)
            in if at arg 0 = 0 then (True, line, h, printf 2 (str ''hello: cd requires a path\<newline>'') [] [] s)
               else
                 (let (r, s) = chdir arg s
                  in (True, line, h, if r < 0 then printf 2 (str ''hello: cannot cd %s\<newline>'') [arg] [1] s else s)))
         else if ustrcmp p (str ''help'') = 0 then (True, line, h, hello_help h s)
         else if ustrcmp p (str ''version'') = 0 \<or> ustrcmp p (str ''--version'') = 0 then
           (True, line, h, modern_print_version (str ''hello'') (h_json h) s)
         else if hello_strncmp p (str ''path'') 4 = 0 \<and> ends_word (at p 4) then
           (let arg = hello_skipws (drop 4 p)
            in if at arg 0 = 0 then (True, line, h, hello_print_path h s)
               else if hello_strncmp arg (str ''set'') 3 = 0 \<and> ends_word (at arg 3) then
                 (let (h, s) = hello_set_path (hello_skipws (drop 3 arg)) h s in (True, line, h, s))
               else (True, line, h, printf 2 (str ''hello: usage path [set <paths>]\<newline>'') [] [] s))
         else (False, line, h, s))"

section \<open>The shell\<close>

text \<open>The line is what \<^verbatim>\<open>gets\<close> leaves in the buffer of 100 characters, up to the first zero.\<close>

definition getcmd :: "hello \<Rightarrow> nat \<Rightarrow> ust \<Rightarrow> int \<times> byte list \<times> ust" where
  "getcmd h nbuf s =
     (let s = hello_show_prompt h s;
          (line, s) = gets nbuf s;
          line = cstring line
      in (if at line 0 = 0 then -1 else 0, line, s))"

partial_function (option) open_console :: "ust \<Rightarrow> ust option" where
  "open_console s =
     (case uopen (str ''console'') False s of (fd, s) \<Rightarrow>
        if fd \<ge> 0 then (if fd \<ge> 3 then Some (uclose fd s) else open_console s) else Some s)"

text \<open>What the child does with a line: the error message it has printed before it exits, or its system calls.\<close>

definition child :: "hello \<Rightarrow> byte list \<Rightarrow> ust \<Rightarrow> (prog \<times> ust) option" where
  "child h line s =
     (case parsecmd line s of
        None \<Rightarrow> None
      | Some (Exited s) \<Rightarrow> Some (PExit, s)
      | Some (Go (c, l) s) \<Rightarrow> Some (runcmd (h_path h) (map_cmd (string_at l) c), s))"

text \<open>The main loop gathers the lines for which a child was started; \<open>fork\<close> gives the result of the system call for each.\<close>

partial_function (option) hello_loop ::
    "(byte list \<Rightarrow> ust \<Rightarrow> int \<times> ust) \<Rightarrow> (nat \<Rightarrow> int) \<Rightarrow> hello \<Rightarrow> (hello \<times> byte list) list \<Rightarrow> ust \<Rightarrow> ((hello \<times> byte list) list \<times> ust) option" where
  "hello_loop chdir fork h jobs s =
     (case getcmd h 100 s of (r, line, s) \<Rightarrow>
        if r < 0 then Some (jobs, s)
        else (case handle_builtin chdir line h s of (handled, line, h, s) \<Rightarrow>
                if handled then hello_loop chdir fork h jobs s
                else if fork (length jobs) = -1 then Some (jobs, panic (str ''fork'') s)
                else hello_loop chdir fork h (jobs @ [(h, line)]) s))"

definition hello_main :: "(byte list \<Rightarrow> ust \<Rightarrow> int \<times> ust) \<Rightarrow> (nat \<Rightarrow> int) \<Rightarrow> byte list list \<Rightarrow> ust \<Rightarrow> ((hello \<times> byte list) list \<times> ust) option" where
  "hello_main chdir fork argv s =
     (case modern_consume_flags (str ''hello'') argv True s of
        Exited s \<Rightarrow> Some ([], s)
      | Go (argi, json) s \<Rightarrow>
          (let s = (if argi < length argv then printf 2 (str ''hello: unexpected arguments\<newline>'') [] [] s else s)
           in case open_console s of
                None \<Rightarrow> None
              | Some s \<Rightarrow> hello_loop chdir fork (hello_start\<lparr>h_json := json\<rparr>) [] s))"

end
