(* ===== verification/Shell_Properties.thy ===== *)
theory Shell_Properties
  imports Shell User_Properties
begin

text \<open>
  The parser of the shell: it returns for every line, with tokens that stay whole when \<^verbatim>\<open>nulterminate\<close> overwrites
  their ends with zeros.
\<close>

section \<open>Tokens\<close>

definition token_text :: "byte list \<Rightarrow> token \<Rightarrow> byte list" where
  "token_text l q = take (snd q - fst q) (drop (fst q) l)"

definition good_token :: "byte list \<Rightarrow> nat \<Rightarrow> token \<Rightarrow> bool" where
  "good_token l es q \<longleftrightarrow> fst q < snd q \<and> snd q \<le> es \<and> (\<forall>i. fst q \<le> i \<and> i < snd q \<longrightarrow> word_char (at l i)) \<and>
     (snd q < es \<longrightarrow> \<not> word_char (at l (snd q)))"

lemma scan_spec:
  "s \<le> es \<Longrightarrow> scan p l es s \<le> es \<and> (\<forall>i. s \<le> i \<and> i < scan p l es s \<longrightarrow> p (at l i)) \<and> (scan p l es s < es \<longrightarrow> \<not> p (at l (scan p l es s)))"
proof (induction p l es s rule: scan.induct)
  case (1 p l es s)
  show ?case
  proof (cases "s < es \<and> p (at l s)")
    case True
    then have "scan p l es s = scan p l es (s + 1)" by (subst scan.simps) simp
    moreover have "i = s \<or> s + 1 \<le> i" if "s \<le> i" for i using that by auto
    moreover have "s + 1 \<le> es" using True by simp
    ultimately show ?thesis using 1(1) [OF True] True by (metis (no_types, lifting))
  next
    case False
    then have "scan p l es s = s" by (subst scan.simps) auto
    then show ?thesis using False 1(2) by auto
  qed
qed

text \<open>A line: the position \<open>es\<close> is that of the first zero.\<close>

definition line_end :: "byte list \<Rightarrow> nat \<Rightarrow> bool" where
  "line_end l es \<longleftrightarrow> at l es = 0 \<and> (\<forall>i < es. at l i \<noteq> 0)"

lemma line_end_cstring: "line_end l (ustrlen (cstring l))"
proof -
  have "ustrlen xs = length xs" for xs by (induction xs) auto
  moreover have "\<forall>i < length (cstring l). at l i \<noteq> 0" unfolding cstring_def at_def
    using nth_mem takeWhile_nth set_takeWhileD length_takeWhile_le by (metis (mono_tags, lifting) less_le_trans)
  moreover have "at l (length (cstring l)) = 0" unfolding cstring_def at_def using nth_length_takeWhile by fastforce
  ultimately show ?thesis by (simp add: line_end_def)
qed

lemma white_word: "white c \<Longrightarrow> \<not> word_char c" "c \<in> set symbols \<Longrightarrow> \<not> word_char c"
  using ustrchr_set by (auto simp: white_def word_char_def)

lemma symbols_set: "set symbols = {60, 124, 62, 38, 59, 40, 41}"
  by (auto simp: symbols_def str_def)

lemma gettoken_good:
  assumes "gettoken l es s = (t, q, s')" "s \<le> es" "line_end l es"
  shows "s \<le> s'" "s' \<le> es" "t = 97 \<Longrightarrow> good_token l es q \<and> s < s'"
proof -
  obtain q0 eq where q: "q = (q0, eq)" by (cases q)
  note g = assms(1) [unfolded q]
  have q0: "q0 = scan white l es s" "s' = scan white l es eq" "s \<le> s'" "q0 \<le> eq" using gettoken_eq [OF g] by auto
  have w: "q0 \<le> es" "q0 < es \<longrightarrow> \<not> white (at l q0)" using scan_spec [OF assms(2), of white l] q0 by auto
  have lt: "i < es" if "at l i \<noteq> 0" "i \<le> es" for i using that assms(3) unfolding line_end_def by (metis le_neq_implies_less)
  have eq: "eq \<le> es" using g w(1) lt [of q0] lt [of "q0 + 1"] scan_spec [OF w(1), of word_char l] q0(1)
    by (auto simp: gettoken_def Let_def Suc_le_eq split: if_splits)
  show "s \<le> s'" "s' \<le> es" using q0 scan_spec [OF eq, of white l] by auto
  assume t: "t = 97"
  have a: "at l q0 \<noteq> 0" "at l q0 \<notin> {124, 40, 41, 59, 38, 60, 62}" "eq = scan word_char l es q0"
    using g t q0(1) by (auto simp: gettoken_def Let_def split: if_splits)
  have lq: "q0 < es" using lt a(1) w(1) by blast
  have "word_char (at l q0)" using a(2) w(2) lq symbols_set ustrchr_set unfolding white_def word_char_def by fastforce
  then have "scan word_char l es q0 = scan word_char l es (q0 + 1)" using lq by (subst scan.simps) simp
  then have "q0 < eq" using scan_ge [of "q0 + 1" word_char l es] a(3) by (metis Suc_eq_plus1 Suc_le_eq)
  moreover have "s \<le> q0" "eq \<le> s'" using q0 by simp_all
  ultimately show "good_token l es q \<and> s < s'"
    using scan_spec [OF w(1), of word_char l] a(3) eq unfolding good_token_def q by auto
qed

lemma peek_eq: "peek l es s toks = (scan white l es s, at l (scan white l es s) \<noteq> 0 \<and> at l (scan white l es s) \<in> set (str toks))"
  by (simp only: peek_def Let_def ustrchr_set)

lemma peek_good:
  assumes "peek l es s toks = (p, b)" "s \<le> es" "line_end l es"
  shows "s \<le> p" "p \<le> es" "b \<Longrightarrow> p < es" "b \<longleftrightarrow> at l p \<noteq> 0 \<and> at l p \<in> set (str toks)"
proof -
  show p: "s \<le> p" "p \<le> es" "b \<longleftrightarrow> at l p \<noteq> 0 \<and> at l p \<in> set (str toks)"
    using assms(1) scan_spec [OF assms(2), of white l] scan_ge [of s white l es] by (auto simp only: peek_eq prod.inject)
  show "b \<Longrightarrow> p < es" using p assms(3) unfolding line_end_def by (metis le_neq_implies_less)
qed

section \<open>Every line is parsed\<close>

fun exec_of :: "'w cmd \<Rightarrow> 'w list option" where
  "exec_of (EXEC argv) = Some argv"
| "exec_of (REDIR c f m d) = exec_of c"
| "exec_of c = None"

primrec args_ok :: "'w cmd \<Rightarrow> bool" where
  "args_ok (EXEC argv) \<longleftrightarrow> length argv < MAXARGS"
| "args_ok (REDIR c f m d) \<longleftrightarrow> args_ok c \<and> (m, d) \<in> {(O_RDONLY, 0), (O_WRONLY_CREATE, 1)}"
| "args_ok (PIPE a b) \<longleftrightarrow> args_ok a \<and> args_ok b"
| "args_ok (LIST a b) \<longleftrightarrow> args_ok a \<and> args_ok b"
| "args_ok (BACK c) \<longleftrightarrow> args_ok c"

definition cmd_ok :: "byte list \<Rightarrow> nat \<Rightarrow> token cmd \<Rightarrow> bool" where
  "cmd_ok l es c \<longleftrightarrow> (\<forall>q \<in> set_cmd c. good_token l es q) \<and> args_ok c"

definition parse_ok :: "byte list \<Rightarrow> nat \<Rightarrow> nat \<Rightarrow> token cmd parse \<Rightarrow> bool" where
  "parse_ok l es s r \<longleftrightarrow> (case r of Failed m \<Rightarrow> True | Parsed c s' \<Rightarrow> s \<le> s' \<and> s' \<le> es \<and> cmd_ok l es c)"

lemma parse_ok_simps [simp]:
  "parse_ok l es s (Failed m)" "parse_ok l es s (Parsed c s') \<longleftrightarrow> s \<le> s' \<and> s' \<le> es \<and> cmd_ok l es c"
  by (simp_all add: parse_ok_def)

lemma cmd_ok_simps [simp]:
  "cmd_ok l es (PIPE a b) \<longleftrightarrow> cmd_ok l es a \<and> cmd_ok l es b" "cmd_ok l es (LIST a b) \<longleftrightarrow> cmd_ok l es a \<and> cmd_ok l es b"
  "cmd_ok l es (BACK a) \<longleftrightarrow> cmd_ok l es a" "cmd_ok l es (EXEC [])"
  "cmd_ok l es (REDIR a q m d) \<longleftrightarrow> cmd_ok l es a \<and> good_token l es q \<and> (m, d) \<in> {(O_RDONLY, 0), (O_WRONLY_CREATE, 1)}"
  by (auto simp: cmd_ok_def)

lemma parse_ok_le: "parse_ok l es s r \<Longrightarrow> s0 \<le> s \<Longrightarrow> parse_ok l es s0 r"
  by (auto simp: parse_ok_def split: parse.splits)

lemma parseredirs_ok:
  "s \<le> es \<Longrightarrow> line_end l es \<Longrightarrow> cmd_ok l es c \<Longrightarrow> parse_ok l es s (parseredirs c l es s) \<and>
    (\<forall>c' s'. parseredirs c l es s = Parsed c' s' \<longrightarrow> exec_of c' = exec_of c)"
proof (induction c l es s rule: parseredirs.induct)
  case (1 c l es s)
  obtain p b where pk: "peek l es s ''<>'' = (p, b)" by (cases "peek l es s ''<>''")
  note p = peek_good [OF pk 1(2,3)]
  show ?case
  proof (cases b)
    case False
    then have "parseredirs c l es s = Parsed c p" by (subst parseredirs.simps) (simp add: pk)
    then show ?thesis using p 1(4) by simp
  next
    case b: True
    obtain t1 q1 s1 where g1: "gettoken l es p = (t1, q1, s1)" by (cases "gettoken l es p")
    obtain t2 q2 s2 where g2: "gettoken l es s1 = (t2, q2, s2)" by (cases "gettoken l es s1")
    note s1 = gettoken_good [OF g1 p(2) 1(3)]
    note s2 = gettoken_good [OF g2 s1(2) 1(3)]
    have le: "s \<le> s2" using p(1) s1(1) s2(1) by simp
    show ?thesis
    proof (cases "t2 = 97")
      case True
      then have e: "parseredirs c l es s = parseredirs (redir_of t1 c q2) l es s2"
        by (subst parseredirs.simps) (simp add: pk b g1 g2)
      have "cmd_ok l es (redir_of t1 c q2)" "exec_of (redir_of t1 c q2) = exec_of c"
        using 1(4) s2(3) [OF True] by (auto simp: redir_of_def)
      then show ?thesis unfolding e using 1(1) [OF pk [symmetric] b g1 [symmetric] _ g2 [symmetric] refl] True s2(2) 1(3) parse_ok_le [OF _ le]
        by auto
    next
      case False
      then have "parseredirs c l es s = Failed ''missing file for redirection''" by (subst parseredirs.simps) (simp add: pk b g1 g2)
      then show ?thesis by simp
    qed
  qed
qed

lemma add_arg_ok:
  "cmd_ok l es c \<Longrightarrow> exec_of c = Some argv \<Longrightarrow> good_token l es q \<Longrightarrow> length argv + 1 < MAXARGS \<Longrightarrow>
    cmd_ok l es (add_arg q c) \<and> exec_of (add_arg q c) = Some (argv @ [q])"
  by (induction c) (auto simp: cmd_ok_def)

lemma parseargs_ok:
  "s \<le> es \<Longrightarrow> line_end l es \<Longrightarrow> cmd_ok l es ret \<Longrightarrow> exec_of ret = Some argv \<Longrightarrow> length argv = argc \<Longrightarrow>
    parse_ok l es s (parseargs ret argc l es s)"
proof (induction ret argc l es s arbitrary: argv rule: parseargs.induct)
  case (1 ret argc l es s)
  obtain p b where pk: "peek l es s ''|)&;'' = (p, b)" by (cases "peek l es s ''|)&;''")
  note p = peek_good [OF pk 1(2,3)]
  obtain t q s1 where g: "gettoken l es p = (t, q, s1)" by (cases "gettoken l es p")
  note s1 = gettoken_good [OF g p(2) 1(3)]
  note e = parseargs.simps [of ret argc l es s, unfolded pk prod.case g]
  consider "b \<or> t = 0" | "\<not> b" "t \<noteq> 0" "t \<noteq> 97 \<or> argc + 1 \<ge> MAXARGS" | "\<not> b" "t = 97" "argc + 1 < MAXARGS" by fastforce
  then show ?case
  proof cases
    case 1
    then show ?thesis using e p s1 \<open>cmd_ok l es ret\<close> by auto
  next
    case 2
    then show ?thesis using e by auto
  next
    case 3
    have a: "cmd_ok l es (add_arg q ret)" "exec_of (add_arg q ret) = Some (argv @ [q])"
      using add_arg_ok [OF 1(4,5)] s1(3) [OF 3(2)] 3(3) 1(6) by auto
    note r = parseredirs_ok [OF s1(2) 1(3) a(1)]
    show ?thesis
    proof (cases "parseredirs (add_arg q ret) l es s1")
      case (Failed m)
      then show ?thesis using e 3 by simp
    next
      case (Parsed c s2)
      have "parse_ok l es s2 (parseargs c (argc + 1) l es s2)"
        using 1(1) [OF pk [symmetric] _ g [symmetric] refl _ _ _ Parsed, of "argv @ [q]"] 3 Parsed r 1(3,6) a(2) by auto
      moreover have "s \<le> s2" using Parsed r p(1) s1(1) by simp
      ultimately show ?thesis using e 3 Parsed parse_ok_le by simp
    qed
  qed
qed

lemma parseback_ok:
  "s \<le> es \<Longrightarrow> line_end l es \<Longrightarrow> cmd_ok l es c \<Longrightarrow> parseback c l es s = (c', s') \<Longrightarrow> s \<le> s' \<and> s' \<le> es \<and> cmd_ok l es c'"
proof (induction c l es s rule: parseback.induct)
  case (1 c l es s)
  obtain p b where pk: "peek l es s ''&'' = (p, b)" by (cases "peek l es s ''&''")
  note p = peek_good [OF pk 1(2,3)]
  obtain t q s1 where g: "gettoken l es p = (t, q, s1)" by (cases "gettoken l es p")
  note s1 = gettoken_good [OF g p(2) 1(3)]
  note e = parseback.simps [of c l es s, unfolded pk prod.case g]
  show ?case
  proof (cases b)
    case True
    then have "s1 \<le> s' \<and> s' \<le> es \<and> cmd_ok l es c'"
      using 1(1) [OF pk [symmetric] True g [symmetric] refl s1(2) 1(3)] 1(4,5) e by simp
    then show ?thesis using p(1) s1(1) by simp
  next
    case False
    then show ?thesis using e 1(4,5) p(1,2) by simp
  qed
qed

definition parsed_ok :: "byte list \<Rightarrow> nat \<Rightarrow> nat \<Rightarrow> token cmd parse option \<Rightarrow> bool" where
  "parsed_ok l es s r \<longleftrightarrow> (case r of None \<Rightarrow> False | Some r \<Rightarrow> parse_ok l es s r)"

lemma parsed_ok_simps [simp]: "\<not> parsed_ok l es s None" "parsed_ok l es s (Some r) \<longleftrightarrow> parse_ok l es s r"
  by (simp_all add: parsed_ok_def)

lemma andthen_ok:
  assumes "parsed_ok l es s r" "\<And>c s'. s \<le> s' \<Longrightarrow> s' \<le> es \<Longrightarrow> cmd_ok l es c \<Longrightarrow> parsed_ok l es s' (f c s')" "s0 \<le> s"
  shows "parsed_ok l es s0 (andthen r f)"
proof (cases r)
  case (Some a)
  then show ?thesis
  proof (cases a)
    case (Parsed c s')
    then have "parsed_ok l es s' (f c s')" "s \<le> s'" using assms(1,2) Some by auto
    then show ?thesis using Some Parsed assms(3) parse_ok_le [of l es s' _ s0] by (auto simp: andthen_def parsed_ok_def split: option.splits)
  qed (use Some in \<open>simp add: andthen_def\<close>)
qed (use assms(1) in simp)

lemma gettoken_after:
  assumes "peek l es s toks = (p, True)" "set (str toks) \<subseteq> {124, 40, 41, 59, 38, 60, 62}" "gettoken l es p = (t, q, s')" "s \<le> es" "line_end l es"
  shows "s < s'" "s' \<le> es"
  using peek_progress [OF assms(1-3)] gettoken_good(2) [OF assms(3) peek_good(2) [OF assms(1,4,5)] assms(5)] by auto

lemma parsers_return:
  assumes "line_end l es"
  shows "(s \<le> es \<longrightarrow> 4 * (es - s) + 4 \<le> n \<longrightarrow> parsed_ok l es s (parseline n l es s)) \<and>
    (s \<le> es \<longrightarrow> 4 * (es - s) + 3 \<le> n \<longrightarrow> parsed_ok l es s (parsepipe n l es s)) \<and>
    (s \<le> es \<longrightarrow> 4 * (es - s) + 2 \<le> n \<longrightarrow> parsed_ok l es s (parseexec n l es s)) \<and>
    (s \<le> es \<longrightarrow> 4 * (es - s) + 1 \<le> n \<longrightarrow> parsed_ok l es s (parseblock n l es s))"
proof (induction n arbitrary: s)
  case (Suc n)
  have sym: "set (str '';'') \<subseteq> {124, 40, 41, 59, 38, 60, 62}" "set (str ''|'') \<subseteq> {124, 40, 41, 59, 38, 60, 62}"
    "set (str ''('') \<subseteq> {124, 40, 41, 59, 38, 60, 62}" "set (str '')'') \<subseteq> {124, 40, 41, 59, 38, 60, 62}" by (simp_all add: str_def)
  have "parsed_ok l es s (parseline (Suc n) l es s)" if a: "s \<le> es" "4 * (es - s) + 4 \<le> Suc n"
    unfolding parseline.simps
  proof (rule andthen_ok [OF _ _ order_refl])
    show "parsed_ok l es s (parsepipe n l es s)" using Suc a by simp
    fix c s1 assume s1: "s \<le> s1" "s1 \<le> es" "cmd_ok l es c"
    obtain c2 s2 where b: "parseback c l es s1 = (c2, s2)" by (cases "parseback c l es s1")
    note s2 = parseback_ok [OF s1(2) assms s1(3) b]
    obtain p b where pk: "peek l es s2 '';'' = (p, b)" by (cases "peek l es s2 '';''")
    obtain t q s3 where g: "gettoken l es p = (t, q, s3)" by (cases "gettoken l es p")
    have "parsed_ok l es s1 (andthen (parseline n l es s3) (\<lambda>r s. Some (Parsed (LIST c2 r) s)))" if b: b
    proof (rule andthen_ok)
      note s3 = gettoken_after [OF pk [unfolded eqTrueI [OF b]] sym(1) g _ assms]
      have "es - s3 < es - s" using s3 s1 s2 by auto
      then show "parsed_ok l es s3 (parseline n l es s3)" using Suc [of s3] s3 s2 a by simp
      show "s1 \<le> s3" using s3 s2 by simp
    qed (use s2 in auto)
    then show "parsed_ok l es s1 (case parseback c l es s1 of (c, s) \<Rightarrow> case peek l es s '';'' of (s, p) \<Rightarrow>
           if p then (case gettoken l es s of (_, _, s) \<Rightarrow> andthen (parseline n l es s) (\<lambda>r s. Some (Parsed (LIST c r) s)))
           else Some (Parsed c s))"
      using b pk g s2 peek_good [OF pk _ assms] by auto
  qed
  moreover have "parsed_ok l es s (parsepipe (Suc n) l es s)" if a: "s \<le> es" "4 * (es - s) + 3 \<le> Suc n"
    unfolding parsepipe.simps
  proof (rule andthen_ok [OF _ _ order_refl])
    show "parsed_ok l es s (parseexec n l es s)" using Suc a by simp
    fix c s1 assume s1: "s \<le> s1" "s1 \<le> es" "cmd_ok l es c"
    obtain p b where pk: "peek l es s1 ''|'' = (p, b)" by (cases "peek l es s1 ''|''")
    obtain t q s3 where g: "gettoken l es p = (t, q, s3)" by (cases "gettoken l es p")
    have "parsed_ok l es s1 (andthen (parsepipe n l es s3) (\<lambda>r s. Some (Parsed (PIPE c r) s)))" if b: b
    proof (rule andthen_ok)
      note s3 = gettoken_after [OF pk [unfolded eqTrueI [OF b]] sym(2) g s1(2) assms]
      show "parsed_ok l es s3 (parsepipe n l es s3)" using Suc [of s3] s3 s1 a by simp
      show "s1 \<le> s3" using s3 by simp
    qed (use s1 in auto)
    then show "parsed_ok l es s1 (case peek l es s1 ''|'' of (s, p) \<Rightarrow>
           if p then (case gettoken l es s of (_, _, s) \<Rightarrow> andthen (parsepipe n l es s) (\<lambda>r s. Some (Parsed (PIPE c r) s)))
           else Some (Parsed c s))"
      using pk g s1 peek_good [OF pk s1(2) assms] by auto
  qed
  moreover have "parsed_ok l es s (parseexec (Suc n) l es s)" if a: "s \<le> es" "4 * (es - s) + 2 \<le> Suc n"
  proof -
    obtain p b where pk: "peek l es s ''('' = (p, b)" by (cases "peek l es s ''(''")
    note p = peek_good [OF pk a(1) assms]
    note r = parseredirs_ok [OF p(2) assms cmd_ok_simps(4)]
    have "parse_ok l es s (case parseredirs (EXEC []) l es p of Failed m \<Rightarrow> Failed m | Parsed ret s \<Rightarrow> parseargs ret 0 l es s)"
    proof (cases "parseredirs (EXEC []) l es p")
      case (Parsed c s1)
      then have "parse_ok l es s1 (parseargs c 0 l es s1)" using r parseargs_ok [OF _ assms, of s1 c "[]" 0] by simp
      then show ?thesis using Parsed r p(1) parse_ok_le [of l es s1 _ s] by simp
    qed simp
    moreover have "parsed_ok l es s (parseblock n l es p)"
      using Suc [of p] p a parse_ok_le [of l es p _ s] by (auto simp: parsed_ok_def split: option.splits)
    ultimately show ?thesis using pk by simp
  qed
  moreover have "parsed_ok l es s (parseblock (Suc n) l es s)" if a: "s \<le> es" "4 * (es - s) + 1 \<le> Suc n"
  proof -
    obtain p b where pk: "peek l es s ''('' = (p, b)" by (cases "peek l es s ''(''")
    obtain t q s1 where g: "gettoken l es p = (t, q, s1)" by (cases "gettoken l es p")
    let ?f = "\<lambda>c s. case peek l es s '')'' of (s, p) \<Rightarrow>
                 if \<not> p then Some (Failed ''syntax - missing )'')
                 else (case gettoken l es s of (_, _, s) \<Rightarrow> Some (parseredirs c l es s))"
    have "parsed_ok l es s (andthen (parseline n l es s1) ?f)" if b: b
    proof (rule andthen_ok)
      note s1 = gettoken_after [OF pk [unfolded eqTrueI [OF b]] sym(3) g a(1) assms]
      show "parsed_ok l es s1 (parseline n l es s1)" using Suc [of s1] s1 a by simp
      show "s \<le> s1" using s1 by simp
      fix c s2 assume s2: "s1 \<le> s2" "s2 \<le> es" "cmd_ok l es c"
      obtain p2 b2 where pk2: "peek l es s2 '')'' = (p2, b2)" by (cases "peek l es s2 '')''")
      note p2 = peek_good [OF pk2 s2(2) assms]
      obtain t2 q2 s3 where g2: "gettoken l es p2 = (t2, q2, s3)" by (cases "gettoken l es p2")
      note s3 = gettoken_good [OF g2 p2(2) assms]
      have "parse_ok l es s2 (parseredirs c l es s3)"
        using parseredirs_ok [OF s3(2) assms s2(3)] parse_ok_le [of l es s3 _ s2] p2(1) s3(1) by simp
      then show "parsed_ok l es s2 (?f c s2)" using pk2 g2 by simp
    qed
    then show ?thesis using pk g by simp
  qed
  ultimately show ?case by simp
qed simp

section \<open>Tokens become strings\<close>

lemma at_update: "at (l[e := 0]) i = (if i = e then 0 else at l i)"
  by (auto simp: at_def)

lemma at_zeros: "at (fold (\<lambda>(q, eq) l. l[eq := 0]) qs l) i = (if i \<in> snd ` set qs then 0 else at l i)"
  by (induction qs arbitrary: l) (auto simp: at_update image_iff)

lemma at_nulterminate: "at (nulterminate c l) i = (if i \<in> snd ` set_cmd c then 0 else at l i)"
  by (induction c arbitrary: l) (auto simp: at_zeros at_update)

lemma string_at_token:
  assumes "q \<le> e" "at l e = 0" "\<And>i. q \<le> i \<Longrightarrow> i < e \<Longrightarrow> at l i \<noteq> 0"
  shows "string_at l (q, e) = map (at l) [q..<e]"
  using assms
proof (induction "e - q" arbitrary: q)
  case 0
  then have "drop q l = [] \<or> hd (drop q l) = 0" by (auto simp: at_def hd_drop_conv_nth split: if_splits)
  then show ?case using 0 by (cases "drop q l") (auto simp: string_at_def cstring_def)
next
  case (Suc k)
  then have "at l q \<noteq> 0" by simp
  then have "q < length l" "drop q l = at l q # drop (Suc q) l" by (auto simp: at_def Cons_nth_drop_Suc split: if_splits)
  moreover have "string_at l (Suc q, e) = map (at l) [Suc q..<e]" using Suc.hyps(1) [of "Suc q"] Suc.hyps(2) Suc.prems by simp
  ultimately show ?case using \<open>at l q \<noteq> 0\<close> Suc.hyps(2) by (simp add: string_at_def cstring_def upt_conv_Cons)
qed

lemma token_text_map: "q \<le> e \<Longrightarrow> e \<le> length l \<Longrightarrow> token_text l (q, e) = map (at l) [q..<e]"
  by (intro nth_equalityI) (auto simp: token_text_def at_def)

text \<open>No end of a token lies inside another: there is no character of a word there.\<close>

lemma nulterminate_strings:
  assumes "cmd_ok l es c" "line_end l es" "q \<in> set_cmd c"
  shows "string_at (nulterminate c l) q = token_text l q"
proof -
  obtain a e where q: "q = (a, e)" by (cases q)
  have g: "good_token l es (a, e)" using assms(1,3) q by (simp add: cmd_ok_def)
  have "at (nulterminate c l) i = at l i \<and> at l i \<noteq> 0" if "a \<le> i" "i < e" for i
  proof -
    have w: "word_char (at l i)" "i < es" "at l i \<noteq> 0" using g that assms(2) by (auto simp: good_token_def line_end_def)
    have "snd q' \<noteq> i" if "q' \<in> set_cmd c" for q' using that assms(1) w(1,2) by (auto simp: cmd_ok_def good_token_def)
    then show ?thesis using w(3) by (auto simp: at_nulterminate)
  qed
  moreover have "at (nulterminate c l) e = 0" using assms(3) q by (auto simp: at_nulterminate image_iff)
  moreover have "e \<le> length l"
  proof -
    have "at l (e - 1) \<noteq> 0" using g assms(2) by (auto simp: good_token_def line_end_def)
    then show ?thesis using g by (auto simp: at_def good_token_def split: if_splits)
  qed
  ultimately show ?thesis using string_at_token [of a e "nulterminate c l"] token_text_map [of a e l] g q by (auto simp: good_token_def)
qed

text \<open>C38. The parser of the shell returns for every line, with the fuel it is given: it ends with an error message, or with a command tree and without output. In the
  tree no command has more than 9 arguments, so that the \<^verbatim>\<open>argv\<close> of 10 entries keeps its null pointer, every argument and file name is a maximal word of the line, not empty and
  within it, and after \<^verbatim>\<open>nulterminate\<close> it is, read as a string, exactly that word: the zeros destroy no other token.\<close>

theorem parsecmd_returns:
  "\<exists>r. parsecmd l s = Some r \<and>
    (\<forall>c l' s'. r = Go (c, l') s' \<longrightarrow> s' = s \<and> args_ok c \<and>
      (\<forall>q \<in> set_cmd c. good_token l (length (cstring l)) q \<and> string_at l' q = token_text l q))"
proof -
  let ?es = "ustrlen (cstring l)"
  have es: "line_end l ?es" "?es = length (cstring l)"
  proof (rule line_end_cstring)
    show "ustrlen xs = length xs" for xs by (induction xs) auto
  qed
  have "parsed_ok l ?es 0 (parseline (4 * ?es + 4) l ?es 0)" using parsers_return [OF es(1), of 0 "4 * ?es + 4"] by simp
  then obtain r where r: "parseline (4 * ?es + 4) l ?es 0 = Some r" "parse_ok l ?es 0 r" by (auto simp: parsed_ok_def split: option.splits)
  show ?thesis
  proof (cases r)
    case (Failed m)
    then show ?thesis using r by (simp add: parsecmd_def Let_def)
  next
    case (Parsed c p)
    then have "cmd_ok l ?es c" using r by simp
    then have "args_ok c \<and> (\<forall>q \<in> set_cmd c. good_token l ?es q \<and> string_at (nulterminate c l) q = token_text l q)"
      using nulterminate_strings [OF _ es(1)] by (auto simp: cmd_ok_def)
    then show ?thesis using r Parsed es(2) by (auto simp: parsecmd_def Let_def split: prod.splits)
  qed
qed

theorem parsecmd_returns_witness:
  "parsecmd (str ''ls>f a'') ex_user = Some (Go (REDIR (EXEC [(0, 2), (5, 6)]) (3, 4) 0x201 1, [108, 115, 0, 102, 0, 97]) ex_user) \<and>
   string_at [108, 115, 0, 102, 0, 97] (5, 6) = str ''a''"
proof -
  let ?c = "REDIR (EXEC [(0, 2), (5, 6)]) (3, 4) 0x201 1 :: token cmd" and ?l = "str ''ls>f a''"
  have "ustrlen (cstring ?l) = 6" "parseline (4 * 6 + 4) ?l 6 0 = Some (Parsed ?c 6)" "peek ?l 6 6 '''' = (6, False)"
    "nulterminate ?c ?l = [108, 115, 0, 102, 0, 97]" by code_simp+
  then have "parsecmd ?l ex_user = Some (Go (?c, [108, 115, 0, 102, 0, 97]) ex_user)" by (simp add: parsecmd_def)
  moreover have "token_text (str ''ls>f a'') (5, 6) = str ''a''" by (simp add: token_text_def str_def)
  ultimately show ?thesis using parsecmd_returns [of "str ''ls>f a''" ex_user] by simp
qed

end
