(* ===== verification/Shell_Meaning.thy ===== *)
theory Shell_Meaning
  imports Shell_Properties
begin

text \<open>
  What a line means to the shell: every command tree has a text, with parentheses only where they are needed, from which the parser reads it back, and the
  programs that are started for it have the descriptors that its pipes and redirections call for.
\<close>

section \<open>The text of a command\<close>

definition word_ok :: "byte list \<Rightarrow> bool" where
  "word_ok w \<longleftrightarrow> w \<noteq> [] \<and> (\<forall>c \<in> set w. word_char c \<and> c \<noteq> 0)"

definition typable :: "byte list cmd \<Rightarrow> bool" where
  "typable c \<longleftrightarrow> args_ok c \<and> (\<forall>w \<in> set_cmd c. word_ok w)"

definition arrow :: "int \<Rightarrow> byte" where
  "arrow d = (if d = 0 then 60 else 62)"

definition paren :: "bool \<Rightarrow> byte list \<Rightarrow> byte list" where
  "paren b x = (if b then 40 # x @ [41] else x)"

text \<open>The level says where the text stands: 3 for a whole line, 2 for an operand of \<^verbatim>\<open>&\<close> or the left of \<^verbatim>\<open>;\<close>, 1 for the right and 0 for
  the left of \<^verbatim>\<open>|\<close> and before redirections.\<close>

primrec show_cmd :: "byte list cmd \<Rightarrow> nat \<Rightarrow> byte list" where
  "show_cmd (EXEC ws) k = concat (map (\<lambda>w. w @ [32]) ws)"
| "show_cmd (REDIR c f m d) k = show_cmd c 0 @ arrow d # f @ [32]"
| "show_cmd (PIPE a b) k = paren (k < 1) (show_cmd a 0 @ 124 # show_cmd b 1)"
| "show_cmd (BACK c) k = paren (k < 2) (show_cmd c 2 @ [38])"
| "show_cmd (LIST a b) k = paren (k < 3) (show_cmd a 2 @ 59 # show_cmd b 3)"

lemma typable_simps [simp]:
  "typable (EXEC ws) \<longleftrightarrow> length ws < MAXARGS \<and> (\<forall>w \<in> set ws. word_ok w)"
  "typable (REDIR c f m d) \<longleftrightarrow> typable c \<and> word_ok f \<and> (m, d) \<in> {(O_RDONLY, 0), (O_WRONLY_CREATE, 1)}"
  "typable (PIPE a b) \<longleftrightarrow> typable a \<and> typable b" "typable (LIST a b) \<longleftrightarrow> typable a \<and> typable b" "typable (BACK c) \<longleftrightarrow> typable c"
  by (auto simp: typable_def)

section \<open>The scanner on a text\<close>

definition dark :: "byte list \<Rightarrow> bool" where
  "dark r \<longleftrightarrow> r = [] \<or> \<not> white (hd r)"

text \<open>What is left of the line at a position.\<close>

definition rest :: "byte list \<Rightarrow> nat \<Rightarrow> byte list \<Rightarrow> bool" where
  "rest l s r \<longleftrightarrow> 0 \<notin> set l \<and> s \<le> length l \<and> drop s l = r"

lemma rest_skip: "rest l s (x @ r) \<Longrightarrow> rest l (s + length x) r"
proof -
  assume a: "rest l s (x @ r)"
  then have "length (drop s l) = length x + length r" "s \<le> length l" by (simp_all add: rest_def)
  moreover have "drop (s + length x) l = r" using a by (metis rest_def append_eq_conv_conj drop_drop add.commute)
  ultimately show ?thesis using a by (simp add: rest_def)
qed

lemma rest_Cons: "rest l s (c # r) \<Longrightarrow> rest l (Suc s) r"
  using rest_skip [of l s "[c]" r] by simp

lemma rest_at: "rest l s r \<Longrightarrow> at l s = (if r = [] then 0 else hd r)" "rest l s r \<Longrightarrow> 0 \<notin> set r"
  by (auto simp: rest_def at_def hd_drop_conv_nth dest: in_set_dropD)

lemma scan_drop: "s \<le> length l \<Longrightarrow> scan p l (length l) s = s + length (takeWhile p (drop s l))"
proof (induction "length l - s" arbitrary: s)
  case 0
  then show ?case by (subst scan.simps) simp
next
  case (Suc k)
  then have "s < length l" by simp
  then have d: "drop s l = l ! s # drop (s + 1) l" "at l s = l ! s" by (simp_all add: Cons_nth_drop_Suc at_def)
  have "scan p l (length l) (s + 1) = s + 1 + length (takeWhile p (drop (s + 1) l))" using Suc(1) [of "s + 1"] Suc(2) by simp
  then show ?case using \<open>s < length l\<close> d(2) by (subst scan.simps) (simp add: d(1))
qed

lemma rest_scan: "rest l s r \<Longrightarrow> scan p l (length l) s = s + length (takeWhile p r)"
  using scan_drop by (simp add: rest_def)

lemma scan_dark: "rest l s r \<Longrightarrow> dark r \<Longrightarrow> scan white l (length l) s = s"
  by (cases r) (simp_all add: rest_scan dark_def)

lemma peek_rest: "rest l s r \<Longrightarrow> dark r \<Longrightarrow> peek l (length l) s toks = (s, r \<noteq> [] \<and> hd r \<in> set (str toks))"
  using rest_at [of l s r] by (cases r) (auto simp: peek_eq scan_dark)

lemma symbol_dark: "c \<in> set symbols \<Longrightarrow> dark (c # r)"
  by (auto simp: symbols_set dark_def white_def whitespace_def)

lemma word_dark: "word_ok w \<Longrightarrow> dark (w @ r)"
  using white_word(1) by (cases w) (auto simp: word_ok_def dark_def)

lemma gettoken_rest_symbol:
  assumes "rest l s (c # r)" "dark r" "c \<in> {124, 40, 41, 59, 38, 60} \<or> c = 62 \<and> (r = [] \<or> hd r \<noteq> 62)"
  shows "gettoken l (length l) s = (c, (s, s + 1), s + 1)"
proof -
  have "dark (c # r)" using assms(3) by (intro symbol_dark) (auto simp: symbols_set)
  then have "scan white l (length l) s = s" using scan_dark [OF assms(1)] by simp
  moreover have "scan white l (length l) (Suc s) = Suc s" using scan_dark [OF rest_Cons [OF assms(1)] assms(2)] .
  moreover have "at l s = c" "at l (Suc s) = (if r = [] then 0 else hd r)" using rest_at(1) [OF assms(1)] rest_at(1) [OF rest_Cons [OF assms(1)]] by simp_all
  ultimately show ?thesis using assms(3) by (auto simp: gettoken_def)
qed

lemma gettoken_rest_word:
  assumes "rest l s (w @ 32 # r)" "dark r" "word_ok w"
  shows "gettoken l (length l) s = (97, (s, s + length w), s + length w + 1)"
proof -
  obtain c w' where w: "w = c # w'" using assms(3) by (cases w) (auto simp: word_ok_def)
  have c: "at l s = c" using rest_at(1) [OF assms(1)] w by simp
  have "word_char c" "c \<noteq> 0" using assms(3) w by (auto simp: word_ok_def)
  then have n: "c \<notin> {0, 124, 40, 41, 59, 38, 60, 62}" using white_word(2) [of c] by (auto simp: symbols_set)
  have b: "\<not> word_char 32" using white_word(1) [of 32] by (simp add: white_def whitespace_def)
  have "takeWhile word_char (w @ 32 # r) = w" using assms(3) b by (auto simp: word_ok_def takeWhile_append)
  then have e: "scan word_char l (length l) s = s + length w" using rest_scan [OF assms(1)] by simp
  have s: "scan white l (length l) s = s" using scan_dark [OF assms(1) word_dark [OF assms(3)]] .
  have r: "rest l (s + length w) (32 # r)" using rest_skip [OF assms(1)] .
  have "takeWhile white (32 # r) = [32]" using assms(2) by (cases r) (auto simp: dark_def white_def whitespace_def)
  then have "scan white l (length l) (s + length w) = s + length w + 1" using rest_scan [OF r] by simp
  then show ?thesis using s e c n by (simp add: gettoken_def Let_def)
qed

lemma token_text_rest: "rest l s (w @ r) \<Longrightarrow> token_text l (s, s + length w) = w"
  by (simp add: token_text_def rest_def)

section \<open>Redirections and arguments\<close>

lemma parseredirs_stop: "rest l s r \<Longrightarrow> dark r \<Longrightarrow> r = [] \<or> hd r \<notin> {60, 62} \<Longrightarrow> parseredirs c l (length l) s = Parsed c s"
  by (subst parseredirs.simps) (auto simp: peek_rest str_def)

lemma parseredirs_step:
  assumes "rest l s (arrow d # f @ 32 # r)" "word_ok f" "dark r" "(m, d) \<in> {(O_RDONLY, 0), (O_WRONLY_CREATE, 1)}"
  shows "parseredirs c l (length l) s = parseredirs (REDIR c (s + 1, s + 1 + length f) m d) l (length l) (s + 1 + length f + 1)"
proof -
  have f: "f \<noteq> []" "word_char (hd f)" using assms(2) by (auto simp: word_ok_def)
  then have h: "hd (f @ 32 # r) \<noteq> 62" using white_word(2) [of 62] by (auto simp: symbols_set)
  have a: "arrow d \<in> {60, 62}" by (simp add: arrow_def)
  have "dark (arrow d # f @ 32 # r)" using a by (intro symbol_dark) (auto simp: symbols_set)
  then have p: "peek l (length l) s ''<>'' = (s, True)" using peek_rest [OF assms(1)] a by (auto simp: str_def)
  have g1: "gettoken l (length l) s = (arrow d, (s, s + 1), s + 1)"
    using gettoken_rest_symbol [OF assms(1) word_dark [OF assms(2)]] a h by auto
  have g2: "gettoken l (length l) (s + 1) = (97, (s + 1, s + 1 + length f), s + 1 + length f + 1)"
    using gettoken_rest_word [OF rest_Cons [OF assms(1)] assms(3,2)] by simp
  have "redir_of (arrow d) c q = REDIR c q m d" for q using assms(4) by (auto simp: redir_of_def arrow_def)
  then show ?thesis by (subst parseredirs.simps) (simp add: p g1 g2 [simplified])
qed

text \<open>What \<^verbatim>\<open>parseexec\<close> does after redirections: nothing more after a block, and the loop for the arguments of a simple command.\<close>

definition finish :: "byte list \<Rightarrow> nat option \<Rightarrow> token cmd parse \<Rightarrow> token cmd parse" where
  "finish l a x = (case a of None \<Rightarrow> x | Some argc \<Rightarrow> (case x of Failed m \<Rightarrow> Failed m | Parsed c s \<Rightarrow> parseargs c argc l (length l) s))"

lemma finish_stop:
  assumes "rest l s r" "r = [] \<or> hd r \<in> {124, 38, 59, 41}"
  shows "finish l a (parseredirs c l (length l) s) = Parsed c s"
proof -
  have d: "dark r" using assms(2) symbol_dark [of "hd r" "tl r"] by (cases r) (auto simp: symbols_set dark_def)
  have "parseargs c n l (length l) s = Parsed c s" for n
  proof (cases "r = []")
    case True
    then have "gettoken l (length l) s = (0, (s, s), s)" using rest_at(1) [OF assms(1)] scan_dark [OF assms(1) d] by (simp add: gettoken_def)
    then show ?thesis using peek_rest [OF assms(1) d] True by (subst parseargs.simps) simp
  next
    case False
    then show ?thesis using peek_rest [OF assms(1) d] assms(2) by (subst parseargs.simps) (auto simp: str_def)
  qed
  moreover have "parseredirs c l (length l) s = Parsed c s" using parseredirs_stop [OF assms(1) d] assms(2) by auto
  ultimately show ?thesis by (simp add: finish_def split: option.splits)
qed

lemma words_args:
  assumes "rest l s (concat (map (\<lambda>w. w @ [32]) ws) @ r)" "dark r" "\<forall>w \<in> set ws. word_ok w" "argc + length ws < MAXARGS"
  shows "\<exists>qs'. finish l (Some argc) (parseredirs (EXEC qs) l (length l) s) =
      finish l (Some (argc + length ws)) (parseredirs (EXEC (qs @ qs')) l (length l) (s + length (concat (map (\<lambda>w. w @ [32]) ws)))) \<and>
    map (token_text l) qs' = ws"
  using assms
proof (induction ws arbitrary: s argc qs)
  case Nil
  then show ?case by (intro exI [of _ "[]"]) simp
next
  case (Cons w ws)
  let ?t = "concat (map (\<lambda>w. w @ [32]) ws)"
  have w: "word_ok w" "rest l s (w @ 32 # ?t @ r)" using Cons(2,4) by simp_all
  have dt: "dark (?t @ r)" using Cons(3,4) word_dark by (cases ws) auto
  have h: "w \<noteq> []" "word_char (hd w)" "hd w \<noteq> 0" using w(1) by (auto simp: word_ok_def)
  then have ns: "hd w \<notin> {60, 62, 124, 38, 59, 41}" using white_word(2) [of "hd w"] by (auto simp: symbols_set)
  have d: "dark (w @ 32 # ?t @ r)" using word_dark [OF w(1)] .
  have "parseredirs (EXEC qs) l (length l) s = Parsed (EXEC qs) s" using parseredirs_stop [OF w(2) d] h ns by auto
  moreover have "parseargs (EXEC qs) argc l (length l) s =
      finish l (Some (argc + 1)) (parseredirs (EXEC (qs @ [(s, s + length w)])) l (length l) (s + length w + 1))"
  proof -
    have "peek l (length l) s ''|)&;'' = (s, False)" using peek_rest [OF w(2) d] h ns by (auto simp: str_def)
    then show ?thesis using gettoken_rest_word [OF w(2) dt w(1)] Cons(5) by (subst parseargs.simps) (simp add: finish_def split: parse.split)
  qed
  moreover have "rest l (s + length w + 1) (?t @ r)" using rest_skip [OF w(2)] rest_Cons by simp
  then obtain qs' where "finish l (Some (argc + 1)) (parseredirs (EXEC (qs @ [(s, s + length w)])) l (length l) (s + length w + 1)) =
      finish l (Some (argc + 1 + length ws)) (parseredirs (EXEC ((qs @ [(s, s + length w)]) @ qs')) l (length l) (s + length w + 1 + length ?t))"
      "map (token_text l) qs' = ws"
    using Cons(1) [of "s + length w + 1" "argc + 1" "qs @ [(s, s + length w)]"] Cons(3-5) by auto
  ultimately show ?case using token_text_rest [OF w(2)]
    by (intro exI [of _ "(s, s + length w) # qs'"]) (simp add: finish_def add.assoc [symmetric])
qed

section \<open>Reading a text back\<close>

text \<open>What the parsers make of the text of \<open>c\<close> at each level, whenever they return.\<close>

definition reads0 :: "byte list \<Rightarrow> byte list cmd \<Rightarrow> bool" where
  "reads0 l c \<longleftrightarrow> (\<forall>n s r x. rest l s (show_cmd c 0 @ r) \<longrightarrow> r = [] \<or> hd r \<in> set symbols - {40} \<longrightarrow> parseexec n l (length l) s = Some x \<longrightarrow>
     (\<exists>tc a. x = finish l a (parseredirs tc l (length l) (s + length (show_cmd c 0))) \<and> map_cmd (token_text l) tc = c))"

definition reads1 :: "byte list \<Rightarrow> byte list cmd \<Rightarrow> bool" where
  "reads1 l c \<longleftrightarrow> (\<forall>n s r x. rest l s (show_cmd c 1 @ r) \<longrightarrow> r = [] \<or> hd r \<in> {38, 59, 41} \<longrightarrow> parsepipe n l (length l) s = Some x \<longrightarrow>
     (\<exists>tc. x = Parsed tc (s + length (show_cmd c 1)) \<and> map_cmd (token_text l) tc = c))"

definition reads2 :: "byte list \<Rightarrow> byte list cmd \<Rightarrow> bool" where
  "reads2 l c \<longleftrightarrow> (\<forall>n s r x. rest l s (show_cmd c 2 @ r) \<longrightarrow> r = [] \<or> hd r \<in> {38, 59, 41} \<longrightarrow> parsepipe n l (length l) s = Some x \<longrightarrow>
     (\<exists>c0 s0 tc. x = Parsed c0 s0 \<and> parseback c0 l (length l) s0 = parseback tc l (length l) (s + length (show_cmd c 2)) \<and> map_cmd (token_text l) tc = c))"

definition reads3 :: "byte list \<Rightarrow> byte list cmd \<Rightarrow> bool" where
  "reads3 l c \<longleftrightarrow> (\<forall>n s r x. rest l s (show_cmd c 3 @ r) \<longrightarrow> r = [] \<or> hd r = 41 \<longrightarrow> parseline n l (length l) s = Some x \<longrightarrow>
     (\<exists>tc. x = Parsed tc (s + length (show_cmd c 3)) \<and> map_cmd (token_text l) tc = c))"

lemma reads0D: "reads0 l c \<Longrightarrow> rest l s (show_cmd c 0 @ r) \<Longrightarrow> r = [] \<or> hd r \<in> set symbols - {40} \<Longrightarrow> parseexec n l (length l) s = Some x \<Longrightarrow>
    \<exists>tc a. x = finish l a (parseredirs tc l (length l) (s + length (show_cmd c 0))) \<and> map_cmd (token_text l) tc = c"
  unfolding reads0_def by blast

lemma reads1D: "reads1 l c \<Longrightarrow> rest l s (show_cmd c 1 @ r) \<Longrightarrow> r = [] \<or> hd r \<in> {38, 59, 41} \<Longrightarrow> parsepipe n l (length l) s = Some x \<Longrightarrow>
    \<exists>tc. x = Parsed tc (s + length (show_cmd c 1)) \<and> map_cmd (token_text l) tc = c"
  unfolding reads1_def by blast

lemma reads2D: "reads2 l c \<Longrightarrow> rest l s (show_cmd c 2 @ r) \<Longrightarrow> r = [] \<or> hd r \<in> {38, 59, 41} \<Longrightarrow> parsepipe n l (length l) s = Some x \<Longrightarrow>
    \<exists>c0 s0 tc. x = Parsed c0 s0 \<and> parseback c0 l (length l) s0 = parseback tc l (length l) (s + length (show_cmd c 2)) \<and> map_cmd (token_text l) tc = c"
  unfolding reads2_def by blast

lemma reads3D: "reads3 l c \<Longrightarrow> rest l s (show_cmd c 3 @ r) \<Longrightarrow> r = [] \<or> hd r = 41 \<Longrightarrow> parseline n l (length l) s = Some x \<Longrightarrow>
    \<exists>tc. x = Parsed tc (s + length (show_cmd c 3)) \<and> map_cmd (token_text l) tc = c"
  unfolding reads3_def by blast

text \<open>A simple command or a block that ends before one of these symbols.\<close>

lemma reads0_end:
  assumes "reads0 l c" "rest l s (show_cmd c 0 @ r)" "r = [] \<or> hd r \<in> {124, 38, 59, 41}" "parseexec n l (length l) s = Some x"
  shows "\<exists>tc. x = Parsed tc (s + length (show_cmd c 0)) \<and> map_cmd (token_text l) tc = c"
proof -
  have "r = [] \<or> hd r \<in> set symbols - {40}" using assms(3) by (auto simp: symbols_set)
  then show ?thesis using reads0D [OF assms(1,2) _ assms(4)] finish_stop [OF rest_skip [OF assms(2)] assms(3)] by auto
qed

lemma ends_dark: "r = [] \<or> hd r \<in> set symbols \<Longrightarrow> dark r"
  using symbol_dark [of "hd r" "tl r"] by (cases r) (auto simp: dark_def)

lemma dark_show: "typable c \<Longrightarrow> dark r \<Longrightarrow> dark (show_cmd c k @ r)"
proof (induction c arbitrary: k r)
  case (EXEC ws)
  then show ?case using word_dark by (cases ws) auto
next
  case (REDIR c f m d)
  have "dark (arrow d # f @ 32 # r)" by (intro symbol_dark) (simp add: arrow_def symbols_set)
  then show ?case using REDIR by simp
next
  case (PIPE a b)
  then show ?case using PIPE(1) [of "124 # _"] symbol_dark by (simp add: paren_def symbols_set)
next
  case (LIST a b)
  then show ?case using LIST(1) [of "59 # _"] symbol_dark by (simp add: paren_def symbols_set)
next
  case (BACK a)
  then show ?case using BACK(1) [of "38 # _"] symbol_dark by (simp add: paren_def symbols_set)
qed

lemma andthen_Some: "andthen r f = Some x \<Longrightarrow> \<exists>y. r = Some y \<and> (case y of Failed m \<Rightarrow> x = Failed m | Parsed c s \<Rightarrow> f c s = Some x)"
  by (auto simp: andthen_def split: option.splits parse.splits)

lemma reads01:
  assumes "reads0 l c" "show_cmd c 1 = show_cmd c 0"
  shows "reads1 l c"
  unfolding reads1_def
proof (intro allI impI)
  fix n s r x assume a: "rest l s (show_cmd c 1 @ r)" "r = [] \<or> hd r \<in> {38, 59, 41}" "parsepipe n l (length l) s = Some x"
  have d: "dark r" using a(2) by (intro ends_dark) (auto simp: symbols_set)
  obtain m where n: "n = Suc m" using a(3) by (cases n) auto
  let ?e = "s + length (show_cmd c 1)"
  have e: "rest l ?e r" using rest_skip [OF a(1)] .
  obtain y where y: "parseexec m l (length l) s = Some y" using andthen_Some [OF a(3) [unfolded n parsepipe.simps]] by blast
  have "r = [] \<or> hd r \<in> {124, 38, 59, 41}" using a(2) by blast
  then obtain tc where tc: "y = Parsed tc ?e" "map_cmd (token_text l) tc = c"
    using reads0_end [OF assms(1) a(1) [unfolded assms(2)] _ y] assms(2) by auto
  have "peek l (length l) ?e ''|'' = (?e, False)" using peek_rest [OF e d] a(2) by (auto simp: str_def)
  then show "\<exists>tc. x = Parsed tc ?e \<and> map_cmd (token_text l) tc = c" using a(3) n y tc by (auto simp: andthen_def)
qed

lemma reads12: "reads1 l c \<Longrightarrow> show_cmd c 2 = show_cmd c 1 \<Longrightarrow> reads2 l c"
  unfolding reads1_def reads2_def by metis

lemma parseback_stop: "rest l s r \<Longrightarrow> dark r \<Longrightarrow> r = [] \<or> hd r \<noteq> 38 \<Longrightarrow> parseback c l (length l) s = (c, s)"
  by (subst parseback.simps) (auto simp: peek_rest str_def)

lemma parseback_step:
  assumes "rest l s (38 # r)" "dark r"
  shows "parseback c l (length l) s = parseback (BACK c) l (length l) (s + 1)"
proof -
  have "dark (38 # r)" by (intro symbol_dark) (simp add: symbols_set)
  then have "peek l (length l) s ''&'' = (s, True)" using peek_rest [OF assms(1)] by (simp add: str_def)
  then show ?thesis using gettoken_rest_symbol [OF assms] by (subst parseback.simps) simp
qed

lemma reads23:
  assumes "reads2 l c" "show_cmd c 3 = show_cmd c 2"
  shows "reads3 l c"
  unfolding reads3_def
proof (intro allI impI)
  fix n s r x assume a: "rest l s (show_cmd c 3 @ r)" "r = [] \<or> hd r = 41" "parseline n l (length l) s = Some x"
  have d: "dark r" using a(2) by (intro ends_dark) (auto simp: symbols_set)
  obtain m where n: "n = Suc m" using a(3) by (cases n) auto
  let ?e = "s + length (show_cmd c 3)"
  have e: "rest l ?e r" using rest_skip [OF a(1)] .
  obtain y where y: "parsepipe m l (length l) s = Some y" using andthen_Some [OF a(3) [unfolded n parseline.simps]] by blast
  obtain c0 s0 tc where tc: "y = Parsed c0 s0" "parseback c0 l (length l) s0 = parseback tc l (length l) ?e" "map_cmd (token_text l) tc = c"
    using reads2D [OF assms(1) a(1) [unfolded assms(2)] _ y] assms(2) a(2) by auto
  have "parseback c0 l (length l) s0 = (tc, ?e)" using tc(2) parseback_stop [OF e d] a(2) by auto
  moreover have "peek l (length l) ?e '';'' = (?e, False)" using peek_rest [OF e d] a(2) by (auto simp: str_def)
  ultimately show "\<exists>tc. x = Parsed tc ?e \<and> map_cmd (token_text l) tc = c" using a(3) n y tc by (auto simp: andthen_def)
qed

lemma reads30:
  assumes "reads3 l c" "show_cmd c 0 = 40 # show_cmd c 3 @ [41]" "typable c"
  shows "reads0 l c"
  unfolding reads0_def
proof (intro allI impI)
  fix n s r x assume a0: "rest l s (show_cmd c 0 @ r)" "r = [] \<or> hd r \<in> set symbols - {40}" "parseexec n l (length l) s = Some x"
  have "dark r" using a0(2) by (intro ends_dark) auto
  note a = a0(1) this a0(3)
  let ?b = "show_cmd c 3" and ?e = "s + 1 + length (show_cmd c 3)"
  have r0: "rest l s (40 # ?b @ 41 # r)" using a(1) assms(2) by simp
  have r1: "rest l (s + 1) (?b @ 41 # r)" using rest_Cons [OF r0] by simp
  have r2: "rest l ?e (41 # r)" using rest_skip [OF r1] .
  have d2: "dark (41 # r)" by (intro symbol_dark) (simp add: symbols_set)
  have d1: "dark (?b @ 41 # r)" using dark_show [OF assms(3) d2] .
  have d0: "dark (40 # ?b @ 41 # r)" by (intro symbol_dark) (simp add: symbols_set)
  have p0: "peek l (length l) s ''('' = (s, True)" using peek_rest [OF r0 d0] by (simp add: str_def)
  have g0: "gettoken l (length l) s = (40, (s, s + 1), s + 1)" using gettoken_rest_symbol [OF r0 d1] by simp
  have p2: "peek l (length l) ?e '')'' = (?e, True)" using peek_rest [OF r2 d2] by (simp add: str_def)
  have g2: "gettoken l (length l) ?e = (41, (?e, ?e + 1), ?e + 1)" using gettoken_rest_symbol [OF r2 a(2)] by simp
  obtain m where n: "n = Suc m" using a(3) by (cases n) auto
  then have "parseblock m l (length l) s = Some x" using a(3) p0 by simp
  moreover from this obtain k where k: "m = Suc k" by (cases m) auto
  ultimately have b: "andthen (parseline k l (length l) (s + 1)) (\<lambda>c s. case peek l (length l) s '')'' of (s, p) \<Rightarrow>
                 if \<not> p then Some (Failed ''syntax - missing )'')
                 else (case gettoken l (length l) s of (_, _, s) \<Rightarrow> Some (parseredirs c l (length l) s))) = Some x"
    using p0 g0 by simp
  then obtain y where y: "parseline k l (length l) (s + 1) = Some y" using andthen_Some by blast
  obtain tc where tc: "y = Parsed tc ?e" "map_cmd (token_text l) tc = c" using reads3D [OF assms(1) r1 _ y] by auto
  have "x = parseredirs tc l (length l) (?e + 1)" using b y tc p2 g2 by (simp add: andthen_def)
  then show "\<exists>tc a. x = finish l a (parseredirs tc l (length l) (s + length (show_cmd c 0))) \<and> map_cmd (token_text l) tc = c"
    using tc(2) assms(2) by (intro exI [of _ tc] exI [of _ None]) (simp add: finish_def)
qed

lemma reads_EXEC:
  assumes "typable (EXEC ws)"
  shows "reads0 l (EXEC ws)"
  unfolding reads0_def
proof (intro allI impI)
  fix n s r x assume a: "rest l s (show_cmd (EXEC ws) 0 @ r)" "r = [] \<or> hd r \<in> set symbols - {40}" "parseexec n l (length l) s = Some x"
  have r: "dark r" using a(2) by (intro ends_dark) auto
  obtain m where n: "n = Suc m" using a(3) by (cases n) auto
  have d: "dark (show_cmd (EXEC ws) 0 @ r)" using dark_show [OF assms r] .
  obtain qs where qs: "finish l (Some 0) (parseredirs (EXEC []) l (length l) s) =
      finish l (Some (0 + length ws)) (parseredirs (EXEC ([] @ qs)) l (length l) (s + length (show_cmd (EXEC ws) 0)))" "map (token_text l) qs = ws"
    using words_args [of l s ws r 0 "[]"] a(1) r assms by auto
  have h: "show_cmd (EXEC ws) 0 @ r = [] \<or> hd (show_cmd (EXEC ws) 0 @ r) \<noteq> 40"
  proof (cases ws)
    case (Cons w ws')
    then have "w \<noteq> []" "word_char (hd w)" using assms by (auto simp: word_ok_def)
    then show ?thesis using Cons white_word(2) [of 40] by (auto simp: symbols_set)
  qed (use a(2) in auto)
  show "\<exists>tc a. x = finish l a (parseredirs tc l (length l) (s + length (show_cmd (EXEC ws) 0))) \<and> map_cmd (token_text l) tc = EXEC ws"
  proof (cases "peek l (length l) s ''(''")
    case (Pair p b)
    have "\<not> b \<and> p = s"
      using Pair peek_rest [OF a(1) d, of "''(''"] h by (auto simp: str_def)
    then show ?thesis using a(3) n Pair qs by (intro exI [of _ "EXEC qs"] exI [of _ "Some (length ws)"]) (auto simp: finish_def)
  qed
qed

lemma reads_REDIR:
  assumes "reads0 l c" "typable (REDIR c f m d)"
  shows "reads0 l (REDIR c f m d)"
  unfolding reads0_def
proof (intro allI impI)
  fix n s r x assume a: "rest l s (show_cmd (REDIR c f m d) 0 @ r)" "r = [] \<or> hd r \<in> set symbols - {40}" "parseexec n l (length l) s = Some x"
  have r: "dark r" using a(2) by (intro ends_dark) auto
  let ?e = "s + length (show_cmd c 0)"
  have r1: "rest l s (show_cmd c 0 @ arrow d # f @ 32 # r)" using a(1) by simp
  have r2: "rest l ?e (arrow d # f @ 32 # r)" using rest_skip [OF r1] .
  have r3: "rest l (?e + 1) (f @ 32 # r)" using rest_Cons [OF r2] by simp
  have "arrow d \<in> set symbols - {40}" by (simp add: arrow_def symbols_set)
  then obtain tc b where tc: "x = finish l b (parseredirs tc l (length l) ?e)" "map_cmd (token_text l) tc = c"
    using reads0D [OF assms(1) r1 _ a(3)] by auto
  have "parseredirs tc l (length l) ?e = parseredirs (REDIR tc (?e + 1, ?e + 1 + length f) m d) l (length l) (?e + 1 + length f + 1)"
    using parseredirs_step [OF r2 _ r, of m tc] assms(2) by simp
  then show "\<exists>tc b. x = finish l b (parseredirs tc l (length l) (s + length (show_cmd (REDIR c f m d) 0))) \<and> map_cmd (token_text l) tc = REDIR c f m d"
    using tc token_text_rest [OF r3] by (intro exI [of _ "REDIR tc (?e + 1, ?e + 1 + length f) m d"] exI [of _ b]) (simp add: add.assoc)
qed

lemma reads_PIPE:
  assumes "reads0 l a" "reads1 l b" "typable b"
  shows "reads1 l (PIPE a b)"
  unfolding reads1_def
proof (intro allI impI)
  fix n s r x assume h: "rest l s (show_cmd (PIPE a b) 1 @ r)" "r = [] \<or> hd r \<in> {38, 59, 41}" "parsepipe n l (length l) s = Some x"
  let ?e = "s + length (show_cmd a 0)"
  have r1: "rest l s (show_cmd a 0 @ 124 # show_cmd b 1 @ r)" using h(1) by (simp add: paren_def)
  have r2: "rest l ?e (124 # show_cmd b 1 @ r)" using rest_skip [OF r1] .
  have r3: "rest l (?e + 1) (show_cmd b 1 @ r)" using rest_Cons [OF r2] by simp
  have d: "dark (124 # show_cmd b 1 @ r)" "dark (show_cmd b 1 @ r)"
    using symbol_dark [of 124] dark_show [OF assms(3) ends_dark] h(2) by (auto simp: symbols_set)
  obtain m where n: "n = Suc m" using h(3) by (cases n) auto
  obtain y where y: "parseexec m l (length l) s = Some y" using andthen_Some [OF h(3) [unfolded n parsepipe.simps]] by blast
  obtain ta where ta: "y = Parsed ta ?e" "map_cmd (token_text l) ta = a" using reads0_end [OF assms(1) r1 _ y] by auto
  have "peek l (length l) ?e ''|'' = (?e, True)" using peek_rest [OF r2 d(1)] by (simp add: str_def)
  then have x: "andthen (parsepipe m l (length l) (?e + 1)) (\<lambda>r s. Some (Parsed (PIPE ta r) s)) = Some x"
    using h(3) n y ta gettoken_rest_symbol [OF r2 d(2)] by (simp add: andthen_def)
  obtain z where z: "parsepipe m l (length l) (?e + 1) = Some z" using andthen_Some [OF x] by blast
  obtain tb where "z = Parsed tb (?e + 1 + length (show_cmd b 1))" "map_cmd (token_text l) tb = b" using reads1D [OF assms(2) r3 h(2) z] by auto
  then show "\<exists>tc. x = Parsed tc (s + length (show_cmd (PIPE a b) 1)) \<and> map_cmd (token_text l) tc = PIPE a b"
    using x z ta(2) by (auto simp: andthen_def paren_def)
qed

lemma reads_BACK:
  assumes "reads2 l c"
  shows "reads2 l (BACK c)"
  unfolding reads2_def
proof (intro allI impI)
  fix n s r x assume h: "rest l s (show_cmd (BACK c) 2 @ r)" "r = [] \<or> hd r \<in> {38, 59, 41}" "parsepipe n l (length l) s = Some x"
  let ?e = "s + length (show_cmd c 2)"
  have r1: "rest l s (show_cmd c 2 @ 38 # r)" using h(1) by (simp add: paren_def)
  have r2: "rest l ?e (38 # r)" using rest_skip [OF r1] .
  have "dark r" using h(2) by (intro ends_dark) (auto simp: symbols_set)
  then have "parseback tc l (length l) ?e = parseback (BACK tc) l (length l) (?e + 1)" for tc using parseback_step [OF r2] by simp
  then show "\<exists>c0 s0 tc. x = Parsed c0 s0 \<and> parseback c0 l (length l) s0 = parseback tc l (length l) (s + length (show_cmd (BACK c) 2)) \<and> map_cmd (token_text l) tc = BACK c"
    using reads2D [OF assms r1 _ h(3)] by (fastforce simp: paren_def)
qed

lemma reads_LIST:
  assumes "reads2 l a" "reads3 l b" "typable b"
  shows "reads3 l (LIST a b)"
  unfolding reads3_def
proof (intro allI impI)
  fix n s r x assume h: "rest l s (show_cmd (LIST a b) 3 @ r)" "r = [] \<or> hd r = 41" "parseline n l (length l) s = Some x"
  let ?e = "s + length (show_cmd a 2)"
  have r1: "rest l s (show_cmd a 2 @ 59 # show_cmd b 3 @ r)" using h(1) by (simp add: paren_def)
  have r2: "rest l ?e (59 # show_cmd b 3 @ r)" using rest_skip [OF r1] .
  have r3: "rest l (?e + 1) (show_cmd b 3 @ r)" using rest_Cons [OF r2] by simp
  have d: "dark (59 # show_cmd b 3 @ r)" "dark (show_cmd b 3 @ r)"
    using symbol_dark [of 59] dark_show [OF assms(3) ends_dark] h(2) by (auto simp: symbols_set)
  obtain m where n: "n = Suc m" using h(3) by (cases n) auto
  obtain y where y: "parsepipe m l (length l) s = Some y" using andthen_Some [OF h(3) [unfolded n parseline.simps]] by blast
  obtain c0 s0 ta where ta: "y = Parsed c0 s0" "parseback c0 l (length l) s0 = parseback ta l (length l) ?e" "map_cmd (token_text l) ta = a"
    using reads2D [OF assms(1) r1 _ y] by auto
  have "parseback c0 l (length l) s0 = (ta, ?e)" using ta(2) parseback_stop [OF r2 d(1)] by simp
  moreover have "peek l (length l) ?e '';'' = (?e, True)" using peek_rest [OF r2 d(1)] by (simp add: str_def)
  ultimately have x: "andthen (parseline m l (length l) (?e + 1)) (\<lambda>r s. Some (Parsed (LIST ta r) s)) = Some x"
    using h(3) n y ta gettoken_rest_symbol [OF r2 d(2)] by (simp add: andthen_def)
  obtain z where z: "parseline m l (length l) (?e + 1) = Some z" using andthen_Some [OF x] by blast
  obtain tb where "z = Parsed tb (?e + 1 + length (show_cmd b 3))" "map_cmd (token_text l) tb = b" using reads3D [OF assms(2) r3 h(2) z] by auto
  then show "\<exists>tc. x = Parsed tc (s + length (show_cmd (LIST a b) 3)) \<and> map_cmd (token_text l) tc = LIST a b"
    using x z ta(3) by (auto simp: andthen_def paren_def)
qed

lemma reads_all: "typable c \<Longrightarrow> reads0 l c \<and> reads1 l c \<and> reads2 l c \<and> reads3 l c"
proof (induction c)
  case (EXEC ws)
  have "reads0 l (EXEC ws)" using reads_EXEC [OF EXEC] .
  then show ?case using reads01 reads12 reads23 by fastforce
next
  case (REDIR c f m d)
  then have "reads0 l (REDIR c f m d)" by (intro reads_REDIR) simp_all
  then show ?case using reads01 reads12 reads23 by fastforce
next
  case (PIPE a b)
  then have 1: "reads1 l (PIPE a b)" by (intro reads_PIPE) simp_all
  then have 2: "reads2 l (PIPE a b)" by (rule reads12) (simp add: paren_def)
  then have 3: "reads3 l (PIPE a b)" by (rule reads23) (simp add: paren_def)
  then have "reads0 l (PIPE a b)" by (rule reads30) (simp add: paren_def, rule PIPE(3))
  then show ?case using 1 2 3 by blast
next
  case (LIST a b)
  then have 3: "reads3 l (LIST a b)" by (intro reads_LIST) simp_all
  then have 0: "reads0 l (LIST a b)" by (rule reads30) (simp add: paren_def, rule LIST(3))
  then have 1: "reads1 l (LIST a b)" by (rule reads01) (simp add: paren_def)
  then have "reads2 l (LIST a b)" by (rule reads12) (simp add: paren_def)
  then show ?case using 0 1 3 by blast
next
  case (BACK c)
  then have 2: "reads2 l (BACK c)" by (intro reads_BACK) simp_all
  then have 3: "reads3 l (BACK c)" by (rule reads23) (simp add: paren_def)
  then have 0: "reads0 l (BACK c)" by (rule reads30) (simp add: paren_def, rule BACK(2))
  then have "reads1 l (BACK c)" by (rule reads01) (simp add: paren_def)
  then show ?case using 0 2 3 by blast
qed

lemma show_nonzero: "typable c \<Longrightarrow> 0 \<notin> set (show_cmd c k)"
  by (induction c arbitrary: k) (auto simp: word_ok_def paren_def arrow_def)

lemma parsecmd_text:
  assumes "typable c"
  shows "\<exists>tc l. parsecmd (show_cmd c 3) s = Some (Go (tc, l) s) \<and> map_cmd (string_at l) tc = c"
proof -
  let ?l = "show_cmd c 3"
  have z: "0 \<notin> set ?l" using show_nonzero [OF assms] .
  have cs: "cstring ?l = ?l" using z by (auto simp: cstring_def takeWhile_eq_all_conv)
  have "ustrlen xs = length xs" for xs by (induction xs) auto
  then have es: "ustrlen (cstring ?l) = length ?l" using cs by simp
  have le: "line_end ?l (length ?l)" using line_end_cstring [of ?l] es by simp
  obtain x where x: "parseline (4 * length ?l + 4) ?l (length ?l) 0 = Some x" "parse_ok ?l (length ?l) 0 x"
    using parsers_return [OF le, of 0 "4 * length ?l + 4"] by (auto simp: parsed_ok_def split: option.splits)
  have "rest ?l 0 (?l @ [])" "rest ?l (length ?l) []" using z by (simp_all add: rest_def)
  then obtain tc where tc: "x = Parsed tc (length ?l)" "map_cmd (token_text ?l) tc = c" and p: "peek ?l (length ?l) (length ?l) '''' = (length ?l, False)"
    using reads_all [OF assms, of ?l] reads3D [of ?l c 0 "[]"] x(1) peek_rest [of ?l "length ?l" "[]"] by (auto simp: dark_def)
  have "cmd_ok ?l (length ?l) tc" using x(2) tc(1) by simp
  then have "map_cmd (string_at (nulterminate tc ?l)) tc = c"
    using nulterminate_strings [OF _ le] tc(2) cmd.map_cong [OF refl, of tc "string_at (nulterminate tc ?l)" "token_text ?l"] by simp
  then show ?thesis using x(1) tc(1) p es by (auto simp: parsecmd_def Let_def)
qed

section \<open>The programs that are started\<close>

text \<open>What a descriptor stands for: one of those that the shell has itself, an end of a pipe, or a file opened with a mode.\<close>

datatype fobj = Own nat | PipeR nat | PipeW nat | File_on "byte list" u32

definition lowest :: "fobj option list \<Rightarrow> nat option" where
  "lowest fds = find (\<lambda>i. fds ! i = None) [0..<length fds]"

text \<open>The programs that a process and its children start, each with its arguments and descriptors. System calls get the lowest free descriptors as in
  the kernel, and \<^verbatim>\<open>fork\<close> and \<^verbatim>\<open>wait\<close> succeed; \<open>opens\<close> says which files can be opened, \<open>found\<close> which programs exist, and \<open>n\<close> numbers the pipes.\<close>

primrec launch :: "(byte list \<Rightarrow> u32 \<Rightarrow> bool) \<Rightarrow> (byte list \<Rightarrow> bool) \<Rightarrow> prog \<Rightarrow> fobj option list \<Rightarrow> nat \<Rightarrow>
    (byte list \<times> byte list list \<times> fobj option list) list \<times> nat" where
  "launch opens found PExit fds n = ([], n)"
| "launch opens found (PSay d m k) fds n = launch opens found k fds n"
| "launch opens found (PClose d k) fds n = launch opens found k (fds[nat d := None]) n"
| "launch opens found (PDup d k) fds n =
     (case lowest fds of None \<Rightarrow> launch opens found k fds n | Some i \<Rightarrow> launch opens found k (fds[i := fds ! nat d]) n)"
| "launch opens found (PWait k) fds n = launch opens found k fds n"
| "launch opens found (POpen f m k) fds n =
     (case lowest fds of
        None \<Rightarrow> launch opens found (k (-1)) fds n
      | Some i \<Rightarrow> if opens f m then launch opens found (k (int i)) (fds[i := Some (File_on f m)]) n else launch opens found (k (-1)) fds n)"
| "launch opens found (PPipe k) fds n =
     (case lowest fds of
        None \<Rightarrow> launch opens found (k None) fds n
      | Some i \<Rightarrow>
          (case lowest (fds[i := Some (PipeR n)]) of
             None \<Rightarrow> launch opens found (k None) fds n
           | Some j \<Rightarrow> launch opens found (k (Some (int i, int j))) (fds[i := Some (PipeR n), j := Some (PipeW n)]) (n + 1)))"
| "launch opens found (PFork k) fds n =
     (let (xs, n) = launch opens found (k 0) fds n; (ys, n) = launch opens found (k 1) fds n in (xs @ ys, n))"
| "launch opens found (PExec p argv k) fds n = (if found p then ([(p, argv, fds)], n) else launch opens found k fds n)"

text \<open>What should be started. A program is looked for in the segments of the search path, with a slash in between where there is none, and then
  under its own name.\<close>

fun segments :: "byte list \<Rightarrow> byte list list" where
  "segments [] = [[]]"
| "segments (c # s) = (if c = 58 then [] # segments s else (c # hd (segments s)) # tl (segments s))"

definition joined :: "byte list \<Rightarrow> byte list \<Rightarrow> byte list" where
  "joined seg a = (if seg = [] \<or> last seg = 47 then seg @ a else seg @ 47 # a)"

definition candidates :: "byte list \<Rightarrow> byte list \<Rightarrow> byte list list" where
  "candidates path a = (if 47 \<in> set a then [a] else map (\<lambda>seg. take 127 (joined seg a)) (segments (take 127 path)) @ [a])"

primrec plan :: "(byte list \<Rightarrow> u32 \<Rightarrow> bool) \<Rightarrow> (byte list \<Rightarrow> bool) \<Rightarrow> byte list \<Rightarrow> byte list cmd \<Rightarrow> fobj option list \<Rightarrow> nat \<Rightarrow>
    (byte list \<times> byte list list \<times> fobj option list) list \<times> nat" where
  "plan opens found path (EXEC argv) fds n =
     (case argv of
        [] \<Rightarrow> ([], n)
      | a # _ \<Rightarrow> (case find found (candidates path a) of None \<Rightarrow> ([], n) | Some p \<Rightarrow> ([(p, argv, fds)], n)))"
| "plan opens found path (REDIR c f m d) fds n =
     (if opens f m then plan opens found path c (fds[nat d := Some (File_on f m)]) n else ([], n))"
| "plan opens found path (PIPE a b) fds n =
     (let (xs, k) = plan opens found path a (fds[1 := Some (PipeW n)]) (n + 1);
          (ys, k) = plan opens found path b (fds[0 := Some (PipeR n)]) k
      in (xs @ ys, k))"
| "plan opens found path (LIST a b) fds n =
     (let (xs, n) = plan opens found path a fds n; (ys, n) = plan opens found path b fds n in (xs @ ys, n))"
| "plan opens found path (BACK c) fds n = plan opens found path c fds n"

lemma exec_path_joined: "append_exec_path 128 seg a = take 127 (joined seg a)"
proof -
  have u: "ustrlen xs = length xs" for xs by (induction xs) auto
  consider "seg = []" | "seg \<noteq> []" "length seg \<ge> 127" | "seg \<noteq> []" "length seg < 127" by linarith
  then show ?thesis
  proof cases
    case 1
    then show ?thesis by (simp add: append_exec_path_def hello_copy_def joined_def)
  next
    case 2
    then have "(if length seg \<ge> 128 then 128 - 1 else length seg) = 127" by auto
    then show ?thesis using 2 by (simp add: append_exec_path_def u joined_def)
  next
    case 3
    then have "at seg (length seg - 1) = last seg" by (simp add: at_def last_conv_nth)
    then show ?thesis using 3 by (simp add: append_exec_path_def u joined_def hello_copy_def take_Cons' Let_def)
  qed
qed

lemma segments_split:
  "segments p = takeWhile (\<lambda>c. c \<noteq> 58) p # (if dropWhile (\<lambda>c. c \<noteq> 58) p = [] then [] else segments (tl (dropWhile (\<lambda>c. c \<noteq> 58) p)))"
  by (induction p) auto

lemma launch_try_path:
  "launch opens found (try_path p a argv k) fds n =
    (case find found (map (\<lambda>seg. take 127 (joined seg a)) (segments p)) of None \<Rightarrow> launch opens found k fds n | Some x \<Rightarrow> ([(x, argv, fds)], n))"
proof (induction p a argv k rule: try_path.induct)
  case (1 p a argv k)
  show ?case
  proof (cases "dropWhile (\<lambda>c. c \<noteq> 58) p = []")
    case True
    then show ?thesis by (subst try_path.simps, subst segments_split) (simp add: exec_path_joined)
  next
    case False
    then show ?thesis using 1 [OF refl refl False] by (subst try_path.simps, subst segments_split) (simp add: exec_path_joined del: dropWhile_eq_Nil_conv)
  qed
qed

lemma launch_try_exec:
  "launch opens found (try_exec path a argv k) fds n =
    (case find found (candidates path a) of None \<Rightarrow> launch opens found k fds n | Some x \<Rightarrow> ([(x, argv, fds)], n))"
proof (cases "47 \<in> set a")
  case True
  then have "ustrchr a 47 \<noteq> None" using ustrchr_set by blast
  then show ?thesis using True by (simp add: try_exec_def candidates_def)
next
  case False
  then have "ustrchr a 47 = None" using ustrchr_set by blast
  moreover have "find f (xs @ ys) = (case find f xs of None \<Rightarrow> find f ys | Some x \<Rightarrow> Some x)" for f and xs ys :: "byte list list" by (induction xs) auto
  ultimately show ?thesis using False by (simp add: try_exec_def candidates_def launch_try_path hello_copy_def split: option.split)
qed

definition fds_ok :: "fobj option list \<Rightarrow> bool" where
  "fds_ok fds \<longleftrightarrow> fds ! 0 \<noteq> None \<and> fds ! 1 \<noteq> None \<and> (\<exists>i j. i < j \<and> j < length fds \<and> fds ! i = None \<and> fds ! j = None)"

lemma lowestI: "i < length fds \<Longrightarrow> fds ! i = None \<Longrightarrow> (\<And>j. j < i \<Longrightarrow> fds ! j \<noteq> None) \<Longrightarrow> lowest fds = Some i"
  unfolding lowest_def find_Some_iff by (intro exI [of _ i]) auto

lemma lowestD: "lowest fds = Some i \<Longrightarrow> i < length fds \<and> fds ! i = None"
  unfolding lowest_def find_Some_iff by auto

lemma lowest_ex: "i < length fds \<Longrightarrow> fds ! i = None \<Longrightarrow> \<exists>j. lowest fds = Some j"
  unfolding lowest_def using find_None_iff [of "\<lambda>i. fds ! i = None" "[0..<length fds]"] by fastforce

lemma fds_ok_length: "fds_ok fds \<Longrightarrow> 1 < length fds \<and> fds \<noteq> []"
proof -
  assume "fds_ok fds"
  then obtain i j where ij: "i < j" "j < length fds" "fds ! i = None" and o: "fds ! 0 \<noteq> None" by (auto simp: fds_ok_def)
  then have "i \<noteq> 0" by (metis)
  then show ?thesis using ij by auto
qed

lemma fds_ok_set: "fds_ok fds \<Longrightarrow> d \<in> {0, 1} \<Longrightarrow> fds_ok (fds[d := Some x])"
proof -
  assume a: "fds_ok fds" "d \<in> {0, 1}"
  then obtain i j where ij: "i < j" "j < length fds" "fds ! i = None" "fds ! j = None" by (auto simp: fds_ok_def)
  have "i \<noteq> d" "j \<noteq> d" using a ij by (auto simp: fds_ok_def)
  then have "fds[d := Some x] ! i = None" "fds[d := Some x] ! j = None" using ij by simp_all
  then show ?thesis using a ij fds_ok_length [OF a(1)] unfolding fds_ok_def by (auto simp: nth_list_update)
qed

lemma reopen_redir:
  assumes "fds_ok fds" "d \<in> {0, 1}"
  shows "lowest (fds[d := None]) = Some d"
  using assms fds_ok_length [OF assms(1)] by (intro lowestI) (auto simp: fds_ok_def nth_list_update)

lemma two_lowest:
  assumes "fds_ok fds"
  shows "\<exists>i j. lowest fds = Some i \<and> lowest (fds[i := Some x]) = Some j \<and> i \<notin> {0, 1} \<and> j \<notin> {0, 1} \<and> i \<noteq> j \<and> fds ! i = None \<and> fds ! j = None \<and>
    i < length fds \<and> j < length fds"
proof -
  obtain a b where ab: "a < b" "b < length fds" "fds ! a = None" "fds ! b = None" using assms by (auto simp: fds_ok_def)
  obtain i where i: "lowest fds = Some i" using lowest_ex [of a fds] ab by auto
  note i' = lowestD [OF i]
  obtain c where "c < length fds" "c \<noteq> i" "fds ! c = None" using ab by (metis less_trans nat_neq_iff)
  then obtain j where j: "lowest (fds[i := Some x]) = Some j" using lowest_ex [of c "fds[i := Some x]"] by auto
  have "j < length fds" "j \<noteq> i" "fds ! j = None" using lowestD [OF j] i' by (auto simp: nth_list_update split: if_splits)
  moreover have "k \<notin> {0, 1}" if "fds ! k = None" for k using that assms by (metis fds_ok_def insertE singletonD)
  ultimately show ?thesis using i j i' by blast
qed

lemma restored:
  assumes "i \<noteq> d" "j \<noteq> d" "i \<noteq> j" "fds ! i = None" "fds ! j = None" "i < length fds" "j < length fds" "d < length fds"
  shows "fds[i := x, j := y, d := z, i := None, j := None] = fds[d := z]"
  using assms by (intro nth_equalityI) (auto simp: nth_list_update)

lemma runcmd_plan:
  "typable c \<Longrightarrow> fds_ok fds \<Longrightarrow> launch opens found (runcmd path c) fds n = plan opens found path c fds n"
proof (induction c arbitrary: fds n)
  case (EXEC argv)
  then show ?case by (cases argv) (simp_all add: launch_try_exec split: option.split)
next
  case (REDIR c f m d)
  then have d: "nat d \<in> {0, 1}" by auto
  have "lowest (fds[nat d := None]) = Some (nat d)" using reopen_redir [OF REDIR(3) d] .
  moreover have "\<not> int (nat d) < 0" by simp
  ultimately show ?case using REDIR(1) [OF _ fds_ok_set [OF REDIR(3) d]] REDIR(2) by simp
next
  case (PIPE a b)
  obtain i j where ij: "lowest fds = Some i" "lowest (fds[i := Some (PipeR n)]) = Some j" "i \<notin> {0, 1}" "j \<notin> {0, 1}" "i \<noteq> j" "fds ! i = None" "fds ! j = None"
    "i < length fds" "j < length fds" using two_lowest [OF PIPE(4)] by blast
  let ?F = "fds[i := Some (PipeR n), j := Some (PipeW n)]"
  have len: "1 < length fds \<and> fds \<noteq> []" using fds_ok_length [OF PIPE(4)] .
  have o: "fds ! 0 \<noteq> None" "fds ! 1 \<noteq> None" using PIPE(4) by (simp_all add: fds_ok_def)
  have l: "lowest (?F[Suc 0 := None]) = Some 1" "lowest (?F[0 := None]) = Some 0"
    using ij len o by (intro lowestI; auto simp: nth_list_update)+
  have v: "?F[Suc 0 := None] ! j = Some (PipeW n)" "?F[0 := None] ! i = Some (PipeR n)" using ij len by (auto simp: nth_list_update)
  have r: "?F[Suc 0 := Some (PipeW n), i := None, j := None] = fds[1 := Some (PipeW n)]" "?F[0 := Some (PipeR n), i := None, j := None] = fds[0 := Some (PipeR n)]"
    using restored [of i 1 j fds] restored [of i 0 j fds] ij len by auto
  have "launch opens found (runcmd path a) (fds[1 := Some (PipeW n)]) k = plan opens found path a (fds[1 := Some (PipeW n)]) k"
    "launch opens found (runcmd path b) (fds[0 := Some (PipeR n)]) k = plan opens found path b (fds[0 := Some (PipeR n)]) k" for k
    using PIPE(1) [OF _ fds_ok_set [OF PIPE(4)]] PIPE(2) [OF _ fds_ok_set [OF PIPE(4)]] PIPE(3) by simp_all
  then show ?case using ij(1,2) l v r by (simp add: fork1_def Let_def split: prod.split)
next
  case (LIST a b)
  then show ?case by (simp add: fork1_def Let_def split: prod.split)
next
  case (BACK c)
  then show ?case by (simp add: fork1_def Let_def split: prod.split)
qed

text \<open>C39. What is typed is what runs. Every command tree with at most 9 arguments each and sensible words has a text with parentheses only where the grammar needs them (\<^verbatim>\<open>|\<close> binds
  tighter than \<^verbatim>\<open>&\<close>, and \<^verbatim>\<open>&\<close> tighter than \<^verbatim>\<open>;\<close>); for that line the child of the shell parses without output exactly that tree. When standard input and output are open
  and two descriptors are free, \<^verbatim>\<open>runcmd\<close> starts exactly the programs of the tree, in its order: each is the first one that exists on the search path, the
  left side of a pipe has its write end as descriptor 1, the right side its read end as descriptor 0, a redirection replaces its descriptor, and every other descriptor is that of the
  shell: no end of a pipe is left open.\<close>

theorem typed_command_runs:
  assumes "typable c" "fds_ok fds"
  shows "\<exists>p. child h (show_cmd c 3) s = Some (p, s) \<and> launch opens found p fds n = plan opens found (h_path h) c fds n"
  using parsecmd_text [OF assms(1), of s] runcmd_plan [OF assms] by (auto simp: child_def)

theorem typed_command_runs_witness:
  "\<exists>p. child hello_start (str ''a &;(b x ;c )|d >f '') ex_user = Some (p, ex_user) \<and>
     launch (\<lambda>f m. True) (\<lambda>p. take 4 p = str ''bin/'') p [Some (Own 0), Some (Own 1), Some (Own 2), None, None] 0 =
       ([(str ''bin/a'', [str ''a''], [Some (Own 0), Some (Own 1), Some (Own 2), None, None]),
         (str ''bin/b'', [str ''b'', str ''x''], [Some (Own 0), Some (PipeW 0), Some (Own 2), None, None]),
         (str ''bin/c'', [str ''c''], [Some (Own 0), Some (PipeW 0), Some (Own 2), None, None]),
         (str ''bin/d'', [str ''d''], [Some (PipeR 0), Some (File_on (str ''f'') 0x201), Some (Own 2), None, None])], 1)"
proof -
  let ?c = "LIST (BACK (EXEC [str ''a''])) (PIPE (LIST (EXEC [str ''b'', str ''x'']) (EXEC [str ''c''])) (REDIR (EXEC [str ''d'']) (str ''f'') 0x201 1))"
  let ?fds = "[Some (Own 0), Some (Own 1), Some (Own 2), None, None]"
  have "word_ok (str ''a'')" "word_ok (str ''b'')" "word_ok (str ''c'')" "word_ok (str ''d'')" "word_ok (str ''f'')" "word_ok (str ''x'')" by code_simp+
  then have t: "typable ?c" by simp
  have f: "fds_ok ?fds" unfolding fds_ok_def by (intro conjI exI [of _ 3] exI [of _ 4]) simp_all
  have s: "show_cmd ?c 3 = str ''a &;(b x ;c )|d >f ''" by code_simp
  have p: "plan (\<lambda>f m. True) (\<lambda>p. take 4 p = str ''bin/'') (h_path hello_start) ?c ?fds 0 =
       ([(str ''bin/a'', [str ''a''], ?fds),
         (str ''bin/b'', [str ''b'', str ''x''], [Some (Own 0), Some (PipeW 0), Some (Own 2), None, None]),
         (str ''bin/c'', [str ''c''], [Some (Own 0), Some (PipeW 0), Some (Own 2), None, None]),
         (str ''bin/d'', [str ''d''], [Some (PipeR 0), Some (File_on (str ''f'') 0x201), Some (Own 2), None, None])], 1)" by code_simp
  show ?thesis using typed_command_runs [OF t f, of hello_start ex_user "\<lambda>f m. True" "\<lambda>p. take 4 p = str ''bin/''" 0] unfolding s p .
qed

end
