(* ===== verification/Umalloc.thy ===== *)
theory Umalloc
  imports User_Env
begin

text \<open>
  The memory allocator of the user library (\<^verbatim>\<open>user/lib/umalloc.c\<close>, after Kernighan and Ritchie). A header is 8 bytes: the fields
  \<^verbatim>\<open>s.ptr\<close> and \<^verbatim>\<open>s.size\<close> of the header at an address are the values of two maps there. Blocks are counted in
  units of one header; the free blocks form a ring in the order of their addresses.
\<close>

record heap =
  h_ptr :: "u32 \<Rightarrow> u32"
  h_size :: "u32 \<Rightarrow> u32"
  h_base :: u32
  h_freep :: u32
  h_brk :: u32
  h_limit :: u32

definition set_ptr :: "u32 \<Rightarrow> u32 \<Rightarrow> heap \<Rightarrow> heap" where
  "set_ptr a v s = s\<lparr>h_ptr := (h_ptr s)(a := v)\<rparr>"

definition set_hsize :: "u32 \<Rightarrow> u32 \<Rightarrow> heap \<Rightarrow> heap" where
  "set_hsize a v s = s\<lparr>h_size := (h_size s)(a := v)\<rparr>"

text \<open>The system call \<^verbatim>\<open>sbrk\<close> with \<^verbatim>\<open>growproc\<close>: it returns the old break, and \<^verbatim>\<open>-1\<close> when the process cannot grow; \<open>h_limit\<close> is
  how far it can. A negative number makes the process smaller.\<close>

definition sbrk :: "u32 \<Rightarrow> heap \<Rightarrow> u32 \<times> heap" where
  "sbrk n s =
     (if sint n > 0 then
        (if uint (h_brk s) + sint n \<le> uint (h_limit s) then (h_brk s, s\<lparr>h_brk := h_brk s + n\<rparr>) else (-1, s))
      else if sint n < 0 then
        (if h_brk s + n \<ge> h_brk s then (h_brk s, s)
         else if h_brk s + n = 0 then (-1, s)
         else (h_brk s, s\<lparr>h_brk := h_brk s + n\<rparr>))
      else (h_brk s, s))"

text \<open>The search for the place of \<^verbatim>\<open>bp\<close> in the ring.\<close>

partial_function (option) free_loop :: "heap \<Rightarrow> u32 \<Rightarrow> u32 \<Rightarrow> u32 option" where
  "free_loop s bp p =
     (if bp > p \<and> bp < h_ptr s p then Some p
      else if p \<ge> h_ptr s p \<and> (bp > p \<or> bp < h_ptr s p) then Some p
      else free_loop s bp (h_ptr s p))"

definition free :: "u32 \<Rightarrow> heap \<Rightarrow> heap option" where
  "free ap s =
     (let bp = ap - 8
      in case free_loop s bp (h_freep s) of
           None \<Rightarrow> None
         | Some p \<Rightarrow>
             (let n = h_ptr s p;
                  s = (if bp + 8 * h_size s bp = n then set_ptr bp (h_ptr s n) (set_hsize bp (h_size s bp + h_size s n) s)
                       else set_ptr bp n s);
                  s = (if p + 8 * h_size s p = bp then set_ptr p (h_ptr s bp) (set_hsize p (h_size s p + h_size s bp) s)
                       else set_ptr p bp s)
              in Some (s\<lparr>h_freep := p\<rparr>)))"

definition morecore :: "u32 \<Rightarrow> heap \<Rightarrow> (u32 \<times> heap) option" where
  "morecore nu s =
     (let nu = (if nu < 4096 then 4096 else nu);
          (p, s) = sbrk (nu * 8) s
      in if p = -1 then Some (0, s)
         else (case free (p + 8) (set_hsize p nu s) of None \<Rightarrow> None | Some s \<Rightarrow> Some (h_freep s, s)))"

text \<open>The block at \<open>p\<close>, whose predecessor in the ring is \<open>prevp\<close>, or its tail.\<close>

definition take_block :: "u32 \<Rightarrow> u32 \<Rightarrow> u32 \<Rightarrow> heap \<Rightarrow> u32 \<times> heap" where
  "take_block nunits prevp p s =
     (let (p, s) =
            (if h_size s p = nunits then (p, set_ptr prevp (h_ptr s p) s)
             else
               (let s = set_hsize p (h_size s p - nunits) s;
                    p = p + 8 * h_size s p
                in (p, set_hsize p nunits s)))
      in (p + 8, s\<lparr>h_freep := prevp\<rparr>))"

partial_function (option) malloc_loop :: "u32 \<Rightarrow> u32 \<Rightarrow> u32 \<Rightarrow> heap \<Rightarrow> (u32 \<times> heap) option" where
  "malloc_loop nunits prevp p s =
     (if h_size s p \<ge> nunits then Some (take_block nunits prevp p s)
      else if p = h_freep s then
        (case morecore nunits s of
           None \<Rightarrow> None
         | Some (p, s) \<Rightarrow> if p = 0 then Some (0, s) else malloc_loop nunits p (h_ptr s p) s)
      else malloc_loop nunits p (h_ptr s p) s)"

definition nunits :: "u32 \<Rightarrow> u32" where
  "nunits nbytes = (nbytes + 8 - 1) div 8 + 1"

definition malloc :: "u32 \<Rightarrow> heap \<Rightarrow> (u32 \<times> heap) option" where
  "malloc nbytes s =
     (let s = (if h_freep s = 0 then set_hsize (h_base s) 0 ((set_ptr (h_base s) (h_base s) s)\<lparr>h_freep := h_base s\<rparr>) else s);
          prevp = h_freep s
      in malloc_loop (nunits nbytes) prevp (h_ptr s prevp) s)"

end
