(* ===== verification/Umalloc_Properties.thy ===== *)
theory Umalloc_Properties
  imports Umalloc
begin

text \<open>
  The allocator hands out disjoint blocks: the ring of free blocks, what \<^verbatim>\<open>free\<close> and \<^verbatim>\<open>malloc\<close> do to it, and the blocks that
  are in use.
\<close>

section \<open>The ring of free blocks\<close>

definition bend :: "heap \<Rightarrow> u32 \<Rightarrow> nat" where
  "bend s a = unat a + 8 * unat (h_size s a)"

definition block :: "heap \<Rightarrow> u32 \<Rightarrow> nat set" where
  "block s a = {unat a..<bend s a}"

definition funits :: "heap \<Rightarrow> u32 list \<Rightarrow> nat set" where
  "funits s L = (\<Union>a \<in> set L. block s a)"

definition first :: "u32 list \<Rightarrow> u32 \<Rightarrow> u32" where
  "first l e = (case l of [] \<Rightarrow> e | b # _ \<Rightarrow> b)"

primrec linked :: "heap \<Rightarrow> u32 list \<Rightarrow> u32 \<Rightarrow> bool" where
  "linked s [] e \<longleftrightarrow> True"
| "linked s (a # l) e \<longleftrightarrow> h_ptr s a = first l e \<and> linked s l e"

definition spaced :: "heap \<Rightarrow> u32 list \<Rightarrow> bool" where
  "spaced s L \<longleftrightarrow> sorted_wrt (\<lambda>a b. bend s a < unat b) L"

definition node_ok :: "heap \<Rightarrow> u32 \<Rightarrow> bool" where
  "node_ok s a \<longleftrightarrow> 0 < unat (h_size s a) \<and> unat (h_base s) + 8 \<le> unat a \<and> bend s a \<le> unat (h_brk s)"

definition heap_inv :: "heap \<Rightarrow> u32 list \<Rightarrow> bool" where
  "heap_inv s L \<longleftrightarrow> L \<noteq> [] \<and> hd L = h_base s \<and> h_base s \<noteq> 0 \<and> h_size s (h_base s) = 0 \<and> h_freep s \<in> set L \<and>
     linked s L (h_base s) \<and> spaced s L \<and> (\<forall>a \<in> set (tl L). node_ok s a) \<and>
     unat (h_base s) + 8 \<le> unat (h_brk s) \<and> unat (h_brk s) \<le> unat (h_limit s) \<and> unat (h_limit s) \<le> 2 ^ 31"

lemma first_simps [simp]: "first [] e = e" "first (b # l) e = b" "first (P @ Q) e = first P (first Q e)"
  by (simp_all add: first_def split: list.splits)

lemma linked_append: "linked s (P @ Q) e \<longleftrightarrow> linked s P (first Q e) \<and> linked s Q e"
  by (induction P) auto

lemma linked_cong: "(\<And>a. a \<in> set L \<Longrightarrow> h_ptr s' a = h_ptr s a) \<Longrightarrow> linked s' L e = linked s L e"
  by (induction L) auto

lemma bend_cong: "h_size s' a = h_size s a \<Longrightarrow> bend s' a = bend s a"
  by (simp add: bend_def)

lemma block_cong: "h_size s' a = h_size s a \<Longrightarrow> block s' a = block s a"
  by (simp add: block_def bend_def)

lemma funits_cong: "(\<And>a. a \<in> set L \<Longrightarrow> h_size s' a = h_size s a) \<Longrightarrow> funits s' L = funits s L"
  by (simp add: funits_def block_def bend_def)

lemma funits_simps [simp]: "funits s [] = {}" "funits s (a # L) = block s a \<union> funits s L" "funits s (P @ Q) = funits s P \<union> funits s Q"
  by (simp_all add: funits_def Un_commute)

lemma spaced_append: "spaced s (P @ Q) \<longleftrightarrow> spaced s P \<and> spaced s Q \<and> (\<forall>a \<in> set P. \<forall>b \<in> set Q. bend s a < unat b)"
  by (simp add: spaced_def sorted_wrt_append)

lemma spaced_Cons [simp]: "spaced s (a # L) \<longleftrightarrow> spaced s L \<and> (\<forall>b \<in> set L. bend s a < unat b)" "spaced s []"
  by (auto simp: spaced_def)

lemma spaced_cong: "(\<And>a. a \<in> set L \<Longrightarrow> h_size s' a = h_size s a) \<Longrightarrow> spaced s' L = spaced s L"
  by (induction L) (simp_all add: bend_def)

lemma bend_ge: "unat a \<le> bend s a"
  by (simp add: bend_def)

lemma spaced_less: "spaced s (P @ Q) \<Longrightarrow> a \<in> set P \<Longrightarrow> b \<in> set Q \<Longrightarrow> a < b"
  unfolding spaced_append word_less_nat_alt using le_less_trans [OF bend_ge] by blast

lemma spaced_distinct: "spaced s L \<Longrightarrow> distinct L"
  by (induction L) (auto simp: bend_def)

lemma bend_word:
  assumes "bend s a \<le> 2 ^ 31"
  shows "unat (a + 8 * h_size s a) = bend s a"
proof -
  have "a + 8 * h_size s a = of_nat (bend s a)" by (simp add: bend_def)
  then show ?thesis using assms by (simp add: unat_of_nat32)
qed

lemma heap_invD:
  assumes "heap_inv s L" "a \<in> set L"
  shows "bend s a \<le> unat (h_brk s)" "bend s a \<le> 2 ^ 31" "unat (h_base s) \<le> unat a" "a \<noteq> h_base s \<Longrightarrow> node_ok s a"
proof -
  obtain l where L: "L = h_base s # l" using assms(1) by (cases L) (auto simp: heap_inv_def)
  have b: "bend s (h_base s) = unat (h_base s)" using assms(1) by (simp add: heap_inv_def bend_def)
  show "a \<noteq> h_base s \<Longrightarrow> node_ok s a" using assms L by (auto simp: heap_inv_def)
  show "bend s a \<le> unat (h_brk s)" using assms L b by (auto simp: heap_inv_def node_ok_def)
  then show "bend s a \<le> 2 ^ 31" using assms(1) by (auto simp: heap_inv_def)
  show "unat (h_base s) \<le> unat a" using assms L by (auto simp: heap_inv_def node_ok_def)
qed

section \<open>Finding the place of a block\<close>

lemma free_loop_found:
  assumes "heap_inv s L" "L = P @ Q" "P \<noteq> []" "\<forall>a \<in> set P. a < bp" "\<forall>a \<in> set Q. bp < a"
  shows "free_loop s bp (last P) = Some (last P)"
proof -
  obtain A where P: "P = A @ [last P]" using assms(3) by (metis append_butlast_last_id)
  have "linked s (A @ last P # Q) (h_base s)" using assms(1,2) P by (metis heap_inv_def append.assoc append_Cons append_Nil)
  then have n: "h_ptr s (last P) = first Q (h_base s)" by (simp add: linked_append)
  have lt: "last P < bp" using assms(3,4) by simp
  show ?thesis
  proof (cases Q)
    case Nil
    have "h_base s \<le> last P" using heap_invD(3) [OF assms(1), of "last P"] assms(2,3) by (simp add: word_le_nat_alt)
    then show ?thesis using lt n Nil by (subst free_loop.simps) auto
  next
    case (Cons q Q')
    then show ?thesis using lt n assms(5) by (subst free_loop.simps) auto
  qed
qed

lemma free_loop_left:
  assumes "heap_inv s L" "L = P @ Q" "\<forall>a \<in> set P. a < bp" "\<forall>a \<in> set Q. bp < a" "P = A @ q # C"
  shows "free_loop s bp q = Some (last P)"
  using assms(5)
proof (induction C arbitrary: A q)
  case Nil
  then have "last P = q" by simp
  then show ?case using free_loop_found [OF assms(1,2) _ assms(3,4)] Nil by auto
next
  case (Cons c C)
  have L: "L = (A @ [q]) @ (c # C @ Q)" using assms(2) Cons(2) by simp
  have "linked s ((A @ [q]) @ (c # C @ Q)) (h_base s)" "spaced s ((A @ [q]) @ (c # C @ Q))" using assms(1) L by (simp_all only: heap_inv_def)
  then have "h_ptr s q = c" "q < c" using spaced_less [of s "A @ [q]" "c # C @ Q" q c] by (simp_all add: linked_append)
  moreover have "c < bp" "q < bp" using assms(3) Cons(2) by auto
  ultimately have "free_loop s bp q = free_loop s bp c" by (subst free_loop.simps) auto
  then show ?case using Cons(1) [of "A @ [q]" c] Cons(2) by simp
qed

lemma free_loop_right:
  assumes "heap_inv s L" "L = P @ Q" "P \<noteq> []" "\<forall>a \<in> set P. a < bp" "\<forall>a \<in> set Q. bp < a" "Q = A @ q # C"
  shows "free_loop s bp q = Some (last P)"
  using assms(6)
proof (induction C arbitrary: A q)
  case Nil
  obtain p P' where P: "P = p # P'" using assms(3) by (cases P) auto
  have L: "L = P @ A @ [q]" using assms(2) Nil by simp
  have "linked s (P @ A @ [q]) (h_base s)" using assms(1) L by (simp only: heap_inv_def)
  then have n: "h_ptr s q = h_base s" by (simp add: linked_append)
  have b: "h_base s = p" using assms(1,2) P by (simp add: heap_inv_def)
  have "bp < q" "h_base s < bp" using assms(4,5) Nil P b by auto
  then have "free_loop s bp q = free_loop s bp (h_base s)" using n by (subst free_loop.simps) auto
  then show ?case using free_loop_left [OF assms(1,2,4,5), of "[]" p P'] P b by simp
next
  case (Cons c C)
  have L: "L = (P @ A @ [q]) @ (c # C)" using assms(2) Cons(2) by simp
  have "linked s ((P @ A @ [q]) @ (c # C)) (h_base s)" "spaced s ((P @ A @ [q]) @ (c # C))" using assms(1) L by (simp_all only: heap_inv_def)
  then have "h_ptr s q = c" "q < c" using spaced_less [of s "P @ A @ [q]" "c # C" q c] by (simp_all add: linked_append)
  moreover have "bp < c" "bp < q" using assms(5) Cons(2) by auto
  ultimately have "free_loop s bp q = free_loop s bp c" by (subst free_loop.simps) auto
  then show ?case using Cons(1) [of "A @ [q]" c] Cons(2) by simp
qed

lemma free_loop_spec:
  assumes "heap_inv s L" "L = P @ Q" "P \<noteq> []" "\<forall>a \<in> set P. a < bp" "\<forall>a \<in> set Q. bp < a" "q \<in> set L"
  shows "free_loop s bp q = Some (last P)"
proof -
  have "q \<in> set P \<or> q \<in> set Q" using assms(2,6) by auto
  then show ?thesis using free_loop_left [OF assms(1,2,4,5)] free_loop_right [OF assms(1-5)] by (auto dest: split_list)
qed

section \<open>Giving a block back\<close>

lemma set_simps [simp]:
  "h_ptr (set_ptr a v s) = (h_ptr s)(a := v)" "h_size (set_ptr a v s) = h_size s" "h_base (set_ptr a v s) = h_base s"
  "h_freep (set_ptr a v s) = h_freep s" "h_brk (set_ptr a v s) = h_brk s" "h_limit (set_ptr a v s) = h_limit s"
  "h_ptr (set_hsize a v s) = h_ptr s" "h_size (set_hsize a v s) = (h_size s)(a := v)" "h_base (set_hsize a v s) = h_base s"
  "h_freep (set_hsize a v s) = h_freep s" "h_brk (set_hsize a v s) = h_brk s" "h_limit (set_hsize a v s) = h_limit s"
  by (simp_all add: set_ptr_def set_hsize_def)

lemma bend_freep [simp]: "bend (s\<lparr>h_freep := p\<rparr>) a = bend s a" "block (s\<lparr>h_freep := p\<rparr>) a = block s a" "funits (s\<lparr>h_freep := p\<rparr>) L = funits s L"
  "linked (s\<lparr>h_freep := p\<rparr>) L e = linked s L e" "spaced (s\<lparr>h_freep := p\<rparr>) L = spaced s L" "node_ok (s\<lparr>h_freep := p\<rparr>) a = node_ok s a"
proof -
  show b: "bend (s\<lparr>h_freep := p\<rparr>) a = bend s a" for a by (simp add: bend_def)
  show k: "block (s\<lparr>h_freep := p\<rparr>) a = block s a" for a by (simp add: b block_def)
  show "funits (s\<lparr>h_freep := p\<rparr>) L = funits s L" by (simp add: funits_def k)
  show "linked (s\<lparr>h_freep := p\<rparr>) L e = linked s L e" by (rule linked_cong) simp
  show "spaced (s\<lparr>h_freep := p\<rparr>) L = spaced s L" by (simp add: spaced_def b)
  show "node_ok (s\<lparr>h_freep := p\<rparr>) a = node_ok s a" by (simp add: node_ok_def b)
qed

text \<open>Two states that agree on everything at an address and on the bounds.\<close>

definition same_at :: "heap \<Rightarrow> heap \<Rightarrow> u32 \<Rightarrow> bool" where
  "same_at s s' a \<longleftrightarrow> h_ptr s' a = h_ptr s a \<and> h_size s' a = h_size s a"

definition same_bounds :: "heap \<Rightarrow> heap \<Rightarrow> bool" where
  "same_bounds s s' \<longleftrightarrow> h_base s' = h_base s \<and> h_brk s' = h_brk s \<and> h_limit s' = h_limit s"

lemma same_list:
  assumes "\<And>a. a \<in> set L \<Longrightarrow> same_at s s' a"
  shows "linked s' L e = linked s L e" "spaced s' L = spaced s L" "funits s' L = funits s L"
  using assms by (auto intro!: linked_cong spaced_cong funits_cong simp: same_at_def)

lemma same_node: "same_at s s' a \<Longrightarrow> same_bounds s s' \<Longrightarrow> node_ok s' a = node_ok s a"
  by (simp add: same_at_def same_bounds_def node_ok_def bend_def)

lemma size_sum:
  assumes "bend s a = unat b" "bend s b \<le> 2 ^ 31"
  shows "unat (h_size s a + h_size s b) = unat (h_size s a) + unat (h_size s b)" "unat a + 8 * unat (h_size s a + h_size s b) = bend s b"
proof -
  have "unat (h_size s a) + unat (h_size s b) < 2 ^ 32" using assms by (simp add: bend_def)
  then show u: "unat (h_size s a + h_size s b) = unat (h_size s a) + unat (h_size s b)" by (simp add: unat_add_lem [symmetric])
  show "unat a + 8 * unat (h_size s a + h_size s b) = bend s b" using assms(1) unfolding u by (simp add: bend_def)
qed

lemma place:
  assumes "heap_inv s L" "bp \<notin> set L" "h_base s < bp"
  shows "\<exists>P Q. L = P @ Q \<and> P \<noteq> [] \<and> (\<forall>a \<in> set P. a < bp) \<and> (\<forall>a \<in> set Q. bp < a)"
proof -
  let ?P = "takeWhile (\<lambda>a. a < bp) L" and ?Q = "dropWhile (\<lambda>a. a < bp) L"
  have sp: "spaced s (?P @ ?Q)" using assms(1) by (simp add: heap_inv_def)
  have "bp < a" if "a \<in> set ?Q" for a
  proof (cases ?Q)
    case (Cons q Q)
    then have "\<not> q < bp" "q \<in> set L" by (metis (no_types) dropWhile_eq_Cons_conv, metis Cons list.set_intros(1) set_dropWhileD)
    then have q: "bp < q" using assms(2) by (metis linorder_neqE)
    have "a = q \<or> q < a" using that Cons sp spaced_less [of s "?P @ [q]" Q q a] by auto
    then show ?thesis using q by auto
  next
    case Nil
    then show ?thesis using that by (simp only: list.set) simp
  qed
  moreover have "?P \<noteq> []" using assms(1,3) by (cases L) (auto simp: heap_inv_def)
  ultimately show ?thesis by (intro exI [of _ ?P] exI [of _ ?Q]) (auto dest: set_takeWhileD)
qed

definition join_right :: "u32 \<Rightarrow> u32 \<Rightarrow> heap \<Rightarrow> heap" where
  "join_right bp n s =
     (if bp + 8 * h_size s bp = n then set_ptr bp (h_ptr s n) (set_hsize bp (h_size s bp + h_size s n) s) else set_ptr bp n s)"

definition join_left :: "u32 \<Rightarrow> u32 \<Rightarrow> heap \<Rightarrow> heap" where
  "join_left p bp s =
     (if p + 8 * h_size s p = bp then set_ptr p (h_ptr s bp) (set_hsize p (h_size s p + h_size s bp) s) else set_ptr p bp s)"

lemma free_joins:
  "free (bp + 8) s =
    (case free_loop s bp (h_freep s) of None \<Rightarrow> None | Some p \<Rightarrow> Some ((join_left p bp (join_right bp (h_ptr s p) s))\<lparr>h_freep := p\<rparr>))"
  by (simp add: free_def join_left_def join_right_def Let_def split: option.split)

lemma join_right_spec:
  assumes "heap_inv s (P @ Q)" "P \<noteq> []" "\<forall>a \<in> set Q. bp < a" "node_ok s bp" "block s bp \<inter> funits s Q = {}"
  shows "\<exists>Q1. linked (join_right bp (first Q (h_base s)) s) (bp # Q1) (h_base s) \<and> spaced (join_right bp (first Q (h_base s)) s) (bp # Q1) \<and>
    funits (join_right bp (first Q (h_base s)) s) (bp # Q1) = block s bp \<union> funits s Q \<and>
    (\<forall>a \<in> set (bp # Q1). node_ok (join_right bp (first Q (h_base s)) s) a) \<and> set Q1 \<subseteq> set Q"
proof -
  let ?s = "join_right bp (first Q (h_base s)) s"
  have sb: "same_bounds s ?s" "\<And>a. a \<noteq> bp \<Longrightarrow> same_at s ?s a" by (simp_all add: join_right_def same_bounds_def same_at_def)
  have lim: "unat (h_brk s) \<le> 2 ^ 31" using assms(1) by (auto simp: heap_inv_def)
  have Q: "linked s Q (h_base s)" "spaced s Q" using assms(1) by (simp_all add: heap_inv_def linked_append spaced_append)
  have nQ: "node_ok s a" if "a \<in> set Q" for a using assms(1,2) that by (auto simp: heap_inv_def)
  have bw: "unat (bp + 8 * h_size s bp) = bend s bp" using bend_word [of s bp] assms(4) lim by (simp add: node_ok_def)
  have ge: "bend s bp \<le> unat a" if "a \<in> set Q" for a
  proof (rule ccontr)
    assume "\<not> bend s bp \<le> unat a"
    then have "unat a \<in> block s bp \<inter> block s a" using assms(3) that nQ [OF that] by (auto simp: block_def bend_def node_ok_def word_less_nat_alt)
    then show False using assms(5) that by (auto simp: funits_def)
  qed
  have keep: "linked ?s Q' e = linked s Q' e" "spaced ?s Q' = spaced s Q'" "funits ?s Q' = funits s Q'" "\<forall>a \<in> set Q'. node_ok ?s a" if "set Q' \<subseteq> set Q" for Q' e
  proof -
    have "same_at s ?s a" if "a \<in> set Q'" for a
    proof -
      have "bp < a" using that \<open>set Q' \<subseteq> set Q\<close> assms(3) by blast
      then show ?thesis using sb(2) [of a] by simp
    qed
    note k = this
    show "linked ?s Q' e = linked s Q' e" "spaced ?s Q' = spaced s Q'" "funits ?s Q' = funits s Q'" using same_list [OF k] by blast+
    show "\<forall>a \<in> set Q'. node_ok ?s a" using same_node [OF k sb(1)] nQ that by auto
  qed
  show ?thesis
  proof (cases "bp + 8 * h_size s bp = first Q (h_base s)")
    case True
    obtain q Q' where q: "Q = q # Q'"
    proof (cases Q)
      case Nil
      then have "bend s bp = unat (h_base s)" using True bw by simp
      then show ?thesis using assms(4) by (simp add: node_ok_def bend_def)
    qed auto
    have e: "bend s bp = unat q" using True bw q by simp
    have bq: "bend s q \<le> 2 ^ 31" using nQ [of q] q lim by (auto simp: node_ok_def)
    have sz: "h_size ?s bp = h_size s bp + h_size s q" "h_ptr ?s bp = h_ptr s q" using True q by (simp_all add: join_right_def)
    have be: "bend ?s bp = bend s q" using size_sum(2) [OF e bq] sz by (simp add: bend_def)
    have "block ?s bp = block s bp \<union> block s q" using be e bend_ge [of bp s] bend_ge [of q s] by (auto simp: block_def)
    moreover have "h_ptr s q = first Q' (h_base s)" using Q(1) q by simp
    moreover have "node_ok ?s bp" using be assms(4) nQ [of q] q size_sum(1) [OF e bq] sz sb(1) by (simp add: node_ok_def same_bounds_def)
    moreover have "set Q' \<subseteq> set Q" using q by auto
    ultimately show ?thesis using keep [of Q'] Q q be sz by (intro exI [of _ Q']) auto
  next
    case False
    have "bend s bp < unat a" if "a \<in> set Q" for a
    proof (cases Q)
      case (Cons q Q')
      have "unat (bp + 8 * h_size s bp) \<noteq> unat q" using False Cons word_unat_eq_iff [of "bp + 8 * h_size s bp" q] by (simp only: first_simps) blast
      then have "bend s bp < unat q" using ge [of q] bw Cons by simp
      moreover have "unat q \<le> unat a" using that Cons Q(2) bend_ge [of q s] by force
      ultimately show ?thesis by simp
    qed (use that in simp)
    moreover have k: "h_size ?s bp = h_size s bp" "h_ptr ?s bp = first Q (h_base s)" using False by (simp_all add: join_right_def)
    moreover have "bend ?s bp = bend s bp" "block ?s bp = block s bp" using bend_cong [OF k(1)] block_cong [OF k(1)] .
    moreover have "node_ok ?s bp" using calculation(4) k(1) assms(4) sb(1) by (simp add: node_ok_def same_bounds_def)
    ultimately show ?thesis using keep [of Q] Q by (intro exI [of _ Q]) auto
  qed
qed

lemma join_left_spec:
  assumes "heap_inv s (P @ Q)" "P = A @ [p]" "\<forall>a \<in> set P. a < bp" "\<forall>a \<in> set Q. bp < a" "block s bp \<inter> funits s P = {}" "node_ok s bp"
    and same: "\<And>a. a \<noteq> bp \<Longrightarrow> same_at s s1 a" "same_bounds s s1"
    and Q1: "linked s1 (bp # Q1) (h_base s)" "spaced s1 (bp # Q1)" "\<forall>a \<in> set (bp # Q1). node_ok s1 a" "set Q1 \<subseteq> set Q"
  shows "\<exists>L'. heap_inv ((join_left p bp s1)\<lparr>h_freep := p\<rparr>) L' \<and> funits (join_left p bp s1) L' = funits s P \<union> funits s1 (bp # Q1)"
proof -
  let ?s = "join_left p bp s1"
  have sb: "same_bounds s1 ?s" "\<And>a. a \<noteq> p \<Longrightarrow> same_at s1 ?s a" by (simp_all add: join_left_def same_bounds_def same_at_def)
  have lim: "unat (h_brk s) \<le> 2 ^ 31" using assms(1) by (auto simp: heap_inv_def)
  have P: "linked s P (first Q (h_base s))" "spaced s P" using assms(1) by (simp_all add: heap_inv_def linked_append spaced_append)
  have pL: "p \<in> set (P @ Q)" using assms(2) by simp
  have P1: "same_at s s1 a" if "a \<in> set P" for a
  proof -
    have "a < bp" using that assms(3) by blast
    then show ?thesis using same(1) [of a] by simp
  qed
  have pb: "p < bp" "p \<noteq> bp" using assms(2,3) by auto
  have bp1: "bend s1 p = bend s p" using P1 [of p] assms(2) by (simp add: same_at_def bend_def)
  have bw: "unat (p + 8 * h_size s1 p) = bend s p"
    using bend_word [of s1 p] bp1 heap_invD(2) [OF assms(1) pL] by simp
  have le: "bend s p \<le> unat bp"
  proof (cases "p = h_base s")
    case True
    then show ?thesis using assms(1,6) by (simp add: heap_inv_def bend_def node_ok_def)
  next
    case False
    show ?thesis
    proof (rule ccontr)
      assume "\<not> bend s p \<le> unat bp"
      then have "unat bp \<in> block s bp \<inter> block s p" using pb assms(6) by (auto simp: block_def bend_def node_ok_def word_less_nat_alt)
      then show False using assms(2,5) by (auto simp: funits_def)
    qed
  qed
  have ltA: "bend s a < unat p" if "a \<in> set A" for a using P(2) that assms(2) by (auto simp: spaced_append)
  have lA: "linked s A p" "spaced s A" "p \<notin> set A" using P assms(2) spaced_distinct [OF P(2)] by (auto simp: linked_append spaced_append)
  have sameA: "same_at s ?s a" if "a \<in> set A" for a using that lA(3) sb(2) [of a] P1 [of a] assms(2) by (auto simp: same_at_def)
  have A: "linked ?s A p" "spaced ?s A" "funits ?s A = funits s A" using same_list [OF sameA] lA by auto
  have bA: "bend ?s a = bend s a" if "a \<in> set A" for a using sameA [OF that] by (simp add: same_at_def bend_def)
  have "p \<notin> set Q1" using pb(1) assms(4) Q1(4) by (meson less_asym subsetD)
  then have Q1p: "p \<notin> set (bp # Q1)" using pb(2) by simp
  have sameQ: "same_at s1 ?s a" if "a \<in> set (bp # Q1)" for a using that Q1p sb(2) by metis
  have Q: "linked ?s (bp # Q1) (h_base s)" "spaced ?s (bp # Q1)" "funits ?s (bp # Q1) = funits s1 (bp # Q1)" "\<forall>a \<in> set (bp # Q1). node_ok ?s a"
    using same_list [of "bp # Q1", OF sameQ] same_node [OF sameQ sb(1)] Q1(1-3) by blast+
  have bQ: "unat bp \<le> unat a" if "a \<in> set (bp # Q1)" for a using that Q1(2) bend_ge [of bp s1] by force
  have base: "h_base ?s = h_base s" "h_brk ?s = h_brk s" "h_limit ?s = h_limit s" using sb(1) same(2) by (simp_all add: same_bounds_def)
  have tlP: "tl (P @ R) = tl P @ R" for R using assms(2) by (cases A) simp_all
  have nP: "node_ok s a" if "a \<in> set (tl P)" for a using assms(1) that tlP [of Q] by (simp add: heap_inv_def)
  have tlA: "node_ok ?s a" if "a \<in> set (tl P)" "a \<noteq> p" for a
  proof -
    have "a \<in> set A" using that assms(2) by (cases A) auto
    then have k: "same_at s ?s a" using sameA by simp
    have "same_bounds s ?s" using base by (simp add: same_bounds_def)
    then show ?thesis using same_node [OF k] nP [OF that(1)] by simp
  qed
  have spP: "spaced ?s P" using A(2) ltA bA assms(2) by (auto simp: spaced_append)
  have hdP: "hd (P @ R) = h_base s" for R using assms(1,2) by (cases A) (auto simp: heap_inv_def)
  have baseP: "h_base s \<in> set A \<or> h_base s = p \<and> A = []" using hdP [of "[]"] assms(2) by (cases A) auto
  show ?thesis
  proof (cases "p + 8 * h_size s1 p = bp")
    case True
    then have e: "bend s1 p = unat bp" using bw bp1 by simp
    have bb: "bend s1 bp \<le> 2 ^ 31" using Q1(3) lim same(2) by (auto simp: node_ok_def same_bounds_def)
    have sz: "h_size ?s p = h_size s1 p + h_size s1 bp" "h_ptr ?s p = h_ptr s1 bp" using True by (simp_all add: join_left_def)
    have be: "bend ?s p = bend s1 bp" using size_sum(2) [OF e bb] sz by (simp add: bend_def)
    have nb: "p \<noteq> h_base s" using e bp1 assms(1,6) by (auto simp: heap_inv_def bend_def node_ok_def)
    have np: "node_ok s p" using heap_invD(4) [OF assms(1) pL nb] .
    have "node_ok ?s p" using be np Q1(3) size_sum(1) [OF e bb] sz base same(2) by (simp add: node_ok_def same_bounds_def)
    then have nodes: "\<forall>a \<in> set (tl (P @ Q1)). node_ok ?s a" using tlA Q(4) unfolding tlP by auto
    have "h_base s \<in> set A" using baseP nb by auto
    then have "h_size ?s (h_base s) = 0" using sameA [of "h_base s"] assms(1) by (simp add: same_at_def heap_inv_def)
    moreover have "linked ?s (P @ Q1) (h_base s)" using A(1) Q(1) sz(2) Q1(1) assms(2) by (simp add: linked_append)
    moreover have "spaced ?s (P @ Q1)"
    proof -
      have "bend ?s a < unat b" if "a \<in> set P" "b \<in> set Q1" for a b
      proof (cases "a = p")
        case True
        then show ?thesis using be Q1(2) that(2) by simp
      next
        case False
        then have "a \<in> set A" using that(1) assms(2) by simp
        then have "bend ?s a < unat p" using ltA bA by simp
        moreover have "unat p < unat bp" using pb(1) by (simp add: word_less_nat_alt)
        ultimately show ?thesis using bQ [of b] that(2) by simp
      qed
      then show ?thesis using spP Q(2) unfolding spaced_append by simp
    qed
    moreover have "block ?s p = block s p \<union> block s1 bp" using be e bp1 bend_ge [of p s] bend_ge [of bp s1] by (auto simp: block_def)
    moreover have "block ?s p \<union> funits ?s Q1 \<union> funits ?s A = funits s P \<union> funits s1 (bp # Q1)"
      using calculation(4) A(3) assms(2) same_list(3) [of Q1 s1 ?s] sameQ by auto
    ultimately show ?thesis using assms(1,2) hdP nodes base by (intro exI [of _ "P @ Q1"]) (auto simp: heap_inv_def)
  next
    case False
    have "unat (p + 8 * h_size s1 p) \<noteq> unat bp" using False word_unat_eq_iff by blast
    then have lt: "bend s p < unat bp" using le bw by simp
    have k: "h_size ?s p = h_size s p" "h_ptr ?s p = bp" using False P1 [of p] assms(2) by (simp_all add: join_left_def same_at_def)
    have be: "bend ?s p = bend s p" "block ?s p = block s p" using bend_cong [OF k(1)] block_cong [OF k(1)] .
    have nodes: "node_ok ?s a" if a: "a \<in> set (tl (P @ bp # Q1))" for a
    proof (cases "a = p")
      case True
      then have "p \<in> set (tl P)" using a Q1p unfolding tlP by auto
      then have "node_ok s p" by (rule nP)
      then show ?thesis using True k(1) be(1) base by (simp add: node_ok_def)
    next
      case False
      then show ?thesis using tlA [of a] Q(4) a unfolding tlP by auto
    qed
    have "h_size ?s (h_base s) = 0" using baseP sameA [of "h_base s"] k(1) assms(1) by (auto simp: same_at_def heap_inv_def)
    moreover have "linked ?s (P @ bp # Q1) (h_base s)" using A(1) Q(1) k(2) assms(2) by (simp add: linked_append)
    moreover have "spaced ?s (P @ bp # Q1)"
    proof -
      have "bend ?s a < unat bp" if "a \<in> set P" for a
        using that assms(2) ltA [of a] bA [of a] be(1) lt pb(1) by (auto simp: word_less_nat_alt)
      then have "bend ?s a < unat b" if "a \<in> set P" "b \<in> set (bp # Q1)" for a b using that bQ [of b] by (meson less_le_trans)
      then show ?thesis using spP Q(2) unfolding spaced_append by blast
    qed
    moreover have "funits ?s (P @ bp # Q1) = funits s P \<union> funits s1 (bp # Q1)" using A(3) Q(3) be(2) assms(2) by auto
    ultimately show ?thesis using assms(1,2) hdP nodes base by (intro exI [of _ "P @ bp # Q1"]) (auto simp: heap_inv_def)
  qed
qed

lemma free_spec:
  assumes "heap_inv s L" "node_ok s bp" "block s bp \<inter> funits s L = {}"
  shows "\<exists>s' L'. free (bp + 8) s = Some s' \<and> heap_inv s' L' \<and> funits s' L' = funits s L \<union> block s bp \<and> same_bounds s s' \<and>
    (\<forall>a. a \<notin> set L \<longrightarrow> a \<noteq> bp \<longrightarrow> h_size s' a = h_size s a)"
proof -
  have ub: "unat bp \<in> block s bp" using assms(2) by (simp add: block_def bend_def node_ok_def)
  have lb: "h_base s < bp" using assms(2) by (simp add: node_ok_def word_less_nat_alt)
  have "bp \<notin> set L" using ub assms(3) by (auto simp: funits_def)
  then obtain P Q where L: "L = P @ Q" "P \<noteq> []" "\<forall>a \<in> set P. a < bp" "\<forall>a \<in> set Q. bp < a" using place [OF assms(1) _ lb] by blast
  obtain A p where P: "P = A @ [p]" using L(2) by (metis append_butlast_last_id)
  have "h_freep s \<in> set L" using assms(1) by (simp add: heap_inv_def)
  then have fl: "free_loop s bp (h_freep s) = Some p" using free_loop_spec [OF assms(1) L(1-4)] P by simp
  have lk: "linked s L (h_base s)" using assms(1) by (simp add: heap_inv_def)
  then have n: "h_ptr s p = first Q (h_base s)" using L(1) P by (simp add: linked_append)
  let ?s1 = "join_right bp (first Q (h_base s)) s"
  have inv: "heap_inv s (P @ Q)" using assms(1) L(1) by simp
  have dis: "block s bp \<inter> funits s P = {}" "block s bp \<inter> funits s Q = {}" using assms(3) L(1) by auto
  obtain Q1 where Q1: "linked ?s1 (bp # Q1) (h_base s)" "spaced ?s1 (bp # Q1)" "funits ?s1 (bp # Q1) = block s bp \<union> funits s Q"
      "\<forall>a \<in> set (bp # Q1). node_ok ?s1 a" "set Q1 \<subseteq> set Q"
    using join_right_spec [OF inv L(2,4) assms(2) dis(2)] by blast
  have same: "same_bounds s ?s1" "\<And>a. a \<noteq> bp \<Longrightarrow> same_at s ?s1 a" by (simp_all add: join_right_def same_bounds_def same_at_def)
  obtain L' where L': "heap_inv ((join_left p bp ?s1)\<lparr>h_freep := p\<rparr>) L'" "funits (join_left p bp ?s1) L' = funits s P \<union> funits ?s1 (bp # Q1)"
    using join_left_spec [OF inv P L(3,4) dis(1) assms(2) same(2,1) Q1(1,2,4,5)] by blast
  have "free (bp + 8) s = Some ((join_left p bp ?s1)\<lparr>h_freep := p\<rparr>)" using fl n by (simp add: free_joins)
  moreover have "same_bounds s ((join_left p bp ?s1)\<lparr>h_freep := p\<rparr>)" by (simp add: same_bounds_def join_left_def join_right_def)
  moreover have "h_size ((join_left p bp ?s1)\<lparr>h_freep := p\<rparr>) a = h_size s a" if "a \<notin> set L" "a \<noteq> bp" for a
    using that L(1) P by (auto simp: join_left_def join_right_def)
  moreover have "funits ((join_left p bp ?s1)\<lparr>h_freep := p\<rparr>) L' = funits s L \<union> block s bp" using L'(2) Q1(3) L(1) by auto
  ultimately show ?thesis using L'(1) by blast
qed

section \<open>Taking a block\<close>

lemma linked_pred: "linked s L e \<Longrightarrow> p \<in> set L \<Longrightarrow> h_ptr s p \<noteq> e \<Longrightarrow> \<exists>C D. L = C @ p # h_ptr s p # D"
proof (induction L)
  case (Cons a L)
  show ?case
  proof (cases "a = p")
    case True
    then obtain b L' where "L = b # L'" using Cons by (cases L) auto
    then have "a # L = [] @ p # h_ptr s p # L'" using True Cons(2) by simp
    then show ?thesis by blast
  next
    case False
    then obtain C D where "L = C @ p # h_ptr s p # D" using Cons by auto
    then have "a # L = (a # C) @ p # h_ptr s p # D" by simp
    then show ?thesis by blast
  qed
qed simp

lemma blocks_disjoint:
  assumes "spaced s (X @ y # D)"
  shows "block s y \<inter> funits s (X @ D) = {}"
proof -
  have "bend s x < unat y" if "x \<in> set X" for x using assms that by (simp add: spaced_append)
  moreover have "bend s y < unat d" if "d \<in> set D" for d using assms that by (simp add: spaced_append)
  ultimately show ?thesis by (fastforce simp: funits_def block_def)
qed

text \<open>What a block of \<open>n\<close> units at \<open>a\<close> that has been taken leaves behind.\<close>

definition taken :: "heap \<Rightarrow> u32 list \<Rightarrow> u32 \<Rightarrow> u32 \<Rightarrow> heap \<Rightarrow> bool" where
  "taken s L n a s' \<longleftrightarrow> (\<exists>L'. heap_inv s' L' \<and> h_size s' a = n \<and> node_ok s' a \<and> block s' a \<subseteq> funits s L \<and> funits s' L' = funits s L - block s' a \<and>
     same_bounds s s' \<and> (\<forall>b. b \<notin> set L \<longrightarrow> b \<noteq> a \<longrightarrow> h_size s' b = h_size s b))"

lemma take_exact:
  assumes "heap_inv s (C @ p # y # D)" "h_size s y = n" "0 < unat n"
  shows "taken s (C @ p # y # D) n y ((set_ptr p (h_ptr s y) s)\<lparr>h_freep := p\<rparr>)"
proof -
  let ?L = "C @ p # y # D" and ?s = "(set_ptr p (h_ptr s y) s)\<lparr>h_freep := p\<rparr>"
  have inv: "linked s ?L (h_base s)" "spaced s ?L" "hd ?L = h_base s" using assms(1) by (simp_all only: heap_inv_def)
  have d: "distinct ?L" using spaced_distinct [OF inv(2)] .
  have "linked ?s C p = linked s C p" "linked ?s D (h_base s) = linked s D (h_base s)" using d by (intro linked_cong; auto)+
  then have lk: "linked ?s (C @ p # D) (h_base s)" using inv(1) d by (simp add: linked_append)
  have z: "bend ?s a = bend s a" "block ?s a = block s a" "node_ok ?s a = node_ok s a" for a by (simp_all add: bend_def block_def node_ok_def)
  have f: "funits ?s K = funits s K" for K by (simp add: funits_def block_def bend_def)
  have sp: "spaced ?s (C @ p # D)" using inv(2) by (auto simp: spaced_def sorted_wrt_append bend_def)
  have ny: "y \<noteq> h_base s" using d inv(3) by (cases C) auto
  have "node_ok s y" using heap_invD(4) [OF assms(1) _ ny] by simp
  moreover have "hd (C @ p # D) = h_base s" using inv(3) by (cases C) simp_all
  moreover have "\<forall>a \<in> set (tl (C @ p # D)). node_ok s a" using assms(1) by (cases C) (auto simp: heap_inv_def)
  moreover have "funits s (C @ p # D) = funits s ?L - block s y" using blocks_disjoint [of s "C @ [p]" y D] inv(2) by auto
  ultimately show ?thesis using lk sp assms(1,2) unfolding taken_def
    by (intro exI [of _ "C @ p # D"]) (simp add: heap_inv_def z f same_bounds_def del: bend_freep, auto)
qed

lemma take_tail:
  assumes "heap_inv s L" "y \<in> set L" "p \<in> set L" "n < h_size s y" "0 < unat n"
  shows "taken s L n (y + 8 * (h_size s y - n)) ((set_hsize (y + 8 * (h_size s y - n)) n (set_hsize y (h_size s y - n) s))\<lparr>h_freep := p\<rparr>)"
proof -
  let ?a = "y + 8 * (h_size s y - n)"
  let ?s = "(set_hsize ?a n (set_hsize y (h_size s y - n) s))\<lparr>h_freep := p\<rparr>"
  have u: "unat (h_size s y - n) = unat (h_size s y) - unat n" "unat n < unat (h_size s y)" using assms(4) by (simp_all add: unat_sub less_imp_le word_less_nat_alt)
  have yb: "bend s y \<le> 2 ^ 31" "bend s y \<le> unat (h_brk s)" "y \<noteq> h_base s" using heap_invD [OF assms(1,2)] u(2) assms(1) by (auto simp: heap_inv_def)
  have ny: "node_ok s y" using heap_invD(4) [OF assms(1,2) yb(3)] .
  have "?a = of_nat (unat y + 8 * (unat (h_size s y) - unat n))" using u by (simp flip: u(1))
  moreover have "unat y + 8 * (unat (h_size s y) - unat n) < 2 ^ 32" using yb(1) by (simp add: bend_def)
  ultimately have ua: "unat ?a = unat y + 8 * (unat (h_size s y) - unat n)" using unat_of_nat32 by metis
  have ay: "?a \<noteq> y" using ua u(2) by (metis add_cancel_right_right mult_eq_0_iff not_less_iff_gr_or_eq zero_neq_numeral zero_less_diff)
  obtain X D where L: "L = X @ y # D" using assms(2) by (meson split_list)
  have sp: "spaced s (X @ y # D)" using assms(1) L by (simp add: heap_inv_def)
  have aL: "?a \<notin> set L"
  proof
    assume a: "?a \<in> set L"
    have "unat ?a \<in> block s y" using ua u(2) assms(5) by (simp add: block_def bend_def)
    moreover have "?a \<noteq> h_base s" using ua u(2) ny by (auto simp: node_ok_def)
    then have "unat ?a \<in> block s ?a" using heap_invD(4) [OF assms(1) a] by (simp add: node_ok_def block_def bend_def)
    moreover have "?a \<in> set (X @ D)" using a L ay by simp
    ultimately show False using blocks_disjoint [OF sp] by (auto simp: funits_def)
  qed
  have sz: "h_size ?s ?a = n" "h_size ?s y = h_size s y - n" "\<And>b. b \<noteq> ?a \<Longrightarrow> b \<noteq> y \<Longrightarrow> h_size ?s b = h_size s b" using ay by simp_all
  have bdy: "bend ?s y = unat ?a" using sz(2) u(1) ua by (simp only: bend_def)
  have ba: "bend ?s ?a = bend s y" using sz(1) ua u(2) by (simp only: bend_def)
  have be: "bend ?s b = bend s b" if "b \<in> set L" "b \<noteq> y" for b using sz(3) [of b] that aL by (simp add: bend_def) metis
  have sp': "spaced ?s L"
  proof -
    have "bend ?s b \<le> bend s b" if "b \<in> set L" for b using be [OF that] bdy ua u(1) by (cases "b = y") (simp_all add: bend_def)
    then have "sorted_wrt (\<lambda>a b. bend ?s a < unat b) L" using assms(1) unfolding heap_inv_def spaced_def
      by (metis (mono_tags, lifting) le_less_trans sorted_wrt_mono_rel)
    then show ?thesis by (simp only: spaced_def)
  qed
  have ylt: "unat y \<le> unat ?a" "unat ?a \<le> bend s y" using ua by (simp_all add: bend_def)
  have nodes: "node_ok ?s b" if "b \<in> set (tl L)" for b
  proof (cases "b = y")
    case True
    have "0 < unat (h_size ?s y)" using u unfolding sz(2) by simp
    moreover have "bend ?s y \<le> unat (h_brk s)" using bdy ylt(2) yb(2) by simp
    ultimately show ?thesis using ny True by (simp add: node_ok_def del: bend_freep)
  next
    case False
    have "b \<in> set L" "node_ok s b" using that assms(1) by (auto simp: heap_inv_def list.set_sel(2))
    then show ?thesis using be [OF _ False] sz(3) [of b] False aL by (auto simp: node_ok_def)
  qed
  have blk: "block ?s ?a = {unat ?a..<bend s y}" "block ?s y = {unat y..<unat ?a}" using ba bdy by (simp_all only: block_def)
  have other: "funits ?s (X @ D) = funits s (X @ D)"
    using spaced_distinct [OF sp] aL L sz(3) by (intro funits_cong) auto
  have sub: "block ?s ?a \<subseteq> block s y" unfolding blk(1) block_def [of s] using ylt by auto
  have "funits ?s L = funits s L - block ?s ?a"
  proof -
    have "block ?s ?a \<inter> funits s (X @ D) = {}" using blocks_disjoint [OF sp] sub by blast
    moreover have "block ?s y = block s y - block ?s ?a" unfolding blk block_def [of s] using ylt by auto
    moreover have "funits ?s L = block ?s y \<union> funits ?s (X @ D)" "funits s L = block s y \<union> funits s (X @ D)" using L by auto
    ultimately show ?thesis using other by blast
  qed
  moreover have "block ?s ?a \<subseteq> funits s L" using sub assms(2) unfolding funits_def by blast
  moreover have "node_ok ?s ?a" using assms(5) sz(1) ny ba yb(2) ylt(1) by (simp add: node_ok_def)
  moreover have "heap_inv ?s L"
  proof -
    have "linked ?s L (h_base s)" using linked_cong [of L ?s s "h_base s"] assms(1) by (simp add: heap_inv_def)
    moreover have "h_base s \<noteq> ?a" using ua ny ylt(1) by (auto simp: node_ok_def)
    ultimately show ?thesis using assms(1,3) sp' nodes yb(3) by (simp add: heap_inv_def del: bend_freep)
  qed
  ultimately show ?thesis using sz(1) assms(2) unfolding taken_def by (intro exI [of _ L]) (auto simp: same_bounds_def)
qed

lemma take_block_spec:
  assumes "heap_inv s L" "p \<in> set L" "h_ptr s p \<in> set L" "n \<le> h_size s (h_ptr s p)" "0 < unat n"
  shows "\<exists>a s'. take_block n p (h_ptr s p) s = (a + 8, s') \<and> taken s L n a s'"
proof (cases "h_size s (h_ptr s p) = n")
  case True
  have "h_ptr s p \<noteq> h_base s" using assms(1,4,5) by (auto simp: heap_inv_def word_le_nat_alt)
  then obtain C D where L: "L = C @ p # h_ptr s p # D" using linked_pred [of s L "h_base s" p] assms(1,2) by (auto simp: heap_inv_def)
  have "heap_inv s (C @ p # h_ptr s p # D)" using assms(1) L by simp
  from take_exact [OF this True assms(5)] have "taken s L n (h_ptr s p) ((set_ptr p (h_ptr s (h_ptr s p)) s)\<lparr>h_freep := p\<rparr>)" using L by simp
  then show ?thesis using True by (intro exI [of _ "h_ptr s p"]) (simp add: take_block_def)
next
  case False
  then have "n < h_size s (h_ptr s p)" using assms(4) by simp
  from take_tail [OF assms(1,3,2) this assms(5)] show ?thesis
    using False by (intro exI [of _ "h_ptr s p + 8 * (h_size s (h_ptr s p) - n)"]) (simp add: take_block_def Let_def)
qed

section \<open>Searching and growing\<close>

lemma malloc_search:
  assumes "linked s (q # R) e" "R \<noteq> []" "last R = h_freep s" "h_freep s \<notin> set (butlast R)"
  shows "(\<exists>p \<in> set (q # R). h_ptr s p \<in> set R \<and> n \<le> h_size s (h_ptr s p) \<and> malloc_loop n q (hd R) s = Some (take_block n p (h_ptr s p) s)) \<or>
    (\<forall>x \<in> set R. h_size s x < n) \<and> malloc_loop n q (hd R) s =
      (case morecore n s of None \<Rightarrow> None | Some (p, s) \<Rightarrow> if p = 0 then Some (0, s) else malloc_loop n p (h_ptr s p) s)"
  using assms
proof (induction R arbitrary: q)
  case (Cons y R)
  have y: "h_ptr s q = y" using Cons(2) by simp
  show ?case
  proof (cases "n \<le> h_size s y")
    case True
    then have "malloc_loop n q y s = Some (take_block n q y s)" by (subst malloc_loop.simps) simp
    then show ?thesis using True y by auto
  next
    case False
    show ?thesis
    proof (cases R)
      case Nil
      then have "malloc_loop n q y s = (case morecore n s of None \<Rightarrow> None | Some (p, s) \<Rightarrow> if p = 0 then Some (0, s) else malloc_loop n p (h_ptr s p) s)"
        using False Cons(4) by (subst malloc_loop.simps) simp
      then show ?thesis using Nil False by (simp add: not_le)
    next
      case R: (Cons z R')
      have "y \<noteq> h_freep s" using Cons(5) R by auto
      then have "malloc_loop n q y s = malloc_loop n y (hd R) s" using False Cons(2) R by (subst malloc_loop.simps) simp
      moreover have "linked s (y # R) e" "R \<noteq> []" "last R = h_freep s" "h_freep s \<notin> set (butlast R)" using Cons(2,4,5) R by auto
      ultimately show ?thesis using Cons(1) [of y] False by fastforce
    qed
  qed
qed simp

text \<open>The ring as the search sees it, from \<^verbatim>\<open>freep\<close> to \<^verbatim>\<open>freep\<close>.\<close>

lemma ring_from_freep:
  assumes "heap_inv s L"
  shows "\<exists>R e. linked s (h_freep s # R) e \<and> set R = set L \<and> R \<noteq> [] \<and> last R = h_freep s \<and> h_freep s \<notin> set (butlast R) \<and> hd R = h_ptr s (h_freep s)"
proof -
  have "h_freep s \<in> set L" using assms by (simp add: heap_inv_def)
  then obtain A B where L: "L = A @ h_freep s # B" by (meson split_list)
  let ?R = "B @ A @ [h_freep s]"
  have lk: "linked s (A @ h_freep s # B) (h_base s)" "spaced s (A @ h_freep s # B)" "first A (h_freep s) = h_base s"
    using assms L by (cases A; simp add: heap_inv_def)+
  have "linked s (h_freep s # ?R) (h_ptr s (h_freep s))" using lk by (simp add: linked_append)
  moreover have "h_freep s \<notin> set (B @ A)" using spaced_distinct [OF lk(2)] by auto
  moreover have "hd ?R = h_ptr s (h_freep s)" using lk by (cases B; cases A) (simp_all add: linked_append)
  moreover have "butlast ?R = B @ A" by (simp add: butlast_append)
  ultimately show ?thesis using L by (intro exI [of _ ?R] exI [of _ "h_ptr s (h_freep s)"]) auto
qed

lemma malloc_loop_spec:
  assumes "heap_inv s L" "0 < unat n"
  shows "(\<exists>a s'. malloc_loop n (h_freep s) (h_ptr s (h_freep s)) s = Some (a + 8, s') \<and> taken s L n a s') \<or>
    (\<forall>x \<in> set L. h_size s x < n) \<and> malloc_loop n (h_freep s) (h_ptr s (h_freep s)) s =
      (case morecore n s of None \<Rightarrow> None | Some (p, s) \<Rightarrow> if p = 0 then Some (0, s) else malloc_loop n p (h_ptr s p) s)"
proof -
  obtain R e where R: "linked s (h_freep s # R) e" "set R = set L" "R \<noteq> []" "last R = h_freep s" "h_freep s \<notin> set (butlast R)" "hd R = h_ptr s (h_freep s)"
    using ring_from_freep [OF assms(1)] by blast
  have "h_freep s \<in> set L" using assms(1) by (simp add: heap_inv_def)
  then show ?thesis using malloc_search [OF R(1,3-5), of n] take_block_spec [OF assms(1) _ _ _ assms(2)] R(2,6) by (auto split: prod.splits)
qed

lemma contiguous:
  assumes "spaced s L" "{lo..<hi} \<subseteq> funits s L" "lo < hi"
  shows "\<exists>y \<in> set L. unat y \<le> lo \<and> hi \<le> bend s y"
proof -
  obtain y where y: "y \<in> set L" "unat y \<le> lo" "lo < bend s y" using assms(2,3) by (fastforce simp: funits_def block_def)
  have "hi \<le> bend s y"
  proof (rule ccontr)
    assume "\<not> hi \<le> bend s y"
    then have "bend s y \<in> funits s L" using assms(2) y by auto
    then obtain z where z: "z \<in> set L" "unat z \<le> bend s y" "bend s y < bend s z" by (auto simp: funits_def block_def)
    obtain X D where L: "L = X @ y # D" using y(1) by (meson split_list)
    have "z \<noteq> y" using z(3) by auto
    then have "z \<in> set X \<or> z \<in> set D" using z(1) L by auto
    then show False
    proof
      assume "z \<in> set X"
      then have "bend s z < unat y" using assms(1) L by (simp add: spaced_append)
      then show False using z(3) bend_ge [of y s] by simp
    next
      assume "z \<in> set D"
      then have "bend s y < unat z" using assms(1) L by (simp add: spaced_append)
      then show False using z(2) by simp
    qed
  qed
  then show ?thesis using y by blast
qed

definition core_units :: "u32 \<Rightarrow> nat" where
  "core_units n = max 4096 (unat n)"

lemma morecore_spec:
  assumes "heap_inv s L" "8 * unat n < 2 ^ 31"
  shows "if unat (h_brk s) + 8 * core_units n \<le> unat (h_limit s) then
      \<exists>s' L'. morecore n s = Some (h_freep s', s') \<and> heap_inv s' L' \<and> funits s' L' = funits s L \<union> {unat (h_brk s)..<unat (h_brk s) + 8 * core_units n} \<and>
        unat (h_brk s') = unat (h_brk s) + 8 * core_units n \<and> h_base s' = h_base s \<and> h_limit s' = h_limit s \<and>
        (\<forall>a. a \<notin> set L \<longrightarrow> a \<noteq> h_brk s \<longrightarrow> h_size s' a = h_size s a)
    else morecore n s = Some (0, s)"
proof -
  define nu where "nu = (if n < 4096 then 4096 else n :: u32)"
  have nu: "unat nu = core_units n" by (auto simp: core_units_def word_less_nat_alt nu_def)
  have lt: "8 * core_units n < 2 ^ 31" using assms(2) by (simp add: core_units_def)
  have "nu * 8 = of_nat (8 * unat nu)" by simp
  then have u8: "unat (nu * 8) = 8 * core_units n" using lt unat_of_nat32 [of "8 * unat nu"] nu by simp
  then have s8: "sint (nu * 8) = int (8 * core_units n)" using sint_small [of "nu * 8"] lt by simp
  have pos: "0 < core_units n" by (simp add: core_units_def)
  have lim: "unat (h_brk s) \<le> unat (h_limit s)" "unat (h_limit s) \<le> 2 ^ 31" using assms(1) by (simp_all add: heap_inv_def)
  have fits: "uint (h_brk s) + sint (nu * 8) \<le> uint (h_limit s) \<longleftrightarrow> unat (h_brk s) + 8 * core_units n \<le> unat (h_limit s)"
    using uint_nat [of "h_brk s"] uint_nat [of "h_limit s"] s8 by linarith
  have m: "morecore n s = (case sbrk (nu * 8) s of (p, s) \<Rightarrow> if p = -1 then Some (0, s)
      else (case free (p + 8) (set_hsize p nu s) of None \<Rightarrow> None | Some s \<Rightarrow> Some (h_freep s, s)))"
    by (simp only: morecore_def Let_def nu_def)
  have sgn: "sint (nu * 8) > 0" using s8 pos by linarith
  show ?thesis
  proof (cases "unat (h_brk s) + 8 * core_units n \<le> unat (h_limit s)")
    case False
    then have "sbrk (nu * 8) s = (-1, s)" using fits sgn by (simp only: sbrk_def if_True if_False)
    then show ?thesis using False m by simp
  next
    case True
    let ?s0 = "s\<lparr>h_brk := h_brk s + nu * 8\<rparr>"
    let ?s1 = "set_hsize (h_brk s) nu ?s0"
    have sb: "sbrk (nu * 8) s = (h_brk s, ?s0)" using True fits sgn by (simp only: sbrk_def if_True)
    have "h_brk s + nu * 8 = of_nat (unat (h_brk s) + unat (nu * 8))" by simp
    then have b1: "unat (h_brk s + nu * 8) = unat (h_brk s) + 8 * core_units n"
      using u8 True lim unat_of_nat32 [of "unat (h_brk s) + unat (nu * 8)"] by simp
    have "h_brk s + 1 = of_nat (unat (h_brk s) + 1)" by simp
    then have "unat (h_brk s + 1) = unat (h_brk s) + 1" using unat_of_nat32 [of "unat (h_brk s) + 1"] lim by (simp add: add.commute)
    then have ne: "h_brk s \<noteq> -1" by auto
    have bL: "h_brk s \<notin> set L"
    proof
      assume a: "h_brk s \<in> set L"
      then have "h_brk s \<noteq> h_base s" using assms(1) by (auto simp: heap_inv_def)
      then show False using heap_invD(1,4) [OF assms(1) a] by (simp add: node_ok_def bend_def)
    qed
    have sz: "h_size ?s1 a = h_size s a" if "a \<noteq> h_brk s" for a using that by simp
    have be: "bend ?s1 a = bend s a" if "a \<in> set L" for a using sz [of a] that bL by (auto simp: bend_def)
    have inv: "heap_inv ?s1 L"
    proof -
      have "linked ?s1 L (h_base s) = linked s L (h_base s)" by (rule linked_cong) simp
      moreover have "spaced ?s1 L = spaced s L" using sz bL by (intro spaced_cong) auto
      moreover have "node_ok ?s1 a" if "a \<in> set (tl L)" for a
      proof -
        have "a \<in> set L" "node_ok s a" using that assms(1) by (auto simp: heap_inv_def list.set_sel(2))
        then show ?thesis using be [of a] sz [of a] bL b1 by (auto simp: node_ok_def)
      qed
      moreover have "h_base s \<noteq> h_brk s" using assms(1) by (auto simp: heap_inv_def)
      ultimately show ?thesis using assms(1) b1 True lim by (simp add: heap_inv_def)
    qed
    have fu: "funits ?s1 L = funits s L" using sz bL by (intro funits_cong) auto
    have "bend ?s1 (h_brk s) = unat (h_brk s) + 8 * core_units n" using nu by (simp add: bend_def)
    then have bl: "block ?s1 (h_brk s) = {unat (h_brk s)..<unat (h_brk s) + 8 * core_units n}" "node_ok ?s1 (h_brk s)"
      using b1 nu pos assms(1) by (simp_all add: block_def node_ok_def heap_inv_def)
    have "unat (h_brk s) \<le> x \<Longrightarrow> x \<notin> funits s L" for x using heap_invD(1) [OF assms(1)] by (fastforce simp: funits_def block_def)
    then have "block ?s1 (h_brk s) \<inter> funits ?s1 L = {}" using bl(1) fu by auto
    from free_spec [OF inv bl(2) this] obtain s' L' where f: "free (h_brk s + 8) ?s1 = Some s'" "heap_inv s' L'"
        "funits s' L' = funits ?s1 L \<union> block ?s1 (h_brk s)" "same_bounds ?s1 s'" "\<forall>a. a \<notin> set L \<longrightarrow> a \<noteq> h_brk s \<longrightarrow> h_size s' a = h_size ?s1 a" by blast
    have "morecore n s = Some (h_freep s', s')" using m sb ne f(1) by simp
    then show ?thesis using True f fu bl(1) b1 by (auto simp: same_bounds_def intro!: exI [of _ s'] exI [of _ L'])
  qed
qed

section \<open>Blocks in use\<close>

text \<open>The blocks \<open>A\<close> that have been handed out, by the addresses of their headers: inside the memory of the process, apart from each other and from the free
  blocks. Before the first call the ring is empty.\<close>

definition apart :: "heap \<Rightarrow> u32 list \<Rightarrow> u32 set \<Rightarrow> bool" where
  "apart s L A \<longleftrightarrow> (\<forall>a \<in> A. node_ok s a \<and> block s a \<inter> funits s L = {}) \<and> (\<forall>a \<in> A. \<forall>b \<in> A. a \<noteq> b \<longrightarrow> block s a \<inter> block s b = {})"

definition heap_ok :: "heap \<Rightarrow> u32 set \<Rightarrow> bool" where
  "heap_ok s A \<longleftrightarrow>
     h_freep s = 0 \<and> A = {} \<and> h_base s \<noteq> 0 \<and> unat (h_base s) + 8 \<le> unat (h_brk s) \<and> unat (h_brk s) \<le> unat (h_limit s) \<and> unat (h_limit s) \<le> 2 ^ 31 \<or>
     (\<exists>L. heap_inv s L \<and> apart s L A)"

lemma used_apart:
  assumes "heap_inv s L" "node_ok s a" "block s a \<inter> funits s L = {}"
  shows "a \<notin> set L"
proof
  assume "a \<in> set L"
  then have "block s a \<subseteq> funits s L" by (auto simp: funits_def)
  moreover have "unat a \<in> block s a" using assms(2) by (simp add: node_ok_def block_def bend_def)
  ultimately show False using assms(3) by blast
qed

lemma taken_ok:
  assumes "heap_inv s L" "taken s L n a s'" "apart s L A"
  shows "a \<notin> A" "heap_ok s' (insert a A)" "\<forall>b \<in> A. block s' b = block s b" "h_size s' a = n" "a + 8 \<noteq> 0"
proof -
  obtain L' where t: "heap_inv s' L'" "h_size s' a = n" "node_ok s' a" "block s' a \<subseteq> funits s L" "funits s' L' = funits s L - block s' a"
      "same_bounds s s'" "\<forall>b. b \<notin> set L \<longrightarrow> b \<noteq> a \<longrightarrow> h_size s' b = h_size s b" using assms(2) by (auto simp: taken_def)
  have A: "\<forall>b \<in> A. node_ok s b \<and> block s b \<inter> funits s L = {}" "\<forall>b \<in> A. \<forall>c \<in> A. b \<noteq> c \<longrightarrow> block s b \<inter> block s c = {}"
    using assms(3) unfolding apart_def by blast+
  have ua: "unat a \<in> block s' a" using t(3) by (simp add: node_ok_def block_def bend_def)
  show aA: "a \<notin> A"
  proof
    assume a: "a \<in> A"
    then have "unat a \<in> block s a" using A(1) by (auto simp: node_ok_def block_def bend_def)
    then show False using a ua t(4) A(1) by blast
  qed
  have sz: "h_size s' b = h_size s b" if "b \<in> A" for b using t(7) used_apart [OF assms(1)] A(1) that aA by metis
  show bl: "\<forall>b \<in> A. block s' b = block s b" using block_cong [OF sz] by blast
  have nd: "\<forall>b \<in> A. node_ok s' b" using bend_cong [OF sz] sz A(1) t(6) by (auto simp: node_ok_def same_bounds_def)
  have "\<forall>b \<in> insert a A. node_ok s' b \<and> block s' b \<inter> funits s' L' = {}" using nd bl t(3,5) A(1) by auto
  moreover have "\<forall>b \<in> insert a A. \<forall>c \<in> insert a A. b \<noteq> c \<longrightarrow> block s' b \<inter> block s' c = {}" using bl t(4) A by blast
  ultimately show "heap_ok s' (insert a A)" using t(1) unfolding heap_ok_def apart_def by blast
  show "h_size s' a = n" by (rule t(2))
  have "unat a + 8 < 2 ^ 32" using t(1,3) by (auto simp: node_ok_def bend_def heap_inv_def)
  moreover have "a + 8 = of_nat (unat a + 8)" by simp
  ultimately have "unat (a + 8) = unat a + 8" using unat_of_nat32 by metis
  then show "a + 8 \<noteq> 0" by auto
qed

lemma grown_apart:
  assumes "heap_inv s L" "apart s L A" "funits s' L' = funits s L \<union> {unat (h_brk s)..<hi}" "unat (h_brk s) \<le> unat (h_brk s')" "h_base s' = h_base s"
    "\<forall>a. a \<notin> set L \<longrightarrow> a \<noteq> h_brk s \<longrightarrow> h_size s' a = h_size s a"
  shows "apart s' L' A" "\<forall>a \<in> A. block s' a = block s a"
proof -
  have A: "node_ok s a" "block s a \<inter> funits s L = {}" if "a \<in> A" for a using assms(2) that by (auto simp: apart_def)
  have sz: "h_size s' a = h_size s a" if "a \<in> A" for a
  proof -
    have "a \<noteq> h_brk s" using A(1) [OF that] by (auto simp: node_ok_def bend_def)
    then show ?thesis using assms(6) used_apart [OF assms(1) A [OF that]] by blast
  qed
  show bl: "\<forall>a \<in> A. block s' a = block s a" using block_cong [OF sz] by blast
  have "node_ok s' a" if "a \<in> A" for a using A(1) [OF that] sz [OF that] bend_cong [OF sz [OF that]] assms(4,5) by (simp add: node_ok_def)
  moreover have "block s a \<inter> {unat (h_brk s)..<hi} = {}" if "a \<in> A" for a using A(1) [OF that] by (auto simp: node_ok_def block_def)
  ultimately show "apart s' L' A" using assms(2,3) bl unfolding apart_def by (simp add: Int_Un_distrib)
qed

lemma malloc_loop_ok:
  assumes "heap_inv s L" "apart s L A" "0 < unat n" "8 * unat n < 2 ^ 31"
  shows "\<exists>r s'. malloc_loop n (h_freep s) (h_ptr s (h_freep s)) s = Some (r, s') \<and> (\<forall>b \<in> A. block s' b = block s b) \<and>
    (if r = 0 then unat (h_limit s) < unat (h_brk s) + 8 * core_units n \<and> heap_ok s' A
     else r - 8 \<notin> A \<and> heap_ok s' (insert (r - 8) A) \<and> h_size s' (r - 8) = n)"
proof (cases "\<exists>a s'. malloc_loop n (h_freep s) (h_ptr s (h_freep s)) s = Some (a + 8, s') \<and> taken s L n a s'")
  case True
  then obtain a s' where a: "malloc_loop n (h_freep s) (h_ptr s (h_freep s)) s = Some (a + 8, s')" "taken s L n a s'" by blast
  show ?thesis using a(1) taken_ok [OF assms(1) a(2) assms(2)] by (intro exI [of _ "a + 8"] exI [of _ s']) simp
next
  case False
  then have m: "malloc_loop n (h_freep s) (h_ptr s (h_freep s)) s =
      (case morecore n s of None \<Rightarrow> None | Some (p, s) \<Rightarrow> if p = 0 then Some (0, s) else malloc_loop n p (h_ptr s p) s)"
    using malloc_loop_spec [OF assms(1,3)] by blast
  show ?thesis
  proof (cases "unat (h_brk s) + 8 * core_units n \<le> unat (h_limit s)")
    case fit: True
    obtain s1 L1 where s1: "morecore n s = Some (h_freep s1, s1)" "heap_inv s1 L1"
        "funits s1 L1 = funits s L \<union> {unat (h_brk s)..<unat (h_brk s) + 8 * core_units n}" "unat (h_brk s1) = unat (h_brk s) + 8 * core_units n"
        "h_base s1 = h_base s" "\<forall>a. a \<notin> set L \<longrightarrow> a \<noteq> h_brk s \<longrightarrow> h_size s1 a = h_size s a"
      using morecore_spec [OF assms(1,4)] fit by auto
    have ap: "apart s1 L1 A" "\<forall>b \<in> A. block s1 b = block s b" using grown_apart [OF assms(1,2) s1(3) _ s1(5,6)] s1(4) by auto
    have "h_freep s1 \<in> set L1" "h_base s1 \<noteq> 0" using s1(2) by (simp_all add: heap_inv_def)
    then have fz: "h_freep s1 \<noteq> 0" using heap_invD(3) [OF s1(2), of "h_freep s1"] by (auto simp: unat_eq_zero)
    have "\<exists>y \<in> set L1. unat y \<le> unat (h_brk s) \<and> unat (h_brk s) + 8 * core_units n \<le> bend s1 y"
      using s1(2,3) by (intro contiguous) (auto simp: heap_inv_def core_units_def)
    then obtain y where y: "y \<in> set L1" "core_units n \<le> unat (h_size s1 y)" by (auto simp: bend_def)
    then have "\<not> h_size s1 y < n" by (simp add: core_units_def word_less_nat_alt)
    then obtain a s' where a: "malloc_loop n (h_freep s1) (h_ptr s1 (h_freep s1)) s1 = Some (a + 8, s')" "taken s1 L1 n a s'"
      using malloc_loop_spec [OF s1(2) assms(3)] y(1) by blast
    show ?thesis using m s1(1) fz a(1) taken_ok [OF s1(2) a(2) ap(1)] ap(2) by (intro exI [of _ "a + 8"] exI [of _ s']) simp
  next
    case False
    then have "morecore n s = Some (0, s)" using morecore_spec [OF assms(1,4)] by simp
    moreover have "heap_ok s A" using assms(1,2) unfolding heap_ok_def by blast
    ultimately show ?thesis using m False by simp
  qed
qed

lemma heap_ok_zero:
  assumes "heap_ok s A" "h_freep s = 0"
  shows "A = {}" "h_base s \<noteq> 0" "unat (h_base s) + 8 \<le> unat (h_brk s)" "unat (h_brk s) \<le> unat (h_limit s)" "unat (h_limit s) \<le> 2 ^ 31"
proof -
  have "\<not> heap_inv s K" for K
  proof
    assume k: "heap_inv s K"
    then have "h_freep s \<in> set K" "h_base s \<noteq> 0" by (simp_all add: heap_inv_def)
    then show False using heap_invD(3) [OF k, of "h_freep s"] assms(2) by (auto simp: unat_eq_zero)
  qed
  then show "A = {}" "h_base s \<noteq> 0" "unat (h_base s) + 8 \<le> unat (h_brk s)" "unat (h_brk s) \<le> unat (h_limit s)" "unat (h_limit s) \<le> 2 ^ 31"
    using assms(1) by (auto simp: heap_ok_def)
qed

lemma nunits_value:
  assumes "unat nbytes + 16 \<le> 2 ^ 31"
  shows "unat (nunits nbytes) = (unat nbytes + 7) div 8 + 1"
proof -
  have "nbytes + 8 - 1 = of_nat (unat nbytes + 7)" by simp
  then have "unat (nbytes + 8 - 1) = unat nbytes + 7" using assms unat_of_nat32 [of "unat nbytes + 7"] by (simp add: add.commute)
  then have d: "unat ((nbytes + 8 - 1) div 8) = (unat nbytes + 7) div 8" by (simp add: unat_div)
  have "nunits nbytes = of_nat (unat ((nbytes + 8 - 1) div 8) + 1)" unfolding nunits_def of_nat_add by simp
  then have "nunits nbytes = of_nat ((unat nbytes + 7) div 8 + 1)" unfolding d .
  moreover have "(unat nbytes + 7) div 8 + 1 < 2 ^ 32" using assms by simp
  ultimately show ?thesis using unat_of_nat32 by metis
qed

text \<open>C40. The allocator. From any state it has reached, \<^verbatim>\<open>malloc\<close> of less than 2 GB returns: a null pointer only when the process cannot grow by what is asked of
  \<^verbatim>\<open>sbrk\<close>, and otherwise a block with room for the bytes, inside the memory of the process and apart from all blocks in use and from all that is free. \<^verbatim>\<open>free\<close> of a block in use returns, and the block may be
  handed out again. No block in use is moved or changes its size.\<close>

theorem malloc_free_correct:
  assumes "heap_ok s A"
  shows "(unat nbytes + 16 \<le> 2 ^ 31 \<longrightarrow>
      (\<exists>r s'. malloc nbytes s = Some (r, s') \<and> (\<forall>b \<in> A. block s' b = block s b) \<and>
        (if r = 0 then unat (h_limit s) < unat (h_brk s) + 8 * core_units (nunits nbytes) \<and> heap_ok s' A
         else r - 8 \<notin> A \<and> heap_ok s' (insert (r - 8) A) \<and> unat (r - 8) + 8 + unat nbytes \<le> bend s' (r - 8)))) \<and>
    (a \<in> A \<longrightarrow> (\<exists>s'. free (a + 8) s = Some s' \<and> heap_ok s' (A - {a}) \<and> (\<forall>b \<in> A - {a}. block s' b = block s b)))"
proof (intro conjI impI)
  assume nb: "unat nbytes + 16 \<le> 2 ^ 31"
  let ?n = "nunits nbytes"
  have n: "0 < unat ?n" "8 * unat ?n < 2 ^ 31" "unat nbytes + 8 \<le> 8 * unat ?n" using nunits_value [OF nb] nb by linarith+
  let ?s = "if h_freep s = 0 then set_hsize (h_base s) 0 ((set_ptr (h_base s) (h_base s) s)\<lparr>h_freep := h_base s\<rparr>) else s"
  obtain L where L: "heap_inv ?s L" "apart ?s L A"
  proof (cases "h_freep s = 0")
    case True
    note u = heap_ok_zero [OF assms True]
    have "heap_inv ?s [h_base s]" using u True by (simp add: heap_inv_def)
    then show ?thesis using that u(1) by (simp add: apart_def)
  next
    case False
    then show ?thesis using assms that by (auto simp: heap_ok_def)
  qed
  have same: "block ?s b = block s b" if "b \<in> A" for b using that heap_ok_zero(1) [OF assms] by (cases "h_freep s = 0") auto
  have m: "malloc nbytes s = malloc_loop ?n (h_freep ?s) (h_ptr ?s (h_freep ?s)) ?s" by (simp only: malloc_def Let_def)
  have b: "h_brk ?s = h_brk s" "h_limit ?s = h_limit s" by simp_all
  obtain r s' where r: "malloc nbytes s = Some (r, s')" "\<forall>b \<in> A. block s' b = block ?s b"
      "if r = 0 then unat (h_limit s) < unat (h_brk s) + 8 * core_units ?n \<and> heap_ok s' A
       else r - 8 \<notin> A \<and> heap_ok s' (insert (r - 8) A) \<and> h_size s' (r - 8) = ?n"
    using malloc_loop_ok [OF L n(1,2)] unfolding m b by blast
  have "unat (r - 8) + 8 + unat nbytes \<le> bend s' (r - 8)" if "h_size s' (r - 8) = ?n" using that n(3) by (simp add: bend_def)
  then show "\<exists>r s'. malloc nbytes s = Some (r, s') \<and> (\<forall>b \<in> A. block s' b = block s b) \<and>
        (if r = 0 then unat (h_limit s) < unat (h_brk s) + 8 * core_units ?n \<and> heap_ok s' A
         else r - 8 \<notin> A \<and> heap_ok s' (insert (r - 8) A) \<and> unat (r - 8) + 8 + unat nbytes \<le> bend s' (r - 8))"
    using r(1,2) same r(3) by (intro exI [of _ r] exI [of _ s']) (simp split: if_splits)
next
  assume a: "a \<in> A"
  then obtain L where L: "heap_inv s L" "apart s L A" using assms by (auto simp: heap_ok_def)
  have na: "node_ok s a" "block s a \<inter> funits s L = {}" using L(2) a by (auto simp: apart_def)
  obtain s' L' where s': "free (a + 8) s = Some s'" "heap_inv s' L'" "funits s' L' = funits s L \<union> block s a" "same_bounds s s'"
      "\<forall>b. b \<notin> set L \<longrightarrow> b \<noteq> a \<longrightarrow> h_size s' b = h_size s b"
    using free_spec [OF L(1) na] by blast
  have sz: "h_size s' b = h_size s b" if "b \<in> A - {a}" for b using s'(5) used_apart [OF L(1), of b] L(2) that by (auto simp: apart_def)
  have bl: "block s' b = block s b" if "b \<in> A - {a}" for b using block_cong [OF sz [OF that]] .
  have "node_ok s' b" if "b \<in> A - {a}" for b using L(2) that sz [OF that] bend_cong [OF sz [OF that]] s'(4) by (simp add: apart_def node_ok_def same_bounds_def)
  moreover have "block s b \<inter> (funits s L \<union> block s a) = {}" if "b \<in> A - {a}" for b using L(2) that a unfolding apart_def by blast
  moreover have "\<forall>b \<in> A - {a}. \<forall>c \<in> A - {a}. b \<noteq> c \<longrightarrow> block s' b \<inter> block s' c = {}" using bl L(2) by (simp add: apart_def)
  ultimately have "apart s' L' (A - {a})" using s'(3) bl by (simp add: apart_def)
  then have "heap_ok s' (A - {a})" using s'(2) unfolding heap_ok_def by blast
  then show "\<exists>s'. free (a + 8) s = Some s' \<and> heap_ok s' (A - {a}) \<and> (\<forall>b \<in> A - {a}. block s' b = block s b)" using s'(1) bl by blast
qed

definition ex_heap :: heap where
  "ex_heap = \<lparr>h_ptr = (\<lambda>_. 0), h_size = (\<lambda>_. 0), h_base = 0x1000, h_freep = 0, h_brk = 0x4000, h_limit = 0x20000\<rparr>"

theorem malloc_free_correct_witness:
  "\<exists>r s'. malloc 24 ex_heap = Some (r, s') \<and> r \<noteq> 0 \<and> heap_ok s' {r - 8} \<and> unat (r - 8) + 32 \<le> bend s' (r - 8) \<and>
     (\<exists>s''. free r s' = Some s'' \<and> heap_ok s'' {})"
proof -
  have ok: "heap_ok ex_heap {}" by (simp add: heap_ok_def ex_heap_def)
  have "unat (nunits 24) = 4" by (subst nunits_value) simp_all
  then have l: "\<not> unat (h_limit ex_heap) < unat (h_brk ex_heap) + 8 * core_units (nunits 24)" by (simp add: ex_heap_def core_units_def)
  obtain r s' where r: "malloc 24 ex_heap = Some (r, s')" "r \<noteq> 0" "heap_ok s' {r - 8}" "unat (r - 8) + 32 \<le> bend s' (r - 8)"
    using malloc_free_correct [OF ok, of 24 0] l by (auto split: if_splits)
  have "\<exists>s''. free (r - 8 + 8) s' = Some s'' \<and> heap_ok s'' ({r - 8} - {r - 8})" using malloc_free_correct [OF r(3), of 0 "r - 8"] by auto
  then show ?thesis using r by (intro exI [of _ r] exI [of _ s']) simp
qed

end
