(* ===== verification/Platform.thy ===== *)
theory Platform
  imports Kalloc
begin

text \<open>
  The multiprocessor tables of the machine (\<^verbatim>\<open>system/platform/x86/mp.c\<close>, \<^verbatim>\<open>include/mp.h\<close>) and its interrupt controllers and clock
  (\<^verbatim>\<open>lapic.c\<close>, \<^verbatim>\<open>ioapic.c\<close>, \<^verbatim>\<open>picirq.c\<close>). The controllers are not modelled: what the code writes to their registers and ports is a list, and what it
  reads there is an argument.
\<close>

section \<open>The multiprocessor tables\<close>

abbreviation (input) NCPU :: nat where "NCPU \<equiv> 8"

text \<open>\<^verbatim>\<open>cpus[].apicid\<close> for the first \<^verbatim>\<open>ncpu\<close> processors, \<^verbatim>\<open>ioapicid\<close> and \<^verbatim>\<open>lapic\<close>.\<close>

record mpst =
  cpu_apicids :: "byte list"
  mp_ioapicid :: byte
  mp_lapic :: u32

definition mp_bytes :: "mem \<Rightarrow> u32 \<Rightarrow> nat \<Rightarrow> byte list" where
  "mp_bytes m a n = map (\<lambda>i. m (a + of_nat i)) [0..<n]"

definition mp_sum :: "mem \<Rightarrow> u32 \<Rightarrow> nat \<Rightarrow> byte" where
  "mp_sum m addr len = fold (+) (mp_bytes m addr len) 0"

definition read16 :: "mem \<Rightarrow> u32 \<Rightarrow> u16" where
  "read16 m a = le16 (m a) (m (a + 1))"

text \<open>The signatures \<^verbatim>\<open>_MP_\<close> and \<^verbatim>\<open>PCMP\<close>.\<close>

definition MP_SIG :: "byte list" where
  "MP_SIG = map of_char ''_MP_''"

definition PCMP_SIG :: "byte list" where
  "PCMP_SIG = map of_char ''PCMP''"

text \<open>Looking at the given number of places, 16 bytes apart, which is the size of a \<^verbatim>\<open>struct mp\<close>.\<close>

fun mpsearch1_loop :: "mem \<Rightarrow> u32 \<Rightarrow> nat \<Rightarrow> u32" where
  "mpsearch1_loop m p 0 = 0"
| "mpsearch1_loop m p (Suc k) = (if mp_bytes m p 4 = MP_SIG \<and> mp_sum m p 16 = 0 then p else mpsearch1_loop m (p + 16) k)"

definition mpsearch1 :: "mem \<Rightarrow> u32 \<Rightarrow> nat \<Rightarrow> u32" where
  "mpsearch1 m a len = mpsearch1_loop m (P2V a) ((len + 15) div 16)"

definition mpsearch :: "mem \<Rightarrow> u32" where
  "mpsearch m =
     (let bda = P2V 0x400;
          p = push_bit 4 (push_bit 8 (ucast (m (bda + 0x0F))) OR ucast (m (bda + 0x0E))) :: u32
      in if p \<noteq> 0 then
           (let mp = mpsearch1 m p 1024 in if mp \<noteq> 0 then mp else mpsearch1 m 0xF0000 0x10000)
         else
           (let p = (push_bit 8 (ucast (m (bda + 0x14))) OR ucast (m (bda + 0x13))) * 1024;
                mp = mpsearch1 m (p - 1024) 1024
            in if mp \<noteq> 0 then mp else mpsearch1 m 0xF0000 0x10000))"

text \<open>The addresses of the floating pointer and of the configuration table. Offsets in the floating pointer: \<^verbatim>\<open>physaddr\<close> 4, \<^verbatim>\<open>imcrp\<close> 12; in the
  table: \<^verbatim>\<open>length\<close> 4, \<^verbatim>\<open>version\<close> 6, \<^verbatim>\<open>lapicaddr\<close> 36, and the entries begin at 44.\<close>

definition mpconfig :: "mem \<Rightarrow> (u32 \<times> u32) option" where
  "mpconfig m =
     (let mp = mpsearch m
      in if mp = 0 \<or> read32 m (mp + 4) = 0 then None
         else
           (let conf = P2V (read32 m (mp + 4))
            in if mp_bytes m conf 4 \<noteq> PCMP_SIG then None
               else if m (conf + 6) \<noteq> 1 \<and> m (conf + 6) \<noteq> 4 then None
               else if mp_sum m conf (unat (read16 m (conf + 4))) \<noteq> 0 then None
               else Some (mp, conf)))"

text \<open>The loop of \<^verbatim>\<open>mpinit\<close> over the entries: a processor (0) has 20 bytes, the others (bus 1, I/O APIC 2, interrupts 3 and 4) have 8. After an
  unknown entry the \<^verbatim>\<open>break\<close> leaves the \<^verbatim>\<open>switch\<close>, and the loop goes on at the same place.\<close>

partial_function (option) mp_loop :: "mem \<Rightarrow> u32 \<Rightarrow> u32 \<Rightarrow> bool \<Rightarrow> mpst \<Rightarrow> (bool \<times> mpst) option" where
  "mp_loop m e p ismp st =
     (if p < e then
        (if m p = 0 then
           mp_loop m e (p + 20) ismp
             (if length (cpu_apicids st) < NCPU then st\<lparr>cpu_apicids := cpu_apicids st @ [m (p + 1)]\<rparr> else st)
         else if m p = 2 then mp_loop m e (p + 8) ismp (st\<lparr>mp_ioapicid := m (p + 1)\<rparr>)
         else if m p = 1 \<or> m p = 3 \<or> m p = 4 then mp_loop m e (p + 8) ismp st
         else mp_loop m e p False st)
      else Some (ismp, st))"

text \<open>What is written to the hardware.\<close>

datatype hw =
    Outb u32 byte
  | Lapic u32 u32
  | Ioapic u32 u32
  | Store16 u32 u16

text \<open>The result is the panic message, or the processors and the writes that mask the old interrupt controller; \<open>imcr\<close> is what port \<^verbatim>\<open>0x23\<close> delivers.\<close>

definition mpinit :: "mem \<Rightarrow> byte \<Rightarrow> mpst \<Rightarrow> (string + mpst \<times> hw list) option" where
  "mpinit m imcr st =
     (case mpconfig m of
        None \<Rightarrow> Some (Inl ''Expect to run on an SMP'')
      | Some (mp, conf) \<Rightarrow>
          (case mp_loop m (conf + ucast (read16 m (conf + 4))) (conf + 44) True (st\<lparr>mp_lapic := read32 m (conf + 36)\<rparr>) of
             None \<Rightarrow> None
           | Some (ismp, st) \<Rightarrow>
               if \<not> ismp then Some (Inl ''Didn't find a suitable machine'')
               else Some (Inr (st, if m (mp + 12) \<noteq> 0 then [Outb 0x22 0x70, Outb 0x23 (imcr OR 1)] else []))))"

section \<open>Interrupt controllers\<close>

abbreviation (input) T_IRQ0 :: u32 where "T_IRQ0 \<equiv> 32"

definition picinit :: "hw list" where
  "picinit = [Outb 0x21 0xFF, Outb 0xA1 0xFF]"

text \<open>Registers of the I/O APIC: \<^verbatim>\<open>REG_ID\<close> 0, \<^verbatim>\<open>REG_VER\<close> 1, \<^verbatim>\<open>REG_TABLE\<close> 16. \<open>reg\<close> is what reading delivers.\<close>

definition ioapicwrite :: "u32 \<Rightarrow> u32 \<Rightarrow> hw list" where
  "ioapicwrite r d = [Ioapic r d]"

text \<open>Whether the warning about the identifier is printed, and the writes.\<close>

definition ioapicinit :: "(u32 \<Rightarrow> u32) \<Rightarrow> byte \<Rightarrow> bool \<times> hw list" where
  "ioapicinit reg ioapicid =
     (let maxintr = drop_bit 16 (reg 1) AND 0xFF;
          ident = drop_bit 24 (reg 0)
      in (ident \<noteq> ucast ioapicid,
          concat (map (\<lambda>i. ioapicwrite (16 + 2 * of_nat i) (0x00010000 OR (T_IRQ0 + of_nat i)) @ ioapicwrite (16 + 2 * of_nat i + 1) 0)
                   [0..<unat maxintr + 1])))"

definition ioapicenable :: "u32 \<Rightarrow> u32 \<Rightarrow> hw list" where
  "ioapicenable irq cpunum = ioapicwrite (16 + 2 * irq) (T_IRQ0 + irq) @ ioapicwrite (16 + 2 * irq + 1) (push_bit 24 cpunum)"

text \<open>Registers of the local APIC as indices: \<^verbatim>\<open>ID\<close> 8, \<^verbatim>\<open>VER\<close> 12, \<^verbatim>\<open>TPR\<close> 32, \<^verbatim>\<open>EOI\<close> 44, \<^verbatim>\<open>SVR\<close> 60, \<^verbatim>\<open>ESR\<close> 160, \<^verbatim>\<open>ICRLO\<close> 192, \<^verbatim>\<open>ICRHI\<close> 196,
  \<^verbatim>\<open>TIMER\<close> 200, \<^verbatim>\<open>PCINT\<close> 208, \<^verbatim>\<open>LINT0\<close> 212, \<^verbatim>\<open>LINT1\<close> 216, \<^verbatim>\<open>ERROR\<close> 220, \<^verbatim>\<open>TICR\<close> 224, \<^verbatim>\<open>TDCR\<close> 248.\<close>

definition lapicw :: "u32 \<Rightarrow> u32 \<Rightarrow> hw list" where
  "lapicw index v = [Lapic index v]"

text \<open>Waiting until the delivery status in what \<^verbatim>\<open>ICRLO\<close> delivers, one read after the other, is clear.\<close>

partial_function (option) lapic_wait :: "(nat \<Rightarrow> u32) \<Rightarrow> nat \<Rightarrow> unit option" where
  "lapic_wait icr k = (if icr k AND 0x00001000 \<noteq> 0 then lapic_wait icr (k + 1) else Some ())"

definition lapicinit :: "u32 \<Rightarrow> u32 \<Rightarrow> (nat \<Rightarrow> u32) \<Rightarrow> hw list option" where
  "lapicinit lapic ver icr =
     (if lapic = 0 then Some []
      else
        (case lapic_wait icr 0 of
           None \<Rightarrow> None
         | Some _ \<Rightarrow> Some (
             lapicw 60 (0x00000100 OR (T_IRQ0 + 31)) @
             lapicw 248 0x0000000B @
             lapicw 200 (0x00020000 OR (T_IRQ0 + 0)) @
             lapicw 224 10000000 @
             lapicw 212 0x00010000 @
             lapicw 216 0x00010000 @
             (if drop_bit 16 ver AND 0xFF \<ge> 4 then lapicw 208 0x00010000 else []) @
             lapicw 220 (T_IRQ0 + 19) @
             lapicw 160 0 @
             lapicw 160 0 @
             lapicw 44 0 @
             lapicw 196 0 @
             lapicw 192 (0x00080000 OR 0x00000500 OR 0x00008000) @
             lapicw 32 0)))"

definition lapicid :: "u32 \<Rightarrow> u32 \<Rightarrow> u32" where
  "lapicid lapic ident = (if lapic = 0 then 0 else drop_bit 24 ident)"

definition lapiceoi :: "u32 \<Rightarrow> hw list" where
  "lapiceoi lapic = (if lapic \<noteq> 0 then lapicw 44 0 else [])"

definition lapicstartap :: "byte \<Rightarrow> u32 \<Rightarrow> hw list" where
  "lapicstartap apicid addr =
     [Outb 0x70 0xF, Outb 0x71 0x0A, Store16 (P2V 0x467) 0, Store16 (P2V 0x467 + 2) (ucast (drop_bit 4 addr))] @
     lapicw 196 (push_bit 24 (ucast apicid)) @
     lapicw 192 (0x00000500 OR 0x00008000 OR 0x00004000) @
     lapicw 192 (0x00000500 OR 0x00008000) @
     concat (replicate 2 (lapicw 196 (push_bit 24 (ucast apicid)) @ lapicw 192 (0x00000600 OR drop_bit 12 addr)))"

section \<open>The clock\<close>

record rtcdate =
  second :: u32
  minute :: u32
  hour :: u32
  day :: u32
  month :: u32
  year :: u32

text \<open>\<open>cmos k r\<close> is what register \<open>r\<close> delivers at the \<open>k\<close>-th read.\<close>

definition cmos_read :: "(nat \<Rightarrow> byte \<Rightarrow> byte) \<Rightarrow> nat \<Rightarrow> byte \<Rightarrow> u32" where
  "cmos_read cmos k r = ucast (cmos k r)"

definition fill_rtcdate :: "(nat \<Rightarrow> byte \<Rightarrow> byte) \<Rightarrow> nat \<Rightarrow> rtcdate \<times> nat" where
  "fill_rtcdate cmos k =
     (\<lparr>second = cmos_read cmos k 0, minute = cmos_read cmos (k + 1) 2, hour = cmos_read cmos (k + 2) 4, day = cmos_read cmos (k + 3) 7,
       month = cmos_read cmos (k + 4) 8, year = cmos_read cmos (k + 5) 9\<rparr>, k + 6)"

partial_function (option) cmos_loop :: "(nat \<Rightarrow> byte \<Rightarrow> byte) \<Rightarrow> nat \<Rightarrow> rtcdate option" where
  "cmos_loop cmos k =
     (let (t1, k) = fill_rtcdate cmos k
      in if cmos_read cmos k 0x0A AND 128 \<noteq> 0 then cmos_loop cmos (k + 1)
         else
           (let (t2, k) = fill_rtcdate cmos (k + 1)
            in if t1 = t2 then Some t1 else cmos_loop cmos k))"

definition CONV :: "u32 \<Rightarrow> u32" where
  "CONV x = drop_bit 4 x * 10 + (x AND 0xF)"

definition cmostime :: "(nat \<Rightarrow> byte \<Rightarrow> byte) \<Rightarrow> rtcdate option" where
  "cmostime cmos =
     (let bcd = (cmos_read cmos 0 0x0B AND 4 = 0)
      in case cmos_loop cmos 1 of
           None \<Rightarrow> None
         | Some t \<Rightarrow>
             (let t = (if bcd then \<lparr>second = CONV (second t), minute = CONV (minute t), hour = CONV (hour t), day = CONV (day t),
                                    month = CONV (month t), year = CONV (year t)\<rparr> else t)
              in Some (t\<lparr>year := year t + 2000\<rparr>)))"

section \<open>What the tables give\<close>

text \<open>The entries from \<open>p\<close> on: their kinds and the byte after the kind.\<close>

fun mp_walk :: "mem \<Rightarrow> u32 \<Rightarrow> u32 \<Rightarrow> (byte \<times> byte) list \<Rightarrow> bool" where
  "mp_walk m e p [] \<longleftrightarrow> e \<le> p"
| "mp_walk m e p ((t, x) # es) \<longleftrightarrow> p < e \<and> m p = t \<and> m (p + 1) = x \<and> t \<le> 4 \<and> mp_walk m e (if t = 0 then p + 20 else p + 8) es"

definition mp_entries :: "(byte \<times> byte) list \<Rightarrow> mpst \<Rightarrow> mpst" where
  "mp_entries es st =
     st\<lparr>cpu_apicids := cpu_apicids st @ take (NCPU - length (cpu_apicids st)) (map snd (filter (\<lambda>(t, x). t = 0) es)),
        mp_ioapicid := last (mp_ioapicid st # map snd (filter (\<lambda>(t, x). t = 2) es))\<rparr>"

lemma byte_le4: "t \<le> 4 \<Longrightarrow> t = 0 \<or> t = 1 \<or> t = 2 \<or> t = 3 \<or> t = (4 :: byte)"
proof -
  assume "t \<le> 4"
  then have "unat t \<le> 4" by (simp add: word_le_nat_alt)
  then have "unat t = 0 \<or> unat t = 1 \<or> unat t = 2 \<or> unat t = 3 \<or> unat t = 4" by linarith
  then show ?thesis by (simp add: word_unat_eq_iff)
qed

text \<open>A table whose entries are all known is read to its end: the processors in order, up to \<^verbatim>\<open>NCPU\<close>, and the last I/O APIC.\<close>

lemma mp_loop_entries: "mp_walk m e p es \<Longrightarrow> mp_loop m e p ismp st = Some (ismp, mp_entries es st)"
proof (induction es arbitrary: p st)
  case Nil
  then show ?case by (subst mp_loop.simps) (auto simp: mp_entries_def)
next
  case (Cons x es)
  obtain t v where x: "x = (t, v)" by (cases x)
  have w: "p < e" "m p = t" "m (p + 1) = v" "t \<le> 4" "mp_walk m e (if t = 0 then p + 20 else p + 8) es" using Cons(2) x by auto
  have c: "length as < NCPU \<Longrightarrow> NCPU - length as = Suc (NCPU - Suc (length as))" for as :: "byte list" by simp
  consider "t = 0" | "t = 2" | "t = 1 \<or> t = 3 \<or> t = 4" using byte_le4 [OF w(4)] by blast
  then show ?case
  proof cases
    case 1
    then show ?thesis using w Cons(1) [of "p + 20"] x c by (subst mp_loop.simps) (auto simp: mp_entries_def)
  next
    case 2
    then show ?thesis using w Cons(1) [of "p + 8"] x by (subst mp_loop.simps) (auto simp: mp_entries_def)
  next
    case 3
    then show ?thesis using w Cons(1) [of "p + 8"] x by (subst mp_loop.simps) (auto simp: mp_entries_def)
  qed
qed

text \<open>At an entry of an unknown kind \<^verbatim>\<open>mpinit\<close> does not return.\<close>

lemma mp_loop_unknown:
  assumes "p < e" "m p > 4"
  shows "mp_loop m e p ismp st = None"
proof -
  have "p < e \<longrightarrow> m p \<le> 4" if "mp_loop m e p ismp st = Some r" for r
  proof (rule mp_loop.raw_induct [where P = "\<lambda>m e p ismp st r. p < e \<longrightarrow> m p \<le> 4", OF _ that], goal_cases)
    case (1 f m e p ismp st r)
    then show ?case by (auto split: if_splits)
  qed
  then show ?thesis using assms by (cases "mp_loop m e p ismp st") auto
qed

end
