(* ===== verification/Boot.thy ===== *)
theory Boot
  imports Strings
begin

text \<open>
  The boot loader (\<^verbatim>\<open>boot/stage1/bootmain.c\<close>): it reads the kernel from the disk, sector by sector, into physical memory. The disk is
  a function of the four bytes that are written to its address registers; waiting for it is left out.
\<close>

abbreviation (input) SECTSIZE :: u32 where "SECTSIZE \<equiv> 512"
abbreviation (input) ELF_MAGIC :: u32 where "ELF_MAGIC \<equiv> 0x464C457F"

type_synonym disk = "byte \<Rightarrow> byte \<Rightarrow> byte \<Rightarrow> byte \<Rightarrow> byte list"

fun insl :: "u32 \<Rightarrow> byte list \<Rightarrow> mem \<Rightarrow> mem" where
  "insl dst [] m = m"
| "insl dst (b # bs) m = insl (dst + 1) bs (m(dst := b))"

definition readsect :: "disk \<Rightarrow> u32 \<Rightarrow> u32 \<Rightarrow> mem \<Rightarrow> mem" where
  "readsect d dst offset m =
     insl dst (d (ucast offset) (ucast (drop_bit 8 offset)) (ucast (drop_bit 16 offset)) (ucast (drop_bit 24 offset) OR 0xE0)) m"

partial_function (option) readseg_loop :: "disk \<Rightarrow> u32 \<Rightarrow> u32 \<Rightarrow> u32 \<Rightarrow> mem \<Rightarrow> mem option" where
  "readseg_loop d epa pa offset m =
     (if pa < epa then readseg_loop d epa (pa + SECTSIZE) (offset + 1) (readsect d pa offset m) else Some m)"

definition readseg :: "disk \<Rightarrow> u32 \<Rightarrow> u32 \<Rightarrow> u32 \<Rightarrow> mem \<Rightarrow> mem option" where
  "readseg d pa count offset m = readseg_loop d (pa + count) (pa - offset mod SECTSIZE) (offset div SECTSIZE + 1) m"

text \<open>The program headers, 32 bytes each; offsets: \<^verbatim>\<open>off\<close> 4, \<^verbatim>\<open>paddr\<close> 12, \<^verbatim>\<open>filesz\<close> 16, \<^verbatim>\<open>memsz\<close> 20. They are read from memory while the
  segments are loaded.\<close>

partial_function (option) boot_load :: "disk \<Rightarrow> u32 \<Rightarrow> u32 \<Rightarrow> mem \<Rightarrow> mem option" where
  "boot_load d ph eph m =
     (if ph < eph then
        (let pa = read32 m (ph + 12)
         in case readseg d pa (read32 m (ph + 16)) (read32 m (ph + 4)) m of
              None \<Rightarrow> None
            | Some m \<Rightarrow>
                (let m = (if read32 m (ph + 20) > read32 m (ph + 16)
                          then stosb (pa + read32 m (ph + 16)) 0 (unat (read32 m (ph + 20) - read32 m (ph + 16))) m else m)
                 in boot_load d (ph + 32) eph m))
      else Some m)"

text \<open>The entry point that is called, or nothing when the image is no ELF file, with the memory. Offsets in the ELF header: \<^verbatim>\<open>entry\<close> 24, \<^verbatim>\<open>phoff\<close> 28, \<^verbatim>\<open>phnum\<close> 44.\<close>

definition bootmain :: "disk \<Rightarrow> mem \<Rightarrow> (u32 option \<times> mem) option" where
  "bootmain d m =
     (let elf = 0x10000
      in case readseg d elf 4096 0 m of
           None \<Rightarrow> None
         | Some m \<Rightarrow>
             if read32 m elf \<noteq> ELF_MAGIC then Some (None, m)
             else
               (let ph = elf + read32 m (elf + 28);
                    eph = ph + 32 * ucast (le16 (m (elf + 44)) (m (elf + 45)))
                in case boot_load d ph eph m of
                     None \<Rightarrow> None
                   | Some m \<Rightarrow> Some (Some (read32 m (elf + 24)), m)))"

section \<open>What is read\<close>

text \<open>Byte \<open>j\<close> of the kernel image, which begins at sector 1.\<close>

definition sector :: "disk \<Rightarrow> nat \<Rightarrow> byte list" where
  "sector d n = (let x = of_nat n :: u32 in d (ucast x) (ucast (drop_bit 8 x)) (ucast (drop_bit 16 x)) (ucast (drop_bit 24 x) OR 0xE0))"

definition kernel_image :: "disk \<Rightarrow> nat \<Rightarrow> byte" where
  "kernel_image d j = sector d (j div 512 + 1) ! (j mod 512)"

lemma unat_plus: "unat a + n < 2 ^ 32 \<Longrightarrow> unat (a + of_nat n) = unat a + n" for a :: u32
proof -
  assume "unat a + n < 2 ^ 32"
  moreover have "a + of_nat n = of_nat (unat a + n)" by simp
  ultimately show ?thesis using unat_of_nat32 by metis
qed

lemma insl_at:
  "unat dst + length bs < 2 ^ 32 \<Longrightarrow> insl dst bs m a = (if unat dst \<le> unat a \<and> unat a < unat dst + length bs then bs ! (unat a - unat dst) else m a)"
proof (induction bs arbitrary: dst m)
  case (Cons b bs)
  have u: "unat (dst + 1) = unat dst + 1" using unat_plus [of dst 1] Cons(2) by simp
  have "insl dst (b # bs) m a =
      (if unat dst + 1 \<le> unat a \<and> unat a < unat dst + 1 + length bs then bs ! (unat a - (unat dst + 1)) else (m(dst := b)) a)"
    using Cons(1) [of "dst + 1"] Cons(2) u by simp
  moreover have "unat dst = unat a \<longleftrightarrow> dst = a" by (simp add: word_unat_eq_iff)
  moreover have "unat a - unat dst = Suc (unat a - (unat dst + 1))" if "unat dst + 1 \<le> unat a" using that by simp
  ultimately show ?case by auto
qed auto

lemma readsect_sector: "readsect d pa (of_nat n) m = insl pa (sector d n) m"
  by (simp add: readsect_def sector_def Let_def)

lemma readseg_loop_spec:
  assumes "\<And>n. length (sector d n) = 512"
  shows "unat pa + 512 * k < 2 ^ 32 \<Longrightarrow> k = 0 \<or> unat pa + 512 * (k - 1) < unat epa \<Longrightarrow> unat epa \<le> unat pa + 512 * k \<Longrightarrow>
    \<exists>m'. readseg_loop d epa pa (of_nat n) m = Some m' \<and>
      (\<forall>a. m' a = (if unat pa \<le> unat a \<and> unat a < unat pa + 512 * k then sector d (n + (unat a - unat pa) div 512) ! ((unat a - unat pa) mod 512) else m a))"
proof (induction k arbitrary: pa n m)
  case 0
  then show ?case by (subst readseg_loop.simps) (auto simp: word_less_nat_alt)
next
  case (Suc k)
  have lt: "pa < epa" using Suc(3) by (simp add: word_less_nat_alt)
  have u: "unat (pa + 512) = unat pa + 512" using unat_plus [of pa 512] Suc(2) by simp
  let ?m = "insl pa (sector d n) m"
  have e: "readseg_loop d epa pa (of_nat n) m = readseg_loop d epa (pa + 512) (of_nat (Suc n)) ?m"
    using lt by (subst readseg_loop.simps) (simp add: readsect_sector add.commute)
  have "k = 0 \<or> unat (pa + 512) + 512 * (k - 1) < unat epa" using Suc(3) u by (cases k) simp_all
  moreover have "unat (pa + 512) + 512 * k < 2 ^ 32" "unat epa \<le> unat (pa + 512) + 512 * k" using Suc(2,4) u by simp_all
  ultimately obtain m' where m1: "readseg_loop d epa (pa + 512) (of_nat (Suc n)) ?m = Some m'"
      "\<forall>a. m' a = (if unat (pa + 512) \<le> unat a \<and> unat a < unat (pa + 512) + 512 * k
         then sector d (Suc n + (unat a - unat (pa + 512)) div 512) ! ((unat a - unat (pa + 512)) mod 512) else ?m a)"
    using Suc(1) [of "pa + 512" "Suc n" ?m] by blast
  note m' = m1(1) m1(2) [unfolded u, rule_format]
  have s: "?m a = (if unat pa \<le> unat a \<and> unat a < unat pa + 512 then sector d n ! (unat a - unat pa) else m a)" for a
    using insl_at [of pa "sector d n" m a] Suc(2) assms by simp
  have "m' a = (if unat pa \<le> unat a \<and> unat a < unat pa + 512 * Suc k then sector d (n + (unat a - unat pa) div 512) ! ((unat a - unat pa) mod 512) else m a)" for a
  proof (cases "unat pa + 512 \<le> unat a")
    case True
    define x where "x = unat a - (unat pa + 512)"
    have x: "unat a - unat pa = x + 512" using True x_def by simp
    have "(x + 512) div 512 = Suc (x div 512)" "(x + 512) mod 512 = x mod 512" by simp_all
    then show ?thesis unfolding x using m'(2) [of a, folded x_def] s [of a] True by (simp add: add.assoc)
  next
    case False
    then show ?thesis using m'(2) [of a] s [of a] by auto
  qed
  then show ?case using e m'(1) by auto
qed

text \<open>\<^verbatim>\<open>readseg\<close> returns, and the memory then holds the bytes of the kernel image that were asked for.\<close>

lemma readseg_correct:
  assumes "\<And>n. length (sector d n) = 512" "unat offset mod 512 \<le> unat pa" "unat pa + unat count + 512 \<le> 2 ^ 32"
  shows "\<exists>m'. readseg d pa count offset m = Some m' \<and> (\<forall>i < unat count. m' (pa + of_nat i) = kernel_image d (unat offset + i))"
proof -
  define r where "r = unat offset mod 512"
  let ?p = "pa - offset mod 512"
  have r: "r \<le> unat pa" using assms(2) by (simp add: r_def)
  have "unat (offset mod 512) = r" by (simp add: unat_mod r_def)
  then have p: "unat ?p = unat pa - r" using r by (simp add: unat_sub word_le_nat_alt)
  have e: "unat (pa + count) = unat pa + unat count" using unat_plus [of pa "unat count"] assms(3) by simp
  have n: "offset div 512 + 1 = of_nat (unat offset div 512 + 1)"
  proof -
    have "offset div 512 = of_nat (unat (offset div 512))" by simp
    then have "offset div 512 = of_nat (unat offset div 512)" by (simp add: unat_div)
    then show ?thesis by (simp add: add.commute)
  qed
  obtain k where k: "512 * k \<le> r + unat count + 511" "r + unat count \<le> 512 * k"
    by (rule that [of "(r + unat count + 511) div 512"]) simp_all
  have b: "unat ?p + 512 * k < 2 ^ 32" "unat (pa + count) \<le> unat ?p + 512 * k" using k r assms(3) unfolding p e by simp_all
  have "k = 0 \<or> unat ?p + 512 * (k - 1) < unat (pa + count)" using k r unfolding p e by (cases k) simp_all
  note b = b(1) this b(2)
  obtain m' where m': "readseg_loop d (pa + count) ?p (of_nat (unat offset div 512 + 1)) m = Some m'"
      "\<And>a. m' a = (if unat ?p \<le> unat a \<and> unat a < unat ?p + 512 * k then sector d (unat offset div 512 + 1 + (unat a - unat ?p) div 512) ! ((unat a - unat ?p) mod 512) else m a)"
    using readseg_loop_spec [OF assms(1) b, of "unat offset div 512 + 1" m] by blast
  have "m' (pa + of_nat i) = kernel_image d (unat offset + i)" if i: "i < unat count" for i
  proof -
    have a: "unat (pa + of_nat i) = unat pa + i" using unat_plus [of pa i] i assms(3) by simp
    have x: "unat (pa + of_nat i) - unat ?p = r + i" using a p r by simp
    have "unat ?p \<le> unat (pa + of_nat i)" "unat (pa + of_nat i) < unat ?p + 512 * k" using a i k(2) r unfolding p by simp_all
    then have v: "m' (pa + of_nat i) = sector d (unat offset div 512 + 1 + (r + i) div 512) ! ((r + i) mod 512)" using m'(2) x by simp
    have "unat offset div 512 + (r + i) div 512 = (unat offset + i) div 512" "(r + i) mod 512 = (unat offset + i) mod 512"
    proof -
      have "unat offset + i = 512 * (unat offset div 512) + (r + i)" by (simp add: r_def)
      then have "(unat offset + i) div 512 = (512 * (unat offset div 512) + (r + i)) div 512" "(unat offset + i) mod 512 = (512 * (unat offset div 512) + (r + i)) mod 512"
        by (simp_all only:)
      then show "unat offset div 512 + (r + i) div 512 = (unat offset + i) div 512" "(r + i) mod 512 = (unat offset + i) mod 512"
        by (simp_all only: div_mult_self4 mod_mult_self4)
    qed
    then show ?thesis using v by (simp add: kernel_image_def)
  qed
  then show ?thesis using m'(1) unfolding readseg_def n by blast
qed

end
