(* ===== verification/User_Tools.thy ===== *)
theory User_Tools
  imports User_Properties
begin

text \<open>
  Listing directories (\<^verbatim>\<open>user/bin/ls.c\<close>, \<^verbatim>\<open>stat\<close> of \<^verbatim>\<open>user/lib/ulib.c\<close>) and the small programs around a system call
  (\<^verbatim>\<open>kill\<close>, \<^verbatim>\<open>ln\<close>, \<^verbatim>\<open>mkdir\<close>, \<^verbatim>\<open>rm\<close>, \<^verbatim>\<open>clear\<close>, \<^verbatim>\<open>zombie\<close>, \<^verbatim>\<open>init\<close> under \<^verbatim>\<open>user/bin\<close>). The system calls that the environment of the programs does not have are arguments.
\<close>

section \<open>The status of a file\<close>

text \<open>Type, inode and size, as far as the programs look at them. The argument \<open>info\<close> says what \<^verbatim>\<open>fstat\<close> tells of the file with a path, given the files there are.\<close>

record ustat =
  us_type :: u16
  us_ino :: u32
  us_size :: u32

type_synonym info = "(byte list \<rightharpoonup> byte list) \<Rightarrow> byte list \<Rightarrow> ustat option"

definition ufstat :: "info \<Rightarrow> int \<Rightarrow> ust \<Rightarrow> ustat option" where
  "ufstat info fd s = (case ufile_of fd s of Some (Reg f off) \<Rightarrow> info (ufiles s) f | _ \<Rightarrow> None)"

definition ulib_stat :: "info \<Rightarrow> byte list \<Rightarrow> ust \<Rightarrow> ustat option \<times> ust" where
  "ulib_stat info n s =
     (let (fd, s) = uopen n False s
      in if fd < 0 then (None, s) else (ufstat info fd s, uclose fd s))"

section \<open>ls\<close>

abbreviation (input) DIRSIZ :: nat where "DIRSIZ \<equiv> 14"

definition fmtname :: "byte list \<Rightarrow> byte list" where
  "fmtname path =
     (let p = rev (takeWhile (\<lambda>c. c \<noteq> 47) (rev path))
      in if ustrlen p \<ge> DIRSIZ then p else p @ replicate (DIRSIZ - ustrlen p) 32)"

definition basename :: "nat \<Rightarrow> byte list \<Rightarrow> byte list" where
  "basename dstsz path =
     (let p = dropWhile (\<lambda>c. c = 47) (rev path);
          comp = rev (takeWhile (\<lambda>c. c \<noteq> 47) p);
          comp = (if length comp \<ge> dstsz then take (dstsz - 1) comp else comp)
      in if comp = [] \<and> dstsz > 1 then str ''.'' else comp)"

definition typestr :: "u16 \<Rightarrow> byte list" where
  "typestr t = (if t = 1 then str ''dir'' else if t = 2 then str ''file'' else if t = 3 then str ''device'' else str ''unknown'')"

definition emit_entry :: "bool \<Rightarrow> byte list \<Rightarrow> byte list \<Rightarrow> ustat \<Rightarrow> ust \<Rightarrow> ust" where
  "emit_entry json path name st s =
     (if \<not> json then printf 1 (str ''%s %d %d %d\<newline>'') [fmtname path] [1, scast (us_type st), us_ino st, us_size st] s
      else
        struct_end
          (struct_field_int (str ''size'') (us_size st)
          (struct_field_int (str ''inode'') (us_ino st)
          (struct_field_str (str ''type'') (typestr (us_type st))
          (struct_field_str (str ''name'') name
          (struct_field_str (str ''path'') path (struct_begin 1 s)))))))"

text \<open>The loop over the entries of a directory, 16 bytes each: the inode number and the name. It ends at the first read that does not deliver 16 bytes.\<close>

partial_function (option) ls_dir :: "info \<Rightarrow> bool \<Rightarrow> byte list \<Rightarrow> int \<Rightarrow> ust \<Rightarrow> ust option" where
  "ls_dir info json path fd s =
     (case uread fd 16 s of (n, de, s) \<Rightarrow>
        if n = 16 then
          (if get16 de 0 = 0 then ls_dir info json path fd s
           else
             (let name = cstring (take DIRSIZ (drop 2 de));
                  full = path @ 47 # name
              in case ulib_stat info full s of (st, s) \<Rightarrow>
                   case st of
                     None \<Rightarrow> ls_dir info json path fd (printf 1 (str ''ls: cannot stat %s\<newline>'') [full] [1] s)
                   | Some st \<Rightarrow> ls_dir info json path fd (emit_entry json full name st s)))
        else Some s)"

definition ls :: "info \<Rightarrow> bool \<Rightarrow> byte list \<Rightarrow> ust \<Rightarrow> ust option" where
  "ls info json path s =
     (case uopen path False s of (fd, s) \<Rightarrow>
        if fd < 0 then Some (printf 2 (str ''ls: cannot open %s\<newline>'') [path] [1] s)
        else
          (case ufstat info fd s of
             None \<Rightarrow> Some (uclose fd (printf 2 (str ''ls: cannot stat %s\<newline>'') [path] [1] s))
           | Some st \<Rightarrow>
               if us_type st = 2 then
                 Some (uclose fd (emit_entry json path (if json then basename (DIRSIZ + 1) path else fmtname path) st s))
               else if us_type st = 1 then
                 (if ustrlen path + 1 + DIRSIZ + 1 > 512 then Some (uclose fd (printf 1 (str ''ls: path too long\<newline>'') [] [] s))
                  else map_option (uclose fd) (ls_dir info json path fd s))
               else Some (uclose fd s)))"

fun ls_files :: "info \<Rightarrow> bool \<Rightarrow> byte list list \<Rightarrow> ust \<Rightarrow> ust option" where
  "ls_files info json [] s = Some s"
| "ls_files info json (a # as) s = (case ls info json a s of None \<Rightarrow> None | Some s \<Rightarrow> ls_files info json as s)"

definition ls_main :: "info \<Rightarrow> byte list list \<Rightarrow> ust \<Rightarrow> ust option" where
  "ls_main info argv s =
     (case modern_consume_flags (str ''ls'') argv True s of
        Exited s \<Rightarrow> Some s
      | Go (i, json) s \<Rightarrow> if i \<ge> length argv then ls info json (str ''.'') s else ls_files info json (drop i argv) s)"

section \<open>Programs around one system call\<close>

text \<open>The arguments are the system calls: they return a number, negative for a failure.\<close>

definition kill_main :: "(u32 \<Rightarrow> ust \<Rightarrow> int \<times> ust) \<Rightarrow> byte list list \<Rightarrow> ust \<Rightarrow> ust" where
  "kill_main kill argv s =
     (if length argv < 2 then printf 2 (str ''usage: kill pid...\<newline>'') [] [] s
      else fold (\<lambda>a s. snd (kill (atoi a) s)) (tl argv) s)"

definition ln_main :: "(byte list \<Rightarrow> byte list \<Rightarrow> ust \<Rightarrow> int \<times> ust) \<Rightarrow> byte list list \<Rightarrow> ust \<Rightarrow> ust" where
  "ln_main link argv s =
     (if length argv \<noteq> 3 then printf 2 (str ''Usage: ln old new\<newline>'') [] [] s
      else
        (let (r, s) = link (argv ! 1) (argv ! 2) s
         in if r < 0 then printf 2 (str ''link %s %s: failed\<newline>'') [argv ! 1, argv ! 2] [1, 2] s else s))"

text \<open>The loops of \<^verbatim>\<open>mkdir\<close> and \<^verbatim>\<open>rm\<close> end at the first failure.\<close>

fun mkdir_loop :: "(byte list \<Rightarrow> ust \<Rightarrow> int \<times> ust) \<Rightarrow> byte list list \<Rightarrow> ust \<Rightarrow> ust" where
  "mkdir_loop mkdir [] s = s"
| "mkdir_loop mkdir (a # as) s =
     (let (r, s) = mkdir a s
      in if r < 0 then printf 2 (str ''mkdir: %s failed to create\<newline>'') [a] [1] s else mkdir_loop mkdir as s)"

definition mkdir_main :: "(byte list \<Rightarrow> ust \<Rightarrow> int \<times> ust) \<Rightarrow> byte list list \<Rightarrow> ust \<Rightarrow> ust" where
  "mkdir_main mkdir argv s =
     (if length argv < 2 then printf 2 (str ''Usage: mkdir files...\<newline>'') [] [] s else mkdir_loop mkdir (tl argv) s)"

fun rm_loop :: "(byte list \<Rightarrow> ust \<Rightarrow> int \<times> ust) \<Rightarrow> byte list list \<Rightarrow> ust \<Rightarrow> ust" where
  "rm_loop unlink [] s = s"
| "rm_loop unlink (a # as) s =
     (let (r, s) = unlink a s
      in if r < 0 then printf 2 (str ''rm: %s failed to delete\<newline>'') [a] [1] s else rm_loop unlink as s)"

definition rm_main :: "(byte list \<Rightarrow> ust \<Rightarrow> int \<times> ust) \<Rightarrow> byte list list \<Rightarrow> ust \<Rightarrow> ust" where
  "rm_main unlink argv s =
     (if length argv < 2 then printf 2 (str ''Usage: rm files...\<newline>'') [] [] s else rm_loop unlink (tl argv) s)"

definition clear_main :: "ust \<Rightarrow> ust" where
  "clear_main s = printf 1 ([27] @ str ''[2J'' @ [27] @ str ''[H'') [] [] s"

section \<open>The first process\<close>

text \<open>\<^verbatim>\<open>init\<close> and \<^verbatim>\<open>zombie\<close> do nothing but system calls: a program point says which one is made there, and where its result leads. \<^verbatim>\<open>printf\<close> counts as one call.\<close>

datatype ucall =
    COpen "byte list" u32
  | CMknod "byte list" nat nat
  | CDup int
  | CPrint "byte list"
  | CFork
  | CExec "byte list" "byte list list"
  | CWait
  | CSleep nat
  | CExit

datatype init_pc =
    I_open | I_mknod | I_reopen | I_dup_out | I_dup_err
  | I_start | I_fork | I_fork_failed | I_exec | I_exec_failed | I_wait int | I_zombie int | I_exit

fun init_call :: "init_pc \<Rightarrow> ucall" where
  "init_call I_open = COpen (str ''console'') 2"
| "init_call I_mknod = CMknod (str ''console'') 1 1"
| "init_call I_reopen = COpen (str ''console'') 2"
| "init_call I_dup_out = CDup 0"
| "init_call I_dup_err = CDup 0"
| "init_call I_start = CPrint (str ''init: starting hello\<newline>'')"
| "init_call I_fork = CFork"
| "init_call I_fork_failed = CPrint (str ''init: fork failed\<newline>'')"
| "init_call I_exec = CExec (str ''bin/hello'') [str ''hello'']"
| "init_call I_exec_failed = CPrint (str ''init: exec hello failed\<newline>'')"
| "init_call (I_wait pid) = CWait"
| "init_call (I_zombie pid) = CPrint (str ''zombie!\<newline>'')"
| "init_call I_exit = CExit"

text \<open>The point after the call has returned \<open>r\<close>. \<^verbatim>\<open>exec\<close> returns only when it fails, \<^verbatim>\<open>exit\<close> never.\<close>

fun init_next :: "init_pc \<Rightarrow> int \<Rightarrow> init_pc" where
  "init_next I_open r = (if r < 0 then I_mknod else I_dup_out)"
| "init_next I_mknod r = I_reopen"
| "init_next I_reopen r = I_dup_out"
| "init_next I_dup_out r = I_dup_err"
| "init_next I_dup_err r = I_start"
| "init_next I_start r = I_fork"
| "init_next I_fork r = (if r < 0 then I_fork_failed else if r = 0 then I_exec else I_wait r)"
| "init_next I_fork_failed r = I_exit"
| "init_next I_exec r = I_exec_failed"
| "init_next I_exec_failed r = I_exit"
| "init_next (I_wait pid) r = (if r \<ge> 0 \<and> r \<noteq> pid then I_zombie pid else I_start)"
| "init_next (I_zombie pid) r = I_wait pid"
| "init_next I_exit r = I_exit"

datatype zombie_pc = Z_fork | Z_sleep | Z_exit

fun zombie_call :: "zombie_pc \<Rightarrow> ucall" where
  "zombie_call Z_fork = CFork"
| "zombie_call Z_sleep = CSleep 5"
| "zombie_call Z_exit = CExit"

fun zombie_next :: "zombie_pc \<Rightarrow> int \<Rightarrow> zombie_pc" where
  "zombie_next Z_fork r = (if r > 0 then Z_sleep else Z_exit)"
| "zombie_next Z_sleep r = Z_exit"
| "zombie_next Z_exit r = Z_exit"

text \<open>The runs of \<^verbatim>\<open>init\<close>: the calls made so far with their results.\<close>

inductive init_run :: "(ucall \<times> int) list \<Rightarrow> init_pc \<Rightarrow> bool" where
  init_begin: "init_run [] I_open"
| init_more: "init_run h pc \<Longrightarrow> init_run (h @ [(init_call pc, r)]) (init_next pc r)"

text \<open>As long as \<^verbatim>\<open>fork\<close> delivers a child, the first process never exits and never leaves its loop: it is the process that adopts all orphans.
  It waits for a child only after that child was made.\<close>

lemma init_never_exits:
  "init_run h pc \<Longrightarrow> (\<forall>r. (CFork, r) \<in> set h \<longrightarrow> 0 < r) \<Longrightarrow>
     pc \<notin> {I_fork_failed, I_exec, I_exec_failed, I_exit} \<and> (\<forall>pid. pc = I_wait pid \<or> pc = I_zombie pid \<longrightarrow> (CFork, pid) \<in> set h)"
proof (induction rule: init_run.induct)
  case (init_more h pc r)
  then have "pc \<notin> {I_fork_failed, I_exec, I_exec_failed, I_exit}" "\<And>pid. pc = I_wait pid \<or> pc = I_zombie pid \<Longrightarrow> (CFork, pid) \<in> set h" by auto
  moreover have "pc = I_fork \<Longrightarrow> 0 < r" using init_more.prems by simp
  ultimately show ?case by (cases pc) auto
qed simp

section \<open>What ls prints\<close>

lemma free_fd_Some: "free_fd s = Some i \<Longrightarrow> i < length (ufd s) \<and> ufd s ! i = None"
proof -
  assume "free_fd s = Some i"
  then obtain is' where "filter (\<lambda>i. ufd s ! i = None) [0..<length (ufd s)] = i # is'" by (auto simp: free_fd_def split: list.splits)
  then have "i \<in> set (filter (\<lambda>i. ufd s ! i = None) [0..<length (ufd s)])" by (simp only: list.set_intros)
  then show ?thesis by simp
qed

lemma uopen_read:
  "free_fd s = Some i \<Longrightarrow> ufiles s n = Some c \<Longrightarrow> uopen n False s = (int i, set_ufd (int i) (Some (Reg n 0)) s)"
  by (simp add: uopen_def ucontent_def fun_upd_idem)

lemma uclose_open: "free_fd s = Some i \<Longrightarrow> uclose (int i) (set_ufd (int i) f s) = s"
  using free_fd_Some [of s i] by (simp add: uclose_def set_ufd_def list_update_same_conv)

text \<open>\<^verbatim>\<open>stat\<close> leaves everything as it was.\<close>

lemma ulib_stat_eq:
  "ulib_stat info n s = (if free_fd s = None \<or> ufiles s n = None then None else info (ufiles s) n, s)"
proof (cases "free_fd s")
  case (Some i)
  show ?thesis
  proof (cases "ufiles s n")
    case None
    then show ?thesis using Some by (simp add: ulib_stat_def uopen_def)
  next
    case c: (Some c)
    have "ufile_of (int i) (set_ufd (int i) (Some (Reg n 0)) s) = Some (Reg n 0)"
      using free_fd_Some [OF Some] by (simp add: ufile_of_def set_ufd_def)
    then show ?thesis using Some c uopen_read [OF Some c] uclose_open [OF Some] by (simp add: ulib_stat_def ufstat_def)
  qed
qed (simp add: ulib_stat_def uopen_def)

text \<open>The line for one file: an object with five fields, or the name and three numbers.\<close>

definition entry_line :: "bool \<Rightarrow> byte list \<Rightarrow> byte list \<Rightarrow> ustat \<Rightarrow> byte list" where
  "entry_line json path name st =
     (if json then
        [123] @ fields_text [(str ''path'', JStr path), (str ''name'', JStr name), (str ''type'', JStr (typestr (us_type st))),
          (str ''inode'', JInt (sint (us_ino st))), (str ''size'', JInt (sint (us_size st)))] @ [125, 10]
      else
        fmtname path @ [32] @ printint True (scast (us_type st)) 10 True @ [32] @ printint True (us_ino st) 10 True @ [32] @
        printint True (us_size st) 10 True @ [10])"

lemma emit_entry_line: "is_stream 1 s \<Longrightarrow> emit_entry json path name st s = emit 1 (entry_line json path name st) s"
proof (cases json)
  case True
  let ?fs = "[(str ''path'', JStr path), (str ''name'', JStr name), (str ''type'', JStr (typestr (us_type st))),
    (str ''inode'', JInt (sint (us_ino st))), (str ''size'', JInt (sint (us_size st)))]"
  assume "is_stream 1 s"
  then have "write_object 1 ?fs s = emit 1 (entry_line json path name st) s" using write_object_text True by (simp add: entry_line_def del: fields_text.simps)
  moreover have "emit_entry json path name st s = write_object 1 ?fs s" using True by (simp add: emit_entry_def write_object_def)
  ultimately show ?thesis by simp
next
  case False
  then show "is_stream 1 s \<Longrightarrow> ?thesis" by (simp add: emit_entry_def entry_line_def str_def)
qed

text \<open>In the structured form, the fields can be read back.\<close>

lemma entry_line_parse:
  "us_ino st \<noteq> 0x80000000 \<Longrightarrow> us_size st \<noteq> 0x80000000 \<Longrightarrow> json_parse (entry_line True path name st) =
     Some [(str ''path'', JStr path), (str ''name'', JStr name), (str ''type'', JStr (typestr (us_type st))),
       (str ''inode'', JInt (sint (us_ino st))), (str ''size'', JInt (sint (us_size st)))]"
proof -
  have k: "key_ok (str ''path'')" "key_ok (str ''name'')" "key_ok (str ''type'')" "key_ok (str ''inode'')" "key_ok (str ''size'')"
    by (simp_all add: key_ok_def str_def)
  assume "us_ino st \<noteq> 0x80000000" "us_size st \<noteq> 0x80000000"
  moreover have "- (2 ^ 31) < sint x \<and> sint x < 2 ^ 31" if "x \<noteq> 0x80000000" for x :: u32
  proof -
    have "sint x \<noteq> sint (0x80000000 :: u32)" using that signed_word_eqI [of x "0x80000000"] by auto
    then show ?thesis using sint_ge [of x] sint_lt [of x] by simp
  qed
  ultimately have "\<forall>f \<in> set [(str ''path'', JStr path), (str ''name'', JStr name), (str ''type'', JStr (typestr (us_type st))),
      (str ''inode'', JInt (sint (us_ino st))), (str ''size'', JInt (sint (us_size st)))]. field_ok f" using k by simp
  from json_parse_text [OF this] show ?thesis unfolding entry_line_def by (simp only: if_True)
qed

text \<open>What is printed for one entry of the directory.\<close>

definition entry_text :: "info \<Rightarrow> bool \<Rightarrow> byte list \<Rightarrow> (byte list \<rightharpoonup> byte list) \<Rightarrow> byte list \<Rightarrow> byte list" where
  "entry_text info json path files de =
     (let name = cstring (take DIRSIZ (drop 2 de)); full = path @ 47 # name
      in if get16 de 0 = 0 then []
         else case (if files full = None then None else info files full) of
                None \<Rightarrow> str ''ls: cannot stat '' @ full @ [10]
              | Some st \<Rightarrow> entry_line json full name st)"

lemma free_fd_cong: "map (\<lambda>f. f = None) (ufd s) = map (\<lambda>f. f = None) (ufd t) \<Longrightarrow> free_fd s = free_fd t"
proof -
  assume e: "map (\<lambda>f. f = None) (ufd s) = map (\<lambda>f. f = None) (ufd t)"
  then have l: "length (ufd s) = length (ufd t)" by (rule map_eq_imp_length_eq)
  have "(ufd s ! i = None) = (ufd t ! i = None)" if "i < length (ufd t)" for i
    using arg_cong [OF e, of "\<lambda>xs. xs ! i"] that l by simp
  then have "filter (\<lambda>i. ufd s ! i = None) [0..<length (ufd s)] = filter (\<lambda>i. ufd t ! i = None) [0..<length (ufd t)]"
    unfolding l by (intro filter_cong) simp_all
  then show ?thesis by (simp add: free_fd_def)
qed

lemma free_fd_emit [simp]: "free_fd (emit fd bs s) = free_fd s"
  by (simp add: free_fd_def)

lemma free_fd_seek: "ufile_of fd s \<noteq> None \<Longrightarrow> free_fd (set_ufd fd (Some f) s) = free_fd s"
  by (rule free_fd_cong) (auto simp: ufile_of_def set_ufd_def list_eq_iff_nth_eq nth_list_update split: if_splits)

lemma ls_dir_entries:
  assumes "is_stream 1 s" "ufile_of fd s = Some (Reg f off)" "free_fd s \<noteq> None"
    "drop off (ucontent f s) = concat des @ rest" "\<forall>de \<in> set des. length de = 16" "length rest < 16"
  shows "\<exists>off'. ls_dir info json path fd s = Some (set_ufd fd (Some (Reg f off')) (emit 1 (concat (map (entry_text info json path (ufiles s)) des)) s))"
  using assms
proof (induction des arbitrary: s off)
  case Nil
  then show ?case by (subst ls_dir.simps) (auto simp: uread_def Let_def)
next
  case (Cons de des)
  define s1 where "s1 = set_ufd fd (Some (Reg f (off + 16))) s"
  let ?out = "entry_text info json path (ufiles s) de"
  have fd: "0 \<le> fd" "fd \<noteq> 1" using Cons.prems(1,2) by (auto simp: ufile_of_def is_stream_def split: if_splits)
  have l: "length de = 16" using Cons.prems(5) by simp
  have "take 16 (drop off (ucontent f s)) = de" using Cons.prems(4) l by simp
  then have r: "uread fd 16 s = (16, de, s1)" using Cons.prems(2) l by (simp add: uread_def Let_def s1_def del: length_take length_drop take_drop)
  have s1: "is_stream 1 s1" "free_fd s1 \<noteq> None" "ufiles s1 = ufiles s" "ufile_of fd s1 = Some (Reg f (off + 16))" "ucontent f s1 = ucontent f s"
    using Cons.prems(1-3) fd by (auto simp: s1_def is_stream_def free_fd_seek)
  have step: "ls_dir info json path fd s = ls_dir info json path fd (emit 1 ?out s1)"
    using s1(1,2,3)
    by (subst ls_dir.simps) (auto simp: r entry_text_def Let_def ulib_stat_eq emit_entry_line str_def split: option.split)
  have d: "drop (off + 16) (ucontent f s) = concat des @ rest"
    using arg_cong [OF Cons.prems(4), of "drop 16"] l by (simp add: add.commute)
  have "\<exists>off'. ls_dir info json path fd (emit 1 ?out s1) =
    Some (set_ufd fd (Some (Reg f off')) (emit 1 (concat (map (entry_text info json path (ufiles (emit 1 ?out s1))) des)) (emit 1 ?out s1)))"
    using Cons.prems(5,6) s1 d by (intro Cons.IH) (simp_all add: ucontent_def)
  then show ?case unfolding step by (auto simp: s1_def set_ufd_def emit_def)
qed

text \<open>\<^verbatim>\<open>ls\<close> of a directory returns, prints what \<open>entry_text\<close> says for every entry in the order of the directory, and changes nothing else. A
  rest of less than 16 bytes is ignored.\<close>

lemma ls_directory:
  assumes "is_stream 1 s" "ufiles s path = Some (concat des @ rest)" "\<forall>de \<in> set des. length de = 16" "length rest < 16"
    "info (ufiles s) path = Some st" "us_type st = 1" "length path \<le> 496"
    "free_fd s = Some i" "free_fd (snd (uopen path False s)) \<noteq> None"
  shows "ls info json path s = Some (emit 1 (concat (map (entry_text info json path (ufiles s)) des)) s)"
proof -
  let ?s = "set_ufd (int i) (Some (Reg path 0)) s"
  note i = free_fd_Some [OF assms(8)]
  have u: "ustrlen xs = length xs" for xs by (induction xs) simp_all
  have f: "ufile_of (int i) ?s = Some (Reg path 0)" using i by (simp add: ufile_of_def set_ufd_def)
  have o: "uopen path False s = (int i, ?s)" by (rule uopen_read [OF assms(8,2)])
  have "i \<noteq> 1" using assms(1) i by (auto simp: is_stream_def ufile_of_def)
  then have "is_stream 1 ?s" using assms(1) by (auto simp: is_stream_def ufile_of_def set_ufd_def split: if_splits)
  then obtain off where "ls_dir info json path (int i) ?s =
      Some (set_ufd (int i) (Some (Reg path off)) (emit 1 (concat (map (entry_text info json path (ufiles s)) des)) ?s))"
    using ls_dir_entries [OF _ f, of des rest info json path] assms(2,3,4,9) o by (auto simp: ucontent_def)
  moreover have "uclose (int i) (set_ufd (int i) g (emit 1 x ?s)) = emit 1 x s" for g x
    using uclose_open [of "emit 1 x s" i g] assms(8) by (simp add: uclose_def set_ufd_def emit_def free_fd_def)
  ultimately show ?thesis using o f assms(5,6,7) u by (simp add: ls_def ufstat_def)
qed

end
