(* ===== verification/Spec2Isabelle.thy ===== *)
theory Spec2Isabelle
  imports Crash_Safety Fs_Properties Process_Properties Pipe_Properties Trap_Properties Ide Text_Properties Ted_Properties Shell_Meaning Umalloc_Properties Platform Boot User_Tools
begin

text \<open>
  Dave is a small Unix in the xv6 tradition: a kernel for x86 machines with several processors, its file system and
  drivers, and a user land with a shell, a line editor and text tools. This development models its routines as functions
  on explicit states and proves what the parts promise to each other and to their users.

  \<^bold>\<open>How the code is modelled.\<close> A C structure is a record, a static variable a field of the state of its component, a pointer into
  a static table an index, a pointer into memory a 32-bit address; integers keep their width where it matters
  (\<open>u32\<close>, \<open>byte\<close>). Signed overflow, which C leaves undefined, is the wrap-around of the machine (\<open>wrap32\<close>, \<open>printint\<close>); the theorems exclude it. The state of the kernel grows with the components that are added to it, as a chain of extensible records: \<open>pst\<close> (process
  table), \<open>bst\<close> (buffer cache and disk), \<open>lst\<close> (log), \<open>fsst\<close> (inodes), \<open>cst\<close> (console), \<open>mst\<close> (memory), \<open>vst\<close> (page tables), \<open>pist\<close> (pipes), \<open>fist\<close> (open files) and \<open>kst\<close>
  (ticks and the rest), so that a lemma about a lower component holds of every kernel above it. A routine returns an \<open>outcome\<close>: \<open>Ok\<close> with its result and the new state, \<open>Panic\<close>,
  \<open>Sleep\<close> when it would block, with the channel it waits for, or \<open>Undef\<close> where C gives no meaning (an access outside an array, a null pointer); \<open>on\<close> and
  \<open>loop\<close> of \<open>Prelude\<close> put them together. The kernel routines run under the spin lock that their code takes; the mutual exclusion on which this rests is proved in \<open>Spinlock\<close>, where
  the lock routines are split at their atomic instructions. User programs run on the state \<open>ust\<close> of \<open>User_Env\<close>: their
  descriptors, the files and what they have written; a file takes at most \<^verbatim>\<open>MAXFILE*BSIZE\<close> bytes, as in \<^verbatim>\<open>writei\<close>.

  \<^bold>\<open>The theories and their sources\<close> (all paths below \<^verbatim>\<open>src\<close>):
  \<^item> \<open>Prelude\<close>: machine types, constants (\<^verbatim>\<open>include/types.h\<close>, \<^verbatim>\<open>include/param.h\<close>), outcomes, loops and shared lemmas.
  \<^item> \<open>Proc_Table\<close>, \<open>Proc\<close>: \<^verbatim>\<open>include/proc.h\<close>, \<^verbatim>\<open>system/core/proc.c\<close>. \<open>Proc_Frame\<close> says what its callees leave alone; \<open>Process_Properties\<close> has exit, wait, scheduler, creation and kill.
  \<^item> \<open>Spinlock\<close>, \<open>Sleeplock\<close>: \<^verbatim>\<open>system/sync\<close>; mutual exclusion by induction over the interleaved steps of all processors.
  \<^item> \<open>Bio\<close>, \<open>Ide\<close>: \<^verbatim>\<open>system/storage/bio.c\<close>, \<^verbatim>\<open>memide.c\<close>, \<^verbatim>\<open>ide.c\<close>; the buffer cache with its invariant, over the memory disk (\<^verbatim>\<open>kernelmemfs\<close> of the \<^verbatim>\<open>Makefile\<close>); the queue and the interrupt routine of \<^verbatim>\<open>ide.c\<close>, which the default kernel links, are in \<open>Ide\<close>.
  \<^item> \<open>Superblock\<close>, \<open>Log\<close>, \<open>Crash_Safety\<close>: \<^verbatim>\<open>system/storage/log.c\<close>; every operation, the writes of a commit one by one, crashes between any two of them, recovery, and admission of system calls.
  \<^item> \<open>Fs_Block\<close>, \<open>Fs_Inode\<close>, \<open>Fs_File\<close>: \<^verbatim>\<open>system/storage/fs.c\<close>. \<open>Fs_Bmap\<close>, \<open>Fs_Content\<close>, \<open>Fs_Total\<close>, \<open>Fs_Trunc\<close> relate the block map to the bytes of a file and show that the routines return; \<open>Fs_Properties\<close> has the results.
  \<^item> \<open>Strings\<close>, \<open>Printing\<close>, \<open>Console\<close>, \<open>Devices\<close>: \<^verbatim>\<open>system/runtime/string.c\<close>, \<^verbatim>\<open>system/devices\<close>.
  \<^item> \<open>Kalloc\<close>, \<open>Vm\<close>: \<^verbatim>\<open>system/memory\<close>. The locale \<open>page_allocator\<close> is the contract between them, interpreted on \<open>kalloc\<close> and \<open>kfree\<close>. \<open>Vm_Spec\<close> reads page tables as maps, \<open>Vm_User\<close> and \<open>Vm_Copy\<close> build, copy and free address spaces; \<open>Memory_Properties\<close> has the results.
  \<^item> \<open>Ring\<close>, \<open>Pipe\<close>, \<open>Pipe_Properties\<close>: \<^verbatim>\<open>system/core/pipe.c\<close>. The locale \<open>byte_queue\<close> is the contract of a bounded queue, interpreted on the ring buffer of a pipe, whose counters wrap around.
  \<^item> \<open>File\<close>, \<open>Exec\<close>, \<open>Syscall\<close>, \<open>Sysfile\<close>, \<open>Trap\<close>: \<^verbatim>\<open>system/core/file.c\<close>, \<^verbatim>\<open>exec.c\<close>, \<^verbatim>\<open>syscall.c\<close>, \<^verbatim>\<open>sysproc.c\<close>, \<^verbatim>\<open>sysfile.c\<close>, \<^verbatim>\<open>system/platform/x86/trap.c\<close>; \<open>Trap_Properties\<close> has the bounds of arguments and the way back to user mode.
  \<^item> \<open>Examples\<close>, \<open>Kernel_Example\<close>: concrete kernels on which the theorems are applied.
  \<^item> \<open>User_Env\<close>, \<open>User_Lib\<close>, \<open>User_Properties\<close>: \<^verbatim>\<open>user/lib\<close>; strings, formatted and structured output.
  \<^item> \<open>Text_Tools\<close>, \<open>Text_Properties\<close>: \<^verbatim>\<open>user/bin/grep.c\<close>, \<^verbatim>\<open>wc.c\<close>, \<^verbatim>\<open>cat.c\<close>, \<^verbatim>\<open>echo.c\<close>.
  \<^item> \<open>Ted\<close>, \<open>Ted_Properties\<close>: \<^verbatim>\<open>user/bin/ted.c\<close>.
  \<^item> \<open>Shell\<close>, \<open>Shell_Properties\<close>, \<open>Shell_Meaning\<close>: \<^verbatim>\<open>user/bin/hello.c\<close>.
  \<^item> \<open>Umalloc\<close>, \<open>Umalloc_Properties\<close>: \<^verbatim>\<open>user/lib/umalloc.c\<close>.
  \<^item> \<open>User_Tools\<close>: \<^verbatim>\<open>user/bin/ls.c\<close>, \<^verbatim>\<open>init.c\<close>, \<^verbatim>\<open>kill.c\<close>, \<^verbatim>\<open>ln.c\<close>, \<^verbatim>\<open>mkdir.c\<close>, \<^verbatim>\<open>rm.c\<close>, \<^verbatim>\<open>zombie.c\<close>, \<^verbatim>\<open>clear.c\<close>; system calls that \<open>User_Env\<close> does not have are arguments.
  \<^item> \<open>Platform\<close>: \<^verbatim>\<open>system/platform/x86/mp.c\<close>, \<^verbatim>\<open>lapic.c\<close>, \<^verbatim>\<open>ioapic.c\<close>, \<^verbatim>\<open>picirq.c\<close>. What is written to registers and ports is a list, what is read there an argument.
  \<^item> \<open>Boot\<close>: \<^verbatim>\<open>boot/stage1/bootmain.c\<close>, with the disk as an argument.

  \<^bold>\<open>What is proved.\<close> C1 to C5: transactions are atomic and durable under crashes at every write, also at every write of the recovery itself, and admitted system calls do not overflow
  the log, under every interleaving of their steps, but for the last block of a log that has exactly \<^verbatim>\<open>LOGSIZE\<close> blocks. C6, C7: spin locks exclude each other, and a bracket of \<^verbatim>\<open>acquire\<close> and \<^verbatim>\<open>release\<close> restores the interrupt flag. C8 to C13: files hold what was written to them, and blocks are neither lost nor shared.
  C14 to C19: processes end, are reaped, are scheduled fairly and created with fresh identifiers (until the counter of pids reaches the largest \<^verbatim>\<open>int\<close>). C20, C21: pipes are bounded first-in
  first-out streams under every interleaving. C22 to C28: pages and page tables. C29, C30: user programs cannot make the kernel leave their memory, and killed
  processes do not come back. C31 and C32: structured output can be read back (if the keys need no escape), and so can printed numbers that are not negative. C33 to C35: \<^verbatim>\<open>grep\<close> and \<^verbatim>\<open>wc\<close> against their
  meaning. C36, C37: the editor's buffer as a map, and saving and loading for programs that fit into a file and a line buffer. C38, C39: the shell parses every line and runs what was typed. C40: the
  memory allocator of the programs never hands out memory twice. Lemmas beside these: what \<^verbatim>\<open>ls\<close> prints for a directory (\<open>ls_directory\<close>), that \<^verbatim>\<open>init\<close> never exits while \<^verbatim>\<open>fork\<close> succeeds
  (\<open>init_never_exits\<close>), that the boot loader puts the bytes of the kernel where it was told to (\<open>readseg_correct\<close>), and that reading the tables of the machine finds its processors, but
  never ends at an entry of an unknown kind (\<open>mp_loop_entries\<close>, \<open>mp_loop_unknown\<close>).

  \<^bold>\<open>Loops and fuel.\<close> Loops over tables and counters are recursion on what is left. Where C may run for ever, the definition says so: \<open>read_loop\<close>, \<open>ted_loop\<close>,
  \<open>hello_loop\<close>, \<open>open_console\<close>, \<open>ustrcpy\<close>, \<open>free_loop\<close>, \<open>malloc_loop\<close>, \<open>ls_dir\<close>, \<open>readseg_loop\<close>, \<open>boot_load\<close>, \<open>mp_loop\<close>, \<open>lapic_wait\<close> and \<open>cmos_loop\<close> are partial functions whose value \<open>None\<close> means
  that they do not return. The theorems about \<open>read_loop\<close>, \<open>ted_loop\<close>, the allocator, \<open>ls_dir\<close>, \<open>readseg_loop\<close> and \<open>mp_loop\<close> show when they do; \<open>lapic_wait\<close> and \<open>cmos_loop\<close> wait for the hardware. The parsers of the shell that call each other take fuel, four units for each character and four more: each
  call either moves forward in the line or goes one step down a chain of four, and C38 shows that the fuel is never used up.

  \<^bold>\<open>Not modelled.\<close> Assembly code and the registers it saves (\<^verbatim>\<open>boot/stage0\<close>, \<^verbatim>\<open>boot/init\<close>, \<^verbatim>\<open>swtch.S\<close>, \<^verbatim>\<open>trapasm.S\<close>), and \<^verbatim>\<open>system/core/main.c\<close>, which calls the initialisation routines and
  starts the other processors on such code. The behaviour of the hardware is not in the sources: what devices deliver is an argument
  of the drivers, and waiting for the disk in the boot loader is left out. \<^verbatim>\<open>seginit\<close>, \<^verbatim>\<open>tvinit\<close>, \<^verbatim>\<open>idtinit\<close> fill tables of the processor that no other routine reads; \<^verbatim>\<open>panic\<close> is the outcome \<open>Panic\<close>, without the
  printed addresses. Weak memory and the cache of page table entries are left out: memory is sequentially consistent. The test programs under \<^verbatim>\<open>user\<close> are left out, since the routines that
  they exercise are proved instead, as are the build scripts.
\<close>

end
